(* ===== verification/Sdb_Prelude.thy ===== *)
theory Sdb_Prelude
  imports Main "HOL-Library.Word"
begin

text \<open>
  Shared vocabulary of the development: the machine types of
  \<^verbatim>\<open>include/sdb/types.h\<close>, C strings, the few functions of the C library the sources
  call on them, the little-endian encoding of 32-bit integers, and the list lemmas
  the components share.

  A C string is a HOL \<open>string\<close> without the terminating NUL.  A byte is a \<open>char\<close>, so
  that the bytes of a database file and the characters of a key have one type;
  \<open>nonul\<close> says that a byte list is a C string.  A pointer into a string is the
  suffix it points to.
\<close>

unbundle bit_operations_syntax

type_synonym ut8 = "8 word"
type_synonym ut32 = "32 word"
type_synonym ut64 = "64 word"
type_synonym bytes = "char list"

named_theorems cstr_simps \<open>rewriting of the C string functions\<close>
named_theorems inv_intros \<open>preservation of the invariants\<close>

abbreviation NUL :: char where
  "NUL \<equiv> CHR 0x00"

text \<open>The record separator of arrays, \<^verbatim>\<open>SDB_RS\<close> of \<^verbatim>\<open>include/sdb/sdb.h\<close>.\<close>

definition SDB_RS :: char where
  "SDB_RS = CHR '',''"

definition INT_MAX :: nat where
  "INT_MAX = 2147483647"

definition UT32_MAX :: nat where
  "UT32_MAX = 4294967295"

definition UT64_MAX :: ut64 where
  "UT64_MAX = 0xffffffffffffffff"

definition SDB_MAX_KEY :: nat where
  "SDB_MAX_KEY = 255"

definition SDB_MAX_VALUE :: nat where
  "SDB_MAX_VALUE = 16777215"

definition SDB_KSZ :: nat where
  "SDB_KSZ = 255"

definition SDB_VSZ :: nat where
  "SDB_VSZ = 16777215"

definition SDB_NUM_BASE :: int where
  "SDB_NUM_BASE = 16"

definition SDB_NUM_BUFSZ :: nat where
  "SDB_NUM_BUFSZ = 64"

section \<open>C strings\<close>

definition nonul :: "bytes \<Rightarrow> bool" where
  "nonul s \<longleftrightarrow> NUL \<notin> set s"

text \<open>The C string that starts at the head of a byte list.\<close>

definition cstring :: "bytes \<Rightarrow> string" where
  "cstring bs = takeWhile (\<lambda>c. c \<noteq> NUL) bs"

text \<open>\<^verbatim>\<open>*s\<close>: the character a pointer refers to, the terminator at the end.\<close>

definition deref :: "string \<Rightarrow> char" where
  "deref s = (case s of [] \<Rightarrow> NUL | c # _ \<Rightarrow> c)"

text \<open>\<^verbatim>\<open>strchr\<close>: the suffix that starts at the first occurrence, if there is one.\<close>

fun strchr :: "string \<Rightarrow> char \<Rightarrow> string option" where
  "strchr [] c = None"
| "strchr (x # xs) c = (if x = c then Some (x # xs) else strchr xs c)"

text \<open>\<^verbatim>\<open>strncmp (a, b, n) == 0\<close> on C strings.\<close>

fun strneq :: "string \<Rightarrow> string \<Rightarrow> nat \<Rightarrow> bool" where
  "strneq a b 0 = True"
| "strneq [] [] (Suc n) = True"
| "strneq [] (y # ys) (Suc n) = False"
| "strneq (x # xs) [] (Suc n) = False"
| "strneq (x # xs) (y # ys) (Suc n) = (x = y \<and> strneq xs ys n)"

text \<open>\<^verbatim>\<open>strstr\<close>: the suffix at the first occurrence of a needle.\<close>

fun prefix_of :: "string \<Rightarrow> string \<Rightarrow> bool" where
  "prefix_of [] s = True"
| "prefix_of (x # xs) [] = False"
| "prefix_of (x # xs) (y # ys) = (x = y \<and> prefix_of xs ys)"

fun strstr :: "string \<Rightarrow> string \<Rightarrow> string option" where
  "strstr [] b = (if b = [] then Some [] else None)"
| "strstr (x # xs) b = (if prefix_of b (x # xs) then Some (x # xs) else strstr xs b)"

text \<open>A \<open>char\<close> is signed on the targets the sources are built for.\<close>

definition schar :: "char \<Rightarrow> int" where
  "schar c = (let n = (of_char c :: int) in if n < 128 then n else n - 256)"

text \<open>\<^verbatim>\<open>strcmp\<close> compares bytes as \<^verbatim>\<open>unsigned char\<close>.\<close>

fun strcmp :: "string \<Rightarrow> string \<Rightarrow> int" where
  "strcmp [] [] = 0"
| "strcmp [] (y # ys) = - 1"
| "strcmp (x # xs) [] = 1"
| "strcmp (x # xs) (y # ys) =
     (if x = y then strcmp xs ys
      else if (of_char x :: nat) < of_char y then - 1 else 1)"

lemma strchr_None [cstr_simps]: "strchr s c = None \<longleftrightarrow> c \<notin> set s"
  by (induction s) auto

lemma strchr_Some [cstr_simps]: "c \<in> set s \<Longrightarrow> strchr s c = Some (dropWhile (\<lambda>x. x \<noteq> c) s)"
  by (induction s) auto

lemma strchr_SomeD: "strchr s c = Some n \<Longrightarrow> n = dropWhile (\<lambda>x. x \<noteq> c) s \<and> c \<in> set s"
  using strchr_None strchr_Some by (metis option.discI option.inject)

lemma strchr_append_sep: "c \<notin> set a \<Longrightarrow> strchr (a @ c # b) c = Some (c # b)"
  by (induction a) auto

lemma strchr_length: "strchr s c = Some n \<Longrightarrow> n \<noteq> [] \<and> length n \<le> length s"
  by (induction s) (auto split: if_splits)

lemma prefix_of_iff: "prefix_of p s \<longleftrightarrow> take (length p) s = p"
  by (induction p s rule: prefix_of.induct) auto

lemma prefix_of_append: "prefix_of p s \<longleftrightarrow> (\<exists>t. s = p @ t)"
  by (induction p s rule: prefix_of.induct) auto

lemma strstr_None: "strstr s b = None \<longleftrightarrow> (\<nexists>u v. s = u @ b @ v)"
proof (induction s)
  case Nil
  then show ?case by auto
next
  case (Cons x xs)
  have "(\<exists>u v. x # xs = u @ b @ v) \<longleftrightarrow> prefix_of b (x # xs) \<or> (\<exists>u v. xs = u @ b @ v)"
  proof
    assume "\<exists>u v. x # xs = u @ b @ v"
    then obtain u v where uv: "x # xs = u @ b @ v" by blast
    show "prefix_of b (x # xs) \<or> (\<exists>u v. xs = u @ b @ v)"
    proof (cases u)
      case Nil
      with uv show ?thesis by (auto simp: prefix_of_append)
    next
      case (Cons y ys)
      with uv have "xs = ys @ b @ v" by simp
      then show ?thesis by blast
    qed
  next
    assume "prefix_of b (x # xs) \<or> (\<exists>u v. xs = u @ b @ v)"
    then show "\<exists>u v. x # xs = u @ b @ v"
    proof
      assume "prefix_of b (x # xs)"
      then obtain t where "x # xs = b @ t" by (auto simp: prefix_of_append)
      then have "x # xs = [] @ b @ t" by simp
      then show ?thesis by blast
    next
      assume "\<exists>u v. xs = u @ b @ v"
      then obtain u v where "xs = u @ b @ v" by blast
      then have "x # xs = (x # u) @ b @ v" by simp
      then show ?thesis by blast
    qed
  qed
  with Cons.IH show ?case by simp
qed

lemma strstr_SomeD: "strstr s b = Some n \<Longrightarrow> \<exists>u v. s = u @ n \<and> n = b @ v"
proof (induction s)
  case Nil
  then show ?case by (auto split: if_splits)
next
  case (Cons x xs)
  show ?case
  proof (cases "prefix_of b (x # xs)")
    case True
    with Cons.prems show ?thesis by (auto simp: prefix_of_append)
  next
    case False
    with Cons.prems have "strstr xs b = Some n" by simp
    then obtain u v where "xs = u @ n" "n = b @ v" using Cons.IH by blast
    then have "x # xs = (x # u) @ n \<and> n = b @ v" by simp
    then show ?thesis by blast
  qed
qed

lemma nonul_simps [simp]:
  "nonul []"
  "nonul (c # s) \<longleftrightarrow> c \<noteq> NUL \<and> nonul s"
  "nonul (a @ b) \<longleftrightarrow> nonul a \<and> nonul b"
  by (auto simp: nonul_def)

lemma cstring_nonul [simp]: "nonul (cstring bs)"
  by (auto simp: nonul_def cstring_def dest: set_takeWhileD)

lemma cstring_terminated: "nonul s \<Longrightarrow> cstring (s @ NUL # r) = s"
  by (induction s) (auto simp: cstring_def)

lemma cstring_id: "nonul s \<Longrightarrow> cstring s = s"
  by (induction s) (auto simp: cstring_def)

lemma strcmp_eq_0: "strcmp a b = 0 \<longleftrightarrow> a = b"
  by (induction a b rule: strcmp.induct) auto

lemma of_char_nat_inject: "(of_char x :: nat) = of_char y \<longleftrightarrow> x = y"
  by (metis char_of_char)

lemma strcmp_antisym: "strcmp a b = - strcmp b a"
  by (induction a b rule: strcmp.induct) (auto simp: not_less_iff_gr_or_eq of_char_nat_inject)

lemma strcmp_trans: "strcmp a b \<le> 0 \<Longrightarrow> strcmp b c \<le> 0 \<Longrightarrow> strcmp a c \<le> 0"
proof (induction a arbitrary: b c)
  case Nil
  then show ?case by (cases c) auto
next
  case (Cons x xs)
  then show ?case by (cases b; cases c) (auto split: if_splits)
qed

section \<open>Separated strings\<close>

text \<open>
  The list of fields of a string, and back: the abstract content of an SDB array.
  The operations of \<^verbatim>\<open>src/array.c\<close> and \<^verbatim>\<open>src/util.c\<close> are specified against it.
\<close>

fun splitc :: "char \<Rightarrow> string \<Rightarrow> string list" where
  "splitc c [] = [[]]"
| "splitc c (x # xs) =
     (if x = c then [] # splitc c xs
      else (x # hd (splitc c xs)) # tl (splitc c xs))"

fun joinc :: "char \<Rightarrow> string list \<Rightarrow> string" where
  "joinc c [] = []"
| "joinc c [x] = x"
| "joinc c (x # y # zs) = x @ c # joinc c (y # zs)"

lemma splitc_nonempty [simp]: "splitc c s \<noteq> []"
  by (cases s) auto

lemma joinc_Cons: "xs \<noteq> [] \<Longrightarrow> joinc c (x # xs) = x @ c # joinc c xs"
  by (cases xs) auto

lemma joinc_splitc [simp]: "joinc c (splitc c s) = s"
proof (induction s)
  case Nil
  then show ?case by simp
next
  case (Cons x xs)
  obtain y ys where "splitc c xs = y # ys"
    by (meson neq_Nil_conv splitc_nonempty)
  with Cons.IH show ?case by (cases ys) auto
qed

lemma splitc_no_sep: "c \<notin> set s \<Longrightarrow> splitc c s = [s]"
  by (induction s) auto

lemma splitc_append_sep: "c \<notin> set a \<Longrightarrow> splitc c (a @ c # b) = a # splitc c b"
  by (induction a) auto

lemma splitc_fields_no_sep: "f \<in> set (splitc c s) \<Longrightarrow> c \<notin> set f"
proof (induction s arbitrary: f)
  case Nil
  then show ?case by simp
next
  case (Cons x xs)
  obtain y ys where *: "splitc c xs = y # ys"
    by (meson neq_Nil_conv splitc_nonempty)
  with Cons show ?case by (auto split: if_splits)
qed

lemma splitc_joinc:
  "xs \<noteq> [] \<Longrightarrow> (\<And>x. x \<in> set xs \<Longrightarrow> c \<notin> set x) \<Longrightarrow> splitc c (joinc c xs) = xs"
proof (induction c xs rule: joinc.induct)
  case (3 c x y zs)
  then show ?case by (simp add: splitc_append_sep)
qed (auto simp: splitc_no_sep)

lemma splitc_span:
  "splitc c s =
     (if c \<in> set s
      then takeWhile (\<lambda>x. x \<noteq> c) s # splitc c (tl (dropWhile (\<lambda>x. x \<noteq> c) s))
      else [s])"
proof (cases "c \<in> set s")
  case True
  then obtain a b where s: "s = a @ c # b" and a: "c \<notin> set a"
    by (meson split_list_first)
  have "takeWhile (\<lambda>x. x \<noteq> c) s = a" "dropWhile (\<lambda>x. x \<noteq> c) s = c # b"
    using a by (auto simp: s takeWhile_append dropWhile_append)
  with s a True show ?thesis by (simp add: splitc_append_sep)
qed (simp add: splitc_no_sep)

lemma splitc_append: "splitc c (a @ c # b) = splitc c a @ splitc c b"
proof (induction a)
  case Nil
  then show ?case by simp
next
  case (Cons x xs)
  obtain y ys where "splitc c xs = y # ys"
    by (meson neq_Nil_conv splitc_nonempty)
  with Cons show ?case by simp
qed

lemma joinc_append:
  "xs \<noteq> [] \<Longrightarrow> ys \<noteq> [] \<Longrightarrow> joinc c (xs @ ys) = joinc c xs @ c # joinc c ys"
proof (induction xs rule: joinc.induct)
  case (2 c x)
  then show ?case by (simp add: joinc_Cons)
qed auto

lemma length_splitc: "length (splitc c s) = Suc (length (filter (\<lambda>x. x = c) s))"
  by (induction s) (auto simp: Suc_le_eq)

lemma splitc_eq_Nil_field: "splitc c s = [[]] \<longleftrightarrow> s = []"
  by (metis joinc.simps(2) joinc_splitc splitc.simps(1))

section \<open>Little-endian integers\<close>

text \<open>\<^verbatim>\<open>ut32_pack\<close> and \<^verbatim>\<open>ut32_unpack\<close> of \<^verbatim>\<open>include/sdb/types.h\<close>.\<close>

definition ut32_pack :: "nat \<Rightarrow> bytes" where
  "ut32_pack u = [char_of u, char_of (u div 256), char_of (u div 65536), char_of (u div 16777216)]"

definition ut32_unpack :: "bytes \<Rightarrow> nat" where
  "ut32_unpack s =
     ((of_char (s ! 3) * 256 + of_char (s ! 2)) * 256 + of_char (s ! 1)) * 256 + of_char (s ! 0)"

lemma ut32_pack_length [simp]: "length (ut32_pack u) = 4"
  by (simp add: ut32_pack_def)

lemma of_char_lt_256: "(of_char c :: nat) < 256"
proof -
  have "(of_char c :: nat) = of_char c mod 256"
    by (metis char_of_char of_char_of)
  then show ?thesis by simp
qed

lemma ut32_unpack_less: "ut32_unpack s < 4294967296"
proof -
  have le: "(of_char c :: nat) \<le> 255" for c
    using of_char_lt_256 [of c] by arith
  have "((a * 256 + b) * 256 + c) * 256 + d < 4294967296"
    if "a \<le> 255" "b \<le> 255" "c \<le> 255" "d \<le> 255" for a b c d :: nat
  proof -
    have 1: "a * 256 + b \<le> 65535" using that by linarith
    have 2: "(a * 256 + b) * 256 + c \<le> 16777215" using mult_le_mono1 [OF 1, of 256] that by linarith
    show ?thesis using mult_le_mono1 [OF 2, of 256] that by linarith
  qed
  from this [OF le le le le] show ?thesis
    unfolding ut32_unpack_def .
qed

lemma base256_digits:
  fixes u :: nat
  assumes "u < 2 ^ 32"
  shows "((u div 16777216 * 256 + u div 65536 mod 256) * 256 + u div 256 mod 256) * 256 + u mod 256 = u"
proof -
  have "u div 65536 = u div 256 div 256" "u div 16777216 = u div 256 div 256 div 256"
    by (simp_all flip: div_mult2_eq)
  then show ?thesis
    using div_mult_mod_eq [of u 256] div_mult_mod_eq [of "u div 256" 256]
      div_mult_mod_eq [of "u div 256 div 256" 256]
    by simp
qed

lemma ut32_unpack_pack_append: "u < 2 ^ 32 \<Longrightarrow> ut32_unpack (ut32_pack u @ r) = u"
  using base256_digits [of u] by (simp add: ut32_unpack_def ut32_pack_def)

lemma ut32_unpack_pack: "u < 2 ^ 32 \<Longrightarrow> ut32_unpack (ut32_pack u) = u"
  using ut32_unpack_pack_append [of u "[]"] by simp

lemma option_eqI: "(\<And>x. a = Some x \<longleftrightarrow> b = Some x) \<Longrightarrow> a = b"
  by (metis option.exhaust)

end
