(* ===== verification/Sdb_Util.thy ===== *)
theory Sdb_Util
  imports Sdb_Prelude
begin

text \<open>
  \<^verbatim>\<open>src/util.c\<close> and the inline hash of \<^verbatim>\<open>include/sdb/sdb.h\<close>: the string hash, the
  conversion between numbers and strings, the primitives on comma-separated arrays
  and the value classifiers.  The clock functions of the file read the system time
  and are not modelled; \<^verbatim>\<open>strtoull\<close> is the one of the C standard with base 0.
\<close>

section \<open>Hash\<close>

definition CDB_HASHSTART :: ut32 where
  "CDB_HASHSTART = 5381"

text \<open>\<^verbatim>\<open>SDB_HASH_ONELINER\<close>: the character is sign-extended before the exclusive or.\<close>

definition hash_step :: "ut32 \<Rightarrow> char \<Rightarrow> ut32" where
  "hash_step h c = (h + push_bit 5 h) XOR word_of_int (schar c)"

fun sdb_hash_loop :: "ut32 \<Rightarrow> ut32 \<Rightarrow> string \<Rightarrow> ut32 \<times> ut32" where
  "sdb_hash_loop h count [] = (h, count)"
| "sdb_hash_loop h count (c # s) = sdb_hash_loop (hash_step h c) (count + 1) s"

definition sdb_hash_len :: "string \<Rightarrow> ut32 \<times> ut32" where
  "sdb_hash_len s = sdb_hash_loop CDB_HASHSTART 0 s"

definition sdb_hash :: "string \<Rightarrow> ut32" where
  "sdb_hash s = fst (sdb_hash_len s)"

definition sdb_hash_byte :: "string \<Rightarrow> ut8" where
  "sdb_hash_byte s =
     (let h = sdb_hash s in
      ucast h XOR ucast (drop_bit 8 h) XOR ucast (drop_bit 16 h) XOR ucast (drop_bit 24 h))"

section \<open>Numbers to strings and back\<close>

text \<open>
  \<^verbatim>\<open>sdb_itoa\<close> fills its buffer from the end.  The model keeps the index \<open>i\<close> of the
  next byte to write and the text \<open>s[i+1..]\<close> written so far; a write at a negative
  index is the result \<open>ItoaUnderrun\<close>.  The buffer is the caller's, of \<open>oslen\<close>
  bytes, or the local one of 64 bytes when the caller gives none.
\<close>

datatype itoa_result = ItoaNull | ItoaUnderrun | ItoaStr string

definition itoa_digit :: "nat \<Rightarrow> char" where
  "itoa_digit d = ''0123456789abcdef'' ! d"

function itoa_loop :: "nat \<Rightarrow> nat \<Rightarrow> int \<Rightarrow> string \<Rightarrow> int \<times> string" where
  "itoa_loop n base i acc =
     (if n = 0 \<or> i \<le> 0 then (i, acc)
      else itoa_loop (n div base) base (i - 1) (itoa_digit (n mod base) # acc))"
  by pat_completeness auto
termination
  by (relation "measure (\<lambda>(n, base, i, acc). nat i)") auto

declare itoa_loop.simps [simp del]

definition sdb_itoa :: "ut64 \<Rightarrow> int \<Rightarrow> nat option \<Rightarrow> itoa_result" where
  "sdb_itoa n base0 os =
     (let base1 = (if base0 = 0 then SDB_NUM_BASE else base0);
          sl = (case os of Some oslen \<Rightarrow> oslen | None \<Rightarrow> SDB_NUM_BUFSZ);
          imax = int sl - 2;
          base = (if base1 < 0 then - base1 else base1)
      in if base > 16 then ItoaNull
         else if n = 0 then
           (case os of None \<Rightarrow> ItoaStr ''0''
            | Some oslen \<Rightarrow>
                if oslen \<ge> 2 then ItoaStr ''0'' else if oslen = 1 then ItoaStr [] else ItoaNull)
         else if imax + 1 < 0 then ItoaUnderrun
         else
           let (i, acc) = itoa_loop (unat n) (nat base) imax [] in
           if base \<le> 10 then ItoaStr acc
           else
             let (i, acc) = (if i \<noteq> imax then (i - 1, CHR ''x'' # acc) else (i, acc))
             in if i < 0 then ItoaUnderrun else ItoaStr (CHR ''0'' # acc))"

text \<open>
  The call with a caller's buffer of \<^verbatim>\<open>SDB_NUM_BUFSZ\<close> bytes, as every numeric
  operation of the library makes it; the result is never an underrun
  (\<open>itoa64_str\<close> below).
\<close>

definition itoa64 :: "ut64 \<Rightarrow> int \<Rightarrow> string" where
  "itoa64 n base = (case sdb_itoa n base (Some SDB_NUM_BUFSZ) of ItoaStr s \<Rightarrow> s | _ \<Rightarrow> [])"

definition isspace :: "char \<Rightarrow> bool" where
  "isspace c \<longleftrightarrow> c = CHR '' '' \<or> (9 \<le> (of_char c :: nat) \<and> (of_char c :: nat) \<le> 13)"

definition digit_val :: "char \<Rightarrow> nat option" where
  "digit_val c =
     (let n = (of_char c :: nat) in
      if 48 \<le> n \<and> n \<le> 57 then Some (n - 48)
      else if 97 \<le> n \<and> n \<le> 122 then Some (n - 87)
      else if 65 \<le> n \<and> n \<le> 90 then Some (n - 55)
      else None)"

definition isdigit_in :: "nat \<Rightarrow> char \<Rightarrow> bool" where
  "isdigit_in base c = (case digit_val c of Some d \<Rightarrow> d < base | None \<Rightarrow> False)"

fun strtoull_digits :: "nat \<Rightarrow> nat \<Rightarrow> string \<Rightarrow> nat" where
  "strtoull_digits base acc [] = acc"
| "strtoull_digits base acc (c # s) =
     (if isdigit_in base c
      then strtoull_digits base (acc * base + the (digit_val c)) s else acc)"

text \<open>\<^verbatim>\<open>strtoull (s, \<dots>, 0)\<close>, saturating at \<^verbatim>\<open>ULLONG_MAX\<close>.\<close>

definition strtoull0 :: "string \<Rightarrow> ut64" where
  "strtoull0 s =
     (let s1 = dropWhile isspace s;
          neg = (deref s1 = CHR ''-'');
          s2 = (if deref s1 = CHR ''-'' \<or> deref s1 = CHR ''+'' then tl s1 else s1);
          v = (if deref s2 = CHR ''0'' then
                 if (deref (tl s2) = CHR ''x'' \<or> deref (tl s2) = CHR ''X'')
                   \<and> isdigit_in 16 (deref (tl (tl s2)))
                 then strtoull_digits 16 0 (tl (tl s2)) else strtoull_digits 8 0 s2
               else strtoull_digits 10 0 s2)
      in if v \<ge> 2 ^ 64 then UT64_MAX
         else if neg then - word_of_nat v else word_of_nat v)"

definition sdb_atoi :: "string \<Rightarrow> ut64" where
  "sdb_atoi s = (if deref s = CHR ''-'' then 0 else strtoull0 s)"

section \<open>Arrays in strings\<close>

text \<open>One pass of the inner loop of \<^verbatim>\<open>sdb_array_compact\<close>, and whether it changed anything.\<close>

function compact_pass :: "string \<Rightarrow> string \<times> bool" where
  "compact_pass [] = ([], False)"
| "compact_pass (x # xs) =
     (if x = SDB_RS \<and> xs \<noteq> [] \<and> hd xs = SDB_RS
      then let (r, ch) = compact_pass (dropWhile (\<lambda>c. c = SDB_RS) xs) in (SDB_RS # r, True)
      else let (r, ch) = compact_pass xs in (x # r, ch))"
  by pat_completeness auto
termination
  by (relation "measure length") (auto simp: less_Suc_eq_le length_dropWhile_le)

lemma compact_pass_length:
  "length (fst (compact_pass s)) \<le> length s
   \<and> (snd (compact_pass s) \<longrightarrow> length (fst (compact_pass s)) < length s)"
proof (induction s rule: compact_pass.induct)
  case (2 x xs)
  show ?case
  proof (cases "x = SDB_RS \<and> xs \<noteq> [] \<and> hd xs = SDB_RS")
    case True
    then obtain ys where xs: "xs = SDB_RS # ys" by (cases xs) auto
    let ?d = "dropWhile (\<lambda>c. c = SDB_RS) xs"
    have "length ?d \<le> length ys" by (simp add: xs length_dropWhile_le)
    moreover have "length (fst (compact_pass ?d)) \<le> length ?d"
      using "2.IH"(1) [OF True] by blast
    ultimately show ?thesis using True xs by (auto simp: case_prod_beta)
  next
    case False
    then show ?thesis using "2.IH"(2) [OF False] by (auto simp: case_prod_beta)
  qed
qed simp

function sdb_array_compact :: "string \<Rightarrow> string" where
  "sdb_array_compact p =
     (let (p', changed) = compact_pass p in
      if changed \<and> p' \<noteq> [] then sdb_array_compact p' else p')"
  by pat_completeness auto
termination
  by (relation "measure length") (auto dest: compact_pass_length [THEN conjunct2, rule_format]
      simp: prod_eq_iff)

declare sdb_array_compact.simps [simp del]

text \<open>
  \<^verbatim>\<open>sdb_aslice\<close>: \<open>str\<close> is the suffix at the first character of element \<open>from\<close>,
  the slice ends where element \<open>to\<close> starts.
\<close>

fun aslice_loop :: "int \<Rightarrow> int \<Rightarrow> string \<Rightarrow> int \<Rightarrow> string option \<Rightarrow> string option \<times> string option" where
  "aslice_loop from to [] idx str = (str, None)"
| "aslice_loop from to (c # p) idx str =
     (let str' = (if str = None \<and> idx = from then Some (c # p) else str) in
      if idx = to then (str', Some (c # p))
      else aslice_loop from to p (if c = CHR '','' then idx + 1 else idx) str')"

definition sdb_aslice :: "string \<Rightarrow> int \<Rightarrow> int \<Rightarrow> string option" where
  "sdb_aslice out from to =
     (if from \<ge> to then None
      else case aslice_loop from to out 0 None of
        (None, _) \<Rightarrow> None
      | (Some str, None) \<Rightarrow> Some str
      | (Some str, Some end) \<Rightarrow> Some (take (length str - length end) str))"

function alen_loop :: "string \<Rightarrow> nat \<Rightarrow> nat" where
  "alen_loop p len =
     (case strchr p SDB_RS of None \<Rightarrow> len | Some n \<Rightarrow> alen_loop (tl n) (Suc len))"
  by pat_completeness auto
termination
proof (relation "measure (\<lambda>(p, len). length p)")
  show "wf (measure (\<lambda>(p, len). length p))" by simp
next
  fix p n :: string and len :: nat
  assume "strchr p SDB_RS = Some n"
  then have "n \<noteq> [] \<and> length n \<le> length p" by (rule strchr_length)
  then show "((tl n, Suc len), p, len) \<in> measure (\<lambda>(p, len). length p)"
    by (cases n) auto
qed

declare alen_loop.simps [simp del]

definition sdb_alen :: "string option \<Rightarrow> nat" where
  "sdb_alen str =
     (case str of None \<Rightarrow> 0
      | Some p \<Rightarrow> if p = [] then 0 else Suc (alen_loop p 0))"

function alen_ne_loop :: "string \<Rightarrow> nat \<Rightarrow> string \<times> nat" where
  "alen_ne_loop p len =
     (case strchr p SDB_RS of None \<Rightarrow> (p, len)
      | Some n \<Rightarrow>
          if deref (tl n) = SDB_RS then alen_ne_loop (tl n) len
          else alen_ne_loop (tl n) (Suc len))"
  by pat_completeness auto
termination
proof (relation "measure (\<lambda>(p, len). length p)")
  show "wf (measure (\<lambda>(p, len). length p))" by simp
next
  fix p n :: string and len :: nat
  assume "strchr p SDB_RS = Some n"
  then have *: "n \<noteq> [] \<and> length n \<le> length p" by (rule strchr_length)
  then show "((tl n, len), p, len) \<in> measure (\<lambda>(p, len). length p)"
    by (cases n) auto
  from * show "((tl n, Suc len), p, len) \<in> measure (\<lambda>(p, len). length p)"
    by (cases n) auto
qed

declare alen_ne_loop.simps [simp del]

definition sdb_alen_ignore_empty :: "string option \<Rightarrow> nat" where
  "sdb_alen_ignore_empty str =
     (case str of None \<Rightarrow> 0
      | Some p \<Rightarrow>
          if p = [] then 0
          else let (p', len) = alen_ne_loop (dropWhile (\<lambda>c. c = SDB_RS) p) 0
               in if p' \<noteq> [] then Suc len else len)"

text \<open>\<^verbatim>\<open>sdb_anext\<close> cuts the first element off; the second component is \<^verbatim>\<open>*next\<close>.\<close>

definition sdb_anext :: "string \<Rightarrow> string \<times> string option" where
  "sdb_anext str =
     (case strchr str SDB_RS of
        Some p \<Rightarrow> (takeWhile (\<lambda>c. c \<noteq> SDB_RS) str, Some (tl p))
      | None \<Rightarrow> (str, None))"

definition sdb_const_anext :: "string \<Rightarrow> string option" where
  "sdb_const_anext str = map_option tl (strchr str SDB_RS)"

section \<open>Classifiers\<close>

definition sdb_isnum :: "string \<Rightarrow> bool" where
  "sdb_isnum s =
     (let vs = deref s in
      (vs = CHR ''-'' \<or> vs = CHR ''+'') \<or> isdigit_in 10 vs)"

definition sdb_num_base :: "string option \<Rightarrow> int" where
  "sdb_num_base s =
     (case s of None \<Rightarrow> SDB_NUM_BASE
      | Some s \<Rightarrow>
          if strneq s ''0x'' 2 then 16
          else if deref s = CHR ''0'' \<and> deref (tl s) \<noteq> NUL then 8 else 10)"

fun isjson_loop :: "string \<Rightarrow> int \<Rightarrow> bool \<Rightarrow> bool" where
  "isjson_loop [] level quotes = (\<not> quotes \<and> level = 0)"
| "isjson_loop (c # k) level quotes =
     (if quotes then isjson_loop k level (c \<noteq> CHR 0x22)
      else if c = CHR 0x22 then isjson_loop k level True
      else if c = CHR ''['' \<or> c = CHR ''{'' then isjson_loop k (level + 1) False
      else if c = CHR '']'' \<or> c = CHR ''}'' then
        (if level - 1 < 0 then False else isjson_loop k (level - 1) False)
      else isjson_loop k level False)"

definition sdb_isjson :: "string option \<Rightarrow> bool" where
  "sdb_isjson k =
     (case k of None \<Rightarrow> False
      | Some k \<Rightarrow>
          if deref k \<noteq> CHR ''{'' \<and> deref k \<noteq> CHR ''['' then False
          else isjson_loop k 0 False)"

definition sdb_type :: "string option \<Rightarrow> string" where
  "sdb_type k =
     (case k of None \<Rightarrow> ''undefined''
      | Some k \<Rightarrow>
          if k = [] then ''undefined''
          else if sdb_isnum k then ''number''
          else if sdb_isjson (Some k) then ''json''
          else if strchr k (CHR '','') \<noteq> None then ''array''
          else if k = ''true'' \<or> k = ''false'' then ''boolean''
          else ''string'')"

section \<open>Digits\<close>

text \<open>The digits of a number, most significant first: what \<open>itoa_loop\<close> writes when the buffer is long enough.\<close>

fun digs :: "nat \<Rightarrow> nat \<Rightarrow> string" where
  "digs base n =
     (if n = 0 \<or> base < 2 then [] else digs base (n div base) @ [itoa_digit (n mod base)])"

declare digs.simps [simp del]

lemma digs_length: "2 \<le> base \<Longrightarrow> n < base ^ k \<Longrightarrow> length (digs base n) \<le> k"
proof (induction k arbitrary: n)
  case 0
  then show ?case by (simp add: digs.simps)
next
  case (Suc k)
  then have "n div base < base ^ k"
    by (simp add: less_mult_imp_div_less mult.commute)
  with Suc.IH [of "n div base"] Suc.prems show ?case
    by (subst digs.simps) auto
qed

lemma itoa_loop_digs:
  assumes "2 \<le> base" "int (length (digs base n)) \<le> i"
  shows "itoa_loop n base i acc = (i - int (length (digs base n)), digs base n @ acc)"
  using assms
proof (induction base n arbitrary: i acc rule: digs.induct)
  case (1 base n)
  show ?case
  proof (cases "n = 0 \<or> base < 2")
    case True
    with "1.prems" have "n = 0" by simp
    then show ?thesis by (subst itoa_loop.simps) (simp add: digs.simps)
  next
    case False
    let ?m = "n div base"
    have d: "digs base n = digs base ?m @ [itoa_digit (n mod base)]"
      using False by (subst digs.simps) simp
    have "int (length (digs base ?m)) \<le> i - 1"
      using "1.prems" by (simp add: d)
    from "1.IH" [OF False "1.prems"(1) this, of "itoa_digit (n mod base) # acc"]
    show ?thesis using False "1.prems"
      by (subst itoa_loop.simps) (auto simp: d)
  qed
qed

lemma less_16_cases: "(d :: nat) < 16 \<Longrightarrow> d \<in> {0,1,2,3,4,5,6,7,8,9,10,11,12,13,14,15}"
  by (auto simp: numeral_eq_Suc less_Suc_eq)

lemma digit_val_itoa_digit: "d < 16 \<Longrightarrow> digit_val (itoa_digit d) = Some d"
  by (drule less_16_cases) (auto simp: digit_val_def itoa_digit_def)

lemma isdigit_itoa_digit: "d < base \<Longrightarrow> base \<le> 16 \<Longrightarrow> isdigit_in base (itoa_digit d)"
  by (simp add: isdigit_in_def digit_val_itoa_digit)

lemma strtoull_digits_append:
  "list_all (isdigit_in base) a \<Longrightarrow>
   strtoull_digits base acc (a @ b) = strtoull_digits base (strtoull_digits base acc a) b"
  by (induction a arbitrary: acc) auto

lemma digs_digits: "base \<le> 16 \<Longrightarrow> list_all (isdigit_in base) (digs base n)"
proof (induction base n rule: digs.induct)
  case (1 base n)
  then show ?case by (subst digs.simps) (auto simp: isdigit_itoa_digit)
qed

lemma strtoull_digs: "2 \<le> base \<Longrightarrow> base \<le> 16 \<Longrightarrow> strtoull_digits base 0 (digs base n) = n"
proof (induction base n rule: digs.induct)
  case (1 base n)
  show ?case
  proof (cases "n = 0")
    case False
    have "isdigit_in base (itoa_digit (n mod base))"
      using "1.prems" by (simp add: isdigit_itoa_digit)
    moreover have "digit_val (itoa_digit (n mod base)) = Some (n mod base)"
      using "1.prems" mod_less_divisor [of base n] by (intro digit_val_itoa_digit) linarith
    ultimately show ?thesis
      using False 1 by (subst digs.simps) (auto simp: strtoull_digits_append digs_digits)
  qed (simp add: digs.simps)
qed

lemma digs_hd: "2 \<le> base \<Longrightarrow> base \<le> 16 \<Longrightarrow> n \<noteq> 0 \<Longrightarrow>
   \<exists>d r. digs base n = itoa_digit d # r \<and> 0 < d \<and> d < base"
proof (induction base n rule: digs.induct)
  case (1 base n)
  show ?case
  proof (cases "n div base = 0")
    case True
    then have "n < base" using "1.prems" by (simp add: div_eq_0_iff)
    with True 1 show ?thesis by (subst digs.simps) (auto simp: digs.simps [of _ 0])
  next
    case False
    with 1 obtain d r where "digs base (n div base) = itoa_digit d # r" "0 < d" "d < base"
      by auto
    then show ?thesis using "1.prems" by (subst digs.simps) auto
  qed
qed

lemma unat_ut64: "unat (n :: ut64) < 2 ^ 64"
  using unsigned_less [of n] by simp

lemma digs_ut64_length: "3 \<le> base \<Longrightarrow> length (digs base (unat (n :: ut64))) \<le> 41"
proof -
  assume b: "3 \<le> base"
  have "unat n < 2 ^ 64" by (rule unat_ut64)
  also have "\<dots> < 3 ^ 41" by simp
  also have "\<dots> \<le> base ^ 41" by (rule power_mono [OF b]) simp
  finally show ?thesis using b by (intro digs_length) auto
qed

lemma itoa64_dec: "n \<noteq> 0 \<Longrightarrow> itoa64 n 10 = digs 10 (unat n)"
  using digs_ut64_length [of 10 n]
  by (simp add: itoa64_def sdb_itoa_def SDB_NUM_BUFSZ_def itoa_loop_digs)

lemma itoa64_hex: "n \<noteq> 0 \<Longrightarrow> itoa64 n 16 = ''0x'' @ digs 16 (unat n)"
proof -
  assume n: "n \<noteq> 0"
  then have "digs 16 (unat n) \<noteq> []"
    using digs_hd [of 16 "unat n"] by (auto simp: unat_eq_zero)
  then show ?thesis using n digs_ut64_length [of 16 n]
    by (simp add: itoa64_def sdb_itoa_def SDB_NUM_BUFSZ_def itoa_loop_digs)
qed

lemma itoa64_zero: "itoa64 0 base = (if \<bar>base\<bar> \<le> 16 then ''0'' else [])"
  by (auto simp: itoa64_def sdb_itoa_def SDB_NUM_BUFSZ_def SDB_NUM_BASE_def)

lemma itoa64_base0: "itoa64 n 0 = itoa64 n 16"
  by (simp add: itoa64_def sdb_itoa_def SDB_NUM_BASE_def)

lemma itoa_digit_facts: "0 < d \<Longrightarrow> d < 16 \<Longrightarrow>
   itoa_digit d \<noteq> CHR ''0'' \<and> itoa_digit d \<noteq> CHR ''-'' \<and> itoa_digit d \<noteq> CHR ''+''
   \<and> \<not> isspace (itoa_digit d)"
  by (drule less_16_cases) (auto simp: itoa_digit_def isspace_def)

lemma atoi_dec: 
  assumes "n \<noteq> 0" shows "sdb_atoi (digs 10 (unat (n::ut64))) = n"
proof -
  obtain d r where d: "digs 10 (unat n) = itoa_digit d # r" "0 < d" "d < 10"
    using digs_hd [of 10 "unat n"] assms by (auto simp: unat_eq_zero)
  note f = itoa_digit_facts [of d]
  have "strtoull_digits 10 0 (itoa_digit d # r) = unat n"
    using strtoull_digs [of 10 "unat n"] d by simp
  with d f unat_ut64 [of n] show ?thesis
    by (simp add: sdb_atoi_def strtoull0_def deref_def Let_def del: strtoull_digits.simps
        )
qed

lemma atoi_hex: 
  assumes "n \<noteq> 0" shows "sdb_atoi (''0x'' @ digs 16 (unat (n::ut64))) = n"
proof -
  obtain d r where d: "digs 16 (unat n) = itoa_digit d # r" "0 < d" "d < 16"
    using digs_hd [of 16 "unat n"] assms by (auto simp: unat_eq_zero)
  have "strtoull_digits 16 0 (itoa_digit d # r) = unat n"
    using strtoull_digs [of 16 "unat n"] d by simp
  with d isdigit_itoa_digit [of d 16] unat_ut64 [of n] show ?thesis
    by (simp add: sdb_atoi_def strtoull0_def deref_def isspace_def Let_def del: strtoull_digits.simps)
qed

lemma atoi_itoa:
  assumes "base \<in> {0, 10, 16}"
  shows "sdb_atoi (itoa64 n base) = n"
proof (cases "n = 0")
  case True
  have "sdb_atoi ''0'' = 0"
    by (simp add: sdb_atoi_def strtoull0_def deref_def isspace_def isdigit_in_def digit_val_def)
  with True assms show ?thesis by (auto simp: itoa64_zero)
next
  case False
  then show ?thesis using assms
    by (auto simp: itoa64_base0 itoa64_dec itoa64_hex atoi_dec atoi_hex [simplified])
qed

text \<open>C5. Printing a 64-bit number in base 10 or 16 (0 means 16) into a buffer of
  \<^verbatim>\<open>SDB_NUM_BUFSZ\<close> bytes and reading it back with \<^verbatim>\<open>sdb_atoi\<close> gives the number.  In other bases it does not: a
  number printed in base 8 has no prefix and is read as decimal.\<close>
theorem itoa_atoi_roundtrip:
  assumes "base \<in> {0, 10, 16}"
  shows "sdb_atoi (itoa64 n base) = n"
  by (rule atoi_itoa [OF assms])

theorem itoa_atoi_roundtrip_witness:
  "(16::int) \<in> {0, 10, 16} \<and> sdb_atoi (itoa64 48879 16) = 48879"
  using itoa_atoi_roundtrip [of 16 48879] by simp

lemma itoa_loop_length:
  assumes "0 \<le> i"
  shows "case itoa_loop n base i acc of (j, r) \<Rightarrow>
     0 \<le> j \<and> j \<le> i \<and> int (length r) = int (length acc) + i - j"
  using assms
proof (induction n base i acc rule: itoa_loop.induct)
  case (1 n base i acc)
  show ?case
  proof (cases "n = 0 \<or> i \<le> 0")
    case True
    then show ?thesis using "1.prems" by (subst itoa_loop.simps) auto
  next
    case False
    with 1 show ?thesis by (subst itoa_loop.simps) (auto simp: case_prod_beta)
  qed
qed

lemma sdb_itoa_bounds:
  assumes "\<bar>base\<bar> \<le> 16"
  shows "\<exists>s. sdb_itoa n base (Some SDB_NUM_BUFSZ) = ItoaStr s \<and> length s < SDB_NUM_BUFSZ"
proof -
  define b1 where "b1 = (if base = 0 then SDB_NUM_BASE else base)"
  define b2 where "b2 = (if b1 < 0 then - b1 else b1)"
  have b: "0 < b2" "b2 \<le> 16" using assms by (auto simp: b2_def b1_def SDB_NUM_BASE_def)
  obtain i acc where l: "itoa_loop (unat n) (nat b2) 62 [] = (i, acc)" by fastforce
  have len: "0 \<le> i" "i \<le> 62" "int (length acc) = 62 - i"
    using itoa_loop_length [where i = 62 and n = "unat n" and base = "nat b2" and acc = "[]"] l by auto
  have small: "21 \<le> i" if "b2 > 10"
  proof -
    have "3 \<le> nat b2" using that by linarith
    then have "length (digs (nat b2) (unat n)) \<le> 41" by (rule digs_ut64_length)
    then show ?thesis
      using itoa_loop_digs [of "nat b2" "unat n" 62 "[]"] that l by auto
  qed
  define r where "r = (if i \<noteq> 62 then (i - 1, CHR ''x'' # acc) else (i, acc))"
  have "sdb_itoa n base (Some SDB_NUM_BUFSZ) =
      (if n = 0 then ItoaStr ''0''
       else if b2 \<le> 10 then ItoaStr acc
       else if fst r < 0 then ItoaUnderrun else ItoaStr (CHR ''0'' # snd r))"
    using b(2) l
    by (simp add: sdb_itoa_def SDB_NUM_BUFSZ_def case_prod_beta Let_def r_def b1_def [symmetric]
        b2_def [symmetric] cong: if_cong split del: if_split)
  then show ?thesis using len small by (auto simp: r_def SDB_NUM_BUFSZ_def)
qed

text \<open>C6. In a buffer of \<^verbatim>\<open>SDB_NUM_BUFSZ\<close> bytes \<^verbatim>\<open>sdb_itoa\<close> never writes before the
  buffer, for any number and any base up to 16 in absolute value, and the text with its
  terminator fits.  This is the size that the callers in the library pass; a smaller buffer may
  be too small (\<open>sdb_itoa_small_buffer_underrun\<close>).\<close>
theorem sdb_itoa_in_buffer:
  assumes "\<bar>base\<bar> \<le> 16"
  shows "\<exists>s. sdb_itoa n base (Some SDB_NUM_BUFSZ) = ItoaStr s \<and> length s < SDB_NUM_BUFSZ"
  by (rule sdb_itoa_bounds [OF assms])

theorem sdb_itoa_in_buffer_witness:
  "\<bar>16 :: int\<bar> \<le> 16 \<and>
   (\<exists>s. sdb_itoa 255 16 (Some SDB_NUM_BUFSZ) = ItoaStr s \<and> length s < SDB_NUM_BUFSZ)"
  using sdb_itoa_in_buffer [of 16 255] by simp

text \<open>A buffer of three bytes is too small for a hexadecimal digit with its prefix, and
  the \<^verbatim>\<open>'0'\<close> of the prefix is written one byte before the buffer.\<close>

lemma sdb_itoa_small_buffer_underrun: "sdb_itoa 1 16 (Some 3) = ItoaUnderrun"
  by (simp add: sdb_itoa_def itoa_loop.simps)

section \<open>Fields\<close>

text \<open>The non-empty elements of an array string.\<close>

definition nonempty_fields :: "string \<Rightarrow> string list" where
  "nonempty_fields s = filter (\<lambda>f. f \<noteq> []) (splitc SDB_RS s)"

lemma alen_loop_splitc: "alen_loop p len + 1 = len + length (splitc SDB_RS p)"
proof (induction p len rule: alen_loop.induct)
  case (1 p len)
  show ?case
  proof (cases "strchr p SDB_RS")
    case None
    then have "SDB_RS \<notin> set p" by (simp add: strchr_None)
    with None show ?thesis
      by (subst alen_loop.simps) (simp add: splitc_no_sep)
  next
    case (Some n)
    from strchr_SomeD [OF Some] have "n = dropWhile (\<lambda>x. x \<noteq> SDB_RS) p" "SDB_RS \<in> set p" by auto
    with 1 [OF Some] Some show ?thesis
      by (subst alen_loop.simps, subst splitc_span) simp
  qed
qed

lemma nonempty_fields_head:
  "deref s \<noteq> SDB_RS \<Longrightarrow> SDB_RS \<in> set s \<Longrightarrow>
   length (nonempty_fields s) = Suc (length (nonempty_fields (tl (dropWhile (\<lambda>x. x \<noteq> SDB_RS) s))))"
  unfolding nonempty_fields_def
  by (subst splitc_span) (cases s, auto simp: deref_def)

lemma nonempty_fields_sep: "nonempty_fields (SDB_RS # s) = nonempty_fields s"
  by (simp add: nonempty_fields_def)

lemma nonempty_fields_skip: "nonempty_fields (dropWhile (\<lambda>c. c = SDB_RS) s) = nonempty_fields s"
  by (induction s) (auto simp: nonempty_fields_sep)

lemma alen_ne_loop_spec:
  "(let (p', len') = alen_ne_loop p len in if p' \<noteq> [] then Suc len' else len') =
   len + (if SDB_RS \<in> set p
          then Suc (length (nonempty_fields (tl (dropWhile (\<lambda>x. x \<noteq> SDB_RS) p))))
          else if p \<noteq> [] then 1 else 0)"
proof (induction p len rule: alen_ne_loop.induct)
  case (1 p len)
  show ?case
  proof (cases "strchr p SDB_RS")
    case None
    then have "SDB_RS \<notin> set p" by (simp add: strchr_None)
    with None show ?thesis
      by (subst alen_ne_loop.simps) simp
  next
    case (Some n)
    let ?r = "tl (dropWhile (\<lambda>x. x \<noteq> SDB_RS) p)"
    from strchr_SomeD [OF Some] have n: "n = dropWhile (\<lambda>x. x \<noteq> SDB_RS) p" and p: "SDB_RS \<in> set p" by auto
    show ?thesis
    proof (cases "deref ?r = SDB_RS")
      case True
      then obtain q where q: "?r = SDB_RS # q"
        by (cases ?r) (auto simp: deref_def SDB_RS_def)
      from "1.IH"(1) [OF Some] True n p Some q show ?thesis
        by (subst alen_ne_loop.simps) (simp add: nonempty_fields_sep)
    next
      case False
      have "length (nonempty_fields ?r) =
         (if SDB_RS \<in> set ?r then Suc (length (nonempty_fields (tl (dropWhile (\<lambda>x. x \<noteq> SDB_RS) ?r))))
          else if ?r \<noteq> [] then 1 else 0)"
        using nonempty_fields_head [OF False]
        by (auto simp: nonempty_fields_def splitc_no_sep)
      with "1.IH"(2) [OF Some] False n p Some show ?thesis
        by (subst alen_ne_loop.simps) simp
    qed
  qed
qed

lemma alen_fields:
  "sdb_alen (Some s) = (if s = [] then 0 else length (splitc SDB_RS s))
   \<and> sdb_alen_ignore_empty (Some s) = length (nonempty_fields s)"
proof -
  have "sdb_alen_ignore_empty (Some s) = length (nonempty_fields s)" if "s \<noteq> []"
  proof -
    let ?p = "dropWhile (\<lambda>c. c = SDB_RS) s"
    have d: "?p = [] \<or> deref ?p \<noteq> SDB_RS"
      using hd_dropWhile [of "\<lambda>c. c = SDB_RS" s] by (cases ?p) (auto simp: deref_def)
    have "length (nonempty_fields ?p) =
       (if SDB_RS \<in> set ?p
        then Suc (length (nonempty_fields (tl (dropWhile (\<lambda>x. x \<noteq> SDB_RS) ?p))))
        else if ?p \<noteq> [] then 1 else 0)"
    proof (cases "SDB_RS \<in> set ?p")
      case True
      with d have "deref ?p \<noteq> SDB_RS" by (metis empty_iff list.set(1))
      with True show ?thesis using nonempty_fields_head [of ?p] by simp
    next
      case False
      then show ?thesis by (simp add: nonempty_fields_def splitc_no_sep)
    qed
    then show ?thesis
      using that alen_ne_loop_spec [of ?p 0]
      by (simp add: sdb_alen_ignore_empty_def nonempty_fields_skip case_prod_beta Let_def)
  qed
  then show ?thesis
    using alen_loop_splitc [of s 0]
    by (auto simp: sdb_alen_def sdb_alen_ignore_empty_def nonempty_fields_def)
qed

text \<open>\<^verbatim>\<open>sdb_alen\<close> is the number of comma-separated fields of a non-empty string
  (0 for the empty one), and \<^verbatim>\<open>sdb_alen_ignore_empty\<close> the number of non-empty fields.\<close>
theorem sdb_alen_fields:
  "sdb_alen (Some s) = (if s = [] then 0 else length (splitc SDB_RS s))
   \<and> sdb_alen_ignore_empty (Some s) = length (nonempty_fields s)"
  by (rule alen_fields)

lemma compact_pass_fields:
  "hd (splitc SDB_RS (fst (compact_pass s))) = hd (splitc SDB_RS s)
   \<and> filter (\<lambda>f. f \<noteq> []) (tl (splitc SDB_RS (fst (compact_pass s))))
     = filter (\<lambda>f. f \<noteq> []) (tl (splitc SDB_RS s))"
proof (induction s rule: compact_pass.induct)
  case (2 x xs)
  have all: "filter (\<lambda>f. f \<noteq> []) (splitc SDB_RS a) = filter (\<lambda>f. f \<noteq> []) (splitc SDB_RS b)"
    if "hd (splitc SDB_RS a) = hd (splitc SDB_RS b)"
      "filter (\<lambda>f. f \<noteq> []) (tl (splitc SDB_RS a)) = filter (\<lambda>f. f \<noteq> []) (tl (splitc SDB_RS b))" for a b
    using that by (metis (mono_tags, lifting) filter.simps(2) list.collapse splitc_nonempty)
  show ?case
  proof (cases "x = SDB_RS \<and> xs \<noteq> [] \<and> hd xs = SDB_RS")
    case True
    from all [OF "2.IH"(1) [OF True, THEN conjunct1] "2.IH"(1) [OF True, THEN conjunct2]]
    have "filter (\<lambda>f. f \<noteq> []) (splitc SDB_RS (fst (compact_pass (dropWhile (\<lambda>c. c = SDB_RS) xs))))
      = filter (\<lambda>f. f \<noteq> []) (splitc SDB_RS xs)"
      using nonempty_fields_skip [of xs] by (simp add: nonempty_fields_def)
    with True show ?thesis by (simp add: case_prod_beta Let_def)
  next
    case False
    note IH = "2.IH"(2) [OF False]
    show ?thesis
    proof (cases "x = SDB_RS")
      case True
      with False IH all [of "fst (compact_pass xs)" xs] show ?thesis
        by (auto simp: case_prod_beta Let_def)
    next
      case x: False
      with False IH show ?thesis by (auto simp: case_prod_beta Let_def)
    qed
  qed
qed simp

lemma compact_pass_fixed:
  "\<not> snd (compact_pass s) \<Longrightarrow> fst (compact_pass s) = s \<and> (\<nexists>u v. s = u @ SDB_RS # SDB_RS # v)"
proof (induction s rule: compact_pass.induct)
  case (2 x xs)
  show ?case
  proof (cases "x = SDB_RS \<and> xs \<noteq> [] \<and> hd xs = SDB_RS")
    case True
    with 2 show ?thesis by (simp add: case_prod_beta Let_def)
  next
    case False
    then have ns: "\<not> snd (compact_pass xs)" using "2.prems" by (auto simp: case_prod_beta Let_def)
    have IH: "fst (compact_pass xs) = xs" "\<nexists>u v. xs = u @ SDB_RS # SDB_RS # v"
      using "2.IH"(2) [OF False ns] by auto
    have "x # xs \<noteq> u @ SDB_RS # SDB_RS # v" for u v
      using IH(2) False by (cases u) auto
    with IH False show ?thesis by (auto simp: case_prod_beta Let_def)
  qed
qed simp

text \<open>\<^verbatim>\<open>sdb_array_compact\<close> terminates, keeps the non-empty fields in their order and
  leaves no two adjacent separators.\<close>
theorem sdb_array_compact_spec:
  "nonempty_fields (sdb_array_compact s) = nonempty_fields s
   \<and> (\<nexists>u v. sdb_array_compact s = u @ SDB_RS # SDB_RS # v)"
proof (induction s rule: sdb_array_compact.induct)
  case (1 p)
  obtain p' ch where c: "compact_pass p = (p', ch)" by fastforce
  have f: "nonempty_fields p' = nonempty_fields p"
    using compact_pass_fields [of p] c
    by (simp add: nonempty_fields_def)
      (metis (mono_tags, lifting) filter.simps(2) list.collapse splitc_nonempty)
  show ?case
  proof (cases "ch \<and> p' \<noteq> []")
    case True
    with 1 [OF c [symmetric]] f c show ?thesis
      by (simp add: sdb_array_compact.simps [of p])
  next
    case False
    with compact_pass_fixed [of p] c have "\<nexists>u v. p' = u @ SDB_RS # SDB_RS # v" by auto
    moreover have "sdb_array_compact p = p'"
      using False c by (subst sdb_array_compact.simps) auto
    ultimately show ?thesis using f by simp
  qed
qed

end
