(* ===== verification/Map_Interface.thy ===== *)
theory Map_Interface
  imports Sdb_Prelude
begin

text \<open>
  The contract that the containers of the library share: the hash tables of
  \<^verbatim>\<open>src/ht.inc.c\<close>, the tables of \<^verbatim>\<open>src/ht.c\<close> that hold the database in memory, and the
  dictionary of \<^verbatim>\<open>src/dict.c\<close> are finite maps.  \<open>map_op\<close> names the operations that change
  a map, \<open>spec_op\<close> is their abstract meaning, and the locale \<open>map_impl\<close> states what an
  implementation promises of one operation.  Its clients get the consequences for
  sequences of operations.
\<close>

section \<open>Maps and their operations\<close>

datatype ('k, 'v) map_op = Insert 'k 'v | Update 'k 'v | Delete 'k

primrec op_key :: "('k, 'v) map_op \<Rightarrow> 'k" where
  "op_key (Insert k v) = k"
| "op_key (Update k v) = k"
| "op_key (Delete k) = k"

fun spec_op :: "('k, 'v) map_op \<Rightarrow> ('k \<rightharpoonup> 'v) \<Rightarrow> bool \<times> ('k \<rightharpoonup> 'v)" where
  "spec_op (Insert k v) m = (if m k = None then (True, m(k \<mapsto> v)) else (False, m))"
| "spec_op (Update k v) m = (True, m(k \<mapsto> v))"
| "spec_op (Delete k) m = (m k \<noteq> None, m(k := None))"

fun run_ops :: "('o \<Rightarrow> 'm \<Rightarrow> bool \<times> 'm) \<Rightarrow> 'o list \<Rightarrow> 'm \<Rightarrow> bool list \<times> 'm" where
  "run_ops step [] m = ([], m)"
| "run_ops step (x # xs) m =
     (case step x m of (r, m') \<Rightarrow> (case run_ops step xs m' of (rs, m'') \<Rightarrow> (r # rs, m'')))"

section \<open>The contract\<close>

locale map_impl =
  fixes lookup :: "'m \<Rightarrow> 'k \<Rightarrow> 'v option"
    and step :: "('k, 'v) map_op \<Rightarrow> 'm \<Rightarrow> bool \<times> 'm"
    and inv :: "'m \<Rightarrow> bool"
    and used :: "'m \<Rightarrow> nat"
    and cap :: nat
    and key_ok :: "'k \<Rightarrow> bool"
  assumes step_refines:
    "inv m \<Longrightarrow> used m < cap \<Longrightarrow> key_ok (op_key p) \<Longrightarrow> step p m = (r, m') \<Longrightarrow>
     spec_op p (lookup m) = (r, lookup m')"
  assumes step_inv:
    "inv m \<Longrightarrow> used m < cap \<Longrightarrow> key_ok (op_key p) \<Longrightarrow> step p m = (r, m') \<Longrightarrow>
     inv m' \<and> used m' \<le> used m + 1"
begin

lemma run_ops_refines:
  assumes "inv m" "used m + length ps \<le> cap" "\<forall>p \<in> set ps. key_ok (op_key p)"
    "run_ops step ps m = (rs, m')"
  shows "run_ops spec_op ps (lookup m) = (rs, lookup m')
     \<and> inv m' \<and> used m' \<le> used m + length ps"
  using assms
proof (induction ps arbitrary: m rs)
  case (Cons p ps)
  obtain r m1 where st: "step p m = (r, m1)" by fastforce
  obtain rs1 where rest: "run_ops step ps m1 = (rs1, m')" "rs = r # rs1"
    using Cons.prems(4) st by (auto split: prod.splits)
  have 1: "spec_op p (lookup m) = (r, lookup m1)" "inv m1" "used m1 \<le> used m + 1"
    using step_refines [of m p r m1] step_inv [of m p r m1] st Cons.prems by auto
  have "run_ops spec_op ps (lookup m1) = (rs1, lookup m') \<and> inv m' \<and> used m' \<le> used m1 + length ps"
    by (rule Cons.IH) (use 1 rest Cons.prems in auto)
  then show ?case using 1 rest by auto
qed auto

lemma lookup_after:
  assumes "inv m" "used m < cap" "key_ok k" "step (Update k v) m = (r, m')"
  shows "r" "lookup m' k = Some v" "j \<noteq> k \<Longrightarrow> lookup m' j = lookup m j"
  using step_refines [of m "Update k v" r m'] assms
  by (auto simp: fun_eq_iff split: if_splits)

lemma insert_delete_id:
  assumes "inv m" "used m + 1 < cap" "key_ok k" "lookup m k = None"
    "step (Insert k v) m = (r1, m1)" "step (Delete k) m1 = (r2, m2)"
  shows "r1 \<and> r2 \<and> lookup m2 = lookup m"
proof -
  have 1: "spec_op (Insert k v) (lookup m) = (r1, lookup m1)" "inv m1" "used m1 < cap"
    using step_refines [of m "Insert k v" r1 m1] step_inv [of m "Insert k v" r1 m1] assms by auto
  have "spec_op (Delete k) (lookup m1) = (r2, lookup m2)"
    using step_refines [of m1 "Delete k" r2 m2] 1 assms by simp
  moreover have "lookup m1 = (lookup m)(k \<mapsto> v)" "r1" using 1(1) assms(4) by auto
  ultimately show ?thesis using assms(4) by (auto simp: fun_upd_idem)
qed

end

section \<open>Stores of strings\<close>

text \<open>
  What the modules above the database rely on: a store of strings under string keys, in
  which writing the empty string removes a key.  \<open>view\<close> is the value that a read returns.
\<close>

definition put_spec :: "string \<Rightarrow> string \<Rightarrow> (string \<rightharpoonup> string) \<Rightarrow> (string \<rightharpoonup> string)" where
  "put_spec k v m = m(k := if v = [] then None else Some v)"

lemma put_spec_same [simp]: "put_spec k v m k = (if v = [] then None else Some v)"
  by (simp add: put_spec_def)

lemma put_spec_other [simp]: "j \<noteq> k \<Longrightarrow> put_spec k v m j = m j"
  by (simp add: put_spec_def)

locale kv_store =
  fixes view :: "'s \<Rightarrow> string \<Rightarrow> string option"
    and put :: "'s \<Rightarrow> string \<Rightarrow> string \<Rightarrow> bool \<times> 's"
    and inv :: "'s \<Rightarrow> bool"
    and used :: "'s \<Rightarrow> nat"
    and cap :: nat
    and arg_ok :: "string \<Rightarrow> string \<Rightarrow> bool"
  assumes put_view:
    "inv s \<Longrightarrow> used s < cap \<Longrightarrow> arg_ok k v \<Longrightarrow> put s k v = (r, s') \<Longrightarrow> view s' = put_spec k v (view s)"
  assumes put_inv:
    "inv s \<Longrightarrow> used s < cap \<Longrightarrow> arg_ok k v \<Longrightarrow> put s k v = (r, s') \<Longrightarrow> inv s' \<and> used s' \<le> used s + 1"
begin

lemma puts_view:
  assumes "inv s" "used s + length kvs \<le> cap" "\<forall>(k, v) \<in> set kvs. arg_ok k v"
  shows "view (fold (\<lambda>(k, v) s. snd (put s k v)) kvs s) = fold (\<lambda>(k, v). put_spec k v) kvs (view s)
     \<and> inv (fold (\<lambda>(k, v) s. snd (put s k v)) kvs s)
     \<and> used (fold (\<lambda>(k, v) s. snd (put s k v)) kvs s) \<le> used s + length kvs"
  using assms
proof (induction kvs arbitrary: s)
  case (Cons x kvs)
  obtain k v where x: "x = (k, v)" by fastforce
  obtain r s1 where p: "put s k v = (r, s1)" by fastforce
  have "view s1 = put_spec k v (view s)" "inv s1 \<and> used s1 \<le> used s + 1"
    using put_view [OF _ _ _ p] put_inv [OF _ _ _ p] Cons.prems x by auto
  then show ?case using Cons.IH [of s1] Cons.prems p x by simp
qed simp

text \<open>Reading a key, computing and writing it back.\<close>

lemma modify_view:
  assumes "inv s" "used s < cap" "view s k = Some x" "arg_ok k (f x)" "put s k (f x) = (r, s')"
  shows "view s' k = (if f x = [] then None else Some (f x))" "j \<noteq> k \<Longrightarrow> view s' j = view s j"
  using put_view [OF assms(1,2,4,5)] by auto

text \<open>Writes to different keys commute, and the last write to a key wins.\<close>

lemma put_commute:
  assumes "inv s" "used s + 1 < cap" "arg_ok k v" "arg_ok j w" "j \<noteq> k"
  shows "view (snd (put (snd (put s k v)) j w)) = view (snd (put (snd (put s j w)) k v))"
proof -
  have "view (fold (\<lambda>(k, v) s. snd (put s k v)) [(k, v), (j, w)] s)
      = view (fold (\<lambda>(k, v) s. snd (put s k v)) [(j, w), (k, v)] s)"
    using puts_view [of s "[(k, v), (j, w)]"] puts_view [of s "[(j, w), (k, v)]"] assms
    by (auto simp: put_spec_def fun_upd_twist)
  then show ?thesis by simp
qed

end

end
