(* ===== verification/Ht.thy ===== *)
theory Ht
  imports Sdb_Util Map_Interface
begin

text \<open>
  The generic hash table of \<^verbatim>\<open>src/ht.inc.c\<close> (instantiated by \<^verbatim>\<open>src/ht_pp.c\<close> and its
  siblings): an array of buckets, each a growable array of key/value records, with a
  load factor of one and sizes taken from a table of primes.

  \<^item> \<open>ht_kv\<close>, \<open>bucket\<close>, \<open>ht_options\<close> and \<open>ht\<close> are the four structs of
    \<^verbatim>\<open>include/sdb/ht_inc.h\<close>.  The elements are records of the scheme \<open>ht_kv_scheme\<close>, so
    that \<^verbatim>\<open>SdbKv\<close>, which embeds an \<^verbatim>\<open>HtPPKv\<close> as its first member, is a record
    extension.  The \<^verbatim>\<open>count\<close> of a bucket is the length of its array.
  \<^item> Pointer equality of two keys implies that the keys are equal, and the comparison
    function then agrees; the model compares values in both places.
  \<^item> Allocation succeeds.  The callbacks that release memory have no effect on the
    table and are left out.
  \<^item> Inserting may grow the table, which inserts every element into a new table.  The
    recursion is bounded by fuel; two units are enough (\<open>ht_insert_kv_fuel_enough\<close>).
\<close>

section \<open>Data\<close>

record ('k, 'v) ht_kv =
  kv_key :: 'k
  kv_value :: 'v
  kv_key_len :: ut32
  kv_value_len :: ut32

record ('k, 'v, 'x) bucket =
  b_arr :: "('k, 'v, 'x) ht_kv_scheme list"
  b_size :: nat

record ('k, 'v) ht_options =
  opt_cmp :: "('k \<Rightarrow> 'k \<Rightarrow> int) option"
  opt_hashfn :: "('k \<Rightarrow> ut32) option"
  opt_key_to_hash :: "'k \<Rightarrow> ut32"
  opt_dupkey :: "('k \<Rightarrow> 'k) option"
  opt_dupvalue :: "('v \<Rightarrow> 'v) option"
  opt_calcsizeK :: "('k \<Rightarrow> ut32) option"
  opt_calcsizeV :: "('v \<Rightarrow> ut32) option"

record ('k, 'v, 'x) ht =
  ht_table :: "('k, 'v, 'x) bucket list"
  ht_opt :: "('k, 'v) ht_options"
  ht_size :: nat
  ht_count :: nat
  ht_prime_idx :: nat

definition LOAD_FACTOR :: nat where
  "LOAD_FACTOR = 1"

definition ht_primes_sizes :: "nat list" where
  "ht_primes_sizes = [
    3, 7, 11, 17, 23, 29, 37, 47, 59, 71, 89, 107, 131,
    163, 197, 239, 293, 353, 431, 521, 631, 761, 919,
    1103, 1327, 1597, 1931, 2333, 2801, 3371, 4049, 4861,
    5839, 7013, 8419, 10103, 12143, 14591, 17519, 21023,
    25229, 30293, 36353, 43627, 52361, 62851, 75431, 90523,
    108631, 130363, 156437, 187751, 225307, 270371, 324449,
    389357, 467237, 560689, 672827, 807403, 968897, 1162687,
    1395263, 1674319, 2009191, 2411033, 2893249, 3471899,
    4166287, 4999559, 5999471, 7199369]"

section \<open>Helpers\<close>

definition hashfn :: "('k, 'v, 'x) ht \<Rightarrow> 'k \<Rightarrow> ut32" where
  "hashfn ht k =
     (case opt_hashfn (ht_opt ht) of Some f \<Rightarrow> f k | None \<Rightarrow> opt_key_to_hash (ht_opt ht) k)"

definition bucketfn :: "('k, 'v, 'x) ht \<Rightarrow> 'k \<Rightarrow> nat" where
  "bucketfn ht k = unat (hashfn ht k) mod ht_size ht"

definition dupkey :: "('k, 'v, 'x) ht \<Rightarrow> 'k \<Rightarrow> 'k" where
  "dupkey ht k = (case opt_dupkey (ht_opt ht) of Some f \<Rightarrow> f k | None \<Rightarrow> k)"

definition dupval :: "('k, 'v, 'x) ht \<Rightarrow> 'v \<Rightarrow> 'v" where
  "dupval ht v = (case opt_dupvalue (ht_opt ht) of Some f \<Rightarrow> f v | None \<Rightarrow> v)"

definition calcsize_key :: "('k, 'v, 'x) ht \<Rightarrow> 'k \<Rightarrow> ut32" where
  "calcsize_key ht k = (case opt_calcsizeK (ht_opt ht) of Some f \<Rightarrow> f k | None \<Rightarrow> 0)"

definition calcsize_val :: "('k, 'v, 'x) ht \<Rightarrow> 'v \<Rightarrow> ut32" where
  "calcsize_val ht v = (case opt_calcsizeV (ht_opt ht) of Some f \<Rightarrow> f v | None \<Rightarrow> 0)"

definition next_idx :: "nat \<Rightarrow> nat" where
  "next_idx idx =
     (if idx \<noteq> UT32_MAX \<and> idx < length ht_primes_sizes - 1 then idx + 1 else UT32_MAX)"

definition compute_size :: "nat \<Rightarrow> nat \<Rightarrow> nat" where
  "compute_size idx sz =
     (if idx \<noteq> UT32_MAX \<and> idx < length ht_primes_sizes then ht_primes_sizes ! idx else sz OR 1)"

definition is_kv_equal ::
  "('k, 'v, 'x) ht \<Rightarrow> 'k \<Rightarrow> ut32 \<Rightarrow> ('k, 'v, 'x) ht_kv_scheme \<Rightarrow> bool" where
  "is_kv_equal ht key key_len kv =
     (if key_len \<noteq> kv_key_len kv then False
      else key = kv_key kv
        \<or> (case opt_cmp (ht_opt ht) of Some cmp \<Rightarrow> cmp key (kv_key kv) = 0 | None \<Rightarrow> False))"

section \<open>Operations\<close>

definition internal_ht_new :: "nat \<Rightarrow> nat \<Rightarrow> ('k, 'v) ht_options \<Rightarrow> ('k, 'v, 'x) ht" where
  "internal_ht_new sz prime_idx opt =
     \<lparr>ht_table = replicate sz \<lparr>b_arr = [], b_size = 0\<rparr>, ht_opt = opt, ht_size = sz,
      ht_count = 0, ht_prime_idx = prime_idx\<rparr>"

definition ht_new_opt :: "('k, 'v) ht_options \<Rightarrow> ('k, 'v, 'x) ht" where
  "ht_new_opt opt = internal_ht_new (ht_primes_sizes ! 0) 0 opt"

text \<open>
  \<^verbatim>\<open>reserve_kv\<close> returns a pointer to the place for the element: an existing element of
  a bucket, or the element just past the end of the array, which has been given room.
  \<open>store_kv\<close> is the assignment through that pointer.
\<close>

datatype slot = SlotAt nat nat | SlotNew nat

fun find_index :: "('a \<Rightarrow> bool) \<Rightarrow> 'a list \<Rightarrow> nat option" where
  "find_index P [] = None"
| "find_index P (x # xs) = (if P x then Some 0 else map_option Suc (find_index P xs))"

definition reserve_kv ::
  "('k, 'v, 'x) ht \<Rightarrow> 'k \<Rightarrow> ut32 \<Rightarrow> bool \<Rightarrow> slot option \<times> ('k, 'v, 'x) ht" where
  "reserve_kv ht key key_len update =
     (let i = bucketfn ht key; bt = ht_table ht ! i in
      case find_index (is_kv_equal ht key key_len) (b_arr bt) of
        Some j \<Rightarrow> (if update then Some (SlotAt i j) else None, ht)
      | None \<Rightarrow>
          let count = length (b_arr bt);
              bt' = (if count + 1 \<ge> b_size bt then bt\<lparr>b_size := (count + 1) * 2\<rparr> else bt)
          in (Some (SlotNew i),
              ht\<lparr>ht_table := (ht_table ht)[i := bt'], ht_count := ht_count ht + 1\<rparr>))"

fun store_kv ::
  "('k, 'v, 'x) ht \<Rightarrow> slot \<Rightarrow> ('k, 'v, 'x) ht_kv_scheme \<Rightarrow> ('k, 'v, 'x) ht" where
  "store_kv ht (SlotAt i j) kv =
     (let bt = ht_table ht ! i in
      ht\<lparr>ht_table := (ht_table ht)[i := bt\<lparr>b_arr := (b_arr bt)[j := kv]\<rparr>]\<rparr>)"
| "store_kv ht (SlotNew i) kv =
     (let bt = ht_table ht ! i in
      ht\<lparr>ht_table := (ht_table ht)[i := bt\<lparr>b_arr := b_arr bt @ [kv]\<rparr>]\<rparr>)"

definition ht_entries :: "('k, 'v, 'x) ht \<Rightarrow> ('k, 'v, 'x) ht_kv_scheme list" where
  "ht_entries ht = concat (map b_arr (ht_table ht))"

fun insert_all ::
  "(('k, 'v, 'x) ht \<Rightarrow> ('k, 'v, 'x) ht_kv_scheme \<Rightarrow> ('k, 'v, 'x) ht option) \<Rightarrow>
   ('k, 'v, 'x) ht_kv_scheme list \<Rightarrow> ('k, 'v, 'x) ht \<Rightarrow> ('k, 'v, 'x) ht option" where
  "insert_all ins [] ht = Some ht"
| "insert_all ins (kv # kvs) ht =
     (case ins ht kv of None \<Rightarrow> None | Some ht' \<Rightarrow> insert_all ins kvs ht')"

text \<open>Growing inserts into the new table with \<open>ins\<close>; the two tables are then swapped.\<close>

definition internal_ht_grow ::
  "(('k, 'v, 'x) ht \<Rightarrow> ('k, 'v, 'x) ht_kv_scheme \<Rightarrow> ('k, 'v, 'x) ht option) \<Rightarrow>
   ('k, 'v, 'x) ht \<Rightarrow> ('k, 'v, 'x) ht option" where
  "internal_ht_grow ins ht =
     (let idx = next_idx (ht_prime_idx ht);
          sz = compute_size idx (ht_size ht * 2 mod 2 ^ 32);
          ht2 = internal_ht_new sz idx (ht_opt ht)
      in insert_all ins (ht_entries ht) ht2)"

definition check_growing ::
  "(('k, 'v, 'x) ht \<Rightarrow> ('k, 'v, 'x) ht_kv_scheme \<Rightarrow> ('k, 'v, 'x) ht option) \<Rightarrow>
   ('k, 'v, 'x) ht \<Rightarrow> ('k, 'v, 'x) ht option" where
  "check_growing ins ht =
     (if ht_count ht \<ge> LOAD_FACTOR * ht_size ht then internal_ht_grow ins ht else Some ht)"

definition insert_kv_with ::
  "(('k, 'v, 'x) ht \<Rightarrow> ('k, 'v, 'x) ht_kv_scheme \<Rightarrow> ('k, 'v, 'x) ht option) \<Rightarrow>
   ('k, 'v, 'x) ht \<Rightarrow> ('k, 'v, 'x) ht_kv_scheme \<Rightarrow> bool \<Rightarrow> (bool \<times> ('k, 'v, 'x) ht) option" where
  "insert_kv_with ins ht kv update =
     (case reserve_kv ht (kv_key kv) (kv_key_len kv) update of
        (None, ht') \<Rightarrow> Some (False, ht')
      | (Some sl, ht') \<Rightarrow> map_option (Pair True) (check_growing ins (store_kv ht' sl kv)))"

primrec ht_insert_kv_fuel ::
  "nat \<Rightarrow> ('k, 'v, 'x) ht \<Rightarrow> ('k, 'v, 'x) ht_kv_scheme \<Rightarrow> bool \<Rightarrow> (bool \<times> ('k, 'v, 'x) ht) option" where
  "ht_insert_kv_fuel 0 = (\<lambda>ht kv update. None)"
| "ht_insert_kv_fuel (Suc n) =
     (\<lambda>ht kv update.
        insert_kv_with (\<lambda>h e. map_option snd (ht_insert_kv_fuel n h e False)) ht kv update)"

text \<open>\<^verbatim>\<open>Ht_(insert_kv)\<close>; the second branch is not reached on tables that satisfy \<open>ht_inv\<close>.\<close>

definition ht_insert_kv ::
  "('k, 'v, 'x) ht \<Rightarrow> ('k, 'v, 'x) ht_kv_scheme \<Rightarrow> bool \<Rightarrow> bool \<times> ('k, 'v, 'x) ht" where
  "ht_insert_kv ht kv update =
     (case ht_insert_kv_fuel 2 ht kv update of Some r \<Rightarrow> r | None \<Rightarrow> (False, ht))"

text \<open>
  \<^verbatim>\<open>insert_update\<close> fills the reserved element field by field; the fields an extension
  adds are those of \<open>ext_fields\<close>.
\<close>

definition new_kv :: "('k, 'v, 'x) ht \<Rightarrow> 'k \<Rightarrow> 'v \<Rightarrow> 'x \<Rightarrow> ('k, 'v, 'x) ht_kv_scheme" where
  "new_kv ht key value ext_fields =
     \<lparr>kv_key = dupkey ht key, kv_value = dupval ht value,
      kv_key_len = calcsize_key ht key, kv_value_len = calcsize_val ht value, \<dots> = ext_fields\<rparr>"

definition insert_update ::
  "('k, 'v, 'x) ht \<Rightarrow> 'k \<Rightarrow> 'v \<Rightarrow> 'x \<Rightarrow> bool \<Rightarrow> bool \<times> ('k, 'v, 'x) ht" where
  "insert_update ht key value ext_fields update =
     (case reserve_kv ht key (calcsize_key ht key) update of
        (None, ht') \<Rightarrow> (False, ht')
      | (Some sl, ht') \<Rightarrow>
          (case check_growing (\<lambda>h e. map_option snd (ht_insert_kv_fuel 1 h e False))
                  (store_kv ht' sl (new_kv ht key value ext_fields)) of
             Some ht'' \<Rightarrow> (True, ht'') | None \<Rightarrow> (False, ht')))"

definition ht_insert :: "('k, 'v, 'x) ht \<Rightarrow> 'k \<Rightarrow> 'v \<Rightarrow> 'x \<Rightarrow> bool \<times> ('k, 'v, 'x) ht" where
  "ht_insert ht key value ext_fields = insert_update ht key value ext_fields False"

definition ht_update :: "('k, 'v, 'x) ht \<Rightarrow> 'k \<Rightarrow> 'v \<Rightarrow> 'x \<Rightarrow> bool \<times> ('k, 'v, 'x) ht" where
  "ht_update ht key value ext_fields = insert_update ht key value ext_fields True"

definition ht_find_kv :: "('k, 'v, 'x) ht \<Rightarrow> 'k \<Rightarrow> ('k, 'v, 'x) ht_kv_scheme option" where
  "ht_find_kv ht key =
     (let bt = ht_table ht ! bucketfn ht key; key_len = calcsize_key ht key in
      List.find (is_kv_equal ht key key_len) (b_arr bt))"

definition ht_find :: "('k, 'v, 'x) ht \<Rightarrow> 'k \<Rightarrow> 'v option" where
  "ht_find ht key = map_option kv_value (ht_find_kv ht key)"

text \<open>Removing an element: the rest of the array is moved over it.\<close>

definition bucket_remove :: "('k, 'v, 'x) ht \<Rightarrow> nat \<Rightarrow> nat \<Rightarrow> ('k, 'v, 'x) ht" where
  "bucket_remove ht i j =
     (let bt = ht_table ht ! i in
      ht\<lparr>ht_table := (ht_table ht)[i := bt\<lparr>b_arr := take j (b_arr bt) @ drop (Suc j) (b_arr bt)\<rparr>],
         ht_count := ht_count ht - 1\<rparr>)"

definition ht_delete :: "('k, 'v, 'x) ht \<Rightarrow> 'k \<Rightarrow> bool \<times> ('k, 'v, 'x) ht" where
  "ht_delete ht key =
     (let i = bucketfn ht key; bt = ht_table ht ! i; key_len = calcsize_key ht key in
      case find_index (is_kv_equal ht key key_len) (b_arr bt) of
        Some j \<Rightarrow> (True, bucket_remove ht i j)
      | None \<Rightarrow> (False, ht))"

definition ht_update_key ::
  "('k, 'v, 'x) ht \<Rightarrow> 'k \<Rightarrow> 'k \<Rightarrow> 'x \<Rightarrow> bool \<times> ('k, 'v, 'x) ht" where
  "ht_update_key ht old_key new_key ext_fields =
     (case ht_find ht old_key of
        None \<Rightarrow> (False, ht)
      | Some value \<Rightarrow>
          (case insert_update ht new_key value ext_fields False of
             (False, ht') \<Rightarrow> (False, ht')
           | (True, ht') \<Rightarrow>
               let i = bucketfn ht' old_key; bt = ht_table ht' ! i;
                   old_key_len = calcsize_key ht' old_key
               in case find_index (is_kv_equal ht' old_key old_key_len) (b_arr bt) of
                    Some j \<Rightarrow> (True, bucket_remove ht' i j)
                  | None \<Rightarrow> (False, ht')))"

text \<open>
  \<^verbatim>\<open>Ht_(foreach)\<close> with a callback that does not modify the table, as its header asks:
  the callback threads a user state and stops the walk by returning false.
\<close>

fun foreach_kvs ::
  "('u \<Rightarrow> 'k \<Rightarrow> 'v \<Rightarrow> bool \<times> 'u) \<Rightarrow> ('k, 'v, 'x) ht_kv_scheme list \<Rightarrow> 'u \<Rightarrow> bool \<times> 'u" where
  "foreach_kvs cb [] user = (True, user)"
| "foreach_kvs cb (kv # kvs) user =
     (case cb user (kv_key kv) (kv_value kv) of
        (False, user') \<Rightarrow> (False, user')
      | (True, user') \<Rightarrow> foreach_kvs cb kvs user')"

definition ht_foreach ::
  "('k, 'v, 'x) ht \<Rightarrow> ('u \<Rightarrow> 'k \<Rightarrow> 'v \<Rightarrow> bool \<times> 'u) \<Rightarrow> 'u \<Rightarrow> 'u" where
  "ht_foreach ht cb user = snd (foreach_kvs cb (ht_entries ht) user)"

section \<open>Tables with string keys\<close>

text \<open>\<^verbatim>\<open>internal_ht_default_new\<close>, \<^verbatim>\<open>ht_pp_new\<close>, \<^verbatim>\<open>ht_pp_new0\<close> and \<^verbatim>\<open>ht_pp_new_size\<close> of \<^verbatim>\<open>src/ht_pp.c\<close>.\<close>

definition strlen32 :: "string \<Rightarrow> ut32" where
  "strlen32 s = word_of_nat (length s)"

definition ht_pp_options ::
  "('v \<Rightarrow> 'v) option \<Rightarrow> ('v \<Rightarrow> ut32) option \<Rightarrow> (string, 'v) ht_options" where
  "ht_pp_options valdup calcsizeV =
     \<lparr>opt_cmp = Some strcmp, opt_hashfn = Some sdb_hash, opt_key_to_hash = (\<lambda>k. 0),
      opt_dupkey = Some (\<lambda>k. k), opt_dupvalue = valdup, opt_calcsizeK = Some strlen32,
      opt_calcsizeV = calcsizeV\<rparr>"

definition internal_ht_default_new ::
  "nat \<Rightarrow> nat \<Rightarrow> ('v \<Rightarrow> 'v) option \<Rightarrow> ('v \<Rightarrow> ut32) option \<Rightarrow> (string, 'v, 'x) ht" where
  "internal_ht_default_new sz prime_idx valdup calcsizeV =
     internal_ht_new sz prime_idx (ht_pp_options valdup calcsizeV)"

definition ht_pp_new :: "('v \<Rightarrow> 'v) option \<Rightarrow> ('v \<Rightarrow> ut32) option \<Rightarrow> (string, 'v, 'x) ht" where
  "ht_pp_new valdup calcsizeV = internal_ht_default_new (ht_primes_sizes ! 0) 0 valdup calcsizeV"

definition ht_pp_new0 :: "(string, 'v, 'x) ht" where
  "ht_pp_new0 = ht_pp_new None None"

fun first_size :: "nat list \<Rightarrow> nat \<Rightarrow> nat \<Rightarrow> nat" where
  "first_size [] initial_size i = i"
| "first_size (p # ps) initial_size i =
     (if p * LOAD_FACTOR < initial_size then first_size ps initial_size (i + 1) else i)"

definition ht_pp_new_size ::
  "nat \<Rightarrow> ('v \<Rightarrow> 'v) option \<Rightarrow> ('v \<Rightarrow> ut32) option \<Rightarrow> (string, 'v, 'x) ht" where
  "ht_pp_new_size initial_size valdup calcsizeV =
     (let i0 = first_size ht_primes_sizes initial_size 0;
          i = (if i0 = length ht_primes_sizes then UT32_MAX else i0);
          sz = compute_size i (initial_size * (2 - LOAD_FACTOR) mod 2 ^ 32)
      in internal_ht_default_new sz i valdup calcsizeV)"

section \<open>Invariant\<close>

definition opt_ok :: "('k, 'v) ht_options \<Rightarrow> bool" where
  "opt_ok opt \<longleftrightarrow>
     (\<forall>f a b. opt_cmp opt = Some f \<longrightarrow> (f a b = 0 \<longleftrightarrow> a = b))
     \<and> (\<forall>f k. opt_dupkey opt = Some f \<longrightarrow> f k = k)
     \<and> (\<forall>f v. opt_dupvalue opt = Some f \<longrightarrow> f v = v)"

definition kv_ok :: "('k, 'v, 'x) ht \<Rightarrow> ('k, 'v, 'x) ht_kv_scheme \<Rightarrow> bool" where
  "kv_ok ht kv \<longleftrightarrow> kv_key_len kv = calcsize_key ht (kv_key kv)"

definition bucket_ok :: "('k, 'v, 'x) ht \<Rightarrow> nat \<Rightarrow> ('k, 'v, 'x) bucket \<Rightarrow> bool" where
  "bucket_ok ht i bt \<longleftrightarrow>
     (\<forall>kv \<in> set (b_arr bt). bucketfn ht (kv_key kv) = i \<and> kv_ok ht kv)
     \<and> distinct (map kv_key (b_arr bt))
     \<and> (b_arr bt = [] \<or> length (b_arr bt) < b_size bt)"

definition size_ok :: "nat \<Rightarrow> nat \<Rightarrow> bool" where
  "size_ok idx sz \<longleftrightarrow>
     0 < sz \<and> (idx < length ht_primes_sizes \<and> sz = ht_primes_sizes ! idx \<or> idx = UT32_MAX)"

text \<open>The structure every operation keeps, and the invariant between operations.\<close>

definition ht_struct :: "('k, 'v, 'x) ht \<Rightarrow> bool" where
  "ht_struct ht \<longleftrightarrow>
     opt_ok (ht_opt ht) \<and> length (ht_table ht) = ht_size ht
     \<and> size_ok (ht_prime_idx ht) (ht_size ht)
     \<and> ht_count ht = length (ht_entries ht)
     \<and> (\<forall>i < ht_size ht. bucket_ok ht i (ht_table ht ! i))"

definition ht_inv :: "('k, 'v, 'x) ht \<Rightarrow> bool" where
  "ht_inv ht \<longleftrightarrow> ht_struct ht \<and> ht_count ht < LOAD_FACTOR * ht_size ht"

text \<open>Below this number of elements no size computation wraps around.\<close>

definition ht_room :: "('k, 'v, 'x) ht \<Rightarrow> bool" where
  "ht_room ht \<longleftrightarrow> ht_count ht < 2147483647"

section \<open>Lemmas\<close>

lemma primes_increasing: "sorted_wrt (<) ht_primes_sizes"
  by (simp add: ht_primes_sizes_def)

lemma primes_length: "length ht_primes_sizes = 72"
  by (simp add: ht_primes_sizes_def)

lemma primes_bound: "p \<in> set ht_primes_sizes \<Longrightarrow> 3 \<le> p \<and> p \<le> 7199369"
  by (auto simp: ht_primes_sizes_def)

lemma next_size:
  assumes "size_ok idx sz" "sz < 2147483648"
  defines "sz' \<equiv> compute_size (next_idx idx) (sz * 2 mod 2 ^ 32)"
  shows "size_ok (next_idx idx) sz'" "sz < sz'"
proof -
  have wrap: "sz * 2 mod 2 ^ 32 = sz * 2" using assms(2) by simp
  have or1: "n OR 1 = n + of_bool (even n)" for n :: nat by (rule or_one_eq)
  have "size_ok (next_idx idx) sz' \<and> sz < sz'"
  proof (cases "idx < 71")
    case True
    then have "next_idx idx = Suc idx" by (simp add: next_idx_def primes_length UT32_MAX_def)
    moreover from True have "sz' = ht_primes_sizes ! Suc idx"
      using calculation by (simp add: sz'_def compute_size_def primes_length UT32_MAX_def)
    moreover have "ht_primes_sizes ! idx < ht_primes_sizes ! Suc idx"
      using primes_increasing True by (auto simp: sorted_wrt_iff_nth_less primes_length)
    ultimately show ?thesis using assms(1) True
      by (auto simp: size_ok_def primes_length UT32_MAX_def)
  next
    case False
    then have "next_idx idx = UT32_MAX" by (simp add: next_idx_def primes_length)
    moreover from this have "sz' = sz * 2 + of_bool (even (sz * 2))"
      unfolding sz'_def compute_size_def wrap or1 by simp
    ultimately show ?thesis using assms(1) by (auto simp: size_ok_def)
  qed
  then show "size_ok (next_idx idx) sz'" "sz < sz'" by auto
qed

lemma bucketfn_less: "0 < ht_size ht \<Longrightarrow> bucketfn ht k < ht_size ht"
  by (simp add: bucketfn_def)

lemma same_opt:
  assumes "ht_opt h = ht_opt g"
  shows "hashfn h = hashfn g" "calcsize_key h = calcsize_key g" "kv_ok h = kv_ok g"
    "is_kv_equal h = is_kv_equal g"
proof -
  show h: "hashfn h = hashfn g" unfolding hashfn_def assms ..
  show c: "calcsize_key h = calcsize_key g" unfolding calcsize_key_def assms ..
  show "kv_ok h = kv_ok g" unfolding kv_ok_def c ..
  show "is_kv_equal h = is_kv_equal g" unfolding is_kv_equal_def assms ..
qed

lemma bucketfn_cong:
  fixes h g :: "('k, 'v, 'x) ht"
  assumes "ht_opt h = ht_opt g" "ht_size h = ht_size g" shows "bucketfn h = bucketfn g"
  unfolding bucketfn_def same_opt(1) [OF assms(1)] assms(2) ..

lemma bucket_ok_cong:
  assumes "ht_opt h = ht_opt g" "ht_size h = ht_size g" shows "bucket_ok h = bucket_ok g"
  unfolding bucket_ok_def same_opt(3) [OF assms(1)] bucketfn_cong [OF assms] ..

lemma ht_struct_size: "ht_struct ht \<Longrightarrow> 0 < ht_size ht"
  by (simp add: ht_struct_def size_ok_def)

lemma is_kv_equal_iff:
  "opt_ok (ht_opt ht) \<Longrightarrow> kv_ok ht kv \<Longrightarrow>
   is_kv_equal ht k (calcsize_key ht k) kv \<longleftrightarrow> kv_key kv = k"
  by (auto simp: is_kv_equal_def opt_ok_def kv_ok_def split: option.splits)

lemma find_index_None: "find_index P xs = None \<longleftrightarrow> (\<forall>x \<in> set xs. \<not> P x)"
  by (induction xs) auto

lemma find_index_SomeD: "find_index P xs = Some j \<Longrightarrow> j < length xs \<and> P (xs ! j)"
  by (induction xs arbitrary: j) (auto split: if_splits)

lemma find_index_cong: "(\<And>x. x \<in> set xs \<Longrightarrow> P x = Q x) \<Longrightarrow> find_index P xs = find_index Q xs"
  by (induction xs) auto

lemma ht_entries_iff:
  "kv \<in> set (ht_entries ht) \<longleftrightarrow> (\<exists>i < length (ht_table ht). kv \<in> set (b_arr (ht_table ht ! i)))"
  unfolding ht_entries_def set_concat by (auto simp: set_conv_nth [of "ht_table ht"])

lemma length_concat_update:
  "i < length xs \<Longrightarrow>
   length (concat (map f (xs[i := y]))) + length (f (xs ! i)) = length (concat (map f xs)) + length (f y)"
  by (induction xs arbitrary: i) (auto split: nat.splits)

lemma bucket_kvs:
  assumes "ht_struct ht" "i < ht_size ht" "kv \<in> set (b_arr (ht_table ht ! i))"
  shows "bucketfn ht (kv_key kv) = i" "kv_ok ht kv"
  using assms by (auto simp: ht_struct_def bucket_ok_def)

lemma find_kv_iff:
  assumes "ht_struct ht"
  shows "ht_find_kv ht k = Some kv \<longleftrightarrow> kv \<in> set (ht_entries ht) \<and> kv_key kv = k"
proof -
  let ?i = "bucketfn ht k"
  let ?arr = "b_arr (ht_table ht ! ?i)"
  have i: "?i < ht_size ht" by (rule bucketfn_less [OF ht_struct_size [OF assms]])
  have opt: "opt_ok (ht_opt ht)" and len: "length (ht_table ht) = ht_size ht"
    and d: "distinct (map kv_key ?arr)"
    using assms i by (auto simp: ht_struct_def bucket_ok_def)
  have eq: "is_kv_equal ht k (calcsize_key ht k) e \<longleftrightarrow> kv_key e = k" if "e \<in> set ?arr" for e
    using is_kv_equal_iff [OF opt bucket_kvs(2) [OF assms i that]] .
  have "List.find (is_kv_equal ht k (calcsize_key ht k)) ?arr = List.find (\<lambda>e. kv_key e = k) ?arr"
    by (rule find_cong) (auto simp: eq)
  then have "ht_find_kv ht k = List.find (\<lambda>e. kv_key e = k) ?arr"
    by (simp add: ht_find_kv_def Let_def)
  moreover have "List.find (\<lambda>e. kv_key e = k) xs = Some kv \<longleftrightarrow> kv \<in> set xs \<and> kv_key kv = k"
    if "distinct (map kv_key xs)" for xs
    using that by (induction xs) (auto simp: image_iff)
  moreover have "kv \<in> set ?arr \<longleftrightarrow> kv \<in> set (ht_entries ht)" if "kv_key kv = k"
    using that i len bucket_kvs(1) [OF assms] by (auto simp: ht_entries_iff)
  ultimately show ?thesis using d by auto
qed

lemma find_kv_None:
  assumes "ht_struct ht"
  shows "ht_find_kv ht k = None \<longleftrightarrow> k \<notin> kv_key ` set (ht_entries ht)"
proof -
  have "ht_find_kv ht k = None \<longleftrightarrow> (\<forall>kv. ht_find_kv ht k \<noteq> Some kv)" by (cases "ht_find_kv ht k") auto
  then show ?thesis by (auto simp: find_kv_iff [OF assms])
qed

lemma ht_find_by_entries:
  assumes "ht_struct h1" "ht_struct h2" "set (ht_entries h1) = set (ht_entries h2)"
  shows "ht_find_kv h1 k = ht_find_kv h2 k"
  using find_kv_iff [OF assms(1)] find_kv_iff [OF assms(2)] assms(3)
  by (metis option.exhaust)

text \<open>Replacing one bucket.\<close>

lemma set_bucket_struct:
  assumes s: "ht_struct ht" and i: "i < ht_size ht" and ok: "bucket_ok ht i bt"
    and n: "n + length (b_arr (ht_table ht ! i)) = ht_count ht + length (b_arr bt)"
  shows "ht_struct (ht\<lparr>ht_table := (ht_table ht)[i := bt], ht_count := n\<rparr>)"
proof -
  let ?h = "ht\<lparr>ht_table := (ht_table ht)[i := bt], ht_count := n\<rparr>"
  have len: "length (ht_table ht) = ht_size ht" using s by (simp add: ht_struct_def)
  have ok_eq: "bucket_ok ?h = bucket_ok ht"
    by (rule bucket_ok_cong) simp_all
  have "length (ht_entries ?h) + length (b_arr (ht_table ht ! i)) = length (ht_entries ht) + length (b_arr bt)"
    using length_concat_update [of i "ht_table ht" b_arr bt] i len by (simp add: ht_entries_def)
  then have "n = length (ht_entries ?h)" using n s by (simp add: ht_struct_def)
  moreover have "\<forall>j < ht_size ht. bucket_ok ht j ((ht_table ht)[i := bt] ! j)"
    using s ok len i by (metis ht_struct_def nth_list_update_eq nth_list_update_neq)
  ultimately show ?thesis using s by (simp add: ht_struct_def ok_eq)
qed

lemma set_bucket_entries:
  assumes "i < length (ht_table ht)"
  shows "kv \<in> set (ht_entries (ht\<lparr>ht_table := (ht_table ht)[i := bt], ht_count := n\<rparr>)) \<longleftrightarrow>
     kv \<in> set (b_arr bt) \<or> (\<exists>j < length (ht_table ht). j \<noteq> i \<and> kv \<in> set (b_arr (ht_table ht ! j)))"
  using assms by (auto simp: ht_entries_iff nth_list_update split: if_splits)

subsection \<open>Reserving and storing\<close>

definition same_config :: "('k, 'v, 'x) ht \<Rightarrow> ('k, 'v, 'x) ht \<Rightarrow> bool" where
  "same_config h g \<longleftrightarrow>
     ht_opt h = ht_opt g \<and> ht_size h = ht_size g \<and> ht_prime_idx h = ht_prime_idx g"

lemma bucket_lookup:
  assumes "ht_struct ht"
  shows "find_index (is_kv_equal ht k (calcsize_key ht k)) (b_arr (ht_table ht ! bucketfn ht k))
       = find_index (\<lambda>e. kv_key e = k) (b_arr (ht_table ht ! bucketfn ht k))"
proof (rule find_index_cong)
  fix e assume e: "e \<in> set (b_arr (ht_table ht ! bucketfn ht k))"
  have "bucketfn ht k < ht_size ht" by (rule bucketfn_less [OF ht_struct_size [OF assms]])
  then have "kv_ok ht e" using bucket_kvs(2) [OF assms _ e] by blast
  then show "is_kv_equal ht k (calcsize_key ht k) e = (kv_key e = k)"
    using assms is_kv_equal_iff by (metis ht_struct_def)
qed

lemma other_bucket:
  assumes s: "ht_struct ht" and "j < ht_size ht" "j \<noteq> bucketfn ht k" "kv \<in> set (b_arr (ht_table ht ! j))"
  shows "kv_key kv \<noteq> k"
  using bucket_kvs(1) [OF s] assms(2-) by auto

lemma entries_split:
  assumes s: "ht_struct ht"
  shows "kv \<in> set (ht_entries ht) \<longleftrightarrow> kv \<in> set (b_arr (ht_table ht ! bucketfn ht k))
     \<or> (\<exists>j < length (ht_table ht). j \<noteq> bucketfn ht k \<and> kv \<in> set (b_arr (ht_table ht ! j)))"
  using bucketfn_less [OF ht_struct_size [OF s], of k] s
  unfolding ht_entries_iff ht_struct_def by metis

lemma distinct_keys_update:
  assumes "distinct (map kv_key xs)" "j < length xs" "kv_key (xs ! j) = kv_key kv"
  shows "distinct (map kv_key (xs[j := kv]))"
    "e \<in> set (xs[j := kv]) \<longleftrightarrow> e = kv \<or> (e \<in> set xs \<and> kv_key e \<noteq> kv_key kv)"
proof -
  show "distinct (map kv_key (xs[j := kv]))"
    using assms by (metis length_map list_update_id map_update nth_map)
  have "distinct xs" "inj_on kv_key (set xs)" using assms(1) by (auto simp: distinct_map)
  then have "set (xs[j := kv]) = insert kv (set xs - {xs ! j})"
    and "\<And>e. e \<in> set xs \<Longrightarrow> kv_key e = kv_key (xs ! j) \<longleftrightarrow> e = xs ! j"
    using assms(2) by (auto simp: set_update_distinct dest: inj_onD)
  then show "e \<in> set (xs[j := kv]) \<longleftrightarrow> e = kv \<or> (e \<in> set xs \<and> kv_key e \<noteq> kv_key kv)"
    using assms(3) by auto
qed

lemma reserve_hit:
  assumes s: "ht_struct ht" and f: "ht_find_kv ht k \<noteq> None"
  shows "reserve_kv ht k (calcsize_key ht k) False = (None, ht)"
    and "\<exists>sl. reserve_kv ht k (calcsize_key ht k) True = (Some sl, ht) \<and>
       (\<forall>kv. kv_key kv = k \<longrightarrow> kv_ok ht kv \<longrightarrow>
          ht_struct (store_kv ht sl kv) \<and> same_config (store_kv ht sl kv) ht
          \<and> ht_count (store_kv ht sl kv) = ht_count ht
          \<and> set (ht_entries (store_kv ht sl kv)) = insert kv {e \<in> set (ht_entries ht). kv_key e \<noteq> k})"
proof -
  let ?i = "bucketfn ht k"
  let ?bt = "ht_table ht ! ?i"
  have i: "?i < ht_size ht" by (rule bucketfn_less [OF ht_struct_size [OF s]])
  have len: "length (ht_table ht) = ht_size ht" and bok: "bucket_ok ht ?i ?bt"
    using s i by (auto simp: ht_struct_def)
  obtain e where e: "e \<in> set (ht_entries ht)" "kv_key e = k" using f [unfolded find_kv_None [OF s]] by blast
  then have "e \<in> set (b_arr ?bt)"
    using entries_split [OF s, of e k, unfolded len] other_bucket [OF s, of _ k e] by blast
  then have "find_index (\<lambda>e. kv_key e = k) (b_arr ?bt) \<noteq> None"
    using e(2) unfolding find_index_None by blast
  then obtain j where j: "find_index (\<lambda>e. kv_key e = k) (b_arr ?bt) = Some j" by blast
  note r = reserve_kv_def Let_def bucket_lookup [OF s] j
  show "reserve_kv ht k (calcsize_key ht k) False = (None, ht)" by (simp add: r)
  have d: "distinct (map kv_key (b_arr ?bt))" using bok by (simp add: bucket_ok_def)
  have jl: "j < length (b_arr ?bt)" "kv_key (b_arr ?bt ! j) = k"
    using find_index_SomeD [OF j] by auto
  have "ht_struct (store_kv ht (SlotAt ?i j) kv)
      \<and> set (ht_entries (store_kv ht (SlotAt ?i j) kv)) = insert kv {e \<in> set (ht_entries ht). kv_key e \<noteq> k}"
    if kv: "kv_key kv = k" "kv_ok ht kv" for kv
  proof -
    let ?bt' = "?bt\<lparr>b_arr := (b_arr ?bt)[j := kv]\<rparr>"
    have st: "store_kv ht (SlotAt ?i j) kv = ht\<lparr>ht_table := (ht_table ht)[?i := ?bt'], ht_count := ht_count ht\<rparr>"
      by (simp add: Let_def)
    have upd: "distinct (map kv_key ((b_arr ?bt)[j := kv]))"
      "\<And>e. e \<in> set ((b_arr ?bt)[j := kv]) \<longleftrightarrow> e = kv \<or> (e \<in> set (b_arr ?bt) \<and> kv_key e \<noteq> k)"
      using distinct_keys_update [OF d jl(1)] jl(2) kv(1) by auto
    have "bucketfn ht (kv_key e) = ?i \<and> kv_ok ht e" if "e \<in> set (b_arr ?bt')" for e
      using that bok kv by (simp add: upd(2)) (auto simp: bucket_ok_def)
    then have "bucket_ok ht ?i ?bt'" using bok upd(1) by (simp add: bucket_ok_def)
    then have 1: "ht_struct (store_kv ht (SlotAt ?i j) kv)"
      unfolding st by (rule set_bucket_struct [OF s i]) simp
    have "e \<in> set (ht_entries (store_kv ht (SlotAt ?i j) kv)) \<longleftrightarrow>
        e = kv \<or> (e \<in> set (ht_entries ht) \<and> kv_key e \<noteq> k)" for e
      unfolding st set_bucket_entries [OF i [folded len]] entries_split [OF s, of e k]
      using other_bucket [OF s, of _ k e] by (auto simp: len upd(2))
    with 1 show ?thesis by auto
  qed
  then show "\<exists>sl. reserve_kv ht k (calcsize_key ht k) True = (Some sl, ht) \<and>
       (\<forall>kv. kv_key kv = k \<longrightarrow> kv_ok ht kv \<longrightarrow>
          ht_struct (store_kv ht sl kv) \<and> same_config (store_kv ht sl kv) ht
          \<and> ht_count (store_kv ht sl kv) = ht_count ht
          \<and> set (ht_entries (store_kv ht sl kv)) = insert kv {e \<in> set (ht_entries ht). kv_key e \<noteq> k})"
    by (intro exI [of _ "SlotAt ?i j"]) (auto simp: r same_config_def)
qed

lemma reserve_miss:
  assumes s: "ht_struct ht" and f: "ht_find_kv ht k = None"
  shows "\<exists>sl h. reserve_kv ht k (calcsize_key ht k) upd = (Some sl, h) \<and>
       (\<forall>kv. kv_key kv = k \<longrightarrow> kv_ok ht kv \<longrightarrow>
          ht_struct (store_kv h sl kv) \<and> same_config (store_kv h sl kv) ht
          \<and> ht_count (store_kv h sl kv) = ht_count ht + 1
          \<and> set (ht_entries (store_kv h sl kv)) = insert kv {e \<in> set (ht_entries ht). kv_key e \<noteq> k})"
proof -
  let ?i = "bucketfn ht k"
  let ?bt = "ht_table ht ! ?i"
  let ?c = "length (b_arr ?bt)"
  let ?bt1 = "if ?c + 1 \<ge> b_size ?bt then ?bt\<lparr>b_size := (?c + 1) * 2\<rparr> else ?bt"
  let ?h = "ht\<lparr>ht_table := (ht_table ht)[?i := ?bt1], ht_count := ht_count ht + 1\<rparr>"
  have i: "?i < ht_size ht" by (rule bucketfn_less [OF ht_struct_size [OF s]])
  have len: "length (ht_table ht) = ht_size ht" and bok: "bucket_ok ht ?i ?bt"
    using s i by (auto simp: ht_struct_def)
  have nokey: "k \<notin> kv_key ` set (ht_entries ht)" using f find_kv_None [OF s] by blast
  then have nob: "k \<notin> kv_key ` set (b_arr ?bt)" using entries_split [OF s] by blast
  then have "find_index (\<lambda>e. kv_key e = k) (b_arr ?bt) = None" by (auto simp: find_index_None)
  then have r: "reserve_kv ht k (calcsize_key ht k) upd = (Some (SlotNew ?i), ?h)"
    by (simp add: reserve_kv_def Let_def bucket_lookup [OF s])
  have "ht_struct (store_kv ?h (SlotNew ?i) kv)
      \<and> set (ht_entries (store_kv ?h (SlotNew ?i) kv)) = insert kv {e \<in> set (ht_entries ht). kv_key e \<noteq> k}"
    if kv: "kv_key kv = k" "kv_ok ht kv" for kv
  proof -
    let ?bt' = "?bt1\<lparr>b_arr := b_arr ?bt @ [kv]\<rparr>"
    have st: "store_kv ?h (SlotNew ?i) kv
        = ht\<lparr>ht_table := (ht_table ht)[?i := ?bt'], ht_count := ht_count ht + 1\<rparr>"
      using i len by (simp add: Let_def)
    have arr: "b_arr ?bt' = b_arr ?bt @ [kv]" by simp
    have "bucket_ok ht ?i ?bt'" using bok nob kv by (auto simp: bucket_ok_def)
    then have 1: "ht_struct (store_kv ?h (SlotNew ?i) kv)"
      unfolding st by (rule set_bucket_struct [OF s i]) simp
    have "e \<in> set (ht_entries (store_kv ?h (SlotNew ?i) kv)) \<longleftrightarrow>
        e = kv \<or> e \<in> set (ht_entries ht)" for e
      unfolding st set_bucket_entries [OF i [folded len]] entries_split [OF s, of e k] arr by auto
    with 1 nokey show ?thesis by (auto simp: set_eq_iff)
  qed
  then show ?thesis unfolding r using i len
    by (intro exI [of _ "SlotNew ?i"] exI [of _ ?h]) (auto simp: same_config_def Let_def)
qed

subsection \<open>Growing\<close>

lemma distinct_concat_by_index:
  assumes "\<And>i. i < length xs \<Longrightarrow> distinct (f (xs ! i)) \<and> (\<forall>y \<in> set (f (xs ! i)). g y = i + c)"
  shows "distinct (concat (map f xs))"
  using assms
proof (induction xs arbitrary: c)
  case (Cons x xs)
  have hd: "distinct (f x)" "\<And>y. y \<in> set (f x) \<Longrightarrow> g y = c" using Cons.prems [of 0] by auto
  have tl: "distinct (f (xs ! i)) \<and> (\<forall>y \<in> set (f (xs ! i)). g y = i + Suc c)" if "i < length xs" for i
    using Cons.prems [of "Suc i"] that by auto
  have "g y \<noteq> c" if "y \<in> set (concat (map f xs))" for y
  proof -
    from that obtain x where "x \<in> set xs" "y \<in> set (f x)" by auto
    then obtain i where "i < length xs" "y \<in> set (f (xs ! i))" by (auto simp: in_set_conv_nth)
    then show ?thesis using tl [of i] by simp
  qed
  then have "set (f x) \<inter> set (concat (map f xs)) = {}" using hd(2) by blast
  then show ?case using Cons.IH [of "Suc c"] tl hd(1) by simp
qed simp

lemma distinct_entries:
  assumes "ht_struct ht" shows "distinct (map kv_key (ht_entries ht))"
proof -
  have "distinct (concat (map (map kv_key \<circ> b_arr) (ht_table ht)))"
    by (rule distinct_concat_by_index [where g = "bucketfn ht" and c = 0])
       (use assms in \<open>auto simp: ht_struct_def bucket_ok_def\<close>)
  then show ?thesis by (simp add: ht_entries_def map_concat)
qed

lemma insert_no_grow:
  assumes s: "ht_struct h" "kv_ok h e" "ht_find_kv h (kv_key e) = None" "ht_count h + 1 < ht_size h"
  shows "\<exists>h'. ht_insert_kv_fuel (Suc n) h e False = Some (True, h') \<and> ht_struct h' \<and> same_config h' h
     \<and> ht_count h' = ht_count h + 1 \<and> set (ht_entries h') = insert e (set (ht_entries h))"
proof -
  obtain sl h1 where r: "reserve_kv h (kv_key e) (calcsize_key h (kv_key e)) False = (Some sl, h1)"
    and st: "ht_struct (store_kv h1 sl e)" "same_config (store_kv h1 sl e) h"
    "ht_count (store_kv h1 sl e) = ht_count h + 1"
    "set (ht_entries (store_kv h1 sl e)) = insert e {x \<in> set (ht_entries h). kv_key x \<noteq> kv_key e}"
    using reserve_miss [OF s(1,3), of False] s(2) by blast
  have "{x \<in> set (ht_entries h). kv_key x \<noteq> kv_key e} = set (ht_entries h)"
    using s(3) [unfolded find_kv_None [OF s(1)]] by (auto simp: image_iff)
  moreover have "kv_key_len e = calcsize_key h (kv_key e)" using s(2) by (simp add: kv_ok_def)
  moreover have "\<not> LOAD_FACTOR * ht_size (store_kv h1 sl e) \<le> ht_count (store_kv h1 sl e)"
    using st(2,3) s(4) by (simp add: LOAD_FACTOR_def same_config_def)
  ultimately show ?thesis using st
    by (simp add: insert_kv_with_def r check_growing_def)
qed

lemma insert_all_ok:
  assumes "ht_struct h" "\<forall>e \<in> set kvs. kv_ok h e" "distinct (map kv_key kvs)"
    "kv_key ` set kvs \<inter> kv_key ` set (ht_entries h) = {}" "ht_count h + length kvs < ht_size h"
  shows "\<exists>h'. insert_all (\<lambda>h e. map_option snd (ht_insert_kv_fuel (Suc n) h e False)) kvs h = Some h'
     \<and> ht_struct h' \<and> same_config h' h \<and> ht_count h' = ht_count h + length kvs
     \<and> set (ht_entries h') = set kvs \<union> set (ht_entries h)"
  using assms
proof (induction kvs arbitrary: h)
  case Nil
  then show ?case by (simp add: same_config_def)
next
  case (Cons e kvs)
  have "ht_find_kv h (kv_key e) = None" using Cons.prems(1,4) by (simp add: find_kv_None)
  with Cons.prems obtain h1 where h1: "ht_insert_kv_fuel (Suc n) h e False = Some (True, h1)"
    "ht_struct h1" "same_config h1 h" "ht_count h1 = ht_count h + 1"
    "set (ht_entries h1) = insert e (set (ht_entries h))"
    using insert_no_grow [of h e n] by auto
  have cfg: "ht_opt h1 = ht_opt h" "ht_size h1 = ht_size h" using h1(3) by (auto simp: same_config_def)
  have "\<forall>e \<in> set kvs. kv_ok h1 e" using Cons.prems(2) same_opt(3) [OF cfg(1)] by simp
  moreover have "kv_key ` set kvs \<inter> kv_key ` set (ht_entries h1) = {}"
    using Cons.prems(3,4) h1(5) by auto
  moreover have "ht_count h1 + length kvs < ht_size h1" using Cons.prems(5) h1(4) cfg by simp
  ultimately obtain h2 where "insert_all (\<lambda>h e. map_option snd (ht_insert_kv_fuel (Suc n) h e False)) kvs h1 = Some h2"
    "ht_struct h2" "same_config h2 h1" "ht_count h2 = ht_count h1 + length kvs"
    "set (ht_entries h2) = set kvs \<union> set (ht_entries h1)"
    using Cons.IH [OF h1(2)] Cons.prems(3) by auto
  then show ?case using h1 by (intro exI [of _ h2]) (auto simp: same_config_def)
qed

lemma new_struct:
  assumes "opt_ok opt" "size_ok idx sz"
  shows "ht_struct (internal_ht_new sz idx opt)" "ht_entries (internal_ht_new sz idx opt) = []"
    "ht_inv (internal_ht_new sz idx opt)"
proof -
  show e: "ht_entries (internal_ht_new sz idx opt) = []"
    by (simp add: ht_entries_def internal_ht_new_def map_replicate_const)
  then show "ht_struct (internal_ht_new sz idx opt)"
    using assms unfolding ht_struct_def e by (simp add: internal_ht_new_def bucket_ok_def)
  then show "ht_inv (internal_ht_new sz idx opt)"
    using assms by (simp add: ht_inv_def internal_ht_new_def size_ok_def LOAD_FACTOR_def)
qed

text \<open>One growth is always enough: the new size is larger than the number of elements.\<close>

lemma check_growing_ok:
  assumes s: "ht_struct h" and c: "ht_count h \<le> ht_size h" "ht_count h < 2147483648"
  shows "\<exists>h'. check_growing (\<lambda>h e. map_option snd (ht_insert_kv_fuel (Suc n) h e False)) h = Some h'
     \<and> ht_inv h' \<and> ht_opt h' = ht_opt h \<and> ht_count h' = ht_count h
     \<and> set (ht_entries h') = set (ht_entries h)"
proof (cases "LOAD_FACTOR * ht_size h \<le> ht_count h")
  case True
  define idx where "idx = next_idx (ht_prime_idx h)"
  define sz where "sz = compute_size idx (ht_size h * 2 mod 2 ^ 32)"
  define g where "g = (internal_ht_new sz idx (ht_opt h) :: ('a, 'b, 'c) ht)"
  have eq: "ht_size h = ht_count h" using True c by (simp add: LOAD_FACTOR_def)
  have sz: "size_ok idx sz" "ht_size h < sz"
    using next_size [of "ht_prime_idx h" "ht_size h"] s c eq
    by (auto simp: ht_struct_def idx_def sz_def)
  have g: "ht_struct g" "ht_entries g = []" "ht_opt g = ht_opt h" "ht_size g = sz" "ht_count g = 0"
    using new_struct [OF _ sz(1), of "ht_opt h"] s by (auto simp: g_def ht_struct_def internal_ht_new_def)
  have "\<forall>e \<in> set (ht_entries h). kv_ok g e"
    using bucket_kvs(2) [OF s] same_opt(3) [OF g(3)] s by (auto simp: ht_entries_iff ht_struct_def)
  moreover have "ht_count g + length (ht_entries h) < ht_size g"
    using s eq sz g by (simp add: ht_struct_def)
  ultimately obtain h' where
    "insert_all (\<lambda>h e. map_option snd (ht_insert_kv_fuel (Suc n) h e False)) (ht_entries h) g = Some h'"
    "ht_struct h'" "same_config h' g" "ht_count h' = length (ht_entries h)"
    "set (ht_entries h') = set (ht_entries h)"
    using insert_all_ok [OF g(1), of "ht_entries h" n] distinct_entries [OF s] g(2,5) by auto
  then show ?thesis using True g s sz eq
    by (auto simp: check_growing_def internal_ht_grow_def Let_def g_def idx_def sz_def
        ht_inv_def same_config_def ht_struct_def LOAD_FACTOR_def)
next
  case False
  then show ?thesis using s by (simp add: check_growing_def ht_inv_def)
qed

subsection \<open>What the operations do\<close>

text \<open>The contents of a table after an element has been written.\<close>

definition put_result :: "('k, 'v, 'x) ht \<Rightarrow> ('k, 'v, 'x) ht_kv_scheme \<Rightarrow> bool \<Rightarrow> bool \<Rightarrow> ('k, 'v, 'x) ht \<Rightarrow> bool" where
  "put_result ht kv upd r h \<longleftrightarrow>
     ht_inv h \<and> ht_opt h = ht_opt ht \<and> (r \<longleftrightarrow> upd \<or> ht_find_kv ht (kv_key kv) = None)
     \<and> (\<not> r \<longrightarrow> h = ht)
     \<and> (r \<longrightarrow> ht_count h = ht_count ht + (if ht_find_kv ht (kv_key kv) = None then 1 else 0)
         \<and> set (ht_entries h) = insert kv {e \<in> set (ht_entries ht). kv_key e \<noteq> kv_key kv})"

lemma reserve_store_grow:
  assumes inv: "ht_inv ht" "ht_room ht" and kv: "kv_ok ht kv"
  shows "(reserve_kv ht (kv_key kv) (kv_key_len kv) upd = (None, ht) \<and> put_result ht kv upd False ht)
     \<or> (\<exists>sl h h'. reserve_kv ht (kv_key kv) (kv_key_len kv) upd = (Some sl, h)
          \<and> check_growing (\<lambda>h e. map_option snd (ht_insert_kv_fuel (Suc n) h e False)) (store_kv h sl kv) = Some h'
          \<and> put_result ht kv upd True h')"
proof -
  let ?k = "kv_key kv"
  let ?c = "if ht_find_kv ht ?k = None then 1 else 0 :: nat"
  have s: "ht_struct ht" and cnt: "ht_count ht < ht_size ht" "ht_count ht < 2147483647"
    using inv by (auto simp: ht_inv_def ht_room_def LOAD_FACTOR_def)
  have len: "kv_key_len kv = calcsize_key ht ?k" using kv by (simp add: kv_ok_def)
  consider "ht_find_kv ht ?k \<noteq> None" "\<not> upd"
    | sl h where "reserve_kv ht ?k (calcsize_key ht ?k) upd = (Some sl, h)"
      "ht_struct (store_kv h sl kv)" "same_config (store_kv h sl kv) ht"
      "ht_count (store_kv h sl kv) = ht_count ht + ?c" "upd \<or> ht_find_kv ht ?k = None"
      "set (ht_entries (store_kv h sl kv)) = insert kv {e \<in> set (ht_entries ht). kv_key e \<noteq> ?k}"
    using reserve_hit(2) [OF s, of ?k] reserve_miss [OF s, of ?k upd] kv
    by (cases "ht_find_kv ht ?k = None"; cases upd) auto
  then show ?thesis
  proof cases
    case 1
    then show ?thesis using reserve_hit(1) [OF s, of ?k] inv len by (auto simp: put_result_def)
  next
    case 2
    obtain h' where "check_growing (\<lambda>h e. map_option snd (ht_insert_kv_fuel (Suc n) h e False)) (store_kv h sl kv) = Some h'"
      "ht_inv h'" "ht_opt h' = ht_opt (store_kv h sl kv)" "ht_count h' = ht_count (store_kv h sl kv)"
      "set (ht_entries h') = set (ht_entries (store_kv h sl kv))"
      using check_growing_ok [OF 2(2), of n] 2(3,4) cnt by (auto simp: same_config_def split: if_splits)
    with 2 len show ?thesis by (auto simp: put_result_def same_config_def)
  qed
qed

lemma ht_insert_kv_fuel_enough:
  assumes "ht_inv ht" "ht_room ht" "kv_ok ht kv"
  shows "\<exists>r h. ht_insert_kv_fuel (n + 2) ht kv upd = Some (r, h) \<and> put_result ht kv upd r h"
  using reserve_store_grow [OF assms, of upd n] by (auto simp: insert_kv_with_def)

lemma ht_insert_kv_put:
  assumes "ht_inv ht" "ht_room ht" "kv_ok ht kv" "ht_insert_kv ht kv upd = (r, h)"
  shows "put_result ht kv upd r h"
  using ht_insert_kv_fuel_enough [OF assms(1-3), of 0 upd] assms(4)
  by (auto simp: ht_insert_kv_def numeral_2_eq_2)

lemma new_kv_ok:
  assumes "opt_ok (ht_opt ht)"
  shows "kv_key (new_kv ht key val x) = key" "kv_value (new_kv ht key val x) = val"
    "kv_ok ht (new_kv ht key val x)" "kv_key_len (new_kv ht key val x) = calcsize_key ht key"
  using assms by (auto simp: new_kv_def opt_ok_def dupkey_def dupval_def kv_ok_def split: option.splits)

lemma insert_update_put:
  assumes "ht_inv ht" "ht_room ht" "insert_update ht key val x upd = (r, h)"
  shows "put_result ht (new_kv ht key val x) upd r h"
proof -
  have opt: "opt_ok (ht_opt ht)" using assms(1) by (simp add: ht_inv_def ht_struct_def)
  note nk = new_kv_ok [OF opt, of key val x]
  show ?thesis
    using reserve_store_grow [OF assms(1,2) nk(3), of upd 0, unfolded nk(1,4)] assms(3)
    by (auto simp: insert_update_def)
qed

lemma put_result_find:
  assumes "ht_inv ht" "put_result ht kv upd r h"
  shows "ht_find_kv h k = (if k = kv_key kv \<and> r then Some kv else ht_find_kv ht k)"
proof (cases r)
  case True
  have s: "ht_struct h" "ht_struct ht" using assms by (auto simp: put_result_def ht_inv_def)
  have e: "set (ht_entries h) = insert kv {e \<in> set (ht_entries ht). kv_key e \<noteq> kv_key kv}"
    using assms(2) True by (simp add: put_result_def)
  have "ht_find_kv h k = Some x \<longleftrightarrow> (if k = kv_key kv then Some kv else ht_find_kv ht k) = Some x" for x
    using find_kv_iff [OF s(1), of k x] find_kv_iff [OF s(2), of k x] e by auto
  then have "ht_find_kv h k = (if k = kv_key kv then Some kv else ht_find_kv ht k)" by (rule option_eqI)
  then show ?thesis using True by simp
qed (use assms in \<open>auto simp: put_result_def\<close>)

subsection \<open>Deleting\<close>

lemma distinct_keys_remove:
  assumes "distinct (map g xs)" "j < length xs"
  shows "distinct (map g (take j xs @ drop (Suc j) xs))"
    "e \<in> set (take j xs @ drop (Suc j) xs) \<longleftrightarrow> e \<in> set xs \<and> g e \<noteq> g (xs ! j)"
proof -
  obtain as bs where xs: "xs = as @ xs ! j # bs" "as = take j xs" "bs = drop (Suc j) xs"
    using id_take_nth_drop [OF assms(2)] by blast
  have d: "distinct (map g (as @ xs ! j # bs))" using assms(1) xs(1) by argo
  show "distinct (map g (take j xs @ drop (Suc j) xs))"
    unfolding xs(2,3) [symmetric] using d by simp
  have "e \<in> set (as @ bs) \<longleftrightarrow> e \<in> set (as @ xs ! j # bs) \<and> g e \<noteq> g (xs ! j)"
    using d by (auto simp: image_iff)
  then show "e \<in> set (take j xs @ drop (Suc j) xs) \<longleftrightarrow> e \<in> set xs \<and> g e \<noteq> g (xs ! j)"
    unfolding xs(2,3) [symmetric] using xs(1) by argo
qed

definition delete_result :: "('k, 'v, 'x) ht \<Rightarrow> 'k \<Rightarrow> ('k, 'v, 'x) ht \<Rightarrow> bool" where
  "delete_result ht k h \<longleftrightarrow>
     ht_struct h \<and> same_config h ht \<and> ht_count h + 1 = ht_count ht
     \<and> set (ht_entries h) = {e \<in> set (ht_entries ht). kv_key e \<noteq> k}"

lemma bucket_remove_result:
  assumes s: "ht_struct ht"
    and j: "find_index (is_kv_equal ht k (calcsize_key ht k)) (b_arr (ht_table ht ! bucketfn ht k)) = Some j"
  shows "delete_result ht k (bucket_remove ht (bucketfn ht k) j)"
proof -
  let ?i = "bucketfn ht k"
  let ?bt = "ht_table ht ! ?i"
  let ?bt' = "?bt\<lparr>b_arr := take j (b_arr ?bt) @ drop (Suc j) (b_arr ?bt)\<rparr>"
  have i: "?i < ht_size ht" by (rule bucketfn_less [OF ht_struct_size [OF s]])
  have len: "length (ht_table ht) = ht_size ht" and bok: "bucket_ok ht ?i ?bt"
    using s i by (auto simp: ht_struct_def)
  have jl: "j < length (b_arr ?bt)" "kv_key (b_arr ?bt ! j) = k"
    using find_index_SomeD [OF j [unfolded bucket_lookup [OF s]]] by auto
  have d: "distinct (map kv_key (b_arr ?bt))" using bok by (simp add: bucket_ok_def)
  have "distinct (map kv_key (b_arr ?bt'))"
    and mem: "\<And>e. e \<in> set (b_arr ?bt') \<longleftrightarrow> e \<in> set (b_arr ?bt) \<and> kv_key e \<noteq> k"
    using distinct_keys_remove [OF d jl(1)] jl(2) by simp_all
  moreover have "bucketfn ht (kv_key e) = ?i \<and> kv_ok ht e" if "e \<in> set (b_arr ?bt')" for e
    using that [unfolded mem] bok by (auto simp: bucket_ok_def)
  moreover have "length (b_arr ?bt') < b_size ?bt'" using bok jl by (auto simp: bucket_ok_def)
  ultimately have ok: "bucket_ok ht ?i ?bt'" by (simp add: bucket_ok_def)
  have "ht_count ht = length (ht_entries ht)" using s by (simp add: ht_struct_def)
  moreover have "length (b_arr ?bt) \<le> length (ht_entries ht)"
    using length_concat_update [of ?i "ht_table ht" b_arr "\<lparr>b_arr = [], b_size = 0\<rparr>"] i len
    by (simp add: ht_entries_def)
  ultimately have c: "0 < ht_count ht" using jl by linarith
  have rm: "bucket_remove ht ?i j = ht\<lparr>ht_table := (ht_table ht)[?i := ?bt'], ht_count := ht_count ht - 1\<rparr>"
    by (simp add: bucket_remove_def Let_def)
  have "ht_struct (bucket_remove ht ?i j)"
    unfolding rm by (rule set_bucket_struct [OF s i ok]) (use jl c in simp)
  moreover have "e \<in> set (ht_entries (bucket_remove ht ?i j)) \<longleftrightarrow> e \<in> set (ht_entries ht) \<and> kv_key e \<noteq> k" for e
    unfolding rm set_bucket_entries [OF i [folded len]] entries_split [OF s, of e k] mem
    using other_bucket [OF s, of _ k e] by (auto simp: len)
  ultimately show ?thesis using c by (auto simp: delete_result_def same_config_def rm)
qed

lemma delete_result_find:
  assumes "ht_struct ht" "delete_result ht k h"
  shows "ht_find_kv h x = (if x = k then None else ht_find_kv ht x)"
  using find_kv_iff [OF assms(1), of x] find_kv_iff [of h x] assms(2)
  by (intro option_eqI) (auto simp: delete_result_def)

lemma delete_inv: "ht_inv ht \<Longrightarrow> delete_result ht k h \<Longrightarrow> ht_inv h"
  by (auto simp: ht_inv_def delete_result_def same_config_def)

lemma bucket_index_None:
  assumes "ht_struct ht"
  shows "find_index (is_kv_equal ht k (calcsize_key ht k)) (b_arr (ht_table ht ! bucketfn ht k)) = None
     \<longleftrightarrow> ht_find_kv ht k = None"
  by (simp add: find_index_None ht_find_kv_def Let_def find_None_iff Ball_def)

section \<open>Correctness of the operations\<close>

lemma find_put:
  assumes "ht_inv ht" "put_result ht kv upd r h"
  shows "ht_find h = (if r then (ht_find ht)(kv_key kv \<mapsto> kv_value kv) else ht_find ht)"
  using put_result_find [OF assms] by (auto simp: ht_find_def fun_eq_iff)

lemma find_delete:
  assumes "ht_struct ht" "delete_result ht k h"
  shows "ht_find h = (ht_find ht)(k := None)"
  using delete_result_find [OF assms] by (auto simp: ht_find_def fun_eq_iff)

lemma insert_update_refines:
  assumes "ht_inv ht" "ht_room ht" "insert_update ht key val x upd = (r, h)"
  shows "ht_inv h" "ht_opt h = ht_opt ht" "ht_count h \<le> ht_count ht + 1"
    "r \<longleftrightarrow> upd \<or> ht_find ht key = None"
    "ht_find h = (if r then (ht_find ht)(key \<mapsto> val) else ht_find ht)"
proof -
  have opt: "opt_ok (ht_opt ht)" using assms(1) by (simp add: ht_inv_def ht_struct_def)
  note put = insert_update_put [OF assms]
  show "ht_inv h" "ht_opt h = ht_opt ht" "ht_count h \<le> ht_count ht + 1"
    using put by (auto simp: put_result_def split: if_splits)
  show "r \<longleftrightarrow> upd \<or> ht_find ht key = None"
    using put new_kv_ok(1) [OF opt] by (simp add: put_result_def ht_find_def)
  show "ht_find h = (if r then (ht_find ht)(key \<mapsto> val) else ht_find ht)"
    using find_put [OF assms(1) put] new_kv_ok(1,2) [OF opt, of key val x] by simp
qed

lemma ht_delete_refines:
  assumes "ht_inv ht" "ht_delete ht key = (r, h)"
  shows "ht_inv h" "ht_opt h = ht_opt ht" "ht_count h \<le> ht_count ht"
    "r \<longleftrightarrow> ht_find ht key \<noteq> None" "ht_find h = (ht_find ht)(key := None)"
proof -
  have s: "ht_struct ht" using assms(1) by (simp add: ht_inv_def)
  have cases: "ht_find ht key = None \<and> \<not> r \<and> h = ht
     \<or> ht_find ht key \<noteq> None \<and> r \<and> delete_result ht key h"
    using assms(2) bucket_index_None [OF s, of key] bucket_remove_result [OF s, of key]
    by (cases "find_index (is_kv_equal ht key (calcsize_key ht key)) (b_arr (ht_table ht ! bucketfn ht key))")
       (auto simp: ht_delete_def Let_def ht_find_def)
  then show "ht_inv h" "ht_opt h = ht_opt ht" "ht_count h \<le> ht_count ht"
    using assms(1) delete_inv [OF assms(1)] by (auto simp: delete_result_def same_config_def)
  from cases show "r \<longleftrightarrow> ht_find ht key \<noteq> None" by auto
  show "ht_find h = (ht_find ht)(key := None)"
    using cases find_delete [OF s, of key h] by (auto simp: fun_upd_idem)
qed

text \<open>Fresh tables.\<close>

lemma ht_pp_options_ok: "\<forall>f v. valdup = Some f \<longrightarrow> f v = v \<Longrightarrow> opt_ok (ht_pp_options valdup sz)"
  by (simp add: ht_pp_options_def opt_ok_def strcmp_eq_0)

lemma first_size_ok: "size_ok 0 (ht_primes_sizes ! 0)"
  by (simp add: size_ok_def ht_primes_sizes_def)

lemma new_empty: "0 < sz \<Longrightarrow> ht_find (internal_ht_new sz idx opt) k = None"
  by (simp add: internal_ht_new_def ht_find_def ht_find_kv_def Let_def bucketfn_def)

lemma ht_pp_new_ok:
  assumes "\<forall>f v. valdup = Some f \<longrightarrow> f v = v"
  shows "ht_inv (ht_pp_new valdup sz)" "ht_room (ht_pp_new valdup sz)"
    "ht_find (ht_pp_new valdup sz) k = None" "ht_count (ht_pp_new valdup sz) = 0"
    "ht_opt (ht_pp_new valdup sz) = ht_pp_options valdup sz"
  using new_struct(3) [OF ht_pp_options_ok [OF assms] first_size_ok] first_size_ok
  by (auto simp: ht_pp_new_def internal_ht_default_new_def new_empty size_ok_def ht_room_def)
     (simp_all add: internal_ht_new_def)

lemma ht_pp_new0_ok:
  "ht_inv ht_pp_new0" "ht_room ht_pp_new0" "ht_find ht_pp_new0 k = None" "ht_count ht_pp_new0 = 0"
  unfolding ht_pp_new0_def by (rule ht_pp_new_ok; simp)+

text \<open>
  \<^verbatim>\<open>Ht_(update_key)\<close> renames a key: it succeeds exactly when the old key is present and
  the new key is not, and then the value is found under the new key only; otherwise the
  contents do not change.  The invariant of the table holds again afterwards.
\<close>

theorem ht_update_key_spec:
  assumes "ht_inv ht" "ht_room ht" "ht_update_key ht old new x = (r, h)"
  shows "ht_inv h \<and> (r \<longleftrightarrow> ht_find ht old \<noteq> None \<and> ht_find ht new = None)
     \<and> ht_find h = (if r then (ht_find ht)(new := ht_find ht old, old := None) else ht_find ht)"
proof (cases "ht_find ht old")
  case None
  then show ?thesis using assms by (simp add: ht_update_key_def)
next
  case (Some v)
  obtain r1 h1 where ins: "insert_update ht new v x False = (r1, h1)" by fastforce
  note i = insert_update_refines [OF assms(1,2) ins]
  show ?thesis
  proof (cases r1)
    case False
    then have "r = False" "h = h1" using assms(3) Some ins by (auto simp: ht_update_key_def)
    then show ?thesis using i False Some by simp
  next
    case True
    have ne: "old \<noteq> new" using True i(4) Some by auto
    have s: "ht_struct h1" using i(1) by (simp add: ht_inv_def)
    have f: "ht_find h1 old = Some v" using i(5) True ne Some by simp
    then obtain j where j: "find_index (is_kv_equal h1 old (calcsize_key h1 old))
        (b_arr (ht_table h1 ! bucketfn h1 old)) = Some j"
      using bucket_index_None [OF s, of old] by (cases "ht_find_kv h1 old") (auto simp: ht_find_def)
    have rh: "r" "h = bucket_remove h1 (bucketfn h1 old) j"
      using assms(3) Some ins True j by (auto simp: ht_update_key_def Let_def)
    have d: "delete_result h1 old h" using bucket_remove_result [OF s j] rh by simp
    show ?thesis using delete_inv [OF i(1) d] find_delete [OF s d] i(4,5) True rh(1) Some by simp
  qed
qed

theorem ht_update_key_spec_witness:
  "ht_find (snd (ht_update_key (snd (ht_insert (ht_pp_new0 :: (string, nat, unit) ht) ''a'' 7 ())) ''a'' ''b'' ())) ''b'' = Some 7"
proof -
  obtain r h where ins: "ht_insert (ht_pp_new0 :: (string, nat, unit) ht) ''a'' 7 () = (r, h)" by fastforce
  note i = insert_update_refines [OF ht_pp_new0_ok(1,2) ins [unfolded ht_insert_def]]
  have room: "ht_room h" using i(3) by (simp add: ht_room_def ht_pp_new0_ok(4))
  obtain r' h' where u: "ht_update_key h ''a'' ''b'' () = (r', h')" by fastforce
  show ?thesis using ht_update_key_spec [OF i(1) room u] i(4,5) ins u by (simp add: ht_pp_new0_ok(3))
qed

section \<open>Hash tables are finite maps\<close>

fun ht_step :: "('k, 'v) map_op \<Rightarrow> ('k, 'v, unit) ht \<Rightarrow> bool \<times> ('k, 'v, unit) ht" where
  "ht_step (Insert k v) ht = ht_insert ht k v ()"
| "ht_step (Update k v) ht = ht_update ht k v ()"
| "ht_step (Delete k) ht = ht_delete ht k"

lemma ht_step_refines:
  assumes m: "ht_inv m" "ht_count m < 2147483647" and st: "ht_step p m = (r, m')"
  shows "spec_op p (ht_find m) = (r, ht_find m') \<and> ht_inv m' \<and> ht_count m' \<le> ht_count m + 1"
proof -
  have room: "ht_room m" using m by (simp add: ht_room_def)
  show ?thesis
  proof (cases p)
    case (Insert k v)
    then show ?thesis using insert_update_refines [OF m(1) room, of k v "()" False r m'] st
      by (simp add: ht_insert_def)
  next
    case (Update k v)
    then show ?thesis using insert_update_refines [OF m(1) room, of k v "()" True r m'] st
      by (simp add: ht_update_def)
  next
    case (Delete k)
    then show ?thesis using ht_delete_refines [OF m(1), of k r m'] st by simp
  qed
qed

interpretation ht_map: map_impl ht_find ht_step ht_inv ht_count 2147483647 "\<lambda>k. True"
  by unfold_locales (use ht_step_refines in blast)+

text \<open>
  C1.  A new hash table, whatever its options as long as its comparison decides equality
  and its copies are equal to the originals, behaves as a finite map: any sequence of
  \<^verbatim>\<open>insert\<close>, \<^verbatim>\<open>update\<close> and \<^verbatim>\<open>delete\<close> calls returns what the map operations return, lookups
  afterwards give the contents of the map, and the structural invariant holds (elements in
  the bucket of their hash, no key twice, every bucket within its allocation, the number of
  elements counted and below the number of buckets).  Growing happens inside.
\<close>

theorem ht_refines_map:
  fixes opt :: "('k, 'v) ht_options"
  assumes "opt_ok opt" "length ps \<le> 2147483647" "run_ops ht_step ps (ht_new_opt opt) = (rs, h)"
  shows "run_ops spec_op ps Map.empty = (rs, ht_find h) \<and> ht_inv h"
proof -
  let ?n = "ht_new_opt opt :: ('k, 'v, unit) ht"
  have inv: "ht_inv ?n"
    using new_struct(3) [OF assms(1) first_size_ok] by (simp add: ht_new_opt_def)
  have count: "ht_count ?n = 0" by (simp add: ht_new_opt_def internal_ht_new_def)
  have empty: "ht_find ?n = Map.empty"
    using first_size_ok by (auto simp: ht_new_opt_def fun_eq_iff size_ok_def new_empty)
  show ?thesis
    using ht_map.run_ops_refines [OF inv _ _ assms(3), unfolded count empty] assms(2) by simp
qed

theorem ht_refines_map_witness:
  "ht_find (snd (run_ops ht_step [Insert ''a'' (1::nat), Update ''a'' 2, Insert ''b'' 3, Delete ''a'']
     (ht_new_opt (ht_pp_options None None)))) ''b'' = Some 3"
proof -
  let ?ps = "[Insert ''a'' (1::nat), Update ''a'' 2, Insert ''b'' 3, Delete ''a'']"
  obtain rs h where r: "run_ops ht_step ?ps (ht_new_opt (ht_pp_options None None)) = (rs, h)" by fastforce
  have "opt_ok (ht_pp_options (None :: (nat \<Rightarrow> nat) option) None)" by (rule ht_pp_options_ok) simp
  then have "run_ops spec_op ?ps Map.empty = (rs, ht_find h)"
    by (intro conjunct1 [OF ht_refines_map [OF _ _ r]]) simp_all
  then have "snd (run_ops spec_op ?ps Map.empty) = ht_find h" by (simp only: snd_conv)
  moreover have "snd (run_ops spec_op ?ps Map.empty) ''b'' = Some 3" by simp
  ultimately show ?thesis unfolding r by simp
qed

lemma foreach_collect:
  "foreach_kvs (\<lambda>u k v. (True, u @ [(k, v)])) kvs acc = (True, acc @ map (\<lambda>e. (kv_key e, kv_value e)) kvs)"
  by (induction kvs arbitrary: acc) auto

text \<open>
  \<^verbatim>\<open>Ht_(foreach)\<close> visits every element of a table exactly once: the pairs handed to a
  callback that never stops the walk have distinct keys and are the pairs the table
  finds.
\<close>

theorem ht_foreach_visits:
  assumes "ht_inv ht"
  defines "visited \<equiv> ht_foreach ht (\<lambda>u k v. (True, u @ [(k, v)])) []"
  shows "distinct (map fst visited) \<and> (\<forall>k v. (k, v) \<in> set visited \<longleftrightarrow> ht_find ht k = Some v)"
proof -
  have s: "ht_struct ht" using assms(1) by (simp add: ht_inv_def)
  have v: "visited = map (\<lambda>e. (kv_key e, kv_value e)) (ht_entries ht)"
    by (simp add: visited_def ht_foreach_def foreach_collect)
  have "(k, w) \<in> set visited \<longleftrightarrow> ht_find ht k = Some w" for k w
    using find_kv_iff [OF s, of k] unfolding v by (auto simp: ht_find_def image_iff)
  moreover have "distinct (map fst visited)" using distinct_entries [OF s] by (simp add: v comp_def)
  ultimately show ?thesis by blast
qed

theorem ht_foreach_visits_witness:
  "ht_inv (ht_pp_new0 :: (string, nat, unit) ht)
   \<and> distinct (map fst (ht_foreach (ht_pp_new0 :: (string, nat, unit) ht) (\<lambda>u k v. (True, u @ [(k, v)])) []))"
  using ht_foreach_visits [OF ht_pp_new0_ok(1)] ht_pp_new0_ok(1) by blast

lemma first_size_spec:
  "first_size ps n i = i + length (takeWhile (\<lambda>p. p < n) ps)"
  by (induction ps arbitrary: i) (auto simp: LOAD_FACTOR_def)

text \<open>
  \<^verbatim>\<open>Ht_(new_size)\<close> sizes a table for the number of elements announced: it chooses the
  first prime of the table that is not smaller, or an odd number of buckets above the last
  prime, and the table it returns is empty and well formed.
\<close>

theorem ht_pp_new_size_ok:
  assumes "n < 4294967296" "\<forall>f v. valdup = Some f \<longrightarrow> f v = v"
  shows "ht_inv (ht_pp_new_size n valdup sz) \<and> n \<le> ht_size (ht_pp_new_size n valdup sz)
     \<and> ht_find (ht_pp_new_size n valdup sz) k = None"
proof -
  define i0 where "i0 = length (takeWhile (\<lambda>p. p < n) ht_primes_sizes)"
  define i where "i = (if i0 = length ht_primes_sizes then UT32_MAX else i0)"
  define s where "s = compute_size i (n * (2 - LOAD_FACTOR) mod 2 ^ 32)"
  have h: "ht_pp_new_size n valdup sz = internal_ht_new s i (ht_pp_options valdup sz)"
    by (simp add: ht_pp_new_size_def internal_ht_default_new_def first_size_spec i0_def i_def s_def Let_def)
  have le: "i0 \<le> 72" using length_takeWhile_le [of "\<lambda>p. p < n" ht_primes_sizes]
    by (simp add: i0_def primes_length)
  have "size_ok i s \<and> n \<le> s"
  proof (cases "i0 = 72")
    case True
    have "s = n OR 1" using True assms(1) by (simp add: s_def i_def primes_length compute_size_def LOAD_FACTOR_def)
    then have "s = n + of_bool (even n)" unfolding or_one_eq .
    then show ?thesis using True by (cases "n = 0") (auto simp: size_ok_def i_def primes_length)
  next
    case False
    then have lt: "i0 < length ht_primes_sizes" using le by (simp add: primes_length)
    have "\<not> ht_primes_sizes ! i0 < n"
      using nth_length_takeWhile [of "\<lambda>p. p < n" ht_primes_sizes] lt by (simp add: i0_def)
    moreover have "s = ht_primes_sizes ! i0" "i = i0"
      using lt le by (auto simp: s_def i_def compute_size_def primes_length UT32_MAX_def)
    ultimately show ?thesis using lt primes_bound [OF nth_mem [OF lt]] by (simp add: size_ok_def)
  qed
  then show ?thesis
    using new_struct(3) [OF ht_pp_options_ok [OF assms(2), of sz], of i s] new_empty [of s i "ht_pp_options valdup sz" k]
    by (simp add: h size_ok_def) (simp add: internal_ht_new_def)
qed

theorem ht_pp_new_size_ok_witness:
  "100 \<le> ht_size (ht_pp_new_size 100 (Some (\<lambda>v :: nat. v)) None :: (string, nat, unit) ht)"
  using conjunct1 [OF conjunct2 [OF ht_pp_new_size_ok [of 100 "Some (\<lambda>v :: nat. v)"]]] by simp

end
