(* ===== verification/Sdb_Ht.thy ===== *)
theory Sdb_Ht
  imports Ht
begin

text \<open>
  The tables built on the generic hash table: the tables of \<^verbatim>\<open>SdbKv\<close> records that hold a
  database in memory (\<^verbatim>\<open>src/ht.c\<close>), the tables with 64-bit keys (\<^verbatim>\<open>src/ht_up.c\<close>) and the
  sets of \<^verbatim>\<open>src/set.c\<close>.  Table and key pointers are not NULL, as the callers in the library
  guarantee.  The value pointer of an \<^verbatim>\<open>SdbKv\<close> may be NULL, which is \<open>None\<close>.
\<close>

section \<open>Tables of SdbKv\<close>

record sdb_kv = "(string, string option) ht_kv" +
  kv_cas :: ut32
  kv_expire :: ut64

type_synonym sdb_ht = "(string, string option, unit sdb_kv_ext) ht"

definition optlen32 :: "string option \<Rightarrow> ut32" where
  "optlen32 v = (case v of None \<Rightarrow> 0 | Some s \<Rightarrow> strlen32 s)"

definition sdb_ht_new :: sdb_ht where
  "sdb_ht_new = ht_pp_new (Some (\<lambda>v. v)) (Some optlen32)"

definition sdb_ht_internal_insert :: "sdb_ht \<Rightarrow> string \<Rightarrow> string option \<Rightarrow> bool \<Rightarrow> bool \<times> sdb_ht" where
  "sdb_ht_internal_insert ht key value update =
     (if key = [] \<or> value = None then (False, ht)
      else ht_insert_kv ht
             \<lparr>kv_key = key, kv_value = value, kv_key_len = strlen32 key,
              kv_value_len = optlen32 value, kv_cas = 0, kv_expire = 0\<rparr> update)"

definition sdb_ht_insert :: "sdb_ht \<Rightarrow> string \<Rightarrow> string option \<Rightarrow> bool \<times> sdb_ht" where
  "sdb_ht_insert ht key value = sdb_ht_internal_insert ht key value False"

definition sdb_ht_insert_kvp :: "sdb_ht \<Rightarrow> sdb_kv \<Rightarrow> bool \<Rightarrow> bool \<times> sdb_ht" where
  "sdb_ht_insert_kvp ht kvp update = ht_insert_kv ht kvp update"

definition sdb_ht_update :: "sdb_ht \<Rightarrow> string \<Rightarrow> string option \<Rightarrow> bool \<times> sdb_ht" where
  "sdb_ht_update ht key value = sdb_ht_internal_insert ht key value True"

definition sdb_ht_find_kvp :: "sdb_ht \<Rightarrow> string \<Rightarrow> sdb_kv option" where
  "sdb_ht_find_kvp ht key = ht_find_kv ht key"

definition sdb_ht_find :: "sdb_ht \<Rightarrow> string \<Rightarrow> string option" where
  "sdb_ht_find ht key = (case ht_find ht key of None \<Rightarrow> None | Some v \<Rightarrow> v)"

definition sdb_ht_delete :: "sdb_ht \<Rightarrow> string \<Rightarrow> bool \<times> sdb_ht" where
  "sdb_ht_delete ht key = ht_delete ht key"

subsection \<open>Correctness\<close>

definition sdb_ht_inv :: "sdb_ht \<Rightarrow> bool" where
  "sdb_ht_inv ht \<longleftrightarrow> ht_inv ht \<and> ht_opt ht = ht_pp_options (Some (\<lambda>v. v)) (Some optlen32)"

lemma sdb_ht_new_ok:
  "sdb_ht_inv sdb_ht_new" "ht_count sdb_ht_new = 0" "sdb_ht_find_kvp sdb_ht_new k = None"
proof -
  note new = ht_pp_new_ok [of "Some (\<lambda>v :: string option. v)" "Some optlen32", simplified]
  show "sdb_ht_inv sdb_ht_new" "ht_count sdb_ht_new = 0"
    by (simp_all add: sdb_ht_inv_def sdb_ht_new_def new)
  have "ht_find sdb_ht_new k = None" by (simp add: sdb_ht_new_def new)
  then show "sdb_ht_find_kvp sdb_ht_new k = None" by (simp add: ht_find_def sdb_ht_find_kvp_def)
qed

lemma sdb_kv_ok: "sdb_ht_inv ht \<Longrightarrow> kv_key_len kv = strlen32 (kv_key kv) \<Longrightarrow> kv_ok ht kv"
  by (simp add: sdb_ht_inv_def kv_ok_def calcsize_key_def ht_pp_options_def)

lemma sdb_ht_insert_kvp_refines:
  assumes "sdb_ht_inv ht" "ht_room ht" "kv_key_len kv = strlen32 (kv_key kv)"
    "sdb_ht_insert_kvp ht kv upd = (r, h)"
  shows "sdb_ht_inv h" "ht_count h \<le> ht_count ht + 1"
    "r \<longleftrightarrow> upd \<or> sdb_ht_find_kvp ht (kv_key kv) = None"
    "sdb_ht_find_kvp h = (if r then (sdb_ht_find_kvp ht)(kv_key kv \<mapsto> kv) else sdb_ht_find_kvp ht)"
proof -
  have inv: "ht_inv ht" using assms(1) by (simp add: sdb_ht_inv_def)
  have put: "put_result ht kv upd r h"
    using ht_insert_kv_put [OF inv assms(2) sdb_kv_ok [OF assms(1,3)]] assms(4)
    by (simp add: sdb_ht_insert_kvp_def)
  then show "sdb_ht_inv h" "ht_count h \<le> ht_count ht + 1"
    "r \<longleftrightarrow> upd \<or> sdb_ht_find_kvp ht (kv_key kv) = None"
    using assms(1) by (auto simp: put_result_def sdb_ht_inv_def sdb_ht_find_kvp_def split: if_splits)
  show "sdb_ht_find_kvp h = (if r then (sdb_ht_find_kvp ht)(kv_key kv \<mapsto> kv) else sdb_ht_find_kvp ht)"
    using put_result_find [OF inv put] by (auto simp: fun_eq_iff sdb_ht_find_kvp_def)
qed

text \<open>Tables filled through this interface hold no NULL values.\<close>

definition sdb_ht_full :: "sdb_ht \<Rightarrow> bool" where
  "sdb_ht_full ht \<longleftrightarrow> sdb_ht_inv ht \<and> (\<forall>k v. ht_find ht k = Some v \<longrightarrow> v \<noteq> None)"

lemma full_find:
  assumes "sdb_ht_full ht"
  shows "ht_find ht k = map_option Some (sdb_ht_find ht k)"
  using assms by (cases "ht_find ht k") (fastforce simp: sdb_ht_full_def sdb_ht_find_def)+

lemma sdb_ht_internal_insert_refines:
  assumes "sdb_ht_full ht" "ht_room ht" "k \<noteq> []" "sdb_ht_internal_insert ht k (Some v) upd = (r, h)"
  shows "sdb_ht_full h" "ht_count h \<le> ht_count ht + 1" "r \<longleftrightarrow> upd \<or> sdb_ht_find ht k = None"
    "sdb_ht_find h = (if r then (sdb_ht_find ht)(k \<mapsto> v) else sdb_ht_find ht)"
proof -
  let ?kv = "\<lparr>kv_key = k, kv_value = Some v, kv_key_len = strlen32 k, kv_value_len = strlen32 v,
    kv_cas = 0, kv_expire = 0\<rparr>"
  have ins: "sdb_ht_insert_kvp ht ?kv upd = (r, h)"
    using assms(3,4) by (simp add: sdb_ht_internal_insert_def sdb_ht_insert_kvp_def optlen32_def)
  have inv: "sdb_ht_inv ht" using assms(1) by (simp add: sdb_ht_full_def)
  note i = sdb_ht_insert_kvp_refines [OF inv assms(2) _ ins, simplified]
  have f: "ht_find h = (if r then (ht_find ht)(k \<mapsto> Some v) else ht_find ht)"
    using i(4) by (auto simp: fun_eq_iff ht_find_def sdb_ht_find_kvp_def)
  show full: "sdb_ht_full h" using i(1) f assms(1) by (auto simp: sdb_ht_full_def split: if_splits)
  show "ht_count h \<le> ht_count ht + 1" using i by auto
  show "r \<longleftrightarrow> upd \<or> sdb_ht_find ht k = None"
    using i(3) full_find [OF assms(1), of k] by (auto simp: ht_find_def sdb_ht_find_kvp_def)
  show "sdb_ht_find h = (if r then (sdb_ht_find ht)(k \<mapsto> v) else sdb_ht_find ht)"
    using f by (auto simp: fun_eq_iff sdb_ht_find_def)
qed

lemma sdb_ht_delete_refines:
  assumes "sdb_ht_full ht" "sdb_ht_delete ht k = (r, h)"
  shows "sdb_ht_full h" "ht_count h \<le> ht_count ht" "r \<longleftrightarrow> sdb_ht_find ht k \<noteq> None"
    "sdb_ht_find h = (sdb_ht_find ht)(k := None)"
proof -
  have inv: "ht_inv ht" using assms(1) by (simp add: sdb_ht_full_def sdb_ht_inv_def)
  note d = ht_delete_refines [OF inv assms(2) [unfolded sdb_ht_delete_def]]
  show "sdb_ht_full h" using d assms(1) by (auto simp: sdb_ht_full_def sdb_ht_inv_def split: if_splits)
  show "ht_count h \<le> ht_count ht" by (rule d(3))
  show "r \<longleftrightarrow> sdb_ht_find ht k \<noteq> None" using d(4) full_find [OF assms(1), of k] by auto
  show "sdb_ht_find h = (sdb_ht_find ht)(k := None)" using d(5) by (auto simp: fun_eq_iff sdb_ht_find_def)
qed

fun sdb_ht_step :: "(string, string) map_op \<Rightarrow> sdb_ht \<Rightarrow> bool \<times> sdb_ht" where
  "sdb_ht_step (Insert k v) ht = sdb_ht_insert ht k (Some v)"
| "sdb_ht_step (Update k v) ht = sdb_ht_update ht k (Some v)"
| "sdb_ht_step (Delete k) ht = sdb_ht_delete ht k"

lemma sdb_ht_step_refines:
  assumes m: "sdb_ht_full m" "ht_count m < 2147483647" "op_key p \<noteq> []" "sdb_ht_step p m = (r, m')"
  shows "spec_op p (sdb_ht_find m) = (r, sdb_ht_find m') \<and> sdb_ht_full m' \<and> ht_count m' \<le> ht_count m + 1"
proof -
  have room: "ht_room m" using m by (simp add: ht_room_def)
  show ?thesis
  proof (cases p)
    case (Insert k v)
    then show ?thesis using sdb_ht_internal_insert_refines [OF m(1) room, of k v False r m'] m
      by (simp add: sdb_ht_insert_def)
  next
    case (Update k v)
    then show ?thesis using sdb_ht_internal_insert_refines [OF m(1) room, of k v True r m'] m
      by (simp add: sdb_ht_update_def)
  next
    case (Delete k)
    then show ?thesis using sdb_ht_delete_refines [OF m(1), of k r m'] m by simp
  qed
qed

interpretation sdb_map: map_impl sdb_ht_find sdb_ht_step sdb_ht_full ht_count 2147483647 "\<lambda>k. k \<noteq> []"
  by unfold_locales (use sdb_ht_step_refines in blast)+

text \<open>
  C2.  The table that holds a database in memory behaves as a finite map from keys to
  values: for every sequence of \<^verbatim>\<open>sdb_ht_insert\<close>, \<^verbatim>\<open>sdb_ht_update\<close> and \<^verbatim>\<open>sdb_ht_delete\<close> calls
  with non-empty keys, the results and the values found afterwards are those of the map.
\<close>

theorem sdb_ht_refines_map:
  assumes "length ps \<le> 2147483647" "\<forall>p \<in> set ps. op_key p \<noteq> []"
    "run_ops sdb_ht_step ps sdb_ht_new = (rs, h)"
  shows "run_ops spec_op ps Map.empty = (rs, sdb_ht_find h) \<and> sdb_ht_full h"
proof -
  have none: "ht_find sdb_ht_new k = None" for k
    using sdb_ht_new_ok(3) [of k] by (simp add: ht_find_def sdb_ht_find_kvp_def)
  then have empty: "sdb_ht_find sdb_ht_new = Map.empty" by (simp add: fun_eq_iff sdb_ht_find_def)
  have full: "sdb_ht_full sdb_ht_new" using none sdb_ht_new_ok(1) by (simp add: sdb_ht_full_def)
  show ?thesis
    using sdb_map.run_ops_refines [OF full _ _ assms(3), unfolded sdb_ht_new_ok(2) empty] assms(1,2)
    by simp
qed

theorem sdb_ht_refines_map_witness:
  "sdb_ht_find (snd (run_ops sdb_ht_step [Insert ''a'' ''1'', Insert ''a'' ''2'', Update ''b'' ''3''] sdb_ht_new)) ''a''
   = Some ''1''"
proof -
  let ?ps = "[Insert ''a'' ''1'', Insert ''a'' ''2'', Update ''b'' ''3'']"
  obtain rs h where r: "run_ops sdb_ht_step ?ps sdb_ht_new = (rs, h)" by fastforce
  have "run_ops spec_op ?ps Map.empty = (rs, sdb_ht_find h)"
    by (rule conjunct1 [OF sdb_ht_refines_map [OF _ _ r]]) simp_all
  then have "snd (run_ops spec_op ?ps Map.empty) = sdb_ht_find h" by (simp only: snd_conv)
  moreover have "snd (run_ops spec_op ?ps Map.empty) ''a'' = Some ''1''" by simp
  ultimately show ?thesis unfolding r by simp
qed

section \<open>Tables with 64-bit keys\<close>

definition ht_up_options :: "('v \<Rightarrow> 'v) option \<Rightarrow> ('v \<Rightarrow> ut32) option \<Rightarrow> (ut64, 'v) ht_options" where
  "ht_up_options valdup calcsizeV =
     \<lparr>opt_cmp = None, opt_hashfn = None, opt_key_to_hash = ucast, opt_dupkey = None,
      opt_dupvalue = valdup, opt_calcsizeK = None, opt_calcsizeV = calcsizeV\<rparr>"

definition ht_up_new :: "('v \<Rightarrow> 'v) option \<Rightarrow> ('v \<Rightarrow> ut32) option \<Rightarrow> (ut64, 'v, 'x) ht" where
  "ht_up_new valdup calcsizeV = internal_ht_new (ht_primes_sizes ! 0) 0 (ht_up_options valdup calcsizeV)"

definition ht_up_new0 :: "(ut64, 'v, 'x) ht" where
  "ht_up_new0 = ht_up_new None None"

lemma ht_up_new0_ok: "ht_inv ht_up_new0" "ht_count ht_up_new0 = 0" "ht_find ht_up_new0 k = None"
proof -
  have "opt_ok (ht_up_options None None)" by (simp add: opt_ok_def ht_up_options_def)
  then show "ht_inv ht_up_new0" unfolding ht_up_new0_def ht_up_new_def
    by (rule new_struct(3) [OF _ first_size_ok])
  show "ht_count ht_up_new0 = 0" "ht_find ht_up_new0 k = None"
    using first_size_ok
    by (simp_all add: ht_up_new0_def ht_up_new_def new_empty size_ok_def) (simp add: internal_ht_new_def)
qed

section \<open>Sets\<close>

text \<open>
  The sets of strings and of 64-bit numbers; the value stored with every member is the
  pointer \<^verbatim>\<open>(void*)1\<close>.  A lookup answers true when the value found is not NULL.
\<close>

type_synonym SetP = "(string, nat, unit) ht"
type_synonym SetU = "(ut64, nat, unit) ht"

definition set_p_new :: SetP where
  "set_p_new = ht_pp_new0"

definition set_p_add :: "SetP \<Rightarrow> string \<Rightarrow> SetP" where
  "set_p_add s u = snd (ht_insert s u 1 ())"

definition set_p_contains :: "SetP \<Rightarrow> string \<Rightarrow> bool" where
  "set_p_contains s u = (case ht_find s u of None \<Rightarrow> False | Some p \<Rightarrow> p \<noteq> 0)"

definition set_p_delete :: "SetP \<Rightarrow> string \<Rightarrow> SetP" where
  "set_p_delete s u = snd (ht_delete s u)"

definition set_p_foreach :: "SetP \<Rightarrow> ('u \<Rightarrow> string \<Rightarrow> bool \<times> 'u) \<Rightarrow> 'u \<Rightarrow> 'u" where
  "set_p_foreach s cb userdata = ht_foreach s (\<lambda>user k nada. cb user k) userdata"

definition set_u_new :: SetU where
  "set_u_new = ht_up_new0"

definition set_u_add :: "SetU \<Rightarrow> ut64 \<Rightarrow> SetU" where
  "set_u_add s u = snd (ht_insert s u 1 ())"

definition set_u_contains :: "SetU \<Rightarrow> ut64 \<Rightarrow> bool" where
  "set_u_contains s u = (case ht_find s u of None \<Rightarrow> False | Some p \<Rightarrow> p \<noteq> 0)"

definition set_u_delete :: "SetU \<Rightarrow> ut64 \<Rightarrow> SetU" where
  "set_u_delete s u = snd (ht_delete s u)"

definition set_u_foreach :: "SetU \<Rightarrow> ('u \<Rightarrow> ut64 \<Rightarrow> bool \<times> 'u) \<Rightarrow> 'u \<Rightarrow> 'u" where
  "set_u_foreach s cb userdata = ht_foreach s (\<lambda>user k nada. cb user k) userdata"

subsection \<open>The contract of a set\<close>

datatype 'a set_op = Add 'a | Remove 'a

fun spec_set_op :: "'a set_op \<Rightarrow> 'a set \<Rightarrow> 'a set" where
  "spec_set_op (Add x) s = insert x s"
| "spec_set_op (Remove x) s = s - {x}"

locale set_impl =
  fixes contains :: "'s \<Rightarrow> 'a \<Rightarrow> bool"
    and step :: "'a set_op \<Rightarrow> 's \<Rightarrow> 's"
    and inv :: "'s \<Rightarrow> bool"
    and used :: "'s \<Rightarrow> nat"
    and cap :: nat
  assumes step_refines:
    "inv s \<Longrightarrow> used s < cap \<Longrightarrow> {x. contains (step p s) x} = spec_set_op p {x. contains s x}"
  assumes step_inv: "inv s \<Longrightarrow> used s < cap \<Longrightarrow> inv (step p s) \<and> used (step p s) \<le> used s + 1"
begin

lemma fold_refines:
  assumes "inv s" "used s + length ps \<le> cap"
  shows "{x. contains (fold step ps s) x} = fold spec_set_op ps {x. contains s x} \<and> inv (fold step ps s)"
  using assms
proof (induction ps arbitrary: s)
  case (Cons p ps)
  have "inv (step p s)" "used (step p s) \<le> used s + 1" using step_inv [of s p] Cons.prems by auto
  then show ?case using Cons.IH [of "step p s"] step_refines [of s p] Cons.prems by simp
qed auto

end

text \<open>Both kinds of sets satisfy it; what they share is proved for any table of ones.\<close>

definition set_inv :: "('k, nat, unit) ht \<Rightarrow> bool" where
  "set_inv s \<longleftrightarrow> ht_inv s \<and> (\<forall>k p. ht_find s k = Some p \<longrightarrow> p = 1)"

lemma set_table_add:
  fixes u :: 'k
  assumes "set_inv s" "ht_count s < 2147483647"
  defines "h \<equiv> snd (ht_insert s u 1 ())"
  shows "set_inv h \<and> ht_count h \<le> ht_count s + 1 \<and> dom (ht_find h) = insert u (dom (ht_find s))"
proof -
  have inv: "ht_inv s" "ht_room s" using assms by (auto simp: set_inv_def ht_room_def)
  have ins: "insert_update s u 1 () False = (fst (ht_insert s u 1 ()), h)"
    by (simp add: h_def ht_insert_def)
  note i = insert_update_refines [OF inv ins]
  show ?thesis using i assms(1) by (auto simp: set_inv_def split: if_splits)
qed

lemma set_table_remove:
  fixes u :: 'k
  assumes "set_inv s"
  defines "h \<equiv> snd (ht_delete s u)"
  shows "set_inv h \<and> ht_count h \<le> ht_count s + 1 \<and> dom (ht_find h) = dom (ht_find s) - {u}"
proof -
  have inv: "ht_inv s" using assms by (simp add: set_inv_def)
  have del: "ht_delete s u = (fst (ht_delete s u), h)" by (simp add: h_def)
  note i = ht_delete_refines [OF inv del]
  show ?thesis using i assms(1) by (auto simp: set_inv_def split: if_splits)
qed

lemma set_contains_dom:
  assumes "set_inv s"
  shows "{x. case ht_find s x of None \<Rightarrow> False | Some p \<Rightarrow> p \<noteq> 0} = dom (ht_find s)"
  using assms by (auto simp: set_inv_def split: option.splits)

fun set_p_step :: "string set_op \<Rightarrow> SetP \<Rightarrow> SetP" where
  "set_p_step (Add x) s = set_p_add s x"
| "set_p_step (Remove x) s = set_p_delete s x"

fun set_u_step :: "ut64 set_op \<Rightarrow> SetU \<Rightarrow> SetU" where
  "set_u_step (Add x) s = set_u_add s x"
| "set_u_step (Remove x) s = set_u_delete s x"

lemma set_p_step_ok:
  assumes "set_inv s" "ht_count s < 2147483647"
  shows "set_inv (set_p_step p s) \<and> ht_count (set_p_step p s) \<le> ht_count s + 1
     \<and> dom (ht_find (set_p_step p s)) = spec_set_op p (dom (ht_find s))"
  by (cases p) (use set_table_add [OF assms] set_table_remove [OF assms(1)] in
      \<open>auto simp: set_p_add_def set_p_delete_def\<close>)

lemma set_u_step_ok:
  assumes "set_inv s" "ht_count s < 2147483647"
  shows "set_inv (set_u_step p s) \<and> ht_count (set_u_step p s) \<le> ht_count s + 1
     \<and> dom (ht_find (set_u_step p s)) = spec_set_op p (dom (ht_find s))"
  by (cases p) (use set_table_add [OF assms] set_table_remove [OF assms(1)] in
      \<open>auto simp: set_u_add_def set_u_delete_def\<close>)

interpretation p_set: set_impl set_p_contains set_p_step set_inv ht_count 2147483647
  by unfold_locales (simp_all add: set_p_step_ok [simplified] set_p_contains_def set_contains_dom)

interpretation u_set: set_impl set_u_contains set_u_step set_inv ht_count 2147483647
  by unfold_locales (simp_all add: set_u_step_ok [simplified] set_u_contains_def set_contains_dom)

text \<open>
  C3.  The sets of strings and the sets of 64-bit numbers are sets: after any sequence of
  additions and deletions on a new one, the members are exactly those of the mathematical
  set that the same additions and deletions give.
\<close>

theorem sets_refine:
  assumes "length ps \<le> 2147483647" "length us \<le> 2147483647"
  shows "{x. set_p_contains (fold set_p_step ps set_p_new) x} = fold spec_set_op ps {}
     \<and> {x. set_u_contains (fold set_u_step us set_u_new) x} = fold spec_set_op us {}"
proof -
  have p: "set_inv set_p_new" "ht_count set_p_new = 0" "{x. set_p_contains set_p_new x} = {}"
    by (simp_all add: set_inv_def set_p_new_def ht_pp_new0_ok set_p_contains_def)
  have u: "set_inv set_u_new" "ht_count set_u_new = 0" "{x. set_u_contains set_u_new x} = {}"
    by (simp_all add: set_inv_def set_u_new_def ht_up_new0_ok set_u_contains_def)
  show ?thesis
    using p_set.fold_refines [OF p(1), of ps] u_set.fold_refines [OF u(1), of us] assms p(2,3) u(2,3) by simp
qed

theorem sets_refine_witness:
  "{x. set_p_contains (fold set_p_step [Add ''x'', Add ''y'', Remove ''x''] set_p_new) x} = {''y''}
   \<and> {x. set_u_contains (fold set_u_step [Add 3, Add 3, Remove 4] set_u_new) x} = {3}"
  using sets_refine [of "[Add ''x'', Add ''y'', Remove ''x'']" "[Add 3, Add 3, Remove 4]"] by auto

end
