(* ===== verification/Buffer.thy ===== *)
theory Buffer
  imports Sdb_Prelude
begin

text \<open>
  The output buffer of \<^verbatim>\<open>src/buffer.inc.c\<close> and the part of the file system it writes to.

  \<^item> \<open>fdesc\<close> is an open descriptor: the contents of the file, the offset, and the number of
    bytes the device still accepts.  \<open>sys_write\<close> is the system call \<^verbatim>\<open>write\<close>: it transfers what fits
    and returns the number of bytes transferred; writing past the end fills the hole with
    zero bytes.
  \<^item> \<open>buffer\<close> holds the first \<^verbatim>\<open>p\<close> bytes of the memory \<^verbatim>\<open>x\<close> as a list; \<^verbatim>\<open>op\<close> is always
    \<^verbatim>\<open>write\<close>.  The 32-bit subtraction of \<^verbatim>\<open>buffer_putalign\<close> is written with its wrap-around.

  The lemmas show that a buffer in front of a file is a longer file: \<open>stream\<close> is the
  contents of the file up to the offset followed by the pending bytes, and every
  successful operation appends to it.
\<close>

section \<open>Files\<close>

record fdesc =
  f_data :: bytes
  f_off :: nat
  f_room :: nat

definition padded :: "fdesc \<Rightarrow> bytes" where
  "padded f = take (f_off f) (f_data f) @ replicate (f_off f - length (f_data f)) NUL"

definition transfer :: "fdesc \<Rightarrow> bytes \<Rightarrow> fdesc" where
  "transfer f s =
     f\<lparr>f_data := padded f @ s @ drop (f_off f + length s) (f_data f),
       f_off := f_off f + length s, f_room := f_room f - length s\<rparr>"

definition sys_write :: "fdesc \<Rightarrow> bytes \<Rightarrow> nat \<times> fdesc" where
  "sys_write f s =
     (let n = min (length s) (f_room f) in (n, if n = 0 then f else transfer f (take n s)))"

definition seek_set :: "fdesc \<Rightarrow> nat \<Rightarrow> fdesc" where
  "seek_set f pos = f\<lparr>f_off := pos\<rparr>"

section \<open>Buffers\<close>

record buffer =
  b_x :: bytes
  b_n :: nat
  b_fd :: fdesc

definition buffer_initialize :: "fdesc \<Rightarrow> nat \<Rightarrow> buffer" where
  "buffer_initialize fd len = \<lparr>b_x = [], b_n = len, b_fd = fd\<rparr>"

text \<open>The loop of \<^verbatim>\<open>allwrite\<close> ends after the first call: the call writes everything, or fails.\<close>

definition allwrite :: "fdesc \<Rightarrow> bytes \<Rightarrow> bool \<times> fdesc" where
  "allwrite fd buf =
     (if length buf > 0 then (case sys_write fd buf of (w, fd') \<Rightarrow> (w = length buf, fd')) else (True, fd))"

definition buffer_flush :: "buffer \<Rightarrow> bool \<times> buffer" where
  "buffer_flush s =
     (if b_x s = [] then (True, s)
      else case allwrite (b_fd s) (b_x s) of (ok, fd) \<Rightarrow> (ok, s\<lparr>b_x := [], b_fd := fd\<rparr>))"

lemma buffer_flush_empties: "b_x (snd (buffer_flush s)) = []" "b_n (snd (buffer_flush s)) = b_n s"
  by (simp_all add: buffer_flush_def split: prod.splits)

text \<open>
  \<^verbatim>\<open>buffer_putalign\<close>.  The loop makes progress because a flushed buffer has room;
  \<^verbatim>\<open>buffer_initialize\<close> refuses a buffer of length 0, for which the loop would not end.
\<close>

function buffer_putalign :: "buffer \<Rightarrow> bytes \<Rightarrow> bool \<times> buffer" where
  "buffer_putalign s buf =
     (let n = (b_n s + 2 ^ 32 - length (b_x s)) mod 2 ^ 32 in
      if length buf > 0 \<and> n < length buf then
        if length (b_x s) > b_n s \<or> (n = 0 \<and> b_x s = []) then (False, s)
        else (case buffer_flush (s\<lparr>b_x := b_x s @ take n buf\<rparr>) of
                (False, s') \<Rightarrow> (False, s')
              | (True, s') \<Rightarrow> buffer_putalign s' (drop n buf))
      else (True, s\<lparr>b_x := b_x s @ buf\<rparr>))"
  by pat_completeness auto
termination
proof (relation "measures [\<lambda>(s, buf). length buf, \<lambda>(s, buf). length (b_x s)]")
  show "wf (measures [\<lambda>(s :: buffer, buf :: bytes). length buf, \<lambda>(s, buf). length (b_x s)])" by simp
next
  fix s :: buffer and buf :: bytes and n ok s'
  assume a: "n = (b_n s + 2 ^ 32 - length (b_x s)) mod 2 ^ 32" "0 < length buf \<and> n < length buf"
    "\<not> (b_n s < length (b_x s) \<or> n = 0 \<and> b_x s = [])"
    "(ok, s') = buffer_flush (s\<lparr>b_x := b_x s @ take n buf\<rparr>)" "ok = True"
  have x: "b_x s' = []" using buffer_flush_empties(1) a(4) by (metis snd_conv)
  show "((s', drop n buf), s, buf) \<in> measures [\<lambda>(s, buf). length buf, \<lambda>(s, buf). length (b_x s)]"
    using a(2,3) x by (cases "n = 0") auto
qed

declare buffer_putalign.simps [simp del]

definition buffer_putflush :: "buffer \<Rightarrow> bytes \<Rightarrow> bool \<times> buffer" where
  "buffer_putflush s buf =
     (case buffer_flush s of
        (False, s') \<Rightarrow> (False, s')
      | (True, s') \<Rightarrow> (case allwrite (b_fd s') buf of (ok, fd) \<Rightarrow> (ok, s'\<lparr>b_fd := fd\<rparr>)))"

section \<open>A buffered file is a file\<close>

text \<open>
  \<open>buf_inv k\<close>: the memory of the buffer is not overrun, and the file is appended to: either
  nothing has been written since the offset was set to \<open>k\<close> on an empty file, or the offset
  is at the end.
\<close>

definition buf_inv :: "nat \<Rightarrow> buffer \<Rightarrow> bool" where
  "buf_inv k s \<longleftrightarrow>
     length (b_x s) \<le> b_n s \<and> 0 < b_n s \<and> b_n s < 2 ^ 32
     \<and> (f_data (b_fd s) = [] \<and> f_off (b_fd s) = k \<or> length (f_data (b_fd s)) = f_off (b_fd s))"

definition stream :: "buffer \<Rightarrow> bytes" where
  "stream s = padded (b_fd s) @ b_x s"

text \<open>The length the stream can reach before the device is full.\<close>

definition stream_cap :: "buffer \<Rightarrow> nat" where
  "stream_cap s = f_off (b_fd s) + f_room (b_fd s)"

lemma ut32_minus:
  fixes n p :: nat
  assumes "p \<le> n" "n < 2 ^ 32"
  shows "(n + 2 ^ 32 - p) mod 2 ^ 32 = n - p"
proof -
  have "n + 2 ^ 32 - p = (n - p) + 2 ^ 32" using assms(1) by linarith
  moreover have "n - p < 2 ^ 32" using assms(2) by linarith
  ultimately show ?thesis by (simp only: mod_add_self2 mod_less)
qed

lemma padded_length [simp]: "length (padded f) = f_off f"
  by (auto simp: padded_def)

lemma transfer_append:
  assumes "length (f_data f) \<le> f_off f"
  shows "f_data (transfer f s) = padded f @ s" "f_off (transfer f s) = f_off f + length s"
    "padded (transfer f s) = padded f @ s" "f_room (transfer f s) = f_room f - length s"
  using assms by (auto simp: transfer_def padded_def)

lemma transfer_length:
  "length (f_data f) \<le> f_off f \<Longrightarrow> length (f_data (transfer f s)) = f_off (transfer f s)"
  by (simp add: transfer_append)

lemma allwrite_ok:
  assumes "length (f_data f) \<le> f_off f" "s \<noteq> []"
  shows "fst (allwrite f s) \<longleftrightarrow> length s \<le> f_room f"
    "fst (allwrite f s) \<Longrightarrow> snd (allwrite f s) = transfer f s"
  using assms by (auto simp: allwrite_def sys_write_def Let_def min_def)

lemma buffer_flush_ok:
  assumes "buf_inv k s"
  shows "fst (buffer_flush s) \<longleftrightarrow> length (stream s) \<le> stream_cap s"
    "fst (buffer_flush s) \<Longrightarrow> buf_inv k (snd (buffer_flush s)) \<and> b_x (snd (buffer_flush s)) = []
       \<and> b_n (snd (buffer_flush s)) = b_n s
       \<and> stream (snd (buffer_flush s)) = stream s \<and> stream_cap (snd (buffer_flush s)) = stream_cap s"
proof -
  have f: "length (f_data (b_fd s)) \<le> f_off (b_fd s)" using assms by (auto simp: buf_inv_def)
  show "fst (buffer_flush s) \<longleftrightarrow> length (stream s) \<le> stream_cap s"
    using allwrite_ok(1) [OF f, of "b_x s"]
    by (auto simp: buffer_flush_def stream_def stream_cap_def split: prod.splits)
  assume ok: "fst (buffer_flush s)"
  show "buf_inv k (snd (buffer_flush s)) \<and> b_x (snd (buffer_flush s)) = []
       \<and> b_n (snd (buffer_flush s)) = b_n s
       \<and> stream (snd (buffer_flush s)) = stream s \<and> stream_cap (snd (buffer_flush s)) = stream_cap s"
  proof (cases "b_x s = []")
    case True
    then show ?thesis using assms by (simp add: buffer_flush_def)
  next
    case False
    have w: "fst (allwrite (b_fd s) (b_x s))" "snd (allwrite (b_fd s) (b_x s)) = transfer (b_fd s) (b_x s)"
      using ok False allwrite_ok(2) [OF f False] by (auto simp: buffer_flush_def split: prod.splits)
    then have fl: "snd (buffer_flush s) = s\<lparr>b_x := [], b_fd := transfer (b_fd s) (b_x s)\<rparr>"
      using False by (auto simp: buffer_flush_def split: prod.splits)
    have "length (b_x s) \<le> f_room (b_fd s)" using w allwrite_ok(1) [OF f False] by simp
    then show ?thesis using assms transfer_append [OF f, of "b_x s"]
      by (simp add: fl buf_inv_def stream_def stream_cap_def transfer_length [OF f])
  qed
qed

lemma buffer_putalign_ok:
  assumes "buf_inv k s" "fst (buffer_putalign s buf)"
  shows "buf_inv k (snd (buffer_putalign s buf)) \<and> b_n (snd (buffer_putalign s buf)) = b_n s
       \<and> stream (snd (buffer_putalign s buf)) = stream s @ buf
       \<and> stream_cap (snd (buffer_putalign s buf)) = stream_cap s"
  using assms
proof (induction s buf rule: buffer_putalign.induct)
  case (1 s buf)
  define n where "n = b_n s - length (b_x s)"
  have n: "(b_n s + 2 ^ 32 - length (b_x s)) mod 2 ^ 32 = n"
    unfolding n_def by (rule ut32_minus) (use 1(2) in \<open>auto simp: buf_inv_def\<close>)
  note step = buffer_putalign.simps [of s buf, unfolded n Let_def]
  show ?case
  proof (cases "length buf > 0 \<and> n < length buf")
    case True
    have g: "\<not> (length (b_x s) > b_n s \<or> (n = 0 \<and> b_x s = []))"
      using 1(2) by (auto simp: buf_inv_def n_def)
    let ?t = "s\<lparr>b_x := b_x s @ take n buf\<rparr>"
    have t: "buf_inv k ?t" "stream ?t = stream s @ take n buf" "stream_cap ?t = stream_cap s"
      using 1(2) by (auto simp: buf_inv_def n_def stream_def stream_cap_def)
    obtain s' where fl: "buffer_flush ?t = (True, s')"
      using 1(3) True g unfolding step by (auto split: prod.splits bool.splits)
    note f = buffer_flush_ok(2) [OF t(1), unfolded fl, simplified]
    have p: "buffer_putalign s buf = buffer_putalign s' (drop n buf)"
      unfolding step using True g fl by auto
    have "buf_inv k (snd (buffer_putalign s' (drop n buf))) \<and> b_n (snd (buffer_putalign s' (drop n buf))) = b_n s'
       \<and> stream (snd (buffer_putalign s' (drop n buf))) = stream s' @ drop n buf
       \<and> stream_cap (snd (buffer_putalign s' (drop n buf))) = stream_cap s'"
      by (rule 1(1) [OF n [symmetric] True g fl [symmetric] refl]) (use f 1(3) p in auto)
    then show ?thesis using f t p by simp
  next
    case False
    then have "buffer_putalign s buf = (True, s\<lparr>b_x := b_x s @ buf\<rparr>)" unfolding step by auto
    moreover have "length (b_x s) + length buf \<le> b_n s" using False 1(2) by (auto simp: buf_inv_def n_def)
    ultimately show ?thesis using 1(2) by (simp add: buf_inv_def stream_def stream_cap_def)
  qed
qed

lemma buffer_putalign_succeeds:
  assumes "buf_inv k s" "length (stream s) + length buf \<le> stream_cap s"
  shows "fst (buffer_putalign s buf)"
  using assms
proof (induction s buf rule: buffer_putalign.induct)
  case (1 s buf)
  define n where "n = b_n s - length (b_x s)"
  have n: "(b_n s + 2 ^ 32 - length (b_x s)) mod 2 ^ 32 = n"
    unfolding n_def by (rule ut32_minus) (use 1(2) in \<open>auto simp: buf_inv_def\<close>)
  note step = buffer_putalign.simps [of s buf, unfolded n Let_def]
  show ?case
  proof (cases "length buf > 0 \<and> n < length buf")
    case True
    have g: "\<not> (length (b_x s) > b_n s \<or> (n = 0 \<and> b_x s = []))"
      using 1(2) by (auto simp: buf_inv_def n_def)
    let ?t = "s\<lparr>b_x := b_x s @ take n buf\<rparr>"
    have t: "buf_inv k ?t" "stream ?t = stream s @ take n buf" "stream_cap ?t = stream_cap s"
      using 1(2) by (auto simp: buf_inv_def n_def stream_def stream_cap_def)
    have "fst (buffer_flush ?t)" using buffer_flush_ok(1) [OF t(1)] t 1(3) True by simp
    then obtain s' where fl: "buffer_flush ?t = (True, s')" by (metis prod.collapse)
    note f = buffer_flush_ok(2) [OF t(1), unfolded fl, simplified]
    have "fst (buffer_putalign s' (drop n buf))"
      by (rule 1(1) [OF n [symmetric] True g fl [symmetric] refl]) (use f t 1(3) True in auto)
    then show ?thesis unfolding step using True g fl by auto
  next
    case False
    then show ?thesis unfolding step by auto
  qed
qed

end
