(* ===== verification/Cdb_Make.thy ===== *)
theory Cdb_Make
  imports Sdb_Util Buffer
begin

text \<open>
  Writing a constant database: \<^verbatim>\<open>src/cdb_make.c\<close>.  The file has three parts: 256 positions
  of hash tables (1024 bytes), the records, and the 256 hash tables, each an array of
  slots (hash, position) with twice as many slots as entries.

  \<^item> \<open>cdb_make\<close> is the struct; the descriptor is the one inside the buffer.  \<open>m_head\<close> is the
    linked list of \<^verbatim>\<open>cdb_hplist\<close> nodes, newest first, each node the list of its used slots.
    The arrays \<^verbatim>\<open>start\<close>, \<^verbatim>\<open>split\<close> and \<^verbatim>\<open>hash\<close> are written before they are read inside
    \<^verbatim>\<open>cdb_make_finish\<close>, where they are local.
  \<^item> 32-bit quantities are natural numbers.  Positions wrap as \<^verbatim>\<open>ut32\<close>, which is what the
    overflow test of \<^verbatim>\<open>incpos\<close> is about; the counters are bounded by the position
    (\<open>make_inv\<close>), so they cannot wrap.  \<^verbatim>\<open>255 & h\<close>, \<^verbatim>\<open>h >> 8\<close> and \<^verbatim>\<open>count << 1\<close> are written
    as \<open>mod\<close>, \<open>div\<close> and a product.
  \<^item> A key or value argument is the C string at the pointer; the bytes read through it are
    those of the string and its terminator.
  \<^item> The search for a free slot may in principle run forever; it has fuel, and \<open>None\<close> stands
    for a loop that does not end.  \<open>None\<close> stands as well for a hash table that is longer than the memory
    allocated for \<^verbatim>\<open>c->hash\<close>, which is what \<^verbatim>\<open>memsize\<close> leaves behind the \<^verbatim>\<open>numentries\<close> slots of \<^verbatim>\<open>c->split\<close>.
    \<open>cdb_make_finish_spec\<close> shows that neither happens.
\<close>

section \<open>Data\<close>

definition KVLSZ :: nat where
  "KVLSZ = 4"

definition CDB_HPLIST :: nat where
  "CDB_HPLIST = 1000"

record cdb_hp =
  hp_h :: nat
  hp_p :: nat

record cdb_make =
  m_final :: bytes
  m_count :: "nat list"
  m_head :: "cdb_hp list list"
  m_numentries :: nat
  m_memsize :: nat
  m_b :: buffer
  m_pos :: nat

section \<open>Operations\<close>

definition cdb_make_start :: "cdb_make \<Rightarrow> fdesc \<Rightarrow> cdb_make" where
  "cdb_make_start c fd =
     c\<lparr>m_head := [], m_numentries := 0, m_pos := 1024,
       m_b := buffer_initialize (seek_set fd 1024) 8192, m_memsize := 1,
       m_count := replicate 256 0\<rparr>"

definition incpos :: "cdb_make \<Rightarrow> nat \<Rightarrow> bool \<times> cdb_make" where
  "incpos c len =
     (let newpos = (m_pos c + len) mod 2 ^ 32 in
      if newpos < len then (False, c) else (True, c\<lparr>m_pos := newpos\<rparr>))"

definition hplist_add :: "cdb_hp list list \<Rightarrow> cdb_hp \<Rightarrow> cdb_hp list list" where
  "hplist_add head hp =
     (case head of
        [] \<Rightarrow> [[hp]]
      | x # xs \<Rightarrow> if length x \<ge> CDB_HPLIST then [hp] # x # xs else (x @ [hp]) # xs)"

definition cdb_make_addend :: "cdb_make \<Rightarrow> nat \<Rightarrow> nat \<Rightarrow> nat \<Rightarrow> bool \<times> cdb_make" where
  "cdb_make_addend c keylen datalen h =
     (let i = h mod 256;
          n = m_count c ! i + 1;
          u = n * 2
      in incpos
           (c\<lparr>m_head := hplist_add (m_head c) \<lparr>hp_h = h, hp_p = m_pos c\<rparr>,
              m_numentries := m_numentries c + 1,
              m_count := (m_count c)[i := n],
              m_memsize := (if u > m_memsize c then u else m_memsize c)\<rparr>)
           ((KVLSZ + keylen + datalen) mod 2 ^ 32))"

definition pack_kvlen :: "nat \<Rightarrow> nat \<Rightarrow> bytes option" where
  "pack_kvlen klen vlen =
     (if klen > SDB_MAX_KEY then None
      else if vlen \<ge> SDB_MAX_VALUE then None
      else Some [char_of klen, char_of (vlen mod 256), char_of (vlen div 256 mod 256),
                 char_of (vlen div 65536 mod 256)])"

definition cdb_make_addbegin :: "cdb_make \<Rightarrow> nat \<Rightarrow> nat \<Rightarrow> bool \<times> cdb_make" where
  "cdb_make_addbegin c keylen datalen =
     (case pack_kvlen keylen datalen of
        None \<Rightarrow> (False, c)
      | Some buf \<Rightarrow> (case buffer_putalign (m_b c) buf of (ok, b) \<Rightarrow> (ok, c\<lparr>m_b := b\<rparr>)))"

definition cdb_make_add ::
  "cdb_make \<Rightarrow> string \<Rightarrow> nat \<Rightarrow> string \<Rightarrow> nat \<Rightarrow> bool \<times> cdb_make" where
  "cdb_make_add c key keylen data datalen =
     (let keylen = (keylen + 1) mod 2 ^ 32; datalen = (datalen + 1) mod 2 ^ 32 in
      case cdb_make_addbegin c keylen datalen of
        (False, c) \<Rightarrow> (False, c)
      | (True, c) \<Rightarrow>
          (case buffer_putalign (m_b c) (take keylen (key @ [NUL])) of
             (False, b) \<Rightarrow> (False, c\<lparr>m_b := b\<rparr>)
           | (True, b) \<Rightarrow>
               (case buffer_putalign b (take datalen (data @ [NUL])) of
                  (False, b) \<Rightarrow> (False, c\<lparr>m_b := b\<rparr>)
                | (True, b) \<Rightarrow>
                    cdb_make_addend (c\<lparr>m_b := b\<rparr>) keylen datalen (unat (sdb_hash key)))))"

definition cdb_make_cancel :: "cdb_make \<Rightarrow> cdb_make" where
  "cdb_make_cancel c = c\<lparr>m_head := []\<rparr>"

subsection \<open>Finishing\<close>

fun start_sums :: "nat list \<Rightarrow> nat \<Rightarrow> nat list" where
  "start_sums [] u = []"
| "start_sums (n # ns) u = (u + n) # start_sums ns (u + n)"

text \<open>\<open>split_loop\<close> visits the entries from the newest to the oldest.\<close>

fun split_loop :: "cdb_hp list \<Rightarrow> nat list \<Rightarrow> cdb_hp list \<Rightarrow> nat list \<times> cdb_hp list" where
  "split_loop [] start split = (start, split)"
| "split_loop (x # xs) start split =
     (let i = hp_h x mod 256; j = start ! i - 1 in split_loop xs (start[i := j]) (split[j := x]))"

fun probe :: "nat \<Rightarrow> cdb_hp list \<Rightarrow> nat \<Rightarrow> nat option" where
  "probe 0 hash w = None"
| "probe (Suc n) hash w =
     (if hp_p (hash ! w) \<noteq> 0
      then probe n hash (if w + 1 = length hash then 0 else w + 1)
      else Some w)"

fun hash_fill :: "cdb_hp list \<Rightarrow> cdb_hp list \<Rightarrow> cdb_hp list option" where
  "hash_fill [] hash = Some hash"
| "hash_fill (hp # hps) hash =
     (case probe (length hash) hash (hp_h hp div 256 mod length hash) of
        None \<Rightarrow> None
      | Some w \<Rightarrow> hash_fill hps (hash[w := hp]))"

fun put_slots :: "cdb_hp list \<Rightarrow> cdb_make \<Rightarrow> bool \<times> cdb_make" where
  "put_slots [] c = (True, c)"
| "put_slots (x # xs) c =
     (case buffer_putalign (m_b c) (ut32_pack (hp_h x) @ ut32_pack (hp_p x)) of
        (False, b) \<Rightarrow> (False, c\<lparr>m_b := b\<rparr>)
      | (True, b) \<Rightarrow>
          (case incpos (c\<lparr>m_b := b\<rparr>) 8 of
             (False, c) \<Rightarrow> (False, c)
           | (True, c) \<Rightarrow> put_slots xs c))"

definition set_final :: "cdb_make \<Rightarrow> nat \<Rightarrow> cdb_make" where
  "set_final c i =
     c\<lparr>m_final := take (4 * i) (m_final c) @ ut32_pack (m_pos c) @ drop (4 * i + 4) (m_final c)\<rparr>"

text \<open>\<open>room\<close> is the number of slots at \<^verbatim>\<open>c->hash\<close>.\<close>

fun finish_tables ::
  "nat \<Rightarrow> nat list \<Rightarrow> nat list \<Rightarrow> cdb_hp list \<Rightarrow> cdb_make \<Rightarrow> (bool \<times> cdb_make) option" where
  "finish_tables room [] start split c = Some (True, c)"
| "finish_tables room (i # is) start split c =
     (let count = m_count c ! i;
          len = count * 2;
          c = set_final c i
      in if len > room then None
         else case hash_fill (take count (drop (start ! i) split))
                (replicate len \<lparr>hp_h = 0, hp_p = 0\<rparr>) of
           None \<Rightarrow> None
         | Some hash \<Rightarrow>
             (case put_slots hash c of
                (False, c) \<Rightarrow> Some (False, c)
              | (True, c) \<Rightarrow> finish_tables room is start split c))"

definition finish_file :: "cdb_make \<Rightarrow> bool \<times> cdb_make" where
  "finish_file c =
     (case buffer_flush (m_b c) of
        (False, b) \<Rightarrow> (False, c\<lparr>m_b := b\<rparr>)
      | (True, b) \<Rightarrow>
          (case buffer_putflush (b\<lparr>b_fd := seek_set (b_fd b) 0\<rparr>) (m_final c) of
             (ok, b) \<Rightarrow> (ok, c\<lparr>m_b := b\<rparr>)))"

definition cdb_make_finish :: "cdb_make \<Rightarrow> (bool \<times> cdb_make) option" where
  "cdb_make_finish c =
     (let memsize = (m_memsize c + m_numentries c) mod 2 ^ 32 in
      if memsize > UT32_MAX div 8 then Some (False, cdb_make_cancel c)
      else
        (case split_loop (concat (map rev (m_head c))) (start_sums (m_count c) 0)
                (replicate (m_numentries c) \<lparr>hp_h = 0, hp_p = 0\<rparr>) of
           (start, split) \<Rightarrow>
             (case finish_tables (memsize - m_numentries c) [0..<256] start split c of
                None \<Rightarrow> None
              | Some (False, c) \<Rightarrow> Some (False, cdb_make_cancel c)
              | Some (True, c) \<Rightarrow>
                  (case finish_file c of (ok, c) \<Rightarrow> Some (ok, cdb_make_cancel c)))))"

section \<open>Linear probing\<close>

abbreviation used_slot :: "cdb_hp \<Rightarrow> bool" where
  "used_slot x \<equiv> hp_p x \<noteq> 0"

text \<open>The slots a search that begins at slot \<open>s\<close> looks at before it meets a free one.\<close>

definition scan :: "cdb_hp list \<Rightarrow> nat \<Rightarrow> cdb_hp list" where
  "scan T s = takeWhile used_slot (rotate s T)"

definition first_slot :: "cdb_hp list \<Rightarrow> nat \<Rightarrow> nat" where
  "first_slot T h = h div 256 mod length T"

text \<open>
  A table holds the entries \<open>E\<close>: the search for a hash meets the entries with that hash in
  the order of insertion, and meets every one of them.
\<close>

definition tbl_inv :: "cdb_hp list \<Rightarrow> cdb_hp list \<Rightarrow> bool" where
  "tbl_inv T E \<longleftrightarrow>
     length (filter used_slot T) = length E
     \<and> (\<forall>h. filter (\<lambda>x. hp_h x = h) (scan T (first_slot T h)) = filter (\<lambda>x. hp_h x = h) E)
     \<and> (\<forall>s < length T. \<forall>d < length T. used_slot (rotate s T ! d) \<and> first_slot T (hp_h (rotate s T ! d)) = s
          \<longrightarrow> d < length (scan T s))"

lemma mod_add_inj:
  fixes s d e n :: nat
  assumes "d < n" "e < n" "(s + d) mod n = (s + e) mod n" shows "d = e"
proof -
  have "d = e" if "e \<le> d" "d < n" "(s + d) mod n = (s + e) mod n" for d e
  proof -
    have "n dvd (s + d) - (s + e)" using that by (subst mod_eq_dvd_iff_nat [symmetric]) auto
    then have "n dvd d - e" by simp
    then show ?thesis using that by (metis dvd_imp_le le_antisym less_imp_diff_less not_le diff_is_0_eq zero_less_iff_neq_zero)
  qed
  from this [of e d] this [of d e] assms show ?thesis by (metis nle_le)
qed

lemma offset_exists:
  fixes s w n :: nat
  assumes "s < n" "w < n" shows "\<exists>j < n. (s + j) mod n = w"
proof (cases "s \<le> w")
  case True
  then show ?thesis using assms by (intro exI [of _ "w - s"]) auto
next
  case False
  then show ?thesis using assms by (intro exI [of _ "w + n - s"]) auto
qed

lemma rotate_update:
  assumes "j < length T"
  shows "rotate s (T[(s + j) mod length T := e]) = (rotate s T)[j := e]"
proof (rule nth_equalityI)
  fix d assume "d < length (rotate s (T[(s + j) mod length T := e]))"
  then have d: "d < length T" by simp
  have "(s + d) mod length T < length T" using d by (metis mod_less_divisor length_pos_if_in_set nth_mem)
  note lt = this
  show "rotate s (T[(s + j) mod length T := e]) ! d = (rotate s T)[j := e] ! d"
  proof (cases "d = j")
    case True
    then show ?thesis using d lt by (simp add: nth_rotate)
  next
    case False
    then have "(s + j) mod length T \<noteq> (s + d) mod length T" using mod_add_inj [OF assms d, of s] by blast
    then show ?thesis using d False by (simp add: nth_rotate)
  qed
qed simp

lemma takeWhile_short: "x \<in> set xs \<Longrightarrow> \<not> P x \<Longrightarrow> length (takeWhile P xs) < length xs"
  by (induction xs) auto

lemma length_filter_update:
  "w < length xs \<Longrightarrow> \<not> P (xs ! w) \<Longrightarrow> P e \<Longrightarrow>
   length (filter P (xs[w := e])) = Suc (length (filter P xs))"
  by (induction xs arbitrary: w) (auto split: nat.splits)

lemma takeWhile_fill:
  assumes "P e" "length (takeWhile P L) < length L"
  shows "takeWhile P (L[length (takeWhile P L) := e])
       = takeWhile P L @ e # takeWhile P (drop (Suc (length (takeWhile P L))) L)"
  using assms by (induction L) auto

lemma takeWhile_other:
  assumes "j < length L" "\<not> P (L ! j)" "j \<noteq> length (takeWhile P L)"
  shows "takeWhile P (L[j := e]) = takeWhile P L"
  using assms by (induction L arbitrary: j) (auto split: nat.splits)

lemma probe_spec:
  assumes s: "s < length T" and free: "\<exists>x \<in> set T. \<not> used_slot x"
  shows "probe (length T) T s = Some ((s + length (scan T s)) mod length T)"
    "length (scan T s) < length T" "\<not> used_slot (T ! ((s + length (scan T s)) mod length T))"
proof -
  let ?m = "length (scan T s)"
  have pos: "0 < length T" using s by auto
  obtain x where "x \<in> set (rotate s T)" "\<not> used_slot x" using free by auto
  then have m: "?m < length T" unfolding scan_def
    using takeWhile_short [where P = used_slot] by fastforce
  have at: "T ! ((s + d) mod length T) = rotate s T ! d" if "d < length T" for d
    using that by (simp add: nth_rotate)
  have stop: "\<not> used_slot (rotate s T ! ?m)"
    using nth_length_takeWhile [of used_slot "rotate s T"] m by (simp add: scan_def)
  have go: "used_slot (rotate s T ! d)" if "d < ?m" for d
  proof -
    have "scan T s ! d \<in> set (scan T s)" using that by (rule nth_mem)
    moreover have "scan T s ! d = rotate s T ! d" using that by (simp add: scan_def takeWhile_nth)
    ultimately show ?thesis using set_takeWhileD unfolding scan_def by fastforce
  qed
  have "probe n T ((s + d) mod length T) = Some ((s + ?m) mod length T)" if "d \<le> ?m" "?m < d + n" for n d
    using that
  proof (induction n arbitrary: d)
    case (Suc n)
    have nxt: "(if (s + d) mod length T + 1 = length T then 0 else (s + d) mod length T + 1) = (s + Suc d) mod length T"
      by (simp add: mod_Suc)
    show ?case
    proof (cases "d = ?m")
      case True
      then show ?thesis using stop at [of d] m by simp
    next
      case False
      then show ?thesis using go [of d] at [of d] m Suc.prems Suc.IH [of "Suc d"] nxt by simp
    qed
  qed simp
  from this [of 0 "length T"] show "probe (length T) T s = Some ((s + ?m) mod length T)"
    using s m by simp
  show "?m < length T" by (rule m)
  show "\<not> used_slot (T ! ((s + ?m) mod length T))" using stop at [OF m] by simp
qed

lemma tbl_inv_empty: "tbl_inv (replicate n \<lparr>hp_h = 0, hp_p = 0\<rparr>) []"
proof -
  have r: "rotate s (replicate n x) = replicate n x" for s :: nat and x :: cdb_hp
    by (rule nth_equalityI) (auto simp: nth_rotate)
  have "takeWhile used_slot (replicate n \<lparr>hp_h = 0, hp_p = 0\<rparr>) = []" by (cases n) auto
  then show ?thesis by (simp add: tbl_inv_def scan_def r)
qed

lemma tbl_insert:
  assumes inv: "tbl_inv T E" and e: "used_slot e" and room: "length E < length T"
  defines "w \<equiv> (first_slot T (hp_h e) + length (scan T (first_slot T (hp_h e)))) mod length T"
  shows "probe (length T) T (first_slot T (hp_h e)) = Some w" "tbl_inv (T[w := e]) (E @ [e])"
proof -
  let ?s = "first_slot T (hp_h e)" and ?T = "T[w := e]"
  have pos: "0 < length T" using room by auto
  have s: "?s < length T" using pos by (simp add: first_slot_def)
  have "\<exists>x \<in> set T. \<not> used_slot x"
  proof (rule ccontr)
    assume "\<not> ?thesis"
    then have "filter used_slot T = T" by (simp add: filter_id_conv)
    moreover have "length (filter used_slot T) = length E" using inv by (simp add: tbl_inv_def)
    ultimately show False using room by simp
  qed
  note p = probe_spec [OF s this, folded w_def]
  show "probe (length T) T ?s = Some w" by (rule p(1))
  have w: "w < length T" using pos by (simp add: w_def)
  have len: "first_slot ?T = first_slot T" by (simp add: first_slot_def fun_eq_iff)
  have "length (filter used_slot ?T) = Suc (length (filter used_slot T))"
    by (rule length_filter_update [OF w p(3) e])
  moreover have "filter (\<lambda>x. hp_h x = h) (scan ?T (first_slot T h)) = filter (\<lambda>x. hp_h x = h) (E @ [e])
      \<and> (\<forall>d < length T. used_slot (rotate s ?T ! d) \<and> first_slot T (hp_h (rotate s ?T ! d)) = s
          \<longrightarrow> d < length (scan ?T s))" if sl: "s < length T" and hs: "first_slot T h = s" for s h
  proof -
    obtain j where j: "j < length T" "(s + j) mod length T = w" using offset_exists [OF sl w] by blast
    define L where "L = rotate s T"
    have rot: "rotate s ?T = L[j := e]" using rotate_update [OF j(1), of s e] j(2) by (simp add: L_def)
    have sc: "scan T s = takeWhile used_slot L" "scan ?T s = takeWhile used_slot (L[j := e])"
      by (simp_all add: scan_def rot L_def)
    have free: "\<not> used_slot (L ! j)" using p(3) j by (simp add: L_def nth_rotate)
    have jL: "j < length L" using j by (simp add: L_def)
    have same: "j = length (scan T s)" if "?s = s"
      using mod_add_inj [OF j(1) p(2), of s] j(2) that by (simp add: w_def)
    have old: "d < length (scan T s)" if "d < length T" "used_slot (L ! d)" "first_slot T (hp_h (L ! d)) = s" for d
      using inv sl that by (simp add: tbl_inv_def L_def)
    have oldf: "filter (\<lambda>x. hp_h x = h) (scan T s) = filter (\<lambda>x. hp_h x = h) E"
      using inv hs by (auto simp: tbl_inv_def)
    show ?thesis
    proof (cases "j = length (scan T s)")
      case True
      let ?r = "takeWhile used_slot (drop (Suc j) L)"
      have sc': "scan ?T s = scan T s @ e # ?r"
        using takeWhile_fill [where P = used_slot and L = L, OF e] True jL by (simp add: sc)
      have "hp_h x \<noteq> h" if "x \<in> set ?r" for x
      proof -
        have x: "x \<in> set (drop (Suc j) L)" "used_slot x" using set_takeWhileD [OF that] by auto
        obtain i where i: "i < length (drop (Suc j) L)" "drop (Suc j) L ! i = x"
          using x(1) unfolding in_set_conv_nth by blast
        note i = i x(2)
        have lt: "Suc j + i < length T" "L ! (Suc j + i) = x" using i by (auto simp: L_def)
        show ?thesis
        proof
          assume "hp_h x = h"
          then show False using old [OF lt(1)] lt(2) i(3) hs True by simp
        qed
      qed
      then have "filter (\<lambda>x. hp_h x = h) ?r = []" by (simp add: filter_empty_conv)
      moreover have "d < length (scan ?T s)"
        if "d < length T" "used_slot (rotate s ?T ! d)" "first_slot T (hp_h (rotate s ?T ! d)) = s" for d
        using old [of d] that by (cases "d = j") (auto simp: rot sc' True nth_list_update jL)
      ultimately show ?thesis using oldf by (simp add: hs sc')
    next
      case False
      have sc': "scan ?T s = scan T s"
        using takeWhile_other [where P = used_slot, OF jL free] False by (simp add: sc)
      have ne: "?s \<noteq> s" using same False by blast
      then have "hp_h e \<noteq> h" using hs by auto
      moreover have "d < length (scan ?T s)"
        if "d < length T" "used_slot (rotate s ?T ! d)" "first_slot T (hp_h (rotate s ?T ! d)) = s" for d
        using old [of d] that ne by (cases "d = j") (auto simp: rot sc' nth_list_update jL)
      ultimately show ?thesis using oldf by (simp add: hs sc')
    qed
  qed
  note main = this
  have "filter (\<lambda>x. hp_h x = h) (scan ?T (first_slot T h)) = filter (\<lambda>x. hp_h x = h) (E @ [e])" for h
    using main [of "first_slot T h" h] pos by (simp add: first_slot_def)
  moreover have "\<forall>d < length T. used_slot (rotate s ?T ! d) \<and> first_slot T (hp_h (rotate s ?T ! d)) = s
          \<longrightarrow> d < length (scan ?T s)" if "s < length T" for s
    using main [of s "256 * s"] that by (simp add: first_slot_def)
  ultimately show "tbl_inv ?T (E @ [e])" using inv by (simp add: tbl_inv_def len)
qed

lemma hash_fill_spec:
  assumes "tbl_inv T E" "\<forall>e \<in> set es. used_slot e" "length E + length es \<le> length T"
  shows "\<exists>T'. hash_fill es T = Some T' \<and> length T' = length T \<and> tbl_inv T' (E @ es)"
  using assms
proof (induction es arbitrary: T E)
  case (Cons e es)
  have room: "length E < length T" using Cons.prems by simp
  note i = tbl_insert [OF Cons.prems(1) _ room, of e]
  obtain w where w: "probe (length T) T (first_slot T (hp_h e)) = Some w" "tbl_inv (T[w := e]) (E @ [e])"
    using i Cons.prems(2) by auto
  then show ?case using Cons.IH [OF w(2)] Cons.prems(2,3) by (auto simp: first_slot_def)
qed simp

section \<open>Sorting the entries by table\<close>

definition slice :: "'a list \<Rightarrow> nat \<Rightarrow> nat \<Rightarrow> 'a list" where
  "slice xs a b = take (b - a) (drop a xs)"

lemma slice_update_outside: "j < a \<or> b \<le> j \<Longrightarrow> slice (xs[j := x]) a b = slice xs a b"
  by (auto simp: slice_def drop_update_swap take_update_swap drop_update_cancel)
     (cases "a \<le> j"; simp add: drop_update_swap drop_update_cancel)

lemma slice_update_left:
  assumes "j < b" "j < length xs"
  shows "slice (xs[j := x]) j b = x # slice xs (Suc j) b"
proof -
  have "drop j (xs[j := x]) = x # drop (Suc j) xs"
    using assms(2) by (simp add: drop_update_swap Cons_nth_drop_Suc [symmetric])
  then show ?thesis using assms(1) by (simp add: slice_def take_Cons' Suc_diff_Suc)
qed

abbreviation in_table :: "nat \<Rightarrow> cdb_hp \<Rightarrow> bool" where
  "in_table i x \<equiv> hp_h x mod 256 = i"

lemma split_loop_spec:
  assumes "mono base" "base 256 \<le> length split" "length start = 256"
    "\<And>i. i < 256 \<Longrightarrow> start ! i = base i + length (filter (in_table i) xs) \<and> start ! i \<le> base (Suc i)"
    "split_loop xs start split = (start', split')"
  shows "length split' = length split \<and> (\<forall>i < 256. start' ! i = base i
     \<and> slice split' (base i) (base (Suc i)) = rev (filter (in_table i) xs) @ slice split (start ! i) (base (Suc i)))"
  using assms(2-)
proof (induction xs arbitrary: start split)
  case Nil
  then show ?case by auto
next
  case (Cons x xs)
  define b where "b = hp_h x mod 256"
  define j where "j = start ! b - 1"
  have b: "b < 256" by (simp add: b_def)
  have j: "start ! b = Suc j" "j = base b + length (filter (in_table b) xs)" "Suc j \<le> base (Suc b)"
    using Cons.prems(3) [OF b] by (auto simp: j_def b_def)
  have jl: "j < length split" using j(3) monoD [OF assms(1), of "Suc b" 256] b Cons.prems(1) by simp
  have run: "split_loop xs (start[b := j]) (split[j := x]) = (start', split')"
    using Cons.prems(4) by (simp add: Let_def b_def j_def)
  have st: "start[b := j] ! i = base i + length (filter (in_table i) xs) \<and> start[b := j] ! i \<le> base (Suc i)"
    if "i < 256" for i
    using Cons.prems(3) [OF that] Cons.prems(2) j that b by (cases "i = b") (auto simp: b_def)
  note ih = Cons.IH [of "split[j := x]" "start[b := j]", OF _ _ st run]
  have "slice (split[j := x]) (start[b := j] ! i) (base (Suc i))
      = filter (in_table i) [x] @ slice split (start ! i) (base (Suc i))" if i: "i < 256" for i
  proof (cases "i = b")
    case True
    then show ?thesis using j jl Cons.prems(2) b slice_update_left [of j "base (Suc b)" split x]
      by (simp add: b_def)
  next
    case False
    have "j < start ! i \<or> base (Suc i) \<le> j"
    proof (cases "i < b")
      case True
      then show ?thesis using monoD [OF assms(1), of "Suc i" b] j(2) by simp
    next
      case False
      with \<open>i \<noteq> b\<close> have "b < i" by simp
      then show ?thesis using monoD [OF assms(1), of "Suc b" i] j(3) Cons.prems(3) [OF i] by simp
    qed
    then show ?thesis using False slice_update_outside [of j "start ! i" "base (Suc i)" split x]
      by (auto simp: b_def)
  qed
  then show ?case using ih Cons.prems(1,2) by (auto simp: b_def)
qed

lemma start_sums_nth:
  "i < length ns \<Longrightarrow> start_sums ns u ! i = u + sum_list (take (Suc i) ns)"
  by (induction ns arbitrary: u i) (auto simp: nth_Cons split: nat.splits)

lemma start_sums_length [simp]: "length (start_sums ns u) = length ns"
  by (induction ns arbitrary: u) auto

lemma sum_counts:
  "sum_list (map (\<lambda>i. length (filter (in_table i) E)) [0..<256]) = length E"
proof (induction E)
  case (Cons x E)
  have "sum_list (map (\<lambda>i. length (filter (in_table i) (x # E))) [0..<256])
      = sum_list (map (\<lambda>i. (if in_table i x then 1 else 0) + length (filter (in_table i) E)) [0..<256])"
    by (rule arg_cong [where f = sum_list], rule map_cong) auto
  also have "\<dots> = sum_list (map (\<lambda>i. if in_table i x then 1 else 0) [0..<256]) + length E"
    by (simp add: sum_list_addf Cons.IH)
  also have "sum_list (map (\<lambda>i. if in_table i x then 1 else 0) [0..<256]) = (1 :: nat)"
    by (simp add: sum_list_distinct_conv_sum_set sum.delta)
  finally show ?case by simp
qed simp

lemma split_entries:
  assumes cnt: "count = map (\<lambda>i. length (filter (in_table i) E)) [0..<256]"
    and run: "split_loop (rev E) (start_sums count 0) (replicate (length E) z) = (start, split)"
    and i: "i < 256"
  shows "take (count ! i) (drop (start ! i) split) = filter (in_table i) E"
proof -
  define base where "base i = sum_list (take i count)" for i
  have len: "length count = 256" by (simp add: cnt)
  have suc: "base (Suc i) = base i + count ! i" if "i < 256" for i
    using that len by (simp add: base_def take_Suc_conv_app_nth)
  have top: "base (Suc i) = base i" if "\<not> i < 256" for i using that len by (simp add: base_def)
  have m: "mono base" 
    unfolding mono_iff_le_Suc by (metis suc top le_add1 order_refl)
  have tot: "base 256 = length E" using sum_counts [of E] len by (simp add: base_def cnt)
  have ci: "count ! i = length (filter (in_table i) E)" if "i < 256" for i using that by (simp add: cnt)
  have rf: "length (filter (in_table i) (rev E)) = length (filter (in_table i) E)" for i
    by (simp flip: rev_filter)
  have "start ! i = base i \<and> slice split (base i) (base (Suc i)) = rev (filter (in_table i) (rev E)) @
      slice (replicate (length E) z) (start_sums count 0 ! i) (base (Suc i))"
    using split_loop_spec [OF m _ _ _ run] tot len i
    by (simp add: start_sums_nth base_def [symmetric] suc ci rf)
  moreover have "start_sums count 0 ! i = base (Suc i)" using i len by (simp add: start_sums_nth base_def)
  ultimately show ?thesis using suc [OF i] by (simp add: slice_def rev_filter)
qed

section \<open>The file being written\<close>

text \<open>The record of a key and a value, and the entries of a list of records.\<close>

type_synonym rec = "string \<times> string"

definition kvlen_bytes :: "nat \<Rightarrow> nat \<Rightarrow> bytes" where
  "kvlen_bytes klen vlen =
     [char_of klen, char_of (vlen mod 256), char_of (vlen div 256 mod 256), char_of (vlen div 65536 mod 256)]"

definition rec_bytes :: "rec \<Rightarrow> bytes" where
  "rec_bytes r = kvlen_bytes (length (fst r) + 1) (length (snd r) + 1) @ fst r @ [NUL] @ snd r @ [NUL]"

definition rec_ok :: "rec \<Rightarrow> bool" where
  "rec_ok r \<longleftrightarrow> length (fst r) + 1 \<le> SDB_MAX_KEY \<and> length (snd r) + 1 < SDB_MAX_VALUE"

fun hps :: "nat \<Rightarrow> rec list \<Rightarrow> cdb_hp list" where
  "hps pos [] = []"
| "hps pos (r # rs) =
     \<lparr>hp_h = unat (sdb_hash (fst r)), hp_p = pos\<rparr> # hps (pos + length (rec_bytes r)) rs"

definition recs_bytes :: "rec list \<Rightarrow> bytes" where
  "recs_bytes rs = replicate 1024 NUL @ concat (map rec_bytes rs)"

definition counts :: "cdb_hp list \<Rightarrow> nat list" where
  "counts E = map (\<lambda>i. length (filter (in_table i) E)) [0..<256]"

definition make_inv :: "cdb_make \<Rightarrow> rec list \<Rightarrow> bool" where
  "make_inv c rs \<longleftrightarrow>
     buf_inv 1024 (m_b c) \<and> stream (m_b c) = recs_bytes rs
     \<and> m_pos c = length (recs_bytes rs) \<and> m_pos c < 2 ^ 32
     \<and> concat (rev (m_head c)) = hps 1024 rs \<and> m_count c = counts (hps 1024 rs)
     \<and> m_numentries c = length rs \<and> 1 \<le> m_memsize c \<and> m_memsize c \<le> 1 + 2 * length rs
     \<and> (\<forall>i < 256. m_count c ! i * 2 \<le> m_memsize c) \<and> length (m_final c) = 1024
     \<and> (\<forall>r \<in> set rs. rec_ok r)"

lemma rec_bytes_length: "length (rec_bytes r) = 6 + length (fst r) + length (snd r)"
  by (simp add: rec_bytes_def kvlen_bytes_def)

lemma pack_kvlen_iff:
  "pack_kvlen (length (fst r) + 1) (length (snd r) + 1)
   = (if rec_ok r then Some (kvlen_bytes (length (fst r) + 1) (length (snd r) + 1)) else None)"
  by (auto simp: pack_kvlen_def rec_ok_def kvlen_bytes_def)

lemma hps_append: "hps pos (rs @ qs) = hps pos rs @ hps (pos + length (concat (map rec_bytes rs))) qs"
  by (induction rs arbitrary: pos) (auto simp: add.assoc)

lemma length_hps [simp]: "length (hps pos rs) = length rs"
  by (induction rs arbitrary: pos) auto

lemma concat_rev_hplist_add: "concat (rev (hplist_add head hp)) = concat (rev head) @ [hp]"
  by (cases head) (auto simp: hplist_add_def)

lemma make_start_inv:
  assumes "f_data fd = []" "length (m_final c) = 1024"
  shows "make_inv (cdb_make_start c fd) []"
  using assms
  by (simp add: make_inv_def cdb_make_start_def buffer_initialize_def buf_inv_def stream_def padded_def
      seek_set_def recs_bytes_def counts_def map_replicate_const)

lemma incpos_spec:
  assumes "m_pos c < 2 ^ 32" "len < 2 ^ 32"
  shows "incpos c len = (if m_pos c + len < 2 ^ 32 then (True, c\<lparr>m_pos := m_pos c + len\<rparr>) else (False, c))"
proof (cases "m_pos c + len < 2 ^ 32")
  case True
  then show ?thesis by (simp add: incpos_def)
next
  case False
  have "(m_pos c + len) mod 2 ^ 32 = m_pos c + len - 2 ^ 32"
    using False assms by (subst mod_if) (simp add: mod_if)
  then show ?thesis using False assms by (simp add: incpos_def Let_def)
qed

lemma counts_snoc:
  "counts (E @ [e]) = (counts E)[hp_h e mod 256 := counts E ! (hp_h e mod 256) + 1]"
  by (rule nth_equalityI) (auto simp: counts_def nth_list_update)

text \<open>Adding a record: exactly when it succeeds, and what it appends.\<close>

definition add_fits :: "cdb_make \<Rightarrow> rec \<Rightarrow> bool" where
  "add_fits c r \<longleftrightarrow>
     rec_ok r \<and> m_pos c + length (rec_bytes r) < 2 ^ 32
     \<and> length (stream (m_b c)) + length (rec_bytes r) \<le> stream_cap (m_b c)"

lemma cdb_make_add_unfold:
  assumes l: "length k < 2 ^ 32 - 1" "length v < 2 ^ 32 - 1"
  shows "cdb_make_add c k (length k) v (length v) =
    (if rec_ok (k, v) then
       (case buffer_putalign (m_b c) (kvlen_bytes (length k + 1) (length v + 1)) of
          (False, b) \<Rightarrow> (False, c\<lparr>m_b := b\<rparr>)
        | (True, b) \<Rightarrow>
           (case buffer_putalign b (k @ [NUL]) of
              (False, b) \<Rightarrow> (False, c\<lparr>m_b := b\<rparr>)
            | (True, b) \<Rightarrow>
                (case buffer_putalign b (v @ [NUL]) of
                   (False, b) \<Rightarrow> (False, c\<lparr>m_b := b\<rparr>)
                 | (True, b) \<Rightarrow>
                     cdb_make_addend (c\<lparr>m_b := b\<rparr>) (length k + 1) (length v + 1) (unat (sdb_hash k)))))
     else (False, c))"
proof -
  have "length k + 1 < 2 ^ 32" "length v + 1 < 2 ^ 32" using l by linarith+
  then have ml: "(length k + 1) mod 2 ^ 32 = length k + 1" "(length v + 1) mod 2 ^ 32 = length v + 1"
    by (simp_all only: mod_less)
  show ?thesis
    unfolding cdb_make_add_def Let_def ml cdb_make_addbegin_def pack_kvlen_iff [of "(k, v)", unfolded fst_conv snd_conv]
    by (auto split: prod.splits bool.splits)
qed

lemma cdb_make_add_puts:
  assumes inv: "make_inv c rs" and l: "length k < 2 ^ 32 - 1" "length v < 2 ^ 32 - 1"
    and add: "cdb_make_add c k (length k) v (length v) = (True, c')"
  shows "rec_ok (k, v) \<and> (\<exists>b. buf_inv 1024 b \<and> stream b = stream (m_b c) @ rec_bytes (k, v)
     \<and> stream_cap b = stream_cap (m_b c)
     \<and> cdb_make_addend (c\<lparr>m_b := b\<rparr>) (length k + 1) (length v + 1) (unat (sdb_hash k)) = (True, c'))"
proof -
  note add = add [unfolded cdb_make_add_unfold [OF l]]
  have ok: "rec_ok (k, v)" using add by (auto split: if_splits)
  obtain b1 b2 b3 where p1: "buffer_putalign (m_b c) (kvlen_bytes (length k + 1) (length v + 1)) = (True, b1)"
    and p2: "buffer_putalign b1 (k @ [NUL]) = (True, b2)"
    and p3: "buffer_putalign b2 (v @ [NUL]) = (True, b3)"
    and e: "cdb_make_addend (c\<lparr>m_b := b3\<rparr>) (length k + 1) (length v + 1) (unat (sdb_hash k)) = (True, c')"
    using add ok by (auto split: prod.splits bool.splits)
  have b0: "buf_inv 1024 (m_b c)" using inv by (simp add: make_inv_def)
  note s1 = buffer_putalign_ok [OF b0, of "kvlen_bytes (length k + 1) (length v + 1)", unfolded p1, simplified]
  note s2 = buffer_putalign_ok [OF conjunct1 [OF s1], of "k @ [NUL]", unfolded p2, simplified]
  note s3 = buffer_putalign_ok [OF conjunct1 [OF s2], of "v @ [NUL]", unfolded p3, simplified]
  show ?thesis using ok e s1 s2 s3 by (intro conjI exI [of _ b3]) (auto simp: rec_bytes_def)
qed

text \<open>The bookkeeping of \<^verbatim>\<open>cdb_make_addend\<close>.\<close>

lemma cdb_make_addend_spec:
  fixes c k v
  defines "h \<equiv> unat (sdb_hash k)"
  defines "n \<equiv> m_count c ! (h mod 256) + 1"
  defines "c1 \<equiv> c\<lparr>m_head := hplist_add (m_head c) \<lparr>hp_h = h, hp_p = m_pos c\<rparr>,
       m_numentries := m_numentries c + 1, m_count := (m_count c)[h mod 256 := n],
       m_memsize := max (n * 2) (m_memsize c)\<rparr>"
  assumes ok: "rec_ok (k, v)" "m_pos c < 2 ^ 32"
  shows "cdb_make_addend c (length k + 1) (length v + 1) h =
    (if m_pos c + length (rec_bytes (k, v)) < 2 ^ 32
     then (True, c1\<lparr>m_pos := m_pos c + length (rec_bytes (k, v))\<rparr>) else (False, c1))"
proof -
  have lb: "KVLSZ + (length k + 1) + (length v + 1) = length (rec_bytes (k, v))"
    by (simp add: rec_bytes_length KVLSZ_def)
  have small: "length (rec_bytes (k, v)) < 2 ^ 32"
    using ok by (simp add: rec_bytes_length rec_ok_def SDB_MAX_KEY_def SDB_MAX_VALUE_def)
  have mx: "(if n * 2 > m_memsize c then n * 2 else m_memsize c) = max (n * 2) (m_memsize c)" by simp
  have "cdb_make_addend c (length k + 1) (length v + 1) h = incpos c1 (length (rec_bytes (k, v)))"
    unfolding cdb_make_addend_def Let_def lb mod_less [OF small] c1_def n_def [symmetric] mx ..
  also have "\<dots> = (if m_pos c + length (rec_bytes (k, v)) < 2 ^ 32
     then (True, c1\<lparr>m_pos := m_pos c + length (rec_bytes (k, v))\<rparr>) else (False, c1))"
    using incpos_spec [OF _ small, of c1] ok(2) by (simp add: c1_def)
  finally show ?thesis .
qed

lemma cdb_make_add_inv:
  assumes inv: "make_inv c rs" and l: "length k < 2 ^ 32 - 1" "length v < 2 ^ 32 - 1"
    and add: "cdb_make_add c k (length k) v (length v) = (True, c')"
  shows "make_inv c' (rs @ [(k, v)]) \<and> stream_cap (m_b c') = stream_cap (m_b c)"
proof -
  let ?r = "(k, v)" and ?h = "unat (sdb_hash k)"
  obtain b where ok: "rec_ok ?r" and b: "buf_inv 1024 b" "stream b = stream (m_b c) @ rec_bytes ?r"
      "stream_cap b = stream_cap (m_b c)"
    and e: "cdb_make_addend (c\<lparr>m_b := b\<rparr>) (length k + 1) (length v + 1) ?h = (True, c')"
    using cdb_make_add_puts [OF assms] by blast
  have pos: "m_pos c < 2 ^ 32" using inv by (simp add: make_inv_def)
  define n where "n = m_count c ! (?h mod 256) + 1"
  have c': "c' = c\<lparr>m_b := b, m_head := hplist_add (m_head c) \<lparr>hp_h = ?h, hp_p = m_pos c\<rparr>,
       m_numentries := m_numentries c + 1, m_count := (m_count c)[?h mod 256 := n],
       m_memsize := max (n * 2) (m_memsize c), m_pos := m_pos c + length (rec_bytes ?r)\<rparr>"
    and lt: "m_pos c + length (rec_bytes ?r) < 2 ^ 32"
    using e cdb_make_addend_spec [OF ok, of "c\<lparr>m_b := b\<rparr>"] pos by (auto simp: n_def split: if_splits)
  have E: "hps 1024 (rs @ [?r]) = hps 1024 rs @ [\<lparr>hp_h = ?h, hp_p = m_pos c\<rparr>]"
    using inv by (simp add: hps_append make_inv_def recs_bytes_def)
  have cl: "length (m_count c) = 256" using inv by (simp add: make_inv_def counts_def)
  have cle: "n \<le> length rs + 1"
    using inv length_filter_le [of "in_table (?h mod 256)" "hps 1024 rs"] by (simp add: n_def make_inv_def counts_def)
  have cnt: "m_count c' = counts (hps 1024 (rs @ [?r]))"
    using inv unfolding E counts_snoc by (simp add: c' n_def make_inv_def)
  have mem: "m_count c' ! i * 2 \<le> m_memsize c'" if "i < 256" for i
    using inv cl that by (auto simp: c' make_inv_def nth_list_update max.coboundedI2)
  have "1 \<le> m_memsize c'" "m_memsize c' \<le> 1 + 2 * length (rs @ [?r])"
    using inv cle by (auto simp: c' make_inv_def)
  moreover have "concat (rev (m_head c')) = hps 1024 (rs @ [?r])"
    using inv by (simp add: c' E concat_rev_hplist_add make_inv_def)
  moreover have "m_pos c' = length (recs_bytes (rs @ [?r]))" "stream b = recs_bytes (rs @ [?r])"
    using inv b(2) by (auto simp: c' make_inv_def recs_bytes_def)
  ultimately show ?thesis
    unfolding make_inv_def using inv ok b cnt mem lt by (auto simp: c' make_inv_def)
qed

lemma cdb_make_add_succeeds:
  assumes inv: "make_inv c rs" and fits: "add_fits c (k, v)"
  shows "fst (cdb_make_add c k (length k) v (length v))"
proof -
  have ok: "rec_ok (k, v)" and pos: "m_pos c + length (rec_bytes (k, v)) < 2 ^ 32"
    and cap: "length (stream (m_b c)) + length (rec_bytes (k, v)) \<le> stream_cap (m_b c)"
    using fits by (auto simp: add_fits_def)
  have l: "length k < 2 ^ 32 - 1" "length v < 2 ^ 32 - 1"
    using ok by (auto simp: rec_ok_def SDB_MAX_KEY_def SDB_MAX_VALUE_def)
  have len: "length (rec_bytes (k, v)) = length (kvlen_bytes (length k + 1) (length v + 1)) + length (k @ [NUL]) + length (v @ [NUL])"
    by (simp add: rec_bytes_def)
  have b0: "buf_inv 1024 (m_b c)" using inv by (simp add: make_inv_def)
  have "fst (buffer_putalign (m_b c) (kvlen_bytes (length k + 1) (length v + 1)))"
    using buffer_putalign_succeeds [OF b0] cap len by simp
  then obtain b1 where p1: "buffer_putalign (m_b c) (kvlen_bytes (length k + 1) (length v + 1)) = (True, b1)"
    by (metis prod.collapse)
  note s1 = buffer_putalign_ok [OF b0, of "kvlen_bytes (length k + 1) (length v + 1)", unfolded p1, simplified]
  have "fst (buffer_putalign b1 (k @ [NUL]))"
    using buffer_putalign_succeeds [OF conjunct1 [OF s1]] s1 cap len by simp
  then obtain b2 where p2: "buffer_putalign b1 (k @ [NUL]) = (True, b2)" by (metis prod.collapse)
  note s2 = buffer_putalign_ok [OF conjunct1 [OF s1], of "k @ [NUL]", unfolded p2, simplified]
  have "fst (buffer_putalign b2 (v @ [NUL]))"
    using buffer_putalign_succeeds [OF conjunct1 [OF s2]] s1 s2 cap len by simp
  then obtain b3 where p3: "buffer_putalign b2 (v @ [NUL]) = (True, b3)" by (metis prod.collapse)
  show ?thesis using ok p1 p2 p3 cdb_make_addend_spec [OF ok, of "c\<lparr>m_b := b3\<rparr>"] pos
    by (simp add: cdb_make_add_unfold [OF l])
qed

section \<open>Writing the tables\<close>

definition slot_bytes :: "cdb_hp \<Rightarrow> bytes" where
  "slot_bytes x = ut32_pack (hp_h x) @ ut32_pack (hp_p x)"

definition slots_bytes :: "cdb_hp list \<Rightarrow> bytes" where
  "slots_bytes T = concat (map slot_bytes T)"

lemma slots_bytes_length [simp]: "length (slots_bytes T) = 8 * length T"
  by (induction T) (auto simp: slots_bytes_def slot_bytes_def)

lemma put_slots_ok:
  assumes "buf_inv 1024 (m_b c)" "m_pos c < 2 ^ 32" "put_slots T c = (True, c')"
  shows "\<exists>b. c' = c\<lparr>m_b := b, m_pos := m_pos c + 8 * length T\<rparr> \<and> buf_inv 1024 b
     \<and> stream b = stream (m_b c) @ slots_bytes T \<and> stream_cap b = stream_cap (m_b c)
     \<and> m_pos c + 8 * length T < 2 ^ 32"
  using assms
proof (induction T arbitrary: c)
  case Nil
  then show ?case by (intro exI [of _ "m_b c"]) (auto simp: slots_bytes_def)
next
  case (Cons x T)
  obtain b1 where p: "buffer_putalign (m_b c) (slot_bytes x) = (True, b1)"
    using Cons.prems(3) by (auto simp: slot_bytes_def split: prod.splits bool.splits)
  note s = buffer_putalign_ok [OF Cons.prems(1), of "slot_bytes x", unfolded p, simplified]
  let ?c1 = "c\<lparr>m_b := b1\<rparr>"
  have inc: "incpos ?c1 8 = (if m_pos c + 8 < 2 ^ 32 then (True, ?c1\<lparr>m_pos := m_pos c + 8\<rparr>) else (False, ?c1))"
    using incpos_spec [of ?c1 8] Cons.prems(2) by simp
  have lt: "m_pos c + 8 < 2 ^ 32" and rest: "put_slots T (?c1\<lparr>m_pos := m_pos c + 8\<rparr>) = (True, c')"
    using Cons.prems(3) p inc by (auto simp: slot_bytes_def split: if_splits)
  from Cons.IH [OF _ _ rest] s lt obtain b where
    "c' = c\<lparr>m_b := b, m_pos := m_pos c + 8 + 8 * length T\<rparr>" "buf_inv 1024 b"
    "stream b = stream b1 @ slots_bytes T" "stream_cap b = stream_cap b1" "m_pos c + 8 + 8 * length T < 2 ^ 32"
    by auto
  then show ?case using s by (intro exI [of _ b]) (auto simp: slots_bytes_def)
qed

lemma put_slots_succeeds:
  assumes "buf_inv 1024 (m_b c)" "m_pos c + 8 * length T < 2 ^ 32"
    "length (stream (m_b c)) + 8 * length T \<le> stream_cap (m_b c)"
  shows "fst (put_slots T c)"
  using assms
proof (induction T arbitrary: c)
  case (Cons x T)
  have l: "length (slot_bytes x) = 8" by (simp add: slot_bytes_def)
  have "fst (buffer_putalign (m_b c) (slot_bytes x))"
    using buffer_putalign_succeeds [OF Cons.prems(1)] Cons.prems(3) l by simp
  then obtain b1 where p: "buffer_putalign (m_b c) (slot_bytes x) = (True, b1)" by (metis prod.collapse)
  note s = buffer_putalign_ok [OF Cons.prems(1), of "slot_bytes x", unfolded p, simplified]
  let ?c1 = "c\<lparr>m_b := b1\<rparr>"
  have inc: "incpos ?c1 8 = (True, ?c1\<lparr>m_pos := m_pos c + 8\<rparr>)"
    using incpos_spec [of ?c1 8] Cons.prems(2) by simp
  have "fst (put_slots T (?c1\<lparr>m_pos := m_pos c + 8\<rparr>))"
    by (rule Cons.IH) (use s Cons.prems l in auto)
  then show ?case using p inc by (simp add: slot_bytes_def)
qed simp

text \<open>The table of number \<open>i\<close> for the entries \<open>E\<close>, and where it begins.\<close>

definition table :: "cdb_hp list \<Rightarrow> nat \<Rightarrow> cdb_hp list" where
  "table E i =
     (case hash_fill (filter (in_table i) E) (replicate (length (filter (in_table i) E) * 2) \<lparr>hp_h = 0, hp_p = 0\<rparr>) of
        Some T \<Rightarrow> T | None \<Rightarrow> [])"

definition tables_bytes :: "cdb_hp list \<Rightarrow> nat \<Rightarrow> bytes" where
  "tables_bytes E n = concat (map (\<lambda>i. slots_bytes (table E i)) [0..<n])"

definition final_bytes :: "nat \<Rightarrow> cdb_hp list \<Rightarrow> nat \<Rightarrow> bytes" where
  "final_bytes base E n = concat (map (\<lambda>i. ut32_pack (base + length (tables_bytes E i))) [0..<n])"

lemma table_ok:
  assumes "\<forall>e \<in> set E. used_slot e"
  shows "hash_fill (filter (in_table i) E) (replicate (length (filter (in_table i) E) * 2) \<lparr>hp_h = 0, hp_p = 0\<rparr>) = Some (table E i)"
    "length (table E i) = length (filter (in_table i) E) * 2" "tbl_inv (table E i) (filter (in_table i) E)"
proof -
  obtain T where T: "hash_fill (filter (in_table i) E)
      (replicate (length (filter (in_table i) E) * 2) \<lparr>hp_h = 0, hp_p = 0\<rparr>) = Some T"
    "length T = length (filter (in_table i) E) * 2" "tbl_inv T (filter (in_table i) E)"
    using hash_fill_spec [OF tbl_inv_empty, of "filter (in_table i) E" "length (filter (in_table i) E) * 2"] assms
    by auto
  then show "hash_fill (filter (in_table i) E) (replicate (length (filter (in_table i) E) * 2) \<lparr>hp_h = 0, hp_p = 0\<rparr>) = Some (table E i)"
    "length (table E i) = length (filter (in_table i) E) * 2" "tbl_inv (table E i) (filter (in_table i) E)"
    by (simp_all add: table_def)
qed

lemma tables_bytes_Suc: "tables_bytes E (Suc n) = tables_bytes E n @ slots_bytes (table E n)"
  by (simp add: tables_bytes_def)

lemma final_bytes_Suc: "final_bytes base E (Suc n) = final_bytes base E n @ ut32_pack (base + length (tables_bytes E n))"
  by (simp add: final_bytes_def)

lemma final_bytes_length [simp]: "length (final_bytes base E n) = 4 * n"
  by (induction n) (auto simp: final_bytes_Suc, simp add: final_bytes_def)

definition tables_inv :: "rec list \<Rightarrow> nat \<Rightarrow> cdb_make \<Rightarrow> bool" where
  "tables_inv rs n c \<longleftrightarrow>
     (let E = hps 1024 rs in
      buf_inv 1024 (m_b c) \<and> stream (m_b c) = recs_bytes rs @ tables_bytes E n
      \<and> m_pos c = length (stream (m_b c)) \<and> m_pos c < 2 ^ 32 \<and> m_count c = counts E
      \<and> length (m_final c) = 1024 \<and> take (4 * n) (m_final c) = final_bytes (length (recs_bytes rs)) E n)"

lemma hps_used: "0 < pos \<Longrightarrow> \<forall>e \<in> set (hps pos rs). used_slot e"
proof (induction rs arbitrary: pos)
  case (Cons r rs)
  then show ?case using Cons.IH [of "pos + length (rec_bytes r)"] by simp
qed simp

lemma tables_bytes_mono: "n \<le> m \<Longrightarrow> length (tables_bytes E n) \<le> length (tables_bytes E m)"
  by (induction m rule: dec_induct) (auto simp: tables_bytes_Suc)

lemma tables_bytes_total:
  assumes "\<forall>e \<in> set E. used_slot e" shows "length (tables_bytes E 256) = 16 * length E"
proof -
  have "length (tables_bytes E 256) = sum_list (map (\<lambda>i. 16 * length (filter (in_table i) E)) [0..<256])"
    by (simp add: tables_bytes_def length_concat comp_def table_ok(2) [OF assms] mult.commute)
  then show ?thesis by (simp add: sum_list_const_mult sum_counts)
qed

lemma set_final_take:
  assumes "length (m_final c) = 1024" "n < 256"
  shows "length (m_final (set_final c n)) = 1024"
    "take (4 * Suc n) (m_final (set_final c n)) = take (4 * n) (m_final c) @ ut32_pack (m_pos c)"
  using assms by (auto simp: set_final_def)

lemma finish_tables_step:
  assumes inv: "tables_inv rs n c" and n: "n < 256" and put: "put_slots (table (hps 1024 rs) n) (set_final c n) = (True, c')"
  shows "tables_inv rs (Suc n) c' \<and> stream_cap (m_b c') = stream_cap (m_b c)"
proof -
  let ?E = "hps 1024 rs" and ?c = "set_final c n"
  have c: "m_b ?c = m_b c" "m_pos ?c = m_pos c" "m_count ?c = m_count c" by (simp_all add: set_final_def)
  have a: "buf_inv 1024 (m_b ?c)" "m_pos ?c < 2 ^ 32" using inv by (auto simp: tables_inv_def Let_def c)
  obtain b where b: "c' = ?c\<lparr>m_b := b, m_pos := m_pos c + 8 * length (table ?E n)\<rparr>" "buf_inv 1024 b"
    "stream b = stream (m_b c) @ slots_bytes (table ?E n)" "stream_cap b = stream_cap (m_b c)"
    "m_pos c + 8 * length (table ?E n) < 2 ^ 32"
    using put_slots_ok [OF a put] by (auto simp: c)
  have f: "length (m_final c) = 1024" using inv by (simp add: tables_inv_def Let_def)
  show ?thesis using inv b set_final_take [OF f n]
    by (simp add: tables_inv_def Let_def c tables_bytes_Suc final_bytes_Suc)
qed

text \<open>
  Writing the tables ends, since every table has a free slot, and it succeeds when the
  positions stay below \<open>2 ^ 32\<close> and the device has room.
\<close>

lemma finish_tables_spec:
  assumes "tables_inv rs n c" "n \<le> 256"
    "\<And>i. i < 256 \<Longrightarrow> take (counts (hps 1024 rs) ! i) (drop (start ! i) split) = filter (in_table i) (hps 1024 rs)"
    "\<And>i. i < 256 \<Longrightarrow> counts (hps 1024 rs) ! i * 2 \<le> room"
  defines "sz \<equiv> length (recs_bytes rs) + length (tables_bytes (hps 1024 rs) 256)"
  shows "\<exists>ok c'. finish_tables room [n..<256] start split c = Some (ok, c')
     \<and> (ok \<longrightarrow> tables_inv rs 256 c' \<and> stream_cap (m_b c') = stream_cap (m_b c))
     \<and> (sz < 2 ^ 32 \<and> sz \<le> stream_cap (m_b c) \<longrightarrow> ok)"
  using assms(1,2)
proof (induction "256 - n" arbitrary: n c)
  case 0
  then show ?case by (intro exI [of _ True]) simp
next
  case (Suc d)
  let ?E = "hps 1024 rs"
  have n: "n < 256" using Suc.hyps(2) by simp
  then have rng: "[n..<256] = n # [Suc n..<256]" by (simp add: upt_conv_Cons)
  have cnt: "m_count c ! n = length (filter (in_table n) ?E)" "counts ?E ! n = length (filter (in_table n) ?E)"
    using Suc.prems(1) n by (auto simp: tables_inv_def Let_def counts_def)
  have fill: "hash_fill (take (m_count c ! n) (drop (start ! n) split)) (replicate (m_count c ! n * 2) \<lparr>hp_h = 0, hp_p = 0\<rparr>)
      = Some (table ?E n)"
    using table_ok(1) [of ?E n] hps_used [of 1024 rs] assms(3) [OF n] by (simp add: cnt)
  obtain ok c1 where put: "put_slots (table ?E n) (set_final c n) = (ok, c1)" by fastforce
  have step: "finish_tables room [n..<256] start split c
      = (if ok then finish_tables room [Suc n..<256] start split c1 else Some (False, c1))"
    using fill put assms(4) [OF n] by (simp add: rng Let_def cnt)
  have enough: "ok" if t: "sz < 2 ^ 32" "sz \<le> stream_cap (m_b c)"
  proof -
    have "length (recs_bytes rs @ tables_bytes ?E n) + 8 * length (table ?E n) \<le> sz"
      using tables_bytes_mono [of "Suc n" 256 ?E] n by (simp add: sz_def tables_bytes_Suc)
    then show ?thesis
      using put_slots_succeeds [of "set_final c n" "table ?E n"] Suc.prems(1) t put
      by (simp add: tables_inv_def Let_def set_final_def)
  qed
  show ?case
  proof (cases ok)
    case True
    have "tables_inv rs (Suc n) c1 \<and> stream_cap (m_b c1) = stream_cap (m_b c)"
      using finish_tables_step [OF Suc.prems(1) n] put True by simp
    then show ?thesis using Suc.hyps(1) [of "Suc n" c1] Suc.hyps(2) n True by (auto simp: step)
  next
    case False
    then show ?thesis using enough by (auto simp: step)
  qed
qed

lemma finish_file_spec:
  assumes "buf_inv 1024 (m_b c)" "length (m_final c) = 1024"
  shows "fst (finish_file c) \<Longrightarrow> f_data (b_fd (m_b (snd (finish_file c)))) = m_final c @ drop 1024 (stream (m_b c))"
    "length (stream (m_b c)) + 1024 \<le> stream_cap (m_b c) \<Longrightarrow> fst (finish_file c)"
proof -
  obtain ok b where fl: "buffer_flush (m_b c) = (ok, b)" by fastforce
  note f = buffer_flush_ok [OF assms(1), unfolded fl, simplified]
  define fd where "fd = seek_set (b_fd b) 0"
  have ne: "m_final c \<noteq> []" using assms(2) by auto
  have x: "finish_file c = (let (w, fd') = allwrite fd (m_final c) in (w, c\<lparr>m_b := b\<lparr>b_fd := fd'\<rparr>\<rparr>))" if ok
  proof -
    have "b_x b = []" using f(2) that by simp
    then have "buffer_flush (b\<lparr>b_fd := fd\<rparr>) = (True, b\<lparr>b_fd := fd\<rparr>)" by (simp add: buffer_flush_def)
    then show ?thesis using that
      by (simp add: finish_file_def fl buffer_putflush_def fd_def [symmetric] split: prod.splits)
  qed
  have aw: "fst (allwrite fd (m_final c)) \<longleftrightarrow> 1024 \<le> f_room (b_fd b)"
    "fst (allwrite fd (m_final c)) \<Longrightarrow> snd (allwrite fd (m_final c)) = transfer fd (m_final c)"
    using assms(2) ne by (auto simp: allwrite_def sys_write_def Let_def min_def fd_def seek_set_def)
  have tr: "f_data (transfer fd (m_final c)) = m_final c @ drop 1024 (f_data (b_fd b))"
    using assms(2) by (simp add: transfer_def padded_def fd_def seek_set_def)
  show "f_data (b_fd (m_b (snd (finish_file c)))) = m_final c @ drop 1024 (stream (m_b c))"
    if "fst (finish_file c)"
  proof -
    have ok: ok using that by (auto simp: finish_file_def fl split: bool.splits)
    have "stream b = stream (m_b c)" "b_x b = []" using f(2) [OF ok] by auto
    then have st: "stream (m_b c) = padded (b_fd b)" by (simp add: stream_def)
    have "drop 1024 (f_data (b_fd b)) = drop 1024 (padded (b_fd b))"
      using f ok by (auto simp: buf_inv_def padded_def)
    then show ?thesis using that x [OF ok] aw(2) tr st by (simp split: prod.splits)
  qed
  show "fst (finish_file c)" if "length (stream (m_b c)) + 1024 \<le> stream_cap (m_b c)"
  proof -
    have ok: ok using f(1) that by simp
    have "stream b = stream (m_b c)" "b_x b = []" using f(2) [OF ok] by auto
    then have "stream (m_b c) = padded (b_fd b)" by (simp add: stream_def)
    then have "length (stream (m_b c)) = f_off (b_fd b)" by simp
    then have "1024 \<le> f_room (b_fd b)" using f(2) [OF ok] that by (simp add: stream_cap_def)
    then show ?thesis using x [OF ok] aw(1) by (simp split: prod.splits)
  qed
qed

text \<open>The finished file.\<close>

definition cdb_file :: "rec list \<Rightarrow> bytes" where
  "cdb_file rs =
     final_bytes (length (recs_bytes rs)) (hps 1024 rs) 256
     @ concat (map rec_bytes rs) @ tables_bytes (hps 1024 rs) 256"

definition finish_fits :: "cdb_make \<Rightarrow> rec list \<Rightarrow> bool" where
  "finish_fits c rs \<longleftrightarrow>
     length (cdb_file rs) < 2 ^ 32 \<and> length (cdb_file rs) + 1024 \<le> stream_cap (m_b c)
     \<and> length rs \<le> 178956970"

lemma cdb_file_length: "length (cdb_file rs) = length (recs_bytes rs) + length (tables_bytes (hps 1024 rs) 256)"
  by (simp add: cdb_file_def recs_bytes_def)

text \<open>The size of the allocation does not wrap, and leaves \<^verbatim>\<open>memsize\<close> slots for the largest table.\<close>

lemma recs_bytes_min: "1024 + 6 * length rs \<le> length (recs_bytes rs)"
proof -
  have "6 * length rs \<le> length (concat (map rec_bytes rs))" by (induction rs) (auto simp: rec_bytes_length)
  then show ?thesis by (simp add: recs_bytes_def)
qed

lemma hash_room:
  assumes "make_inv c rs"
  shows "(m_memsize c + m_numentries c) mod 2 ^ 32 - m_numentries c = m_memsize c"
proof -
  have "1024 + 6 * length rs < 2 ^ 32" "m_memsize c \<le> 1 + 2 * length rs" "m_numentries c = length rs"
    using assms recs_bytes_min [of rs] by (auto simp: make_inv_def)
  then show ?thesis by simp
qed

lemma cdb_make_finish_spec:
  assumes inv: "make_inv c rs"
  shows "\<exists>ok c'. cdb_make_finish c = Some (ok, c')
     \<and> (ok \<longrightarrow> f_data (b_fd (m_b c')) = cdb_file rs \<and> length (cdb_file rs) < 2 ^ 32)
     \<and> (finish_fits c rs \<longrightarrow> ok)"
proof (cases "(m_memsize c + m_numentries c) mod 2 ^ 32 > UT32_MAX div 8")
  case True
  have "\<not> finish_fits c rs"
  proof
    assume "finish_fits c rs"
    then have "m_memsize c + m_numentries c \<le> 536870911" using inv by (auto simp: finish_fits_def make_inv_def)
    then show False using True by (simp add: UT32_MAX_def)
  qed
  then show ?thesis using True by (intro exI [of _ False]) (simp add: cdb_make_finish_def)
next
  case False
  let ?E = "hps 1024 rs"
  obtain start split where sp: "split_loop (concat (map rev (m_head c))) (start_sums (m_count c) 0)
      (replicate (m_numentries c) \<lparr>hp_h = 0, hp_p = 0\<rparr>) = (start, split)" by fastforce
  have "concat (map rev (m_head c)) = rev (concat (rev (m_head c)))" by (simp add: rev_concat)
  then have sp': "split_loop (rev ?E) (start_sums (counts ?E) 0) (replicate (length ?E) \<lparr>hp_h = 0, hp_p = 0\<rparr>) = (start, split)"
    using sp inv by (simp add: make_inv_def)
  have "take (counts ?E ! i) (drop (start ! i) split) = filter (in_table i) ?E" if "i < 256" for i
    by (rule split_entries [OF counts_def sp' that])
  moreover have "tables_inv rs 0 c"
    using inv by (simp add: tables_inv_def make_inv_def Let_def tables_bytes_def final_bytes_def)
  moreover have "counts ?E ! i * 2 \<le> (m_memsize c + m_numentries c) mod 2 ^ 32 - m_numentries c" if "i < 256" for i
    unfolding hash_room [OF inv] using inv that by (auto simp: make_inv_def)
  ultimately obtain ok c1 where t: "finish_tables ((m_memsize c + m_numentries c) mod 2 ^ 32 - m_numentries c) [0..<256] start split c = Some (ok, c1)"
    "ok \<Longrightarrow> tables_inv rs 256 c1 \<and> stream_cap (m_b c1) = stream_cap (m_b c)"
    "length (cdb_file rs) < 2 ^ 32 \<and> length (cdb_file rs) \<le> stream_cap (m_b c) \<Longrightarrow> ok"
    using finish_tables_spec [of rs 0 c start split "(m_memsize c + m_numentries c) mod 2 ^ 32 - m_numentries c"] by (auto simp: cdb_file_length)
  obtain ok2 c2 where ff: "finish_file c1 = (ok2, c2)" by fastforce
  have fin: "cdb_make_finish c = Some (ok \<and> ok2, cdb_make_cancel (if ok then c2 else c1))"
    using False sp t(1) ff by (cases ok) (auto simp: cdb_make_finish_def Let_def)
  show ?thesis
  proof (cases ok)
    case True
    have i: "buf_inv 1024 (m_b c1)" "length (m_final c1) = 1024" "m_final c1 = final_bytes (length (recs_bytes rs)) ?E 256"
      "stream (m_b c1) = recs_bytes rs @ tables_bytes ?E 256" "length (cdb_file rs) < 2 ^ 32"
      using t(2) [OF True] by (auto simp: tables_inv_def Let_def cdb_file_length)
    have "f_data (b_fd (m_b c2)) = cdb_file rs" if ok2
      using finish_file_spec(1) [OF i(1,2)] ff that i(3,4) by (simp add: cdb_file_def recs_bytes_def)
    moreover have ok2 if "finish_fits c rs"
      using finish_file_spec(2) [OF i(1,2)] ff that i(4) t(2) [OF True] cdb_file_length [of rs]
      by (simp add: finish_fits_def)
    ultimately show ?thesis using fin True i(5) by (auto simp: cdb_make_cancel_def)
  next
    case False
    have ok if "finish_fits c rs"
      by (rule t(3)) (use that in \<open>simp add: finish_fits_def\<close>)
    then show ?thesis using fin False by (intro exI [of _ False]) auto
  qed
qed

end
