(* ===== verification/Cdb.thy ===== *)
theory Cdb
  imports Cdb_Make
begin

text \<open>
  Reading a constant database: \<^verbatim>\<open>src/cdb.c\<close>.

  \<^item> \<open>cdb\<close> is the struct.  The descriptor stands for the contents of the open file (\<open>None\<close>
    for -1) and \<open>c_map\<close> for the mapped contents (\<open>None\<close> for NULL).  Mapping succeeds.
  \<^item> \<open>cdb_findnext\<close> returns the C result (1 found, 0 not found, -1 error) and the struct.

  The theorems of the second part show that the reader finds in a finished file exactly
  what the writer of \<open>Cdb_Make\<close> put there.
\<close>

section \<open>Operations\<close>

definition CDB_MAX_VALUE :: nat where
  "CDB_MAX_VALUE = 16777215"

record cdb =
  c_map :: "bytes option"
  c_fd :: "bytes option"
  c_size :: nat
  c_loop :: nat
  c_khash :: nat
  c_kpos :: nat
  c_hpos :: nat
  c_hslots :: nat
  c_dpos :: nat
  c_dlen :: nat

definition cdb_read :: "cdb \<Rightarrow> nat \<Rightarrow> nat \<Rightarrow> bytes option" where
  "cdb_read c len pos =
     (case c_map c of
        Some m \<Rightarrow>
          if pos > c_size c \<or> c_size c - pos < len then None else Some (take len (drop pos m))
      | None \<Rightarrow>
          (case c_fd c of
             None \<Rightarrow> None
           | Some f \<Rightarrow>
               if len = 0 then Some []
               else let r = take len (drop pos f) in if length r = len then Some r else None))"

definition cdb_getkvlen :: "cdb \<Rightarrow> nat \<Rightarrow> bool \<times> nat \<times> nat" where
  "cdb_getkvlen c pos =
     (case cdb_read c 4 pos of
        None \<Rightarrow> (False, 0, 0)
      | Some buf \<Rightarrow>
          let klen = of_char (buf ! 0);
              vlen = of_char (buf ! 1) + of_char (buf ! 2) * 256 + of_char (buf ! 3) * 65536
          in if vlen > CDB_MAX_VALUE then (False, klen, CDB_MAX_VALUE) else (True, klen, vlen))"

definition cdb_fini :: "cdb \<Rightarrow> cdb" where
  "cdb_fini c = (case c_map c of None \<Rightarrow> c | Some m \<Rightarrow> c\<lparr>c_map := None\<rparr>)"

definition cdb_findstart :: "cdb \<Rightarrow> cdb" where
  "cdb_findstart c = c\<lparr>c_loop := 0\<rparr>"

definition cdb_init :: "cdb \<Rightarrow> bytes option \<Rightarrow> bool \<times> cdb" where
  "cdb_init c fd =
     (let c = cdb_findstart (c\<lparr>c_fd := fd\<rparr>) in
      case fd of
        Some f \<Rightarrow>
          if length f > 4 then (True, c\<lparr>c_map := Some f, c_size := length f mod 2 ^ 32\<rparr>)
          else (False, c\<lparr>c_map := None, c_size := 0\<rparr>)
      | None \<Rightarrow> (False, c\<lparr>c_map := None, c_size := 0\<rparr>))"

text \<open>\<^verbatim>\<open>match\<close> compares in pieces of 32 bytes.\<close>

function match_key :: "cdb \<Rightarrow> bytes \<Rightarrow> nat \<Rightarrow> int" where
  "match_key c key pos =
     (if key = [] then 1
      else let n = min (length key) 32 in
        case cdb_read c n pos of
          None \<Rightarrow> -1
        | Some buf \<Rightarrow>
            if buf \<noteq> take n key then 0 else match_key c (drop n key) ((pos + n) mod 2 ^ 32))"
  by pat_completeness auto
termination
  by (relation "measure (\<lambda>(c, key, pos). length key)") auto

declare match_key.simps [simp del]

function find_loop :: "cdb \<Rightarrow> string \<Rightarrow> int \<times> cdb" where
  "find_loop c key =
     (if c_loop c < c_hslots c then
        (case cdb_read c 8 (c_kpos c) of
           None \<Rightarrow> (0, c)
         | Some buf \<Rightarrow>
             let pos = ut32_unpack (drop 4 buf) in
             if pos = 0 then (0, c)
             else
               let kpos = (c_kpos c + 8) mod 2 ^ 32;
                   kpos = (if kpos = (c_hpos c + c_hslots c * 8) mod 2 ^ 32 then c_hpos c else kpos);
                   c = c\<lparr>c_loop := c_loop c + 1, c_kpos := kpos\<rparr>
               in if ut32_unpack buf = c_khash c then
                    (case cdb_getkvlen c pos of
                       (ok, u, dlen) \<Rightarrow>
                         let c = c\<lparr>c_dlen := dlen\<rparr>; len = length key + 1 in
                         if \<not> ok \<or> u = 0 then (-1, c)
                         else if u = len then
                           (let m = match_key c (key @ [NUL]) ((pos + KVLSZ) mod 2 ^ 32) in
                            if m = -1 then (0, c)
                            else if m = 1 then (1, c\<lparr>c_dpos := (pos + KVLSZ + len) mod 2 ^ 32\<rparr>)
                            else find_loop c key)
                         else find_loop c key)
                  else find_loop c key)
      else (0, c))"
  by pat_completeness auto
termination
  by (relation "measure (\<lambda>(c, key). c_hslots c - c_loop c)") (auto simp: Let_def intro: diff_less_mono2)

declare find_loop.simps [simp del]

text \<open>The first search for a key (\<^verbatim>\<open>loop\<close> is 0) reads the place and the size of the table.\<close>

definition find_first :: "cdb \<Rightarrow> nat \<Rightarrow> int option \<times> cdb" where
  "find_first c u =
     (let bufsz = (if (u + 1) mod 256 \<noteq> 0 then 8 else 4) in
      case cdb_read c bufsz (u * 4 mod 1024) of
        None \<Rightarrow> (Some (-1), c)
      | Some buf \<Rightarrow>
          let c = c\<lparr>c_hpos := ut32_unpack buf\<rparr>;
              pos = (if bufsz = 8 then ut32_unpack (drop 4 buf) else c_size c)
          in if pos < c_hpos c then (Some (-1), c)
             else
               let c = c\<lparr>c_hslots := (pos - c_hpos c) div 8\<rparr> in
               if c_hslots c = 0 then (Some 0, c)
               else (None, c\<lparr>c_khash := u,
                             c_kpos := (c_hpos c + u div 256 mod c_hslots c * 8) mod 2 ^ 32\<rparr>))"

definition cdb_findnext :: "cdb \<Rightarrow> nat \<Rightarrow> string \<Rightarrow> int \<times> cdb" where
  "cdb_findnext c u key =
     (if c_fd c = None then (-1, c)
      else
        let c = c\<lparr>c_hslots := 0\<rparr> in
        if c_loop c = 0 then
          (case find_first c u of
             (Some r, c) \<Rightarrow> (r, c)
           | (None, c) \<Rightarrow> find_loop c key)
        else find_loop c key)"

section \<open>Reading what was written\<close>

text \<open>A struct that maps the file \<open>F\<close>.\<close>

definition maps_file :: "cdb \<Rightarrow> bytes \<Rightarrow> bool" where
  "maps_file c F \<longleftrightarrow> c_map c = Some F \<and> c_fd c = Some F \<and> c_size c = length F \<and> length F < 2 ^ 32"

lemma read_maps:
  assumes "maps_file c F" "pos + len \<le> length F"
  shows "cdb_read c len pos = Some (take len (drop pos F))"
  using assms by (auto simp: maps_file_def cdb_read_def)

lemma read_at:
  assumes "maps_file c (A @ X @ B)" shows "cdb_read c (length X) (length A) = Some X"
  using read_maps [OF assms, of "length A" "length X"] by simp

lemma drop_prefix: "n = length xs \<Longrightarrow> drop n (xs @ ys) = ys"
  by simp

lemma match_key_Nil [simp]: "match_key c [] pos = 1"
  by (simp add: match_key.simps)

lemma match_key_spec:
  assumes "maps_file c F" "pos + length ks \<le> length F"
  shows "match_key c ks pos = (if take (length ks) (drop pos F) = ks then 1 else 0)"
  using assms
proof (induction c ks pos rule: match_key.induct)
  case (1 c ks pos)
  show ?case
  proof (cases "ks = []")
    case True
    then show ?thesis by (simp add: match_key.simps)
  next
    case False
    define n where "n = min (length ks) 32"
    have n: "n \<le> length ks" "0 < n" using False by (auto simp: n_def)
    have rd: "cdb_read c n pos = Some (take n (drop pos F))"
      using read_maps [OF 1(2), of pos n] 1(3) n by simp
    have lt: "length F < 2 ^ 32" using 1(2) by (simp add: maps_file_def)
    have pos: "(pos + n) mod 2 ^ 32 = pos + n \<or> drop n ks = [] "
      using 1(3) n lt by (cases "pos + n < 2 ^ 32") auto
    have step: "match_key c ks pos = (if take n (drop pos F) \<noteq> take n ks then 0
        else match_key c (drop n ks) ((pos + n) mod 2 ^ 32))"
      using False rd by (subst match_key.simps) (simp add: Let_def n_def [symmetric])
    have sp: "take (length ks) (drop pos F) = take n (drop pos F) @ take (length ks - n) (drop (pos + n) F)"
      using n by (metis add.commute drop_drop le_add_diff_inverse take_add)
    have eq: "take (length ks) (drop pos F) = ks \<longleftrightarrow>
        take n (drop pos F) = take n ks \<and> take (length ks - n) (drop (pos + n) F) = drop n ks"
      unfolding sp using n 1(3) by (metis append_eq_conv_conj append_take_drop_id length_take min.absorb2
          length_drop le_diff_conv2 trans_le_add1 add.commute add_leD1 add_le_imp_le_diff order_trans)
    show ?thesis
    proof (cases "take n (drop pos F) = take n ks")
      case True
      have "match_key c (drop n ks) ((pos + n) mod 2 ^ 32)
          = (if take (length ks - n) (drop (pos + n) F) = drop n ks then 1 else 0)"
      proof (cases "drop n ks = []")
        case False
        then have "(pos + n) mod 2 ^ 32 = pos + n" using pos by blast
        then show ?thesis using 1(1) [OF \<open>ks \<noteq> []\<close> n_def rd] True 1(2,3) n by simp
      qed simp
      then show ?thesis using step True eq by simp
    next
      case False
      then show ?thesis using eq step by auto
    qed
  qed
qed

subsection \<open>Records\<close>

fun rec_at :: "nat \<Rightarrow> rec list \<Rightarrow> nat \<Rightarrow> rec option" where
  "rec_at pos [] p = None"
| "rec_at pos (r # rs) p = (if p = pos then Some r else rec_at (pos + length (rec_bytes r)) rs p)"

lemma hps_ge: "e \<in> set (hps pos rs) \<Longrightarrow> pos \<le> hp_p e"
proof (induction rs arbitrary: pos)
  case (Cons r rs)
  then show ?case using Cons.IH [of "pos + length (rec_bytes r)"] by (auto dest: add_leD1)
qed simp

lemma hps_rec:
  assumes "e \<in> set (hps pos rs)"
  shows "\<exists>r A B. rec_at pos rs (hp_p e) = Some r \<and> r \<in> set rs \<and> hp_h e = unat (sdb_hash (fst r))
     \<and> concat (map rec_bytes rs) = A @ rec_bytes r @ B \<and> hp_p e = pos + length A"
  using assms
proof (induction rs arbitrary: pos)
  case (Cons r rs)
  show ?case
  proof (cases "e \<in> set (hps (pos + length (rec_bytes r)) rs)")
    case True
    obtain q A B where q: "rec_at (pos + length (rec_bytes r)) rs (hp_p e) = Some q" "q \<in> set rs"
      "hp_h e = unat (sdb_hash (fst q))" "concat (map rec_bytes rs) = A @ rec_bytes q @ B"
      "hp_p e = pos + length (rec_bytes r) + length A"
      using Cons.IH [OF True] by blast
    have "hp_p e \<noteq> pos" using hps_ge [OF True] rec_bytes_length [of r] by simp
    then show ?thesis using q by (intro exI [of _ q] exI [of _ "rec_bytes r @ A"] exI [of _ B]) auto
  next
    case False
    then have "e = \<lparr>hp_h = unat (sdb_hash (fst r)), hp_p = pos\<rparr>" using Cons.prems by simp
    then show ?thesis by (intro exI [of _ r] exI [of _ "[]"] exI [of _ "concat (map rec_bytes rs)"]) auto
  qed
qed simp

text \<open>The first entry whose record has a given key is that of the first record with it.\<close>

definition has_key :: "rec list \<Rightarrow> string \<Rightarrow> cdb_hp \<Rightarrow> bool" where
  "has_key rs k e \<longleftrightarrow> map_option fst (rec_at 1024 rs (hp_p e)) = Some k"

lemma find_hps:
  "map_option (\<lambda>e. the (rec_at pos rs (hp_p e))) (List.find (\<lambda>e. map_option fst (rec_at pos rs (hp_p e)) = Some k) (hps pos rs))
   = map_option (Pair k) (map_of rs k)"
proof (induction rs arbitrary: pos)
  case (Cons r rs)
  let ?p = "pos + length (rec_bytes r)"
  have ne: "hp_p e \<noteq> pos" if "e \<in> set (hps ?p rs)" for e
    using hps_ge [OF that] rec_bytes_length [of r] by simp
  have "List.find (\<lambda>e. map_option fst (rec_at pos (r # rs) (hp_p e)) = Some k) (hps ?p rs)
      = List.find (\<lambda>e. map_option fst (rec_at ?p rs (hp_p e)) = Some k) (hps ?p rs)"
    by (rule find_cong) (auto simp: ne)
  moreover have "map_option (\<lambda>e. the (rec_at pos (r # rs) (hp_p e))) (List.find P (hps ?p rs))
      = map_option (\<lambda>e. the (rec_at ?p rs (hp_p e))) (List.find P (hps ?p rs))" for P
    by (rule option.map_cong0) (auto simp: ne find_Some_iff)
  ultimately show ?case using Cons.IH [of ?p] by (cases r) auto
qed simp

lemma find_filter_same: "(\<And>x. x \<in> set xs \<Longrightarrow> P x \<Longrightarrow> Q x) \<Longrightarrow> List.find P (filter Q xs) = List.find P xs"
  by (induction xs) auto

lemma find_has_key:
  "map_option (\<lambda>e. the (rec_at 1024 rs (hp_p e)))
     (List.find (has_key rs k) (filter (\<lambda>e. hp_h e = unat (sdb_hash k)) (hps 1024 rs)))
   = map_option (Pair k) (map_of rs k)"
proof -
  have "List.find (has_key rs k) (filter (\<lambda>e. hp_h e = unat (sdb_hash k)) (hps 1024 rs))
      = List.find (has_key rs k) (hps 1024 rs)"
    by (rule find_filter_same) (use hps_rec in \<open>fastforce simp: has_key_def\<close>)
  then show ?thesis using find_hps [of 1024 rs k] by (simp add: has_key_def [abs_def])
qed

subsection \<open>Slots\<close>

lemma hash_fill_set: "hash_fill es T = Some T' \<Longrightarrow> set T' \<subseteq> set T \<union> set es"
proof (induction es arbitrary: T)
  case (Cons e es)
  obtain w where "hash_fill es (T[w := e]) = Some T'" using Cons.prems by (auto split: option.splits)
  from Cons.IH [OF this] show ?case using set_update_subset_insert [of T w e] by auto
qed simp

lemma table_slot:
  assumes "\<forall>e \<in> set E. used_slot e" "x \<in> set (table E i)"
  shows "x = \<lparr>hp_h = 0, hp_p = 0\<rparr> \<or> x \<in> set E"
  using hash_fill_set [OF table_ok(1) [OF assms(1), of i]] assms(2) by auto

lemma slots_split:
  "w < length T \<Longrightarrow> \<exists>A B. slots_bytes T = A @ slot_bytes (T ! w) @ B \<and> length A = 8 * w"
proof -
  assume w: "w < length T"
  have "slots_bytes T = slots_bytes (take w T @ T ! w # drop (Suc w) T)"
    using id_take_nth_drop [OF w] by argo
  then have "slots_bytes T = slots_bytes (take w T) @ slot_bytes (T ! w) @ slots_bytes (drop (Suc w) T)"
    by (simp add: slots_bytes_def)
  moreover have "length (slots_bytes (take w T)) = 8 * w" using w by simp
  ultimately show ?thesis by blast
qed

lemma slot_unpack:
  assumes "hp_h x < 2 ^ 32" "hp_p x < 2 ^ 32"
  shows "ut32_unpack (slot_bytes x) = hp_h x" "ut32_unpack (drop 4 (slot_bytes x)) = hp_p x"
  using assms by (simp_all add: slot_bytes_def ut32_unpack_pack_append ut32_unpack_pack)

lemma kvlen_bytes_length [simp]: "length (kvlen_bytes k v) = 4"
  by (simp add: kvlen_bytes_def)

lemma kvlen_read:
  assumes "maps_file c F" "F = A @ rec_bytes r @ B" "rec_ok r"
  shows "cdb_getkvlen c (length A) = (True, length (fst r) + 1, length (snd r) + 1)"
proof -
  let ?k = "length (fst r) + 1" and ?v = "length (snd r) + 1"
  have rd: "cdb_read c 4 (length A) = Some (kvlen_bytes ?k ?v)"
    using read_at [of c A "kvlen_bytes ?k ?v" "(fst r @ [NUL] @ snd r @ [NUL]) @ B"] assms(1,2)
    by (simp add: rec_bytes_def)
  have k: "?k < 256" and v: "?v < 16777216"
    using assms(3) by (auto simp: rec_ok_def SDB_MAX_KEY_def SDB_MAX_VALUE_def)
  have "?v mod 256 + ?v div 256 mod 256 * 256 + ?v div 65536 mod 256 * 65536 = ?v"
    using base256_digits [of ?v] v by (simp add: algebra_simps)
  moreover have "?v div 65536 mod 256 = ?v div 65536"
    using v by (simp add: less_mult_imp_div_less)
  ultimately show ?thesis using k assms(3)
    by (simp add: cdb_getkvlen_def rd kvlen_bytes_def Let_def CDB_MAX_VALUE_def rec_ok_def SDB_MAX_VALUE_def
        del: of_char_of) (simp add: of_char_of)
qed

lemma match_read:
  assumes "maps_file c F" "F = A @ rec_bytes r @ B" "length (fst r) = length key"
  shows "match_key c (key @ [NUL]) (length A + KVLSZ) = (if fst r = key then 1 else 0)"
proof -
  let ?k = "kvlen_bytes (length (fst r) + 1) (length (snd r) + 1)"
  have F: "F = (A @ ?k) @ (fst r @ [NUL]) @ (snd r @ [NUL] @ B)" using assms(2) by (simp add: rec_bytes_def)
  have l: "length (A @ ?k) = length A + KVLSZ" by (simp add: KVLSZ_def)
  have "drop (length A + KVLSZ) F = (fst r @ [NUL]) @ (snd r @ [NUL] @ B)"
    unfolding F by (rule drop_prefix) (simp only: l)
  then have "take (length (key @ [NUL])) (drop (length A + KVLSZ) F) = fst r @ [NUL]"
    using assms(3) by simp
  moreover have "length A + KVLSZ + length (key @ [NUL]) \<le> length F"
    unfolding l [symmetric] F using assms(3) by simp
  ultimately show ?thesis using match_key_spec [OF assms(1)] by simp
qed

subsection \<open>The search\<close>

lemma file_rec:
  assumes "e \<in> set (hps 1024 rs)"
  shows "\<exists>r A B. rec_at 1024 rs (hp_p e) = Some r \<and> r \<in> set rs \<and> hp_h e = unat (sdb_hash (fst r))
     \<and> cdb_file rs = A @ rec_bytes r @ B \<and> hp_p e = length A"
proof -
  let ?f = "final_bytes (length (recs_bytes rs)) (hps 1024 rs) 256" and ?t = "tables_bytes (hps 1024 rs) 256"
  obtain r A B where r: "rec_at 1024 rs (hp_p e) = Some r" "r \<in> set rs" "hp_h e = unat (sdb_hash (fst r))"
    "concat (map rec_bytes rs) = A @ rec_bytes r @ B" "hp_p e = 1024 + length A"
    using hps_rec [OF assms] by blast
  have "cdb_file rs = (?f @ A) @ rec_bytes r @ (B @ ?t)" "hp_p e = length (?f @ A)"
    using r by (simp_all add: cdb_file_def)
  then show ?thesis using r by blast
qed

text \<open>The state of a search that began at slot \<open>s\<close> of the table \<open>T\<close> and has seen \<open>d\<close> slots.\<close>

definition searching :: "cdb \<Rightarrow> bytes \<Rightarrow> cdb_hp list \<Rightarrow> nat \<Rightarrow> nat \<Rightarrow> nat \<Rightarrow> nat \<Rightarrow> bool" where
  "searching c F T hpos u s d \<longleftrightarrow>
     maps_file c F \<and> c_hslots c = length T \<and> c_hpos c = hpos \<and> c_khash c = u \<and> c_loop c = d
     \<and> c_kpos c = hpos + 8 * ((s + d) mod length T)"

lemma next_kpos:
  assumes "w < n" "hpos + 8 * n < 2 ^ 32"
  shows "(if (hpos + 8 * w + 8) mod 2 ^ 32 = (hpos + n * 8) mod 2 ^ 32 then hpos else (hpos + 8 * w + 8) mod 2 ^ 32)
     = hpos + 8 * (Suc w mod n)"
proof -
  have "hpos + 8 * w + 8 < 2 ^ 32" "hpos + n * 8 < 2 ^ 32" using assms by linarith+
  then have "(hpos + 8 * w + 8) mod 2 ^ 32 = hpos + 8 * w + 8" "(hpos + n * 8) mod 2 ^ 32 = hpos + n * 8"
    by (simp_all only: mod_less)
  then show ?thesis using assms(1) by (auto simp: mod_Suc)
qed

definition found_at :: "rec list \<Rightarrow> string \<Rightarrow> bytes \<Rightarrow> cdb_hp option \<Rightarrow> int \<times> cdb \<Rightarrow> bool" where
  "found_at rs key F e res \<longleftrightarrow>
     (case e of
        None \<Rightarrow> fst res = 0
      | Some e \<Rightarrow> fst res = 1 \<and> maps_file (snd res) F
          \<and> c_dpos (snd res) = hp_p e + KVLSZ + (length key + 1)
          \<and> c_dlen (snd res) = length (snd (the (rec_at 1024 rs (hp_p e)))) + 1)"

text \<open>One round of the loop on a used slot whose record is \<open>r\<close>.\<close>

lemma find_loop_round:
  assumes lt: "c_loop c < c_hslots c" and rd: "cdb_read c 8 (c_kpos c) = Some (slot_bytes x)"
    and un: "ut32_unpack (slot_bytes x) = hp_h x" "ut32_unpack (drop 4 (slot_bytes x)) = hp_p x" "hp_p x \<noteq> 0"
    and F: "maps_file c F" "F = A @ rec_bytes r @ B" "hp_p x = length A" "rec_ok r"
    and kpos: "(if (c_kpos c + 8) mod 2 ^ 32 = (c_hpos c + c_hslots c * 8) mod 2 ^ 32 then c_hpos c
        else (c_kpos c + 8) mod 2 ^ 32) = kpos"
  defines "c1 \<equiv> c\<lparr>c_loop := c_loop c + 1, c_kpos := kpos\<rparr>"
  defines "c2 \<equiv> c1\<lparr>c_dlen := length (snd r) + 1\<rparr>"
  shows "find_loop c key =
    (if hp_h x = c_khash c then
       if fst r = key then (1, c2\<lparr>c_dpos := hp_p x + KVLSZ + (length key + 1)\<rparr>) else find_loop c2 key
     else find_loop c1 key)"
proof -
  have m: "maps_file c1 F" "maps_file c2 F" using F(1) by (auto simp: c1_def c2_def maps_file_def)
  have kv: "cdb_getkvlen c1 (hp_p x) = (True, length (fst r) + 1, length (snd r) + 1)"
    using kvlen_read [OF m(1) F(2,4)] F(3) by simp
  have lF: "length F < 2 ^ 32" using F(1) by (simp add: maps_file_def)
  have lr: "length A + KVLSZ + (length (fst r) + 1) \<le> length F"
    using F(2) by (simp add: rec_bytes_length KVLSZ_def)
  have pm: "(hp_p x + KVLSZ) mod 2 ^ 32 = length A + KVLSZ"
    unfolding F(3) by (rule mod_less) (use lr lF in linarith)
  have pm2: "(hp_p x + KVLSZ + (length key + 1)) mod 2 ^ 32 = hp_p x + KVLSZ + (length key + 1)" if "fst r = key"
    unfolding F(3) by (rule mod_less) (use lr lF that in simp)
  have mt: "match_key c2 (key @ [NUL]) ((hp_p x + KVLSZ) mod 2 ^ 32) = (if fst r = key then 1 else 0)"
    if "length (fst r) = length key"
    unfolding pm by (rule match_read [OF m(2) F(2) that])
  have "find_loop c key = (if hp_h x = c_khash c then
      if length (fst r) + 1 = length key + 1 then
        let m = match_key c2 (key @ [NUL]) ((hp_p x + KVLSZ) mod 2 ^ 32) in
        if m = -1 then (0, c2)
        else if m = 1 then (1, c2\<lparr>c_dpos := (hp_p x + KVLSZ + (length key + 1)) mod 2 ^ 32\<rparr>)
        else find_loop c2 key
      else find_loop c2 key
    else find_loop c1 key)"
    using lt by (subst find_loop.simps)
      (simp only: rd un kpos Let_def option.case if_True if_False kv [unfolded c1_def] prod.case
        c1_def c2_def simp_thms Suc_eq_plus1 cdb.select_convs, simp add: c1_def c2_def)
  then show ?thesis using mt pm2 by (auto simp: Let_def)
qed

lemma find_loop_spec:
  assumes ok: "\<forall>r \<in> set rs. rec_ok r" and F: "F = cdb_file rs" "F = A @ slots_bytes T @ B" "length A = hpos"
    and T: "\<forall>x \<in> set T. x = \<lparr>hp_h = 0, hp_p = 0\<rparr> \<or> x \<in> set (hps 1024 rs)" "0 < length T"
    and c: "searching c F T hpos u s d" "d \<le> length T"
  shows "found_at rs key F
     (List.find (has_key rs key) (filter (\<lambda>x. hp_h x = u) (takeWhile used_slot (drop d (rotate s T))))) (find_loop c key)"
  using c
proof (induction "length T - d" arbitrary: c d)
  case 0
  then show ?case by (subst find_loop.simps) (simp add: searching_def found_at_def)
next
  case (Suc m)
  define w where "w = (s + d) mod length T"
  define x where "x = T ! w"
  have d: "d < length T" using Suc.hyps(2) by simp
  have w: "w < length T" using T(2) by (simp add: w_def)
  have xr: "drop d (rotate s T) = x # drop (Suc d) (rotate s T)"
    using Cons_nth_drop_Suc [of d "rotate s T"] d by (simp add: nth_rotate x_def w_def)
  have mf: "maps_file c F" and cs: "c_hslots c = length T" "c_hpos c = hpos" "c_khash c = u" "c_loop c = d"
    "c_kpos c = hpos + 8 * w" using Suc.prems(1) by (auto simp: searching_def w_def)
  have lF: "length F < 2 ^ 32" using mf by (simp add: maps_file_def)
  have top: "hpos + 8 * length T \<le> length F" using F(2,3) by simp
  obtain P Q where PQ: "slots_bytes T = P @ slot_bytes x @ Q" "length P = 8 * w"
    using slots_split [OF w] by (auto simp: x_def)
  have rd: "cdb_read c 8 (c_kpos c) = Some (slot_bytes x)"
    using read_at [of c "A @ P" "slot_bytes x" "Q @ B"] mf F(2,3) PQ cs
    by (simp add: slot_bytes_def)
  have xT: "x = \<lparr>hp_h = 0, hp_p = 0\<rparr> \<or> x \<in> set (hps 1024 rs)" using T(1) w by (simp add: x_def)
  show ?case
  proof (cases "hp_p x = 0")
    case True
    then have "x = \<lparr>hp_h = 0, hp_p = 0\<rparr>" using xT hps_ge by fastforce
    then have "ut32_unpack (drop 4 (slot_bytes x)) = 0" by (simp add: slot_unpack)
    then show ?thesis using rd cs d True xr by (subst find_loop.simps) (simp add: found_at_def)
  next
    case False
    then have xE: "x \<in> set (hps 1024 rs)" using xT by auto
    obtain r A' B' where r: "rec_at 1024 rs (hp_p x) = Some r" "r \<in> set rs" "hp_h x = unat (sdb_hash (fst r))"
      "F = A' @ rec_bytes r @ B'" "hp_p x = length A'" using file_rec [OF xE] F(1) by blast
    have lt: "hp_h x < 2 ^ 32" "hp_p x < 2 ^ 32"
      using r lF unsigned_less [where ?'a = nat, of "sdb_hash (fst r)"] by auto
    note un = slot_unpack [OF lt]
    have kpos: "(if (c_kpos c + 8) mod 2 ^ 32 = (c_hpos c + c_hslots c * 8) mod 2 ^ 32 then c_hpos c
        else (c_kpos c + 8) mod 2 ^ 32) = hpos + 8 * (Suc w mod length T)"
      unfolding cs using next_kpos [OF w, of hpos] top lF by linarith
    have rok: "rec_ok r" using ok r(2) by blast
    have nx: "Suc w mod length T = (s + Suc d) mod length T" by (simp add: w_def mod_Suc_eq)
    define c1 where "c1 = c\<lparr>c_loop := Suc d, c_kpos := hpos + 8 * (Suc w mod length T)\<rparr>"
    define c2 where "c2 = c1\<lparr>c_dlen := length (snd r) + 1\<rparr>"
    have round: "find_loop c key = (if hp_h x = u then
       if fst r = key then (1, c2\<lparr>c_dpos := hp_p x + KVLSZ + (length key + 1)\<rparr>) else find_loop c2 key
     else find_loop c1 key)"
      using find_loop_round [OF _ rd un False mf r(4,5) rok kpos, of key] d cs by (simp add: c1_def c2_def)
    have se: "searching c1 F T hpos u s (Suc d)" "searching c2 F T hpos u s (Suc d)"
      using Suc.prems(1) by (auto simp: searching_def c1_def c2_def nx maps_file_def)
    have ih: "found_at rs key F (List.find (has_key rs key) (filter (\<lambda>x. hp_h x = u)
        (takeWhile used_slot (drop (Suc d) (rotate s T))))) (find_loop c' key)" if "c' \<in> {c1, c2}" for c'
      using Suc.hyps(1) [of "Suc d" c'] Suc.hyps(2) d se that by auto
    have hk: "has_key rs key x \<longleftrightarrow> fst r = key" using r(1) by (simp add: has_key_def)
    have m2: "maps_file c2 F" using mf by (simp add: maps_file_def c1_def c2_def)
    show ?thesis
    proof (cases "hp_h x = u \<and> fst r = key")
      case True
      then show ?thesis unfolding round using m2 xr False hk r(1)
        by (simp add: found_at_def maps_file_def) (simp add: c2_def)
    next
      case F': False
      then have "List.find (has_key rs key) (filter (\<lambda>x. hp_h x = u) (takeWhile used_slot (drop d (rotate s T))))
          = List.find (has_key rs key) (filter (\<lambda>x. hp_h x = u) (takeWhile used_slot (drop (Suc d) (rotate s T))))"
        using xr False hk by auto
      then show ?thesis unfolding round using ih [of c1] ih [of c2] F' by auto
    qed
  qed
qed

subsection \<open>Looking up a key\<close>

definition table_pos :: "rec list \<Rightarrow> nat \<Rightarrow> nat" where
  "table_pos rs i = length (recs_bytes rs) + length (tables_bytes (hps 1024 rs) i)"

lemma upt_split: "i < n \<Longrightarrow> [0..<n] = [0..<i] @ i # [Suc i..<n]"
  by (metis le_add_diff_inverse less_imp_le_nat upt_add_eq_append upt_conv_Cons zero_le)

lemma final_split:
  assumes "i < 256"
  shows "\<exists>A B. cdb_file rs = A @ ut32_pack (table_pos rs i) @ B \<and> length A = 4 * i
     \<and> (i < 255 \<longrightarrow> take 4 B = ut32_pack (table_pos rs (Suc i)))"
proof -
  let ?base = "length (recs_bytes rs)" and ?E = "hps 1024 rs"
  define pk where "pk = (\<lambda>i. ut32_pack (table_pos rs i))"
  have fin: "final_bytes ?base ?E n = concat (map pk [0..<n])" for n
    by (simp add: final_bytes_def pk_def table_pos_def)
  have sp: "final_bytes ?base ?E 256 = final_bytes ?base ?E i @ pk i @ concat (map pk [Suc i..<256])"
    unfolding fin upt_split [OF assms] by simp
  define B where "B = concat (map pk [Suc i..<256]) @ concat (map rec_bytes rs) @ tables_bytes ?E 256"
  have "take 4 B = pk (Suc i)" if "i < 255"
    using that by (simp add: B_def upt_conv_Cons pk_def)
  then show ?thesis
    by (intro exI [of _ "final_bytes ?base ?E i"] exI [of _ B]) (auto simp: cdb_file_def sp B_def pk_def)
qed

lemma table_split:
  assumes "i < 256"
  shows "\<exists>A B. cdb_file rs = A @ slots_bytes (table (hps 1024 rs) i) @ B \<and> length A = table_pos rs i"
proof -
  let ?E = "hps 1024 rs"
  have "tables_bytes ?E 256 = tables_bytes ?E i @ slots_bytes (table ?E i)
      @ concat (map (\<lambda>i. slots_bytes (table ?E i)) [Suc i..<256])"
    unfolding tables_bytes_def upt_split [OF assms] by simp
  then show ?thesis
    by (intro exI [of _ "final_bytes (length (recs_bytes rs)) ?E 256 @ concat (map rec_bytes rs) @ tables_bytes ?E i"]
        exI [of _ "concat (map (\<lambda>i. slots_bytes (table ?E i)) [Suc i..<256])"])
       (simp add: cdb_file_def table_pos_def recs_bytes_def)
qed

lemma table_pos_Suc: "table_pos rs (Suc i) = table_pos rs i + 8 * length (table (hps 1024 rs) i)"
  by (simp add: table_pos_def tables_bytes_Suc)

lemma table_pos_256: "table_pos rs 256 = length (cdb_file rs)"
  by (simp add: table_pos_def cdb_file_length)

lemma table_pos_le: "i \<le> 256 \<Longrightarrow> table_pos rs i \<le> length (cdb_file rs)"
  using tables_bytes_mono [of i 256 "hps 1024 rs"] by (simp add: table_pos_def cdb_file_length)

lemma find_first_spec:
  assumes m: "maps_file c (cdb_file rs)" and u: "u mod 256 = i"
  defines "n \<equiv> length (table (hps 1024 rs) i)"
  defines "c1 \<equiv> c\<lparr>c_hpos := table_pos rs i, c_hslots := n\<rparr>"
  shows "find_first c u =
    (if n = 0 then (Some 0, c1)
     else (None, c1\<lparr>c_khash := u, c_kpos := table_pos rs i + 8 * (u div 256 mod n)\<rparr>))"
proof -
  let ?F = "cdb_file rs" and ?p = "table_pos rs"
  have i: "i < 256" using u by auto
  obtain A B where AB: "?F = A @ ut32_pack (?p i) @ B" "length A = 4 * i" "i < 255 \<Longrightarrow> take 4 B = ut32_pack (?p (Suc i))"
    using final_split [OF i] by blast
  have lF: "length ?F < 2 ^ 32" using m by (simp add: maps_file_def)
  have lt: "?p j < 2 ^ 32" if "j \<le> 256" for j using table_pos_le [OF that, of rs] lF by linarith
  have at: "u * 4 mod 1024 = 4 * i" using u mod_mult_mult2 [of u 4 256] by simp
  have suc: "(u + 1) mod 256 \<noteq> 0 \<longleftrightarrow> i < 255" using u i by (auto simp: mod_Suc)
  define sz where "sz = (if (u + 1) mod 256 \<noteq> 0 then 8 else 4 :: nat)"
  have pos: "\<exists>buf. cdb_read c sz (u * 4 mod 1024) = Some buf \<and> ut32_unpack buf = ?p i
      \<and> (if sz = 8 then ut32_unpack (drop 4 buf) else c_size c) = ?p (Suc i)"
  proof (cases "i < 255")
    case True
    obtain B' where B': "B = ut32_pack (?p (Suc i)) @ B'" using AB(3) [OF True] by (metis append_take_drop_id)
    have "cdb_read c 8 (4 * i) = Some (ut32_pack (?p i) @ ut32_pack (?p (Suc i)))"
      using read_at [of c A "ut32_pack (?p i) @ ut32_pack (?p (Suc i))" B'] m AB(1,2) B' by simp
    then show ?thesis using True suc lt [of i] lt [of "Suc i"] at
      by (simp add: sz_def ut32_unpack_pack_append ut32_unpack_pack)
  next
    case False
    then have "i = 255" using i by simp
    moreover have "cdb_read c 4 (4 * i) = Some (ut32_pack (?p i))"
      using read_at [of c A "ut32_pack (?p i)" B] m AB(1,2) by simp
    moreover have "c_size c = ?p 256" using m by (simp add: maps_file_def table_pos_256)
    ultimately show ?thesis using False suc lt [of i] at by (simp add: sz_def ut32_unpack_pack)
  qed
  then obtain buf where buf: "cdb_read c sz (u * 4 mod 1024) = Some buf" "ut32_unpack buf = ?p i"
    "(if sz = 8 then ut32_unpack (drop 4 buf) else c_size c) = ?p (Suc i)" by blast
  have km: "(?p i + u div 256 mod n * 8) mod 2 ^ 32 = ?p i + 8 * (u div 256 mod n)" if "0 < n"
  proof -
    have "u div 256 mod n < n" using that by simp
    then have "?p i + 8 * (u div 256 mod n) < ?p (Suc i)" by (simp add: table_pos_Suc n_def)
    then show ?thesis using lt [of "Suc i"] i by simp
  qed
  have ps: "?p (Suc i) = ?p i + 8 * n" by (simp add: table_pos_Suc n_def)
  show ?thesis
    unfolding find_first_def sz_def [symmetric] using buf(1,2) buf(3) [unfolded ps] km
    by (cases "sz = 8") (simp_all add: Let_def c1_def)
qed

lemma cdb_findnext_file:
  assumes m: "maps_file c (cdb_file rs)" and l: "c_loop c = 0" and ok: "\<forall>r \<in> set rs. rec_ok r"
  shows "found_at rs key (cdb_file rs)
     (List.find (has_key rs key) (filter (\<lambda>e. hp_h e = unat (sdb_hash key)) (hps 1024 rs)))
     (cdb_findnext c (unat (sdb_hash key)) key)"
proof -
  let ?u = "unat (sdb_hash key)" and ?E = "hps 1024 rs" and ?F = "cdb_file rs"
  define i where "i = ?u mod 256"
  define T where "T = table ?E i"
  have i: "i < 256" by (simp add: i_def)
  have used: "\<forall>e \<in> set ?E. used_slot e" by (rule hps_used) simp
  note tab = table_ok [OF used, of i, folded T_def]
  have sub: "filter (\<lambda>e. hp_h e = ?u) (filter (in_table i) ?E) = filter (\<lambda>e. hp_h e = ?u) ?E"
    by (auto simp: i_def intro!: filter_cong)
  define c0 where "c0 = c\<lparr>c_hslots := 0\<rparr>"
  have m0: "maps_file c0 ?F" using m by (simp add: c0_def maps_file_def)
  note first = find_first_spec [OF m0 i_def [symmetric], folded T_def]
  have fd: "c_fd c \<noteq> None" using m by (simp add: maps_file_def)
  show ?thesis
  proof (cases "T = []")
    case True
    then have "filter (in_table i) ?E = []" using tab(2) by simp
    then have none: "filter (\<lambda>e. hp_h e = ?u) ?E = []" using sub by simp
    show ?thesis using first True fd l unfolding none by (auto simp: cdb_findnext_def c0_def found_at_def Let_def)
  next
    case False
    define s where "s = ?u div 256 mod length T"
    define c1 where "c1 = c0\<lparr>c_hpos := table_pos rs i, c_hslots := length T, c_khash := ?u,
      c_kpos := table_pos rs i + 8 * s\<rparr>"
    have run: "cdb_findnext c ?u key = find_loop c1 key"
      using first False fd l by (auto simp: cdb_findnext_def c0_def Let_def s_def c1_def)
    obtain A B where AB: "?F = A @ slots_bytes T @ B" "length A = table_pos rs i"
      using table_split [OF i, of rs] by (auto simp: T_def)
    have se: "searching c1 ?F T (table_pos rs i) ?u s 0"
      using m0 l by (simp add: searching_def c1_def maps_file_def s_def) (simp add: c0_def)
    have slots: "\<forall>x \<in> set T. x = \<lparr>hp_h = 0, hp_p = 0\<rparr> \<or> x \<in> set ?E"
      using table_slot [OF used] by (auto simp: T_def)
    have "filter (\<lambda>x. hp_h x = ?u) (takeWhile used_slot (drop 0 (rotate s T))) = filter (\<lambda>e. hp_h e = ?u) ?E"
      using tab(3) sub by (simp add: tbl_inv_def scan_def first_slot_def s_def)
    then show ?thesis
      using find_loop_spec [OF ok refl AB slots _ se, of key] False run by simp
  qed
qed

section \<open>The round trip\<close>

fun add_all :: "rec list \<Rightarrow> cdb_make \<Rightarrow> bool \<times> cdb_make" where
  "add_all [] c = (True, c)"
| "add_all (r # rs) c =
     (case cdb_make_add c (fst r) (length (fst r)) (snd r) (length (snd r)) of
        (False, c) \<Rightarrow> (False, c)
      | (True, c) \<Rightarrow> add_all rs c)"

definition short_rec :: "rec \<Rightarrow> bool" where
  "short_rec r \<longleftrightarrow> length (fst r) < 2 ^ 32 - 1 \<and> length (snd r) < 2 ^ 32 - 1"

lemma add_all_inv:
  assumes "make_inv c qs" "\<forall>r \<in> set rs. short_rec r" "add_all rs c = (True, c')"
  shows "make_inv c' (qs @ rs) \<and> stream_cap (m_b c') = stream_cap (m_b c)"
  using assms
proof (induction rs arbitrary: c qs)
  case (Cons r rs)
  obtain c1 where add: "cdb_make_add c (fst r) (length (fst r)) (snd r) (length (snd r)) = (True, c1)"
    and rest: "add_all rs c1 = (True, c')" using Cons.prems(3) by (auto split: prod.splits bool.splits)
  have l: "length (fst r) < 2 ^ 32 - 1" "length (snd r) < 2 ^ 32 - 1"
    using Cons.prems(2) unfolding short_rec_def by auto
  have 1: "make_inv c1 (qs @ [r])" "stream_cap (m_b c1) = stream_cap (m_b c)"
    using cdb_make_add_inv [OF Cons.prems(1) l add] by simp_all
  show ?case using Cons.IH [OF 1(1) _ rest] Cons.prems(2) 1(2) by simp
qed simp

lemma add_all_succeeds:
  assumes "make_inv c qs" "\<forall>r \<in> set rs. rec_ok r" "length (recs_bytes (qs @ rs)) < 2 ^ 32"
    "length (recs_bytes (qs @ rs)) \<le> stream_cap (m_b c)"
  shows "fst (add_all rs c)"
  using assms
proof (induction rs arbitrary: c qs)
  case (Cons r rs)
  have len: "length (recs_bytes (qs @ [r])) \<le> length (recs_bytes (qs @ r # rs))" by (simp add: recs_bytes_def)
  have "length (recs_bytes (qs @ [r])) = m_pos c + length (rec_bytes r)"
    using Cons.prems(1) by (simp add: make_inv_def recs_bytes_def)
  then have "add_fits c r" using Cons.prems len by (auto simp: add_fits_def make_inv_def)
  then have "fst (cdb_make_add c (fst r) (length (fst r)) (snd r) (length (snd r)))"
    using cdb_make_add_succeeds [OF Cons.prems(1), of "fst r" "snd r"] by simp
  then obtain c1 where add: "cdb_make_add c (fst r) (length (fst r)) (snd r) (length (snd r)) = (True, c1)"
    by (metis prod.collapse)
  have l: "length (fst r) < 2 ^ 32 - 1" "length (snd r) < 2 ^ 32 - 1"
    using Cons.prems(2) by (auto simp: rec_ok_def SDB_MAX_KEY_def SDB_MAX_VALUE_def)
  have 1: "make_inv c1 (qs @ [r])" "stream_cap (m_b c1) = stream_cap (m_b c)"
    using cdb_make_add_inv [OF Cons.prems(1) l add] by simp_all
  show ?case using Cons.IH [OF 1(1)] Cons.prems add 1(2) by simp
qed simp

lemma finished_file:
  assumes "f_data fd = []" "length (m_final c0) = 1024" "\<forall>r \<in> set rs. short_rec r"
    "add_all rs (cdb_make_start c0 fd) = (True, c1)" "cdb_make_finish c1 = Some (True, c2)"
  shows "f_data (b_fd (m_b c2)) = cdb_file rs" "length (cdb_file rs) < 2 ^ 32" "\<forall>r \<in> set rs. rec_ok r"
proof -
  have inv: "make_inv c1 rs"
    using add_all_inv [OF make_start_inv [OF assms(1,2)] assms(3,4)] by simp
  show "f_data (b_fd (m_b c2)) = cdb_file rs" "length (cdb_file rs) < 2 ^ 32"
    using cdb_make_finish_spec [OF inv] assms(5) by auto
  show "\<forall>r \<in> set rs. rec_ok r" using inv by (simp add: make_inv_def)
qed

lemma init_maps:
  assumes "length F < 2 ^ 32" "1024 \<le> length F"
  shows "fst (cdb_init d (Some F))" "maps_file (snd (cdb_init d (Some F))) F" "c_loop (snd (cdb_init d (Some F))) = 0"
  using assms by (auto simp: cdb_init_def cdb_findstart_def maps_file_def Let_def)

lemma find_mem: "List.find P xs = Some x \<Longrightarrow> x \<in> set xs"
  by (induction xs) (auto split: if_splits)

text \<open>What a found key gives: its record is where the struct says.\<close>

lemma found_value:
  assumes "found_at rs key (cdb_file rs)
     (List.find (has_key rs key) (filter (\<lambda>e. hp_h e = unat (sdb_hash key)) (hps 1024 rs))) (res, c)"
  shows "case map_of rs key of
       None \<Rightarrow> res = 0
     | Some v \<Rightarrow> res = 1 \<and> cdb_read c (c_dlen c) (c_dpos c) = Some (v @ [NUL])"
proof (cases "List.find (has_key rs key) (filter (\<lambda>e. hp_h e = unat (sdb_hash key)) (hps 1024 rs))")
  case None
  then show ?thesis using assms find_has_key [of rs key] by (simp add: found_at_def)
next
  case (Some e)
  have e: "e \<in> set (hps 1024 rs)" using find_mem [OF Some] by simp
  obtain r A B where r: "rec_at 1024 rs (hp_p e) = Some r" "cdb_file rs = A @ rec_bytes r @ B" "hp_p e = length A"
    using file_rec [OF e] by blast
  have v: "map_of rs key = Some (snd r)" "fst r = key"
    using find_has_key [of rs key] Some r(1) by (auto split: option.splits) (cases "map_of rs key"; auto)+
  let ?P = "A @ kvlen_bytes (length (fst r) + 1) (length (snd r) + 1) @ fst r @ [NUL]"
  have F: "cdb_file rs = ?P @ (snd r @ [NUL]) @ B" using r(2) by (simp add: rec_bytes_def)
  have c: "maps_file c (cdb_file rs)" "c_dpos c = length ?P" "c_dlen c = length (snd r @ [NUL])" "res = 1"
    using assms Some r v by (auto simp: found_at_def KVLSZ_def)
  show ?thesis using read_at [OF c(1) [unfolded F]] c v(1) by simp
qed

text \<open>Structs before their first use, and a descriptor of a new file on a device with some room.\<close>

definition blank_make :: cdb_make where
  "blank_make = \<lparr>m_final = replicate 1024 NUL, m_count = [], m_head = [], m_numentries = 0, m_memsize = 0,
     m_b = buffer_initialize \<lparr>f_data = [], f_off = 0, f_room = 0\<rparr> 1, m_pos = 0\<rparr>"

definition blank_cdb :: cdb where
  "blank_cdb = \<lparr>c_map = None, c_fd = None, c_size = 0, c_loop = 0, c_khash = 0, c_kpos = 0, c_hpos = 0,
     c_hslots = 0, c_dpos = 0, c_dlen = 0\<rparr>"

definition blank_fd :: "nat \<Rightarrow> fdesc" where
  "blank_fd room = \<lparr>f_data = [], f_off = 0, f_room = room\<rparr>"

text \<open>The bytes a database of the records \<open>rs\<close> needs.\<close>

definition db_size :: "rec list \<Rightarrow> nat" where
  "db_size rs = 1024 + sum_list (map (\<lambda>r. 22 + length (fst r) + length (snd r)) rs)"

lemma db_size_file: "length (cdb_file rs) = db_size rs"
proof -
  have "length (concat (map rec_bytes rs)) + 16 * length rs = sum_list (map (\<lambda>r. 22 + length (fst r) + length (snd r)) rs)"
    by (induction rs) (auto simp: rec_bytes_length)
  moreover have "length (tables_bytes (hps 1024 rs) 256) = 16 * length rs"
    using tables_bytes_total [OF hps_used, of 1024 rs] by simp
  ultimately show ?thesis by (simp add: cdb_file_length recs_bytes_def db_size_def)
qed

lemma create_succeeds:
  assumes "f_data fd = []" "length (m_final c0) = 1024" "\<forall>r \<in> set rs. rec_ok r"
    "db_size rs < 2 ^ 32" "db_size rs \<le> f_room fd" "length rs \<le> 178956970"
  shows "\<exists>c1 c2. add_all rs (cdb_make_start c0 fd) = (True, c1) \<and> cdb_make_finish c1 = Some (True, c2)"
proof -
  let ?c = "cdb_make_start c0 fd"
  have inv: "make_inv ?c []" by (rule make_start_inv [OF assms(1,2)])
  have cap: "stream_cap (m_b ?c) = 1024 + f_room fd"
    by (simp add: cdb_make_start_def stream_cap_def buffer_initialize_def seek_set_def)
  have len: "length (recs_bytes rs) \<le> db_size rs" by (simp add: cdb_file_length flip: db_size_file)
  have "fst (add_all rs ?c)" using add_all_succeeds [OF inv assms(3)] len assms(4,5) cap by simp
  then obtain c1 where add: "add_all rs ?c = (True, c1)" by (metis prod.collapse)
  have "\<forall>r \<in> set rs. short_rec r"
    using assms(3) by (auto simp: rec_ok_def short_rec_def SDB_MAX_KEY_def SDB_MAX_VALUE_def)
  then have 1: "make_inv c1 rs" "stream_cap (m_b c1) = stream_cap (m_b ?c)"
    using add_all_inv [OF inv _ add] by auto
  have "finish_fits c1 rs" using assms(4-6) cap 1(2) by (simp add: finish_fits_def db_size_file)
  then show ?thesis using cdb_make_finish_spec [OF 1(1)] add by auto
qed

text \<open>
  C7.  The round trip of the constant database.  Take any list of records; if starting on
  an empty file, adding each record and finishing all report success, then the file can
  be opened, and a search in it finds exactly the keys that were added: for a key that was
  added, the search returns 1 and the data it points to is the value of the first record
  with that key and its terminator; for every other key it returns 0.
\<close>

theorem cdb_roundtrip:
  assumes "f_data fd = []" "length (m_final c0) = 1024" "\<forall>r \<in> set rs. short_rec r"
    "add_all rs (cdb_make_start c0 fd) = (True, c1)" "cdb_make_finish c1 = Some (True, c2)"
    "cdb_init d (Some (f_data (b_fd (m_b c2)))) = (ok, db)"
    "cdb_findnext db (unat (sdb_hash key)) key = (res, db')"
  shows "ok \<and> (case map_of rs key of
       None \<Rightarrow> res = 0
     | Some v \<Rightarrow> res = 1 \<and> cdb_read db' (c_dlen db') (c_dpos db') = Some (v @ [NUL]))"
proof -
  note f = finished_file [OF assms(1-5)]
  have len: "1024 \<le> length (cdb_file rs)" by (simp add: db_size_file db_size_def)
  have i: "ok" "maps_file db (cdb_file rs)" "c_loop db = 0"
    using init_maps [OF f(2) len, of d] assms(6) f(1) by auto
  show ?thesis
    using i(1) found_value [of rs key res db'] cdb_findnext_file [OF i(2,3) f(3), of key] assms(7) by simp
qed

theorem cdb_roundtrip_witness:
  "\<exists>c1 c2 db db'. add_all [(''k'', ''v''), (''j'', ''x''), (''k'', ''w'')] (cdb_make_start blank_make (blank_fd 5000)) = (True, c1)
     \<and> cdb_make_finish c1 = Some (True, c2)
     \<and> cdb_init blank_cdb (Some (f_data (b_fd (m_b c2)))) = (True, db)
     \<and> cdb_findnext db (unat (sdb_hash ''k'')) ''k'' = (1, db')
     \<and> cdb_read db' (c_dlen db') (c_dpos db') = Some (''v'' @ [NUL])"
proof -
  let ?rs = "[(''k'', ''v''), (''j'', ''x''), (''k'', ''w'')]"
  have ok: "\<forall>r \<in> set ?rs. rec_ok r" "\<forall>r \<in> set ?rs. short_rec r"
    by (simp_all add: rec_ok_def short_rec_def SDB_MAX_KEY_def SDB_MAX_VALUE_def)
  have b: "f_data (blank_fd 5000) = []" "length (m_final blank_make) = 1024"
    by (simp_all add: blank_fd_def blank_make_def)
  obtain c1 c2 where c: "add_all ?rs (cdb_make_start blank_make (blank_fd 5000)) = (True, c1)"
    "cdb_make_finish c1 = Some (True, c2)"
    using create_succeeds [OF b ok(1)] by (auto simp: db_size_def blank_fd_def)
  obtain ok db where i: "cdb_init blank_cdb (Some (f_data (b_fd (m_b c2)))) = (ok, db)" by fastforce
  obtain res db' where f: "cdb_findnext db (unat (sdb_hash ''k'')) ''k'' = (res, db')" by fastforce
  show ?thesis using cdb_roundtrip [OF b ok(2) c i f] c i f by auto
qed

text \<open>
  C8.  Creating a database always comes to an end and succeeds when it should: after any
  successful additions \<^verbatim>\<open>cdb_make_finish\<close> returns (the search for a free slot never runs
  forever), and if every record is within the limits of the format, the file stays below
  4 GB, the number of records below that of the allocation test and the device has room,
  then every addition and the finish report success.
\<close>

theorem cdb_create_total:
  assumes "f_data fd = []" "length (m_final c0) = 1024"
  shows "(\<forall>c1. (\<forall>r \<in> set rs. short_rec r) \<and> add_all rs (cdb_make_start c0 fd) = (True, c1)
          \<longrightarrow> (\<exists>ok c2. cdb_make_finish c1 = Some (ok, c2)))
     \<and> ((\<forall>r \<in> set rs. rec_ok r) \<and> db_size rs < 2 ^ 32 \<and> db_size rs \<le> f_room fd \<and> length rs \<le> 178956970
          \<longrightarrow> (\<exists>c1 c2. add_all rs (cdb_make_start c0 fd) = (True, c1) \<and> cdb_make_finish c1 = Some (True, c2)))"
proof (intro conjI allI impI)
  fix c1 assume "(\<forall>r \<in> set rs. short_rec r) \<and> add_all rs (cdb_make_start c0 fd) = (True, c1)"
  then have "make_inv c1 ([] @ rs)" using add_all_inv [OF make_start_inv [OF assms]] by blast
  then show "\<exists>ok c2. cdb_make_finish c1 = Some (ok, c2)" using cdb_make_finish_spec by fastforce
qed (use create_succeeds [OF assms] in blast)

theorem cdb_create_total_witness:
  "\<exists>c1 c2. add_all [(''key'', ''value'')] (cdb_make_start blank_make (blank_fd 2000)) = (True, c1)
     \<and> cdb_make_finish c1 = Some (True, c2)"
  using cdb_create_total [of "blank_fd 2000" blank_make "[(''key'', ''value'')]"]
  by (auto simp: blank_fd_def blank_make_def db_size_def rec_ok_def SDB_MAX_KEY_def SDB_MAX_VALUE_def)

text \<open>
  The limits of the format are enforced: a record whose key has 255 characters or more,
  or whose value has 16777214 characters or more, is refused and leaves the writer as it
  was; nothing of it reaches the file.
\<close>

theorem cdb_make_add_limits:
  assumes "length k < 2 ^ 32 - 1" "length v < 2 ^ 32 - 1" "255 \<le> length k \<or> 16777214 \<le> length v"
  shows "cdb_make_add c k (length k) v (length v) = (False, c)"
proof -
  have "\<not> rec_ok (k, v)" using assms(3) by (auto simp: rec_ok_def SDB_MAX_KEY_def SDB_MAX_VALUE_def)
  then show ?thesis using cdb_make_add_unfold [OF assms(1,2)] by simp
qed

theorem cdb_make_add_limits_witness:
  "cdb_make_add blank_make (replicate 255 CHR ''a'') 255 ''v'' 1 = (False, blank_make)"
  using cdb_make_add_limits [of "replicate 255 CHR ''a''" "''v''" blank_make] by simp

text \<open>
  The length fields of a record hold what \<^verbatim>\<open>cdb_getkvlen\<close> reads back, and a search that is
  continued (\<^verbatim>\<open>loop\<close> not reset by \<^verbatim>\<open>cdb_findstart\<close>) finds nothing more, because every call
  sets \<^verbatim>\<open>hslots\<close> to 0: duplicate keys beyond the first cannot be reached.
\<close>

theorem cdb_findnext_no_continue:
  assumes "c_fd c \<noteq> None" "c_loop c \<noteq> 0"
  shows "fst (cdb_findnext c u key) = 0"
  using assms by (auto simp: cdb_findnext_def Let_def find_loop.simps)

end
