(* ===== verification/Sdb_Core.thy ===== *)
theory Sdb_Core
  imports Sdb_Ht Cdb
begin

text \<open>
  The database: \<^verbatim>\<open>src/sdb.c\<close>.  A database is a hash table of changes in memory in front of
  an optional constant database on disk.

  \<^item> \<open>sdb\<close> is the part of \<^verbatim>\<open>struct sdb_t\<close> these operations use.  \<open>s_fd\<close> is the contents of
    the open file (\<open>None\<close> for -1), \<open>s_journal\<close> the contents of the open journal, \<open>s_hooks\<close> the
    list of callbacks with their user data, \<open>s_called\<close> the calls the hooks have received, and
    \<open>s_now\<close> what \<^verbatim>\<open>sdb_now\<close> returns.  No gperf table is attached (\<^verbatim>\<open>gp\<close> is NULL), and hooks
    do not change the database.
  \<^item> Handles and keys are not NULL.  A value argument is \<open>None\<close> when it is NULL.
  \<^item> Operations return the C result and the new state; a result that the C code would
    compute by dereferencing NULL is \<open>None\<close>.
\<close>

section \<open>Data\<close>

definition SDB_MAX_PATH :: nat where
  "SDB_MAX_PATH = 256"

record sdb =
  s_fd :: "bytes option"
  s_journal :: "bytes option"
  s_db :: cdb
  s_ht :: sdb_ht
  s_pos :: nat
  s_expire :: ut64
  s_last :: ut64
  s_depth :: ut32
  s_timestamped :: bool
  s_hooks :: "(nat \<times> nat) list"
  s_called :: "(nat \<times> nat \<times> string \<times> string) list"
  s_now :: ut64

text \<open>\<^verbatim>\<open>sdb_new (NULL, NULL, 0)\<close>.\<close>

definition sdb_new0 :: "ut64 \<Rightarrow> sdb" where
  "sdb_new0 now =
     \<lparr>s_fd = None, s_journal = None, s_db = snd (cdb_init blank_cdb None), s_ht = sdb_ht_new, s_pos = 0,
      s_expire = 0, s_last = 0, s_depth = 0, s_timestamped = False, s_hooks = [], s_called = [],
      s_now = now\<rparr>"

section \<open>Hooks\<close>

definition sdb_hook :: "sdb \<Rightarrow> nat \<Rightarrow> nat \<Rightarrow> bool \<times> sdb" where
  "sdb_hook s cb user =
     (if cb \<in> set (map fst (s_hooks s)) then (False, s)
      else (True, s\<lparr>s_hooks := s_hooks s @ [(cb, user)]\<rparr>))"

fun remove_hook :: "nat \<Rightarrow> (nat \<times> nat) list \<Rightarrow> (nat \<times> nat) list option" where
  "remove_hook h [] = None"
| "remove_hook h (x # xs) = (if fst x = h then Some xs else map_option ((#) x) (remove_hook h xs))"

definition sdb_unhook :: "sdb \<Rightarrow> nat \<Rightarrow> bool \<times> sdb" where
  "sdb_unhook s h =
     (case remove_hook h (s_hooks s) of
        None \<Rightarrow> (False, s)
      | Some hs \<Rightarrow> (True, s\<lparr>s_hooks := hs\<rparr>))"

definition sdb_hook_call :: "sdb \<Rightarrow> string \<Rightarrow> string \<Rightarrow> nat \<times> sdb" where
  "sdb_hook_call s k v =
     (let s = (if s_timestamped s \<and> s_last s \<noteq> 0 then s\<lparr>s_last := s_now s\<rparr> else s) in
      (length (s_hooks s),
       s\<lparr>s_called := s_called s @ map (\<lambda>(cb, u). (cb, u, k, v)) (s_hooks s)\<rparr>))"

section \<open>Journal\<close>

text \<open>The line is cut to the local buffer of \<^verbatim>\<open>SDB_MAX_PATH\<close> bytes, terminator included.\<close>

definition sdb_journal_log :: "sdb \<Rightarrow> string \<Rightarrow> string \<Rightarrow> bool \<times> sdb" where
  "sdb_journal_log s key val =
     (case s_journal s of
        None \<Rightarrow> (False, s)
      | Some j \<Rightarrow>
          let str = take (SDB_MAX_PATH - 1) (key @ ''='' @ val @ [CHR 0x0A])
          in (True, s\<lparr>s_journal := Some (j @ str)\<rparr>))"

definition sdb_journal_clear :: "sdb \<Rightarrow> bool \<times> sdb" where
  "sdb_journal_clear s =
     (case s_journal s of None \<Rightarrow> (False, s) | Some j \<Rightarrow> (True, s\<lparr>s_journal := Some []\<rparr>))"

section \<open>Setting\<close>

definition nextcas :: "sdb_kv \<Rightarrow> ut32" where
  "nextcas kv = (if kv_cas kv = 0 then 1 else kv_cas kv + 1)"

definition sdbkv_new2 :: "string \<Rightarrow> nat \<Rightarrow> string option \<Rightarrow> nat \<Rightarrow> sdb_kv option" where
  "sdbkv_new2 k kl v vl =
     (if v \<noteq> None \<and> vl \<ge> SDB_VSZ then None
      else
        let vl = (if v = None then 0 else vl) in
        if kl \<ge> SDB_KSZ then None
        else
          let kv = \<lparr>kv_key = k, kv_value = (if vl \<noteq> 0 then v else None), kv_key_len = word_of_nat kl,
                    kv_value_len = word_of_nat vl, kv_cas = 0, kv_expire = 0\<rparr>
          in Some (kv\<lparr>kv_cas := nextcas kv\<rparr>))"

text \<open>Assigning to the fields of an element through the pointer a search returned.\<close>

definition sdb_ht_write :: "sdb_ht \<Rightarrow> sdb_kv \<Rightarrow> sdb_ht" where
  "sdb_ht_write ht kv =
     (let i = bucketfn ht (kv_key kv) in
      case find_index (is_kv_equal ht (kv_key kv) (calcsize_key ht (kv_key kv))) (b_arr (ht_table ht ! i)) of
        Some j \<Rightarrow> store_kv ht (SlotAt i j) kv
      | None \<Rightarrow> ht)"

definition set_existing :: "sdb \<Rightarrow> sdb_kv \<Rightarrow> string \<Rightarrow> string \<Rightarrow> string \<Rightarrow> ut32 \<Rightarrow> ut32 \<times> sdb" where
  "set_existing s kv key old val cas =
     (case cdb_findnext (s_db s) (unat (sdb_hash key)) key of
        (r, db) \<Rightarrow>
          let s = s\<lparr>s_db := db\<rparr> in
          if r \<noteq> 0 then
            if cas \<noteq> 0 \<and> kv_cas kv \<noteq> cas then (0, s)
            else if word_of_nat (length val) = kv_value_len kv \<and> old = val then
              (kv_cas kv, snd (sdb_hook_call s key val))
            else
              let cas = nextcas kv;
                  kv = kv\<lparr>kv_cas := cas, kv_value := Some val, kv_value_len := word_of_nat (length val)\<rparr>
              in (cas, snd (sdb_hook_call (s\<lparr>s_ht := sdb_ht_write (s_ht s) kv\<rparr>) key val))
          else
            (nextcas kv, snd (sdb_hook_call (s\<lparr>s_ht := snd (sdb_ht_delete (s_ht s) key)\<rparr>) key val)))"

definition set_new :: "sdb \<Rightarrow> string \<Rightarrow> string \<Rightarrow> bool \<Rightarrow> ut32 \<times> sdb" where
  "set_new s key val owned =
     (let kv = (if owned
                then map_option (kv_value_update (\<lambda>_. Some val) \<circ> kv_value_len_update (\<lambda>_. word_of_nat (length val)))
                       (sdbkv_new2 key (length key) None 0)
                else sdbkv_new2 key (length key) (Some val) (length val))
      in case kv of
           None \<Rightarrow> (0, s)
         | Some kv \<Rightarrow>
             let cas = nextcas kv; kv = kv\<lparr>kv_cas := cas\<rparr>
             in (cas, snd (sdb_hook_call
                   (s\<lparr>s_ht := snd (sdb_ht_insert_kvp (s_ht s) kv True)\<rparr>) key val)))"

definition sdb_set_internal ::
  "sdb \<Rightarrow> string \<Rightarrow> string option \<Rightarrow> bool \<Rightarrow> ut32 \<Rightarrow> ut32 \<times> sdb" where
  "sdb_set_internal s key val0 owned cas =
     (let val = (case val0 of None \<Rightarrow> [] | Some v \<Rightarrow> v) in
      if length key \<ge> SDB_KSZ \<or> length val \<ge> SDB_VSZ then (0, s)
      else
        let s = (if s_journal s \<noteq> None then snd (sdb_journal_log s key val) else s);
            s = s\<lparr>s_db := cdb_findstart (s_db s)\<rparr>
        in case sdb_ht_find_kvp (s_ht s) key of
             Some kv \<Rightarrow>
               (case kv_value kv of
                  Some old \<Rightarrow> set_existing s kv key old val cas
                | None \<Rightarrow> set_new s key val owned)
           | None \<Rightarrow> set_new s key val owned)"

definition sdb_set_owned :: "sdb \<Rightarrow> string \<Rightarrow> string option \<Rightarrow> ut32 \<Rightarrow> bool \<times> sdb" where
  "sdb_set_owned s key val cas =
     (case sdb_set_internal s key val True cas of (c, s) \<Rightarrow> (c \<noteq> 0, s))"

definition sdb_set :: "sdb \<Rightarrow> string \<Rightarrow> string option \<Rightarrow> ut32 \<Rightarrow> bool \<times> sdb" where
  "sdb_set s key val cas =
     (case sdb_set_internal s key val False cas of (c, s) \<Rightarrow> (c \<noteq> 0, s))"

definition sdb_nset :: "sdb \<Rightarrow> ut64 \<Rightarrow> string option \<Rightarrow> ut32 \<Rightarrow> bool \<times> sdb" where
  "sdb_nset s nkey val cas =
     (case sdb_set_internal s (itoa64 nkey 16) val False cas of (c, s) \<Rightarrow> (c \<noteq> 0, s))"

definition sdb_unset :: "sdb \<Rightarrow> string \<Rightarrow> ut32 \<Rightarrow> bool \<times> sdb" where
  "sdb_unset s key cas = sdb_set s key (Some []) cas"

definition sdb_nunset :: "sdb \<Rightarrow> ut64 \<Rightarrow> ut32 \<Rightarrow> bool \<times> sdb" where
  "sdb_nunset s nkey cas = sdb_nset s nkey (Some []) cas"

section \<open>Getting\<close>

text \<open>The results of \<^verbatim>\<open>sdb_const_get_len\<close>: the value, \<^verbatim>\<open>*vlen\<close> and \<^verbatim>\<open>*cas\<close>.\<close>

type_synonym get_result = "string option \<times> nat \<times> ut32"

definition map_string :: "cdb \<Rightarrow> nat \<Rightarrow> string" where
  "map_string c pos = (case c_map c of None \<Rightarrow> [] | Some m \<Rightarrow> cstring (drop pos m))"

definition get_disk :: "sdb \<Rightarrow> string \<Rightarrow> get_result \<times> sdb" where
  "get_disk s key =
     (if s_fd s = None then ((None, 0, 0), s)
      else
        (case cdb_findnext (cdb_findstart (s_db s)) (unat (sdb_hash key)) key of
           (r, db) \<Rightarrow>
             let s = s\<lparr>s_db := db\<rparr> in
             if r < 1 then ((None, 0, 0), s)
             else
               let len = c_dlen db in
               if len < 1 \<or> len \<ge> SDB_MAX_VALUE then ((None, 0, 0), s)
               else ((Some (map_string db (c_dpos db)), len, 0), s)))"

definition sdb_const_get_len :: "sdb \<Rightarrow> string \<Rightarrow> get_result \<times> sdb" where
  "sdb_const_get_len s key =
     (case sdb_ht_find_kvp (s_ht s) key of
        Some kv \<Rightarrow>
          (case kv_value kv of
             None \<Rightarrow> ((None, 0, 0), s)
           | Some v \<Rightarrow>
               if v = [] then ((None, 0, 0), s)
               else if s_timestamped s \<and> kv_expire kv \<noteq> 0 \<and> s_now s > kv_expire kv
               then ((None, 0, 0), snd (sdb_unset s key 0))
               else ((Some v, unat (kv_value_len kv), kv_cas kv), s))
      | None \<Rightarrow> get_disk s key)"

definition sdb_const_get :: "sdb \<Rightarrow> string \<Rightarrow> (string option \<times> ut32) \<times> sdb" where
  "sdb_const_get s key =
     (case sdb_const_get_len s key of ((v, vlen, cas), s) \<Rightarrow> ((v, cas), s))"

definition sdb_get_len :: "sdb \<Rightarrow> string \<Rightarrow> get_result \<times> sdb" where
  "sdb_get_len s key = sdb_const_get_len s key"

definition sdb_get :: "sdb \<Rightarrow> string \<Rightarrow> (string option \<times> ut32) \<times> sdb" where
  "sdb_get s key = (case sdb_get_len s key of ((v, vlen, cas), s) \<Rightarrow> ((v, cas), s))"

definition sdb_nget :: "sdb \<Rightarrow> ut64 \<Rightarrow> (string option \<times> ut32) \<times> sdb" where
  "sdb_nget s nkey = (case sdb_get_len s (itoa64 nkey 16) of ((v, vlen, cas), s) \<Rightarrow> ((v, cas), s))"

text \<open>
  \<^verbatim>\<open>sdb_exists\<close>.  When the byte at the data position cannot be read, \<^verbatim>\<open>ch\<close> is indeterminate in
  C; the model takes it as 0.
\<close>

definition sdb_exists :: "sdb \<Rightarrow> string \<Rightarrow> bool \<times> sdb" where
  "sdb_exists s key =
     (case sdb_ht_find_kvp (s_ht s) key of
        Some kv \<Rightarrow> (case kv_value kv of None \<Rightarrow> (False, s) | Some v \<Rightarrow> (v \<noteq> [], s))
      | None \<Rightarrow>
          if s_fd s = None then (False, s)
          else
            (case cdb_findnext (cdb_findstart (s_db s)) (unat (sdb_hash key)) key of
               (r, db) \<Rightarrow>
                 let s = s\<lparr>s_db := db\<rparr> in
                 if r \<noteq> 0 then
                   (case cdb_read db 1 (c_dpos db) of
                      None \<Rightarrow> (False, s) | Some buf \<Rightarrow> (buf ! 0 \<noteq> NUL, s))
                 else (False, s)))"

section \<open>Derived operations\<close>

definition sdb_add :: "sdb \<Rightarrow> string \<Rightarrow> string option \<Rightarrow> ut32 \<Rightarrow> bool \<times> sdb" where
  "sdb_add s key val cas =
     (case sdb_exists s key of
        (True, s) \<Rightarrow> (False, s)
      | (False, s) \<Rightarrow> sdb_set s key val cas)"

definition sdb_nadd :: "sdb \<Rightarrow> ut64 \<Rightarrow> string option \<Rightarrow> ut32 \<Rightarrow> bool \<times> sdb" where
  "sdb_nadd s nkey val cas = sdb_add s (itoa64 nkey 16) val cas"

definition sdb_rename :: "sdb \<Rightarrow> string \<Rightarrow> string \<Rightarrow> ut32 \<Rightarrow> bool \<times> sdb" where
  "sdb_rename s oldkey newkey cas =
     (case sdb_get s oldkey of
        ((None, _), s) \<Rightarrow> (False, s)
      | ((Some v, _), s) \<Rightarrow>
          (case sdb_unset s oldkey cas of
             (False, s) \<Rightarrow> (False, s)
           | (True, s) \<Rightarrow> sdb_set_owned s newkey (Some v) 0))"

text \<open>The loop of \<^verbatim>\<open>sdb_uncat\<close>: remove the first occurrence until there is none.\<close>

fun remove_first :: "string \<Rightarrow> string \<Rightarrow> string" where
  "remove_first b [] = []"
| "remove_first b (x # xs) =
     (if prefix_of b (x # xs) then drop (length b) (x # xs) else x # remove_first b xs)"

lemma remove_first_shrinks: "b \<noteq> [] \<Longrightarrow> strstr s b \<noteq> None \<Longrightarrow> length (remove_first b s) < length s"
  by (induction s) auto

function uncat_loop :: "string \<Rightarrow> string \<Rightarrow> string" where
  "uncat_loop b v = (if b = [] \<or> strstr v b = None then v else uncat_loop b (remove_first b v))"
  by pat_completeness auto
termination
  by (relation "measure (\<lambda>(b, v). length v)") (auto dest: remove_first_shrinks)

declare uncat_loop.simps [simp del]

definition sdb_uncat :: "sdb \<Rightarrow> string \<Rightarrow> string option \<Rightarrow> ut32 \<Rightarrow> bool \<times> sdb" where
  "sdb_uncat s key val cas =
     (case sdb_get_len s key of
        ((v, vlen, kas), s) \<Rightarrow>
          (case (v, val) of
             (Some v, Some b) \<Rightarrow>
               if cas \<noteq> 0 \<and> kas \<noteq> cas then (False, s)
               else if b \<noteq> [] \<and> strstr v b \<noteq> None
               then sdb_set_owned s key (Some (uncat_loop b v)) cas
               else (False, s)
           | _ \<Rightarrow> (False, s)))"

text \<open>\<^verbatim>\<open>sdb_concat\<close> copies \<^verbatim>\<open>*vlen\<close> bytes of the old value in front of the new one.\<close>

definition sdb_concat :: "sdb \<Rightarrow> string \<Rightarrow> string option \<Rightarrow> ut32 \<Rightarrow> bool \<times> sdb" where
  "sdb_concat s key val cas =
     (case val of
        None \<Rightarrow> (False, s)
      | Some b \<Rightarrow>
          if key = [] \<or> b = [] then (False, s)
          else
            (case sdb_const_get_len s key of
               ((None, kl, _), s) \<Rightarrow> sdb_set s key (Some b) cas
             | ((Some p, kl, _), s) \<Rightarrow>
                 sdb_set_owned s key (Some (cstring (take kl (p @ [NUL]) @ b))) cas))"

section \<open>Expiry\<close>

definition parse_expire :: "ut64 \<Rightarrow> ut64 \<Rightarrow> ut64" where
  "parse_expire now e = (if e > 0 \<and> e < 30 * 24 * 60 * 60 then e + now else e)"

text \<open>
  \<^verbatim>\<open>sdb_expire_set\<close> calls itself after it has loaded a key from disk into memory.  \<open>None\<close>
  is the dereference of the NULL value of a key that was unset.
\<close>

fun expire_set_fuel :: "nat \<Rightarrow> sdb \<Rightarrow> string option \<Rightarrow> ut64 \<Rightarrow> ut32 \<Rightarrow> (bool \<times> sdb) option" where
  "expire_set_fuel 0 s key expire cas = None"
| "expire_set_fuel (Suc n) s key expire cas =
     (let s = s\<lparr>s_timestamped := True\<rparr> in
      case key of
        None \<Rightarrow> Some (True, s\<lparr>s_expire := parse_expire (s_now s) expire\<rparr>)
      | Some k \<Rightarrow>
          (case sdb_ht_find_kvp (s_ht s) k of
             Some kv \<Rightarrow>
               (case kv_value kv of
                  None \<Rightarrow> None
                | Some v \<Rightarrow>
                    if v \<noteq> [] \<and> (cas = 0 \<or> cas = kv_cas kv) then
                      Some (True, s\<lparr>s_ht := sdb_ht_write (s_ht s)
                                 (kv\<lparr>kv_expire := parse_expire (s_now s) expire\<rparr>)\<rparr>)
                    else Some (False, s))
           | None \<Rightarrow>
               if s_fd s = None then Some (False, s)
               else
                 (case cdb_findnext (cdb_findstart (s_db s)) (unat (sdb_hash k)) k of
                    (r, db) \<Rightarrow>
                      let s = s\<lparr>s_db := db\<rparr> in
                      if r = 0 then Some (False, s)
                      else
                        let len = c_dlen db in
                        if len < 1 \<or> len \<ge> 2147483647 then Some (False, s)
                        else
                          let buf = (case cdb_read db len (c_dpos db) of Some b \<Rightarrow> cstring b | None \<Rightarrow> []);
                              s = snd (sdb_set_owned s k (Some buf) cas)
                          in expire_set_fuel n s key expire cas)))"

definition sdb_expire_set :: "sdb \<Rightarrow> string option \<Rightarrow> ut64 \<Rightarrow> ut32 \<Rightarrow> (bool \<times> sdb) option" where
  "sdb_expire_set s key expire cas = expire_set_fuel 2 s key expire cas"

definition sdb_expire_get :: "sdb \<Rightarrow> string \<Rightarrow> (ut64 \<times> ut32 option) option" where
  "sdb_expire_get s key =
     (case sdb_ht_find_kvp (s_ht s) key of
        Some kv \<Rightarrow>
          (case kv_value kv of
             None \<Rightarrow> None
           | Some v \<Rightarrow> if v \<noteq> [] then Some (kv_expire kv, Some (kv_cas kv)) else Some (0, None))
      | None \<Rightarrow> Some (0, None))"

section \<open>Databases in memory\<close>

text \<open>The value a key has in memory; a key that was unset has none.\<close>

definition mem_view :: "sdb \<Rightarrow> string \<Rightarrow> string option" where
  "mem_view s k =
     (case sdb_ht_find_kvp (s_ht s) k of
        None \<Rightarrow> None
      | Some kv \<Rightarrow> (case kv_value kv of None \<Rightarrow> None | Some v \<Rightarrow> if v = [] then None else Some v))"

definition kv_wf :: "sdb_kv \<Rightarrow> bool" where
  "kv_wf kv \<longleftrightarrow>
     length (kv_key kv) < SDB_KSZ \<and> kv_key_len kv = strlen32 (kv_key kv)
     \<and> (case kv_value kv of None \<Rightarrow> kv_value_len kv = 0
        | Some v \<Rightarrow> length v < SDB_VSZ \<and> kv_value_len kv = word_of_nat (length v))"

definition table_wf :: "sdb_ht \<Rightarrow> bool" where
  "table_wf ht \<longleftrightarrow>
     sdb_ht_inv ht \<and> (\<forall>k kv. sdb_ht_find_kvp ht k = Some kv \<longrightarrow> kv_key kv = k \<and> kv_wf kv)"

definition mem_inv :: "sdb \<Rightarrow> bool" where
  "mem_inv s \<longleftrightarrow> table_wf (s_ht s) \<and> s_fd s = None \<and> c_fd (s_db s) = None \<and> c_map (s_db s) = None
     \<and> \<not> s_timestamped s"

definition sdb_room :: "sdb \<Rightarrow> bool" where
  "sdb_room s \<longleftrightarrow> ht_room (s_ht s)"

lemma table_wf_insert:
  assumes "table_wf ht" "ht_room ht" "kv_wf kv" "sdb_ht_insert_kvp ht kv True = (r, h)"
  shows "table_wf h" "ht_count h \<le> ht_count ht + 1"
    "sdb_ht_find_kvp h = (sdb_ht_find_kvp ht)(kv_key kv \<mapsto> kv)"
proof -
  have inv: "sdb_ht_inv ht" and l: "kv_key_len kv = strlen32 (kv_key kv)"
    using assms by (auto simp: table_wf_def kv_wf_def)
  note i = sdb_ht_insert_kvp_refines [OF inv assms(2) l assms(4)]
  show f: "sdb_ht_find_kvp h = (sdb_ht_find_kvp ht)(kv_key kv \<mapsto> kv)" using i(3,4) by simp
  show "table_wf h" using assms(1,3) i(1) by (auto simp: table_wf_def f)
  show "ht_count h \<le> ht_count ht + 1" by (rule i(2))
qed

lemma table_wf_write:
  assumes "table_wf ht" "kv_wf kv" "sdb_ht_find_kvp ht (kv_key kv) \<noteq> None"
  shows "table_wf (sdb_ht_write ht kv)" "ht_count (sdb_ht_write ht kv) = ht_count ht"
    "sdb_ht_find_kvp (sdb_ht_write ht kv) = (sdb_ht_find_kvp ht)(kv_key kv \<mapsto> kv)"
proof -
  let ?k = "kv_key kv" and ?h = "sdb_ht_write ht kv"
  have inv: "sdb_ht_inv ht" "ht_inv ht" "ht_struct ht"
    using assms(1) by (auto simp: table_wf_def sdb_ht_inv_def ht_inv_def)
  have f: "ht_find_kv ht ?k \<noteq> None" using assms(3) by (simp add: sdb_ht_find_kvp_def)
  have ok: "kv_ok ht kv" using sdb_kv_ok [OF inv(1)] assms(2) by (simp add: kv_wf_def)
  obtain sl where r: "reserve_kv ht ?k (calcsize_key ht ?k) True = (Some sl, ht)"
    and st: "ht_struct (store_kv ht sl kv)" "same_config (store_kv ht sl kv) ht" "ht_count (store_kv ht sl kv) = ht_count ht"
      "set (ht_entries (store_kv ht sl kv)) = insert kv {e \<in> set (ht_entries ht). kv_key e \<noteq> ?k}"
    using reserve_hit(2) [OF inv(3) f] ok by blast
  have w: "?h = store_kv ht sl kv"
    using r bucket_index_None [OF inv(3), of ?k] f
    by (auto simp: sdb_ht_write_def reserve_kv_def Let_def split: option.splits)
  have i: "ht_inv ?h" using st inv(2) by (auto simp: w ht_inv_def same_config_def)
  have put: "put_result ht kv True True ?h"
    using st i f by (auto simp: w put_result_def same_config_def)
  show g: "sdb_ht_find_kvp ?h = (sdb_ht_find_kvp ht)(?k \<mapsto> kv)"
    using put_result_find [OF inv(2) put] by (auto simp: fun_eq_iff sdb_ht_find_kvp_def)
  show "ht_count ?h = ht_count ht" using st by (simp add: w)
  have "sdb_ht_inv ?h" using i st inv(1) by (simp add: w sdb_ht_inv_def same_config_def)
  then show "table_wf ?h" using assms(1,2) by (auto simp: table_wf_def g)
qed

lemma hook_call_ht [simp]:
  "s_ht (snd (sdb_hook_call s k v)) = s_ht s" "s_fd (snd (sdb_hook_call s k v)) = s_fd s"
  "s_db (snd (sdb_hook_call s k v)) = s_db s" "s_timestamped (snd (sdb_hook_call s k v)) = s_timestamped s"
  "s_journal (snd (sdb_hook_call s k v)) = s_journal s" "s_now (snd (sdb_hook_call s k v)) = s_now s"
  by (simp_all add: sdb_hook_call_def Let_def)

lemma journal_log_ht [simp]:
  "s_ht (snd (sdb_journal_log s k v)) = s_ht s" "s_fd (snd (sdb_journal_log s k v)) = s_fd s"
  "s_db (snd (sdb_journal_log s k v)) = s_db s" "s_timestamped (snd (sdb_journal_log s k v)) = s_timestamped s"
  "s_now (snd (sdb_journal_log s k v)) = s_now s"
  by (simp_all add: sdb_journal_log_def Let_def split: option.splits)

lemma findnext_closed: "c_fd c = None \<Longrightarrow> cdb_findnext c u k = (-1, c)"
  by (simp add: cdb_findnext_def)

text \<open>The entry a successful set leaves in the table.\<close>

definition set_conflict :: "sdb \<Rightarrow> string \<Rightarrow> ut32 \<Rightarrow> bool" where
  "set_conflict s key cas \<longleftrightarrow>
     (\<exists>kv old. sdb_ht_find_kvp (s_ht s) key = Some kv \<and> kv_value kv = Some old
        \<and> cas \<noteq> 0 \<and> kv_cas kv \<noteq> cas)"

lemma set_new_mem:
  assumes "mem_inv s" "sdb_room s" "length key < SDB_KSZ" "length val < SDB_VSZ"
    "set_new s key val owned = (c, s')"
  shows "mem_inv s' \<and> c = 2 \<and> ht_count (s_ht s') \<le> ht_count (s_ht s) + 1
     \<and> mem_view s' = (mem_view s)(key := if val = [] then None else Some val)
     \<and> map_option kv_cas (sdb_ht_find_kvp (s_ht s') key) = Some 2"
proof -
  define kv where "kv = \<lparr>kv_key = key, kv_value = (if owned \<or> val \<noteq> [] then Some val else None),
    kv_key_len = strlen32 key, kv_value_len = word_of_nat (length val), kv_cas = 2, kv_expire = 0\<rparr>"
  obtain r h where ins: "sdb_ht_insert_kvp (s_ht s) kv True = (r, h)" by fastforce
  have wf: "kv_wf kv" using assms(3,4) by (simp add: kv_wf_def kv_def)
  have run: "c = 2" "s' = snd (sdb_hook_call (s\<lparr>s_ht := h\<rparr>) key val)"
    using assms(3-5) ins by (auto simp: set_new_def sdbkv_new2_def nextcas_def Let_def kv_def strlen32_def split: if_splits)
  note t = table_wf_insert [OF _ _ wf ins]
  have tw: "table_wf (s_ht s)" "ht_room (s_ht s)" using assms by (auto simp: mem_inv_def sdb_room_def)
  have "mem_view s' = (mem_view s)(key := if val = [] then None else Some val)"
    using t(3) [OF tw] by (auto simp: run mem_view_def fun_eq_iff kv_def)
  moreover have "map_option kv_cas (sdb_ht_find_kvp (s_ht s') key) = Some 2" using t(3) [OF tw] by (simp add: run kv_def)
  ultimately show ?thesis using run t(1,2) [OF tw] assms(1) by (simp add: mem_inv_def)
qed

lemma set_existing_mem:
  assumes "mem_inv s" "length val < SDB_VSZ"
    "sdb_ht_find_kvp (s_ht s) key = Some kv" "kv_value kv = Some old"
    "set_existing s kv key old val cas = (c, s')"
  shows "mem_inv s' \<and> ht_count (s_ht s') = ht_count (s_ht s)
     \<and> c = (if set_conflict s key cas then 0 else if old = val then kv_cas kv else nextcas kv)
     \<and> mem_view s' = (if set_conflict s key cas then mem_view s
         else (mem_view s)(key := if val = [] then None else Some val))"
proof -
  have tw: "table_wf (s_ht s)" and cl: "c_fd (s_db s) = None" using assms(1) by (auto simp: mem_inv_def)
  have kv: "kv_key kv = key" "kv_wf kv" using tw assms(3) by (auto simp: table_wf_def)
  have len: "kv_value_len kv = word_of_nat (length old)" using kv(2) assms(4) by (simp add: kv_wf_def)
  have conf: "set_conflict s key cas \<longleftrightarrow> cas \<noteq> 0 \<and> kv_cas kv \<noteq> cas"
    using assms(3,4) by (auto simp: set_conflict_def)
  note e = set_existing_def findnext_closed [OF cl]
  consider "set_conflict s key cas" | "\<not> set_conflict s key cas" "old = val"
    | "\<not> set_conflict s key cas" "old \<noteq> val" by blast
  then show ?thesis
  proof cases
    case 1
    then have "c = 0" "s' = s" using assms(5) conf by (auto simp: e)
    then show ?thesis using 1 assms(1) by simp
  next
    case 2
    then have c: "c = kv_cas kv" "s' = snd (sdb_hook_call s key val)"
      using assms(5) conf len by (auto simp: e)
    have "mem_view s key = (if val = [] then None else Some val)"
      using assms(3,4) 2 by (simp add: mem_view_def)
    then have "mem_view s' = (mem_view s)(key := if val = [] then None else Some val)"
      by (auto simp: c fun_eq_iff mem_view_def)
    then show ?thesis using 2 c assms(1) by (simp add: mem_inv_def)
  next
    case 3
    let ?kv = "kv\<lparr>kv_cas := nextcas kv, kv_value := Some val, kv_value_len := word_of_nat (length val)\<rparr>"
    have c: "c = nextcas kv" "s' = snd (sdb_hook_call (s\<lparr>s_ht := sdb_ht_write (s_ht s) ?kv\<rparr>) key val)"
      using assms(5) conf 3 by (auto simp: e Let_def)
    have wf: "kv_wf ?kv" using kv(2) assms(2) by (simp add: kv_wf_def)
    have hit: "sdb_ht_find_kvp (s_ht s) (kv_key ?kv) \<noteq> None" using assms(3) kv(1) by simp
    note t = table_wf_write [OF tw wf hit]
    have "mem_view s' = (mem_view s)(key := if val = [] then None else Some val)"
      using t(3) kv(1) by (auto simp: c mem_view_def fun_eq_iff)
    then show ?thesis using 3 c t(1,2) assms(1) by (simp add: mem_inv_def)
  qed
qed

lemma sdb_set_internal_mem:
  assumes "mem_inv s" "sdb_room s" "length key < SDB_KSZ" "length val < SDB_VSZ"
    "sdb_set_internal s key (Some val) owned cas = (c, s')"
  shows "mem_inv s'" "ht_count (s_ht s') \<le> ht_count (s_ht s) + 1"
    "mem_view s' = (if set_conflict s key cas then mem_view s
         else (mem_view s)(key := if val = [] then None else Some val))"
    "set_conflict s key cas \<Longrightarrow> c = 0"
proof -
  define s0 where "s0 = (if s_journal s \<noteq> None then snd (sdb_journal_log s key val) else s)"
  define s1 where "s1 = s0\<lparr>s_db := cdb_findstart (s_db s0)\<rparr>"
  have s1: "s_ht s1 = s_ht s" "mem_inv s1" "sdb_room s1" "mem_view s1 = mem_view s"
    "set_conflict s1 key cas = set_conflict s key cas"
    using assms(1,2) by (auto simp: s1_def s0_def mem_inv_def cdb_findstart_def sdb_room_def mem_view_def fun_eq_iff set_conflict_def)
  have run: "sdb_set_internal s key (Some val) owned cas =
      (case sdb_ht_find_kvp (s_ht s1) key of
         Some kv \<Rightarrow> (case kv_value kv of Some old \<Rightarrow> set_existing s1 kv key old val cas | None \<Rightarrow> set_new s1 key val owned)
       | None \<Rightarrow> set_new s1 key val owned)"
    unfolding sdb_set_internal_def Let_def option.case s0_def [symmetric] s1_def [symmetric]
    using assms(3,4) by simp
  have "mem_inv s' \<and> ht_count (s_ht s') \<le> ht_count (s_ht s) + 1
    \<and> mem_view s' = (if set_conflict s key cas then mem_view s
         else (mem_view s)(key := if val = [] then None else Some val))
    \<and> (set_conflict s key cas \<longrightarrow> c = 0)"
  proof (cases "\<exists>kv old. sdb_ht_find_kvp (s_ht s1) key = Some kv \<and> kv_value kv = Some old")
    case True
    then obtain kv old where f: "sdb_ht_find_kvp (s_ht s1) key = Some kv" "kv_value kv = Some old" by blast
    then have "set_existing s1 kv key old val cas = (c, s')" using assms(5) run by simp
    from set_existing_mem [OF s1(2) assms(4) f this] show ?thesis by (simp add: s1)
  next
    case False
    then have "set_new s1 key val owned = (c, s')" using assms(5) run by (auto split: option.splits)
    moreover have "\<not> set_conflict s key cas" using False s1(1) by (auto simp: set_conflict_def)
    ultimately show ?thesis using set_new_mem [OF s1(2,3) assms(3,4)] by (simp add: s1)
  qed
  then show "mem_inv s'" "ht_count (s_ht s') \<le> ht_count (s_ht s) + 1"
    "mem_view s' = (if set_conflict s key cas then mem_view s
         else (mem_view s)(key := if val = [] then None else Some val))"
    "set_conflict s key cas \<Longrightarrow> c = 0" by blast+
qed

definition set_ok :: "string \<Rightarrow> string \<Rightarrow> bool" where
  "set_ok k v \<longleftrightarrow> length k < SDB_KSZ \<and> length v < SDB_VSZ"

lemma no_cas_no_conflict [simp]: "\<not> set_conflict s key 0"
  by (simp add: set_conflict_def)

lemma sdb_set_mem:
  assumes "mem_inv s" "ht_count (s_ht s) < 2147483647" "set_ok k v" "sdb_set s k (Some v) 0 = (r, s')"
  shows "mem_view s' = put_spec k v (mem_view s)" "mem_inv s' \<and> ht_count (s_ht s') \<le> ht_count (s_ht s) + 1"
proof -
  obtain c where run: "sdb_set_internal s k (Some v) False 0 = (c, s')"
    using assms(4) by (auto simp: sdb_set_def split: prod.splits)
  have l: "length k < SDB_KSZ" "length v < SDB_VSZ" "sdb_room s"
    using assms by (auto simp: set_ok_def sdb_room_def ht_room_def)
  note i = sdb_set_internal_mem [OF assms(1) l(3,1,2) run]
  show "mem_view s' = put_spec k v (mem_view s)" using i(3) by (simp add: put_spec_def)
  show "mem_inv s' \<and> ht_count (s_ht s') \<le> ht_count (s_ht s) + 1" using i(1,2) by simp
qed

lemma sdb_set_owned_mem:
  assumes "mem_inv s" "ht_count (s_ht s) < 2147483647" "set_ok k v" "sdb_set_owned s k (Some v) 0 = (r, s')"
  shows "mem_view s' = put_spec k v (mem_view s)" "mem_inv s' \<and> ht_count (s_ht s') \<le> ht_count (s_ht s) + 1"
proof -
  obtain c where run: "sdb_set_internal s k (Some v) True 0 = (c, s')"
    using assms(4) by (auto simp: sdb_set_owned_def split: prod.splits)
  have l: "length k < SDB_KSZ" "length v < SDB_VSZ" "sdb_room s"
    using assms by (auto simp: set_ok_def sdb_room_def ht_room_def)
  note i = sdb_set_internal_mem [OF assms(1) l(3,1,2) run]
  show "mem_view s' = put_spec k v (mem_view s)" using i(3) by (simp add: put_spec_def)
  show "mem_inv s' \<and> ht_count (s_ht s') \<le> ht_count (s_ht s) + 1" using i(1,2) by simp
qed

interpretation mem_store: kv_store mem_view "\<lambda>s k v. sdb_set s k (Some v) 0" mem_inv
  "\<lambda>s. ht_count (s_ht s)" 2147483647 set_ok
  by unfold_locales (use sdb_set_mem in blast)+

interpretation mem_owned: kv_store mem_view "\<lambda>s k v. sdb_set_owned s k (Some v) 0" mem_inv
  "\<lambda>s. ht_count (s_ht s)" 2147483647 set_ok
  by unfold_locales (use sdb_set_owned_mem in blast)+

lemma sdb_new0_ok: "mem_inv (sdb_new0 now)" "ht_count (s_ht (sdb_new0 now)) = 0" "mem_view (sdb_new0 now) = Map.empty"
  using sdb_ht_new_ok
  by (auto simp: mem_inv_def sdb_new0_def table_wf_def mem_view_def fun_eq_iff cdb_init_def cdb_findstart_def
      blank_cdb_def)

lemma get_mem:
  assumes "mem_inv s"
  shows "sdb_const_get_len s k =
    (case mem_view s k of
       None \<Rightarrow> ((None, 0, 0), s)
     | Some v \<Rightarrow> ((Some v, length v, kv_cas (the (sdb_ht_find_kvp (s_ht s) k))), s))"
proof (cases "sdb_ht_find_kvp (s_ht s) k")
  case None
  then show ?thesis using assms by (simp add: sdb_const_get_len_def mem_view_def get_disk_def mem_inv_def)
next
  case (Some kv)
  have "kv_wf kv" using assms Some by (auto simp: mem_inv_def table_wf_def)
  then have "unat (kv_value_len kv) = length v" if "kv_value kv = Some v" for v
    using that by (simp add: kv_wf_def SDB_VSZ_def unat_of_nat)
  then show ?thesis using assms Some
    by (auto simp: sdb_const_get_len_def mem_view_def mem_inv_def split: option.splits)
qed

lemma sdb_get_mem: "mem_inv s \<Longrightarrow> fst (fst (sdb_get s k)) = mem_view s k \<and> snd (sdb_get s k) = s"
  by (simp add: sdb_get_def sdb_get_len_def get_mem split: option.splits)

lemma sdb_exists_mem: "mem_inv s \<Longrightarrow> sdb_exists s k = (mem_view s k \<noteq> None, s)"
  by (auto simp: sdb_exists_def mem_view_def mem_inv_def split: option.splits)

text \<open>
  C9.  A database without a file behaves as a map from keys to values.  After any sequence of
  \<^verbatim>\<open>sdb_set\<close> calls within the size limits, starting from an empty database, \<^verbatim>\<open>sdb_get\<close> returns
  for every key the value last set, or nothing when that was the empty string or the key
  was never set; \<^verbatim>\<open>sdb_exists\<close> agrees; and reading does not change the database.
\<close>

theorem sdb_memory_map:
  fixes now :: ut64
  assumes "length kvs \<le> 2147483647" "\<forall>(k, v) \<in> set kvs. length k < SDB_KSZ \<and> length v < SDB_VSZ"
  defines "s \<equiv> fold (\<lambda>(k, v) s. snd (sdb_set s k (Some v) 0)) kvs (sdb_new0 now)"
  shows "fst (fst (sdb_get s key)) = fold (\<lambda>(k, v). put_spec k v) kvs Map.empty key
     \<and> snd (sdb_get s key) = s
     \<and> sdb_exists s key = (fold (\<lambda>(k, v). put_spec k v) kvs Map.empty key \<noteq> None, s)"
proof -
  have v: "mem_view s = fold (\<lambda>(k, v). put_spec k v) kvs Map.empty" "mem_inv s"
    using mem_store.puts_view [OF sdb_new0_ok(1), of now kvs] assms(1,2) sdb_new0_ok(2,3)
    by (auto simp: s_def set_ok_def)
  show ?thesis using sdb_get_mem [OF v(2)] sdb_exists_mem [OF v(2)] v(1) by simp
qed

theorem sdb_memory_map_witness:
  "fst (fst (sdb_get (fold (\<lambda>(k, v) s. snd (sdb_set s k (Some v) 0))
     [(''a'', ''1''), (''b'', ''2''), (''a'', ''3''), (''b'', [])] (sdb_new0 5)) ''a'')) = Some ''3''"
  using sdb_memory_map [of "[(''a'', ''1''), (''b'', ''2''), (''a'', ''3''), (''b'', [])]" 5 "''a''"]
  by (simp add: SDB_KSZ_def SDB_VSZ_def)

text \<open>What every set does before it looks for the key: the journal gets its line, and the search in the file starts again.\<close>

definition logged :: "sdb \<Rightarrow> string \<Rightarrow> string \<Rightarrow> sdb" where
  "logged s k v = (snd (sdb_journal_log s k v))\<lparr>s_db := cdb_findstart (s_db s)\<rparr>"

lemma set_internal_found:
  assumes "set_ok k v" "sdb_ht_find_kvp (s_ht s) k = Some kv" "kv_value kv = Some old"
  shows "sdb_set_internal s k (Some v) owned cas = set_existing (logged s k v) kv k old v cas"
  using assms by (auto simp: sdb_set_internal_def set_ok_def logged_def sdb_journal_log_def split: option.splits)

text \<open>
  C21.  Compare-and-swap in a database without a file: let a key have a value, and let it be set with a non-zero \<^verbatim>\<open>cas\<close>.
  If that is the \<^verbatim>\<open>cas\<close> that \<^verbatim>\<open>sdb_get\<close> reports for the key, the key gets the value, and the call returns true unless the
  counter wraps to 0.  Otherwise the call returns false and the table, with every value and counter, the hooks and the rest of
  the database are as they were; only the journal has a line for the set that was refused.
\<close>

theorem sdb_set_compare_and_swap:
  assumes "mem_inv s" "ht_count (s_ht s) < 2147483647" "set_ok k v" "mem_view s k = Some old" "cas \<noteq> 0"
    "sdb_set s k (Some v) cas = (r, s')"
  shows "if snd (fst (sdb_get s k)) = cas then mem_view s' = put_spec k v (mem_view s) \<and> (cas \<noteq> -1 \<longrightarrow> r)
     else \<not> r \<and> s' = logged s k v \<and> mem_view s' = mem_view s"
proof -
  obtain c where run: "sdb_set_internal s k (Some v) False cas = (c, s')" and r: "r \<longleftrightarrow> c \<noteq> 0"
    using assms(6) by (auto simp: sdb_set_def split: prod.splits)
  have l: "length v < SDB_VSZ" using assms by (auto simp: set_ok_def)
  obtain kv where kv: "sdb_ht_find_kvp (s_ht s) k = Some kv" "kv_value kv = Some old"
    using assms(4) by (auto simp: mem_view_def split: option.splits if_splits)
  have ex: "set_existing (logged s k v) kv k old v cas = (c, s')" using set_internal_found [OF assms(3) kv] run by simp
  have s1: "s_ht (logged s k v) = s_ht s" "mem_inv (logged s k v)" "mem_view (logged s k v) = mem_view s"
    using assms(1) by (auto simp: logged_def mem_inv_def cdb_findstart_def mem_view_def fun_eq_iff)
  have e: "snd (fst (sdb_get s k)) = kv_cas kv"
    using assms(1,4) kv by (simp add: sdb_get_def sdb_get_len_def get_mem)
  then have conf: "set_conflict (logged s k v) k cas \<longleftrightarrow> snd (fst (sdb_get s k)) \<noteq> cas"
    using kv assms(5) s1(1) by (auto simp: set_conflict_def)
  note x = set_existing_mem [OF s1(2) l _ kv(2) ex, unfolded s1(1,3) conf, OF kv(1)]
  show ?thesis
  proof (cases "snd (fst (sdb_get s k)) = cas")
    case True
    then have "nextcas kv = cas + 1" using e assms(5) by (auto simp: nextcas_def)
    then show ?thesis using x True e r assms(5) by (auto simp: put_spec_def eq_neg_iff_add_eq_0)
  next
    case False
    have "c_fd (s_db (logged s k v)) = None" using s1(2) by (simp add: mem_inv_def)
    then have "s' = logged s k v"
      using ex False e assms(5) by (auto simp: set_existing_def findnext_closed)
    then show ?thesis using x False r by simp
  qed
qed

theorem sdb_set_compare_and_swap_witness:
  "let s = snd (sdb_set (sdb_new0 0) ''k'' (Some ''v'') 0) in
     snd (fst (sdb_get s ''k'')) = 2
   \<and> sdb_set s ''k'' (Some ''w'') 9 = (False, logged s ''k'' ''w'') \<and> mem_view (snd (sdb_set s ''k'' (Some ''w'') 9)) ''k'' = Some ''v''
   \<and> fst (sdb_set s ''k'' (Some ''w'') 2) \<and> mem_view (snd (sdb_set s ''k'' (Some ''w'') 2)) ''k'' = Some ''w''"
proof -
  define s where "s = snd (sdb_set (sdb_new0 0) ''k'' (Some ''v'') 0)"
  have ok: "set_ok ''k'' ''v''" "set_ok ''k'' ''w''" by (simp_all add: set_ok_def SDB_KSZ_def SDB_VSZ_def)
  have s: "mem_inv s" "mem_view s = put_spec ''k'' ''v'' Map.empty" "ht_count (s_ht s) < 2147483647"
    using sdb_set_mem [OF sdb_new0_ok(1) _ ok(1), of 0 "fst (sdb_set (sdb_new0 0) ''k'' (Some ''v'') 0)" s]
      sdb_new0_ok(2,3) [of 0] by (auto simp: s_def)
  have v: "mem_view s ''k'' = Some ''v''" using s(2) by simp
  have n: "sdb_ht_find_kvp (s_ht (sdb_new0 0)) ''k'' = None" using sdb_ht_new_ok(3) by (simp add: sdb_new0_def)
  have "sdb_set_internal (sdb_new0 0) ''k'' (Some ''v'') False 0 = set_new (logged (sdb_new0 0) ''k'' ''v'') ''k'' ''v'' False"
    using ok(1) n by (simp add: sdb_set_internal_def set_ok_def logged_def sdb_journal_log_def Let_def split: option.splits)
  then have "snd (set_new (logged (sdb_new0 0) ''k'' ''v'') ''k'' ''v'' False) = s" by (simp add: s_def sdb_set_def case_prod_beta)
  then obtain c where "set_new (logged (sdb_new0 0) ''k'' ''v'') ''k'' ''v'' False = (c, s)" by (metis prod.collapse)
  moreover have "mem_inv (logged (sdb_new0 0) ''k'' ''v'')" "sdb_room (logged (sdb_new0 0) ''k'' ''v'')"
    using sdb_new0_ok [of 0] by (auto simp: logged_def mem_inv_def sdb_room_def ht_room_def cdb_findstart_def)
  ultimately have "map_option kv_cas (sdb_ht_find_kvp (s_ht s) ''k'') = Some 2"
    using set_new_mem [of "logged (sdb_new0 0) ''k'' ''v''" "''k''" "''v''" False c s] ok(1) by (simp add: set_ok_def)
  then have c: "snd (fst (sdb_get s ''k'')) = 2" using v s(1) by (auto simp: sdb_get_def sdb_get_len_def get_mem)
  obtain r9 s9 where s9: "sdb_set s ''k'' (Some ''w'') 9 = (r9, s9)" by fastforce
  obtain r2 s2 where s2: "sdb_set s ''k'' (Some ''w'') 2 = (r2, s2)" by fastforce
  show ?thesis unfolding Let_def s_def [symmetric]
    using sdb_set_compare_and_swap [OF s(1,3) ok(2) v _ s9] sdb_set_compare_and_swap [OF s(1,3) ok(2) v _ s2] c s9 s2 v
    by (auto simp: put_spec_def)
qed

text \<open>
  With a file that does not have the key, the \<^verbatim>\<open>cas\<close> is not looked at, and the key is deleted from the table instead of being set.
\<close>

lemma set_deletes_unsaved:
  assumes "set_ok k v" "sdb_ht_find_kvp (s_ht s) k = Some kv" "kv_value kv = Some old"
    and "fst (cdb_findnext (cdb_findstart (s_db s)) (unat (sdb_hash k)) k) = 0" "sdb_set s k (Some v) cas = (r, s')"
  shows "s_ht s' = snd (sdb_ht_delete (s_ht s) k)" "r \<longleftrightarrow> nextcas kv \<noteq> 0"
proof -
  obtain db where db: "cdb_findnext (cdb_findstart (s_db s)) (unat (sdb_hash k)) k = (0, db)" using assms(4) by (metis prod.collapse)
  have "sdb_set_internal s k (Some v) False cas = set_existing (logged s k v) kv k old v cas" by (rule set_internal_found [OF assms(1-3)])
  also have "\<dots> = (nextcas kv, snd (sdb_hook_call ((logged s k v)\<lparr>s_db := db, s_ht := snd (sdb_ht_delete (s_ht s) k)\<rparr>) k v))"
    using db by (simp add: set_existing_def logged_def)
  finally show "s_ht s' = snd (sdb_ht_delete (s_ht s) k)" "r \<longleftrightarrow> nextcas kv \<noteq> 0" using assms(5) by (auto simp: sdb_set_def)
qed

text \<open>
  C22.  The size limits: a key of 255 characters or more, or a value of 16777215 or more, is
  refused and nothing changes, neither the table nor the journal nor the hooks.
\<close>

theorem sdb_set_limits:
  assumes "SDB_KSZ \<le> length k \<or> SDB_VSZ \<le> length v"
  shows "sdb_set s k (Some v) cas = (False, s) \<and> sdb_set_owned s k (Some v) cas = (False, s)"
  using assms by (auto simp: sdb_set_def sdb_set_owned_def sdb_set_internal_def)

theorem sdb_set_limits_witness:
  "sdb_set (sdb_new0 0) (replicate 255 CHR ''k'') (Some ''v'') 0 = (False, sdb_new0 0)"
  using sdb_set_limits [of "replicate 255 CHR ''k''" "''v''" "sdb_new0 0" 0] by (simp add: SDB_KSZ_def)

lemma mem_value_len: "mem_inv s \<Longrightarrow> mem_view s k = Some v \<Longrightarrow> length v < SDB_VSZ \<and> length k < SDB_KSZ \<and> v \<noteq> []"
  by (auto simp: mem_inv_def mem_view_def table_wf_def kv_wf_def split: option.splits if_splits)

text \<open>
  A set with \<^verbatim>\<open>cas\<close> 0 succeeds unless the entry's counter wraps to 0 (or is 0, as in entries
  that were not made by \<^verbatim>\<open>sdb_set\<close>).
\<close>

definition cas_ok :: "sdb \<Rightarrow> bool" where
  "cas_ok s \<longleftrightarrow> (\<forall>k kv. sdb_ht_find_kvp (s_ht s) k = Some kv \<longrightarrow> kv_cas kv \<noteq> 0 \<and> kv_cas kv \<noteq> -1)"

lemma nextcas_pos: "kv_cas kv \<noteq> -1 \<Longrightarrow> nextcas kv \<noteq> 0"
  by (auto simp: nextcas_def eq_neg_iff_add_eq_0)

lemma sdb_set_internal_succeeds:
  assumes "mem_inv s" "cas_ok s" "length key < SDB_KSZ" "length val < SDB_VSZ"
    "sdb_set_internal s key (Some val) owned 0 = (c, s')" "sdb_room s"
  shows "c \<noteq> 0"
proof -
  define s0 where "s0 = (if s_journal s \<noteq> None then snd (sdb_journal_log s key val) else s)"
  define s1 where "s1 = s0\<lparr>s_db := cdb_findstart (s_db s0)\<rparr>"
  have s1: "s_ht s1 = s_ht s" "mem_inv s1" "sdb_room s1"
    using assms(1,6) by (auto simp: s1_def s0_def mem_inv_def cdb_findstart_def sdb_room_def)
  have run: "sdb_set_internal s key (Some val) owned 0 =
      (case sdb_ht_find_kvp (s_ht s1) key of
         Some kv \<Rightarrow> (case kv_value kv of Some old \<Rightarrow> set_existing s1 kv key old val 0 | None \<Rightarrow> set_new s1 key val owned)
       | None \<Rightarrow> set_new s1 key val owned)"
    unfolding sdb_set_internal_def Let_def option.case s0_def [symmetric] s1_def [symmetric]
    using assms(3,4) by simp
  show ?thesis
  proof (cases "\<exists>kv old. sdb_ht_find_kvp (s_ht s1) key = Some kv \<and> kv_value kv = Some old")
    case True
    then obtain kv old where f: "sdb_ht_find_kvp (s_ht s1) key = Some kv" "kv_value kv = Some old" by blast
    have run': "set_existing s1 kv key old val 0 = (c, s')" using assms(5) run f by simp
    have "kv_cas kv \<noteq> 0" "nextcas kv \<noteq> 0" using assms(2) f(1) s1(1) nextcas_pos by (auto simp: cas_ok_def)
    then show ?thesis using set_existing_mem [OF s1(2) assms(4) f run'] by (auto split: if_splits)
  next
    case False
    then have "set_new s1 key val owned = (c, s')" using assms(5) run by (auto split: option.splits)
    from set_new_mem [OF s1(2,3) assms(3,4) this] show ?thesis by simp
  qed
qed

text \<open>
  \<^verbatim>\<open>sdb_rename\<close> on a database in memory moves the value: when the old key has no value the
  call fails and nothing changes; otherwise the old key loses its value and the new key
  has it, and no other key changes.
\<close>

theorem sdb_rename_spec:
  assumes "mem_inv s" "cas_ok s" "ht_count (s_ht s) + 1 < 2147483647" "length new < SDB_KSZ"
    "sdb_rename s old new 0 = (r, s')"
  shows "case mem_view s old of
       None \<Rightarrow> \<not> r \<and> s' = s
     | Some v \<Rightarrow> mem_inv s' \<and> mem_view s' = (mem_view s)(old := None, new \<mapsto> v)"
proof (cases "mem_view s old")
  case None
  then show ?thesis using assms sdb_get_mem [OF assms(1), of old]
    by (auto simp: sdb_rename_def split: prod.splits)
next
  case (Some v)
  have v: "length v < SDB_VSZ" "length old < SDB_KSZ" "v \<noteq> []" using mem_value_len [OF assms(1) Some] by auto
  obtain r1 s1 where u: "sdb_unset s old 0 = (r1, s1)" by fastforce
  have ok: "set_ok old []" "set_ok new v" using v assms(4) by (auto simp: set_ok_def SDB_VSZ_def)
  have cnt: "ht_count (s_ht s) < 2147483647" using assms(3) by simp
  note m1 = sdb_set_mem [OF assms(1) cnt ok(1) u [unfolded sdb_unset_def]]
  have r1: "r1"
  proof -
    obtain c where c: "sdb_set_internal s old (Some []) False 0 = (c, s1)" "r1 \<longleftrightarrow> c \<noteq> 0"
      using u by (auto simp: sdb_unset_def sdb_set_def split: prod.splits)
    have "sdb_room s" using cnt by (simp add: sdb_room_def ht_room_def)
    from sdb_set_internal_succeeds [OF assms(1,2) v(2) _ c(1) this] show ?thesis
      using c(2) by (simp add: SDB_VSZ_def)
  qed
  have run: "sdb_set_owned s1 new (Some v) 0 = (r, s')"
    using assms(5) sdb_get_mem [OF assms(1), of old] Some u r1
    by (auto simp: sdb_rename_def split: prod.splits)
  have cnt1: "ht_count (s_ht s1) < 2147483647" using m1(2) assms(3) by simp
  note m2 = sdb_set_owned_mem [OF conjunct1 [OF m1(2)] cnt1 ok(2) run]
  show ?thesis using m1(1) m2 Some v(3) by (simp add: put_spec_def)
qed

theorem sdb_rename_spec_witness:
  "mem_view (snd (sdb_rename (sdb_new0 0) ''a'' ''b'' 0)) ''b'' = None"
proof -
  let ?s = "sdb_new0 0"
  have "cas_ok ?s" using sdb_ht_new_ok(3) by (simp add: cas_ok_def sdb_new0_def)
  moreover obtain r s' where r: "sdb_rename ?s ''a'' ''b'' 0 = (r, s')" by fastforce
  ultimately have "s' = ?s"
    using sdb_rename_spec [OF sdb_new0_ok(1) _ _ _ r] sdb_new0_ok(2,3) [of 0] by (simp add: SDB_KSZ_def)
  then show ?thesis using r sdb_new0_ok(3) [of 0] by simp
qed

text \<open>
  \<^verbatim>\<open>sdb_concat\<close> and \<^verbatim>\<open>sdb_add\<close> on a database in memory: concatenating appends to the value, or
  sets it when there is none; adding sets only a key without a value, and otherwise fails
  and changes nothing.
\<close>

theorem sdb_concat_add_spec:
  assumes "mem_inv s" "ht_count (s_ht s) < 2147483647" "k \<noteq> []" "length k < SDB_KSZ" "b \<noteq> []" "nonul b"
    "length b + (case mem_view s k of None \<Rightarrow> 0 | Some v \<Rightarrow> length v) < SDB_VSZ"
    "\<forall>v. mem_view s k = Some v \<longrightarrow> nonul v"
    "sdb_concat s k (Some b) 0 = (r1, s1)" "sdb_add s k (Some b) 0 = (r2, s2)"
  shows "mem_view s1 = (mem_view s)(k \<mapsto> (case mem_view s k of None \<Rightarrow> b | Some v \<Rightarrow> v @ b))
     \<and> (if mem_view s k = None then mem_view s2 = (mem_view s)(k \<mapsto> b) else \<not> r2 \<and> s2 = s)"
proof
  show "mem_view s1 = (mem_view s)(k \<mapsto> (case mem_view s k of None \<Rightarrow> b | Some v \<Rightarrow> v @ b))"
  proof (cases "mem_view s k")
    case None
    then have "sdb_set s k (Some b) 0 = (r1, s1)"
      using assms(3,5,9) by (simp add: sdb_concat_def get_mem [OF assms(1)])
    moreover have "set_ok k b" using assms(4,7) None by (simp add: set_ok_def)
    ultimately show ?thesis using sdb_set_mem(1) [OF assms(1,2)] None assms(5) by (simp add: put_spec_def)
  next
    case (Some v)
    have "cstring (take (length v) (v @ [NUL]) @ b) = v @ b"
      using assms(6,8) Some by (auto simp: cstring_def nonul_def takeWhile_eq_all_conv)
    then have "sdb_set_owned s k (Some (v @ b)) 0 = (r1, s1)"
      using assms(3,5,9) Some by (simp add: sdb_concat_def get_mem [OF assms(1)])
    moreover have "set_ok k (v @ b)" using assms(4,7) Some by (simp add: set_ok_def)
    ultimately show ?thesis using sdb_set_owned_mem(1) [OF assms(1,2)] Some assms(5) by (simp add: put_spec_def)
  qed
  show "if mem_view s k = None then mem_view s2 = (mem_view s)(k \<mapsto> b) else \<not> r2 \<and> s2 = s"
  proof (cases "mem_view s k = None")
    case True
    then have "sdb_set s k (Some b) 0 = (r2, s2)" using assms(10) by (simp add: sdb_add_def sdb_exists_mem [OF assms(1)])
    moreover have "set_ok k b" using assms(4,7) True by (simp add: set_ok_def)
    ultimately show ?thesis using sdb_set_mem(1) [OF assms(1,2)] True assms(5) by (simp add: put_spec_def)
  qed (use assms(10) in \<open>auto simp: sdb_add_def sdb_exists_mem [OF assms(1)]\<close>)
qed

theorem sdb_concat_add_spec_witness:
  "mem_view (snd (sdb_concat (sdb_new0 0) ''k'' (Some ''v'') 0)) ''k'' = Some ''v''"
proof -
  obtain r1 s1 r2 s2 where "sdb_concat (sdb_new0 0) ''k'' (Some ''v'') 0 = (r1, s1)"
    "sdb_add (sdb_new0 0) ''k'' (Some ''v'') 0 = (r2, s2)" by fastforce
  from sdb_concat_add_spec [OF sdb_new0_ok(1) _ _ _ _ _ _ _ this] this show ?thesis
    by (simp add: sdb_new0_ok nonul_def SDB_KSZ_def SDB_VSZ_def)
qed

lemma uncat_loop_clean: "b \<noteq> [] \<Longrightarrow> strstr (uncat_loop b v) b = None"
  by (induction b v rule: uncat_loop.induct) (subst uncat_loop.simps, auto)

lemma uncat_loop_length: "length (uncat_loop b v) \<le> length v"
proof (induction b v rule: uncat_loop.induct)
  case (1 b v)
  show ?case
  proof (cases "b = [] \<or> strstr v b = None")
    case False
    then have "length (remove_first b v) < length v" using remove_first_shrinks by auto
    then show ?thesis using 1 False uncat_loop.simps [of b v] by auto
  qed (use uncat_loop.simps [of b v] in auto)
qed

text \<open>
  \<^verbatim>\<open>sdb_uncat\<close> ends, and when it changes a value, no occurrence of the removed string is
  left in the value of the key; other keys keep theirs.
\<close>

theorem sdb_uncat_spec:
  assumes "mem_inv s" "ht_count (s_ht s) < 2147483647" "b \<noteq> []" "sdb_uncat s k (Some b) 0 = (r, s')"
  shows "(case mem_view s' k of None \<Rightarrow> True | Some v \<Rightarrow> strstr v b = None)
     \<and> (\<forall>j. j \<noteq> k \<longrightarrow> mem_view s' j = mem_view s j) \<and> mem_inv s'"
proof (cases "mem_view s k")
  case None
  then show ?thesis using assms by (auto simp: sdb_uncat_def sdb_get_len_def get_mem [OF assms(1)])
next
  case (Some v)
  show ?thesis
  proof (cases "strstr v b = None")
    case True
    then have "s' = s" using assms Some by (auto simp: sdb_uncat_def sdb_get_len_def get_mem [OF assms(1)])
    then show ?thesis using True Some assms(1) by simp
  next
    case False
    let ?v = "uncat_loop b v"
    have run: "sdb_set_owned s k (Some ?v) 0 = (r, s')"
      using assms(3,4) False Some by (auto simp: sdb_uncat_def sdb_get_len_def get_mem [OF assms(1)])
    have "set_ok k ?v" using mem_value_len [OF assms(1) Some] uncat_loop_length [of b v] by (simp add: set_ok_def)
    note m = sdb_set_owned_mem [OF assms(1,2) this run]
    show ?thesis using m uncat_loop_clean [OF assms(3), of v] by (simp add: put_spec_def split: option.splits)
  qed
qed

theorem sdb_uncat_spec_witness:
  "case mem_view (snd (sdb_uncat (sdb_new0 0) ''k'' (Some ''x'') 0)) ''k'' of
     None \<Rightarrow> True | Some v \<Rightarrow> strstr v ''x'' = None"
  using sdb_uncat_spec [OF sdb_new0_ok(1), of 0 "''x''" "''k''"] sdb_new0_ok(2) [of 0]
  by (metis list.simps(3) prod.collapse zero_less_numeral)

section \<open>Formatted keys\<close>

text \<open>
  The \<^verbatim>\<open>printf\<close>-style variants.  The argument \<open>formatted\<close> is what \<^verbatim>\<open>vsnprintf\<close> produces from the
  format and its arguments; \<^verbatim>\<open>sdb_vfmtkey\<close> refuses it when it does not fit \<^verbatim>\<open>SDB_MAX_KEY\<close> bytes.
\<close>

definition sdb_vfmtkey :: "string \<Rightarrow> string option" where
  "sdb_vfmtkey formatted = (if length formatted < SDB_MAX_KEY then Some formatted else None)"

definition sdb_const_vgetf :: "sdb \<Rightarrow> string \<Rightarrow> (string option \<times> ut32) \<times> sdb" where
  "sdb_const_vgetf s formatted =
     (case sdb_vfmtkey formatted of
        Some key \<Rightarrow> sdb_const_get s key
      | None \<Rightarrow> ((None, 0), s))"

definition sdb_const_getf :: "sdb \<Rightarrow> string \<Rightarrow> (string option \<times> ut32) \<times> sdb" where
  "sdb_const_getf s formatted = sdb_const_vgetf s formatted"

definition sdb_getf :: "sdb \<Rightarrow> string \<Rightarrow> (string option \<times> ut32) \<times> sdb" where
  "sdb_getf s formatted = sdb_const_vgetf s formatted"

definition sdb_vsetf :: "sdb \<Rightarrow> string option \<Rightarrow> ut32 \<Rightarrow> string \<Rightarrow> bool \<times> sdb" where
  "sdb_vsetf s val cas formatted =
     (case sdb_vfmtkey formatted of
        Some key \<Rightarrow> sdb_set s key val cas
      | None \<Rightarrow> (False, s))"

definition sdb_setf :: "sdb \<Rightarrow> string option \<Rightarrow> ut32 \<Rightarrow> string \<Rightarrow> bool \<times> sdb" where
  "sdb_setf s val cas formatted = sdb_vsetf s val cas formatted"

definition sdb_unsetf :: "sdb \<Rightarrow> ut32 \<Rightarrow> string \<Rightarrow> bool \<times> sdb" where
  "sdb_unsetf s cas formatted = sdb_vsetf s (Some []) cas formatted"

definition sdb_existsf :: "sdb \<Rightarrow> string \<Rightarrow> bool \<times> sdb" where
  "sdb_existsf s formatted =
     (case sdb_vfmtkey formatted of
        Some key \<Rightarrow> sdb_exists s key
      | None \<Rightarrow> (False, s))"

section \<open>Writing one key\<close>

text \<open>The condition under which a write to a key of a database in memory is within every limit.\<close>

definition mem_ready :: "sdb \<Rightarrow> string \<Rightarrow> bool" where
  "mem_ready s k \<longleftrightarrow> mem_inv s \<and> ht_count (s_ht s) < 2147483647 \<and> length k < SDB_KSZ"

lemma mem_readyD: "mem_ready s k \<Longrightarrow> mem_inv s"
  by (simp add: mem_ready_def)

lemma set_ready_cas:
  assumes "mem_ready s k" "length v < SDB_VSZ" "\<not> set_conflict s k cas"
  shows "mem_view (snd (sdb_set s k (Some v) cas)) = put_spec k v (mem_view s)"
    "mem_inv (snd (sdb_set s k (Some v) cas))"
    "mem_view (snd (sdb_set_owned s k (Some v) cas)) = put_spec k v (mem_view s)"
    "mem_inv (snd (sdb_set_owned s k (Some v) cas))"
    "ht_count (s_ht (snd (sdb_set s k (Some v) cas))) \<le> ht_count (s_ht s) + 1"
    "ht_count (s_ht (snd (sdb_set_owned s k (Some v) cas))) \<le> ht_count (s_ht s) + 1"
proof -
  have l: "mem_inv s" "sdb_room s" "length k < SDB_KSZ"
    using assms by (auto simp: mem_ready_def sdb_room_def ht_room_def)
  have e: "snd (sdb_set s k (Some v) cas) = snd (sdb_set_internal s k (Some v) False cas)"
    "snd (sdb_set_owned s k (Some v) cas) = snd (sdb_set_internal s k (Some v) True cas)"
    by (simp_all add: sdb_set_def sdb_set_owned_def split: prod.splits)
  note a = sdb_set_internal_mem [OF l assms(2) prod.collapse [symmetric], where cas = cas]
  show "mem_view (snd (sdb_set s k (Some v) cas)) = put_spec k v (mem_view s)"
    "mem_view (snd (sdb_set_owned s k (Some v) cas)) = put_spec k v (mem_view s)"
    unfolding e a(3) put_spec_def using assms(3) by simp_all
  show "mem_inv (snd (sdb_set s k (Some v) cas))"
    "mem_inv (snd (sdb_set_owned s k (Some v) cas))"
    "ht_count (s_ht (snd (sdb_set s k (Some v) cas))) \<le> ht_count (s_ht s) + 1"
    "ht_count (s_ht (snd (sdb_set_owned s k (Some v) cas))) \<le> ht_count (s_ht s) + 1"
    unfolding e by (rule a(1) a(2))+
qed

lemmas set_ready = set_ready_cas [where cas = 0, OF _ _ no_cas_no_conflict]

lemma const_get_mem:
  assumes "mem_inv s"
  shows "fst (fst (sdb_const_get s k)) = mem_view s k" "snd (sdb_const_get s k) = s"
    "fst (fst (sdb_const_get_len s k)) = mem_view s k" "snd (sdb_const_get_len s k) = s"
    "fst (snd (fst (sdb_const_get_len s k))) = (case mem_view s k of None \<Rightarrow> 0 | Some v \<Rightarrow> length v)"
  by (simp_all add: sdb_const_get_def get_mem [OF assms] split: option.splits)

lemma const_get_cas: "mem_inv s \<Longrightarrow> \<not> set_conflict s k (snd (snd (fst (sdb_const_get_len s k))))"
  by (auto simp: get_mem set_conflict_def mem_view_def split: option.splits)

text \<open>The database that holds one key, for examples.\<close>

definition single :: "string \<Rightarrow> string \<Rightarrow> sdb" where
  "single k v = snd (sdb_set (sdb_new0 0) k (Some v) 0)"

lemma single_ok:
  assumes "length k < SDB_KSZ" "length v < SDB_VSZ" "v \<noteq> []"
  shows "mem_view (single k v) = [k \<mapsto> v]" "mem_ready (single k v) j \<longleftrightarrow> length j < SDB_KSZ"
    "mem_inv (single k v)" "ht_count (s_ht (single k v)) \<le> 1"
proof -
  have r: "mem_ready (sdb_new0 0) k" using assms(1) sdb_new0_ok(1,2) by (simp add: mem_ready_def)
  note s = set_ready [OF r assms(2)]
  show "mem_view (single k v) = [k \<mapsto> v]" using s(1) assms(3) sdb_new0_ok(3) by (simp add: single_def put_spec_def)
  show 2: "mem_inv (single k v)" "ht_count (s_ht (single k v)) \<le> 1"
    using s(2,5) sdb_new0_ok(2) by (simp_all add: single_def)
  show "mem_ready (single k v) j \<longleftrightarrow> length j < SDB_KSZ" using 2 by (auto simp: mem_ready_def)
qed

end
