(* ===== verification/Journal.thy ===== *)
theory Journal
  imports Sdb_Core
begin

text \<open>
  The journal of a database: \<^verbatim>\<open>src/journal.c\<close> and \<^verbatim>\<open>sdb_config\<close> of \<^verbatim>\<open>src/sdb.c\<close>.

  \<^item> \<open>files\<close> is the part of the file system the journal uses: the contents of the regular files by name.
  \<^item> \<open>name\<close> is \<^verbatim>\<open>s->name\<close>, which does not change after the creation of a database.
  \<^item> While the journal is open its contents are in \<open>s_journal\<close> (the model of \<^verbatim>\<open>s->journal\<close>); a program that
    stops leaves them in the file.  \<open>can\<close> says whether \<^verbatim>\<open>open\<close> succeeds.
  \<^item> Reads and writes of the journal transfer all bytes.
\<close>

section \<open>Operations\<close>

type_synonym files = "string \<Rightarrow> bytes option"

definition SDB_OPTION_SYNC :: ut32 where "SDB_OPTION_SYNC = 1"
definition SDB_OPTION_NOSTAMP :: ut32 where "SDB_OPTION_NOSTAMP = 2"
definition SDB_OPTION_FS :: ut32 where "SDB_OPTION_FS = 4"
definition SDB_OPTION_JOURNAL :: ut32 where "SDB_OPTION_JOURNAL = 8"

definition sdb_journal_filename :: "string option \<Rightarrow> string option" where
  "sdb_journal_filename name =
     (case name of
        None \<Rightarrow> None
      | Some n \<Rightarrow> if length (n @ ''.journal'') \<ge> SDB_MAX_PATH then None else Some (n @ ''.journal''))"

definition sdb_journal_close :: "string option \<Rightarrow> files \<Rightarrow> sdb \<Rightarrow> bool \<times> files \<times> sdb" where
  "sdb_journal_close name fs s =
     (if s_journal s = None then (False, fs, s)
      else
        let s = s\<lparr>s_journal := None\<rparr> in
        case sdb_journal_filename name of
          None \<Rightarrow> (False, fs, s)
        | Some f \<Rightarrow> (True, fs(f := None), s))"

definition sdb_journal_open :: "bool \<Rightarrow> string option \<Rightarrow> files \<Rightarrow> sdb \<Rightarrow> bool \<times> files \<times> sdb" where
  "sdb_journal_open can name fs s =
     (case sdb_journal_filename name of
        None \<Rightarrow> (False, fs, s)
      | Some f \<Rightarrow>
          let fs = (case s_journal s of None \<Rightarrow> fs | Some j \<Rightarrow> fs(f \<mapsto> j)) in
          if can then
            let j = (case fs f of None \<Rightarrow> [] | Some j \<Rightarrow> j)
            in (True, fs(f \<mapsto> j), s\<lparr>s_journal := Some j\<rparr>)
          else (False, fs, s\<lparr>s_journal := None\<rparr>))"

text \<open>The loop over the lines that end in a newline; \<open>cur\<close> is the rest of the string that was read.\<close>

function journal_loop :: "sdb \<Rightarrow> string \<Rightarrow> nat \<Rightarrow> nat \<times> sdb" where
  "journal_loop s cur changes =
     (case strchr cur (CHR 0x0A) of
        None \<Rightarrow> (changes, s)
      | Some ptr \<Rightarrow>
          let line = take (length cur - length ptr) cur in
          case strchr line CHR ''='' of
            None \<Rightarrow> journal_loop s (tl ptr) changes
          | Some eq \<Rightarrow>
              journal_loop (snd (sdb_set s (take (length line - length eq) line) (Some (tl eq)) 0))
                (tl ptr) (changes + 1))"
  by pat_completeness auto
termination
proof (relation "measure (\<lambda>(s, cur, c). length cur)")
  have *: "length (tl ptr) < length cur" if "strchr cur (CHR 0x0A) = Some ptr" for ptr cur
    using strchr_length [OF that] by (cases ptr) auto
  show "\<And>s cur changes ptr line. strchr cur (CHR 0x0A) = Some ptr \<Longrightarrow> line = take (length cur - length ptr) cur \<Longrightarrow>
      strchr line CHR ''='' = None \<Longrightarrow> ((s, tl ptr, changes), s, cur, changes) \<in> measure (\<lambda>(s, cur, c). length cur)"
    using * by simp
  show "\<And>s cur changes ptr line eq. strchr cur (CHR 0x0A) = Some ptr \<Longrightarrow> line = take (length cur - length ptr) cur \<Longrightarrow>
      strchr line CHR ''='' = Some eq \<Longrightarrow>
      ((snd (sdb_set s (take (length line - length eq) line) (Some (tl eq)) 0), tl ptr, changes + 1), s, cur, changes)
        \<in> measure (\<lambda>(s, cur, c). length cur)"
    using * by simp
qed simp

declare journal_loop.simps [simp del]

definition sdb_journal_load :: "sdb \<Rightarrow> nat \<times> sdb" where
  "sdb_journal_load s =
     (case s_journal s of
        None \<Rightarrow> (0, s)
      | Some j \<Rightarrow> if length j < 1 then (0, s) else journal_loop s (cstring j) 0)"

definition sdb_journal_unlink :: "string option \<Rightarrow> files \<Rightarrow> sdb \<Rightarrow> bool \<times> files \<times> sdb" where
  "sdb_journal_unlink name fs s =
     (case sdb_journal_filename name of
        None \<Rightarrow> (False, fs, s)
      | Some f \<Rightarrow>
          (case sdb_journal_close name fs s of
             (_, fs, s) \<Rightarrow> (fs f \<noteq> None, fs(f := None), s)))"

definition sdb_config :: "bool \<Rightarrow> string option \<Rightarrow> files \<Rightarrow> sdb \<Rightarrow> ut32 \<Rightarrow> files \<times> sdb" where
  "sdb_config can name fs s options =
     (let (fs, s) =
        (if options AND SDB_OPTION_JOURNAL \<noteq> 0 then
           case sdb_journal_open can name fs s of
             (_, fs, s) \<Rightarrow> (fs, snd (sdb_journal_clear (snd (sdb_journal_load s))))
         else case sdb_journal_close name fs s of (_, fs, s) \<Rightarrow> (fs, s))
      in (fs, if options AND SDB_OPTION_NOSTAMP \<noteq> 0 then s\<lparr>s_last := 0\<rparr> else s))"

section \<open>Recovery\<close>

text \<open>The entries that a line of the journal can hold.\<close>

definition line_ok :: "string \<Rightarrow> string \<Rightarrow> bool" where
  "line_ok k v \<longleftrightarrow> nonul k \<and> nonul v \<and> CHR 0x0A \<notin> set k \<and> CHR 0x0A \<notin> set v \<and> CHR ''='' \<notin> set k
     \<and> length k + length v + 2 < SDB_MAX_PATH"

definition line :: "string \<times> string \<Rightarrow> string" where
  "line kv = fst kv @ CHR ''='' # snd kv @ [CHR 0x0A]"

lemma set_new_journal [simp]: "s_journal (snd (set_new s k v owned)) = s_journal s"
  by (simp add: set_new_def Let_def split: option.splits)

lemma set_existing_journal [simp]: "s_journal (snd (set_existing s kv k old v cas)) = s_journal s"
  by (simp add: set_existing_def Let_def split: prod.splits)

lemma set_logs:
  assumes "s_journal s = Some j" "line_ok k v"
  shows "s_journal (snd (sdb_set s k (Some v) cas)) = Some (j @ line (k, v))"
proof -
  have l: "length k < SDB_KSZ" "length v < SDB_VSZ" "length (line (k, v)) \<le> SDB_MAX_PATH - 1"
    using assms(2) by (auto simp: line_ok_def SDB_MAX_PATH_def SDB_KSZ_def SDB_VSZ_def line_def)
  then have "snd (sdb_journal_log s k v) = s\<lparr>s_journal := Some (j @ line (k, v))\<rparr>"
    using assms(1) by (simp add: sdb_journal_log_def line_def)
  then show ?thesis using assms(1) l(1,2)
    by (auto simp: sdb_set_def sdb_set_internal_def Let_def split: prod.splits option.splits dest!: arg_cong [where f = snd])
qed

lemma sets_log:
  "s_journal s = Some j \<Longrightarrow> \<forall>(k, v) \<in> set kvs. line_ok k v \<Longrightarrow>
   s_journal (fold (\<lambda>(k, v) s. snd (sdb_set s k (Some v) 0)) kvs s) = Some (j @ concat (map line kvs))"
proof (induction kvs arbitrary: s j)
  case (Cons x kvs)
  obtain k v where x: "x = (k, v)" by fastforce
  have "s_journal (snd (sdb_set s k (Some v) 0)) = Some (j @ line x)" using set_logs Cons.prems x by simp
  from Cons.IH [OF this] show ?case using Cons.prems x by simp
qed simp

lemma journal_loop_line:
  assumes "line_ok k v"
  shows "journal_loop s (line (k, v) @ rest) n = journal_loop (snd (sdb_set s k (Some v) 0)) rest (Suc n)"
proof -
  have "strchr ((k @ CHR ''='' # v) @ CHR 0x0A # rest) (CHR 0x0A) = Some (CHR 0x0A # rest)"
    by (rule strchr_append_sep) (use assms in \<open>auto simp: line_ok_def\<close>)
  moreover have "strchr (k @ CHR ''='' # v) CHR ''='' = Some (CHR ''='' # v)"
    by (rule strchr_append_sep) (use assms in \<open>auto simp: line_ok_def\<close>)
  ultimately show ?thesis by (subst journal_loop.simps) (simp add: line_def)
qed

lemma journal_loop_lines:
  "\<forall>(k, v) \<in> set kvs. line_ok k v \<Longrightarrow>
   journal_loop s (concat (map line kvs)) n = (n + length kvs, fold (\<lambda>(k, v) s. snd (sdb_set s k (Some v) 0)) kvs s)"
proof (induction kvs arbitrary: s n)
  case Nil
  then show ?case by (simp add: journal_loop.simps)
next
  case (Cons x kvs)
  then show ?case by (cases x) (simp add: journal_loop_line)
qed

lemma lines_nonul: "\<forall>(k, v) \<in> set kvs. line_ok k v \<Longrightarrow> nonul (concat (map line kvs))"
  by (induction kvs) (auto simp: line_def line_ok_def)

text \<open>Loading replays the calls that were logged.\<close>

lemma journal_load_replays:
  assumes "s_journal s = Some (concat (map line kvs))" "\<forall>(k, v) \<in> set kvs. line_ok k v"
  shows "sdb_journal_load s = (length kvs, fold (\<lambda>(k, v) s. snd (sdb_set s k (Some v) 0)) kvs s)"
proof (cases kvs)
  case Nil
  then show ?thesis using assms by (simp add: sdb_journal_load_def)
next
  case (Cons x xs)
  then have "\<not> length (concat (map line kvs)) < 1" by (cases x) (simp add: line_def)
  then show ?thesis using assms journal_loop_lines [OF assms(2), of s 0] cstring_id [OF lines_nonul [OF assms(2)]]
    by (auto simp: sdb_journal_load_def)
qed

lemma journal_irrelevant: "mem_inv (s\<lparr>s_journal := x\<rparr>) = mem_inv s" "mem_view (s\<lparr>s_journal := x\<rparr>) = mem_view s"
  by (simp_all add: mem_inv_def mem_view_def fun_eq_iff)

lemma mem_last [simp]: "mem_inv (s\<lparr>s_last := x\<rparr>) = mem_inv s" "mem_view (s\<lparr>s_last := x\<rparr>) = mem_view s"
  by (simp_all add: mem_inv_def mem_view_def fun_eq_iff)

text \<open>Turning journaling on for a new database: the file is opened, replayed and cleared.\<close>

lemma config_recovers:
  assumes "sdb_journal_filename name = Some f" "fs f = Some (concat (map line kvs)) \<or> fs f = None \<and> kvs = []"
    "\<forall>(k, v) \<in> set kvs. line_ok k v" "length kvs \<le> 2147483647"
    "sdb_config True name fs (sdb_new0 now) SDB_OPTION_JOURNAL = (fs', s)"
  shows "mem_inv s" "mem_view s = fold (\<lambda>(k, v). put_spec k v) kvs Map.empty" "s_journal s = Some []"
    "ht_count (s_ht s) \<le> length kvs"
proof -
  let ?s0 = "(sdb_new0 now)\<lparr>s_journal := Some (concat (map line kvs))\<rparr>"
  let ?s1 = "fold (\<lambda>(k, v) s. snd (sdb_set s k (Some v) 0)) kvs ?s0"
  have o: "snd (snd (sdb_journal_open True name fs (sdb_new0 now))) = ?s0"
    using assms(1,2) by (auto simp: sdb_journal_open_def sdb_new0_def Let_def)
  have "sdb_journal_load ?s0 = (length kvs, ?s1)" by (rule journal_load_replays) (use assms(3) in simp_all)
  moreover have j: "s_journal ?s1 = Some (concat (map line kvs) @ concat (map line kvs))"
    by (rule sets_log) (use assms(3) in simp_all)
  ultimately have s: "s = ?s1\<lparr>s_journal := Some []\<rparr>"
    using assms(5) o
    by (simp add: sdb_config_def SDB_OPTION_JOURNAL_def SDB_OPTION_NOSTAMP_def sdb_journal_clear_def split: prod.splits)
  have ok: "\<forall>(k, v) \<in> set kvs. set_ok k v"
    using assms(3) by (auto simp: line_ok_def set_ok_def SDB_MAX_PATH_def SDB_KSZ_def SDB_VSZ_def)
  have n: "mem_inv ?s0" "mem_view ?s0 = Map.empty" "ht_count (s_ht ?s0) = 0"
    using sdb_new0_ok [of now] by (simp_all add: journal_irrelevant)
  note v = mem_store.puts_view [OF n(1), of kvs]
  show "mem_inv s" "mem_view s = fold (\<lambda>(k, v). put_spec k v) kvs Map.empty" "s_journal s = Some []"
    "ht_count (s_ht s) \<le> length kvs"
    using v n assms(4) ok by (simp_all add: s journal_irrelevant)
qed

text \<open>
  C38.  Recovery from the journal.  A new database with journaling on runs any sequence of \<^verbatim>\<open>sdb_set\<close> calls
  whose keys have no equals sign, whose keys and values have no newline, and whose lines are shorter than \<^verbatim>\<open>SDB_MAX_PATH\<close>.  When the program
  stops and a new database is configured on the file that is left, it holds exactly the values of
  the old one.
\<close>

theorem journal_recovery:
  assumes "sdb_journal_filename name = Some f" "fs f = None" "length kvs \<le> 2147483647"
    "\<forall>(k, v) \<in> set kvs. line_ok k v"
    "sdb_config True name fs (sdb_new0 now) SDB_OPTION_JOURNAL = (fs1, s1)"
  defines "s2 \<equiv> fold (\<lambda>(k, v) s. snd (sdb_set s k (Some v) 0)) kvs s1"
  assumes "sdb_config True name (fs1(f := s_journal s2)) (sdb_new0 now') SDB_OPTION_JOURNAL = (fs3, s3)"
  shows "mem_view s3 = mem_view s2 \<and> mem_view s3 = fold (\<lambda>(k, v). put_spec k v) kvs Map.empty
     \<and> fst (fst (sdb_get s3 key)) = fst (fst (sdb_get s2 key))"
proof -
  note a = config_recovers [OF assms(1) _ _ _ assms(5), of "[]"]
  have s1: "mem_inv s1" "mem_view s1 = Map.empty" "s_journal s1 = Some []" "ht_count (s_ht s1) = 0"
    using a assms(2) by simp_all
  have ok: "\<forall>(k, v) \<in> set kvs. set_ok k v"
    using assms(4) by (auto simp: line_ok_def set_ok_def SDB_MAX_PATH_def SDB_KSZ_def SDB_VSZ_def)
  have s2: "mem_inv s2" "mem_view s2 = fold (\<lambda>(k, v). put_spec k v) kvs Map.empty"
    using mem_store.puts_view [OF s1(1), of kvs] s1 assms(3) ok by (simp_all add: s2_def)
  have j: "s_journal s2 = Some (concat (map line kvs))"
    unfolding s2_def using sets_log [OF s1(3) assms(4)] by simp
  note b = config_recovers [OF assms(1) _ assms(4,3,7)]
  have "mem_inv s3" "mem_view s3 = fold (\<lambda>(k, v). put_spec k v) kvs Map.empty"
    using b j by simp_all
  then show ?thesis using s2 sdb_get_mem [of s3 key] sdb_get_mem [of s2 key] by simp
qed

theorem journal_recovery_witness:
  "let name = Some ''db''; kvs = [(''a'', ''1''), (''b'', ''2''), (''a'', '''')];
       (fs1, s1) = sdb_config True name Map.empty (sdb_new0 0) SDB_OPTION_JOURNAL;
       s2 = fold (\<lambda>(k, v) s. snd (sdb_set s k (Some v) 0)) kvs s1;
       (fs3, s3) = sdb_config True name (fs1(''db.journal'' := s_journal s2)) (sdb_new0 9) SDB_OPTION_JOURNAL
   in mem_view s3 = [''b'' \<mapsto> ''2'']"
proof -
  let ?kvs = "[(''a'', ''1''), (''b'', ''2''), (''a'', '''')] :: (string \<times> string) list"
  obtain fs1 s1 where c1: "sdb_config True (Some ''db'') Map.empty (sdb_new0 0) SDB_OPTION_JOURNAL = (fs1, s1)" by fastforce
  let ?s2 = "fold (\<lambda>(k, v) s. snd (sdb_set s k (Some v) 0)) ?kvs s1"
  obtain fs3 s3 where c3: "sdb_config True (Some ''db'') (fs1(''db.journal'' := s_journal ?s2)) (sdb_new0 9) SDB_OPTION_JOURNAL = (fs3, s3)"
    by fastforce
  have h: "sdb_journal_filename (Some ''db'') = Some ''db.journal''" "\<forall>(k, v) \<in> set ?kvs. line_ok k v"
    by (simp_all add: sdb_journal_filename_def SDB_MAX_PATH_def line_ok_def)
  have "mem_view s3 = fold (\<lambda>(k, v). put_spec k v) ?kvs Map.empty"
    by (rule journal_recovery [OF h(1) _ _ h(2) c1 c3, THEN conjunct2, THEN conjunct1]) simp_all
  then show ?thesis using c1 c3 by (auto simp: put_spec_def)
qed

text \<open>
  The file is cleared as soon as it was replayed, before anything is written to the database file:
  a second stop without another set leaves an empty journal, and the values are lost.
\<close>

lemma recovery_clears_journal:
  assumes "sdb_journal_filename name = Some f" "fs f = Some (concat (map line kvs))"
    "\<forall>(k, v) \<in> set kvs. line_ok k v" "length kvs \<le> 2147483647"
    "sdb_config True name fs (sdb_new0 now) SDB_OPTION_JOURNAL = (fs', s)"
  shows "s_journal s = Some []"
  using config_recovers(3) [OF assms(1) _ assms(3,4,5)] assms(2) by simp

text \<open>\<^verbatim>\<open>sdb_journal_unlink\<close> closes the journal, which already removes the file, and then reports that it could not remove it.\<close>

lemma journal_unlink_open:
  "sdb_journal_filename name = Some f \<Longrightarrow> s_journal s \<noteq> None \<Longrightarrow>
   sdb_journal_unlink name fs s = (False, fs(f := None), s\<lparr>s_journal := None\<rparr>)"
  by (auto simp: sdb_journal_unlink_def sdb_journal_close_def)

end
