(* ===== verification/Base64.thy ===== *)
theory Base64
  imports Sdb_Prelude
begin

text \<open>
  \<^verbatim>\<open>src/base64.c\<close>: the encoder and the decoder of binary values.  Binary data are
  lists of bytes of type \<open>ut8\<close>, encoded text is a string.  The decoder reads one
  group of four characters at a time and sees the terminator of the input when the
  last group is short.
\<close>

definition cb64 :: string where
  "cb64 = ''ABCDEFGHIJKLMNOPQRSTUVWXYZabcdefghijklmnopqrstuvwxyz0123456789+/''"

definition cd64 :: string where
  "cd64 = ''|$$$}rstuvwxyz{$$$$$$$>?@ABCDEFGHIJKLMNOPQRSTUVW$$$$$$XYZ['' @ [CHR 0x5C]
     @ '']^_'' @ [CHR 0x60] @ ''abcdefghijklmnopq''"

text \<open>\<^verbatim>\<open>sdb_b64_encode\<close> on the first \<open>len\<close> bytes of \<open>in\<close>, \<open>1 \<le> len \<le> 3\<close>.\<close>

definition b64_char :: "ut8 \<Rightarrow> char" where
  "b64_char w = cb64 ! unat w"

definition sdb_b64_encode :: "ut8 list \<Rightarrow> nat \<Rightarrow> string" where
  "sdb_b64_encode bin len =
     (let in0 = bin ! 0; in1 = bin ! 1; in2 = bin ! 2 in
      if len < 1 then []
      else
        [b64_char (drop_bit 2 in0),
         b64_char (push_bit 4 (in0 AND 0x03) OR (if len > 1 then drop_bit 4 (in1 AND 0xf0) else 0)),
         (if len > 1
          then b64_char (push_bit 2 (in1 AND 0x0f) OR (if len > 2 then drop_bit 6 (in2 AND 0xc0) else 0))
          else CHR ''=''),
         (if len > 2 then b64_char (in2 AND 0x3f) else CHR ''='')])"

text \<open>
  The loop of \<^verbatim>\<open>sdb_b64_decode\<close> over its four characters: \<open>None\<close> is the early return
  of \<open>-1\<close>, otherwise the length and the array \<open>v\<close>.  A pad or any other character
  that the table maps to \<^verbatim>\<open>'$'\<close> ends the group.
\<close>

fun b64_scan :: "string \<Rightarrow> nat \<Rightarrow> ut8 list \<Rightarrow> (int \<times> ut8 list) option" where
  "b64_scan [] i v = Some (3, v)"
| "b64_scan (c # cs) i v =
     (if (of_char c :: nat) < 43 \<or> (of_char c :: nat) > 122 then None
      else
        let x = cd64 ! (of_char c - 43) in
        if x = CHR ''$''
        then Some (if i \<noteq> 0 then int i - 1 else - 1, v[i := of_char x])
        else b64_scan cs (Suc i) (v[i := of_char x - 62]))"

definition sdb_b64_decode :: "string \<Rightarrow> int \<times> ut8 list" where
  "sdb_b64_decode inp =
     (case b64_scan (take 4 inp) 0 [0, 0, 0, 0] of
        None \<Rightarrow> (- 1, [])
      | Some (len, v) \<Rightarrow>
          (len, [push_bit 2 (v ! 0) OR drop_bit 4 (v ! 1),
                 push_bit 4 (v ! 1) OR drop_bit 2 (v ! 2),
                 (push_bit 6 (v ! 2) AND 0xc0) OR v ! 3]))"

function sdb_encode_raw :: "ut8 list \<Rightarrow> string" where
  "sdb_encode_raw bin =
     (if bin = [] then []
      else sdb_b64_encode bin (if length bin > 3 then 3 else length bin) @ sdb_encode_raw (drop 3 bin))"
  by pat_completeness auto
termination
  by (relation "measure length") auto

declare sdb_encode_raw.simps [simp del]

text \<open>
  \<^verbatim>\<open>sdb_decode_raw\<close>: \<open>n\<close> is the read index, \<open>out\<close> the bytes before the write index;
  the bytes beyond the write index are overwritten by the next group.
\<close>

function decode_raw_loop :: "string \<Rightarrow> nat \<Rightarrow> ut8 list \<Rightarrow> nat \<times> ut8 list" where
  "decode_raw_loop bin n out =
     (if bin = [] then (n, out)
      else let (ret, o3) = sdb_b64_decode (bin @ [NUL]) in
        if ret < 1 then (n, out)
        else decode_raw_loop (drop 4 bin) (n + 4) (out @ take (nat ret) o3))"
  by pat_completeness auto
termination
  by (relation "measure (\<lambda>(bin, n, out). length bin)") auto

declare decode_raw_loop.simps [simp del]

definition sdb_decode_raw :: "string \<Rightarrow> ut8 list" where
  "sdb_decode_raw bin =
     (let (n, out) = decode_raw_loop bin 0 [] in if n \<noteq> length out then out else [])"

text \<open>\<^verbatim>\<open>sdb_encode\<close> with an explicit length; a negative length measures a C string.\<close>

definition sdb_encode :: "ut8 list \<Rightarrow> int \<Rightarrow> string" where
  "sdb_encode bin len =
     (let data = (if len < 0 then takeWhile (\<lambda>b. b \<noteq> 0) bin else take (nat len) bin)
      in if data = [] then [] else sdb_encode_raw data)"

definition sdb_decode :: "string \<Rightarrow> ut8 list option" where
  "sdb_decode inp =
     (let ilen = length inp; size = (ilen * 3 + 16) mod 2 ^ 32 in
      if ilen = 0 then None
      else if size < ilen then None
      else let out = sdb_decode_raw inp in if out = [] then None else Some out)"

section \<open>Lemmas\<close>

text \<open>The decoding table inverts the encoding table.\<close>

definition b64_val :: "char \<Rightarrow> ut8" where
  "b64_val c = of_char (cd64 ! (of_char c - 43)) - 62"

lemma b64_table:
  "list_all (\<lambda>i. let c = cb64 ! i in
     43 \<le> (of_char c :: nat) \<and> (of_char c :: nat) \<le> 122
     \<and> cd64 ! (of_char c - 43) \<noteq> CHR ''$'' \<and> b64_val c = word_of_nat i) [0..<64]"
  by code_simp

lemma b64_char_decode:
  assumes "unat w < 64"
  shows "43 \<le> (of_char (b64_char w) :: nat)" "(of_char (b64_char w) :: nat) \<le> 122"
    "cd64 ! (of_char (b64_char w) - 43) \<noteq> CHR ''$''" "b64_val (b64_char w) = w"
  using b64_table assms by (auto simp: list_all_iff b64_char_def Let_def)

lemma b64_scan_char:
  "unat w < 64 \<Longrightarrow> b64_scan (b64_char w # cs) i v = b64_scan cs (Suc i) (v[i := w])"
  using b64_char_decode [of w] by (simp add: b64_val_def Let_def)

lemma b64_scan_pad: "b64_scan (CHR ''='' # cs) i v =
   Some (if i \<noteq> 0 then int i - 1 else - 1, v[i := 36])"
  by (simp add: cd64_def)

lemma six_bits:
  assumes "\<not> bit w 6" "\<not> bit w 7" shows "unat (w :: ut8) < 64"
proof -
  have "take_bit 6 w = w"
  proof (rule bit_word_eqI)
    fix n assume "n < LENGTH(8)"
    then have "n < 6 \<or> n = 6 \<or> n = 7" by auto
    then show "bit (take_bit 6 w) n = bit w n" using assms by (auto simp: bit_simps)
  qed
  then have "unat w = take_bit 6 (unat w)" by (metis unsigned_take_bit_eq)
  also have "\<dots> < 2 ^ 6" by (rule take_bit_nat_less_exp)
  finally show ?thesis by simp
qed

lemma less_8_cases: "(n :: nat) < 8 \<Longrightarrow> n \<in> {0,1,2,3,4,5,6,7}"
  by (auto simp: numeral_eq_Suc less_Suc_eq)

lemma byte_eqI: "(\<And>n. n \<in> {0,1,2,3,4,5,6,7} \<Longrightarrow> bit a n = bit b n) \<Longrightarrow> a = (b :: ut8)"
  by (rule bit_word_eqI) (use less_8_cases in auto)

lemma no_high_bit: "8 \<le> n \<Longrightarrow> \<not> bit (a :: ut8) n"
  using bit_imp_le_length [of a n] by auto

text \<open>The four six-bit groups of three bytes.\<close>

definition sext1 :: "ut8 \<Rightarrow> ut8 \<Rightarrow> ut8" where
  "sext1 a b = push_bit 4 (a AND 0x03) OR drop_bit 4 (b AND 0xf0)"

definition sext2 :: "ut8 \<Rightarrow> ut8 \<Rightarrow> ut8" where
  "sext2 b c = push_bit 2 (b AND 0x0f) OR drop_bit 6 (c AND 0xc0)"

definition sext3 :: "ut8 \<Rightarrow> ut8" where
  "sext3 c = c AND 0x3f"

lemma sextets [simp]:
  "unat (drop_bit 2 a :: ut8) < 64" "unat (sext1 a b) < 64" "unat (sext2 b c) < 64" "unat (sext3 c) < 64"
  by (rule six_bits; simp add: sext1_def sext2_def sext3_def bit_simps no_high_bit)+

lemma octet0: "push_bit 2 (drop_bit 2 a) OR drop_bit 4 (sext1 a b) = a"
  by (rule byte_eqI) (auto simp: sext1_def bit_simps no_high_bit simp flip: numeral_2_eq_2 numeral_3_eq_3)

lemma octet1: "push_bit 4 (sext1 a b) OR drop_bit 2 (sext2 b c) = b"
  by (rule byte_eqI) (auto simp: sext1_def sext2_def bit_simps no_high_bit)

lemma octet2: "(push_bit 6 (sext2 b c) AND 0xc0) OR sext3 c = c"
  by (rule byte_eqI) (auto simp: sext2_def sext3_def bit_simps no_high_bit)

lemma encode_groups:
  "sdb_b64_encode [a] (Suc 0) = [b64_char (drop_bit 2 a), b64_char (sext1 a 0), CHR ''='', CHR ''='']"
  "sdb_b64_encode [a, b] (Suc (Suc 0)) = [b64_char (drop_bit 2 a), b64_char (sext1 a b), b64_char (sext2 b 0), CHR ''='']"
  "sdb_b64_encode (a # b # c # ds) 3 =
     [b64_char (drop_bit 2 a), b64_char (sext1 a b), b64_char (sext2 b c), b64_char (sext3 c)]"
  by (simp_all add: sdb_b64_encode_def sext1_def sext2_def sext3_def)

lemma decode_encode_group:
  assumes "bin \<noteq> []"
  shows "case sdb_b64_decode (sdb_b64_encode bin (if length bin > 3 then 3 else length bin) @ r) of
    (ret, out) \<Rightarrow> ret = int (min 3 (length bin)) \<and> take (nat ret) out = take 3 bin"
proof -
  note sc = encode_groups b64_scan_char b64_scan_pad
  consider a where "bin = [a]" | a b where "bin = [a, b]" | a b c ds where "bin = a # b # c # ds"
    using assms by (metis list.exhaust)
  then show ?thesis
  proof cases
    case 1
    then show ?thesis
      by (simp add: sdb_b64_decode_def sc octet0 del: b64_scan.simps(2))
  next
    case 2
    then show ?thesis
      by (simp add: sdb_b64_decode_def sc octet0 octet1 del: b64_scan.simps(2))
  next
    case 3
    then have "(if length bin > 3 then 3 else length bin) = 3" "min 3 (length bin) = 3" by auto
    with 3 show ?thesis
      by (simp add: sdb_b64_decode_def sc octet0 octet1 octet2 del: b64_scan.simps(2))
  qed
qed

lemma b64_encode_length: "0 < len \<Longrightarrow> length (sdb_b64_encode bin len) = 4"
  by (simp add: sdb_b64_encode_def Let_def)

lemma groups_step: "0 < n \<Longrightarrow> (n + 2) div 3 = Suc ((n - 3 + 2) div 3)" for n :: nat
  by presburger

lemma decode_raw_loop_encode:
  "decode_raw_loop (sdb_encode_raw bin) n out = (n + 4 * ((length bin + 2) div 3), out @ bin)"
proof (induction bin arbitrary: n out rule: sdb_encode_raw.induct)
  case (1 bin)
  show ?case
  proof (cases "bin = []")
    case True
    then show ?thesis by (simp add: sdb_encode_raw.simps decode_raw_loop.simps)
  next
    case False
    let ?g = "sdb_b64_encode bin (if length bin > 3 then 3 else length bin)"
    have g: "length ?g = 4" using False by (simp add: b64_encode_length)
    obtain ret o3 where d: "sdb_b64_decode (?g @ sdb_encode_raw (drop 3 bin) @ [NUL]) = (ret, o3)" by fastforce
    have r: "ret = int (min 3 (length bin))" "take (nat ret) o3 = take 3 bin"
      using decode_encode_group [OF False, of "sdb_encode_raw (drop 3 bin) @ [NUL]"] d by auto
    have r1: "\<not> ret < 1" using r(1) False by (cases bin) auto
    have e: "sdb_encode_raw bin = ?g @ sdb_encode_raw (drop 3 bin)"
      using False by (subst sdb_encode_raw.simps) simp
    have "decode_raw_loop (sdb_encode_raw bin) n out =
        decode_raw_loop (sdb_encode_raw (drop 3 bin)) (n + 4) (out @ take 3 bin)"
      using g d r r1 by (subst decode_raw_loop.simps) (auto simp: e)
    also have "\<dots> = (n + 4 + 4 * ((length (drop 3 bin) + 2) div 3), (out @ take 3 bin) @ drop 3 bin)"
      by (rule "1.IH" [OF False])
    also have "n + 4 + 4 * ((length (drop 3 bin) + 2) div 3) = n + 4 * ((length bin + 2) div 3)"
      using groups_step [of "length bin"] False by simp
    finally show ?thesis by simp
  qed
qed

lemma encode_raw_length: "length (sdb_encode_raw bin) = 4 * ((length bin + 2) div 3)"
proof (induction bin rule: sdb_encode_raw.induct)
  case (1 bin)
  show ?case
  proof (cases "bin = []")
    case True
    then show ?thesis by (simp add: sdb_encode_raw.simps)
  next
    case False
    then show ?thesis
      using "1.IH" [OF False] groups_step [of "length bin"]
      by (subst sdb_encode_raw.simps) (simp add: b64_encode_length)
  qed
qed

lemma decode_group_length: "sdb_b64_decode s = (ret, o3) \<Longrightarrow> ret \<ge> 1 \<Longrightarrow> length o3 = 3"
  by (auto simp: sdb_b64_decode_def split: option.splits prod.splits)

lemma decode_raw_loop_length:
  "length (snd (decode_raw_loop bin n out)) \<le> length out + 3 * ((length bin + 3) div 4)"
proof (induction bin n out rule: decode_raw_loop.induct)
  case (1 bin n out)
  obtain ret o3 where d: "sdb_b64_decode (bin @ [NUL]) = (ret, o3)" by fastforce
  show ?case
  proof (cases "bin = [] \<or> ret < 1")
    case True
    with d show ?thesis by (subst decode_raw_loop.simps) auto
  next
    case False
    then have b: "bin \<noteq> []" "\<not> ret < 1" by auto
    have o: "length (take (nat ret) o3) \<le> 3"
      using decode_group_length [OF d] b by simp
    have "length (snd (decode_raw_loop (drop 4 bin) (n + 4) (out @ take (nat ret) o3)))
        \<le> length (out @ take (nat ret) o3) + 3 * ((length (drop 4 bin) + 3) div 4)"
      using "1.IH" [OF b(1) d [symmetric] refl b(2)] .
    moreover have "(length (drop 4 bin) + 3) div 4 + 1 \<le> (length bin + 3) div 4"
    proof -
      have "0 < length bin" using b by simp
      then show ?thesis unfolding length_drop by presburger
    qed
    moreover have "decode_raw_loop bin n out = decode_raw_loop (drop 4 bin) (n + 4) (out @ take (nat ret) o3)"
      using b d by (subst decode_raw_loop.simps) simp
    ultimately show ?thesis using o by (simp only: length_append)
  qed
qed

lemma decode_encode:
  assumes "bin \<noteq> []" and "length bin < 2 ^ 28"
  shows "sdb_decode (sdb_encode bin (int (length bin))) = Some bin"
proof -
  let ?e = "sdb_encode_raw bin"
  have len: "length ?e = 4 * ((length bin + 2) div 3)" by (rule encode_raw_length)
  have "0 < (length bin + 2) div 3" using assms(1) by (cases bin) (auto simp: div_greater_zero_iff)
  then have "0 < length ?e" unfolding len by simp
  moreover have "length ?e * 3 + 16 < 2 ^ 32" using assms(2) unfolding len by auto
  moreover have "sdb_decode_raw ?e = bin"
  proof -
    have "4 * ((length bin + 2) div 3) \<noteq> length bin"
    proof -
      have "0 < length bin" using assms(1) by simp
      moreover have "length bin \<le> 3 * ((length bin + 2) div 3)" by linarith
      ultimately show ?thesis by linarith
    qed
    then show ?thesis by (simp add: sdb_decode_raw_def decode_raw_loop_encode)
  qed
  ultimately show ?thesis using assms(1) by (auto simp: sdb_decode_def sdb_encode_def Let_def)
qed

text \<open>C4. Decoding the encoding of any non-empty byte sequence (of less than \<open>2 ^ 28\<close> bytes,
  so that the size computations of the decoder do not overflow an \<^verbatim>\<open>int\<close>) gives the
  bytes back; zero bytes are allowed.\<close>
theorem base64_roundtrip:
  assumes "bin \<noteq> []" and "length bin < 2 ^ 28"
  shows "sdb_decode (sdb_encode bin (int (length bin))) = Some bin"
  by (rule decode_encode [OF assms])

theorem base64_roundtrip_witness:
  "[0, 255, 7, 9] \<noteq> ([] :: ut8 list) \<and> length [0, 255, 7, 9 :: ut8] < 2 ^ 28
   \<and> sdb_decode (sdb_encode [0, 255, 7, 9] 4) = Some [0, 255, 7, 9]"
  using base64_roundtrip [of "[0, 255, 7, 9]"] by simp

text \<open>The encoder stays in the buffer of \<open>8 + 2 * len\<close> bytes that \<^verbatim>\<open>sdb_encode\<close>
  allocates, terminator included, and the decoder in the \<open>3 * ilen + 16\<close> bytes of
  \<^verbatim>\<open>sdb_decode\<close>, even though each group writes three bytes at the write index.\<close>
theorem base64_buffers:
  "length (sdb_encode_raw bin) + 1 \<le> 8 + 2 * length bin
   \<and> length (sdb_decode_raw s) + 3 \<le> 3 * length s + 16"
proof
  show "length (sdb_encode_raw bin) + 1 \<le> 8 + 2 * length bin"
    unfolding encode_raw_length by presburger
  have "length (sdb_decode_raw s) \<le> 3 * ((length s + 3) div 4)"
    using decode_raw_loop_length [of s 0 "[]"]
    by (auto simp: sdb_decode_raw_def case_prod_beta Let_def)
  then show "length (sdb_decode_raw s) + 3 \<le> 3 * length s + 16" by linarith
qed

end
