(* ===== verification/Match.thy ===== *)
theory Match
  imports Base64 "HOL-Library.Sublist"
begin

text \<open>
  Pattern matching of keys and values: \<^verbatim>\<open>src/match.c\<close>.  A pattern and a text are byte lists without the
  terminating NUL; the text may hold NULs when it was decoded from base64.  Pointers are suffixes, and
  the length that goes with a pattern is an argument as in C, since the flag suffixes stay behind it.
\<close>

section \<open>Operations\<close>

definition haveSuffix :: "string \<Rightarrow> nat \<Rightarrow> string \<Rightarrow> bool" where
  "haveSuffix glob glob_len sfx \<longleftrightarrow>
     glob_len > length sfx \<and> strcmp (drop (glob_len - length sfx) glob) sfx = 0"

definition havePrefix :: "string \<Rightarrow> nat \<Rightarrow> string \<Rightarrow> bool" where
  "havePrefix glob glob_len pfx \<longleftrightarrow> length pfx < glob_len \<and> strneq glob pfx (length pfx)"

definition SDB_LIKE_NONE :: nat where "SDB_LIKE_NONE = 0"
definition SDB_LIKE_ICASE :: nat where "SDB_LIKE_ICASE = 1"
definition SDB_LIKE_START :: nat where "SDB_LIKE_START = 2"
definition SDB_LIKE_END :: nat where "SDB_LIKE_END = 4"
definition SDB_LIKE_BASE64 :: nat where "SDB_LIKE_BASE64 = 8"
definition SDB_LIKE_GLOB :: nat where "SDB_LIKE_GLOB = 16"

definition tolower :: "char \<Rightarrow> char" where
  "tolower c = (let n = (of_char c :: nat) in if 65 \<le> n \<and> n \<le> 90 then char_of (n + 32) else c)"

definition chareq :: "char \<Rightarrow> char \<Rightarrow> bool \<Rightarrow> bool" where
  "chareq a b icase \<longleftrightarrow> (if icase then tolower a = tolower b else a = b)"

text \<open>
  The loop of \<^verbatim>\<open>globmatch\<close>.  \<open>star\<close> holds the pattern behind the last \<^verbatim>\<open>*\<close> and the text \<^verbatim>\<open>sa\<close> it is tried on
  (\<open>None\<close> while \<^verbatim>\<open>star\<close> is NULL).  In the loop \<^verbatim>\<open>sa\<close> is never at the end of the text, so that the case \<open>[]\<close>
  does not occur.
\<close>

function glob_loop :: "bool \<Rightarrow> string \<Rightarrow> string \<Rightarrow> (string \<times> string) option \<Rightarrow> bool" where
  "glob_loop icase [] b star = (dropWhile (\<lambda>c. c = CHR ''*'') b = [])"
| "glob_loop icase (x # a) b star =
     (if b \<noteq> [] \<and> hd b = CHR ''*'' then glob_loop icase (x # a) (tl b) (Some (tl b, x # a))
      else if b \<noteq> [] \<and> chareq (hd b) x icase then glob_loop icase a (tl b) star
      else case star of
             None \<Rightarrow> False
           | Some (bs, sa) \<Rightarrow> (case sa of [] \<Rightarrow> False | y # sa' \<Rightarrow> glob_loop icase sa' bs (Some (bs, sa'))))"
  by pat_completeness auto
termination
  by (relation "measures [\<lambda>(i, a, b, star). max (length b) (case star of None \<Rightarrow> 0 | Some (bs, sa) \<Rightarrow> length bs),
      \<lambda>(i, a, b, star). (case star of None \<Rightarrow> 0 | Some (bs, sa) \<Rightarrow> length sa),
      \<lambda>(i, a, b, star). length a]")
    (auto split: option.splits simp: neq_Nil_conv max_def)

declare glob_loop.simps(2) [simp del]

definition globmatch :: "string \<Rightarrow> nat \<Rightarrow> string \<Rightarrow> nat \<Rightarrow> bool \<Rightarrow> bool" where
  "globmatch a alen b blen icase = glob_loop icase (take alen a) (take blen b) None"

text \<open>The loops stop at the terminator of either string; \<open>j\<close> counts the matched characters.\<close>

fun mycmp_loop :: "string \<Rightarrow> string \<Rightarrow> nat \<Rightarrow> bool \<Rightarrow> nat \<Rightarrow> nat option" where
  "mycmp_loop [] b n any j = Some j"
| "mycmp_loop (x # a) b n any j =
     (if x = NUL \<or> j \<ge> length b \<or> j \<ge> n then Some j
      else if tolower x = tolower (b ! j) then mycmp_loop a b n any (Suc j)
      else if \<not> any then None else mycmp_loop a b n any 0)"

definition mycmp :: "string \<Rightarrow> string \<Rightarrow> nat \<Rightarrow> bool \<Rightarrow> bool" where
  "mycmp a b n any =
     (case mycmp_loop a b n any 0 of None \<Rightarrow> False | Some j \<Rightarrow> if any then j \<noteq> n else True)"

fun strstr2_loop :: "string \<Rightarrow> string \<Rightarrow> nat \<Rightarrow> nat \<Rightarrow> nat" where
  "strstr2_loop [] b n j = j"
| "strstr2_loop (x # a) b n j =
     (if x = NUL \<or> j \<ge> length b \<or> j \<ge> n then j
      else if x = b ! j then strstr2_loop a b n (Suc j) else strstr2_loop a b n 0)"

definition strstr2 :: "string \<Rightarrow> string \<Rightarrow> nat \<Rightarrow> bool" where
  "strstr2 a b n \<longleftrightarrow> strstr2_loop a b n 0 = n"

definition compareString :: "string \<Rightarrow> string \<Rightarrow> nat \<Rightarrow> nat \<Rightarrow> bool" where
  "compareString a b blen flags =
     (let start = (flags AND SDB_LIKE_START \<noteq> 0);
          endf = (flags AND SDB_LIKE_END \<noteq> 0);
          icase = (flags AND SDB_LIKE_ICASE \<noteq> 0)
      in case (if flags AND SDB_LIKE_BASE64 \<noteq> 0
               then map_option (map (\<lambda>w. char_of (unat w))) (sdb_decode a) else Some a) of
           None \<Rightarrow> False
         | Some a \<Rightarrow>
             let alen = length a in
             if flags AND SDB_LIKE_GLOB \<noteq> 0 then globmatch a alen b blen icase
             else if blen \<le> alen then
               if icase then
                 if start \<and> endf then alen = blen \<and> \<not> mycmp a b blen False
                 else if start then \<not> mycmp a b blen False
                 else if endf then \<not> mycmp (drop (alen - blen) a) b blen False
                 else \<not> mycmp a b blen True
               else
                 if start \<and> endf then alen = blen \<and> strneq (cstring a) b blen
                 else if start then strneq (cstring a) b blen
                 else if endf then strneq (cstring (drop (alen - blen) a)) b blen
                 else strstr2 a b blen
             else False)"

definition sdb_match :: "string \<Rightarrow> string \<Rightarrow> bool" where
  "sdb_match str glob =
     (let glob_len = length glob; flags = SDB_LIKE_NONE;
          (glob_len, flags) = (if haveSuffix glob glob_len ''?i'' then (glob_len - 2, flags OR SDB_LIKE_ICASE)
                               else (glob_len, flags));
          (glob, glob_len, flags) = (if havePrefix glob glob_len ''%''
                                     then (tl glob, glob_len - 1, flags OR SDB_LIKE_BASE64)
                                     else (glob, glob_len, flags));
          (glob, glob_len, flags) = (if havePrefix glob glob_len ''^''
                                     then (tl glob, glob_len - 1, flags OR SDB_LIKE_START)
                                     else (glob, glob_len, flags));
          (glob_len, flags) = (if haveSuffix glob glob_len ''$'' then (glob_len - 1, flags OR SDB_LIKE_END)
                               else (glob_len, flags));
          (glob_len, flags) =
            (if CHR ''*'' \<in> set (take glob_len glob) then
               (if flags AND SDB_LIKE_END = 0 \<and> glob_len > 0 \<and> glob ! (glob_len - 1) = CHR ''$''
                then glob_len - 1 else glob_len, flags OR SDB_LIKE_GLOB)
             else (glob_len, flags))
      in compareString str glob glob_len flags)"

section \<open>Globs\<close>

text \<open>What a glob means: \<^verbatim>\<open>*\<close> stands for any string, and the whole text must match.\<close>

fun glob :: "bool \<Rightarrow> string \<Rightarrow> string \<Rightarrow> bool" where
  "glob icase [] a \<longleftrightarrow> a = []"
| "glob icase (c # b) a \<longleftrightarrow>
     (if c = CHR ''*'' then \<exists>v. suffix v a \<and> glob icase b v
      else case a of [] \<Rightarrow> False | x # a' \<Rightarrow> chareq c x icase \<and> glob icase b a')"

lemma glob_star_suffix: "glob icase (CHR ''*'' # b) v \<Longrightarrow> suffix v a \<Longrightarrow> glob icase (CHR ''*'' # b) a"
  by (auto dest: suffix_order.trans)

lemma glob_chars: "CHR ''*'' \<notin> set m \<Longrightarrow> glob icase (m @ b) v \<Longrightarrow> length m \<le> length v \<and> glob icase b (drop (length m) v)"
  by (induction m arbitrary: v) (auto split: list.splits)

lemma glob_nil: "glob icase b [] \<longleftrightarrow> dropWhile (\<lambda>c. c = CHR ''*'') b = []"
  by (induction b) auto

text \<open>What the loop keeps: the text and the pattern are the same number of characters past the star.\<close>

definition star_ok :: "string \<Rightarrow> string \<Rightarrow> (string \<times> string) option \<Rightarrow> bool" where
  "star_ok a b star \<longleftrightarrow>
     (case star of None \<Rightarrow> True
      | Some (bs, sa) \<Rightarrow> \<exists>m w. bs = m @ b \<and> sa = w @ a \<and> length m = length w \<and> CHR ''*'' \<notin> set m)"

definition later :: "bool \<Rightarrow> (string \<times> string) option \<Rightarrow> bool" where
  "later icase star \<longleftrightarrow>
     (case star of None \<Rightarrow> False | Some (bs, sa) \<Rightarrow> \<exists>v. strict_suffix v sa \<and> glob icase bs v)"

lemma strict_suffix_step: "strict_suffix v (y # s) \<longleftrightarrow> v = s \<or> strict_suffix v s"
  using suffix_length_le [of "y # s" s] by (cases "v = y # s") (auto simp: strict_suffix_def suffix_Cons)

lemma later_step: "later icase (Some (bs, y # sa)) \<longleftrightarrow> glob icase bs sa \<or> later icase (Some (bs, sa))"
  unfolding later_def option.case prod.case strict_suffix_step by blast

lemma later_rest:
  assumes "star_ok a b star" "later icase star"
  shows "\<exists>v. strict_suffix v a \<and> glob icase b v"
proof -
  obtain bs sa v m w where s: "star = Some (bs, sa)" "bs = m @ b" "sa = w @ a" "length m = length w"
    "CHR ''*'' \<notin> set m" "strict_suffix v sa" "glob icase bs v"
    using assms by (auto simp: star_ok_def later_def split: option.splits)
  have g: "length m \<le> length v" "glob icase b (drop (length m) v)" using glob_chars [OF s(5)] s(2,7) by auto
  obtain u where u: "sa = u @ v" "u \<noteq> []" using s(6) by (auto simp: strict_suffix_def suffix_def)
  have "length (drop (length m) v) < length a" using arg_cong [OF u(1), of length] u(2) s(3,4) g(1)
    by (simp add: neq_Nil_conv) fastforce
  moreover have "suffix (drop (length m) v) sa" using u(1) suffix_drop suffix_order.trans suffixI by metis
  then have "suffix (drop (length m) v) a"
    using s(3) calculation suffix_length_suffix [of "drop (length m) v" sa a] by (simp add: suffixI)
  ultimately show ?thesis using g(2) by (metis less_irrefl strict_suffix_def)
qed

lemma glob_loop_spec: "star_ok a b star \<Longrightarrow> glob_loop icase a b star \<longleftrightarrow> glob icase b a \<or> later icase star"
proof (induction icase a b star rule: glob_loop.induct)
  case (1 icase b star)
  have "\<not> later icase star" using later_rest [OF 1] by (auto simp: strict_suffix_def)
  then show ?case by (simp add: glob_nil)
next
  case (2 icase x a b star)
  show ?case
  proof (cases "b \<noteq> [] \<and> hd b = CHR ''*''")
    case True
    then obtain b' where b: "b = CHR ''*'' # b'" by (cases b) auto
    have ok: "star_ok (x # a) (tl b) (Some (tl b, x # a))" by (auto simp: star_ok_def b intro!: exI [of _ "[]"])
    have "glob icase b (x # a)" if l: "later icase star"
    proof -
      obtain v where "strict_suffix v (x # a)" "glob icase b v" using later_rest [OF 2(4) l] by blast
      then show ?thesis using glob_star_suffix [of icase b' v] unfolding b strict_suffix_def by blast
    qed
    moreover have "glob icase b (x # a) \<longleftrightarrow> glob icase b' (x # a) \<or> later icase (Some (b', x # a))"
      by (auto simp: b later_def strict_suffix_def)
    ultimately show ?thesis using 2(1) [OF True ok] True by (subst glob_loop.simps) (auto simp: b)
  next
    case F: False
    show ?thesis
    proof (cases "b \<noteq> [] \<and> chareq (hd b) x icase")
      case True
      then obtain c b' where b: "b = c # b'" by (cases b) auto
      have ok: "star_ok a (tl b) star"
      proof (cases star)
        case (Some p)
        obtain bs sa where p: "p = (bs, sa)" by fastforce
        obtain m w where "bs = m @ b" "sa = w @ x # a" "length m = length w" "CHR ''*'' \<notin> set m"
          using 2(4) Some p by (auto simp: star_ok_def)
        then show ?thesis using F unfolding Some p star_ok_def
          by (auto simp: b intro!: exI [of _ "m @ [c]"] exI [of _ "w @ [x]"])
      qed (simp add: star_ok_def)
      show ?thesis using 2(2) [OF F True ok] F True by (subst glob_loop.simps) (auto simp: b)
    next
      case F2: False
      have ng: "\<not> glob icase b (x # a)" using F F2 by (cases b) auto
      show ?thesis
      proof (cases star)
        case None
        then show ?thesis using F F2 ng by (subst glob_loop.simps) (auto simp: later_def)
      next
        case (Some p)
        obtain bs sa where p: "p = (bs, sa)" by fastforce
        obtain y sa' where sa: "sa = y # sa'" using 2(4) Some p by (cases sa) (auto simp: star_ok_def)
        have ok: "star_ok sa' bs (Some (bs, sa'))" by (auto simp: star_ok_def)
        have "later icase (Some (bs, y # sa')) \<longleftrightarrow> glob icase bs sa' \<or> later icase (Some (bs, sa'))"
          by (rule later_step)
        then show ?thesis using 2(3) [OF F F2 Some p [symmetric] sa ok] F F2 ng unfolding Some p sa by (subst glob_loop.simps) auto
      qed
    qed
  qed
qed

text \<open>
  C34.  \<^verbatim>\<open>globmatch\<close> is correct: its loop, which remembers only the last \<^verbatim>\<open>*\<close> and goes back to it on a
  mismatch, ends for every text and pattern and accepts exactly the texts the glob describes.
\<close>

theorem globmatch_correct: "globmatch a (length a) b (length b) icase \<longleftrightarrow> glob icase b a"
  by (simp add: globmatch_def glob_loop_spec star_ok_def later_def)

section \<open>Anchored patterns\<close>

text \<open>Characters with a meaning in patterns.\<close>

definition plain :: "string \<Rightarrow> bool" where
  "plain p \<longleftrightarrow> p \<noteq> [] \<and> nonul p \<and> set p \<inter> set ''*$?%^'' = {}"

lemma no_suffix: "sfx \<noteq> [] \<Longrightarrow> hd sfx \<notin> set g \<Longrightarrow> \<not> haveSuffix g n sfx"
  by (cases sfx) (auto simp: haveSuffix_def strcmp_eq_0 dest: in_set_dropD, metis in_set_dropD list.set_intros(1))

lemma have_prefix1: "havePrefix (c # g) (Suc (length g)) [d] \<longleftrightarrow> g \<noteq> [] \<and> c = d"
  by (simp add: havePrefix_def)

lemma have_suffix1: "haveSuffix (g @ [c]) (Suc (length g)) [d] \<longleftrightarrow> g \<noteq> [] \<and> c = d"
  by (auto simp: haveSuffix_def strcmp_eq_0)

lemma strneq_take: "nonul b \<Longrightarrow> length b = n \<Longrightarrow> n \<le> length a \<Longrightarrow> strneq (cstring a) (b @ r) n \<longleftrightarrow> take n a = b"
proof (induction b arbitrary: a n)
  case (Cons c b)
  then obtain x a' where a: "a = x # a'" by (cases a) auto
  show ?case
  proof (cases "x = NUL")
    case True
    then show ?thesis using Cons.prems a by (auto simp: cstring_def)
  next
    case False
    then have "cstring a = x # cstring a'" by (simp add: a cstring_def)
    then show ?thesis using Cons a by auto
  qed
qed simp

lemmas like_defs = SDB_LIKE_NONE_def SDB_LIKE_ICASE_def SDB_LIKE_START_def SDB_LIKE_END_def
  SDB_LIKE_BASE64_def SDB_LIKE_GLOB_def

lemma match_start: "plain p \<Longrightarrow> sdb_match str (CHR ''^'' # p) \<longleftrightarrow> prefix p str"
proof -
  assume p: "plain p"
  then obtain c q where q: "p = c # q" by (cases p) (auto simp: plain_def)
  have s: "\<not> haveSuffix (CHR ''^'' # p) n ''?i''" "\<not> haveSuffix p n ''$''" for n
    using p no_suffix [of "''?i''"] no_suffix [of "''$''"] by (auto simp: plain_def)
  have h: "havePrefix (CHR ''^'' # p) (Suc (length p)) ''^''" "\<not> havePrefix (CHR ''^'' # p) (Suc (length p)) ''%''"
    using q have_prefix1 [of _ p] by simp_all
  have "sdb_match str (CHR ''^'' # p) \<longleftrightarrow> compareString str p (length p) SDB_LIKE_START"
    using p by (auto simp: sdb_match_def s h plain_def like_defs)
  also have "\<dots> \<longleftrightarrow> length p \<le> length str \<and> strneq (cstring str) p (length p)"
    by (auto simp: compareString_def like_defs Let_def)
  also have "\<dots> \<longleftrightarrow> prefix p str"
    using p strneq_take [of p "length p" str "[]"] by (auto simp: plain_def prefix_def) (metis append_take_drop_id)
  finally show ?thesis .
qed

lemma match_end: "plain p \<Longrightarrow> sdb_match str (p @ ''$'') \<longleftrightarrow> suffix p str"
proof -
  assume p: "plain p"
  then obtain c q where q: "p = c # q" by (cases p) (auto simp: plain_def)
  have s: "\<not> haveSuffix (p @ ''$'') n ''?i''" "haveSuffix (p @ ''$'') (Suc (length p)) ''$''" for n
    using p no_suffix [of "''?i''"] by (auto simp: have_suffix1 plain_def)
  have h: "\<not> havePrefix (p @ ''$'') (Suc (length p)) ''^''" "\<not> havePrefix (p @ ''$'') (Suc (length p)) ''%''"
    using p q have_prefix1 [of c "q @ ''$''"] by (auto simp: plain_def)
  have "sdb_match str (p @ ''$'') \<longleftrightarrow> compareString str (p @ ''$'') (length p) SDB_LIKE_END"
    using p by (auto simp: sdb_match_def s h plain_def like_defs)
  also have "\<dots> \<longleftrightarrow> length p \<le> length str \<and> strneq (cstring (drop (length str - length p) str)) (p @ ''$'') (length p)"
    by (auto simp: compareString_def like_defs Let_def)
  also have "\<dots> \<longleftrightarrow> suffix p str"
    using p strneq_take [of p "length p" "drop (length str - length p) str" "''$''"]
    by (auto simp: plain_def suffix_def) (metis append_take_drop_id)
  finally show ?thesis .
qed

lemma match_both: "plain p \<Longrightarrow> sdb_match str (CHR ''^'' # p @ ''$'') \<longleftrightarrow> str = p"
proof -
  assume p: "plain p"
  then obtain c q where q: "p = c # q" by (cases p) (auto simp: plain_def)
  have s: "\<not> haveSuffix (CHR ''^'' # p @ ''$'') n ''?i''" "haveSuffix (p @ ''$'') (Suc (length p)) ''$''" for n
    using p no_suffix [of "''?i''"] by (auto simp: have_suffix1 plain_def)
  have h: "havePrefix (CHR ''^'' # p @ ''$'') (Suc (Suc (length p))) ''^''"
    "\<not> havePrefix (CHR ''^'' # p @ ''$'') (Suc (Suc (length p))) ''%''"
    using have_prefix1 [of _ "p @ ''$''"] by simp_all
  have "sdb_match str (CHR ''^'' # p @ ''$'') \<longleftrightarrow> compareString str (p @ ''$'') (length p) (SDB_LIKE_START OR SDB_LIKE_END)"
    using p by (auto simp: sdb_match_def s h plain_def like_defs)
  also have "\<dots> \<longleftrightarrow> length str = length p \<and> strneq (cstring str) (p @ ''$'') (length p)"
    by (auto simp: compareString_def like_defs Let_def)
  also have "\<dots> \<longleftrightarrow> str = p"
    using p strneq_take [of p "length p" str "''$''"] by (auto simp: plain_def)
  finally show ?thesis .
qed

lemma match_glob: "nonul p \<Longrightarrow> set p \<inter> set ''$?%^'' = {} \<Longrightarrow> CHR ''*'' \<in> set p \<Longrightarrow> sdb_match str p \<longleftrightarrow> glob False p str"
proof -
  assume p: "nonul p" "set p \<inter> set ''$?%^'' = {}" "CHR ''*'' \<in> set p"
  then obtain c q where q: "p = c # q" by (cases p) auto
  have s: "\<not> haveSuffix p n ''?i''" "\<not> haveSuffix p n ''$''" for n using p(2) no_suffix [of "''?i''"] no_suffix [of "''$''"] by auto
  have h: "\<not> havePrefix p (length p) ''^''" "\<not> havePrefix p (length p) ''%''"
    using p(2) q have_prefix1 [of c q] by auto
  have "p ! (length p - 1) \<in> set p" using q by (intro nth_mem) simp
  then have l: "p ! (length p - 1) \<noteq> CHR ''$''" using p(2) by (metis disjoint_iff list.set_intros(1))
  have "sdb_match str p \<longleftrightarrow> compareString str p (length p) SDB_LIKE_GLOB"
    using p(3) l by (auto simp: sdb_match_def s h like_defs)
  then show ?thesis
    by (simp add: compareString_def like_defs globmatch_def glob_loop_spec star_ok_def later_def)
qed

text \<open>
  What \<^verbatim>\<open>sdb_match\<close> means, for patterns of ordinary characters and case-sensitive matching: \<^verbatim>\<open>^p\<close> is
  being a prefix, \<^verbatim>\<open>p$\<close> a suffix, \<^verbatim>\<open>^p$\<close> equality, and a pattern with \<^verbatim>\<open>*\<close> the glob.
\<close>

theorem sdb_match_meaning:
  assumes "plain p" "nonul g" "set g \<inter> set ''$?%^'' = {}" "CHR ''*'' \<in> set g"
  shows "(sdb_match str (CHR ''^'' # p) \<longleftrightarrow> prefix p str) \<and> (sdb_match str (p @ ''$'') \<longleftrightarrow> suffix p str)
     \<and> (sdb_match str (CHR ''^'' # p @ ''$'') \<longleftrightarrow> str = p) \<and> (sdb_match str g \<longleftrightarrow> glob False g str)"
  using match_start [OF assms(1)] match_end [OF assms(1)] match_both [OF assms(1)] match_glob [OF assms(2-4)] by blast

theorem sdb_match_meaning_witness:
  "sdb_match ''abcd'' ''^ab'' \<and> \<not> sdb_match ''abcd'' ''ab$'' \<and> (sdb_match ''abcd'' ''a*d'' \<longleftrightarrow> glob False ''a*d'' ''abcd'')"
  using sdb_match_meaning [of "''ab''" "''a*d''" "''abcd''"] by (simp add: plain_def prefix_def suffix_def)

text \<open>
  An unanchored pattern is searched by \<^verbatim>\<open>strstr2\<close>, which does not go back in the text after a partial match
  and misses occurrences; and \<^verbatim>\<open>mycmp\<close> with \<^verbatim>\<open>any\<close> 0 returns 0 for a mismatch and 1 for a match, which the callers
  take the other way around.
\<close>

lemma strstr2_incomplete: "\<not> sdb_match ''aab'' ''ab''" "strstr ''aab'' ''ab'' = Some ''ab''"
  by code_simp+

lemma mycmp_inverted: "\<not> sdb_match ''abc'' ''^ab?i''" "sdb_match ''xyz'' ''^ab?i''"
  by code_simp+

end
