(* ===== verification/Cmp_Order.thy ===== *)
theory Cmp_Order
  imports Sdb_Prelude "HOL-Library.Multiset"
begin

text \<open>
  Comparison functions in the C style: a negative, zero or positive result.  The locale
  \<open>cmp_order\<close> is what a sort relies on, and gives what a sort promises.  \<open>qsort\<close> is the function of the C
  library, as an insertion sort.
\<close>

fun qsort_insert :: "('a \<Rightarrow> 'a \<Rightarrow> int) \<Rightarrow> 'a \<Rightarrow> 'a list \<Rightarrow> 'a list" where
  "qsort_insert cmp x [] = [x]"
| "qsort_insert cmp x (y # ys) = (if cmp x y \<le> 0 then x # y # ys else y # qsort_insert cmp x ys)"

definition qsort :: "('a \<Rightarrow> 'a \<Rightarrow> int) \<Rightarrow> 'a list \<Rightarrow> 'a list" where
  "qsort cmp xs = foldr (qsort_insert cmp) xs []"

definition ordered :: "('a \<Rightarrow> 'a \<Rightarrow> int) \<Rightarrow> 'a list \<Rightarrow> bool" where
  "ordered cmp xs \<longleftrightarrow> sorted_wrt (\<lambda>x y. cmp x y \<le> 0) xs"

lemma ordered_simps [simp]:
  "ordered cmp []"
  "ordered cmp (x # xs) \<longleftrightarrow> (\<forall>y \<in> set xs. cmp x y \<le> 0) \<and> ordered cmp xs"
  "ordered cmp (xs @ ys) \<longleftrightarrow> ordered cmp xs \<and> ordered cmp ys \<and> (\<forall>x \<in> set xs. \<forall>y \<in> set ys. cmp x y \<le> 0)"
  by (auto simp: ordered_def sorted_wrt_append)

lemma mset_qsort_insert: "mset (qsort_insert cmp x ys) = add_mset x (mset ys)"
  by (induction ys) auto

lemma mset_qsort: "mset (qsort cmp xs) = mset xs"
  by (induction xs) (simp_all add: qsort_def mset_qsort_insert)

lemma qsort_set [simp]: "set (qsort cmp xs) = set xs"
  by (metis mset_qsort set_mset_mset)

lemma qsort_length [simp]: "length (qsort cmp xs) = length xs"
  by (metis mset_qsort size_mset)

lemma qsort_insert_set [simp]: "set (qsort_insert cmp x ys) = insert x (set ys)"
  by (induction ys) auto

locale cmp_order =
  fixes cmp :: "'a \<Rightarrow> 'a \<Rightarrow> int"
  assumes flip: "cmp x y \<le> 0 \<longleftrightarrow> 0 \<le> cmp y x"
  assumes trans: "cmp x y \<le> 0 \<Longrightarrow> cmp y z \<le> 0 \<Longrightarrow> cmp x z \<le> 0"
begin

lemma not_le_imp: "\<not> cmp x y \<le> 0 \<Longrightarrow> cmp y x \<le> 0"
  using flip [of x y] flip [of y x] by linarith

lemma refl: "cmp x x = 0"
  using flip [of x x] by linarith

lemma insert_ordered: "ordered cmp ys \<Longrightarrow> ordered cmp (qsort_insert cmp x ys)"
proof (induction ys)
  case (Cons y ys)
  show ?case
  proof (cases "cmp x y \<le> 0")
    case True
    then show ?thesis using Cons.prems trans [OF True] by auto
  next
    case False
    then show ?thesis using Cons not_le_imp by auto
  qed
qed simp

lemma qsort_ordered: "ordered cmp (qsort cmp xs)"
  by (induction xs) (simp_all add: qsort_def insert_ordered)

end

text \<open>When elements that compare equal are equal, the sorted list is determined by its elements.\<close>

locale cmp_linorder = cmp_order +
  assumes antisym: "cmp x y \<le> 0 \<Longrightarrow> cmp y x \<le> 0 \<Longrightarrow> x = y"
begin

lemma ordered_unique: "ordered cmp xs \<Longrightarrow> ordered cmp ys \<Longrightarrow> mset xs = mset ys \<Longrightarrow> xs = ys"
proof (induction xs arbitrary: ys)
  case (Cons x xs)
  then obtain y ys' where ys: "ys = y # ys'" by (cases ys) auto
  have in_x: "x \<in> set ys" using Cons.prems(3) by (metis list.set_intros(1) set_mset_mset)
  have in_y: "y \<in> set (x # xs)" using Cons.prems(3) ys by (metis list.set_intros(1) set_mset_mset)
  have "x = y"
  proof (rule ccontr)
    assume "x \<noteq> y"
    then have "x \<in> set ys'" "y \<in> set xs" using in_x in_y ys by auto
    then show False using Cons.prems(1,2) ys antisym \<open>x \<noteq> y\<close> by auto
  qed
  then show ?case using Cons ys by simp
qed simp

lemma qsort_unique: "ordered cmp ys \<Longrightarrow> mset ys = mset xs \<Longrightarrow> qsort cmp xs = ys"
  using ordered_unique [OF qsort_ordered] by (simp add: mset_qsort)

end

end
