(* ===== verification/Ls.thy ===== *)
theory Ls
  imports Cmp_Order
begin

text \<open>
  The doubly linked list of \<^verbatim>\<open>src/ls.c\<close>, on an explicit heap of nodes, since its operations are pointer
  assignments.

  \<^item> \<open>ls_heap\<close> maps the address of a node to its three fields; a pointer is an address or \<open>None\<close> for
    NULL, and the data pointer of a node is \<open>None\<close> when it is NULL.  Addresses are given out in order and
    not used again, and a node that was freed is not looked at.
  \<^item> \<open>ls\<close> is \<^verbatim>\<open>struct ls_t\<close>; a comparison function has a number, which \<^verbatim>\<open>ls_sort\<close> compares.
  \<^item> The loops that follow the \<^verbatim>\<open>n\<close> pointers until a node without data (\<^verbatim>\<open>ls_foreach\<close>) work on the list
    of the addresses they visit; there are no more of them than nodes on the heap.
  \<^item> Handles are not NULL, and allocation succeeds.
\<close>

section \<open>Data\<close>

record 'a ls_heap =
  hp_data :: "nat \<Rightarrow> 'a option"
  hp_n :: "nat \<Rightarrow> nat option"
  hp_p :: "nat \<Rightarrow> nat option"
  hp_next :: nat

record ls =
  l_length :: ut64
  l_head :: "nat option"
  l_tail :: "nat option"
  l_free :: bool
  l_cmp :: "nat option"
  l_sorted :: bool

definition MERGELIMIT :: nat where
  "MERGELIMIT = 24"

definition set_n :: "nat \<Rightarrow> nat option \<Rightarrow> 'a ls_heap \<Rightarrow> 'a ls_heap" where
  "set_n a v h = h\<lparr>hp_n := (hp_n h)(a := v)\<rparr>"

definition set_p :: "nat \<Rightarrow> nat option \<Rightarrow> 'a ls_heap \<Rightarrow> 'a ls_heap" where
  "set_p a v h = h\<lparr>hp_p := (hp_p h)(a := v)\<rparr>"

definition set_data :: "nat \<Rightarrow> 'a option \<Rightarrow> 'a ls_heap \<Rightarrow> 'a ls_heap" where
  "set_data a v h = h\<lparr>hp_data := (hp_data h)(a := v)\<rparr>"

text \<open>An assignment through a pointer that may be NULL, guarded by a test.\<close>

definition if_ptr :: "nat option \<Rightarrow> (nat \<Rightarrow> 'h \<Rightarrow> 'h) \<Rightarrow> 'h \<Rightarrow> 'h" where
  "if_ptr x f h = (case x of None \<Rightarrow> h | Some a \<Rightarrow> f a h)"

text \<open>\<^verbatim>\<open>R_NEW (SdbListIter)\<close> with its three fields assigned.\<close>

definition new_node :: "'a option \<Rightarrow> nat option \<Rightarrow> nat option \<Rightarrow> 'a ls_heap \<Rightarrow> nat \<times> 'a ls_heap" where
  "new_node d n p h =
     (let a = hp_next h in (a, set_p a p (set_n a n (set_data a d (h\<lparr>hp_next := Suc a\<rparr>)))))"

definition ls_new :: ls where
  "ls_new = \<lparr>l_length = 0, l_head = None, l_tail = None, l_free = False, l_cmp = None, l_sorted = False\<rparr>"

definition ls_newf :: "bool \<Rightarrow> ls" where
  "ls_newf freefn = ls_new\<lparr>l_free := freefn\<rparr>"

text \<open>The addresses that \<^verbatim>\<open>for (it = x; it && it->data; it = it->n)\<close> visits.\<close>

fun iters :: "nat \<Rightarrow> 'a ls_heap \<Rightarrow> nat option \<Rightarrow> nat list" where
  "iters 0 h it = []"
| "iters (Suc fuel) h it =
     (case it of
        None \<Rightarrow> []
      | Some a \<Rightarrow> if hp_data h a = None then [] else a # iters fuel h (hp_n h a))"

definition ls_iters :: "'a ls_heap \<Rightarrow> nat option \<Rightarrow> nat list" where
  "ls_iters h it = iters (hp_next h) h it"

section \<open>Adding and removing\<close>

definition ls_append :: "'a ls_heap \<Rightarrow> ls \<Rightarrow> 'a option \<Rightarrow> nat \<times> 'a ls_heap \<times> ls" where
  "ls_append h l data =
     (let (it, h1) = new_node data None (l_tail l) h;
          h2 = if_ptr (l_tail l) (\<lambda>t. set_n t (Some it)) h1
      in (it, h2, l\<lparr>l_tail := Some it, l_head := (if l_head l = None then Some it else l_head l),
                    l_length := l_length l + 1, l_sorted := False\<rparr>))"

definition ls_prepend :: "'a ls_heap \<Rightarrow> ls \<Rightarrow> 'a option \<Rightarrow> nat \<times> 'a ls_heap \<times> ls" where
  "ls_prepend h l data =
     (let (it, h1) = new_node data (l_head l) None h;
          h2 = if_ptr (l_head l) (\<lambda>t. set_p t (Some it)) h1
      in (it, h2, l\<lparr>l_head := Some it, l_tail := (if l_tail l = None then Some it else l_tail l),
                    l_length := l_length l + 1, l_sorted := False\<rparr>))"

definition ls_split_iter :: "'a ls_heap \<Rightarrow> ls \<Rightarrow> nat \<Rightarrow> 'a ls_heap \<times> ls" where
  "ls_split_iter h l iter =
     (let l = (if l_head l = Some iter then l\<lparr>l_head := hp_n h iter\<rparr> else l);
          l = (if l_tail l = Some iter then l\<lparr>l_tail := hp_p h iter\<rparr> else l);
          h = if_ptr (hp_p h iter) (\<lambda>q. set_n q (hp_n h iter)) h;
          h = if_ptr (hp_n h iter) (\<lambda>q. set_p q (hp_p h iter)) h
      in (h, l\<lparr>l_length := l_length l - 1\<rparr>))"

definition ls_delete :: "'a ls_heap \<Rightarrow> ls \<Rightarrow> nat \<Rightarrow> 'a ls_heap \<times> ls" where
  "ls_delete h l iter =
     (case ls_split_iter h l iter of
        (h, l) \<Rightarrow> (if l_free l \<and> hp_data h iter \<noteq> None then set_data iter None h else h, l))"

definition ls_delete_data :: "'a ls_heap \<Rightarrow> ls \<Rightarrow> 'a \<Rightarrow> bool \<times> 'a ls_heap \<times> ls" where
  "ls_delete_data h l ptr =
     (case find (\<lambda>a. hp_data h a = Some ptr) (ls_iters h (l_head l)) of
        None \<Rightarrow> (False, h, l)
      | Some iter \<Rightarrow> (True, ls_delete h l iter))"

fun destroy_loop :: "nat \<Rightarrow> 'a ls_heap \<Rightarrow> ls \<Rightarrow> nat option \<Rightarrow> 'a ls_heap \<times> ls" where
  "destroy_loop 0 h l it = (h, l)"
| "destroy_loop (Suc fuel) h l it =
     (case it of
        None \<Rightarrow> (h, l)
      | Some a \<Rightarrow> let next = hp_n h a in (case ls_delete h l a of (h, l) \<Rightarrow> destroy_loop fuel h l next))"

definition ls_destroy :: "'a ls_heap \<Rightarrow> ls \<Rightarrow> 'a ls_heap \<times> ls" where
  "ls_destroy h l =
     (case destroy_loop (hp_next h) h l (l_head l) of
        (h, l) \<Rightarrow> (h, l\<lparr>l_head := None, l_tail := None, l_length := 0\<rparr>))"

definition ls_pop :: "'a ls_heap \<Rightarrow> ls \<Rightarrow> 'a option \<times> 'a ls_heap \<times> ls" where
  "ls_pop h l =
     (case l_tail l of
        None \<Rightarrow> (None, h, l)
      | Some iter \<Rightarrow>
          let data = hp_data h iter in
          if l_head l = l_tail l
          then (data, h, l\<lparr>l_head := None, l_tail := None, l_length := l_length l - 1\<rparr>)
          else (data, if_ptr (hp_p h iter) (\<lambda>t. set_n t None) h,
                l\<lparr>l_tail := hp_p h iter, l_length := l_length l - 1\<rparr>))"

definition ls_pop_head :: "'a ls_heap \<Rightarrow> ls \<Rightarrow> 'a option \<times> 'a ls_heap \<times> ls" where
  "ls_pop_head h l =
     (case l_head l of
        None \<Rightarrow> (None, h, l\<lparr>l_length := l_length l - 1\<rparr>)
      | Some iter \<Rightarrow>
          let data = hp_data h iter in
          if l_head l = l_tail l
          then (data, h, l\<lparr>l_head := None, l_tail := None, l_length := l_length l - 1\<rparr>)
          else (data, if_ptr (hp_n h iter) (\<lambda>t. set_p t None) h,
                l\<lparr>l_head := hp_n h iter, l_length := l_length l - 1\<rparr>))"

definition ls_clone :: "'a ls_heap \<Rightarrow> ls \<Rightarrow> 'a ls_heap \<times> ls" where
  "ls_clone h l = fold (\<lambda>a (h, r). snd (ls_append h r (hp_data h a))) (ls_iters h (l_head l)) (h, ls_new)"

definition ls_join :: "'a ls_heap \<Rightarrow> ls \<Rightarrow> ls \<Rightarrow> bool \<times> 'a ls_heap \<times> ls \<times> ls" where
  "ls_join h l1 l2 =
     (if l_length l2 = 0 then (False, h, l1, l2)
      else
        let (h, l1) =
          (if l_length l1 = 0 then (h, l1\<lparr>l_head := l_head l2, l_tail := l_tail l2\<rparr>)
           else (if_ptr (l_tail l2) (\<lambda>t. set_n t None)
                  (if_ptr (l_head l2) (\<lambda>x. set_p x (l_tail l1))
                    (if_ptr (l_tail l1) (\<lambda>t. set_n t (l_head l2)) h)),
                 l1\<lparr>l_tail := l_tail l2\<rparr>))
        in (True, h, l1\<lparr>l_length := l_length l1 + l_length l2, l_sorted := False\<rparr>,
            l2\<lparr>l_head := None, l_tail := None\<rparr>))"

definition ls_insert :: "'a ls_heap \<Rightarrow> ls \<Rightarrow> int \<Rightarrow> 'a option \<Rightarrow> nat \<times> 'a ls_heap \<times> ls" where
  "ls_insert h l n data =
     (if l_head l = None \<or> n = 0 then ls_prepend h l data
      else
        let its = ls_iters h (l_head l) in
        if 0 \<le> n \<and> nat n < length its then
          let it = its ! nat n;
              (item, h1) = new_node data (Some it) (hp_p h it) h;
              h2 = if_ptr (hp_p h1 it) (\<lambda>q. set_n q (Some item)) h1
          in (item, set_p it (Some item) h2, l\<lparr>l_length := l_length l + 1, l_sorted := False\<rparr>)
        else ls_append h l data)"

definition ls_del_n :: "'a ls_heap \<Rightarrow> ls \<Rightarrow> int \<Rightarrow> bool \<times> 'a ls_heap \<times> ls" where
  "ls_del_n h l n =
     (let its = ls_iters h (l_head l) in
      if 0 \<le> n \<and> nat n < length its then
        let it = its ! nat n;
            (h, l) = (case (hp_p h it, hp_n h it) of
                        (None, None) \<Rightarrow> (h, l\<lparr>l_head := None, l_tail := None\<rparr>)
                      | (None, Some x) \<Rightarrow> (set_p x None h, l\<lparr>l_head := Some x\<rparr>)
                      | (Some q, None) \<Rightarrow> (set_n q None h, l\<lparr>l_tail := Some q\<rparr>)
                      | (Some q, Some x) \<Rightarrow> (set_p x (Some q) (set_n q (Some x) h), l))
        in (True, h, l\<lparr>l_length := l_length l - 1\<rparr>)
      else (False, h, l))"

section \<open>Sorting\<close>

text \<open>The comparison of two data pointers; the lists that are sorted have no NULL data.\<close>

definition data_cmp :: "('a \<Rightarrow> 'a \<Rightarrow> int) \<Rightarrow> 'a option \<Rightarrow> 'a option \<Rightarrow> int" where
  "data_cmp cmp a b = (case (a, b) of (Some x, Some y) \<Rightarrow> cmp x y | _ \<Rightarrow> 0)"

definition exchange :: "('a \<Rightarrow> 'a \<Rightarrow> int) \<Rightarrow> nat \<Rightarrow> nat \<Rightarrow> 'a ls_heap \<Rightarrow> 'a ls_heap" where
  "exchange cmp it it2 h =
     (if data_cmp cmp (hp_data h it) (hp_data h it2) > 0
      then set_data it2 (hp_data h it) (set_data it (hp_data h it2) h) else h)"

fun sort_iters :: "('a \<Rightarrow> 'a \<Rightarrow> int) \<Rightarrow> nat list \<Rightarrow> 'a ls_heap \<Rightarrow> 'a ls_heap" where
  "sort_iters cmp [] h = h"
| "sort_iters cmp (it # its) h = sort_iters cmp its (fold (exchange cmp it) its h)"

definition ls_insertion_sort_iter :: "('a \<Rightarrow> 'a \<Rightarrow> int) \<Rightarrow> 'a ls_heap \<Rightarrow> nat option \<Rightarrow> 'a ls_heap" where
  "ls_insertion_sort_iter cmp h iter = sort_iters cmp (ls_iters h iter) h"

definition ls_insertion_sort :: "('a \<Rightarrow> 'a \<Rightarrow> int) \<Rightarrow> 'a ls_heap \<Rightarrow> ls \<Rightarrow> 'a ls_heap" where
  "ls_insertion_sort cmp h l = ls_insertion_sort_iter cmp h (l_head l)"

text \<open>One round takes the node \<^verbatim>\<open>next\<close> and links it behind \<^verbatim>\<open>result\<close>.\<close>

definition link_next :: "nat \<Rightarrow> nat option \<Rightarrow> nat option \<Rightarrow> 'a ls_heap \<Rightarrow> nat option \<times> 'a ls_heap" where
  "link_next next result head h =
     (if head = None then (Some next, set_p next None h)
      else (head, set_p next result (if_ptr result (\<lambda>r. set_n r (Some next)) h)))"

fun merge_loop :: "nat \<Rightarrow> ('a \<Rightarrow> 'a \<Rightarrow> int) \<Rightarrow> nat option \<Rightarrow> nat option \<Rightarrow> nat option \<Rightarrow> nat option \<Rightarrow>
    'a ls_heap \<Rightarrow> nat option \<times> nat option \<times> 'a ls_heap" where
  "merge_loop 0 cmp first second result head h = (result, head, h)"
| "merge_loop (Suc fuel) cmp first second result head h =
     (case (first, second) of
        (None, None) \<Rightarrow> (result, head, h)
      | (Some a, None) \<Rightarrow>
          (case link_next a result head h of (hd', h') \<Rightarrow> merge_loop fuel cmp (hp_n h a) None (Some a) hd' h')
      | (None, Some b) \<Rightarrow>
          (case link_next b result head h of (hd', h') \<Rightarrow> merge_loop fuel cmp None (hp_n h b) (Some b) hd' h')
      | (Some a, Some b) \<Rightarrow>
          if data_cmp cmp (hp_data h a) (hp_data h b) \<le> 0 then
            (case link_next a result head h of (hd', h') \<Rightarrow> merge_loop fuel cmp (hp_n h a) second (Some a) hd' h')
          else
            (case link_next b result head h of (hd', h') \<Rightarrow> merge_loop fuel cmp first (hp_n h b) (Some b) hd' h'))"

definition merge_lists :: "('a \<Rightarrow> 'a \<Rightarrow> int) \<Rightarrow> 'a ls_heap \<Rightarrow> nat option \<Rightarrow> nat option \<Rightarrow> nat option \<times> 'a ls_heap" where
  "merge_lists cmp h first second =
     (case merge_loop (Suc (hp_next h)) cmp first second None None h of
        (next, head, h) \<Rightarrow>
          (head, if_ptr next (\<lambda>x. set_n x None) (if_ptr head (\<lambda>x. set_p x None) h)))"

fun split_walk :: "nat \<Rightarrow> 'a ls_heap \<Rightarrow> nat \<Rightarrow> nat \<Rightarrow> nat \<Rightarrow> nat \<times> nat" where
  "split_walk 0 h slow fast cnt = (slow, cnt)"
| "split_walk (Suc fuel) h slow fast cnt =
     (case hp_n h fast of
        None \<Rightarrow> (slow, cnt)
      | Some f1 \<Rightarrow>
          (case (hp_n h f1, hp_n h slow) of
             (Some f2, Some s1) \<Rightarrow> split_walk fuel h s1 f2 (Suc cnt)
           | _ \<Rightarrow> (slow, cnt)))"

definition list_split :: "'a ls_heap \<Rightarrow> nat option \<Rightarrow> nat option \<times> 'a ls_heap" where
  "list_split h head =
     (case head of
        None \<Rightarrow> (head, h)
      | Some a \<Rightarrow>
          if hp_n h a = None then (head, h)
          else
            (case split_walk (hp_next h) h a a 0 of
               (slow, cnt) \<Rightarrow> if cnt < MERGELIMIT then (None, h) else (hp_n h slow, set_n slow None h)))"

fun merge_sort :: "nat \<Rightarrow> ('a \<Rightarrow> 'a \<Rightarrow> int) \<Rightarrow> 'a ls_heap \<Rightarrow> nat option \<Rightarrow> nat option \<times> 'a ls_heap" where
  "merge_sort 0 cmp h head = (head, h)"
| "merge_sort (Suc fuel) cmp h head =
     (case head of
        None \<Rightarrow> (head, h)
      | Some a \<Rightarrow>
          if hp_n h a = None then (head, h)
          else
            (case list_split h head of
               (None, h) \<Rightarrow> (head, ls_insertion_sort_iter cmp h head)
             | (Some b, h) \<Rightarrow>
                 (case merge_sort fuel cmp h head of
                    (head, h) \<Rightarrow>
                      (case merge_sort fuel cmp h (Some b) of
                         (second, h) \<Rightarrow> merge_lists cmp h head second))))"

fun last_iter :: "nat \<Rightarrow> 'a ls_heap \<Rightarrow> nat option \<Rightarrow> nat option" where
  "last_iter 0 h it = it"
| "last_iter (Suc fuel) h it =
     (case it of None \<Rightarrow> None | Some a \<Rightarrow> if hp_n h a = None then Some a else last_iter fuel h (hp_n h a))"

definition ls_merge_sort :: "'a ls_heap \<Rightarrow> ls \<Rightarrow> ('a \<Rightarrow> 'a \<Rightarrow> int) \<Rightarrow> 'a ls_heap \<times> ls" where
  "ls_merge_sort h l cmp =
     (if l_head l = None then (h, l)
      else
        (case merge_sort (hp_next h) cmp h (l_head l) of
           (head, h) \<Rightarrow> (h, l\<lparr>l_head := head, l_tail := last_iter (hp_next h) h head, l_sorted := True\<rparr>)))"

definition ls_sort :: "'a ls_heap \<Rightarrow> ls \<Rightarrow> nat \<Rightarrow> ('a \<Rightarrow> 'a \<Rightarrow> int) \<Rightarrow> bool \<times> 'a ls_heap \<times> ls" where
  "ls_sort h l cmp_id cmp =
     (if l_cmp l = Some cmp_id then (False, h, l)
      else
        let (h, l) = (if l_length l > word_of_nat MERGELIMIT then ls_merge_sort h l cmp
                      else (ls_insertion_sort cmp h l, l))
        in (True, h, l\<lparr>l_cmp := Some cmp_id, l_sorted := True\<rparr>))"

section \<open>Well-formed lists\<close>

text \<open>The nodes \<open>as\<close> are linked in both directions, from \<open>p\<close> before the first to \<open>q\<close> after the last.\<close>

definition first_of :: "nat list \<Rightarrow> nat option \<Rightarrow> nat option" where
  "first_of as q = (case as of [] \<Rightarrow> q | a # _ \<Rightarrow> Some a)"

definition last_of :: "nat list \<Rightarrow> nat option \<Rightarrow> nat option" where
  "last_of as p = (if as = [] then p else Some (last as))"

fun seg :: "'a ls_heap \<Rightarrow> nat option \<Rightarrow> nat list \<Rightarrow> nat option \<Rightarrow> bool" where
  "seg h p [] q \<longleftrightarrow> True"
| "seg h p (a # as) q \<longleftrightarrow> hp_p h a = p \<and> hp_n h a = first_of as q \<and> seg h (Some a) as q"

lemma first_of_simps [simp]:
  "first_of [] q = q" "first_of (a # as) q = Some a" "first_of (as @ bs) q = first_of as (first_of bs q)"
  by (auto simp: first_of_def split: list.splits)

lemma last_of_simps [simp]:
  "last_of [] p = p" "last_of (a # as) p = last_of as (Some a)" "last_of (as @ bs) p = last_of bs (last_of as p)"
  "last_of [a] p = Some a"
  by (auto simp: last_of_def)

lemma first_of_None: "first_of as None = None \<longleftrightarrow> as = []"
  by (auto simp: first_of_def split: list.splits)

lemma last_of_None: "last_of as None = None \<longleftrightarrow> as = []"
  by (auto simp: last_of_def)

lemma last_of_Some: "as \<noteq> [] \<Longrightarrow> last_of as p = Some (last as)"
  by (simp add: last_of_def)

lemma seg_append [simp]: "seg h p (as @ bs) q \<longleftrightarrow> seg h p as (first_of bs q) \<and> seg h (last_of as p) bs q"
  by (induction as arbitrary: p) auto

lemma seg_cong:
  "(\<And>a. a \<in> set as \<Longrightarrow> hp_n h a = hp_n h' a \<and> hp_p h a = hp_p h' a) \<Longrightarrow> seg h p as q = seg h' p as q"
  by (induction as arbitrary: p) auto

definition ls_inv :: "'a ls_heap \<Rightarrow> ls \<Rightarrow> nat list \<Rightarrow> bool" where
  "ls_inv h l as \<longleftrightarrow> seg h None as None \<and> distinct as \<and> (\<forall>a \<in> set as. a < hp_next h)
     \<and> l_head l = first_of as None \<and> l_tail l = last_of as None \<and> l_length l = word_of_nat (length as)"

lemma ls_invI:
  "seg h None as None \<Longrightarrow> distinct as \<Longrightarrow> \<forall>a \<in> set as. a < hp_next h \<Longrightarrow> l_head l = first_of as None \<Longrightarrow>
   l_tail l = last_of as None \<Longrightarrow> l_length l = word_of_nat (length as) \<Longrightarrow> ls_inv h l as"
  by (simp add: ls_inv_def)

definition contents :: "'a ls_heap \<Rightarrow> nat list \<Rightarrow> 'a option list" where
  "contents h as = map (hp_data h) as"

text \<open>The state of a list with its heap, and what it holds.\<close>

definition holds :: "'a ls_heap \<times> ls \<Rightarrow> 'a option list \<Rightarrow> bool" where
  "holds s ds \<longleftrightarrow> (\<exists>as. ls_inv (fst s) (snd s) as \<and> contents (fst s) as = ds)"

lemma holds_new: "holds (h, ls_new) []"
  by (auto simp: holds_def ls_inv_def ls_new_def contents_def)

lemmas heap_ops = set_n_def set_p_def set_data_def if_ptr_def new_node_def

lemma set_simps [simp]:
  "hp_n (set_n a v h) = (hp_n h)(a := v)" "hp_p (set_n a v h) = hp_p h" "hp_data (set_n a v h) = hp_data h"
  "hp_n (set_p a v h) = hp_n h" "hp_p (set_p a v h) = (hp_p h)(a := v)" "hp_data (set_p a v h) = hp_data h"
  "hp_n (set_data a d h) = hp_n h" "hp_p (set_data a d h) = hp_p h" "hp_data (set_data a d h) = (hp_data h)(a := d)"
  "hp_next (set_n a v h) = hp_next h" "hp_next (set_p a v h) = hp_next h" "hp_next (set_data a d h) = hp_next h"
  by (simp_all add: set_n_def set_p_def set_data_def)

lemma if_ptr_simps [simp]: "if_ptr None f h = h" "if_ptr (Some a) f h = f a h"
  by (simp_all add: if_ptr_def)

lemma append_ok:
  assumes "ls_inv h l as" "ls_append h l d = (it, h', l')"
  shows "ls_inv h' l' (as @ [it])" "contents h' (as @ [it]) = contents h as @ [d]" "it = hp_next h"
    "hp_next h' = Suc (hp_next h)" "\<And>a. a < hp_next h \<Longrightarrow> hp_data h' a = hp_data h a"
    "\<And>a. a < hp_next h \<Longrightarrow> a \<notin> set as \<Longrightarrow> hp_n h' a = hp_n h a \<and> hp_p h' a = hp_p h a"
proof -
  have i: "seg h None as None" "distinct as" "\<forall>a \<in> set as. a < hp_next h" "l_head l = first_of as None"
    "l_tail l = last_of as None" "l_length l = word_of_nat (length as)" using assms(1) by (auto simp: ls_inv_def)
  show it: "it = hp_next h" using assms(2) by (auto simp: ls_append_def new_node_def Let_def)
  define h1 where "h1 = snd (new_node d None (l_tail l) h)"
  have h1: "hp_n h1 = (hp_n h)(it := None)" "hp_p h1 = (hp_p h)(it := l_tail l)" "hp_data h1 = (hp_data h)(it := d)"
    "hp_next h1 = Suc (hp_next h)" by (simp_all add: h1_def new_node_def Let_def it)
  have h': "h' = if_ptr (l_tail l) (\<lambda>t. set_n t (Some it)) h1"
    and l': "l' = l\<lparr>l_tail := Some it, l_head := (if l_head l = None then Some it else l_head l),
        l_length := l_length l + 1, l_sorted := False\<rparr>"
    using assms(2) by (auto simp: ls_append_def new_node_def Let_def h1_def)
  have fresh: "it \<notin> set as" using i(3) it by auto
  show nx: "hp_next h' = Suc (hp_next h)" using h1 by (auto simp: h' if_ptr_def split: option.splits)
  show d: "\<And>a. a < hp_next h \<Longrightarrow> hp_data h' a = hp_data h a"
    using h1 it by (auto simp: h' if_ptr_def split: option.splits)
  show "\<And>a. a < hp_next h \<Longrightarrow> a \<notin> set as \<Longrightarrow> hp_n h' a = hp_n h a \<and> hp_p h' a = hp_p h a"
    using h1 it i(5) by (auto simp: h' if_ptr_def last_of_def split: option.splits if_splits)
  show "contents h' (as @ [it]) = contents h as @ [d]"
    using h1 fresh i(3) d by (auto simp: contents_def h' if_ptr_def split: option.splits)
  have sg: "seg h' None (as @ [it]) None"
  proof (cases as rule: rev_cases)
    case Nil
    then show ?thesis using i(5) h1 by (simp add: h')
  next
    case (snoc bs b)
    have e: "h' = set_n b (Some it) h1" "l_tail l = Some b" "it \<noteq> b" using snoc i(5) fresh h' by auto
    have c: "seg h' p cs q = seg h p cs q" if "set cs \<subseteq> set bs" for p cs q
    proof (rule seg_cong)
      fix a assume "a \<in> set cs"
      then have "a \<noteq> b" "a \<noteq> it" using that snoc i(2) fresh by auto
      then show "hp_n h' a = hp_n h a \<and> hp_p h' a = hp_p h a" by (simp add: e h1)
    qed
    have "hp_n h' b = Some it" "hp_p h' b = hp_p h b" "hp_n h' it = None" "hp_p h' it = Some b"
      using e by (simp_all add: h1)
    then show ?thesis using i(1) c [of bs] snoc by simp
  qed
  show "ls_inv h' l' (as @ [it])"
  proof (rule ls_invI [OF sg])
    show "distinct (as @ [it])" using i(2) fresh by simp
    show "\<forall>a \<in> set (as @ [it]). a < hp_next h'" using i(3) unfolding nx by (auto simp: it less_Suc_eq)
    show "l_head l' = first_of (as @ [it]) None" using i(4) by (cases as) (simp_all add: l')
  qed (simp_all add: l' i(6))
qed

lemma prepend_ok:
  assumes "ls_inv h l as" "ls_prepend h l d = (it, h', l')"
  shows "ls_inv h' l' (it # as)" "contents h' (it # as) = d # contents h as"
proof -
  have i: "seg h None as None" "distinct as" "\<forall>a \<in> set as. a < hp_next h" "l_head l = first_of as None"
    "l_tail l = last_of as None" "l_length l = word_of_nat (length as)" using assms(1) by (auto simp: ls_inv_def)
  have it: "it = hp_next h" using assms(2) by (auto simp: ls_prepend_def new_node_def Let_def)
  define h1 where "h1 = snd (new_node d (l_head l) None h)"
  have h1: "hp_n h1 = (hp_n h)(it := l_head l)" "hp_p h1 = (hp_p h)(it := None)" "hp_data h1 = (hp_data h)(it := d)"
    "hp_next h1 = Suc (hp_next h)" by (simp_all add: h1_def new_node_def Let_def it)
  have h': "h' = if_ptr (l_head l) (\<lambda>t. set_p t (Some it)) h1"
    and l': "l' = l\<lparr>l_head := Some it, l_tail := (if l_tail l = None then Some it else l_tail l),
        l_length := l_length l + 1, l_sorted := False\<rparr>"
    using assms(2) by (auto simp: ls_prepend_def new_node_def Let_def h1_def)
  have fresh: "it \<notin> set as" using i(3) it by auto
  show "contents h' (it # as) = d # contents h as"
    using h1 fresh by (auto simp: contents_def h' if_ptr_def split: option.splits)
  have sg: "seg h' None (it # as) None"
  proof (cases as)
    case Nil
    then show ?thesis using i(4) h1 by (simp add: h')
  next
    case (Cons b bs)
    have e: "h' = set_p b (Some it) h1" "l_head l = Some b" "it \<noteq> b" using Cons i(4) fresh h' by auto
    have c: "seg h' p cs q = seg h p cs q" if "set cs \<subseteq> set bs" for p cs q
    proof (rule seg_cong)
      fix a assume "a \<in> set cs"
      then have "a \<noteq> b" "a \<noteq> it" using that Cons i(2) fresh by auto
      then show "hp_n h' a = hp_n h a \<and> hp_p h' a = hp_p h a" by (simp add: e h1)
    qed
    have "hp_p h' b = Some it" "hp_n h' b = hp_n h b" "hp_p h' it = None" "hp_n h' it = Some b"
      using e by (simp_all add: h1)
    then show ?thesis using i(1) c [of bs] Cons by simp
  qed
  show "ls_inv h' l' (it # as)"
  proof (rule ls_invI [OF sg])
    have nx: "hp_next h' = Suc (hp_next h)" using h1 by (auto simp: h' if_ptr_def split: option.splits)
    show "distinct (it # as)" using i(2) fresh by simp
    show "\<forall>a \<in> set (it # as). a < hp_next h'" using i(3) unfolding nx by (auto simp: it less_Suc_eq)
    show "l_tail l' = last_of (it # as) None" using i(5) by (cases as) (simp_all add: l' last_of_def)
  qed (simp_all add: l' i(6))
qed

subsection \<open>Relinking\<close>

lemma seg_set_n [simp]: "b \<notin> set as \<Longrightarrow> seg (set_n b v h) p as q = seg h p as q"
  by (rule seg_cong) auto

lemma seg_set_p [simp]: "b \<notin> set as \<Longrightarrow> seg (set_p b v h) p as q = seg h p as q"
  by (rule seg_cong) auto

lemma seg_set_data [simp]: "seg (set_data b v h) p as q = seg h p as q"
  by (rule seg_cong) auto

lemma retarget_n: "seg h p xs r \<Longrightarrow> distinct xs \<Longrightarrow> seg (if_ptr (last_of xs None) (\<lambda>q. set_n q w) h) p xs w"
  by (cases xs rule: rev_cases) auto

lemma retarget_p: "seg h r ys q \<Longrightarrow> distinct ys \<Longrightarrow> seg (if_ptr (first_of ys None) (\<lambda>x. set_p x w) h) w ys q"
  by (cases ys) auto

lemma frame_n: "set xs \<inter> set ys = {} \<Longrightarrow> seg (if_ptr (last_of xs None) (\<lambda>q. set_n q w) h) p ys r = seg h p ys r"
  by (cases xs rule: rev_cases) auto

lemma frame_p: "set xs \<inter> set ys = {} \<Longrightarrow> seg (if_ptr (first_of ys None) (\<lambda>x. set_p x w) h) p xs r = seg h p xs r"
  by (cases ys) auto

lemma seg_node: "seg h p (xs @ a # ys) q \<Longrightarrow> hp_p h a = last_of xs p \<and> hp_n h a = first_of ys q"
  by simp

text \<open>Taking a node out: its neighbours point to each other.\<close>

definition unlink :: "nat list \<Rightarrow> nat list \<Rightarrow> 'a ls_heap \<Rightarrow> 'a ls_heap" where
  "unlink xs ys h = if_ptr (first_of ys None) (\<lambda>x. set_p x (last_of xs None))
     (if_ptr (last_of xs None) (\<lambda>q. set_n q (first_of ys None)) h)"

lemma unlink_seg:
  assumes "seg h None (xs @ a # ys) None" "distinct (xs @ a # ys)"
  shows "seg (unlink xs ys h) None (xs @ ys) None"
proof -
  have d: "distinct xs" "distinct ys" "set xs \<inter> set ys = {}" using assms(2) by auto
  have s: "seg h None xs (Some a)" "seg h (Some a) ys None" using assms(1) by simp_all
  let ?h = "if_ptr (last_of xs None) (\<lambda>q. set_n q (first_of ys None)) h"
  have 1: "seg ?h None xs (first_of ys None)" by (rule retarget_n [OF s(1) d(1)])
  have 2: "seg ?h (Some a) ys None" using frame_n [OF d(3)] s(2) by blast
  have "seg (unlink xs ys h) (last_of xs None) ys None" unfolding unlink_def by (rule retarget_p [OF 2 d(2)])
  moreover have "seg (unlink xs ys h) None xs (first_of ys None)"
    unfolding unlink_def using frame_p [OF d(3)] 1 by blast
  ultimately show ?thesis by simp
qed

lemma unlink_data [simp]: "hp_data (unlink xs ys h) = hp_data h" "hp_next (unlink xs ys h) = hp_next h"
  by (simp_all add: unlink_def if_ptr_def split: option.splits)

lemma unlink_inv:
  assumes "ls_inv h l (xs @ a # ys)" "l_head l' = first_of (xs @ ys) None" "l_tail l' = last_of (xs @ ys) None"
    "l_length l' = l_length l - 1"
  shows "ls_inv (unlink xs ys h) l' (xs @ ys)" "contents (unlink xs ys h) (xs @ ys) = contents h (xs @ ys)"
proof -
  have i: "seg h None (xs @ a # ys) None" "distinct (xs @ a # ys)" "\<forall>b \<in> set (xs @ a # ys). b < hp_next h"
    "l_length l = word_of_nat (length (xs @ a # ys))" using assms(1) by (simp_all add: ls_inv_def)
  show "ls_inv (unlink xs ys h) l' (xs @ ys)"
  proof (rule ls_invI [OF unlink_seg [OF i(1,2)] _ _ assms(2,3)])
    show "distinct (xs @ ys)" using i(2) by simp
    show "\<forall>b \<in> set (xs @ ys). b < hp_next (unlink xs ys h)" using i(3) by simp
    show "l_length l' = word_of_nat (length (xs @ ys))" using i(4) assms(4) by simp
  qed
  show "contents (unlink xs ys h) (xs @ ys) = contents h (xs @ ys)" by (simp add: contents_def)
qed

lemma split_iter_ok:
  assumes "ls_inv h l (xs @ a # ys)"
  obtains l' where "ls_split_iter h l a = (unlink xs ys h, l')" "ls_inv (unlink xs ys h) l' (xs @ ys)" "l_free l' = l_free l"
proof -
  have i: "seg h None (xs @ a # ys) None" "distinct (xs @ a # ys)" "l_head l = first_of (xs @ a # ys) None"
    "l_tail l = last_of (xs @ a # ys) None" using assms by (simp_all add: ls_inv_def)
  have nb: "hp_p h a = last_of xs None" "hp_n h a = first_of ys None" using seg_node [OF i(1)] by simp_all
  define l' where "l' = snd (ls_split_iter h l a)"
  have hd: "l_head l = Some a \<longleftrightarrow> xs = []" using i(2,3) by (cases xs) auto
  have tl: "l_tail l = Some a \<longleftrightarrow> ys = []" using i(2,4) by (cases ys rule: rev_cases) auto
  have "hp_n (if_ptr (last_of xs None) (\<lambda>q. set_n q (first_of ys None)) h) a = first_of ys None"
    "hp_p (if_ptr (last_of xs None) (\<lambda>q. set_n q (first_of ys None)) h) a = last_of xs None"
    using nb i(2) by (cases xs rule: rev_cases; auto)+
  then have "ls_split_iter h l a = (unlink xs ys h, l')"
    using nb by (simp add: l'_def ls_split_iter_def Let_def unlink_def)
  moreover have "l_head l' = first_of (xs @ ys) None" "l_tail l' = last_of (xs @ ys) None" "l_length l' = l_length l - 1" "l_free l' = l_free l"
    using hd tl nb i(3,4) by (cases xs; cases ys rule: rev_cases; auto simp: l'_def ls_split_iter_def Let_def last_of_def)+
  ultimately show ?thesis using that unlink_inv(1) [OF assms] by blast
qed

lemma delete_ok:
  assumes "ls_inv h l (xs @ a # ys)" "ls_delete h l a = (h', l')"
  shows "ls_inv h' l' (xs @ ys)" "contents h' (xs @ ys) = contents h (xs @ ys)"
proof -
  obtain l1 where s: "ls_split_iter h l a = (unlink xs ys h, l1)" "ls_inv (unlink xs ys h) l1 (xs @ ys)"
    using split_iter_ok [OF assms(1)] by blast
  have d: "a \<notin> set (xs @ ys)" using assms(1) by (simp add: ls_inv_def)
  have h': "l' = l1" "h' = unlink xs ys h \<or> h' = set_data a None (unlink xs ys h)"
    using assms(2) s(1) by (auto simp: ls_delete_def split: if_splits)
  then show "ls_inv h' l' (xs @ ys)" using s(2) by (auto simp: ls_inv_def)
  show "contents h' (xs @ ys) = contents h (xs @ ys)" using h'(2) d by (auto simp: contents_def)
qed

lemma pop_ok:
  assumes "ls_inv h l as" "ls_pop h l = (r, h', l')"
  shows "if as = [] then r = None \<and> h' = h \<and> l' = l
     else r = hp_data h (last as) \<and> ls_inv h' l' (butlast as) \<and> contents h' (butlast as) = contents h (butlast as)"
proof (cases as rule: rev_cases)
  case Nil
  then show ?thesis using assms by (simp add: ls_inv_def ls_pop_def)
next
  case (snoc xs a)
  have i: "seg h None (xs @ [a]) None" "distinct (xs @ [a])" "l_head l = first_of xs (Some a)" "l_tail l = Some a"
    using assms(1) snoc by (auto simp: ls_inv_def)
  have nb: "hp_p h a = last_of xs None" using seg_node [of h None xs a "[]" None] i(1) by simp
  have hd: "l_head l = l_tail l \<longleftrightarrow> xs = []" using i(2-4) by (cases xs) auto
  have r: "r = hp_data h a" "h' = unlink xs [] h" "l_head l' = first_of xs None" "l_tail l' = last_of xs None" "l_length l' = l_length l - 1"
    using assms(2) i(3,4) nb hd by (auto simp: ls_pop_def Let_def unlink_def first_of_def last_of_def split: if_splits list.splits)
  show ?thesis using unlink_inv [of h l xs a "[]" l'] assms(1) r snoc by simp
qed

lemma pop_head_ok:
  assumes "ls_inv h l as" "as \<noteq> []" "ls_pop_head h l = (r, h', l')"
  shows "r = hp_data h (hd as) \<and> ls_inv h' l' (tl as) \<and> contents h' (tl as) = contents h (tl as)"
proof -
  obtain a ys where as: "as = a # ys" using assms(2) by (cases as) auto
  have i: "seg h None (a # ys) None" "distinct (a # ys)" "l_head l = Some a" "l_tail l = last_of ys (Some a)"
    using assms(1) as by (auto simp: ls_inv_def)
  have nb: "hp_n h a = first_of ys None" using i(1) by simp
  have hd: "l_head l = l_tail l \<longleftrightarrow> ys = []" using i(2-4) by (cases ys rule: rev_cases) auto
  have r: "r = hp_data h a" "h' = unlink [] ys h" "l_head l' = first_of ys None" "l_tail l' = last_of ys None" "l_length l' = l_length l - 1"
    using assms(3) i(3,4) nb hd by (auto simp: ls_pop_head_def Let_def unlink_def first_of_def last_of_def split: if_splits list.splits)
  show ?thesis using unlink_inv [of h l "[]" a ys l'] assms(1) r as by simp
qed

subsection \<open>Walking\<close>

fun npath :: "'a ls_heap \<Rightarrow> nat list \<Rightarrow> nat option \<Rightarrow> bool" where
  "npath h [] q \<longleftrightarrow> True"
| "npath h (a # as) q \<longleftrightarrow> hp_n h a = first_of as q \<and> npath h as q"

lemma seg_npath: "seg h p as q \<Longrightarrow> npath h as q"
  by (induction as arbitrary: p) auto

lemma npath_append [simp]: "npath h (as @ bs) q \<longleftrightarrow> npath h as (first_of bs q) \<and> npath h bs q"
  by (induction as) auto

lemma npath_cong: "(\<And>a. a \<in> set as \<Longrightarrow> hp_n h a = hp_n h' a) \<Longrightarrow> npath h as q = npath h' as q"
  by (induction as) auto

lemma iters_npath:
  "npath h as None \<Longrightarrow> length as \<le> fuel \<Longrightarrow> iters fuel h (first_of as None) = takeWhile (\<lambda>a. hp_data h a \<noteq> None) as"
proof (induction as arbitrary: fuel)
  case Nil
  then show ?case by (cases fuel) auto
next
  case (Cons a as)
  then show ?case by (cases fuel) auto
qed

lemma nodes_bound: "distinct as \<Longrightarrow> \<forall>a \<in> set as. a < n \<Longrightarrow> length as \<le> n"
  using card_mono [of "{..<n}" "set as"] by (auto simp: distinct_card)

lemma ls_iters_inv: "ls_inv h l as \<Longrightarrow> ls_iters h (l_head l) = takeWhile (\<lambda>a. hp_data h a \<noteq> None) as"
  using iters_npath [of h as "hp_next h"] seg_npath nodes_bound [of as "hp_next h"]
  by (auto simp: ls_iters_def ls_inv_def)

lemma iters_all: "ls_inv h l as \<Longrightarrow> None \<notin> set (contents h as) \<Longrightarrow> ls_iters h (l_head l) = as"
  using ls_iters_inv [of h l as] by (auto simp: contents_def takeWhile_eq_all_conv) (metis image_eqI not_None_eq)

lemma nth_split: "i < length as \<Longrightarrow> as = take i as @ as ! i # drop (Suc i) as"
  by (rule id_take_nth_drop)

lemma del_n_ok:
  assumes "ls_inv h l as" "None \<notin> set (contents h as)" "ls_del_n h l n = (r, h', l')"
  shows "if 0 \<le> n \<and> nat n < length as
     then r \<and> ls_inv h' l' (take (nat n) as @ drop (Suc (nat n)) as)
        \<and> contents h' (take (nat n) as @ drop (Suc (nat n)) as) = contents h (take (nat n) as @ drop (Suc (nat n)) as)
     else \<not> r \<and> h' = h \<and> l' = l"
proof (cases "0 \<le> n \<and> nat n < length as")
  case True
  define xs where "xs = take (nat n) as"
  define ys where "ys = drop (Suc (nat n)) as"
  define a where "a = as ! nat n"
  have as: "as = xs @ a # ys" using True nth_split [of "nat n" as] by (simp add: xs_def ys_def a_def)
  have i: "seg h None (xs @ a # ys) None" "distinct (xs @ a # ys)" "l_head l = first_of (xs @ a # ys) None"
    "l_tail l = last_of (xs @ a # ys) None" using assms(1) as by (simp_all add: ls_inv_def)
  have nb: "hp_p h a = last_of xs None" "hp_n h a = first_of ys None" using seg_node [OF i(1)] by simp_all
  have it: "ls_iters h (l_head l) ! nat n = a" "ls_iters h (l_head l) = as"
    using iters_all [OF assms(1,2)] by (simp_all add: a_def)
  have r: "r" "h' = unlink xs ys h" "l_head l' = first_of (xs @ ys) None" "l_tail l' = last_of (xs @ ys) None"
    "l_length l' = l_length l - 1"
  proof -
    have run: "(r, h', l') =
        (case (case (last_of xs None, first_of ys None) of
                 (None, None) \<Rightarrow> (h, l\<lparr>l_head := None, l_tail := None\<rparr>)
               | (None, Some x) \<Rightarrow> (set_p x None h, l\<lparr>l_head := Some x\<rparr>)
               | (Some q, None) \<Rightarrow> (set_n q None h, l\<lparr>l_tail := Some q\<rparr>)
               | (Some q, Some x) \<Rightarrow> (set_p x (Some q) (set_n q (Some x) h), l)) of
           (h, l) \<Rightarrow> (True, h, l\<lparr>l_length := l_length l - 1\<rparr>))"
      using assms(3) [unfolded ls_del_n_def it(2) Let_def, folded a_def, unfolded nb] True by simp
    have "r \<and> h' = unlink xs ys h \<and> l_head l' = first_of (xs @ ys) None \<and> l_tail l' = last_of (xs @ ys) None
        \<and> l_length l' = l_length l - 1"
      by (cases xs rule: rev_cases; cases ys)
        (use run i(3,4) in \<open>simp_all add: unlink_def last_of_def\<close>)
    then show "r" "h' = unlink xs ys h" "l_head l' = first_of (xs @ ys) None" "l_tail l' = last_of (xs @ ys) None"
      "l_length l' = l_length l - 1" by simp_all
  qed
  show ?thesis using True unlink_inv [of h l xs a ys l'] assms(1) r as unfolding xs_def [symmetric] ys_def [symmetric] by simp
next
  case False
  then show ?thesis using assms(3) iters_all [OF assms(1,2)] by (auto simp: ls_del_n_def)
qed

lemma insert_ok:
  assumes "ls_inv h l as" "None \<notin> set (contents h as)" "ls_insert h l n d = (it, h', l')"
  defines "j \<equiv> (if as = [] \<or> n = 0 then 0 else if 0 \<le> n \<and> nat n < length as then nat n else length as)"
  shows "ls_inv h' l' (take j as @ it # drop j as)"
    "contents h' (take j as @ it # drop j as) = take j (contents h as) @ d # drop j (contents h as)"
proof -
  have "ls_inv h' l' (take j as @ it # drop j as)
    \<and> contents h' (take j as @ it # drop j as) = take j (contents h as) @ d # drop j (contents h as)"
  proof (cases "as = [] \<or> n = 0")
    case True
    then have "ls_prepend h l d = (it, h', l')" using assms(1,3) by (auto simp: ls_insert_def ls_inv_def)
    then show ?thesis using prepend_ok [OF assms(1)] True by (simp add: j_def)
  next
    case F: False
    then have hd: "l_head l \<noteq> None" using assms(1) by (simp add: ls_inv_def first_of_None)
    show ?thesis
    proof (cases "0 \<le> n \<and> nat n < length as")
      case True
      define xs where "xs = take (nat n) as"
      define ys where "ys = drop (Suc (nat n)) as"
      define a where "a = as ! nat n"
      have as: "as = xs @ a # ys" using True nth_split [of "nat n" as] by (simp add: xs_def ys_def a_def)
      have i: "seg h None (xs @ a # ys) None" "distinct (xs @ a # ys)" "\<forall>b \<in> set (xs @ a # ys). b < hp_next h"
        "l_head l = first_of (xs @ a # ys) None" "l_tail l = last_of (xs @ a # ys) None"
        "l_length l = word_of_nat (length (xs @ a # ys))" using assms(1) as by (simp_all add: ls_inv_def)
      have nb: "hp_p h a = last_of xs None" using seg_node [OF i(1)] by simp
      have its: "ls_iters h (l_head l) = as" "as ! nat n = a" using iters_all [OF assms(1,2)] by (simp_all add: a_def)
      define h1 where "h1 = snd (new_node d (Some a) (last_of xs None) h)"
      define h2 where "h2 = if_ptr (last_of xs None) (\<lambda>q. set_n q (Some it)) h1"
      have it: "it = hp_next h" and h': "h' = set_p a (Some it) h2"
        and l': "l' = l\<lparr>l_length := l_length l + 1, l_sorted := False\<rparr>"
        using assms(3) F hd True nb i(2,3) unfolding ls_insert_def Let_def its
        by (auto simp: new_node_def Let_def h1_def h2_def)
      have fresh: "it \<notin> set (xs @ a # ys)" using i(3) by (auto simp: it)
      have h1: "hp_n h1 = (hp_n h)(it := Some a)" "hp_p h1 = (hp_p h)(it := last_of xs None)"
        "hp_data h1 = (hp_data h)(it := d)" "hp_next h1 = Suc (hp_next h)" by (simp_all add: h1_def new_node_def Let_def it)
      have c: "seg h1 p cs q = seg h p cs q" if "it \<notin> set cs" for p cs q
        by (rule seg_cong) (use that in \<open>auto simp: h1\<close>)
      have d: "distinct xs" "a \<notin> set xs" "set xs \<inter> set (a # ys) = {}" "it \<notin> set xs" "a \<notin> set ys" "it \<noteq> a" "it \<notin> set ys"
        using i(2) fresh by auto
      have "seg h1 None xs (Some a)" "seg h1 (last_of xs None) (a # ys) None" using i(1) c fresh by (simp_all add: h1)
      then have s2: "seg h2 None xs (Some it)" "seg h2 (last_of xs None) (a # ys) None"
        unfolding h2_def using retarget_n [OF _ d(1)] frame_n [OF d(3)] by blast+
      have n2: "hp_n h2 it = Some a" "hp_p h2 it = last_of xs None" "hp_data h2 = hp_data h1" "hp_next h2 = Suc (hp_next h)"
        using d(4) by (cases xs rule: rev_cases; auto simp: h2_def h1)+
      have sg: "seg h' None (xs @ it # a # ys) None"
        using s2 n2 d by (simp add: h')
      have "ls_inv h' l' (xs @ it # a # ys)"
      proof (rule ls_invI [OF sg])
        show "distinct (xs @ it # a # ys)" using i(2) fresh by auto
        show "\<forall>b \<in> set (xs @ it # a # ys). b < hp_next h'" using i(3) n2(4) by (auto simp: h' it less_Suc_eq)
        show "l_head l' = first_of (xs @ it # a # ys) None" 
        proof -
          have "xs \<noteq> []" using F True by (auto simp: xs_def)
          then show ?thesis using i(4) by (cases xs) (simp_all add: l')
        qed
      qed (simp_all add: l' i(5,6))
      moreover have "contents h' (xs @ it # a # ys) = contents h xs @ d # contents h (a # ys)"
        using n2(3) d by (simp add: h' h1 contents_def)
      moreover have j: "j = nat n" using F True by (simp add: j_def)
      have "take j as = xs" "drop j as = a # ys"
        using Cons_nth_drop_Suc [of "nat n" as] True by (simp_all add: j xs_def ys_def a_def)
      ultimately show ?thesis by (simp add: contents_def take_map drop_map)
    next
      case False
      then have "ls_append h l d = (it, h', l')" using assms(3) F hd iters_all [OF assms(1,2)] by (auto simp: ls_insert_def Let_def)
      then show ?thesis using append_ok [OF assms(1)] F False by (simp add: j_def contents_def)
    qed
  qed
  then show "ls_inv h' l' (take j as @ it # drop j as)"
    "contents h' (take j as @ it # drop j as) = take j (contents h as) @ d # drop j (contents h as)" by simp_all
qed

section \<open>The contract of a list\<close>

text \<open>
  The operations on a list of non-NULL data, what they mean for the sequence of elements, and the contract
  of an implementation; its clients get the consequence for sequences of operations.
\<close>

datatype 'a list_op = Append 'a | Prepend 'a | Pop | PopHead | InsertAt int 'a | DelAt int | DelData 'a

datatype 'a list_res = Done | Val "'a option" | Flag bool

definition insert_pos :: "int \<Rightarrow> 'a list \<Rightarrow> nat" where
  "insert_pos n ds = (if ds = [] \<or> n = 0 then 0 else if 0 \<le> n \<and> nat n < length ds then nat n else length ds)"

fun list_spec :: "'a list_op \<Rightarrow> 'a list \<Rightarrow> 'a list_res \<times> 'a list" where
  "list_spec (Append d) ds = (Done, ds @ [d])"
| "list_spec (Prepend d) ds = (Done, d # ds)"
| "list_spec Pop ds = (Val (if ds = [] then None else Some (last ds)), butlast ds)"
| "list_spec PopHead ds = (Val (if ds = [] then None else Some (hd ds)), tl ds)"
| "list_spec (InsertAt n d) ds = (Done, take (insert_pos n ds) ds @ d # drop (insert_pos n ds) ds)"
| "list_spec (DelAt n) ds =
     (if 0 \<le> n \<and> nat n < length ds then (Flag True, take (nat n) ds @ drop (Suc (nat n)) ds) else (Flag False, ds))"
| "list_spec (DelData d) ds = (Flag (d \<in> set ds), remove1 d ds)"

text \<open>Popping the head of an empty list is outside of the contract.\<close>

definition list_pre :: "'a list_op \<Rightarrow> 'a list \<Rightarrow> bool" where
  "list_pre p ds \<longleftrightarrow> p = PopHead \<longrightarrow> ds \<noteq> []"

fun run_list :: "('o \<Rightarrow> 's \<Rightarrow> 'r \<times> 's) \<Rightarrow> 'o list \<Rightarrow> 's \<Rightarrow> 'r list \<times> 's" where
  "run_list step [] s = ([], s)"
| "run_list step (p # ps) s =
     (case step p s of (r, s1) \<Rightarrow> (case run_list step ps s1 of (rs, s2) \<Rightarrow> (r # rs, s2)))"

fun all_pre :: "'a list_op list \<Rightarrow> 'a list \<Rightarrow> bool" where
  "all_pre [] ds \<longleftrightarrow> True"
| "all_pre (p # ps) ds \<longleftrightarrow> list_pre p ds \<and> all_pre ps (snd (list_spec p ds))"

locale list_impl =
  fixes rep :: "'s \<Rightarrow> 'a list \<Rightarrow> bool"
    and step :: "'a list_op \<Rightarrow> 's \<Rightarrow> 'a list_res \<times> 's"
  assumes step_refines:
    "rep s ds \<Longrightarrow> list_pre p ds \<Longrightarrow> step p s = (r, s') \<Longrightarrow> list_spec p ds = (q, ds') \<Longrightarrow> r = q \<and> rep s' ds'"
begin

lemma run_refines:
  assumes "rep s ds" "all_pre ps ds" "run_list step ps s = (rs, s')" "run_list list_spec ps ds = (qs, ds')"
  shows "rs = qs \<and> rep s' ds'"
  using assms
proof (induction ps arbitrary: s ds rs qs)
  case (Cons p ps)
  obtain r s1 q d1 where st: "step p s = (r, s1)" "list_spec p ds = (q, d1)" by fastforce
  obtain rs1 qs1 where rest: "run_list step ps s1 = (rs1, s')" "rs = r # rs1"
    "run_list list_spec ps d1 = (qs1, ds')" "qs = q # qs1"
    using Cons.prems(3,4) st by (auto split: prod.splits)
  have "r = q" "rep s1 d1" using step_refines [OF Cons.prems(1) _ st] Cons.prems(2) by auto
  then show ?case using Cons.IH [of s1 d1 rs1 qs1] Cons.prems(2) st(2) rest by simp
qed simp

end

section \<open>The linked list implements it\<close>

definition holds_list :: "'a ls_heap \<times> ls \<Rightarrow> 'a list \<Rightarrow> bool" where
  "holds_list s ds \<longleftrightarrow> holds s (map Some ds)"

definition ls_step :: "'a list_op \<Rightarrow> 'a ls_heap \<times> ls \<Rightarrow> 'a list_res \<times> ('a ls_heap \<times> ls)" where
  "ls_step p s =
     (case s of (h, l) \<Rightarrow>
        (case p of
           Append d \<Rightarrow> (Done, snd (ls_append h l (Some d)))
         | Prepend d \<Rightarrow> (Done, snd (ls_prepend h l (Some d)))
         | Pop \<Rightarrow> (case ls_pop h l of (r, s) \<Rightarrow> (Val r, s))
         | PopHead \<Rightarrow> (case ls_pop_head h l of (r, s) \<Rightarrow> (Val r, s))
         | InsertAt n d \<Rightarrow> (Done, snd (ls_insert h l n (Some d)))
         | DelAt n \<Rightarrow> (case ls_del_n h l n of (r, s) \<Rightarrow> (Flag r, s))
         | DelData d \<Rightarrow> (case ls_delete_data h l d of (r, s) \<Rightarrow> (Flag r, s))))"

lemma delete_data_ok:
  assumes "ls_inv h l as" "contents h as = map Some ds" "ls_delete_data h l d = (r, h', l')"
  shows "r = (d \<in> set ds) \<and> holds_list (h', l') (remove1 d ds)"
proof -
  have its: "ls_iters h (l_head l) = as" using iters_all [OF assms(1)] assms(2) by auto
  show ?thesis
  proof (cases "find (\<lambda>a. hp_data h a = Some d) as")
    case None
    then have "Some d \<notin> set (contents h as)" by (auto simp: contents_def find_None_iff)
    then have "d \<notin> set ds" using assms(2) by auto
    then show ?thesis using None assms its
      by (auto simp: ls_delete_data_def holds_list_def holds_def remove1_idem)
  next
    case (Some a)
    then obtain i where i: "i < length as" "hp_data h (as ! i) = Some d" "a = as ! i" "\<forall>j < i. hp_data h (as ! j) \<noteq> Some d"
      by (auto simp: find_Some_iff)
    define xs where "xs = take i as"
    define ys where "ys = drop (Suc i) as"
    have as: "as = xs @ a # ys" using nth_split [OF i(1)] i(3) by (simp add: xs_def ys_def)
    have len: "length ds = length as" "\<And>j. j < length as \<Longrightarrow> hp_data h (as ! j) = Some (ds ! j)"
      using assms(2) by (auto simp: contents_def list_eq_iff_nth_eq)
    have ds: "ds = take i ds @ d # drop (Suc i) ds" using nth_split [of i ds] i(1,2) len by simp
    have nd: "d \<notin> set (take i ds)"
    proof
      assume "d \<in> set (take i ds)"
      then obtain j where "j < i" "ds ! j = d" using i(1) len(1) by (auto simp: in_set_conv_nth)
      then show False using i(1,4) len(2) [of j] by auto
    qed
    have inv: "ls_inv h l (xs @ a # ys)" using assms(1) as by simp
    have del: "ls_delete h l a = (h', l')" "r" using assms(3) Some its by (auto simp: ls_delete_data_def)
    have "contents h (xs @ ys) = map Some (take i ds @ drop (Suc i) ds)"
      using assms(2) by (simp add: contents_def xs_def ys_def flip: take_map drop_map)
    moreover have "remove1 d ds = take i ds @ drop (Suc i) ds" by (subst ds) (simp add: remove1_append nd)
    moreover have "d \<in> set ds" by (subst ds) simp
    ultimately show ?thesis using delete_ok [OF inv del(1)] del(2) by (auto simp: holds_list_def holds_def)
  qed
qed

interpretation ls_list: list_impl holds_list ls_step
proof unfold_locales
  fix s :: "'a ls_heap \<times> ls" and ds p r s' q ds'
  assume a: "holds_list s ds" "list_pre p ds" "ls_step p s = (r, s')" "list_spec p ds = (q, ds')"
  obtain h l where s: "s = (h, l)" by fastforce
  obtain as where inv: "ls_inv h l as" and c: "contents h as = map Some ds"
    using a(1) by (auto simp: holds_list_def holds_def s)
  have len: "length as = length ds" using arg_cong [OF c, of length] by (simp add: contents_def)
  have nn: "None \<notin> set (contents h as)" using c by auto
  have I: "holds_list (h', l') es" if "ls_inv h' l' bs" "contents h' bs = map Some es" for h' l' bs es
    using that by (auto simp: holds_list_def holds_def)
  show "r = q \<and> holds_list s' ds'"
  proof (cases p)
    case (Append d)
    obtain it h' l' where r: "ls_append h l (Some d) = (it, h', l')" by (metis prod.collapse)
    then show ?thesis using a Append s I [OF append_ok(1) [OF inv r]] append_ok(2) [OF inv r] c by (auto simp: ls_step_def)
  next
    case (Prepend d)
    obtain it h' l' where r: "ls_prepend h l (Some d) = (it, h', l')" by (metis prod.collapse)
    then show ?thesis using a Prepend s I [OF prepend_ok(1) [OF inv r]] prepend_ok(2) [OF inv r] c by (auto simp: ls_step_def)
  next
    case Pop
    obtain v h' l' where r: "ls_pop h l = (v, h', l')" by (metis prod.collapse)
    have "contents h (butlast as) = map Some (butlast ds)" using c by (simp add: contents_def map_butlast)
    moreover have "as \<noteq> [] \<Longrightarrow> hp_data h (last as) = Some (last ds)"
      using c len by (metis contents_def last_map length_0_conv)
    ultimately show ?thesis using a Pop s pop_ok [OF inv r] I [of h' l' "butlast as" "butlast ds"] r len c a(1)
      by (auto simp: ls_step_def split: if_splits)
  next
    case PopHead
    then have ne: "as \<noteq> []" "ds \<noteq> []" using a(2) len by (auto simp: list_pre_def)
    obtain v h' l' where r: "ls_pop_head h l = (v, h', l')" by (metis prod.collapse)
    have "contents h (tl as) = map Some (tl ds)" using c by (simp add: contents_def map_tl)
    moreover have "hp_data h (hd as) = Some (hd ds)" using c ne by (metis contents_def list.map_sel(1))
    ultimately show ?thesis using a PopHead s pop_head_ok [OF inv ne(1) r] I [of h' l' "tl as" "tl ds"] r ne
      by (auto simp: ls_step_def)
  next
    case (InsertAt n d)
    obtain it h' l' where r: "ls_insert h l n (Some d) = (it, h', l')" by (metis prod.collapse)
    have j: "(if as = [] \<or> n = 0 then 0 else if 0 \<le> n \<and> nat n < length as then nat n else length as) = insert_pos n ds"
      using len by (auto simp: insert_pos_def)
    note x = insert_ok [OF inv nn r, unfolded j]
    show ?thesis using a InsertAt s r I [OF x(1)] x(2) c by (auto simp: ls_step_def take_map drop_map)
  next
    case (DelAt n)
    obtain v h' l' where r: "ls_del_n h l n = (v, h', l')" by (metis prod.collapse)
    have "contents h (take (nat n) as @ drop (Suc (nat n)) as) = map Some (take (nat n) ds @ drop (Suc (nat n)) ds)"
      using c by (simp add: contents_def flip: take_map drop_map)
    then show ?thesis using a DelAt s r del_n_ok [OF inv nn r] len a(1)
        I [of h' l' "take (nat n) as @ drop (Suc (nat n)) as" "take (nat n) ds @ drop (Suc (nat n)) ds"] by (auto simp: ls_step_def split: if_splits)
  next
    case (DelData d)
    obtain v h' l' where r: "ls_delete_data h l d = (v, h', l')" by (metis prod.collapse)
    then show ?thesis using a DelData s delete_data_ok [OF inv c r] by (auto simp: ls_step_def)
  qed
qed

text \<open>
  C36.  The linked list refines a sequence: on a new list, any sequence of appends, prepends, pops,
  insertions and deletions that does not pop the head of an empty list returns what the operations on the sequence of
  elements return, and leaves a list whose \<^verbatim>\<open>n\<close> and \<^verbatim>\<open>p\<close> pointers, head, tail and length all agree with the sequence.
  Popping the head of an empty list wraps its length around (\<open>ls_pop_head_empty\<close>).
\<close>

theorem ls_refines_sequence:
  assumes "all_pre ps []" "run_list ls_step ps (h, ls_new) = (rs, h', l')" "run_list list_spec ps [] = (qs, ds)"
  shows "rs = qs \<and> (\<exists>as. ls_inv h' l' as \<and> map (hp_data h') as = map Some ds)"
proof -
  have "holds_list (h, ls_new) []" using holds_new by (simp add: holds_list_def)
  from ls_list.run_refines [OF this assms] show ?thesis by (auto simp: holds_list_def holds_def contents_def)
qed

theorem ls_refines_sequence_witness:
  "let h = \<lparr>hp_data = \<lambda>_. None, hp_n = \<lambda>_. None, hp_p = \<lambda>_. None, hp_next = 0\<rparr>
   in fst (run_list ls_step [Append ''a'', Prepend ''b'', InsertAt 1 ''c'', DelAt 0, Pop, PopHead] (h, ls_new))
     = [Done, Done, Done, Flag True, Val (Some ''a''), Val (Some ''c'')]"
proof -
  let ?h = "\<lparr>hp_data = \<lambda>_. None, hp_n = \<lambda>_. None, hp_p = \<lambda>_. None, hp_next = 0\<rparr> :: string ls_heap"
  let ?ps = "[Append ''a'', Prepend ''b'', InsertAt 1 ''c'', DelAt 0, Pop, PopHead]"
  obtain rs h' l' where r: "run_list ls_step ?ps (?h, ls_new) = (rs, h', l')" by (metis prod.collapse)
  have "run_list list_spec ?ps [] = ([Done, Done, Done, Flag True, Val (Some ''a''), Val (Some ''c'')], [])"
    by (simp add: insert_pos_def)
  from ls_refines_sequence [OF _ r this] show ?thesis using r by (simp add: list_pre_def insert_pos_def)
qed

section \<open>Sorting\<close>

text \<open>The exchange sort on the sequence of elements.\<close>

fun pass :: "('a \<Rightarrow> 'a \<Rightarrow> int) \<Rightarrow> 'a \<Rightarrow> 'a list \<Rightarrow> 'a \<times> 'a list" where
  "pass cmp x [] = (x, [])"
| "pass cmp x (y # ys) =
     (if cmp x y > 0 then (case pass cmp y ys of (m, r) \<Rightarrow> (m, x # r))
      else (case pass cmp x ys of (m, r) \<Rightarrow> (m, y # r)))"

lemma pass_length: "length (snd (pass cmp x ys)) = length ys"
  by (induction cmp x ys rule: pass.induct) (auto split: prod.splits)

lemma pass_shorter: "(m, r) = pass cmp x ys \<Longrightarrow> length r < Suc (length ys)"
  using pass_length [of cmp x ys] by (metis lessI snd_conv)

function xsort :: "('a \<Rightarrow> 'a \<Rightarrow> int) \<Rightarrow> 'a list \<Rightarrow> 'a list" where
  "xsort cmp [] = []"
| "xsort cmp (x # xs) = (case pass cmp x xs of (m, r) \<Rightarrow> m # xsort cmp r)"
  by pat_completeness auto
termination
  by (relation "measure (length \<circ> snd)") (auto dest: pass_shorter)

lemma pass_mset: "pass cmp x ys = (m, r) \<Longrightarrow> mset (m # r) = mset (x # ys)"
  by (induction cmp x ys arbitrary: m r rule: pass.induct) (auto split: if_splits prod.splits)

lemma xsort_mset: "mset (xsort cmp xs) = mset xs"
proof (induction cmp xs rule: xsort.induct)
  case (2 cmp x xs)
  obtain m r where p: "pass cmp x xs = (m, r)" by fastforce
  then show ?case using 2 [OF p [symmetric]] pass_mset [OF p] by simp
qed simp

context cmp_order
begin

lemma pass_min: "pass cmp x ys = (m, r) \<Longrightarrow> cmp m x \<le> 0 \<and> (\<forall>y \<in> set r. cmp m y \<le> 0)"
proof (induction ys arbitrary: x m r)
  case Nil
  then show ?case using refl by simp
next
  case (Cons y ys)
  show ?case
  proof (cases "cmp x y > 0")
    case True
    then obtain r' where p: "pass cmp y ys = (m, r')" "r = x # r'" using Cons.prems by (auto split: prod.splits)
    have "cmp y x \<le> 0" using True not_le_imp by auto
    then show ?thesis using Cons.IH [OF p(1)] p(2) trans by auto
  next
    case False
    then obtain r' where p: "pass cmp x ys = (m, r')" "r = y # r'" using Cons.prems by (auto split: prod.splits)
    then show ?thesis using Cons.IH [OF p(1)] False trans [of m x y] by auto
  qed
qed

lemma xsort_ordered: "ordered cmp (xsort cmp xs)"
proof (induction "length xs" arbitrary: xs)
  case (Suc n)
  then obtain x ys where xs: "xs = x # ys" by (cases xs) auto
  obtain m r where p: "pass cmp x ys = (m, r)" by fastforce
  have "length r = n" using pass_length [of cmp x ys] p Suc.hyps(2) xs by simp
  moreover have "set (xsort cmp r) = set r" by (metis xsort_mset set_mset_mset)
  ultimately show ?case using Suc.hyps(1) [of r] pass_min [OF p] p xs by simp
qed simp

end

lemma exchange_step:
  assumes "a \<noteq> b" "hp_data h a = Some x" "hp_data h b = Some y"
  shows "hp_data (exchange cmp a b h) = (hp_data h)(a \<mapsto> (if cmp x y > 0 then y else x), b \<mapsto> (if cmp x y > 0 then x else y))"
    "hp_n (exchange cmp a b h) = hp_n h" "hp_p (exchange cmp a b h) = hp_p h" "hp_next (exchange cmp a b h) = hp_next h"
  using assms by (auto simp: exchange_def data_cmp_def fun_eq_iff)

lemma fold_exchange:
  assumes "distinct (a # bs)" "hp_data h a = Some x" "map (hp_data h) bs = map Some ys" "pass cmp x ys = (m, r)"
  shows "hp_data (fold (exchange cmp a) bs h) a = Some m \<and> map (hp_data (fold (exchange cmp a) bs h)) bs = map Some r
     \<and> hp_n (fold (exchange cmp a) bs h) = hp_n h \<and> hp_p (fold (exchange cmp a) bs h) = hp_p h
     \<and> hp_next (fold (exchange cmp a) bs h) = hp_next h
     \<and> (\<forall>c. c \<notin> set (a # bs) \<longrightarrow> hp_data (fold (exchange cmp a) bs h) c = hp_data h c)"
  using assms
proof (induction bs arbitrary: h x ys m r)
  case (Cons b bs)
  then obtain y ys' where ys: "ys = y # ys'" by (cases ys) auto
  have d: "a \<noteq> b" "a \<notin> set bs" "b \<notin> set bs" "distinct (a # bs)" "hp_data h b = Some y" using Cons.prems ys by auto
  let ?h = "exchange cmp a b h"
  note e = exchange_step [OF d(1) Cons.prems(2) d(5), of cmp]
  have rest: "map (hp_data ?h) bs = map Some ys'" using Cons.prems(3) ys d e(1) by (auto simp: map_eq_conv)
  show ?case
  proof (cases "cmp x y > 0")
    case True
    obtain r' where p: "pass cmp y ys' = (m, r')" "r = x # r'" using Cons.prems(4) ys True by (auto split: prod.splits)
    have "hp_data ?h a = Some y" using e(1) d(1) True by simp
    from Cons.IH [OF d(4) this rest p(1)] show ?thesis using e p(2) d True by auto
  next
    case False
    obtain r' where p: "pass cmp x ys' = (m, r')" "r = y # r'" using Cons.prems(4) ys False by (auto split: prod.splits)
    have "hp_data ?h a = Some x" using e(1) d(1) False by simp
    from Cons.IH [OF d(4) this rest p(1)] show ?thesis using e p(2) d False by auto
  qed
qed auto

lemma sort_iters_ok:
  assumes "distinct as" "map (hp_data h) as = map Some ds"
  shows "map (hp_data (sort_iters cmp as h)) as = map Some (xsort cmp ds)
     \<and> hp_n (sort_iters cmp as h) = hp_n h \<and> hp_p (sort_iters cmp as h) = hp_p h
     \<and> hp_next (sort_iters cmp as h) = hp_next h
     \<and> (\<forall>c. c \<notin> set as \<longrightarrow> hp_data (sort_iters cmp as h) c = hp_data h c)"
  using assms
proof (induction as arbitrary: h ds)
  case (Cons a as)
  then obtain x ys where ds: "ds = x # ys" "hp_data h a = Some x" "map (hp_data h) as = map Some ys" by (cases ds) auto
  obtain m r where p: "pass cmp x ys = (m, r)" by fastforce
  let ?h = "fold (exchange cmp a) as h"
  note f = fold_exchange [OF Cons.prems(1) ds(2,3) p]
  have d: "distinct as" "a \<notin> set as" using Cons.prems(1) by auto
  have "map (hp_data ?h) as = map Some r" using f by blast
  from Cons.IH [OF d(1) this] show ?case using f d(2) ds(1) p by auto
qed auto

subsection \<open>Merging\<close>

fun mrg :: "('a \<Rightarrow> 'a \<Rightarrow> bool) \<Rightarrow> 'a list \<Rightarrow> 'a list \<Rightarrow> 'a list" where
  "mrg le [] bs = bs"
| "mrg le (a # as) [] = a # as"
| "mrg le (a # as) (b # bs) = (if le a b then a # mrg le as (b # bs) else b # mrg le (a # as) bs)"

lemma mrg_Nil [simp]: "mrg le as [] = as"
  by (cases as) auto

lemma mrg_mset: "mset (mrg le as bs) = mset as + mset bs"
  by (induction le as bs rule: mrg.induct) auto

lemma mrg_set [simp]: "set (mrg le as bs) = set as \<union> set bs"
  using arg_cong [OF mrg_mset [of le as bs], of set_mset] by simp

lemma mrg_distinct: "distinct (as @ bs) \<Longrightarrow> distinct (mrg le as bs)"
  by (induction le as bs rule: mrg.induct) auto

lemma mrg_cong: "(\<And>a b. a \<in> set as \<Longrightarrow> b \<in> set bs \<Longrightarrow> le a b = le' a b) \<Longrightarrow> mrg le as bs = mrg le' as bs"
  by (induction le as bs rule: mrg.induct) auto

context cmp_order
begin

lemma mrg_ordered: "ordered cmp (map f as) \<Longrightarrow> ordered cmp (map f bs) \<Longrightarrow> ordered cmp (map f (mrg (\<lambda>a b. cmp (f a) (f b) \<le> 0) as bs))"
proof (induction as arbitrary: bs)
  case (Cons a as)
  note IHa = Cons
  show ?case using Cons.prems
  proof (induction bs)
    case (Cons b bs)
    show ?case
    proof (cases "cmp (f a) (f b) \<le> 0")
      case True
      then have "ordered cmp (map f (mrg (\<lambda>a b. cmp (f a) (f b) \<le> 0) as (b # bs)))" using IHa Cons.prems by simp
      moreover have "cmp (f a) (f y) \<le> 0" if "y \<in> set bs" for y
        using that Cons.prems(2) trans [OF True] by simp
      ultimately show ?thesis using True Cons.prems by auto
    next
      case False
      then have ba: "cmp (f b) (f a) \<le> 0" by (rule not_le_imp)
      have "cmp (f b) (f y) \<le> 0" if "y \<in> set as" for y
        using that Cons.prems(1) trans [OF ba] by simp
      then show ?thesis using False ba Cons by auto
    qed
  qed simp
qed simp

end

lemma npath_frame: "npath h as q \<Longrightarrow> \<forall>a \<in> set as. hp_n h' a = hp_n h a \<Longrightarrow> npath h' as q"
  using npath_cong [of as h' h] by blast

lemma first_of_mem: "first_of cs None = Some x \<Longrightarrow> x \<in> set cs"
  by (cases cs) auto

lemma last_of_mem: "last_of cs None = Some x \<Longrightarrow> x \<in> set cs"
  by (auto simp: last_of_def split: if_splits)

definition built :: "'a ls_heap \<Rightarrow> nat list \<Rightarrow> bool" where
  "built h ds \<longleftrightarrow> (\<exists>q. seg h None ds q)"

lemma link_next_ok:
  assumes "built h ds" "distinct ds" "a \<notin> set ds" "link_next a (last_of ds None) (first_of ds None) h = (hd', h')"
  shows "hd' = first_of (ds @ [a]) None" "built h' (ds @ [a])" "hp_data h' = hp_data h" "hp_next h' = hp_next h"
    "\<And>x. x \<notin> set ds \<Longrightarrow> hp_n h' x = hp_n h x" "\<And>x. x \<noteq> a \<Longrightarrow> hp_p h' x = hp_p h x"
proof -
  have *: "hd' = first_of (ds @ [a]) None \<and> built h' (ds @ [a]) \<and> hp_data h' = hp_data h \<and> hp_next h' = hp_next h
    \<and> (\<forall>x. x \<notin> set ds \<longrightarrow> hp_n h' x = hp_n h x) \<and> (\<forall>x. x \<noteq> a \<longrightarrow> hp_p h' x = hp_p h x)"
  proof (cases "ds = []")
    case True
    then show ?thesis using assms(4) by (auto simp: link_next_def built_def)
  next
    case False
    obtain q where q: "seg h None ds q" using assms(1) by (auto simp: built_def)
    let ?h1 = "if_ptr (last_of ds None) (\<lambda>r. set_n r (Some a)) h"
    have h': "h' = set_p a (last_of ds None) ?h1" "hd' = first_of ds None"
      using assms(4) False by (auto simp: link_next_def first_of_None split: if_splits)
    have 1: "seg h' None ds (Some a)" using retarget_n [OF q assms(2), of "Some a"] assms(3) by (simp add: h')
    have "hp_p h' a = last_of ds None" by (simp add: h')
    then have "seg h' None (ds @ [a]) (hp_n h' a)" using 1 by simp
    then have "built h' (ds @ [a])" unfolding built_def by blast
    then show ?thesis using False h' by (auto simp: last_of_def first_of_def neq_Nil_conv)
  qed
  then show "hd' = first_of (ds @ [a]) None" "built h' (ds @ [a])" "hp_data h' = hp_data h" "hp_next h' = hp_next h"
    "\<And>x. x \<notin> set ds \<Longrightarrow> hp_n h' x = hp_n h x" "\<And>x. x \<noteq> a \<Longrightarrow> hp_p h' x = hp_p h x" by blast+
qed

definition le_at :: "('a \<Rightarrow> 'a \<Rightarrow> int) \<Rightarrow> 'a ls_heap \<Rightarrow> nat \<Rightarrow> nat \<Rightarrow> bool" where
  "le_at cmp h a b \<longleftrightarrow> data_cmp cmp (hp_data h a) (hp_data h b) \<le> 0"

definition merged :: "('a \<Rightarrow> 'a \<Rightarrow> int) \<Rightarrow> 'a ls_heap \<Rightarrow> nat list \<Rightarrow> nat list \<Rightarrow>
    nat option \<times> nat option \<times> 'a ls_heap \<Rightarrow> bool" where
  "merged cmp h ds cs out \<longleftrightarrow>
     (case out of (result, head, h') \<Rightarrow>
        result = last_of (ds @ cs) None \<and> head = first_of (ds @ cs) None \<and> built h' (ds @ cs)
        \<and> hp_data h' = hp_data h \<and> hp_next h' = hp_next h
        \<and> (\<forall>x. x \<notin> set (ds @ cs) \<longrightarrow> hp_n h' x = hp_n h x \<and> hp_p h' x = hp_p h x))"

lemma merged_step:
  assumes "link_next a (last_of ds None) (first_of ds None) h = (hd', h')" "built h ds" "distinct ds" "a \<notin> set ds"
    "merged cmp h' (ds @ [a]) cs out"
  shows "merged cmp h ds (a # cs) out"
  using assms(5) link_next_ok [OF assms(2-4,1)] by (auto simp: merged_def)

lemma merge_loop_ok:
  assumes "npath h as None" "npath h bs None" "distinct (ds @ as @ bs)" "built h ds" "length as + length bs \<le> fuel"
  shows "merged cmp h ds (mrg (le_at cmp h) as bs)
    (merge_loop fuel cmp (first_of as None) (first_of bs None) (last_of ds None) (first_of ds None) h)"
  using assms
proof (induction fuel arbitrary: as bs ds h)
  case 0
  then show ?case by (simp add: merged_def)
next
  case (Suc fuel)
  have take: "merged cmp h ds (a # mrg (le_at cmp h) as' bs')
      (case link_next a (last_of ds None) (first_of ds None) h of (hd', h') \<Rightarrow>
         merge_loop fuel cmp (first_of as' None) (first_of bs' None) (Some a) hd' h')"
    if t: "npath h as' None" "npath h bs' None" "distinct (ds @ a # as' @ bs')" "length as' + length bs' \<le> fuel" for a as' bs'
  proof -
    obtain hd' h' where l: "link_next a (last_of ds None) (first_of ds None) h = (hd', h')" by fastforce
    have d: "distinct ds" "a \<notin> set ds" using t(3) by auto
    note n = link_next_ok [OF Suc.prems(4) d l]
    have p: "npath h' as' None" "npath h' bs' None"
      using t(1-3) n(5) npath_frame [of h as' None h'] npath_frame [of h bs' None h'] by auto
    have le: "le_at cmp h' = le_at cmp h" by (simp add: le_at_def n(3) fun_eq_iff)
    have "merged cmp h' (ds @ [a]) (mrg (le_at cmp h') as' bs')
      (merge_loop fuel cmp (first_of as' None) (first_of bs' None) (last_of (ds @ [a]) None) (first_of (ds @ [a]) None) h')"
      by (rule Suc.IH [OF p _ n(2)]) (use t in auto)
    from merged_step [OF l Suc.prems(4) d this [unfolded le]] show ?thesis by (simp add: l n(1))
  qed
  show ?case
  proof (cases as)
    case Nil
    note as = Nil
    show ?thesis
    proof (cases bs)
      case Nil
      then show ?thesis using Suc.prems(4) by (simp add: as merged_def)
    next
      case (Cons b bs')
      then show ?thesis using take [of "[]" bs' b] Suc.prems as by simp
    qed
  next
    case (Cons a as')
    note as = Cons
    show ?thesis
    proof (cases bs)
      case Nil
      then show ?thesis using take [of as' "[]" a] Suc.prems as by simp
    next
      case (Cons b bs')
      show ?thesis
      proof (cases "le_at cmp h a b")
        case True
        then have "data_cmp cmp (hp_data h a) (hp_data h b) \<le> 0" by (simp add: le_at_def)
        then show ?thesis using take [of as' bs a] Suc.prems as Cons True by simp
      next
        case False
        then have "\<not> data_cmp cmp (hp_data h a) (hp_data h b) \<le> 0" by (simp add: le_at_def)
        then show ?thesis using take [of as bs' b] Suc.prems as Cons False by auto
      qed
    qed
  qed
qed

lemma merge_lists_ok:
  assumes "npath h as None" "npath h bs None" "distinct (as @ bs)" "\<forall>a \<in> set (as @ bs). a < hp_next h"
    "merge_lists cmp h (first_of as None) (first_of bs None) = (head, h')"
  shows "head = first_of (mrg (le_at cmp h) as bs) None" "seg h' None (mrg (le_at cmp h) as bs) None"
    "hp_data h' = hp_data h" "hp_next h' = hp_next h"
    "\<And>x. x \<notin> set (as @ bs) \<Longrightarrow> hp_n h' x = hp_n h x \<and> hp_p h' x = hp_p h x"
proof -
  let ?cs = "mrg (le_at cmp h) as bs"
  obtain nx hd1 h1 where m: "merge_loop (Suc (hp_next h)) cmp (first_of as None) (first_of bs None) None None h = (nx, hd1, h1)"
    by (metis prod.collapse)
  have len: "length as + length bs \<le> Suc (hp_next h)" using nodes_bound [OF assms(3,4)] by simp
  have "merged cmp h [] ?cs (nx, hd1, h1)"
    using merge_loop_ok [OF assms(1,2) _ _ len, of "[]" cmp] assms(3) m by (simp add: built_def)
  then have M: "nx = last_of ?cs None" "hd1 = first_of ?cs None" "built h1 ?cs" "hp_data h1 = hp_data h" "hp_next h1 = hp_next h"
    "\<And>x. x \<notin> set (as @ bs) \<Longrightarrow> hp_n h1 x = hp_n h x \<and> hp_p h1 x = hp_p h x" by (auto simp: merged_def)
  have d: "distinct ?cs" by (rule mrg_distinct [OF assms(3)])
  obtain q where q: "seg h1 None ?cs q" using M(3) by (auto simp: built_def)
  have h': "h' = if_ptr (last_of ?cs None) (\<lambda>x. set_n x None) (if_ptr (first_of ?cs None) (\<lambda>x. set_p x None) h1)"
    and hd: "head = first_of ?cs None" using assms(5) m M(1,2) by (auto simp: merge_lists_def)
  show "head = first_of ?cs None" by (rule hd)
  show "seg h' None ?cs None" unfolding h' by (rule retarget_n [OF retarget_p [OF q d] d])
  show "hp_data h' = hp_data h" "hp_next h' = hp_next h" using M(4,5) by (auto simp: h' if_ptr_def split: option.splits)
  show "\<And>x. x \<notin> set (as @ bs) \<Longrightarrow> hp_n h' x = hp_n h x \<and> hp_p h' x = hp_p h x"
  proof -
    fix x assume x: "x \<notin> set (as @ bs)"
    then have "x \<notin> set ?cs" by simp
    then have "last_of ?cs None \<noteq> Some x" "first_of ?cs None \<noteq> Some x" using first_of_mem last_of_mem by blast+
    then show "hp_n h' x = hp_n h x \<and> hp_p h' x = hp_p h x" using M(6) [OF x]
      by (auto simp: h' if_ptr_def split: option.splits)
  qed
qed

subsection \<open>Splitting\<close>

lemma npath_nth: "npath h as None \<Longrightarrow> i < length as \<Longrightarrow> hp_n h (as ! i) = first_of (drop (Suc i) as) None"
  by (subst (asm) nth_split [of i as]) auto

lemma npath_next: "npath h as None \<Longrightarrow> i < length as \<Longrightarrow>
    hp_n h (as ! i) = (if Suc i < length as then Some (as ! Suc i) else None)"
  using npath_nth [of h as i] Cons_nth_drop_Suc [of "Suc i" as] by (auto simp: first_of_def split: list.splits)

lemma split_walk_ok:
  assumes "npath h as None" "2 * j < length as" "length as \<le> fuel + j"
  shows "split_walk fuel h (as ! j) (as ! (2 * j)) j = (as ! ((length as - 1) div 2), (length as - 1) div 2)"
  using assms(2,3)
proof (induction fuel arbitrary: j)
  case (Suc fuel)
  show ?case
  proof (cases "2 * j + 2 < length as")
    case True
    have "hp_n h (as ! (2 * j)) = Some (as ! Suc (2 * j))" "hp_n h (as ! Suc (2 * j)) = Some (as ! (2 * Suc j))"
      "hp_n h (as ! j) = Some (as ! Suc j)" using True by (simp_all add: npath_next [OF assms(1)])
    then show ?thesis using Suc.IH [of "Suc j"] True Suc.prems by simp
  next
    case False
    then consider "length as = 2 * j + 1" | "length as = 2 * j + 2" using Suc.prems by linarith
    then show ?thesis
    proof cases
      case 1
      then show ?thesis by (simp add: npath_next [OF assms(1)])
    next
      case 2
      have "hp_n h (as ! (2 * j)) = Some (as ! Suc (2 * j))" "hp_n h (as ! Suc (2 * j)) = None"
        using 2 by (simp_all add: npath_next [OF assms(1)])
      then show ?thesis using 2 by simp
    qed
  qed
qed simp

lemma list_split_ok:
  assumes "npath h as None" "distinct as" "\<forall>a \<in> set as. a < hp_next h" "1 < length as"
  defines "m \<equiv> (length as - 1) div 2"
  shows "list_split h (first_of as None) =
     (if m < MERGELIMIT then (None, h) else (Some (as ! Suc m), set_n (as ! m) None h))"
proof -
  obtain a b cs where as: "as = a # b # cs" using assms(4) by (auto simp: neq_Nil_conv Suc_less_eq2 length_Suc_conv less_iff_Suc_add)
  have "length as \<le> hp_next h + 0" using nodes_bound [OF assms(2,3)] by simp
  from split_walk_ok [OF assms(1) _ this] have "split_walk (hp_next h) h a a 0 = (as ! m, m)"
    by (simp add: as m_def)
  moreover have "hp_n h (as ! m) = Some (as ! Suc m)" using npath_next [OF assms(1), of m] assms(4) m_def by auto
  moreover have "hp_n h a \<noteq> None" using assms(1) as by simp
  ultimately show ?thesis by (auto simp: list_split_def as)
qed

lemma split_paths:
  assumes "npath h as None" "distinct as" "m < length as"
  shows "npath (set_n (as ! m) None h) (take (Suc m) as) None" "npath (set_n (as ! m) None h) (drop (Suc m) as) None"
proof -
  have e: "as = take m as @ as ! m # drop (Suc m) as" by (rule nth_split [OF assms(3)])
  have d: "as ! m \<notin> set (take m as)" "as ! m \<notin> set (drop (Suc m) as)"
    using assms(2) by (subst (asm) e, auto)+
  have p: "npath h (take m as) (Some (as ! m))" "npath h (drop (Suc m) as) None"
    using assms(1) by (subst (asm) e, simp)+
  show "npath (set_n (as ! m) None h) (drop (Suc m) as) None"
    using npath_frame [OF p(2), of "set_n (as ! m) None h"] d(2) by auto
  have "npath (set_n (as ! m) None h) (take m as) (Some (as ! m))"
    using npath_frame [OF p(1), of "set_n (as ! m) None h"] d(1) by auto
  then show "npath (set_n (as ! m) None h) (take (Suc m) as) None"
    using take_Suc_conv_app_nth [OF assms(3)] by simp
qed

subsection \<open>Merge sort\<close>

text \<open>What sorting the chain \<open>as\<close> with elements \<open>ds\<close> leaves.\<close>

definition sorted_chain :: "('a \<Rightarrow> 'a \<Rightarrow> int) \<Rightarrow> 'a ls_heap \<Rightarrow> nat list \<Rightarrow> 'a list \<Rightarrow> nat option \<Rightarrow> 'a ls_heap \<Rightarrow> nat list \<Rightarrow> bool" where
  "sorted_chain cmp h as ds head h' cs \<longleftrightarrow>
     head = first_of cs None \<and> npath h' cs None \<and> distinct cs \<and> set cs = set as
     \<and> (\<exists>es. map (hp_data h') cs = map Some es \<and> ordered cmp es \<and> mset es = mset ds)
     \<and> hp_next h' = hp_next h
     \<and> (\<forall>x. x \<notin> set as \<longrightarrow> hp_n h' x = hp_n h x \<and> hp_p h' x = hp_p h x \<and> hp_data h' x = hp_data h x)
     \<and> (seg h None as None \<longrightarrow> seg h' None cs None)"

lemma iters_chain:
  assumes "npath h as None" "distinct as" "\<forall>a \<in> set as. a < hp_next h" "map (hp_data h) as = map Some ds"
  shows "ls_iters h (first_of as None) = as"
proof -
  have "\<forall>a \<in> set as. hp_data h a \<noteq> None"
    using arg_cong [OF assms(4), of set] by auto
  then show ?thesis using iters_npath [OF assms(1) nodes_bound [OF assms(2,3)]]
    by (simp add: ls_iters_def takeWhile_eq_all_conv)
qed

lemma last_iter_ok: "npath h cs None \<Longrightarrow> length cs \<le> fuel \<Longrightarrow> last_iter fuel h (first_of cs None) = last_of cs None"
proof (induction cs arbitrary: fuel)
  case Nil
  then show ?case by (cases fuel) auto
next
  case (Cons c cs)
  then obtain k where "fuel = Suc k" by (cases fuel) auto
  then show ?case using Cons by (cases cs) auto
qed

context cmp_order
begin

lemma chain_insertion_sort:
  assumes "npath h as None" "distinct as" "\<forall>a \<in> set as. a < hp_next h" "map (hp_data h) as = map Some ds"
  shows "sorted_chain cmp h as ds (first_of as None) (ls_insertion_sort_iter cmp h (first_of as None)) as"
proof -
  let ?h = "ls_insertion_sort_iter cmp h (first_of as None)"
  have "?h = sort_iters cmp as h" by (simp add: ls_insertion_sort_iter_def iters_chain [OF assms])
  with sort_iters_ok [OF assms(2,4), of cmp] have s: "map (hp_data ?h) as = map Some (xsort cmp ds)" "hp_n ?h = hp_n h"
    "hp_p ?h = hp_p h" "hp_next ?h = hp_next h" "\<forall>c. c \<notin> set as \<longrightarrow> hp_data ?h c = hp_data h c" by auto
  have "npath ?h as None" "seg ?h None as None = seg h None as None"
    using npath_cong [of as ?h h] seg_cong [of as ?h h] assms(1) s(2,3) by auto
  moreover have "\<exists>es. map (hp_data ?h) as = map Some es \<and> ordered cmp es \<and> mset es = mset ds"
    using s(1) xsort_ordered xsort_mset by blast
  ultimately show ?thesis unfolding sorted_chain_def using s(2-5) assms(2) by simp
qed

lemma chain_merge:
  assumes "sorted_chain cmp h1 as xs ha h2 cs" "sorted_chain cmp h2 bs ys hb h3 es" "distinct (as @ bs)"
    "map (hp_data h1) as = map Some xs" "\<forall>a \<in> set (as @ bs). a < hp_next h1"
    "merge_lists cmp h3 ha hb = (head, h4)"
  shows "sorted_chain cmp h1 (as @ bs) (xs @ ys) head h4 (mrg (le_at cmp h3) cs es)"
    "seg h4 None (mrg (le_at cmp h3) cs es) None"
proof -
  let ?ms = "mrg (le_at cmp h3) cs es"
  obtain vs where A: "ha = first_of cs None" "npath h2 cs None" "distinct cs" "set cs = set as" "map (hp_data h2) cs = map Some vs"
    "ordered cmp vs" "mset vs = mset xs" "hp_next h2 = hp_next h1"
    "\<And>x. x \<notin> set as \<Longrightarrow> hp_n h2 x = hp_n h1 x \<and> hp_p h2 x = hp_p h1 x \<and> hp_data h2 x = hp_data h1 x"
    using assms(1) by (auto simp: sorted_chain_def)
  obtain ws where B: "hb = first_of es None" "npath h3 es None" "distinct es" "set es = set bs" "map (hp_data h3) es = map Some ws"
    "ordered cmp ws" "mset ws = mset ys" "hp_next h3 = hp_next h2"
    "\<And>x. x \<notin> set bs \<Longrightarrow> hp_n h3 x = hp_n h2 x \<and> hp_p h3 x = hp_p h2 x \<and> hp_data h3 x = hp_data h2 x"
    using assms(2) by (auto simp: sorted_chain_def)
  have dj: "\<forall>x \<in> set cs. x \<notin> set bs" using assms(3) A(4) by auto
  have c: "npath h3 cs None" "map (hp_data h3) cs = map Some vs"
    using npath_frame [OF A(2), of h3] B(9) dj A(5) by (auto simp: map_eq_conv list_eq_iff_nth_eq)
  have dd: "distinct (cs @ es)" "\<forall>a \<in> set (cs @ es). a < hp_next h3" using A B assms(3,5) by auto
  note M = merge_lists_ok [OF c(1) B(2) dd assms(6) [unfolded A(1) B(1)]]
  define f where "f a = the (hp_data h3 a)" for a
  have f: "map f cs = vs" "map f es = ws" "\<forall>a \<in> set (cs @ es). hp_data h3 a = Some (f a)"
    using c(2) B(5) by (auto simp: f_def list_eq_iff_nth_eq in_set_conv_nth)
  have "?ms = mrg (\<lambda>a b. cmp (f a) (f b) \<le> 0) cs es"
    by (rule mrg_cong) (use f(3) in \<open>auto simp: le_at_def data_cmp_def\<close>)
  then have o: "ordered cmp (map f ?ms)" using mrg_ordered [of f cs es] A(6) B(6) f(1,2) by simp
  have "mset (map f ?ms) = mset (xs @ ys)" using mrg_mset [of "le_at cmp h3" cs es] f(1,2) A(7) B(7)
    by (metis image_mset_union mset_append mset_map)
  moreover have "map (hp_data h4) ?ms = map Some (map f ?ms)" using f(3) M(3) by simp
  ultimately have "\<exists>us. map (hp_data h4) ?ms = map Some us \<and> ordered cmp us \<and> mset us = mset (xs @ ys)"
    using o by blast
  moreover have "set ?ms = set (as @ bs)" "distinct ?ms" "hp_next h4 = hp_next h1" "npath h4 ?ms None"
    using A(4,8) B(4,8) M(4) mrg_distinct [OF dd(1)] seg_npath [OF M(2)] by auto
  moreover have "hp_n h4 x = hp_n h1 x \<and> hp_p h4 x = hp_p h1 x \<and> hp_data h4 x = hp_data h1 x" if "x \<notin> set (as @ bs)" for x
    using that A(9) [of x] B(9) [of x] M(3) M(5) [of x] A(4) B(4) by simp
  ultimately show "sorted_chain cmp h1 (as @ bs) (xs @ ys) head h4 ?ms" unfolding sorted_chain_def using M(1,2) by blast
  show "seg h4 None ?ms None" by (rule M(2))
qed

lemma chain_cut:
  assumes "sorted_chain cmp (set_n a v h) as ds head h' cs" "a \<in> set as" "seg h' None cs None"
  shows "sorted_chain cmp h as ds head h' cs"
  using assms by (auto simp: sorted_chain_def)

lemma merge_sort_ok:
  assumes "npath h as None" "distinct as" "\<forall>a \<in> set as. a < hp_next h" "map (hp_data h) as = map Some ds"
    "length as \<le> fuel" "merge_sort fuel cmp h (first_of as None) = (head, h')"
  shows "\<exists>cs. sorted_chain cmp h as ds head h' cs"
  using assms
proof (induction fuel arbitrary: h as ds head h')
  case 0
  then show ?case by (auto simp: sorted_chain_def)
next
  case (Suc fuel)
  show ?case
  proof (cases "length as \<le> 1")
    case True
    then have "as = [] \<or> (\<exists>a. as = [a])" by (cases as) auto
    then show ?thesis using Suc.prems by (auto simp: sorted_chain_def intro!: exI [of _ as])
  next
    case False
    define m where "m = (length as - 1) div 2"
    have m: "m < length as" "Suc m < length as" "as \<noteq> []" using False by (auto simp: m_def)
    have nx: "hp_n h (hd as) \<noteq> None" "first_of as None = Some (hd as)"
      using npath_next [OF Suc.prems(1), of 0] False m(3) by (auto simp: hd_conv_nth first_of_def split: list.splits)
    note sp = list_split_ok [OF Suc.prems(1-3), folded m_def]
    show ?thesis
    proof (cases "m < MERGELIMIT")
      case True
      then have "head = first_of as None" "h' = ls_insertion_sort_iter cmp h (first_of as None)"
        using Suc.prems(6) sp nx False by auto
      then show ?thesis using chain_insertion_sort [OF Suc.prems(1-4)] by blast
    next
      case big: False
      let ?as = "take (Suc m) as" and ?bs = "drop (Suc m) as" and ?h1 = "set_n (as ! m) None h"
      note P = split_paths [OF Suc.prems(1,2) m(1)]
      have fs: "first_of ?as None = Some (hd as)" "first_of ?bs None = Some (as ! Suc m)"
        using m(3) Cons_nth_drop_Suc [OF m(2)] by (cases as, simp_all) (metis first_of_simps(2))
      obtain ha h2 where s1: "merge_sort fuel cmp ?h1 (first_of ?as None) = (ha, h2)" by fastforce
      obtain hb h3 where s2: "merge_sort fuel cmp h2 (first_of ?bs None) = (hb, h3)" by fastforce
      have mg: "merge_lists cmp h3 ha hb = (head, h')"
        using Suc.prems(6) sp nx False big s1 s2 fs by auto
      have ds: "map (hp_data ?h1) ?as = map Some (take (Suc m) ds)" "map (hp_data h) ?bs = map Some (drop (Suc m) ds)"
        using arg_cong [OF Suc.prems(4), of "take (Suc m)"] arg_cong [OF Suc.prems(4), of "drop (Suc m)"]
        by (simp_all add: take_map drop_map)
      have dj: "set ?as \<inter> set ?bs = {}" by (rule set_take_disj_set_drop_if_distinct [OF Suc.prems(2)]) simp
      have b1: "\<forall>a \<in> set ?as. a < hp_next ?h1" "\<forall>a \<in> set ?bs. a < hp_next h" "length ?as \<le> fuel" "length ?bs \<le> fuel"
        using Suc.prems(3,5) m by (auto dest: in_set_takeD in_set_dropD)
      obtain cs where A: "sorted_chain cmp ?h1 ?as (take (Suc m) ds) ha h2 cs"
        using Suc.IH [OF P(1) distinct_take [OF Suc.prems(2)] b1(1) ds(1) b1(3) s1] by blast
      have fr: "\<forall>x \<in> set ?bs. hp_n h2 x = hp_n ?h1 x \<and> hp_data h2 x = hp_data h x" "hp_next h2 = hp_next h"
        using A dj by (auto simp: sorted_chain_def)
      have Q: "npath h2 ?bs None" "map (hp_data h2) ?bs = map Some (drop (Suc m) ds)" "\<forall>a \<in> set ?bs. a < hp_next h2"
        using npath_frame [OF P(2), of h2] fr b1(2) ds(2) map_cong [OF HOL.refl, of ?bs "hp_data h2" "hp_data h"] by simp_all
      obtain es where B: "sorted_chain cmp h2 ?bs (drop (Suc m) ds) hb h3 es"
        using Suc.IH [OF Q(1) distinct_drop [OF Suc.prems(2)] Q(3,2) b1(4) s2] by blast
      note C = chain_merge [OF A B _ ds(1) _ mg]
      have "sorted_chain cmp ?h1 as ds head h' (mrg (le_at cmp h3) cs es)" "seg h' None (mrg (le_at cmp h3) cs es) None"
        using C Suc.prems(2,3) by simp_all
      then show ?thesis using chain_cut m(1) nth_mem by blast
    qed
  qed
qed

lemma sort_chain_contents:
  "sorted_chain cmp h as ds head h' cs \<Longrightarrow> \<exists>es. contents h' cs = map Some es \<and> ordered cmp es \<and> mset es = mset ds"
  by (simp add: sorted_chain_def contents_def)

lemma ls_merge_sort_ok:
  assumes "ls_inv h l as" "contents h as = map Some ds" "ls_merge_sort h l cmp = (h', l')"
  shows "\<exists>cs es. ls_inv h' l' cs \<and> contents h' cs = map Some es \<and> ordered cmp es \<and> mset es = mset ds"
proof (cases "as = []")
  case True
  then show ?thesis using assms by (auto simp: ls_inv_def ls_merge_sort_def contents_def)
next
  case False
  have i: "seg h None as None" "distinct as" "\<forall>a \<in> set as. a < hp_next h" "l_head l = first_of as None"
    "l_length l = word_of_nat (length as)" "map (hp_data h) as = map Some ds"
    using assms(1,2) by (auto simp: ls_inv_def contents_def)
  obtain head where s: "merge_sort (hp_next h) cmp h (first_of as None) = (head, h')"
    "l' = l\<lparr>l_head := head, l_tail := last_iter (hp_next h') h' head, l_sorted := True\<rparr>"
    using assms(3) i(4) False by (auto simp: ls_merge_sort_def first_of_None split: prod.splits)
  obtain cs where c: "sorted_chain cmp h as ds head h' cs"
    using merge_sort_ok [OF seg_npath [OF i(1)] i(2,3,6) nodes_bound [OF i(2,3)] s(1)] by blast
  then have k: "head = first_of cs None" "npath h' cs None" "distinct cs" "set cs = set as" "hp_next h' = hp_next h" "seg h' None cs None"
    using i(1) by (auto simp: sorted_chain_def)
  have len: "length cs = length as" using k(3,4) i(2) by (metis distinct_card)
  have "last_iter (hp_next h') h' head = last_of cs None"
    unfolding k(1) by (rule last_iter_ok [OF k(2)]) (use nodes_bound [OF i(2,3)] len k(5) in simp)
  then have "ls_inv h' l' cs" using k s(2) i(3,5) len by (simp add: ls_inv_def)
  then show ?thesis using sort_chain_contents [OF c] by blast
qed

lemma ls_sort_ok:
  assumes "ls_inv h l as" "contents h as = map Some ds" "l_cmp l \<noteq> Some i" "ls_sort h l i cmp = (r, h', l')"
  shows "r \<and> l_sorted l' \<and> l_cmp l' = Some i
     \<and> (\<exists>cs es. ls_inv h' l' cs \<and> contents h' cs = map Some es \<and> ordered cmp es \<and> mset es = mset ds)"
proof -
  have mark: "ls_inv h' l1 cs \<Longrightarrow> ls_inv h' (l1\<lparr>l_cmp := c, l_sorted := b\<rparr>) cs" for l1 cs c b by (simp add: ls_inv_def)
  obtain l1 where l1: "(if l_length l > word_of_nat MERGELIMIT then ls_merge_sort h l cmp
      else (ls_insertion_sort cmp h l, l)) = (h', l1)" "r" "l' = l1\<lparr>l_cmp := Some i, l_sorted := True\<rparr>"
    using assms(3,4) by (auto simp: ls_sort_def split: prod.splits)
  have "\<exists>cs es. ls_inv h' l1 cs \<and> contents h' cs = map Some es \<and> ordered cmp es \<and> mset es = mset ds"
  proof (cases "l_length l > word_of_nat MERGELIMIT")
    case True
    then show ?thesis using ls_merge_sort_ok [OF assms(1,2)] l1(1) by simp
  next
    case False
    have j: "seg h None as None" "distinct as" "\<forall>a \<in> set as. a < hp_next h" "l_head l = first_of as None" "l_tail l = last_of as None"
      "l_length l = word_of_nat (length as)" "map (hp_data h) as = map Some ds"
      using assms(1,2) by (auto simp: ls_inv_def contents_def)
    have e: "h' = ls_insertion_sort_iter cmp h (first_of as None)" "l1 = l" using l1(1) False j(4) by (auto simp: ls_insertion_sort_def)
    have c: "sorted_chain cmp h as ds (first_of as None) h' as"
      unfolding e(1) by (rule chain_insertion_sort [OF seg_npath [OF j(1)] j(2,3,7)])
    then have "ls_inv h' l1 as" using j e(2) by (auto simp: sorted_chain_def ls_inv_def)
    then show ?thesis using sort_chain_contents [OF c] by blast
  qed
  then show ?thesis using l1(2,3) mark by simp blast
qed

end

text \<open>
  C37.  \<^verbatim>\<open>ls_sort\<close> with a comparison that is a total preorder: if it is not the comparison the list was last sorted with,
  it leaves a well-formed list whose elements are an ordered permutation of the elements before, whether it exchanges elements
  (short lists) or splits, sorts and merges the chain of nodes (lists of more than \<^verbatim>\<open>MERGELIMIT\<close> elements), and returns true.
  If it is, the call returns false and leaves the list as it is, sorted or not.
\<close>

theorem ls_sort_sorts:
  assumes "\<And>x y. cmp x y \<le> 0 \<longleftrightarrow> 0 \<le> cmp y x" "\<And>x y z. cmp x y \<le> 0 \<Longrightarrow> cmp y z \<le> 0 \<Longrightarrow> cmp x z \<le> 0"
    "ls_inv h l as" "map (hp_data h) as = map Some ds" "ls_sort h l i cmp = (r, h', l')"
  shows "if l_cmp l = Some i then \<not> r \<and> h' = h \<and> l' = l
    else r \<and> l_sorted l' \<and> l_cmp l' = Some i \<and>
      (\<exists>cs es. ls_inv h' l' cs \<and> map (hp_data h') cs = map Some es \<and> ordered cmp es \<and> mset es = mset ds)"
proof (cases "l_cmp l = Some i")
  case True
  then show ?thesis using assms(5) by (simp add: ls_sort_def)
next
  case False
  have "cmp_order cmp" using assms(1,2) by (rule cmp_order.intro)
  from cmp_order.ls_sort_ok [OF this assms(3) _ False assms(5), unfolded contents_def, OF assms(4)] False show ?thesis by simp
qed

theorem ls_sort_sorts_witness:
  "let h = \<lparr>hp_data = \<lambda>_. None, hp_n = \<lambda>_. None, hp_p = \<lambda>_. None, hp_next = 0\<rparr>;
       (h, l) = snd (run_list ls_step (map Append [2, 3, 1 :: int]) (h, ls_new))
   in \<exists>h' l' as. ls_sort h l 7 (\<lambda>x y. x - y) = (True, h', l') \<and> ls_inv h' l' as \<and> map (hp_data h') as = map Some [1, 2, 3]"
proof -
  let ?h = "\<lparr>hp_data = \<lambda>_. None, hp_n = \<lambda>_. None, hp_p = \<lambda>_. None, hp_next = 0\<rparr> :: int ls_heap"
  let ?ps = "map Append [2, 3, 1 :: int]"
  have "holds_list (?h, ls_new) []" using holds_new by (simp add: holds_list_def)
  moreover obtain rs h l where r: "run_list ls_step ?ps (?h, ls_new) = (rs, h, l)" by (metis prod.collapse)
  moreover have "run_list list_spec ?ps [] = ([Done, Done, Done], [2, 3, 1])" by simp
  ultimately have "holds_list (h, l) [2, 3, 1]" using ls_list.run_refines [of "(?h, ls_new)" "[]" ?ps] by (simp add: list_pre_def)
  then obtain as where inv: "ls_inv h l as" "map (hp_data h) as = map Some [2, 3, 1]"
    unfolding holds_list_def holds_def contents_def by auto
  have c: "l_cmp l \<noteq> Some 7" using r
    by (auto simp: ls_step_def ls_append_def ls_new_def new_node_def Let_def split: prod.splits)
  obtain b h' l' where s: "ls_sort h l 7 (\<lambda>x y. x - y) = (b, h', l')" by (metis prod.collapse)
  obtain cs es where t: "b" "ls_inv h' l' cs" "map (hp_data h') cs = map Some es" "ordered (\<lambda>x y. x - y) es" "mset es = mset [2, 3, 1]"
    using ls_sort_sorts [of "\<lambda>x y. x - y", OF _ _ inv s] c by auto
  have "sorted es" using t(4) by (simp add: ordered_def)
  then have "es = sort [2, 3, 1]" using t(5) by (metis properties_for_sort)
  then show ?thesis using r s t by auto
qed

text \<open>
  Adding an element forgets that the list is sorted but not the comparison, so that sorting again with the same one does nothing.
\<close>

lemma ls_append_then_sort:
  assumes "l_cmp l = Some i" "ls_append h l x = (it, h1, l1)"
  shows "\<not> l_sorted l1 \<and> ls_sort h1 l1 i cmp = (False, h1, l1)"
  using assms by (auto simp: ls_append_def ls_sort_def Let_def split: prod.splits)

text \<open>
  \<^verbatim>\<open>ls_pop_head\<close> subtracts one from the length of an empty list as well, which \<^verbatim>\<open>ls_pop\<close> does not; and
  \<^verbatim>\<open>ls_join\<close> leaves the length of the list it empties.
\<close>

lemma ls_pop_head_empty: "l_length (snd (snd (ls_pop_head h ls_new))) = - 1"
  by (simp add: ls_pop_head_def ls_new_def)

lemma ls_join_length: "l_length l2 \<noteq> 0 \<Longrightarrow> ls_join h l1 l2 = (r, h', l1', l2') \<Longrightarrow> l_head l2' = None \<and> l_length l2' = l_length l2"
  by (auto simp: ls_join_def Let_def split: if_splits)

end
