(* ===== verification/Sdb_Num.thy ===== *)
theory Sdb_Num
  imports Sdb_Core
begin

text \<open>
  Numbers and booleans in a database: \<^verbatim>\<open>src/num.c\<close>.  Values are printed in the base of the
  value they replace and read back with \<^verbatim>\<open>sdb_atoi\<close>.  The \<^verbatim>\<open>printf\<close>-style variants take the
  formatted key; a key that does not fit \<^verbatim>\<open>SDB_MAX_KEY\<close> is refused by \<^verbatim>\<open>sdb_vfmtkey\<close>.
\<close>

section \<open>Operations\<close>

definition sdb_num_exists :: "sdb \<Rightarrow> string \<Rightarrow> bool \<times> sdb" where
  "sdb_num_exists s key =
     (case sdb_const_get s key of
        ((None, _), s) \<Rightarrow> (False, s)
      | ((Some x, _), s) \<Rightarrow> (schar (CHR ''0'') \<le> schar (deref x) \<and> schar (deref x) \<le> schar (CHR ''9''), s))"

definition sdb_num_parse :: "string option \<Rightarrow> ut64" where
  "sdb_num_parse v = (case v of None \<Rightarrow> 0 | Some v \<Rightarrow> if deref v = CHR ''-'' then 0 else sdb_atoi v)"

definition sdb_num_get :: "sdb \<Rightarrow> string \<Rightarrow> (ut64 \<times> ut32) \<times> sdb" where
  "sdb_num_get s key = (case sdb_const_get s key of ((v, cas), s) \<Rightarrow> ((sdb_num_parse v, cas), s))"

definition sdb_num_add :: "sdb \<Rightarrow> string \<Rightarrow> ut64 \<Rightarrow> ut32 \<Rightarrow> bool \<times> sdb" where
  "sdb_num_add s key v cas =
     (case sdb_const_get s key of
        ((x, _), s) \<Rightarrow> sdb_add s key (Some (itoa64 v (sdb_num_base x))) cas)"

definition sdb_num_set :: "sdb \<Rightarrow> string \<Rightarrow> ut64 \<Rightarrow> ut32 \<Rightarrow> bool \<times> sdb" where
  "sdb_num_set s key v cas =
     (case sdb_const_get s key of
        ((x, _), s) \<Rightarrow> sdb_set s key (Some (itoa64 v (sdb_num_base x))) cas)"

definition sdb_num_setf :: "sdb \<Rightarrow> ut64 \<Rightarrow> ut32 \<Rightarrow> string \<Rightarrow> bool \<times> sdb" where
  "sdb_num_setf s v cas formatted =
     (case sdb_vfmtkey formatted of None \<Rightarrow> (False, s) | Some key \<Rightarrow> sdb_num_set s key v cas)"

definition sdb_num_getf :: "sdb \<Rightarrow> string \<Rightarrow> (ut64 \<times> ut32) \<times> sdb" where
  "sdb_num_getf s formatted =
     (case sdb_const_vgetf s formatted of ((v, cas), s) \<Rightarrow> ((sdb_num_parse v, cas), s))"

definition sdb_num_inc :: "sdb \<Rightarrow> string \<Rightarrow> ut64 \<Rightarrow> ut32 \<Rightarrow> ut64 \<times> sdb" where
  "sdb_num_inc s key n2 cas =
     (case sdb_num_get s key of
        ((n, c), s) \<Rightarrow>
          let res = n + n2 in
          if (cas \<noteq> 0 \<and> c \<noteq> cas) \<or> res < n then (0, s)
          else (res, snd (sdb_num_set s key res cas)))"

definition sdb_num_dec :: "sdb \<Rightarrow> string \<Rightarrow> ut64 \<Rightarrow> ut32 \<Rightarrow> ut64 \<times> sdb" where
  "sdb_num_dec s key n2 cas =
     (case sdb_num_get s key of
        ((n, c), s) \<Rightarrow>
          if cas \<noteq> 0 \<and> c \<noteq> cas then (0, s)
          else if n2 > n then (0, snd (sdb_set s key (Some ''0'') cas))
          else (n - n2, snd (sdb_num_set s key (n - n2) cas)))"

definition sdb_num_min :: "sdb \<Rightarrow> string \<Rightarrow> ut64 \<Rightarrow> ut32 \<Rightarrow> bool \<times> sdb" where
  "sdb_num_min db k n cas =
     (case sdb_const_get db k of
        ((a, c), db) \<Rightarrow>
          if cas \<noteq> 0 \<and> c \<noteq> cas then (False, db)
          else if (case a of None \<Rightarrow> True | Some a \<Rightarrow> n < sdb_atoi a) then sdb_num_set db k n cas
          else (False, db))"

definition sdb_num_max :: "sdb \<Rightarrow> string \<Rightarrow> ut64 \<Rightarrow> ut32 \<Rightarrow> bool \<times> sdb" where
  "sdb_num_max db k n cas =
     (case sdb_const_get db k of
        ((a, c), db) \<Rightarrow>
          if cas \<noteq> 0 \<and> c \<noteq> cas then (False, db)
          else if (case a of None \<Rightarrow> True | Some a \<Rightarrow> n > sdb_atoi a) then sdb_num_set db k n cas
          else (False, db))"

definition sdb_bool_set :: "sdb \<Rightarrow> string \<Rightarrow> bool \<Rightarrow> ut32 \<Rightarrow> bool \<times> sdb" where
  "sdb_bool_set db str v cas = sdb_set db str (Some (if v then ''true'' else ''false'')) cas"

definition sdb_bool_get :: "sdb \<Rightarrow> string \<Rightarrow> (bool \<times> ut32) \<times> sdb" where
  "sdb_bool_get db str =
     (case sdb_const_get db str of
        ((b, cas), db) \<Rightarrow>
          (((case b of None \<Rightarrow> False | Some b \<Rightarrow> strcmp b ''1'' = 0 \<or> strcmp b ''true'' = 0), cas), db))"

text \<open>A pointer is its address.\<close>

definition sdb_ptr_set :: "sdb \<Rightarrow> string \<Rightarrow> ut64 \<Rightarrow> ut32 \<Rightarrow> bool \<times> sdb" where
  "sdb_ptr_set db key p cas = sdb_num_set db key p cas"

definition sdb_ptr_get :: "sdb \<Rightarrow> string \<Rightarrow> (ut64 \<times> ut32) \<times> sdb" where
  "sdb_ptr_get db key = sdb_num_get db key"

section \<open>Properties\<close>

text \<open>The number a key holds, and whether the value would be printed in octal.\<close>

definition num_view :: "sdb \<Rightarrow> string \<Rightarrow> ut64" where
  "num_view s k = (case mem_view s k of None \<Rightarrow> 0 | Some v \<Rightarrow> sdb_atoi v)"

definition octal :: "string option \<Rightarrow> bool" where
  "octal v \<longleftrightarrow> sdb_num_base v = 8"

lemma num_parse_view: "sdb_num_parse (mem_view s k) = num_view s k"
  by (simp add: sdb_num_parse_def num_view_def sdb_atoi_def split: option.splits)

lemma num_get_mem: "mem_inv s \<Longrightarrow> fst (fst (sdb_num_get s k)) = num_view s k \<and> snd (sdb_num_get s k) = s"
  using const_get_mem [of s k] by (auto simp: sdb_num_get_def num_parse_view split: prod.splits)

lemma num_base_cases: "sdb_num_base v \<in> {8, 10, 16}"
  by (simp add: sdb_num_base_def SDB_NUM_BASE_def split: option.splits)

lemma itoa64_length: "length (itoa64 n (sdb_num_base v)) < SDB_VSZ"
proof -
  obtain t where "sdb_itoa n (sdb_num_base v) (Some SDB_NUM_BUFSZ) = ItoaStr t" "length t < SDB_NUM_BUFSZ"
    using sdb_itoa_bounds [of "sdb_num_base v" n] num_base_cases [of v] by auto
  then show ?thesis by (simp add: itoa64_def SDB_NUM_BUFSZ_def SDB_VSZ_def)
qed

lemma itoa64_nonempty: "\<not> octal v \<Longrightarrow> itoa64 n (sdb_num_base v) \<noteq> []"
  using num_base_cases [of v] digs_hd [of 10 "unat n"]
  by (cases "n = 0") (auto simp: octal_def itoa64_zero itoa64_hex itoa64_dec unat_eq_zero)

lemma num_set_view:
  assumes "mem_ready s k" "\<not> octal (mem_view s k)"
  shows "mem_inv (snd (sdb_num_set s k n 0))" "num_view (snd (sdb_num_set s k n 0)) k = n"
    "j \<noteq> k \<Longrightarrow> mem_view (snd (sdb_num_set s k n 0)) j = mem_view s j"
    "ht_count (s_ht (snd (sdb_num_set s k n 0))) \<le> ht_count (s_ht s) + 1"
proof -
  let ?x = "itoa64 n (sdb_num_base (mem_view s k))"
  have run: "sdb_num_set s k n 0 = sdb_set s k (Some ?x) 0"
    using const_get_mem [OF mem_readyD [OF assms(1)], of k] by (auto simp: sdb_num_set_def split: prod.splits)
  note r = set_ready [OF assms(1) itoa64_length [of n "mem_view s k"]]
  show "mem_inv (snd (sdb_num_set s k n 0))" using r run by simp
  show "j \<noteq> k \<Longrightarrow> mem_view (snd (sdb_num_set s k n 0)) j = mem_view s j" using r run by simp
  show "ht_count (s_ht (snd (sdb_num_set s k n 0))) \<le> ht_count (s_ht s) + 1" using r run by simp
  have "sdb_atoi ?x = n"
    using assms(2) num_base_cases [of "mem_view s k"] by (intro atoi_itoa) (auto simp: octal_def)
  then show "num_view (snd (sdb_num_set s k n 0)) k = n"
    using r run itoa64_nonempty [OF assms(2)] by (simp add: num_view_def)
qed

text \<open>
  Numbers are read back: on a database in memory \<^verbatim>\<open>sdb_num_set\<close> stores any 64-bit number so
  that \<^verbatim>\<open>sdb_num_get\<close> returns it, whatever value (other than one written in octal) the key had
  before, and no other key changes.
\<close>

theorem num_set_get:
  assumes "mem_ready s k" "\<not> octal (mem_view s k)" "sdb_num_set s k n 0 = (r, s')"
  shows "fst (fst (sdb_num_get s' k)) = n \<and> (\<forall>j. j = k \<or> mem_view s' j = mem_view s j)"
  using num_set_view [OF assms(1,2), where n = n] num_get_mem [of s' k] assms(3) by auto

theorem num_set_get_witness:
  "fst (fst (sdb_num_get (snd (sdb_num_set (single ''k'' ''0x10'') ''k'' 255 0)) ''k'')) = 255"
  using num_set_get [where n = 255 and s = "single ''k'' ''0x10''" and k = "''k''" and s' = "snd (sdb_num_set (single ''k'' ''0x10'') ''k'' 255 0)", OF _ _ prod.collapse [symmetric]]
  by (simp add: single_ok SDB_KSZ_def SDB_VSZ_def octal_def sdb_num_base_def strneq.simps numeral_2_eq_2)

text \<open>
  Counters: \<^verbatim>\<open>sdb_num_inc\<close> adds, and when the sum would not fit 64 bits it returns 0 and
  leaves the database as it is; \<^verbatim>\<open>sdb_num_dec\<close> subtracts and stops at 0.  What the two return is
  what the key holds afterwards.
\<close>

theorem num_inc_dec:
  assumes "mem_ready s k" "\<not> octal (mem_view s k)"
    "sdb_num_inc s k d 0 = (r1, s1)" "sdb_num_dec s k d 0 = (r2, s2)"
  shows "(if unat (num_view s k) + unat d < 2 ^ 64
          then unat r1 = unat (num_view s k) + unat d \<and> num_view s1 k = r1
          else r1 = 0 \<and> s1 = s)
     \<and> unat r2 = unat (num_view s k) - unat d \<and> num_view s2 k = r2"
proof
  let ?n = "num_view s k"
  have inv: "mem_inv s" by (rule mem_readyD [OF assms(1)])
  have ov: "?n + d < ?n \<longleftrightarrow> \<not> unat ?n + unat d < 2 ^ 64"
    using unat_ut64 [of "?n"] unat_ut64 [of d]
    by (cases "unat ?n + unat d < 2 ^ 64") (auto simp: word_less_nat_alt unat_word_ariths le_mod_geq not_less)
  show "if unat ?n + unat d < 2 ^ 64 then unat r1 = unat ?n + unat d \<and> num_view s1 k = r1 else r1 = 0 \<and> s1 = s"
    using assms(3) num_get_mem [OF inv, of k] num_set_view(2) [OF assms(1,2), of "?n + d"] ov
    by (auto simp: sdb_num_inc_def Let_def unat_word_ariths split: prod.splits if_splits)
  show "unat r2 = unat ?n - unat d \<and> num_view s2 k = r2"
  proof (cases "d > ?n")
    case True
    then have "r2 = 0" "s2 = snd (sdb_set s k (Some ''0'') 0)"
      using assms(4) num_get_mem [OF inv, of k] by (auto simp: sdb_num_dec_def split: prod.splits)
    moreover have "sdb_atoi ''0'' = 0" using atoi_itoa [of 10 0] by (simp add: itoa64_zero)
    ultimately show ?thesis using True set_ready(1) [OF assms(1), of "''0''"]
      by (simp add: num_view_def SDB_VSZ_def word_less_nat_alt)
  next
    case False
    then have "r2 = ?n - d" "s2 = snd (sdb_num_set s k (?n - d) 0)"
      using assms(4) num_get_mem [OF inv, of k] by (auto simp: sdb_num_dec_def split: prod.splits)
    then show ?thesis using False num_set_view(2) [OF assms(1,2), of "?n - d"]
      by (simp add: word_less_nat_alt word_le_nat_alt unat_sub)
  qed
qed

theorem num_inc_dec_witness:
  "let s = single ''k'' ''5'' in
   fst (sdb_num_inc s ''k'' 3 0) = 8 \<and> fst (sdb_num_dec s ''k'' 7 0) = 0"
proof -
  let ?s = "single ''k'' ''5''"
  have v: "num_view ?s ''k'' = 5"
    by (simp add: num_view_def single_ok SDB_KSZ_def SDB_VSZ_def sdb_atoi_def strtoull0_def deref_def isspace_def
        isdigit_in_def digit_val_def)
  have o: "\<not> octal (mem_view ?s ''k'')" "mem_ready ?s ''k''"
    by (simp_all add: single_ok SDB_KSZ_def SDB_VSZ_def octal_def sdb_num_base_def deref_def)
  obtain r1 s1 r2 s2 where r: "sdb_num_inc ?s ''k'' 3 0 = (r1, s1)" "sdb_num_dec ?s ''k'' 3 0 = (r2, s2)" by fastforce
  obtain r3 s3 r4 s4 where q: "sdb_num_inc ?s ''k'' 7 0 = (r3, s3)" "sdb_num_dec ?s ''k'' 7 0 = (r4, s4)" by fastforce
  have "r1 = 8" using num_inc_dec [OF o(2,1) r] v unfolding word_unat_eq_iff by simp
  moreover have "r4 = 0" using num_inc_dec [OF o(2,1) q] v unfolding word_unat_eq_iff by simp
  ultimately show ?thesis using r q by simp
qed

text \<open>
  \<^verbatim>\<open>sdb_num_min\<close> and \<^verbatim>\<open>sdb_num_max\<close> leave the smaller and the larger of the stored and the given
  number, and the given number when the key had no value; booleans are read back.
\<close>

theorem num_min_max_bool:
  assumes "mem_ready s k" "\<not> octal (mem_view s k)"
    "sdb_num_min s k n 0 = (r1, s1)" "sdb_num_max s k n 0 = (r2, s2)" "sdb_bool_set s k b 0 = (r3, s3)"
  shows "num_view s1 k = (if mem_view s k = None then n else min n (num_view s k))
     \<and> num_view s2 k = (if mem_view s k = None then n else max n (num_view s k))
     \<and> fst (fst (sdb_bool_get s3 k)) = b"
proof (intro conjI)
  have inv: "mem_inv s" by (rule mem_readyD [OF assms(1)])
  note g = const_get_mem(1,2) [OF inv, of k]
  note v = num_set_view(2) [OF assms(1,2), of n]
  show "num_view s1 k = (if mem_view s k = None then n else min n (num_view s k))"
    using assms(3) g v num_view_def [of s k]
    by (cases "mem_view s k") (auto simp: sdb_num_min_def min_def not_less split: prod.splits if_splits)
  show "num_view s2 k = (if mem_view s k = None then n else max n (num_view s k))"
    using assms(4) g v num_view_def [of s k]
    by (cases "mem_view s k") (auto simp: sdb_num_max_def max_def not_less split: prod.splits if_splits)
  have r: "length (if b then ''true'' else ''false'') < SDB_VSZ" by (simp add: SDB_VSZ_def)
  note w = set_ready [OF assms(1) r]
  have s3: "s3 = snd (sdb_set s k (Some (if b then ''true'' else ''false'')) 0)"
    using assms(5) by (simp add: sdb_bool_set_def)
  show "fst (fst (sdb_bool_get s3 k)) = b"
    using const_get_mem(1) [of s3 k] w(1,2) by (auto simp: s3 sdb_bool_get_def strcmp_eq_0 split: prod.splits if_splits)
qed

theorem num_min_max_bool_witness:
  "num_view (snd (sdb_num_max (single ''k'' ''5'') ''k'' 9 0)) ''k'' = max 9 (num_view (single ''k'' ''5'') ''k'')"
proof -
  let ?s = "single ''k'' ''5''"
  have o: "mem_ready ?s ''k''" "\<not> octal (mem_view ?s ''k'')" "mem_view ?s ''k'' \<noteq> None"
    by (simp_all add: single_ok SDB_KSZ_def SDB_VSZ_def octal_def sdb_num_base_def deref_def)
  obtain r1 s1 r2 s2 r3 s3 where r: "sdb_num_min ?s ''k'' 9 0 = (r1, s1)" "sdb_num_max ?s ''k'' 9 0 = (r2, s2)"
    "sdb_bool_set ?s ''k'' True 0 = (r3, s3)" by fastforce
  from num_min_max_bool [OF o(1,2) r] o(3) r show ?thesis by simp
qed

text \<open>
  A value written in octal is outside these properties: the number that replaces it is printed in
  base 8 without the leading zero, and read back as a decimal number.
\<close>

lemma num_set_octal_not_read_back:
  "fst (fst (sdb_num_get (snd (sdb_num_set (single ''k'' ''010'') ''k'' 8 0)) ''k'')) = 10"
proof -
  let ?s = "single ''k'' ''010''"
  have r: "mem_ready ?s ''k''" and v: "mem_view ?s ''k'' = Some ''010''"
    by (simp_all add: single_ok SDB_KSZ_def SDB_VSZ_def)
  have nb: "sdb_num_base (Some ''010'') = 8" by (simp add: sdb_num_base_def deref_def numeral_2_eq_2)
  have i: "itoa64 8 (sdb_num_base (Some ''010'')) = ''10''"
    by (simp add: nb itoa64_def sdb_itoa_def SDB_NUM_BUFSZ_def itoa_loop.simps itoa_digit_def)
  have run: "sdb_num_set ?s ''k'' 8 0 = sdb_set ?s ''k'' (Some ''10'') 0"
    using const_get_mem(1,2) [OF mem_readyD [OF r], of "''k''"] v i
    by (auto simp: sdb_num_set_def split: prod.splits)
  have "sdb_atoi ''10'' = 10"
    by (simp add: sdb_atoi_def strtoull0_def deref_def isspace_def isdigit_in_def digit_val_def)
  then show ?thesis using set_ready(1,2) [OF r, of "''10''"] run
      num_get_mem [of "snd (sdb_set ?s ''k'' (Some ''10'') 0)" "''k''"]
    by (simp add: num_view_def SDB_VSZ_def)
qed

end
