(* ===== verification/Iter.thy ===== *)
theory Iter
  imports Journal Match Ls Sdb_Num
begin

text \<open>
  Walking over a database, and what is built on it: the dump and foreach functions of \<^verbatim>\<open>src/sdb.c\<close>.

  \<^item> A callback gets a key, a value (\<open>None\<close> for NULL) and a state, and returns whether to go on and the new state.
    The state has the database that is walked, since callbacks change it (\<^verbatim>\<open>sdb_unset_like\<close>) besides their
    own user data.  Callbacks do not add keys to the database that is walked, which may move its table.
  \<^item> The walk over the file reads at least the 4 bytes of a length header per record, which bounds it by
    the size of the file; the walk over a bucket takes at most as many steps as the bucket had elements.
  \<^item> Lists of results are the linked lists of \<open>Ls\<close>, with pairs of a key and a value as their data.
\<close>

section \<open>Records on disk\<close>

definition SDB_MIN_KEY :: nat where
  "SDB_MIN_KEY = 1"

definition sdb_dump_begin :: "sdb \<Rightarrow> sdb" where
  "sdb_dump_begin s = s\<lparr>s_pos := (if s_fd s \<noteq> None then 1024 else 0)\<rparr>"

definition getbytes :: "sdb \<Rightarrow> nat \<Rightarrow> bytes option \<times> sdb" where
  "getbytes s len =
     (case cdb_read (s_db s) len (s_pos s) of
        None \<Rightarrow> (None, s)
      | Some b \<Rightarrow> (Some b, s\<lparr>s_pos := (s_pos s + len) mod 2 ^ 32\<rparr>))"

definition sdb_dump_hasnext :: "sdb \<Rightarrow> bool \<times> sdb" where
  "sdb_dump_hasnext s =
     (case cdb_getkvlen (s_db s) (s_pos s) of
        (ok, k, v) \<Rightarrow>
          if \<not> ok \<or> k < 1 \<or> v < 1 then (False, s) else (True, s\<lparr>s_pos := (s_pos s + (k + v + 4)) mod 2 ^ 32\<rparr>))"

text \<open>The key is left empty when its length is out of range; the bytes are then not skipped.\<close>

definition dupnext_key :: "sdb \<Rightarrow> nat \<Rightarrow> string option \<times> sdb" where
  "dupnext_key s klen =
     (if klen > SDB_MIN_KEY \<and> klen < SDB_MAX_KEY then
        (case getbytes s klen of (b, s) \<Rightarrow> (map_option cstring b, s))
      else (Some [], s))"

definition dupnext_value :: "sdb \<Rightarrow> nat \<Rightarrow> string option option \<times> sdb" where
  "dupnext_value s vlen =
     (if vlen < SDB_MAX_VALUE then
        (case getbytes s vlen of (b, s) \<Rightarrow> (map_option (Some \<circ> cstring) b, s))
      else (Some None, s))"

definition sdb_dump_dupnext :: "sdb \<Rightarrow> (string \<times> string option \<times> nat) option \<times> sdb" where
  "sdb_dump_dupnext s =
     (case cdb_getkvlen (s_db s) (s_pos s) of
        (ok, klen, vlen) \<Rightarrow>
          if \<not> ok then (None, s)
          else
            let s = s\<lparr>s_pos := (s_pos s + 4) mod 2 ^ 32\<rparr> in
            if klen < 1 \<or> vlen < 1 then (None, s)
            else
              (case dupnext_key s klen of
                 (None, s) \<Rightarrow> (None, s)
               | (Some k, s) \<Rightarrow>
                   (case dupnext_value s vlen of
                      (None, s) \<Rightarrow> (None, s)
                    | (Some v, s) \<Rightarrow> (Some (k, v, vlen), s))))"

text \<open>\<^verbatim>\<open>sdb_dump_next\<close> returns \<^verbatim>\<open>tmpkv\<close>: the key, the value and its length without the terminator.\<close>

definition sdb_dump_next :: "sdb \<Rightarrow> (string \<times> string option \<times> nat) option \<times> sdb" where
  "sdb_dump_next s =
     (case sdb_dump_dupnext s of
        (None, s) \<Rightarrow> (None, s)
      | (Some (k, v, vl), s) \<Rightarrow> (Some (take (SDB_KSZ - 1) k, v, vl - 1), s))"

fun count_records :: "nat \<Rightarrow> sdb \<Rightarrow> nat \<times> sdb" where
  "count_records 0 s = (0, s)"
| "count_records (Suc fuel) s =
     (case sdb_dump_hasnext s of
        (False, s) \<Rightarrow> (0, s)
      | (True, s) \<Rightarrow> (case count_records fuel s of (n, s) \<Rightarrow> (Suc n, s)))"

definition walk_fuel :: "sdb \<Rightarrow> nat" where
  "walk_fuel s = Suc (c_size (s_db s))"

definition sdb_isempty :: "sdb \<Rightarrow> bool \<times> sdb" where
  "sdb_isempty s =
     (let (more, s) = (if c_fd (s_db s) \<noteq> None then sdb_dump_hasnext (sdb_dump_begin s) else (False, s))
      in (\<not> more \<and> \<not> ht_count (s_ht s) > 0, s))"

definition sdb_count :: "sdb \<Rightarrow> nat \<times> sdb" where
  "sdb_count s =
     (let (n, s) = (if c_fd (s_db s) \<noteq> None then count_records (walk_fuel s) (sdb_dump_begin s) else (0, s))
      in (n + ht_count (s_ht s), s))"

text \<open>\<^verbatim>\<open>sdb_stats\<close> with both result pointers.\<close>

definition sdb_stats :: "sdb \<Rightarrow> (nat \<times> nat) \<times> sdb" where
  "sdb_stats s =
     (let (n, s) = (if s_fd s \<noteq> None then count_records (walk_fuel s) (sdb_dump_begin s) else (0, s))
      in ((n, ht_count (s_ht s)), s))"

section \<open>Walking\<close>

type_synonym 'u foreach_cb = "string \<Rightarrow> string option \<Rightarrow> 'u \<times> sdb \<Rightarrow> bool \<times> 'u \<times> sdb"

text \<open>One record of the file, for which the table in memory may have a newer value.\<close>

definition cdb_record :: "'u foreach_cb \<Rightarrow> 'u foreach_cb option \<Rightarrow> string \<Rightarrow> string option \<Rightarrow> 'u \<times> sdb \<Rightarrow> bool \<times> 'u \<times> sdb" where
  "cdb_record cb cb2 k v st =
     (case sdb_ht_find_kvp (s_ht (snd st)) k of
        Some kv \<Rightarrow>
          (case kv_value kv of
             None \<Rightarrow> (True, st)
           | Some w \<Rightarrow>
               (case cb (kv_key kv) (Some w) st of
                  (False, st) \<Rightarrow> (False, st)
                | (True, st) \<Rightarrow> (case cb2 of None \<Rightarrow> (True, st) | Some f \<Rightarrow> f k (Some w) st)))
      | None \<Rightarrow> cb k v st)"

fun foreach_cdb_loop :: "nat \<Rightarrow> 'u foreach_cb \<Rightarrow> 'u foreach_cb option \<Rightarrow> 'u \<times> sdb \<Rightarrow> bool \<times> 'u \<times> sdb" where
  "foreach_cdb_loop 0 cb cb2 st = (True, st)"
| "foreach_cdb_loop (Suc fuel) cb cb2 (u, s) =
     (case sdb_dump_dupnext s of
        (None, s) \<Rightarrow> (True, u, s)
      | (Some (k, v, _), s) \<Rightarrow>
          (case cdb_record cb cb2 k v (u, s) of
             (False, st) \<Rightarrow> (False, st)
           | (True, st) \<Rightarrow> foreach_cdb_loop fuel cb cb2 st))"

definition sdb_foreach_cdb :: "'u foreach_cb \<Rightarrow> 'u foreach_cb option \<Rightarrow> 'u \<times> sdb \<Rightarrow> bool \<times> 'u \<times> sdb" where
  "sdb_foreach_cdb cb cb2 st =
     foreach_cdb_loop (walk_fuel (snd st)) cb cb2 (fst st, sdb_dump_begin (snd st))"

text \<open>\<^verbatim>\<open>BUCKET_FOREACH_SAFE\<close>: the index stays when the callback changed the number of elements.\<close>

fun bucket_walk :: "nat \<Rightarrow> 'u foreach_cb \<Rightarrow> nat \<Rightarrow> nat \<Rightarrow> 'u \<times> sdb \<Rightarrow> bool \<times> 'u \<times> sdb" where
  "bucket_walk 0 cb i j st = (True, st)"
| "bucket_walk (Suc fuel) cb i j st =
     (let ht = s_ht (snd st); arr = b_arr (ht_table ht ! i) in
      if j < length arr then
        let kv = arr ! j in
        if kv_value kv = None \<or> kv_value kv = Some [] then bucket_walk fuel cb i (j + 1) st
        else
          (case cb (kv_key kv) (kv_value kv) st of
             (False, st) \<Rightarrow> (False, st)
           | (True, st) \<Rightarrow> bucket_walk fuel cb i (if ht_count (s_ht (snd st)) = ht_count ht then j + 1 else j) st)
      else (True, st))"

fun table_walk :: "nat \<Rightarrow> 'u foreach_cb \<Rightarrow> nat \<Rightarrow> 'u \<times> sdb \<Rightarrow> bool \<times> 'u \<times> sdb" where
  "table_walk 0 cb i st = (True, st)"
| "table_walk (Suc n) cb i st =
     (case bucket_walk (length (b_arr (ht_table (s_ht (snd st)) ! i))) cb i 0 st of
        (False, st) \<Rightarrow> (False, st)
      | (True, st) \<Rightarrow> table_walk n cb (i + 1) st)"

definition sdb_foreach_end :: "bool \<times> 'u \<times> sdb \<Rightarrow> bool \<times> 'u \<times> sdb" where
  "sdb_foreach_end r = (case r of (b, u, s) \<Rightarrow> (b, u, s\<lparr>s_depth := s_depth s - 1\<rparr>))"

definition sdb_foreach :: "'u foreach_cb \<Rightarrow> 'u \<Rightarrow> sdb \<Rightarrow> bool \<times> 'u \<times> sdb" where
  "sdb_foreach cb u s =
     (let s = s\<lparr>s_depth := s_depth s + 1\<rparr> in
      case sdb_foreach_cdb cb None (u, s) of
        (False, st) \<Rightarrow> sdb_foreach_end (False, st)
      | (True, st) \<Rightarrow> sdb_foreach_end (table_walk (ht_size (s_ht (snd st))) cb 0 st))"

section \<open>Functions built on walking\<close>

text \<open>A callback that only uses its user data.\<close>

definition pure_cb :: "(string \<Rightarrow> string option \<Rightarrow> 'u \<Rightarrow> bool \<times> 'u) \<Rightarrow> 'u foreach_cb" where
  "pure_cb f k v st = (case f k v (fst st) of (b, u) \<Rightarrow> (b, u, snd st))"

definition sdb_merge_cb :: "string \<Rightarrow> string option \<Rightarrow> sdb \<Rightarrow> bool \<times> sdb" where
  "sdb_merge_cb k v d = (True, snd (sdb_set d k v 0))"

text \<open>\<^verbatim>\<open>sdb_merge\<close> of two different databases: the result, the destination and the source.\<close>

definition sdb_merge :: "sdb \<Rightarrow> sdb \<Rightarrow> bool \<times> sdb \<times> sdb" where
  "sdb_merge d s = sdb_foreach (pure_cb sdb_merge_cb) d s"

type_synonym kv_list = "(string \<times> string option) ls_heap \<times> ls"

definition push_kv :: "string \<Rightarrow> string option \<Rightarrow> kv_list \<Rightarrow> kv_list" where
  "push_kv k v hl = snd (ls_append (fst hl) (snd hl) (Some (k, v)))"

definition sdb_foreach_list_cb :: "string \<Rightarrow> string option \<Rightarrow> kv_list \<Rightarrow> bool \<times> kv_list" where
  "sdb_foreach_list_cb k v hl = (True, push_kv k v hl)"

definition cmp_asc :: "string \<times> string option \<Rightarrow> string \<times> string option \<Rightarrow> int" where
  "cmp_asc a b = strcmp (fst a) (fst b)"

text \<open>The number that stands for the comparison \<^verbatim>\<open>__cmp_asc\<close> in the \<^verbatim>\<open>cmp\<close> field of a list.\<close>

definition CMP_ASC :: nat where
  "CMP_ASC = 0"

definition sdb_foreach_list :: "(string \<times> string option) ls_heap \<Rightarrow> sdb \<Rightarrow> bool \<Rightarrow> kv_list \<times> sdb" where
  "sdb_foreach_list h s srt =
     (case sdb_foreach (pure_cb sdb_foreach_list_cb) (h, ls_newf True) s of
        (_, (h, l), s) \<Rightarrow> (if srt then snd (ls_sort h l CMP_ASC cmp_asc) else (h, l), s))"

definition sdb_foreach_list_filter_cb ::
  "(string \<Rightarrow> string option \<Rightarrow> bool) option \<Rightarrow> string \<Rightarrow> string option \<Rightarrow> kv_list \<Rightarrow> bool \<times> kv_list" where
  "sdb_foreach_list_filter_cb flt k v hl =
     (if (case flt of None \<Rightarrow> True | Some f \<Rightarrow> f k v)
      then if v = None then (False, hl) else (True, push_kv k v hl)
      else (True, hl))"

definition sdb_foreach_list_filter ::
  "(string \<times> string option) ls_heap \<Rightarrow> sdb \<Rightarrow> (string \<Rightarrow> string option \<Rightarrow> bool) option \<Rightarrow> bool \<Rightarrow> kv_list \<times> sdb" where
  "sdb_foreach_list_filter h s flt srt =
     (case sdb_foreach (pure_cb (sdb_foreach_list_filter_cb flt)) (h, ls_newf True) s of
        (_, (h, l), s) \<Rightarrow> (if srt then snd (ls_sort h l CMP_ASC cmp_asc) else (h, l), s))"

definition lastChar :: "string \<Rightarrow> char" where
  "lastChar str = (if str = [] then NUL else last str)"

text \<open>\<^verbatim>\<open>match\<close> of \<^verbatim>\<open>sdb.c\<close>; a NULL value of a record counts as the empty string in \<^verbatim>\<open>sdbkv_match\<close>.\<close>

definition match_expr :: "string \<Rightarrow> string \<Rightarrow> bool" where
  "match_expr str expr =
     (let startsWith = deref expr = CHR ''^''; endsWith = lastChar expr = CHR ''$'' in
      if startsWith \<and> endsWith then
        length str = length expr - 2 \<and> strneq str (drop 1 expr) (length expr - 2)
      else if startsWith then strneq str (drop 1 expr) (length expr - 1)
      else if endsWith then
        let blen = length expr - 1 in
        if length str \<le> blen then False
        else strneq (drop (length str - blen) str) expr blen
      else strstr str expr \<noteq> None)"

definition sdbkv_match :: "string \<Rightarrow> string \<Rightarrow> string \<Rightarrow> bool" where
  "sdbkv_match key value expr =
     (case strchr expr CHR ''='' of
        Some eq \<Rightarrow>
          let e = take (length expr - length eq) expr; ep = tl eq
          in (e = [] \<or> match_expr key e) \<and> (ep = [] \<or> match_expr value ep)
      | None \<Rightarrow> match_expr key expr)"

definition sdb_foreach_match_cb :: "string \<Rightarrow> bool \<Rightarrow> string \<Rightarrow> string option \<Rightarrow> kv_list \<Rightarrow> bool \<times> kv_list" where
  "sdb_foreach_match_cb expr one k v hl =
     (if sdbkv_match k (case v of None \<Rightarrow> [] | Some w \<Rightarrow> w) expr then (\<not> one, push_kv k v hl) else (True, hl))"

definition sdb_foreach_match :: "(string \<times> string option) ls_heap \<Rightarrow> sdb \<Rightarrow> string \<Rightarrow> bool \<Rightarrow> kv_list \<times> sdb" where
  "sdb_foreach_match h s expr one =
     (case sdb_foreach (pure_cb (sdb_foreach_match_cb expr one)) (h, ls_newf True) s of (_, hl, s) \<Rightarrow> (hl, s))"

definition unset_cb :: "string \<Rightarrow> nat foreach_cb" where
  "unset_cb pat k v st =
     (case st of (n, s) \<Rightarrow> if sdb_match k pat then (True, n + 1, snd (sdb_unset s k 0)) else (True, n, s))"

definition sdb_unset_like :: "sdb \<Rightarrow> string \<Rightarrow> nat \<times> sdb" where
  "sdb_unset_like s k = snd (sdb_foreach (unset_cb k) 0 s)"

text \<open>
  \<^verbatim>\<open>like_cb\<close> without a callback of its own: it collects pointers to the keys and values.  A pattern that is
  NULL matches everything.
\<close>

definition like_cb :: "string option \<Rightarrow> string option \<Rightarrow> string \<Rightarrow> string option \<Rightarrow>
    (string \<times> string option) list \<Rightarrow> bool \<times> (string \<times> string option) list" where
  "like_cb key val k v arr =
     (if (case key of None \<Rightarrow> False | Some p \<Rightarrow> \<not> sdb_match k p) then (True, arr)
      else if (case (v, val) of (Some w, Some p) \<Rightarrow> \<not> sdb_match w p | _ \<Rightarrow> False) then (True, arr)
      else (True, arr @ [(k, v)]))"

definition sdb_like :: "sdb \<Rightarrow> string option \<Rightarrow> string option \<Rightarrow> (string \<times> string option) list option \<times> sdb" where
  "sdb_like s k v =
     (let key = (if k = Some [] then None else k); val = (if v = Some [] then None else v) in
      case sdb_foreach (pure_cb (like_cb key val)) [] s of
        (_, arr, s) \<Rightarrow> (if arr = [] then None else Some arr, s))"

definition rename_prefix_cb :: "string \<Rightarrow> string \<Rightarrow> string option \<Rightarrow> string list \<Rightarrow> bool \<times> string list" where
  "rename_prefix_cb pfx k v keys = (True, if strneq k pfx (length pfx) then keys @ [k] else keys)"

definition rename_prefix_key :: "string \<Rightarrow> string \<Rightarrow> string" where
  "rename_prefix_key newprefix sfx = newprefix @ sfx"

fun rename_keys :: "string list \<Rightarrow> nat \<Rightarrow> string \<Rightarrow> nat \<Rightarrow> sdb \<Rightarrow> nat \<times> sdb" where
  "rename_keys [] len newprefix n s = (n, s)"
| "rename_keys (key # keys) len newprefix n s =
     (case sdb_rename s key (rename_prefix_key newprefix (drop len key)) 0 of
        (r, s) \<Rightarrow> rename_keys keys len newprefix (if r then n + 1 else n) s)"

definition sdb_rename_prefix :: "sdb \<Rightarrow> string \<Rightarrow> string \<Rightarrow> nat \<times> sdb" where
  "sdb_rename_prefix s oldprefix newprefix =
     (case sdb_foreach (pure_cb (rename_prefix_cb oldprefix)) [] s of
        (False, keys, s) \<Rightarrow> (0, s)
      | (True, keys, s) \<Rightarrow> rename_keys keys (length oldprefix) newprefix 0 s)"

definition sdb_num_nset :: "sdb \<Rightarrow> ut64 \<Rightarrow> ut64 \<Rightarrow> ut32 \<Rightarrow> bool \<times> sdb" where
  "sdb_num_nset s nkey nval cas = sdb_num_set s (itoa64 nkey 16) nval cas"

definition sdb_num_nget :: "sdb \<Rightarrow> ut64 \<Rightarrow> (ut64 \<times> ut32) \<times> sdb" where
  "sdb_num_nget s nkey = sdb_num_get s (itoa64 nkey 16)"

text \<open>\<^verbatim>\<open>sdb_close\<close> as far as the state of \<open>sdb\<close> is concerned (the directory name and the gperf table are not part of it).\<close>

definition sdb_close :: "sdb \<Rightarrow> sdb" where
  "sdb_close s =
     (if s_fd s \<noteq> None
      then s\<lparr>s_db := (if c_fd (s_db s) \<noteq> None then (s_db s)\<lparr>c_fd := None\<rparr> else s_db s), s_fd := None\<rparr>
      else s)"

definition sdb_reset :: "sdb \<Rightarrow> sdb" where
  "sdb_reset s = (sdb_close s)\<lparr>s_ht := sdb_ht_new\<rparr>"

section \<open>Walking a database in memory\<close>

text \<open>The keys with a value, in the order of the table.\<close>

definition live :: "sdb_kv \<Rightarrow> bool" where
  "live kv \<longleftrightarrow> kv_value kv \<noteq> None \<and> kv_value kv \<noteq> Some []"

definition live_kvs :: "sdb_kv list \<Rightarrow> (string \<times> string) list" where
  "live_kvs kvs = map (\<lambda>kv. (kv_key kv, the (kv_value kv))) (filter live kvs)"

definition mem_entries :: "sdb \<Rightarrow> (string \<times> string) list" where
  "mem_entries s = live_kvs (ht_entries (s_ht s))"

fun walk_list :: "(string \<Rightarrow> string option \<Rightarrow> 'u \<Rightarrow> bool \<times> 'u) \<Rightarrow> (string \<times> string) list \<Rightarrow> 'u \<Rightarrow> bool \<times> 'u" where
  "walk_list f [] u = (True, u)"
| "walk_list f ((k, v) # kvs) u =
     (case f k (Some v) u of (False, u) \<Rightarrow> (False, u) | (True, u) \<Rightarrow> walk_list f kvs u)"

lemma walk_list_append:
  "walk_list f (xs @ ys) u = (case walk_list f xs u of (False, u) \<Rightarrow> (False, u) | (True, u) \<Rightarrow> walk_list f ys u)"
  by (induction f xs u rule: walk_list.induct) (auto split: prod.splits bool.splits)

lemma walk_list_all:
  "(\<And>k v u. f k v u = (True, g k v u)) \<Longrightarrow> walk_list f kvs u = (True, fold (\<lambda>(k, v). g k (Some v)) kvs u)"
  by (induction f kvs u rule: walk_list.induct) auto

lemma live_kvs_simps [simp]:
  "live_kvs [] = []" "live_kvs (xs @ ys) = live_kvs xs @ live_kvs ys"
  "live_kvs (kv # xs) = (if live kv then [(kv_key kv, the (kv_value kv))] else []) @ live_kvs xs"
  by (simp_all add: live_kvs_def)

lemma pure_cb_app [simp]: "pure_cb f k v (u, s) = (case f k v u of (b, u) \<Rightarrow> (b, u, s))"
  by (simp add: pure_cb_def)

lemma bucket_walk_pure:
  assumes "fuel = length (b_arr (ht_table (s_ht s) ! i)) - j"
  shows "bucket_walk fuel (pure_cb f) i j (u, s) =
    (case walk_list f (live_kvs (drop j (b_arr (ht_table (s_ht s) ! i)))) u of (b, u) \<Rightarrow> (b, u, s))"
  using assms
proof (induction fuel arbitrary: j u)
  case 0
  then show ?case by simp
next
  case (Suc fuel)
  let ?arr = "b_arr (ht_table (s_ht s) ! i)"
  have j: "j < length ?arr" "fuel = length ?arr - Suc j" using Suc.prems by auto
  note d = Cons_nth_drop_Suc [OF j(1), symmetric]
  note IH = Suc.IH [OF j(2)]
  show ?case
  proof (cases "live (?arr ! j)")
    case True
    then obtain v where v: "kv_value (?arr ! j) = Some v" "v \<noteq> []" by (auto simp: live_def)
    show ?thesis using True v j(1) IH
      by (subst d) (auto split: prod.splits bool.splits)
  next
    case False
    then show ?thesis using j(1) IH by (subst d) (auto simp: live_def)
  qed
qed

lemma table_walk_pure:
  assumes "n = length (ht_table (s_ht s)) - i"
  shows "table_walk n (pure_cb f) i (u, s) =
    (case walk_list f (live_kvs (concat (map b_arr (drop i (ht_table (s_ht s)))))) u of (b, u) \<Rightarrow> (b, u, s))"
  using assms
proof (induction n arbitrary: i u)
  case 0
  then show ?case by simp
next
  case (Suc n)
  let ?t = "ht_table (s_ht s)"
  have i: "i < length ?t" "n = length ?t - Suc i" using Suc.prems by auto
  note d = Cons_nth_drop_Suc [OF i(1), symmetric]
  show ?case using Suc.IH [OF i(2)]
    by (subst d) (auto simp: bucket_walk_pure [where j = 0, simplified] walk_list_append split: prod.splits bool.splits)
qed

lemma getkvlen_closed: "c_fd c = None \<Longrightarrow> c_map c = None \<Longrightarrow> cdb_getkvlen c pos = (False, 0, 0)"
  by (simp add: cdb_getkvlen_def cdb_read_def)

lemma foreach_cdb_mem: "mem_inv s \<Longrightarrow> sdb_foreach_cdb cb cb2 (u, s) = (True, u, s\<lparr>s_pos := 0\<rparr>)"
  by (simp add: sdb_foreach_cdb_def walk_fuel_def sdb_dump_dupnext_def sdb_dump_begin_def mem_inv_def getkvlen_closed)

lemma mem_inv_pos [simp]: "mem_inv (s\<lparr>s_pos := p\<rparr>) = mem_inv s" "mem_inv (s\<lparr>s_depth := d\<rparr>) = mem_inv s"
  by (simp_all add: mem_inv_def)

lemma mem_view_pos [simp]: "mem_view (s\<lparr>s_pos := p\<rparr>) = mem_view s" "mem_view (s\<lparr>s_depth := d\<rparr>) = mem_view s"
  by (simp_all add: mem_view_def fun_eq_iff)

text \<open>For a callback that leaves the database alone, the walk is a loop over the keys with a value.\<close>

lemma foreach_mem:
  assumes "mem_inv s"
  shows "sdb_foreach (pure_cb f) u s = (case walk_list f (mem_entries s) u of (b, u) \<Rightarrow> (b, u, s\<lparr>s_pos := 0\<rparr>))"
proof -
  have size: "ht_size (s_ht s) = length (ht_table (s_ht s))"
    using assms by (simp add: mem_inv_def table_wf_def sdb_ht_inv_def ht_inv_def ht_struct_def)
  let ?s = "s\<lparr>s_depth := s_depth s + 1, s_pos := 0\<rparr>"
  have "sdb_foreach_cdb (pure_cb f) None (u, s\<lparr>s_depth := s_depth s + 1\<rparr>) = (True, u, ?s)"
    using foreach_cdb_mem [of "s\<lparr>s_depth := s_depth s + 1\<rparr>"] assms by simp
  moreover have "table_walk (length (ht_table (s_ht s))) (pure_cb f) 0 (u, ?s)
      = (case walk_list f (mem_entries s) u of (b, u) \<Rightarrow> (b, u, ?s))"
    using table_walk_pure [where s = ?s and i = 0 and f = f and u = u, OF refl] by (simp add: mem_entries_def ht_entries_def)
  moreover have "?s\<lparr>s_depth := s_depth ?s - 1\<rparr> = s\<lparr>s_pos := 0\<rparr>" by (cases s) simp
  ultimately show ?thesis by (simp add: sdb_foreach_def size sdb_foreach_end_def split: prod.splits)
qed

lemma mem_entries_ok:
  assumes "mem_inv s"
  shows "distinct (map fst (mem_entries s))" "map_of (mem_entries s) = mem_view s"
    "\<forall>(k, v) \<in> set (mem_entries s). set_ok k v \<and> v \<noteq> []" "length (mem_entries s) \<le> ht_count (s_ht s)"
proof -
  have st: "ht_struct (s_ht s)" and wf: "table_wf (s_ht s)"
    using assms by (auto simp: mem_inv_def table_wf_def sdb_ht_inv_def ht_inv_def)
  have m: "(k, v) \<in> set (mem_entries s) \<longleftrightarrow> mem_view s k = Some v" for k v
  proof -
    have "(k, v) \<in> set (mem_entries s) \<longleftrightarrow> (\<exists>kv. sdb_ht_find_kvp (s_ht s) k = Some kv \<and> live kv \<and> kv_value kv = Some v)"
      unfolding sdb_ht_find_kvp_def find_kv_iff [OF st]
      by (auto simp: mem_entries_def live_kvs_def live_def image_iff)
    also have "\<dots> \<longleftrightarrow> mem_view s k = Some v" by (auto simp: mem_view_def live_def split: option.splits)
    finally show ?thesis .
  qed
  have "map fst (mem_entries s) = map kv_key (filter live (ht_entries (s_ht s)))"
    by (simp add: mem_entries_def live_kvs_def comp_def)
  then show d: "distinct (map fst (mem_entries s))"
    using distinct_map_filter [OF distinct_entries [OF st], of live] by simp
  show "map_of (mem_entries s) = mem_view s"
    by (rule ext, rule option_eqI) (simp add: map_of_eq_Some_iff [OF d] m)
  show "\<forall>(k, v) \<in> set (mem_entries s). set_ok k v \<and> v \<noteq> []"
    using mem_value_len [OF assms] by (fastforce simp: m set_ok_def)
  have "ht_count (s_ht s) = length (ht_entries (s_ht s))" using st by (simp add: ht_struct_def)
  then show "length (mem_entries s) \<le> ht_count (s_ht s)" by (simp add: mem_entries_def live_kvs_def)
qed


section \<open>Merging, listing, counting\<close>

lemma fold_put_map_of:
  "distinct (map fst kvs) \<Longrightarrow> \<forall>(k, v) \<in> set kvs. v \<noteq> [] \<Longrightarrow> fold (\<lambda>(k, v). put_spec k v) kvs m = m ++ map_of kvs"
proof (induction kvs arbitrary: m)
  case (Cons x kvs)
  obtain k v where x: "x = (k, v)" by fastforce
  have "k \<notin> dom (map_of kvs)" using Cons.prems x by (simp add: dom_map_of_conv_image_fst)
  then have "put_spec k v m ++ map_of kvs = (m ++ map_of kvs)(k \<mapsto> v)"
    using Cons.prems(2) x by (auto simp: put_spec_def map_add_def fun_eq_iff split: option.splits)
  also have "\<dots> = m ++ map_of (x # kvs)" by (auto simp: x map_add_def fun_eq_iff)
  finally show ?case using Cons.IH [of "put_spec k v m"] Cons.prems x by (simp del: map_of.simps)
qed simp

text \<open>
  C39.  \<^verbatim>\<open>sdb_merge\<close> of two databases in memory: the destination gets every key of the source with the
  source's value and keeps its other keys; the source has the same values as before.
\<close>

theorem sdb_merge_spec:
  assumes "mem_inv d" "mem_inv s" "ht_count (s_ht d) + ht_count (s_ht s) \<le> 2147483647"
    "sdb_merge d s = (r, d', s')"
  shows "r \<and> mem_inv d' \<and> mem_view d' = mem_view d ++ mem_view s \<and> mem_view s' = mem_view s"
proof -
  note e = mem_entries_ok [OF assms(2)]
  have "walk_list sdb_merge_cb (mem_entries s) d = (True, fold (\<lambda>(k, v) d. snd (sdb_set d k (Some v) 0)) (mem_entries s) d)"
    by (rule walk_list_all) (simp add: sdb_merge_cb_def)
  then have d': "r" "d' = fold (\<lambda>(k, v) d. snd (sdb_set d k (Some v) 0)) (mem_entries s) d" "s' = s\<lparr>s_pos := 0\<rparr>"
    using assms(4) foreach_mem [OF assms(2), of sdb_merge_cb d] by (auto simp: sdb_merge_def)
  have "\<forall>(k, v) \<in> set (mem_entries s). set_ok k v" using e(3) by auto
  then have "mem_view d' = fold (\<lambda>(k, v). put_spec k v) (mem_entries s) (mem_view d)" "mem_inv d'"
    using mem_store.puts_view [OF assms(1), of "mem_entries s"] e(4) assms(3) d'(2) by auto
  moreover have "\<forall>(k, v) \<in> set (mem_entries s). v \<noteq> []" using e(3) by auto
  ultimately show ?thesis using d' fold_put_map_of [OF e(1)] e(2) by simp
qed

theorem sdb_merge_spec_witness:
  "\<exists>r d' s'. sdb_merge (single ''a'' ''1'') (single ''b'' ''2'') = (r, d', s') \<and> r \<and> mem_view d' = [''a'' \<mapsto> ''1'', ''b'' \<mapsto> ''2'']"
proof -
  obtain r d' s' where m: "sdb_merge (single ''a'' ''1'') (single ''b'' ''2'') = (r, d', s')" by (metis prod.collapse)
  have l: "length ''a'' < SDB_KSZ" "length ''b'' < SDB_KSZ" "length ''1'' < SDB_VSZ" "length ''2'' < SDB_VSZ"
    by (simp_all add: SDB_KSZ_def SDB_VSZ_def)
  note a = single_ok [OF l(1,3)] and b = single_ok [OF l(2,4)]
  have "r \<and> mem_view d' = [''a'' \<mapsto> ''1''] ++ [''b'' \<mapsto> ''2'']"
    using sdb_merge_spec [OF _ _ _ m] a b by simp
  then show ?thesis using m by (auto simp: map_add_def fun_eq_iff)
qed

text \<open>The lists of the results.\<close>

lemma push_kvs:
  assumes "ls_inv h l as" "contents h as = map Some ds"
  shows "\<exists>h' l' bs. fold (\<lambda>(k, v). push_kv k (Some v)) kvs (h, l) = (h', l') \<and> ls_inv h' l' bs
     \<and> contents h' bs = map Some (ds @ map (\<lambda>(k, v). (k, Some v)) kvs) \<and> l_cmp l' = l_cmp l"
  using assms
proof (induction kvs arbitrary: h l as ds)
  case Nil
  then show ?case by auto
next
  case (Cons x kvs)
  obtain k v where x: "x = (k, v)" by fastforce
  obtain it h1 l1 where a: "ls_append h l (Some (k, Some v)) = (it, h1, l1)" by (metis prod.collapse)
  note o = append_ok [OF Cons.prems(1) a]
  have c: "l_cmp l1 = l_cmp l" using a by (auto simp: ls_append_def Let_def split: prod.splits)
  have "contents h1 (as @ [it]) = map Some (ds @ [(k, Some v)])" using o(2) Cons.prems(2) by simp
  from Cons.IH [OF o(1) this] show ?case using a x c by (simp add: push_kv_def)
qed

interpretation asc: cmp_order cmp_asc
proof unfold_locales
  show "cmp_asc x y \<le> 0 \<longleftrightarrow> 0 \<le> cmp_asc y x" for x y
    using strcmp_antisym [of "fst x" "fst y"] by (simp add: cmp_asc_def)
  show "cmp_asc x y \<le> 0 \<Longrightarrow> cmp_asc y z \<le> 0 \<Longrightarrow> cmp_asc x z \<le> 0" for x y z
    using strcmp_trans [of "fst x" "fst y" "fst z"] by (simp add: cmp_asc_def)
qed

lemma foreach_list_kvs:
  assumes "mem_inv s" "sdb_foreach_list h s srt = ((h', l), s')"
  shows "\<exists>as kvs. ls_inv h' l as \<and> map (hp_data h') as = map (\<lambda>(k, v). Some (k, Some v)) kvs
     \<and> distinct (map fst kvs) \<and> map_of kvs = mem_view s \<and> (srt \<longrightarrow> sorted_wrt (\<lambda>a b. strcmp (fst a) (fst b) \<le> 0) kvs)"
proof -
  let ?e = "mem_entries s" and ?f = "\<lambda>(k, v). (k :: string, Some (v :: string))"
  note e = mem_entries_ok [OF assms(1)]
  have w: "walk_list sdb_foreach_list_cb ?e hl = (True, fold (\<lambda>(k, v). push_kv k (Some v)) ?e hl)" for hl
    by (rule walk_list_all) (simp add: sdb_foreach_list_cb_def)
  have n: "ls_inv h (ls_newf True) []" "contents h [] = map Some []" "l_cmp (ls_newf True) = None"
    by (simp_all add: ls_inv_def ls_newf_def ls_new_def contents_def)
  obtain h1 l1 bs where p: "fold (\<lambda>(k, v). push_kv k (Some v)) ?e (h, ls_newf True) = (h1, l1)" "ls_inv h1 l1 bs"
    "contents h1 bs = map Some (map ?f ?e)" "l_cmp l1 = None"
    using push_kvs [OF n(1,2), of ?e] n(3) by auto
  have r: "(h', l) = (if srt then snd (ls_sort h1 l1 CMP_ASC cmp_asc) else (h1, l1))"
    using assms(2) foreach_mem [OF assms(1), of sdb_foreach_list_cb] w p(1) by (simp add: sdb_foreach_list_def)
  show ?thesis
  proof (cases srt)
    case False
    have "map (hp_data h1) bs = map (\<lambda>(k, v). Some (k, Some v)) ?e" using p(3) by (auto simp: contents_def)
    then show ?thesis using False r p(2) e(1,2) by auto
  next
    case True
    obtain b where s: "ls_sort h1 l1 CMP_ASC cmp_asc = (b, h', l)" using r True by (metis prod.collapse)
    obtain cs es where t: "ls_inv h' l cs" "contents h' cs = map Some es" "ordered cmp_asc es" "mset es = mset (map ?f ?e)"
      using asc.ls_sort_ok [OF p(2,3) _ s] p(4) by auto
    define kvs where "kvs = map (\<lambda>(k, v). (k, the v)) es"
    have "set es = set (map ?f ?e)" using t(4) by (metis set_mset_mset)
    then have "\<forall>x \<in> set es. ?f (case x of (k, v) \<Rightarrow> (k, the v)) = x" by auto
    then have es: "es = map ?f kvs" by (simp add: kvs_def map_idI)
    have "mset kvs = image_mset (\<lambda>(k, v). (k, the v)) (mset es)" by (simp add: kvs_def)
    also have "\<dots> = mset ?e" unfolding t(4) by (simp add: multiset.map_comp comp_def case_prod_beta)
    finally have m: "mset kvs = mset ?e" .
    have "mset (map fst kvs) = mset (map fst ?e)" using m by simp
    then have d: "distinct (map fst kvs)" using e(1) mset_eq_imp_distinct_iff by blast
    have "map_of kvs = map_of ?e"
      using map_of_inject_set [OF d e(1)] mset_eq_setD [OF m] by simp
    moreover have "map (hp_data h') cs = map (\<lambda>(k, v). Some (k, Some v)) kvs" using t(2) es by (auto simp: contents_def)
    moreover have "sorted_wrt (\<lambda>a b. strcmp (fst a) (fst b) \<le> 0) kvs"
      using t(3) unfolding es by (simp add: ordered_def sorted_wrt_map cmp_asc_def case_prod_beta)
    ultimately show ?thesis using t(1) d e(2) True by auto
  qed
qed

text \<open>
  \<^verbatim>\<open>sdb_foreach_list\<close> on a database in memory returns a well-formed list with one element for every key
  that has a value, with that value; asked for, the list is sorted by key.
\<close>

theorem foreach_list_spec:
  assumes "mem_inv s" "sdb_foreach_list h s srt = ((h', l), s')"
  shows "\<exists>as kvs. ls_inv h' l as \<and> map (hp_data h') as = map (\<lambda>(k, v). Some (k, Some v)) kvs
     \<and> distinct (map fst kvs) \<and> map_of kvs = mem_view s \<and> (srt \<longrightarrow> sorted_wrt (\<lambda>a b. strcmp (fst a) (fst b) \<le> 0) kvs)"
  by (rule foreach_list_kvs [OF assms])

theorem foreach_list_spec_witness:
  "let h = \<lparr>hp_data = \<lambda>_. None, hp_n = \<lambda>_. None, hp_p = \<lambda>_. None, hp_next = 0\<rparr>;
       ((h', l), s') = sdb_foreach_list h (single ''k'' ''v'') True
   in \<exists>as kvs. ls_inv h' l as \<and> map (hp_data h') as = map (\<lambda>(k, v). Some (k, Some v)) kvs \<and> map_of kvs = [''k'' \<mapsto> ''v'']"
proof -
  let ?h = "\<lparr>hp_data = \<lambda>_. None, hp_n = \<lambda>_. None, hp_p = \<lambda>_. None, hp_next = 0\<rparr> :: (string \<times> string option) ls_heap"
  obtain h' l s' where r: "sdb_foreach_list ?h (single ''k'' ''v'') True = ((h', l), s')" by (metis prod.collapse)
  have l: "length ''k'' < SDB_KSZ" "length ''v'' < SDB_VSZ" by (simp_all add: SDB_KSZ_def SDB_VSZ_def)
  from single_ok [OF l] have "mem_inv (single ''k'' ''v'')" "mem_view (single ''k'' ''v'') = [''k'' \<mapsto> ''v'']" by simp_all
  then show ?thesis using foreach_list_spec [OF _ r] r by auto
qed

section \<open>Unsetting while walking\<close>

text \<open>The keys of the buckets, which stay in place when a value is overwritten.\<close>

definition shape :: "sdb_ht \<Rightarrow> string list list" where
  "shape ht = map (map kv_key \<circ> b_arr) (ht_table ht)"

lemma write_shape:
  assumes "ht_struct ht"
  shows "shape (sdb_ht_write ht kv) = shape ht" "ht_size (sdb_ht_write ht kv) = ht_size ht"
proof -
  let ?i = "bucketfn ht (kv_key kv)" and ?f = "find_index (\<lambda>e. kv_key e = kv_key kv)"
  have w: "sdb_ht_write ht kv = (case ?f (b_arr (ht_table ht ! ?i)) of Some j \<Rightarrow> store_kv ht (SlotAt ?i j) kv | None \<Rightarrow> ht)"
    by (simp add: sdb_ht_write_def bucket_lookup [OF assms] Let_def)
  show "ht_size (sdb_ht_write ht kv) = ht_size ht" by (simp add: w Let_def split: option.splits)
  show "shape (sdb_ht_write ht kv) = shape ht"
  proof (cases "?f (b_arr (ht_table ht ! ?i))")
    case (Some j)
    from find_index_SomeD [OF Some]
    have j: "j < length (b_arr (ht_table ht ! ?i))" "kv_key (b_arr (ht_table ht ! ?i) ! j) = kv_key kv" by auto
    have "(map kv_key (b_arr (ht_table ht ! ?i)))[j := kv_key kv] = map kv_key (b_arr (ht_table ht ! ?i))"
      using j by (metis list_update_id nth_map)
    then have "(map kv_key \<circ> b_arr) ((ht_table ht ! ?i)\<lparr>b_arr := (b_arr (ht_table ht ! ?i))[j := kv]\<rparr>)
        = (map kv_key \<circ> b_arr) (ht_table ht ! ?i)" by (simp add: map_update)
    then show ?thesis using Some by (simp add: w shape_def Let_def map_update flip: map_map)
      (metis comp_apply list_update_beyond list_update_id map_update not_le_imp_less nth_map)
  qed (simp add: w)
qed

lemma unset_live:
  assumes "mem_inv s" "ht_count (s_ht s) < 2147483647" "mem_view s k = Some v"
  defines "s' \<equiv> snd (sdb_unset s k 0)"
  shows "mem_inv s'" "mem_view s' = (mem_view s)(k := None)" "shape (s_ht s') = shape (s_ht s)"
    "ht_count (s_ht s') = ht_count (s_ht s)" "ht_size (s_ht s') = ht_size (s_ht s)"
proof -
  have r: "mem_ready s k" using assms(1,2) mem_value_len [OF assms(1,3)] by (simp add: mem_ready_def)
  note t = set_ready [OF r, of "[]"]
  show "mem_inv s'" "mem_view s' = (mem_view s)(k := None)"
    using t(1,2) by (simp_all add: s'_def sdb_unset_def put_spec_def SDB_VSZ_def)
  obtain kv where f: "sdb_ht_find_kvp (s_ht s) k = Some kv" "kv_value kv = Some v" "v \<noteq> []"
    using assms(3) by (auto simp: mem_view_def split: option.splits if_splits)
  have tw: "table_wf (s_ht s)" "c_fd (s_db s) = None" using assms(1) by (auto simp: mem_inv_def)
  have st: "ht_struct (s_ht s)" using tw by (auto simp: table_wf_def sdb_ht_inv_def ht_inv_def)
  have kw: "kv_key kv = k" "kv_wf kv" using tw(1) f(1) by (auto simp: table_wf_def)
  let ?kv = "kv\<lparr>kv_cas := nextcas kv, kv_value := Some [], kv_value_len := 0\<rparr>"
  have h: "s_ht s' = sdb_ht_write (s_ht s) ?kv"
    using f r tw(2) unfolding s'_def sdb_unset_def sdb_set_def sdb_set_internal_def
    by (auto simp: Let_def set_existing_def findnext_closed cdb_findstart_def mem_ready_def SDB_VSZ_def split: prod.splits)
  show "shape (s_ht s') = shape (s_ht s)" "ht_size (s_ht s') = ht_size (s_ht s)"
    unfolding h by (rule write_shape [OF st])+
  have "kv_wf ?kv" using kw(2) by (simp add: kv_wf_def SDB_VSZ_def)
  then show "ht_count (s_ht s') = ht_count (s_ht s)" unfolding h using table_wf_write(2) [OF tw(1), of ?kv] f(1) kw(1) by simp
qed

text \<open>What the callback of \<^verbatim>\<open>sdb_unset_like\<close> does when the walk reaches a key.\<close>

definition unset_at :: "string \<Rightarrow> string \<Rightarrow> nat \<times> sdb \<Rightarrow> nat \<times> sdb" where
  "unset_at pat k st =
     (if mem_view (snd st) k \<noteq> None \<and> sdb_match k pat then (fst st + 1, snd (sdb_unset (snd st) k 0)) else st)"

definition walkable :: "sdb \<Rightarrow> bool" where
  "walkable s \<longleftrightarrow> mem_inv s \<and> ht_count (s_ht s) < 2147483647"

lemma unset_at_ok:
  assumes "walkable s"
  shows "walkable (snd (unset_at pat k (n, s)))" "shape (s_ht (snd (unset_at pat k (n, s)))) = shape (s_ht s)"
    "ht_count (s_ht (snd (unset_at pat k (n, s)))) = ht_count (s_ht s)"
    "ht_size (s_ht (snd (unset_at pat k (n, s)))) = ht_size (s_ht s)"
    "mem_view (snd (unset_at pat k (n, s))) = (if sdb_match k pat then (mem_view s)(k := None) else mem_view s)"
    "fst (unset_at pat k (n, s)) = (if mem_view s k \<noteq> None \<and> sdb_match k pat then n + 1 else n)"
  using assms unset_live [of s k] by (auto simp: unset_at_def walkable_def)

lemma bucket_at:
  assumes "shape (s_ht s) = sh" "i < length sh"
  shows "map kv_key (b_arr (ht_table (s_ht s) ! i)) = sh ! i" "i < length (ht_table (s_ht s))"
  using assms by (auto simp: shape_def)

lemma live_at:
  assumes "walkable s" "i < length (ht_table (s_ht s))" "j < length (b_arr (ht_table (s_ht s) ! i))"
  shows "mem_view s (kv_key (b_arr (ht_table (s_ht s) ! i) ! j)) =
    (let kv = b_arr (ht_table (s_ht s) ! i) ! j in if live kv then kv_value kv else None)"
proof -
  let ?kv = "b_arr (ht_table (s_ht s) ! i) ! j"
  have st: "ht_struct (s_ht s)" using assms(1) by (auto simp: walkable_def mem_inv_def table_wf_def sdb_ht_inv_def ht_inv_def)
  have "?kv \<in> set (ht_entries (s_ht s))" unfolding ht_entries_iff using assms(2,3) by auto
  then have "sdb_ht_find_kvp (s_ht s) (kv_key ?kv) = Some ?kv" by (simp add: sdb_ht_find_kvp_def find_kv_iff [OF st])
  then show ?thesis by (auto simp: mem_view_def live_def split: option.splits)
qed

lemma bucket_walk_unset:
  assumes "walkable s" "shape (s_ht s) = sh" "i < length sh" "fuel = length (sh ! i) - j"
  shows "bucket_walk fuel (unset_cb pat) i j (n, s) = (True, fold (unset_at pat) (drop j (sh ! i)) (n, s))"
  using assms
proof (induction fuel arbitrary: j n s)
  case 0
  then show ?case by simp
next
  case (Suc fuel)
  let ?arr = "b_arr (ht_table (s_ht s) ! i)" and ?k = "sh ! i ! j"
  note b = bucket_at [OF Suc.prems(2,3)]
  have j: "j < length (sh ! i)" "fuel = length (sh ! i) - Suc j" using Suc.prems(4) by auto
  then have ja: "j < length ?arr" "kv_key (?arr ! j) = ?k" using b(1) by (metis length_map, metis length_map nth_map)
  note lv = live_at [OF Suc.prems(1) b(2) ja(1)]
  note d = Cons_nth_drop_Suc [OF j(1), symmetric]
  obtain n' s1 where u: "unset_at pat ?k (n, s) = (n', s1)" by fastforce
  note o = unset_at_ok [OF Suc.prems(1), of pat ?k n, unfolded u snd_conv fst_conv]
  have step: "bucket_walk (Suc fuel) (unset_cb pat) i j (n, s) = bucket_walk fuel (unset_cb pat) i (j + 1) (n', s1)"
  proof (cases "live (?arr ! j)")
    case False
    then have "unset_at pat ?k (n, s) = (n, s)" using lv ja(2) by (simp add: unset_at_def)
    then show ?thesis using False u ja(1) by (auto simp: live_def)
  next
    case True
    then have "mem_view s ?k \<noteq> None" using lv ja(2) by (simp add: live_def)
    then have "unset_cb pat ?k v (n, s) = (True, n', s1)" for v using u by (auto simp: unset_cb_def unset_at_def split: if_splits)
    then show ?thesis using True ja o(3) by (auto simp: live_def Let_def)
  qed
  have "bucket_walk fuel (unset_cb pat) i (j + 1) (n', s1) = (True, fold (unset_at pat) (drop (j + 1) (sh ! i)) (n', s1))"
    by (rule Suc.IH) (use o Suc.prems j in auto)
  then show ?case unfolding step by (subst d) (simp add: u)
qed


lemma fold_unset_ok:
  assumes "walkable s"
  shows "walkable (snd (fold (unset_at pat) ks (n, s)))" "shape (s_ht (snd (fold (unset_at pat) ks (n, s)))) = shape (s_ht s)"
    "mem_view (snd (fold (unset_at pat) ks (n, s))) = (\<lambda>k. if k \<in> set ks \<and> sdb_match k pat then None else mem_view s k)"
    "distinct ks \<Longrightarrow> fst (fold (unset_at pat) ks (n, s)) = n + length (filter (\<lambda>k. mem_view s k \<noteq> None \<and> sdb_match k pat) ks)"
proof -
  have "walkable (snd (fold (unset_at pat) ks (n, s))) \<and> shape (s_ht (snd (fold (unset_at pat) ks (n, s)))) = shape (s_ht s)
    \<and> mem_view (snd (fold (unset_at pat) ks (n, s))) = (\<lambda>k. if k \<in> set ks \<and> sdb_match k pat then None else mem_view s k)
    \<and> (distinct ks \<longrightarrow> fst (fold (unset_at pat) ks (n, s)) = n + length (filter (\<lambda>k. mem_view s k \<noteq> None \<and> sdb_match k pat) ks))"
    using assms
  proof (induction ks arbitrary: n s)
    case (Cons k ks)
    obtain n1 s1 where u: "unset_at pat k (n, s) = (n1, s1)" by fastforce
    note o = unset_at_ok [OF Cons.prems, of pat k n, unfolded u snd_conv fst_conv]
    have "filter (\<lambda>j. mem_view s1 j \<noteq> None \<and> sdb_match j pat) ks = filter (\<lambda>j. mem_view s j \<noteq> None \<and> sdb_match j pat) ks"
      if "k \<notin> set ks" using that o(5) by (intro filter_cong) auto
    then show ?case using Cons.IH [OF o(1), of n1] o u by (auto simp: fun_eq_iff)
  qed simp
  then show "walkable (snd (fold (unset_at pat) ks (n, s)))" "shape (s_ht (snd (fold (unset_at pat) ks (n, s)))) = shape (s_ht s)"
    "mem_view (snd (fold (unset_at pat) ks (n, s))) = (\<lambda>k. if k \<in> set ks \<and> sdb_match k pat then None else mem_view s k)"
    "distinct ks \<Longrightarrow> fst (fold (unset_at pat) ks (n, s)) = n + length (filter (\<lambda>k. mem_view s k \<noteq> None \<and> sdb_match k pat) ks)"
    by blast+
qed

lemma table_walk_unset:
  assumes "walkable s" "shape (s_ht s) = sh" "m = length sh - i"
  shows "table_walk m (unset_cb pat) i (n, s) = (True, fold (unset_at pat) (concat (drop i sh)) (n, s))"
  using assms
proof (induction m arbitrary: i n s)
  case 0
  then show ?case by simp
next
  case (Suc m)
  have i: "i < length sh" "m = length sh - Suc i" using Suc.prems(3) by auto
  let ?st = "fold (unset_at pat) (sh ! i) (n, s)"
  have len: "length (b_arr (ht_table (s_ht s) ! i)) = length (sh ! i)"
    using bucket_at(1) [OF Suc.prems(2) i(1)] by (metis length_map)
  have "bucket_walk (length (sh ! i)) (unset_cb pat) i 0 (n, s) = (True, ?st)"
    using bucket_walk_unset [OF Suc.prems(1,2) i(1), where j = 0] by simp
  moreover have "table_walk m (unset_cb pat) (Suc i) (fst ?st, snd ?st)
      = (True, fold (unset_at pat) (concat (drop (Suc i) sh)) (fst ?st, snd ?st))"
    by (rule Suc.IH) (use fold_unset_ok [OF Suc.prems(1), where pat = pat and ks = "sh ! i" and n = n] Suc.prems(2) i(2) in simp_all)
  ultimately show ?case using Cons_nth_drop_Suc [OF i(1)] len by (simp add: concat.simps(2) flip: Cons_nth_drop_Suc [OF i(1)])
qed

lemma concat_shape: "concat (shape ht) = map kv_key (ht_entries ht)"
  by (simp add: shape_def ht_entries_def map_concat comp_def)

text \<open>
  C40.  \<^verbatim>\<open>sdb_unset_like\<close> on a database in memory, which unsets keys while it walks over them: afterwards
  exactly the keys that match the pattern have lost their values, and the result is the number of
  them.
\<close>

theorem sdb_unset_like_spec:
  assumes "mem_inv s" "ht_count (s_ht s) < 2147483647" "sdb_unset_like s pat = (n, s')"
  shows "mem_inv s' \<and> mem_view s' = (\<lambda>k. if sdb_match k pat then None else mem_view s k)
     \<and> n = card {k \<in> dom (mem_view s). sdb_match k pat}"
proof -
  let ?s = "s\<lparr>s_depth := s_depth s + 1, s_pos := 0\<rparr>" and ?ks = "map kv_key (ht_entries (s_ht s))"
  have st: "ht_struct (s_ht s)" using assms(1) by (auto simp: mem_inv_def table_wf_def sdb_ht_inv_def ht_inv_def)
  have w: "walkable ?s" using assms(1,2) by (simp add: walkable_def)
  have "sdb_foreach_cdb (unset_cb pat) None (0, s\<lparr>s_depth := s_depth s + 1\<rparr>) = (True, 0, ?s)"
    using foreach_cdb_mem [of "s\<lparr>s_depth := s_depth s + 1\<rparr>"] assms(1) by simp
  moreover have "table_walk (ht_size (s_ht s)) (unset_cb pat) 0 (0, ?s) = (True, fold (unset_at pat) ?ks (0, ?s))"
    using table_walk_unset [OF w refl, of "ht_size (s_ht s)" 0 pat 0] st concat_shape [of "s_ht s"]
    by (simp add: ht_struct_def shape_def)
  ultimately obtain s1 where s1: "fold (unset_at pat) ?ks (0, ?s) = (n, s1)" "s' = s1\<lparr>s_depth := s_depth s1 - 1\<rparr>"
    using assms(3) by (auto simp: sdb_unset_like_def sdb_foreach_def sdb_foreach_end_def split: prod.splits)
  note f = fold_unset_ok [OF w, where pat = pat and ks = ?ks and n = 0, unfolded s1(1) snd_conv fst_conv]
  have dk: "distinct ?ks" by (rule distinct_entries [OF st])
  have all: "k \<in> set ?ks" if "mem_view s k \<noteq> None" for k
    using that find_kv_None [OF st, of k] by (auto simp: mem_view_def sdb_ht_find_kvp_def split: option.splits)
  have v: "mem_view s' = (\<lambda>k. if sdb_match k pat then None else mem_view s k)"
  proof
    fix k
    have "mem_view s' k = (if k \<in> set ?ks \<and> sdb_match k pat then None else mem_view s k)" using f(3) by (simp add: s1(2))
    then show "mem_view s' k = (if sdb_match k pat then None else mem_view s k)" using all [of k] by (cases "mem_view s k") auto
  qed
  have "n = card (set (filter (\<lambda>k. mem_view s k \<noteq> None \<and> sdb_match k pat) ?ks))"
    using f(4) [OF dk] distinct_card [OF distinct_filter [OF dk]] by simp
  also have "set (filter (\<lambda>k. mem_view s k \<noteq> None \<and> sdb_match k pat) ?ks) = {k \<in> dom (mem_view s). sdb_match k pat}"
    using all by auto
  finally show ?thesis using v f(1) by (simp add: s1(2) walkable_def)
qed

theorem sdb_unset_like_spec_witness:
  "\<exists>n s'. sdb_unset_like (single ''key'' ''v'') ''k*'' = (n, s') \<and> n = 1 \<and> mem_view s' = Map.empty"
proof -
  obtain n s' where u: "sdb_unset_like (single ''key'' ''v'') ''k*'' = (n, s')" by fastforce
  have l: "length ''key'' < SDB_KSZ" "length ''v'' < SDB_VSZ" by (simp_all add: SDB_KSZ_def SDB_VSZ_def)
  note o = single_ok [OF l]
  have m: "sdb_match ''key'' ''k*''" by code_simp
  have "mem_view s' = (\<lambda>k. if sdb_match k ''k*'' then None else [''key'' \<mapsto> ''v''] k)"
    "n = card {k \<in> dom [''key'' \<mapsto> ''v'']. sdb_match k ''k*''}"
    using sdb_unset_like_spec [OF _ _ u] o by auto
  moreover have "{k \<in> dom [''key'' \<mapsto> ''v'']. sdb_match k ''k*''} = {''key''}" using m by auto
  ultimately show ?thesis using u m by (auto simp: fun_eq_iff)
qed

text \<open>
  \<^verbatim>\<open>sdb_reset\<close> closes the descriptor of the file but keeps the mapping that the reader uses first: walking after
  a reset takes the pointers at the start of the file for records.
\<close>

lemma sdb_reset_keeps_map: "c_map (s_db (sdb_reset s)) = c_map (s_db s)"
  by (simp add: sdb_reset_def sdb_close_def)

text \<open>\<^verbatim>\<open>sdb_count\<close> and \<^verbatim>\<open>sdb_isempty\<close> count a key that was unset in memory.\<close>

lemma unset_is_counted:
  assumes "mem_inv s" "ht_count (s_ht s) < 2147483647" "mem_view s k = Some v"
  shows "fst (sdb_count (snd (sdb_unset s k 0))) = fst (sdb_count s)"
  using unset_live(1,4) [OF assms] assms(1) by (auto simp: sdb_count_def mem_inv_def)

text \<open>An expression that ends in \<^verbatim>\<open>$\<close> does not match the string that is equal to the rest of it.\<close>

lemma match_expr_end_strict: "\<not> match_expr ''abc'' ''abc$''" "match_expr ''xabc'' ''abc$''"
  by code_simp+

end
