(* ===== verification/Ns.thy ===== *)
theory Ns
  imports Iter
begin

text \<open>
  Namespaces: \<^verbatim>\<open>src/ns.c\<close>, with \<^verbatim>\<open>sdb_free\<close> and the part of \<^verbatim>\<open>sdb_fini\<close> of \<^verbatim>\<open>src/sdb.c\<close> that concerns them.

  \<^item> Databases refer to each other by pointers and count their references.  A \<open>forest\<close> is the heap of
    all databases: a pointer is an index and a released database is \<open>None\<close>.
  \<^item> A list of namespaces is a list of \<open>SdbNs\<close>; \<open>None\<close> is the list pointer \<^verbatim>\<open>NULL\<close>.
  \<^item> \<open>n_options\<close> is the field that \<^verbatim>\<open>sdb_config\<close> assigns its argument to, which queries look at.
  \<^item> Operations that release or recurse return an error: \<open>Use_After_Free\<close> when a released database would be
    accessed, \<open>Dangling_Pointer\<close> when a pointer to released memory is left behind, \<open>Out_Of_Fuel\<close> when a
    recursion does not come to an end within the fuel (a cycle).
\<close>

section \<open>State\<close>

record SdbNs =
  ns_name :: string
  ns_hash :: ut32
  ns_sdb :: nat

record node =
  n_s :: sdb
  n_dir :: "string option"
  n_path :: "string option"
  n_name :: "string option"
  n_refs :: int
  n_lock :: int
  n_ns :: "SdbNs list option"
  n_options :: ut32

type_synonym forest = "node option list"

datatype ns_error = Use_After_Free | Out_Of_Fuel | Dangling_Pointer

definition deref_db :: "forest \<Rightarrow> nat \<Rightarrow> node option" where
  "deref_db f p = (if p < length f then f ! p else None)"

definition ns_list :: "node \<Rightarrow> SdbNs list" where
  "ns_list s = (case n_ns s of None \<Rightarrow> [] | Some l \<Rightarrow> l)"

text \<open>\<^verbatim>\<open>sdb_new0\<close>; \<open>now\<close> is the clock.\<close>

definition blank_node :: "ut64 \<Rightarrow> node" where
  "blank_node now =
     \<lparr>n_s = sdb_new0 now, n_dir = None, n_path = None, n_name = None, n_refs = 1, n_lock = 0, n_ns = Some [],
      n_options = 0\<rparr>"

section \<open>Operations\<close>

fun sdb_ns_lock :: "nat \<Rightarrow> forest \<Rightarrow> nat \<Rightarrow> int \<Rightarrow> int \<Rightarrow> ns_error + forest"
and ns_lock_all :: "nat \<Rightarrow> forest \<Rightarrow> SdbNs list \<Rightarrow> int \<Rightarrow> int \<Rightarrow> ns_error + forest" where
  "sdb_ns_lock 0 f p lock depth = Inl Out_Of_Fuel"
| "sdb_ns_lock (Suc n) f p lock depth =
     (case deref_db f p of
        None \<Rightarrow> Inl Use_After_Free
      | Some s \<Rightarrow>
          let f = f[p := Some (s\<lparr>n_lock := lock\<rparr>)] in
          if depth \<noteq> 0 then ns_lock_all n f (ns_list s) lock (depth - 1) else Inr f)"
| "ns_lock_all n f [] lock depth = Inr f"
| "ns_lock_all n f (e # es) lock depth =
     (case sdb_ns_lock n f (ns_sdb e) lock depth of
        Inl x \<Rightarrow> Inl x
      | Inr f \<Rightarrow> ns_lock_all n f es lock depth)"

text \<open>
  \<^verbatim>\<open>ns_free\<close>, \<^verbatim>\<open>sdb_ns_free\<close> and \<^verbatim>\<open>sdb_free\<close>, which call each other: each is given the two recursive calls \<open>fr\<close>
  (\<^verbatim>\<open>sdb_free\<close>) and \<open>nf\<close> (\<^verbatim>\<open>ns_free\<close>).  \<open>seen\<close> are the databases on the list of \<^verbatim>\<open>ns_free\<close>.
\<close>

type_synonym free_fn = "forest \<Rightarrow> nat \<Rightarrow> ns_error + bool \<times> forest"

type_synonym ns_free_fn = "forest \<Rightarrow> nat \<Rightarrow> nat list \<Rightarrow> ns_error + nat list \<times> forest"

fun ns_free_all :: "free_fn \<Rightarrow> ns_free_fn \<Rightarrow> forest \<Rightarrow> nat \<Rightarrow> SdbNs list \<Rightarrow> nat list \<Rightarrow> ns_error + nat list \<times> forest" where
  "ns_free_all fr nf f p [] seen = Inr (seen, f)"
| "ns_free_all fr nf f p (e # es) seen =
     (case deref_db f p of
        None \<Rightarrow> Inl Use_After_Free
      | Some s \<Rightarrow>
          let f = f[p := Some (s\<lparr>n_ns := map_option (remove1 e) (n_ns s)\<rparr>)];
              c = ns_sdb e
          in if c \<in> set seen then ns_free_all fr nf f p es seen
             else case nf f c (seen @ [c]) of
               Inl x \<Rightarrow> Inl x
             | Inr (seen, f) \<Rightarrow>
                 (case deref_db f c of
                    None \<Rightarrow> Inl Use_After_Free
                  | Some child \<Rightarrow>
                      (case fr (f[c := Some (child\<lparr>n_refs := (if n_refs child > 1 then 1 else n_refs child)\<rparr>)]) c of
                         Inl x \<Rightarrow> Inl x
                       | Inr (_, f) \<Rightarrow> ns_free_all fr nf f p es seen)))"

definition ns_free_step :: "free_fn \<Rightarrow> ns_free_fn \<Rightarrow> ns_free_fn" where
  "ns_free_step fr nf f p seen =
     (if p \<in> set seen then Inr (seen, f)
      else case deref_db f p of
        None \<Rightarrow> Inl Use_After_Free
      | Some s \<Rightarrow>
          (case ns_free_all fr nf f p (ns_list s) (seen @ [p]) of
             Inl x \<Rightarrow> Inl x
           | Inr (seen, f) \<Rightarrow>
               (case deref_db f p of
                  None \<Rightarrow> Inl Use_After_Free
                | Some s \<Rightarrow> Inr (seen, f[p := Some (s\<lparr>n_ns := None\<rparr>)]))))"

definition ns_free_list :: "ns_free_fn \<Rightarrow> forest \<Rightarrow> nat \<Rightarrow> ns_error + forest" where
  "ns_free_list nf f p =
     (case nf f p [] of
        Inl x \<Rightarrow> Inl x
      | Inr (seen, f) \<Rightarrow>
          (case deref_db f p of
             None \<Rightarrow> Inl Use_After_Free
           | Some s \<Rightarrow> Inr (f[p := Some (s\<lparr>n_ns := None\<rparr>)])))"

definition sdb_free_step :: "ns_free_fn \<Rightarrow> free_fn" where
  "sdb_free_step nf f p =
     (case deref_db f p of
        None \<Rightarrow> Inl Use_After_Free
      | Some s \<Rightarrow>
          if n_refs s = 0 then Inr (False, f)
          else if n_refs s - 1 < 1 then
            (case ns_free_list nf (f[p := Some (s\<lparr>n_refs := 0\<rparr>)]) p of
               Inl x \<Rightarrow> Inl x
             | Inr f \<Rightarrow> if deref_db f p = None then Inl Use_After_Free else Inr (True, f[p := None]))
          else Inr (False, f[p := Some (s\<lparr>n_refs := n_refs s - 1\<rparr>)]))"

primrec free_fns :: "nat \<Rightarrow> free_fn \<times> ns_free_fn" where
  "free_fns 0 = (\<lambda>f p. Inl Out_Of_Fuel, \<lambda>f p seen. Inl Out_Of_Fuel)"
| "free_fns (Suc n) =
     (case free_fns n of (fr, nf) \<Rightarrow> (\<lambda>f p. sdb_free_step nf f p, \<lambda>f p seen. ns_free_step fr nf f p seen))"

definition sdb_free :: "nat \<Rightarrow> forest \<Rightarrow> nat \<Rightarrow> ns_error + bool \<times> forest" where
  "sdb_free n = fst (free_fns n)"

definition sdb_ns_free :: "nat \<Rightarrow> forest \<Rightarrow> nat \<Rightarrow> ns_error + forest" where
  "sdb_ns_free n = ns_free_list (snd (free_fns n))"

fun sdb_ns_reset :: "nat \<Rightarrow> forest \<Rightarrow> nat \<Rightarrow> ns_error + forest"
and ns_reset_all :: "nat \<Rightarrow> forest \<Rightarrow> SdbNs list \<Rightarrow> ns_error + forest" where
  "sdb_ns_reset 0 f p = Inl Out_Of_Fuel"
| "sdb_ns_reset (Suc n) f p =
     (case deref_db f p of
        None \<Rightarrow> Inl Use_After_Free
      | Some s \<Rightarrow>
          (case n_ns s of
             None \<Rightarrow> Inr f
           | Some es \<Rightarrow>
               (case ns_reset_all n f es of
                  Inl x \<Rightarrow> Inl x
                | Inr f \<Rightarrow>
                    (case deref_db f p of
                       None \<Rightarrow> Inl Use_After_Free
                     | Some s \<Rightarrow> Inr (f[p := Some (s\<lparr>n_ns := None\<rparr>)])))))"
| "ns_reset_all n f [] = Inr f"
| "ns_reset_all n f (e # es) =
     (case deref_db f (ns_sdb e) of
        None \<Rightarrow> Inl Use_After_Free
      | Some c \<Rightarrow>
          if n_refs c > 1 then ns_reset_all n (f[ns_sdb e := Some (c\<lparr>n_refs := n_refs c - 1\<rparr>)]) es
          else if n_refs c = 1 then
            (case sdb_ns_reset n f (ns_sdb e) of
               Inl x \<Rightarrow> Inl x
             | Inr f \<Rightarrow>
                 (case sdb_free n f (ns_sdb e) of
                    Inl x \<Rightarrow> Inl x
                  | Inr (_, f) \<Rightarrow> ns_reset_all n f es))
          else ns_reset_all n f es)"

definition sdb_ns_new :: "node \<Rightarrow> string \<Rightarrow> ut32 \<Rightarrow> nat \<Rightarrow> (SdbNs \<times> node) option" where
  "sdb_ns_new s name hash p =
     (let dir = (case n_dir s of None \<Rightarrow> [] | Some d \<Rightarrow> if d \<noteq> [] \<and> name \<noteq> [] then d @ ''.'' @ name else []) in
      if dir \<noteq> [] \<and> length (the (n_dir s)) + length name + 3 > SDB_MAX_PATH then None
      else Some (\<lparr>ns_name = name, ns_hash = hash, ns_sdb = p\<rparr>,
             (blank_node (s_now (n_s s)))
               \<lparr>n_path := (if dir \<noteq> [] then Some dir else None), n_name := (if name \<noteq> [] then Some name else None)\<rparr>))"

definition sdb_ns :: "forest \<Rightarrow> nat \<Rightarrow> string \<Rightarrow> bool \<Rightarrow> nat option \<times> forest" where
  "sdb_ns f p name create =
     (case deref_db f p of
        None \<Rightarrow> (None, f)
      | Some s \<Rightarrow>
          if name = [] then (None, f)
          else
            let hash = sdb_hash name in
            case List.find (\<lambda>e. ns_hash e = hash) (ns_list s) of
              Some e \<Rightarrow> (Some (ns_sdb e), f)
            | None \<Rightarrow>
                if \<not> create then (None, f)
                else if n_lock s \<noteq> 0 then (None, f)
                else case sdb_ns_new s name hash (length f) of
                  None \<Rightarrow> (None, f)
                | Some (e, c) \<Rightarrow>
                    (Some (length f), f[p := Some (s\<lparr>n_ns := map_option (\<lambda>l. l @ [e]) (n_ns s)\<rparr>)] @ [Some c]))"

fun update_first :: "('a \<Rightarrow> bool) \<Rightarrow> ('a \<Rightarrow> 'a) \<Rightarrow> 'a list \<Rightarrow> 'a list" where
  "update_first P g [] = []"
| "update_first P g (x # xs) = (if P x then g x # xs else x # update_first P g xs)"

definition sdb_ns_set :: "nat \<Rightarrow> forest \<Rightarrow> nat \<Rightarrow> string \<Rightarrow> nat \<Rightarrow> ns_error + bool \<times> forest" where
  "sdb_ns_set n f p name r =
     (let hash = sdb_hash name in
      case deref_db f p of
        None \<Rightarrow> Inl Use_After_Free
      | Some s \<Rightarrow>
          (case List.find (\<lambda>e. ns_hash e = hash) (ns_list s) of
             Some e \<Rightarrow>
               if ns_sdb e = r then Inr (False, f)
               else (case sdb_free n f (ns_sdb e) of
                 Inl x \<Rightarrow> Inl x
               | Inr (_, f) \<Rightarrow>
                   (case (deref_db f p, deref_db f r) of
                      (Some s, Some c) \<Rightarrow>
                        let f = f[r := Some (c\<lparr>n_refs := n_refs c + 1\<rparr>)] in
                        (case deref_db f p of
                           None \<Rightarrow> Inl Use_After_Free
                         | Some s \<Rightarrow>
                             Inr (True, f[p := Some (s\<lparr>n_ns := map_option
                               (update_first (\<lambda>e. ns_hash e = hash) (\<lambda>e. e\<lparr>ns_sdb := r\<rparr>)) (n_ns s)\<rparr>)]))
                    | _ \<Rightarrow> Inl Use_After_Free))
           | None \<Rightarrow>
               if n_lock s \<noteq> 0 then Inr (False, f)
               else (case deref_db f r of
                 None \<Rightarrow> Inl Use_After_Free
               | Some c \<Rightarrow>
                   let f = f[r := Some (c\<lparr>n_refs := n_refs c + 1\<rparr>)] in
                   (case deref_db f p of
                      None \<Rightarrow> Inl Use_After_Free
                    | Some s \<Rightarrow>
                        Inr (True, f[p := Some (s\<lparr>n_ns := map_option
                          (\<lambda>l. l @ [\<lparr>ns_name = name, ns_hash = hash, ns_sdb = r\<rparr>]) (n_ns s)\<rparr>)])))))"

fun delete_first :: "('a \<Rightarrow> bool) \<Rightarrow> 'a list \<Rightarrow> 'a list" where
  "delete_first P [] = []"
| "delete_first P (x # xs) = (if P x then xs else x # delete_first P xs)"

definition sdb_ns_unset :: "nat \<Rightarrow> forest \<Rightarrow> nat \<Rightarrow> string option \<Rightarrow> nat option \<Rightarrow> ns_error + bool \<times> forest" where
  "sdb_ns_unset n f p name r =
     (case deref_db f p of
        None \<Rightarrow> Inl Use_After_Free
      | Some s \<Rightarrow>
          let P = (\<lambda>e. name = Some (ns_name e) \<or> r = Some (ns_sdb e)) in
          (case List.find P (ns_list s) of
             None \<Rightarrow> Inr (False, f)
           | Some e \<Rightarrow>
               let f = f[p := Some (s\<lparr>n_ns := map_option (delete_first P) (n_ns s)\<rparr>)] in
               (case deref_db f (ns_sdb e) of
                  None \<Rightarrow> Inl Use_After_Free
                | Some c \<Rightarrow>
                    (case (if n_refs c = 1 then sdb_ns_reset n f (ns_sdb e) else Inr f) of
                       Inl x \<Rightarrow> Inl x
                     | Inr f \<Rightarrow>
                         (case sdb_free n f (ns_sdb e) of
                            Inl x \<Rightarrow> Inl x
                          | Inr (_, f) \<Rightarrow> Inr (True, f))))))"

text \<open>\<^verbatim>\<open>sdb_ns_path\<close>: the names between slashes.\<close>

fun ns_walk :: "forest \<Rightarrow> nat \<Rightarrow> string list \<Rightarrow> bool \<Rightarrow> nat option \<times> forest" where
  "ns_walk f p [] create = (Some p, f)"
| "ns_walk f p (x # xs) create =
     (case sdb_ns f p x create of
        (None, f) \<Rightarrow> (None, f)
      | (Some q, f) \<Rightarrow> ns_walk f q xs create)"

definition sdb_ns_path :: "forest \<Rightarrow> nat \<Rightarrow> string \<Rightarrow> bool \<Rightarrow> nat option \<times> forest" where
  "sdb_ns_path f p path create =
     (if path = [] then (Some p, f) else ns_walk f p (splitc (CHR ''/'') path) create)"

section \<open>Well-formed forests\<close>

text \<open>The references to a database from the lists of all others.\<close>

definition links_of :: "nat \<Rightarrow> node option \<Rightarrow> nat" where
  "links_of p x = (case x of None \<Rightarrow> 0 | Some s \<Rightarrow> length (filter (\<lambda>e. ns_sdb e = p) (ns_list s)))"

definition links :: "forest \<Rightarrow> nat \<Rightarrow> nat" where
  "links f p = sum_list (map (links_of p) f)"

text \<open>
  Every reference is to a database that is not released, which counts at least the references to it; names are
  not empty and their hashes, by which they are found, are correct and distinct.
\<close>

definition ns_entries_ok :: "SdbNs list \<Rightarrow> bool" where
  "ns_entries_ok es \<longleftrightarrow> distinct (map ns_hash es) \<and> (\<forall>e \<in> set es. ns_name e \<noteq> [] \<and> ns_hash e = sdb_hash (ns_name e))"

definition forest_wf :: "forest \<Rightarrow> bool" where
  "forest_wf f \<longleftrightarrow>
     (\<forall>p s. deref_db f p = Some s \<longrightarrow>
        ns_entries_ok (ns_list s) \<and> (\<forall>e \<in> set (ns_list s). deref_db f (ns_sdb e) \<noteq> None)
        \<and> 0 < n_refs s \<and> int (links f p) \<le> n_refs s)"

lemma deref_upd [simp]: "deref_db (f[p := x]) q = (if q = p \<and> p < length f then x else deref_db f q)"
  by (auto simp: deref_db_def)

lemma deref_append [simp]: "deref_db (f @ [x]) q = (if q = length f then x else deref_db f q)"
  by (auto simp: deref_db_def nth_append)

lemma deref_Some: "deref_db f p = Some s \<Longrightarrow> p < length f \<and> f ! p = Some s"
  by (auto simp: deref_db_def split: if_splits)

lemma deref_fresh [simp]: "deref_db f (length f) = None"
  by (simp add: deref_db_def)

lemma links_upd:
  assumes "p < length f"
  shows "links (f[p := x]) q + links_of q (f ! p) = links f q + links_of q x"
proof -
  have "links_of q (f ! p) \<le> links f q"
    unfolding links_def using assms by (intro member_le_sum_list) auto
  then show ?thesis using assms by (simp add: links_def map_update sum_list_update)
qed

lemma links_append: "links (f @ [x]) q = links f q + links_of q x"
  by (simp add: links_def)

lemma links_of_new [simp]: "links_of q (Some (blank_node now)) = 0"
  by (simp add: links_of_def blank_node_def ns_list_def)

lemma links_dead:
  assumes "forest_wf f" "deref_db f q = None"
  shows "links f q = 0"
proof -
  have "links_of q x = 0" if x: "x \<in> set f" for x
  proof (cases x)
    case (Some s)
    obtain p where "p < length f" "f ! p = x" using x by (auto simp: in_set_conv_nth)
    then have "deref_db f p = Some s" using Some by (simp add: deref_db_def)
    then have "\<forall>e \<in> set (ns_list s). ns_sdb e \<noteq> q" using assms unfolding forest_wf_def by blast
    then show ?thesis using Some by (auto simp: links_of_def)
  qed (simp add: links_of_def)
  then show ?thesis by (simp add: links_def)
qed

text \<open>Changes of a database that leave its list and its counter alone.\<close>

lemma forest_wf_upd:
  assumes "forest_wf f" "deref_db f p = Some s" "n_ns s' = n_ns s" "n_refs s' = n_refs s"
  shows "forest_wf (f[p := Some s'])"
proof -
  have p: "p < length f" "f ! p = Some s" using deref_Some [OF assms(2)] by auto
  have l: "links (f[p := Some s']) q = links f q" for q
    using links_upd [OF p(1), of "Some s'" q] assms(3) p(2) by (simp add: links_of_def ns_list_def)
  show ?thesis using assms p by (auto simp: forest_wf_def l ns_list_def)
qed

lemma ns_list_simps [simp]: "n_ns s = Some l \<Longrightarrow> ns_list s = l" "ns_list (s\<lparr>n_refs := r\<rparr>) = ns_list s"
  by (auto simp: ns_list_def)

text \<open>What \<^verbatim>\<open>sdb_ns\<close> does: it finds, refuses, or makes an empty database.\<close>

lemma sdb_ns_cases:
  assumes "sdb_ns f p name create = (r, f')" "deref_db f p = Some s" "name \<noteq> []"
  obtains e where "e \<in> set (ns_list s)" "ns_hash e = sdb_hash name" "List.find (\<lambda>e. ns_hash e = sdb_hash name) (ns_list s) = Some e"
      "r = Some (ns_sdb e)" "f' = f"
  | "List.find (\<lambda>e. ns_hash e = sdb_hash name) (ns_list s) = None" "r = None" "f' = f"
  | path where "List.find (\<lambda>e. ns_hash e = sdb_hash name) (ns_list s) = None" "create" "n_lock s = 0" "r = Some (length f)"
      "f' = f[p := Some (s\<lparr>n_ns := map_option (\<lambda>l. l @ [\<lparr>ns_name = name, ns_hash = sdb_hash name, ns_sdb = length f\<rparr>]) (n_ns s)\<rparr>)]
         @ [Some ((blank_node (s_now (n_s s)))\<lparr>n_path := path, n_name := Some name\<rparr>)]"
proof (cases "List.find (\<lambda>e. ns_hash e = sdb_hash name) (ns_list s)")
  case (Some e)
  then have "e \<in> set (ns_list s)" "ns_hash e = sdb_hash name" by (auto simp: find_Some_iff)
  then show ?thesis using that(1) [of e] Some assms by (simp add: sdb_ns_def Let_def)
next
  case None
  show ?thesis
  proof (cases "create \<and> n_lock s = 0 \<and> sdb_ns_new s name (sdb_hash name) (length f) \<noteq> None")
    case True
    then obtain e c where n: "sdb_ns_new s name (sdb_hash name) (length f) = Some (e, c)" by auto
    then obtain path where "e = \<lparr>ns_name = name, ns_hash = sdb_hash name, ns_sdb = length f\<rparr>"
      "c = (blank_node (s_now (n_s s)))\<lparr>n_path := path, n_name := Some name\<rparr>"
      using assms(3) by (auto simp: sdb_ns_new_def Let_def split: if_splits)
    then show ?thesis using that(3) [of path] None assms True n by (simp add: sdb_ns_def Let_def)
  next
    case False
    then show ?thesis using that(2) None assms by (auto simp: sdb_ns_def Let_def split: if_splits option.splits)
  qed
qed

text \<open>Growth of a forest: databases keep their contents, counters and locks, and their lists only get longer.\<close>

definition extends :: "forest \<Rightarrow> forest \<Rightarrow> bool" where
  "extends f f' \<longleftrightarrow> length f \<le> length f' \<and>
     (\<forall>p s. deref_db f p = Some s \<longrightarrow>
        (\<exists>s' es. deref_db f' p = Some s' \<and> n_s s' = n_s s \<and> n_refs s' = n_refs s \<and> n_lock s' = n_lock s
           \<and> n_ns s' = map_option (\<lambda>l. l @ es) (n_ns s)))"

definition ns_open :: "forest \<Rightarrow> bool" where
  "ns_open f \<longleftrightarrow> (\<forall>p s. deref_db f p = Some s \<longrightarrow> n_ns s \<noteq> None)"

lemma extends_refl [simp]: "extends f f"
  by (force simp: extends_def option.map_ident intro: exI [of _ "[]"])

lemma extends_trans:
  assumes "extends f g" "extends g h"
  shows "extends f h"
  unfolding extends_def
proof (intro conjI allI impI)
  fix p s
  assume "deref_db f p = Some s"
  then obtain s' es where 1: "deref_db g p = Some s'" "n_s s' = n_s s" "n_refs s' = n_refs s" "n_lock s' = n_lock s" "n_ns s' = map_option (\<lambda>l. l @ es) (n_ns s)"
    using assms(1) unfolding extends_def by blast
  obtain s'' es' where 2: "deref_db h p = Some s''" "n_s s'' = n_s s'" "n_refs s'' = n_refs s'" "n_lock s'' = n_lock s'" "n_ns s'' = map_option (\<lambda>l. l @ es') (n_ns s')"
    using assms(2) 1(1) unfolding extends_def by blast
  have "n_ns s'' = map_option (\<lambda>l. l @ (es @ es')) (n_ns s)" using 1(5) 2(5) by (cases "n_ns s") auto
  then show "\<exists>s' es. deref_db h p = Some s' \<and> n_s s' = n_s s \<and> n_refs s' = n_refs s \<and> n_lock s' = n_lock s \<and> n_ns s' = map_option (\<lambda>l. l @ es) (n_ns s)"
    using 1 2 by (intro exI [of _ s''] exI [of _ "es @ es'"]) simp
qed (use assms in \<open>auto simp: extends_def\<close>)

text \<open>A namespace that was found is found again after any growth.\<close>

lemma extends_find:
  assumes "extends f f'" "deref_db f p = Some s" "name \<noteq> []" "List.find (\<lambda>e. ns_hash e = sdb_hash name) (ns_list s) = Some e"
  shows "sdb_ns f' p name c = (Some (ns_sdb e), f')"
proof -
  obtain s' es where s': "deref_db f' p = Some s'" "n_ns s' = map_option (\<lambda>l. l @ es) (n_ns s)"
    using assms(1,2) unfolding extends_def by blast
  have app: "List.find P xs = Some y \<Longrightarrow> List.find P (xs @ ys) = Some y" for P and xs ys :: "SdbNs list" and y
    by (induction xs) (auto split: if_splits)
  have "List.find (\<lambda>e. ns_hash e = sdb_hash name) (ns_list s') = Some e"
    using s'(2) assms(4) app by (cases "n_ns s") (auto simp: ns_list_def)
  then show ?thesis using s'(1) assms(3) by (simp add: sdb_ns_def Let_def)
qed

lemma find_new: "\<forall>x \<in> set xs. \<not> P x \<Longrightarrow> P y \<Longrightarrow> List.find P (xs @ [y]) = Some y"
  by (induction xs) auto

lemma sdb_ns_spec:
  assumes "forest_wf f" "deref_db f p = Some s" "name \<noteq> []" "sdb_ns f p name create = (r, f')"
  shows "forest_wf f'" "extends f f'" "ns_open f \<Longrightarrow> ns_open f'"
    "ns_open f \<Longrightarrow> r = Some q \<Longrightarrow> sdb_ns f' p name c = (Some q, f')"
    "r = Some q \<Longrightarrow> deref_db f' q \<noteq> None"
    "r = Some q \<Longrightarrow> length f \<le> q \<Longrightarrow> \<exists>s now. deref_db f' q = Some s \<and> n_s s = sdb_new0 now"
proof -
  have all: "forest_wf f' \<and> extends f f' \<and> (ns_open f \<longrightarrow> ns_open f') \<and> (ns_open f \<longrightarrow> r = Some q \<longrightarrow> sdb_ns f' p name c = (Some q, f'))
     \<and> (r = Some q \<longrightarrow> deref_db f' q \<noteq> None)
     \<and> (r = Some q \<longrightarrow> length f \<le> q \<longrightarrow> (\<exists>s now. deref_db f' q = Some s \<and> n_s s = sdb_new0 now))"
    using assms(4,2,3)
  proof (cases rule: sdb_ns_cases)
    case (1 e)
    have "deref_db f (ns_sdb e) \<noteq> None" using assms(1,2) 1(1) by (simp add: forest_wf_def)
    then show ?thesis using 1 assms(1) extends_find [OF extends_refl assms(2,3) 1(3)] by (auto dest: deref_Some)
  next
    case 2
    then show ?thesis using assms(1) by simp
  next
    case (3 path)
    let ?e = "\<lparr>ns_name = name, ns_hash = sdb_hash name, ns_sdb = length f\<rparr>"
    define s1 where "s1 = s\<lparr>n_ns := map_option (\<lambda>l. l @ [?e]) (n_ns s)\<rparr>"
    define c1 where "c1 = (blank_node (s_now (n_s s)))\<lparr>n_path := path, n_name := Some name\<rparr>"
    have p: "p < length f" "f ! p = Some s" using deref_Some [OF assms(2)] by auto
    have nn: "ns_list c1 = []" "n_refs c1 = 1" "n_s c1 = sdb_new0 (s_now (n_s s))" "n_ns c1 = Some []"
      by (simp_all add: c1_def blank_node_def)
    have ls: "ns_list s1 = ns_list s \<or> ns_list s1 = ns_list s @ [?e]" by (cases "n_ns s") (auto simp: s1_def ns_list_def)
    have sf: "n_s s1 = n_s s" "n_refs s1 = n_refs s" "n_lock s1 = n_lock s" "n_ns s1 = map_option (\<lambda>l. l @ [?e]) (n_ns s)" by (simp_all add: s1_def)
    note f' = 3(5) [folded s1_def c1_def]
    have d: "deref_db f' q = (if q = length f then Some c1 else if q = p then Some s1 else deref_db f q)" for q
      unfolding f' using p(1) by simp
    have lk: "links f' q \<le> links f q + (if q = length f then 1 else 0)" for q
      using links_upd [OF p(1), of "Some s1" q] p(2) ls unfolding f' links_append
      by (auto simp: links_of_def nn(1))
    have new: "\<forall>e \<in> set (ns_list s). ns_hash e \<noteq> sdb_hash name" using 3(1) by (auto simp: find_None_iff)
    have wf: "ns_entries_ok (ns_list s)" "\<forall>e \<in> set (ns_list s). deref_db f (ns_sdb e) \<noteq> None"
      using assms(1,2) by (auto simp: forest_wf_def)
    have "ns_entries_ok (ns_list s1)" using ls wf(1) new assms(3) unfolding ns_entries_ok_def by fastforce
    moreover have "\<forall>e \<in> set (ns_list s1). deref_db f' (ns_sdb e) \<noteq> None" using ls wf(2) d by (auto dest: deref_Some)
    moreover have "int (links f' q) \<le> n_refs t" if "deref_db f q = Some t" for q t
      using lk [of q] assms(1) that deref_Some [OF that] unfolding forest_wf_def by fastforce
    moreover have "links f' (length f) \<le> 1" using lk [of "length f"] links_dead [OF assms(1), of "length f"] by simp
    ultimately have "forest_wf f'" unfolding forest_wf_def d using assms(1,2) nn sf(2)
      by (auto simp: forest_wf_def ns_entries_ok_def split: if_splits)
    moreover have ex: "extends f f'"
      unfolding extends_def d
    proof (intro conjI allI impI)
      fix q t
      assume t: "deref_db f q = Some t"
      show "\<exists>s' es. (if q = length f then Some c1 else if q = p then Some s1 else deref_db f q) = Some s' \<and> n_s s' = n_s t \<and> n_refs s' = n_refs t \<and> n_lock s' = n_lock t
           \<and> n_ns s' = map_option (\<lambda>l. l @ es) (n_ns t)"
      proof (cases "q = p")
        case True
        then show ?thesis using t assms(2) deref_Some [OF t] by (intro exI [of _ s1] exI [of _ "[?e]"]) (auto simp: sf)
      next
        case False
        then show ?thesis using t deref_Some [OF t] by (intro exI [of _ t] exI [of _ "[]"]) (auto simp: option.map_ident)
      qed
    qed (simp add: f')
    moreover have op: "ns_open f \<longrightarrow> ns_open f'" unfolding ns_open_def d using assms(2) nn(4) sf(4) by auto
    moreover have "ns_open f \<longrightarrow> r = Some q \<longrightarrow> sdb_ns f' p name c = (Some q, f')"
    proof (intro impI)
      assume o: "ns_open f" and "r = Some q"
      then obtain l where l: "n_ns s = Some l" using assms(2) by (auto simp: ns_open_def)
      have "List.find (\<lambda>e. ns_hash e = sdb_hash name) (l @ [?e]) = Some ?e"
        using new l find_new [of l "\<lambda>e. ns_hash e = sdb_hash name" ?e] by simp
      then show "sdb_ns f' p name c = (Some q, f')" using extends_find [OF extends_refl, of f' p s1 name ?e c] d [of p] l sf(4) assms(3) p(1) \<open>r = Some q\<close> 3(4)
        by auto
    qed
    ultimately show ?thesis using 3(4) d nn by auto
  qed
  show "forest_wf f'" using all by blast
  show "extends f f'" using all by blast
  show "ns_open f \<Longrightarrow> ns_open f'" using all by blast
  show "ns_open f \<Longrightarrow> r = Some q \<Longrightarrow> sdb_ns f' p name c = (Some q, f')" using all by blast
  show "r = Some q \<Longrightarrow> deref_db f' q \<noteq> None" using all by blast
  show "r = Some q \<Longrightarrow> length f \<le> q \<Longrightarrow> \<exists>s now. deref_db f' q = Some s \<and> n_s s = sdb_new0 now" using all by blast
qed

lemma sdb_ns_none:
  assumes "deref_db f p = None \<or> name = []"
  shows "sdb_ns f p name create = (None, f)"
  using assms by (auto simp: sdb_ns_def split: option.splits)

lemma ns_walk_wf:
  assumes "forest_wf f" "ns_walk f p xs create = (r, f')"
  shows "forest_wf f' \<and> extends f f'"
  using assms
proof (induction xs arbitrary: f p)
  case (Cons x xs)
  obtain q f1 where n: "sdb_ns f p x create = (q, f1)" by fastforce
  have w: "forest_wf f1" "extends f f1"
  proof -
    show "forest_wf f1" "extends f f1" using sdb_ns_spec(1,2) [OF Cons.prems(1) _ _ n] sdb_ns_none [of f p x create] n Cons.prems(1)
      by (cases "deref_db f p = None \<or> x = []"; fastforce)+
  qed
  show ?case
  proof (cases q)
    case None
    then show ?thesis using Cons.prems(2) n w by simp
  next
    case (Some q')
    then have "ns_walk f1 q' xs create = (r, f')" using Cons.prems(2) n by simp
    from Cons.IH [OF w(1) this] show ?thesis using w(2) extends_trans by blast
  qed
qed simp

lemma ns_walk_create:
  assumes "forest_wf f" "ns_open f" "deref_db f p \<noteq> None" "ns_walk f p xs True = (Some q, f')"
  shows "extends f f' \<and> ns_open f' \<and> ns_walk f' p xs c = (Some q, f') \<and> deref_db f' q \<noteq> None
     \<and> (length f \<le> q \<longrightarrow> (\<exists>s now. deref_db f' q = Some s \<and> n_s s = sdb_new0 now))"
  using assms
proof (induction xs arbitrary: f p)
  case Nil
  then show ?case by (auto dest: deref_Some)
next
  case (Cons x xs)
  obtain s where s: "deref_db f p = Some s" using Cons.prems(3) by auto
  obtain p1 f1 where n: "sdb_ns f p x True = (Some p1, f1)" and w: "ns_walk f1 p1 xs True = (Some q, f')"
    using Cons.prems(4) by (auto split: prod.splits option.splits)
  have x: "x \<noteq> []" using n sdb_ns_none by (metis option.distinct(1) prod.inject)
  note sp = sdb_ns_spec [OF Cons.prems(1) s x n]
  have o1: "ns_open f1" using sp(3) Cons.prems(2) by blast
  have d1: "deref_db f1 p1 \<noteq> None" by (rule sp(5) [OF refl])
  note IH = Cons.IH [OF sp(1) o1 d1 w]
  obtain s1 where s1: "deref_db f1 p = Some s1" using sp(2) s unfolding extends_def by blast
  have "sdb_ns f1 p x False = (Some p1, f1)" using sp(4) Cons.prems(2) by blast
  then obtain e where "List.find (\<lambda>e. ns_hash e = sdb_hash x) (ns_list s1) = Some e" "ns_sdb e = p1"
    using s1 x by (auto simp: sdb_ns_def Let_def split: option.splits)
  then have look: "sdb_ns f' p x c = (Some p1, f')" using extends_find [of f1 f' p s1 x e c] IH s1 x by blast
  have "\<exists>s now. deref_db f' q = Some s \<and> n_s s = sdb_new0 now" if q: "length f \<le> q"
  proof (cases "length f1 \<le> q")
    case True
    then show ?thesis using IH by blast
  next
    case False
    have "extends f1 f'" using IH by blast
    have "f1 = f \<or> length f1 = length f + 1 \<and> p1 = length f" using n s x by (cases rule: sdb_ns_cases) auto
    then have qq: "q = length f" "p1 = length f" using q False by auto
    obtain t now where "deref_db f1 q = Some t" "n_s t = sdb_new0 now" using sp(6) [OF refl] qq by auto
    moreover obtain s' where "deref_db f' q = Some s'" "n_s s' = n_s t"
      using \<open>extends f1 f'\<close> calculation(1) unfolding extends_def by blast
    ultimately show ?thesis by auto
  qed
  then show ?case using IH look extends_trans [OF sp(2)] by auto
qed

definition is_live :: "forest \<Rightarrow> nat \<Rightarrow> bool" where
  "is_live f p \<longleftrightarrow> deref_db f p \<noteq> None"

lemma sdb_ns_lock_wf:
  "forest_wf f \<Longrightarrow> is_live f p \<Longrightarrow>
     (case sdb_ns_lock n f p lock depth of Inl x \<Rightarrow> x = Out_Of_Fuel | Inr f' \<Rightarrow> forest_wf f' \<and> is_live f' = is_live f)"
  "forest_wf f \<Longrightarrow> \<forall>e \<in> set es. is_live f (ns_sdb e) \<Longrightarrow>
     (case ns_lock_all n f es lock depth of Inl x \<Rightarrow> x = Out_Of_Fuel | Inr f' \<Rightarrow> forest_wf f' \<and> is_live f' = is_live f)"
proof (induction n f p lock depth and n f es lock depth rule: sdb_ns_lock_ns_lock_all.induct)
  case (2 n f p lock depth)
  obtain s where s: "deref_db f p = Some s" using 2(3) by (auto simp: is_live_def)
  let ?f = "f[p := Some (s\<lparr>n_lock := lock\<rparr>)]"
  have w: "forest_wf ?f" "is_live ?f = is_live f" using forest_wf_upd [OF 2(2) s] s by (auto simp: is_live_def fun_eq_iff)
  have "\<forall>e \<in> set (ns_list s). is_live ?f (ns_sdb e)" using 2(2) s w(2) by (simp add: forest_wf_def is_live_def)
  from 2(1) [OF s refl _ w(1) this] show ?case using s w by (auto simp: Let_def split: sum.splits)
next
  case (4 n f e es lock depth)
  show ?case
  proof (cases "sdb_ns_lock n f (ns_sdb e) lock depth")
    case (Inl x)
    then show ?thesis using 4(1) 4(3,4) by auto
  next
    case (Inr f')
    then have "forest_wf f'" "is_live f' = is_live f" using 4(1) 4(3,4) by auto
    then show ?thesis using 4(2) [OF Inr] 4(4) Inr by (auto split: sum.splits)
  qed
qed auto

section \<open>Setting and unsetting\<close>

lemma update_first_ok:
  fixes es :: "SdbNs list"
  assumes "List.find P es = Some e" "ns_entries_ok es"
  shows "length (filter (\<lambda>x. ns_sdb x = q) (update_first P (\<lambda>e. e\<lparr>ns_sdb := r\<rparr>) es)) + (if q = ns_sdb e then 1 else 0)
       = length (filter (\<lambda>x. ns_sdb x = q) es) + (if q = r then 1 else 0)"
    "ns_entries_ok (update_first P (\<lambda>e. e\<lparr>ns_sdb := r\<rparr>) es)"
    "ns_sdb ` set (update_first P (\<lambda>e. e\<lparr>ns_sdb := r\<rparr>) es) \<subseteq> insert r (ns_sdb ` set es)"
proof -
  show "length (filter (\<lambda>x. ns_sdb x = q) (update_first P (\<lambda>e. e\<lparr>ns_sdb := r\<rparr>) es)) + (if q = ns_sdb e then 1 else 0)
       = length (filter (\<lambda>x. ns_sdb x = q) es) + (if q = r then 1 else 0)"
    using assms(1) by (induction es) (auto split: if_splits)
  have h: "map ns_hash (update_first P (\<lambda>e. e\<lparr>ns_sdb := r\<rparr>) xs) = map ns_hash xs" for xs :: "SdbNs list"
    by (induction xs) auto
  have n: "x \<in> set (update_first P (\<lambda>e. e\<lparr>ns_sdb := r\<rparr>) xs) \<Longrightarrow> \<exists>y \<in> set xs. ns_name x = ns_name y \<and> ns_hash x = ns_hash y" for x and xs :: "SdbNs list"
    by (induction xs) (auto split: if_splits)
  show "ns_entries_ok (update_first P (\<lambda>e. e\<lparr>ns_sdb := r\<rparr>) es)"
    using assms(2) h n unfolding ns_entries_ok_def by metis
  show "ns_sdb ` set (update_first P (\<lambda>e. e\<lparr>ns_sdb := r\<rparr>) es) \<subseteq> insert r (ns_sdb ` set es)"
    by (induction es) auto
qed

lemma delete_first_ok:
  fixes es :: "SdbNs list"
  assumes "List.find P es = Some e" "ns_entries_ok es"
  shows "length (filter (\<lambda>x. ns_sdb x = q) (delete_first P es)) + (if q = ns_sdb e then 1 else 0) = length (filter (\<lambda>x. ns_sdb x = q) es)"
    "ns_entries_ok (delete_first P es)" "set (delete_first P es) \<subseteq> set es"
proof -
  show "length (filter (\<lambda>x. ns_sdb x = q) (delete_first P es)) + (if q = ns_sdb e then 1 else 0) = length (filter (\<lambda>x. ns_sdb x = q) es)"
    using assms(1) by (induction es) (auto split: if_splits)
  have sub: "set (delete_first P xs) \<subseteq> set xs" for xs :: "SdbNs list" by (induction xs) auto
  then show "set (delete_first P es) \<subseteq> set es" .
  have "distinct (map ns_hash xs) \<Longrightarrow> distinct (map ns_hash (delete_first P xs))" for xs :: "SdbNs list"
    using sub by (induction xs) auto
  then show "ns_entries_ok (delete_first P es)" using assms(2) sub unfolding ns_entries_ok_def by blast
qed

text \<open>Dropping a reference to a database that has others.\<close>

lemma sdb_free_shared:
  assumes "deref_db f c = Some t" "1 < n_refs t"
  shows "sdb_free (Suc n) f c = Inr (False, f[c := Some (t\<lparr>n_refs := n_refs t - 1\<rparr>)])"
  using assms by (simp add: sdb_free_def sdb_free_step_def split: prod.splits)

lemma forest_wfI:
  assumes "\<And>q t. deref_db f q = Some t \<Longrightarrow> ns_entries_ok (ns_list t)"
    "\<And>q t e. deref_db f q = Some t \<Longrightarrow> e \<in> set (ns_list t) \<Longrightarrow> deref_db f (ns_sdb e) \<noteq> None"
    "\<And>q t. deref_db f q = Some t \<Longrightarrow> 0 < n_refs t \<and> int (links f q) \<le> n_refs t"
  shows "forest_wf f"
  using assms by (auto simp: forest_wf_def)

lemma forest_wfD:
  assumes "forest_wf f" "deref_db f q = Some t"
  shows "ns_entries_ok (ns_list t)" "e \<in> set (ns_list t) \<Longrightarrow> deref_db f (ns_sdb e) \<noteq> None" "0 < n_refs t" "int (links f q) \<le> n_refs t"
  using assms by (auto simp: forest_wf_def)

text \<open>Changing counters by \<open>d\<close> and the list of \<open>p\<close>.\<close>

lemma forest_wf_relink:
  assumes "forest_wf f" "deref_db f p = Some s" "length f' = length f"
    "\<And>q. deref_db f' q = map_option (\<lambda>t. (if q = p then t\<lparr>n_ns := Some l\<rparr> else t)\<lparr>n_refs := n_refs t + d q\<rparr>) (deref_db f q)"
    "\<And>q t. deref_db f q = Some t \<Longrightarrow>
       0 < n_refs t + d q \<and> int (length (filter (\<lambda>x. ns_sdb x = q) l)) \<le> int (length (filter (\<lambda>x. ns_sdb x = q) (ns_list s))) + d q"
    "ns_entries_ok l" "\<forall>e \<in> set l. deref_db f (ns_sdb e) \<noteq> None"
  shows "forest_wf f'"
proof -
  have p: "p < length f" "f ! p = Some s" using deref_Some [OF assms(2)] by auto
  have nth: "f' ! q = map_option (\<lambda>t. (if q = p then t\<lparr>n_ns := Some l\<rparr> else t)\<lparr>n_refs := n_refs t + d q\<rparr>) (f ! q)" if "q < length f" for q
    using assms(4) [of q] that assms(3) by (simp add: deref_db_def)
  have lo: "links_of x (f' ! q) = (if q = p then length (filter (\<lambda>y. ns_sdb y = x) l) else links_of x (f ! q))" if "q < length f" for x q
    using nth [OF that] p by (auto simp: links_of_def ns_list_def split: option.splits)
  have ml: "map (links_of x) f' = (map (links_of x) f)[p := length (filter (\<lambda>y. ns_sdb y = x) l)]" for x
    using assms(3) lo p(1) by (intro nth_equalityI) (auto simp: nth_list_update)
  have lk: "links f' x + length (filter (\<lambda>y. ns_sdb y = x) (ns_list s)) = links f x + length (filter (\<lambda>y. ns_sdb y = x) l)" for x
    using links_upd [OF p(1), of "Some (s\<lparr>n_ns := Some l\<rparr>)" x] p(2) ml [of x]
    by (simp add: links_def links_of_def map_update ns_list_def)
  show ?thesis
  proof (rule forest_wfI)
    fix q t' assume "deref_db f' q = Some t'"
    then obtain t where t: "deref_db f q = Some t" "t' = (if q = p then t\<lparr>n_ns := Some l\<rparr> else t)\<lparr>n_refs := n_refs t + d q\<rparr>"
      using assms(4) [of q] by auto
    then have lt: "ns_list t' = (if q = p then l else ns_list t)" by (simp add: ns_list_def)
    show "ns_entries_ok (ns_list t')" using lt assms(6) forest_wfD(1) [OF assms(1) t(1)] by simp
    show "deref_db f' (ns_sdb e) \<noteq> None" if "e \<in> set (ns_list t')" for e
      using that lt assms(4) [of "ns_sdb e"] assms(7) forest_wfD(2) [OF assms(1) t(1)] by (auto split: if_splits)
    have "n_refs t' = n_refs t + d q" using t(2) by simp
    then show "0 < n_refs t' \<and> int (links f' q) \<le> n_refs t'"
      using lk [of q] assms(5) [OF t(1)] forest_wfD(4) [OF assms(1) t(1)] by linarith
  qed
qed

lemma node_eqs [simp]:
  fixes t :: node
  shows "t\<lparr>n_refs := a\<rparr>\<lparr>n_ns := x\<rparr> = t\<lparr>n_ns := x\<rparr>\<lparr>n_refs := a\<rparr>" "t\<lparr>n_refs := n_refs t\<rparr> = t"
    "n_ns t = x \<Longrightarrow> t\<lparr>n_ns := x\<rparr> = t"
  by (cases t; simp)+

lemma ns_set_new:
  assumes "forest_wf f" "deref_db f p = Some s" "n_ns s = Some l" "deref_db f r = Some c" "n_lock s = 0" "name \<noteq> []"
    "List.find (\<lambda>e. ns_hash e = sdb_hash name) l = None"
  defines "e \<equiv> \<lparr>ns_name = name, ns_hash = sdb_hash name, ns_sdb = r\<rparr>"
  shows "\<exists>f'. sdb_ns_set n f p name r = Inr (True, f') \<and> forest_wf f' \<and> length f' = length f
     \<and> (\<forall>q. deref_db f' q = map_option (\<lambda>t. (if q = p then t\<lparr>n_ns := Some (l @ [e])\<rparr> else t)
               \<lparr>n_refs := n_refs t + (if q = r then 1 else 0)\<rparr>) (deref_db f q))"
proof -
  let ?f = "f[r := Some (c\<lparr>n_refs := n_refs c + 1\<rparr>)]"
  obtain s1 where s1: "deref_db ?f p = Some s1" "s1 = (if p = r then c\<lparr>n_refs := n_refs c + 1\<rparr> else s)"
    using assms(2) deref_Some [OF assms(2)] by auto
  define f' where "f' = ?f[p := Some (s1\<lparr>n_ns := map_option (\<lambda>l. l @ [e]) (n_ns s1)\<rparr>)]"
  have len: "length f' = length f" by (simp add: f'_def)
  have run: "sdb_ns_set n f p name r = Inr (True, f')"
    using assms(2-7) s1(1) by (simp add: sdb_ns_set_def Let_def f'_def e_def)
  have d: "deref_db f' q = map_option (\<lambda>t. (if q = p then t\<lparr>n_ns := Some (l @ [e])\<rparr> else t)
               \<lparr>n_refs := n_refs t + (if q = r then 1 else 0)\<rparr>) (deref_db f q)" for q
    using assms(2-4) s1(2) deref_Some [OF assms(2)] deref_Some [OF assms(4)] by (auto simp: f'_def option.map_ident)
  have w: "ns_entries_ok l" "\<forall>x \<in> set l. deref_db f (ns_sdb x) \<noteq> None" using forest_wfD(1,2) [OF assms(1,2)] assms(3) by auto
  have new: "\<forall>x \<in> set l. ns_hash x \<noteq> sdb_hash name" using assms(7) by (auto simp: find_None_iff)
  have "ns_entries_ok (l @ [e])" using w(1) new assms(6) unfolding ns_entries_ok_def e_def by fastforce
  moreover have "\<forall>x \<in> set (l @ [e]). deref_db f (ns_sdb x) \<noteq> None" using w(2) assms(4) by (auto simp: e_def)
  moreover have "0 < n_refs t + (if q = r then 1 else 0) \<and> int (length (filter (\<lambda>x. ns_sdb x = q) (l @ [e])))
      \<le> int (length (filter (\<lambda>x. ns_sdb x = q) (ns_list s))) + (if q = r then 1 else 0)" if "deref_db f q = Some t" for q t
    using forest_wfD(3) [OF assms(1) that] assms(3) by (auto simp: e_def)
  ultimately have "forest_wf f'" using forest_wf_relink [OF assms(1,2) len d, of] by blast
  then show ?thesis using run len d by blast
qed

text \<open>Replacing a database that is also referred to from elsewhere.\<close>

lemma ns_set_replace:
  assumes "forest_wf f" "deref_db f p = Some s" "n_ns s = Some l" "deref_db f r = Some c"
    "List.find (\<lambda>e. ns_hash e = sdb_hash name) l = Some e" "ns_sdb e \<noteq> r" "deref_db f (ns_sdb e) = Some b" "1 < n_refs b"
  shows "\<exists>f'. sdb_ns_set (Suc n) f p name r = Inr (True, f') \<and> forest_wf f' \<and> length f' = length f
     \<and> (\<forall>q. deref_db f' q = map_option (\<lambda>t. (if q = p then t\<lparr>n_ns := Some (update_first (\<lambda>e. ns_hash e = sdb_hash name) (\<lambda>e. e\<lparr>ns_sdb := r\<rparr>) l)\<rparr> else t)
               \<lparr>n_refs := n_refs t + (if q = r then 1 else if q = ns_sdb e then -1 else 0)\<rparr>) (deref_db f q))"
proof -
  let ?l = "update_first (\<lambda>e. ns_hash e = sdb_hash name) (\<lambda>e. e\<lparr>ns_sdb := r\<rparr>) l"
  let ?f1 = "f[ns_sdb e := Some (b\<lparr>n_refs := n_refs b - 1\<rparr>)]"
  let ?f = "?f1[r := Some (c\<lparr>n_refs := n_refs c + 1\<rparr>)]"
  have lt: "p < length f" "r < length f" "ns_sdb e < length f"
    using deref_Some [OF assms(2)] deref_Some [OF assms(4)] deref_Some [OF assms(7)] by auto
  have free: "sdb_free (Suc n) f (ns_sdb e) = Inr (False, ?f1)" by (rule sdb_free_shared [OF assms(7,8)])
  obtain s1 where s1: "deref_db ?f p = Some s1"
    "s1 = (if p = r then c\<lparr>n_refs := n_refs c + 1\<rparr> else if p = ns_sdb e then b\<lparr>n_refs := n_refs b - 1\<rparr> else s)"
    using assms(2) lt by auto
  define f' where "f' = ?f[p := Some (s1\<lparr>n_ns := Some ?l\<rparr>)]"
  have len: "length f' = length f" by (simp add: f'_def)
  have ns1: "n_ns s1 = Some l" using s1(2) assms(2,3,4,7) by (auto split: if_splits)
  obtain s0 where s0: "deref_db ?f1 p = Some s0" using assms(2) lt by (cases "p = ns_sdb e") auto
  have r1: "deref_db ?f1 r = Some c" using assms(4,6) lt by auto
  have run: "sdb_ns_set (Suc n) f p name r = Inr (True, f')"
    unfolding sdb_ns_set_def Let_def assms(2) option.case ns_list_simps(1) [OF assms(3)] assms(5) free sum.case prod.case s0 r1 s1(1)
    using assms(6) ns1 by (simp add: f'_def)
  have d: "deref_db f' q = map_option (\<lambda>t. (if q = p then t\<lparr>n_ns := Some ?l\<rparr> else t)
               \<lparr>n_refs := n_refs t + (if q = r then 1 else if q = ns_sdb e then -1 else 0)\<rparr>) (deref_db f q)" for q
    using assms(2-4,6,7) s1(2) lt by (auto simp: f'_def option.map_ident)
  have w: "ns_entries_ok l" "\<forall>x \<in> set l. deref_db f (ns_sdb x) \<noteq> None" using forest_wfD(1,2) [OF assms(1,2)] assms(3) by auto
  note u = update_first_ok [OF assms(5) w(1)]
  have "\<forall>x \<in> set ?l. deref_db f (ns_sdb x) \<noteq> None" using u(3) w(2) assms(4) by fastforce
  moreover have "0 < n_refs t + (if q = r then 1 else if q = ns_sdb e then -1 else 0) \<and> int (length (filter (\<lambda>x. ns_sdb x = q) ?l))
      \<le> int (length (filter (\<lambda>x. ns_sdb x = q) (ns_list s))) + (if q = r then 1 else if q = ns_sdb e then -1 else 0)" if "deref_db f q = Some t" for q t
    using forest_wfD(3) [OF assms(1) that] assms(3,6,7,8) that u(1) [of q r] by (auto split: if_splits)
  ultimately have "forest_wf f'" using forest_wf_relink [OF assms(1,2) len d, of] u(2) by blast
  then show ?thesis using run len d by blast
qed

lemma ns_unset_shared:
  assumes "forest_wf f" "deref_db f p = Some s" "n_ns s = Some l"
    "List.find (\<lambda>e. name = Some (ns_name e) \<or> r = Some (ns_sdb e)) l = Some e" "deref_db f (ns_sdb e) = Some b" "1 < n_refs b"
  shows "\<exists>f'. sdb_ns_unset (Suc n) f p name r = Inr (True, f') \<and> forest_wf f' \<and> length f' = length f
     \<and> (\<forall>q. deref_db f' q = map_option (\<lambda>t. (if q = p then t\<lparr>n_ns := Some (delete_first (\<lambda>e. name = Some (ns_name e) \<or> r = Some (ns_sdb e)) l)\<rparr> else t)
               \<lparr>n_refs := n_refs t + (if q = ns_sdb e then -1 else 0)\<rparr>) (deref_db f q))"
proof -
  let ?l = "delete_first (\<lambda>e. name = Some (ns_name e) \<or> r = Some (ns_sdb e)) l"
  let ?f1 = "f[p := Some (s\<lparr>n_ns := Some ?l\<rparr>)]"
  have lt: "p < length f" "ns_sdb e < length f"
    using deref_Some [OF assms(2)] deref_Some [OF assms(5)] by auto
  obtain b1 where b1: "deref_db ?f1 (ns_sdb e) = Some b1" "b1 = (if p = ns_sdb e then b\<lparr>n_ns := Some ?l\<rparr> else b)"
    using assms(2,5) lt by (cases "p = ns_sdb e") auto
  define f' where "f' = ?f1[ns_sdb e := Some (b1\<lparr>n_refs := n_refs b1 - 1\<rparr>)]"
  have len: "length f' = length f" by (simp add: f'_def)
  have r1: "1 < n_refs b1" using b1(2) assms(6) by auto
  have free: "sdb_free (Suc n) ?f1 (ns_sdb e) = Inr (False, f')" using sdb_free_shared [OF b1(1) r1] by (simp add: f'_def)
  have run: "sdb_ns_unset (Suc n) f p name r = Inr (True, f')"
    unfolding sdb_ns_unset_def Let_def assms(2) option.case ns_list_simps(1) [OF assms(3)] assms(4) assms(3) option.map b1(1)
    using r1 free by simp
  have d: "deref_db f' q = map_option (\<lambda>t. (if q = p then t\<lparr>n_ns := Some ?l\<rparr> else t)
               \<lparr>n_refs := n_refs t + (if q = ns_sdb e then -1 else 0)\<rparr>) (deref_db f q)" for q
    using assms(2,3,5) b1(2) lt by (auto simp: f'_def option.map_ident)
  have w: "ns_entries_ok l" "\<forall>x \<in> set l. deref_db f (ns_sdb x) \<noteq> None" using forest_wfD(1,2) [OF assms(1,2)] assms(3) by auto
  note u = delete_first_ok [OF assms(4) w(1)]
  have "\<forall>x \<in> set ?l. deref_db f (ns_sdb x) \<noteq> None" using u(3) w(2) by blast
  moreover have "0 < n_refs t + (if q = ns_sdb e then -1 else 0) \<and> int (length (filter (\<lambda>x. ns_sdb x = q) ?l))
      \<le> int (length (filter (\<lambda>x. ns_sdb x = q) (ns_list s))) + (if q = ns_sdb e then -1 else 0)" if "deref_db f q = Some t" for q t
    using forest_wfD(3) [OF assms(1) that] assms(3,5,6) that u(1) [of q] by (auto split: if_splits)
  ultimately have "forest_wf f'" using forest_wf_relink [OF assms(1,2) len d, of] u(2) by blast
  then show ?thesis using run len d by blast
qed

section \<open>Releasing\<close>

text \<open>
  \<^verbatim>\<open>sdb_ns_reset\<close> empties the lists of the databases it is working on only at the end: in between they have references that
  were dropped already.  \<open>prune H f\<close> is the forest in which each of them, the domain of \<open>H\<close>, has only the references that are left.
\<close>

definition prune :: "(nat \<rightharpoonup> SdbNs list) \<Rightarrow> forest \<Rightarrow> forest" where
  "prune H f = map (\<lambda>q. case H q of None \<Rightarrow> f ! q | Some l \<Rightarrow> map_option (\<lambda>t. t\<lparr>n_ns := Some l\<rparr>) (f ! q)) [0..<length f]"

lemma deref_prune: "deref_db (prune H f) q = (case H q of None \<Rightarrow> deref_db f q | Some l \<Rightarrow> map_option (\<lambda>t. t\<lparr>n_ns := Some l\<rparr>) (deref_db f q))"
  by (auto simp: prune_def deref_db_def split: option.splits)

lemma prune_length [simp]: "length (prune H f) = length f"
  by (simp add: prune_def)

lemma prune_empty [simp]: "prune Map.empty f = f"
  by (simp add: prune_def map_nth)

lemma forest_eqI: "length f = length g \<Longrightarrow> (\<And>q. q < length f \<Longrightarrow> deref_db f q = deref_db g q) \<Longrightarrow> f = g"
  by (intro nth_equalityI) (simp_all add: deref_db_def)

lemma prune_upd: "H c = None \<Longrightarrow> prune H (f[c := x]) = (prune H f)[c := x]"
  by (rule forest_eqI) (auto simp: deref_prune split: option.splits)

lemma prune_insert:
  assumes "deref_db f p = Some s"
  shows "prune (H(p \<mapsto> l)) f = (prune H f)[p := Some (s\<lparr>n_ns := Some l\<rparr>)]"
  using assms deref_Some [OF assms] by (intro forest_eqI) (auto simp: deref_prune split: option.splits)

lemma links_list_upd:
  assumes "deref_db g p = Some s"
  shows "links (g[p := Some (t\<lparr>n_ns := Some l\<rparr>)]) q + length (filter (\<lambda>e. ns_sdb e = q) (ns_list s)) = links g q + length (filter (\<lambda>e. ns_sdb e = q) l)"
  using links_upd [of p g "Some (t\<lparr>n_ns := Some l\<rparr>)" q] deref_Some [OF assms] by (simp add: links_of_def ns_list_def)

text \<open>The references to a database in the two forests before and after the first of the references of \<open>p\<close> is dropped.\<close>

lemma links_prune_Cons:
  assumes "deref_db f p = Some s"
  shows "links (prune (H(p \<mapsto> e # es)) f) q = links (prune (H(p \<mapsto> es)) f) q + (if ns_sdb e = q then 1 else 0)"
proof -
  obtain t where t: "deref_db (prune H f) p = Some t" using assms by (cases "H p") (auto simp: deref_prune)
  show ?thesis using links_list_upd [OF t, of "e # es" s q] links_list_upd [OF t, of es s q] by (simp add: prune_insert [OF assms] split: if_splits)
qed

lemma links_same_list:
  assumes "deref_db f c = Some t" "n_ns t' = n_ns t"
  shows "links (prune H (f[c := Some t'])) q = links (prune H f) q"
proof -
  have "map (links_of q) (prune H (f[c := Some t'])) = map (links_of q) (prune H f)"
  proof (rule nth_equalityI)
    fix i assume i: "i < length (map (links_of q) (prune H (f[c := Some t'])))"
    then show "map (links_of q) (prune H (f[c := Some t'])) ! i = map (links_of q) (prune H f) ! i"
      using assms deref_Some [OF assms(1)] by (auto simp: prune_def links_of_def ns_list_def nth_list_update split: option.splits)
  qed simp
  then show ?thesis by (simp add: links_def)
qed

text \<open>A forest in the middle of the work: each database that is worked on has a reference besides those in lists.\<close>

definition pend :: "(nat \<rightharpoonup> SdbNs list) \<Rightarrow> forest \<Rightarrow> bool" where
  "pend H f \<longleftrightarrow> forest_wf (prune H f) \<and> (\<forall>h \<in> dom H. \<exists>t. deref_db f h = Some t \<and> int (links (prune H f) h) < n_refs t)"

text \<open>What the work leaves: no new databases, references or counts, and the lists of the databases outside of \<open>X\<close> that are not released.\<close>

definition shrinks :: "nat set \<Rightarrow> forest \<Rightarrow> forest \<Rightarrow> bool" where
  "shrinks X f f' \<longleftrightarrow> length f' = length f
     \<and> (\<forall>q t'. deref_db f' q = Some t' \<longrightarrow> (\<exists>t. deref_db f q = Some t \<and> n_refs t' \<le> n_refs t \<and> (q \<notin> X \<longrightarrow> n_ns t' = n_ns t)))"

lemma shrinks_refl [simp]: "shrinks X f f"
  by (simp add: shrinks_def)

lemma shrinks_trans: "shrinks X f g \<Longrightarrow> shrinks X g h \<Longrightarrow> shrinks X f h"
  unfolding shrinks_def by (fastforce intro: order.trans)

text \<open>A released database that is not referred to and refers to none.\<close>

lemma forest_wf_drop:
  assumes "forest_wf g" "deref_db g c = Some t" "ns_list t = []" "links g c = 0"
  shows "forest_wf (g[c := None])" "links (g[c := None]) q = links g q"
proof -
  have c: "c < length g" "g ! c = Some t" using deref_Some [OF assms(2)] by auto
  show l: "links (g[c := None]) q = links g q" for q
    using links_upd [OF c(1), of None q] c(2) assms(3) by (simp add: links_of_def)
  have "ns_sdb e \<noteq> c" if "deref_db g q = Some u" "e \<in> set (ns_list u)" for q u e
  proof
    assume "ns_sdb e = c"
    then have "0 < links_of c (g ! q)" "q < length g" using that deref_Some [OF that(1)] by (auto simp: links_of_def length_greater_0_conv filter_empty_conv)
    moreover have "links_of c (g ! q) \<le> links g c" unfolding links_def using \<open>q < length g\<close> by (intro member_le_sum_list) auto
    ultimately show False using assms(4) by simp
  qed
  then show "forest_wf (g[c := None])"
    using forest_wfD [OF assms(1)] c(1) by (intro forest_wfI) (auto simp: l split: if_splits)
qed

lemma sdb_free_leaf:
  assumes "deref_db f c = Some t" "n_refs t = 1" "ns_list t = []" "2 \<le> n"
  shows "sdb_free n f c = Inr (True, f[c := None])"
proof -
  obtain m where n: "n = Suc (Suc m)" using assms(4) by (metis add_2_eq_Suc le_Suc_ex)
  have "c < length f" using deref_Some [OF assms(1)] by simp
  then show ?thesis using assms(1-3)
    by (simp add: n sdb_free_def sdb_free_step_def ns_free_list_def ns_free_step_def ns_list_def split: prod.splits)
qed

lemma pend_next:
  assumes "pend (H(p \<mapsto> e # es)) f" "deref_db f p = Some s" "deref_db f (ns_sdb e) = Some t"
  shows "n_refs t = 1 \<Longrightarrow> ns_sdb e \<notin> insert p (dom H) \<and> pend (H(p \<mapsto> es)) f \<and> links (prune (H(p \<mapsto> es)) f) (ns_sdb e) = 0"
    "1 < n_refs t \<Longrightarrow> pend (H(p \<mapsto> es)) (f[ns_sdb e := Some (t\<lparr>n_refs := n_refs t - 1\<rparr>)])"
proof -
  let ?c = "ns_sdb e" and ?G = "H(p \<mapsto> e # es)" and ?G1 = "H(p \<mapsto> es)"
  note lk = links_prune_Cons [OF assms(2), of H e es]
  have w: "forest_wf (prune ?G f)" and own: "\<And>h. h \<in> dom ?G \<Longrightarrow> \<exists>t. deref_db f h = Some t \<and> int (links (prune ?G f) h) < n_refs t"
    using assms(1) by (auto simp: pend_def)
  have dp: "deref_db (prune ?G f) p = Some (s\<lparr>n_ns := Some (e # es)\<rparr>)" using assms(2) by (simp add: deref_prune)
  have eo: "ns_entries_ok es" "\<forall>x \<in> set es. deref_db (prune ?G f) (ns_sdb x) \<noteq> None"
    using forest_wfD(1,2) [OF w dp] by (auto simp: ns_entries_ok_def)
  have wf1: "forest_wf (prune ?G1 (f[?c := Some (t\<lparr>n_refs := n_refs t - d\<rparr>)]))" if "d = 0 \<or> d = 1 \<and> 1 < n_refs t" for d
  proof (rule forest_wf_relink [OF w dp, where l = es and d = "\<lambda>q. if q = ?c then - d else 0"])
    show "deref_db (prune ?G1 (f[?c := Some (t\<lparr>n_refs := n_refs t - d\<rparr>)])) q =
        map_option (\<lambda>t. (if q = p then t\<lparr>n_ns := Some es\<rparr> else t)\<lparr>n_refs := n_refs t + (if q = ?c then - d else 0)\<rparr>) (deref_db (prune ?G f) q)" for q
      using assms(2,3) deref_Some [OF assms(3)]
      by (cases "q = p"; cases "q = ?c"; cases "H q") (auto simp: deref_prune option.map_ident option.map_comp comp_def split: option.splits)
    show "0 < n_refs u + (if q = ?c then - d else 0) \<and> int (length (filter (\<lambda>x. ns_sdb x = q) es))
        \<le> int (length (filter (\<lambda>x. ns_sdb x = q) (ns_list (s\<lparr>n_ns := Some (e # es)\<rparr>)))) + (if q = ?c then - d else 0)"
      if "deref_db (prune ?G f) q = Some u" for q u
    proof -
      have "n_refs u = n_refs t" if "q = ?c" using that assms(3) \<open>deref_db (prune ?G f) q = Some u\<close>
        by (auto simp: deref_prune split: option.splits if_splits)
      then show ?thesis using forest_wfD(3) [OF w that] \<open>d = 0 \<or> d = 1 \<and> 1 < n_refs t\<close> by auto
    qed
  qed (use eo in simp_all)
  have same: "f[?c := Some (t\<lparr>n_refs := n_refs t - 0\<rparr>)] = f" using deref_Some [OF assms(3)] by (simp add: list_update_same_conv)
  show "?c \<notin> insert p (dom H) \<and> pend ?G1 f \<and> links (prune ?G1 f) ?c = 0" if r: "n_refs t = 1"
  proof -
    have "?c \<notin> dom ?G" using own [of ?c] assms(3) r lk [of ?c] by auto
    then have c: "?c \<notin> insert p (dom H)" by auto
    then have "deref_db (prune ?G f) ?c = Some t" using assms(3) by (auto simp: deref_prune dom_def)
    then have "links (prune ?G1 f) ?c = 0" using forest_wfD(4) [OF w] r lk [of ?c] by fastforce
    moreover have "pend ?G1 f" unfolding pend_def
    proof
      show "forest_wf (prune ?G1 f)" using wf1 [of 0] same by simp
      show "\<forall>h \<in> dom ?G1. \<exists>t. deref_db f h = Some t \<and> int (links (prune ?G1 f) h) < n_refs t"
      proof
        fix h assume "h \<in> dom ?G1"
        then have "h \<in> dom ?G" by simp
        from own [OF this] obtain u where "deref_db f h = Some u" "int (links (prune ?G f) h) < n_refs u" by blast
        then show "\<exists>t. deref_db f h = Some t \<and> int (links (prune ?G1 f) h) < n_refs t" using lk [of h] by (auto split: if_splits)
      qed
    qed
    ultimately show ?thesis using c by simp
  qed
  show "pend ?G1 (f[?c := Some (t\<lparr>n_refs := n_refs t - 1\<rparr>)])" if r: "1 < n_refs t"
    unfolding pend_def
  proof (intro conjI ballI)
    show "forest_wf (prune ?G1 (f[?c := Some (t\<lparr>n_refs := n_refs t - 1\<rparr>)]))" using wf1 [of 1] r by simp
    fix h assume "h \<in> dom ?G1"
    then have "h \<in> dom ?G" by simp
    from own [OF this] obtain u where u: "deref_db f h = Some u" "int (links (prune ?G f) h) < n_refs u" by blast
    show "\<exists>v. deref_db (f[?c := Some (t\<lparr>n_refs := n_refs t - 1\<rparr>)]) h = Some v
        \<and> int (links (prune ?G1 (f[?c := Some (t\<lparr>n_refs := n_refs t - 1\<rparr>)])) h) < n_refs v"
      using u lk [of h] assms(3) deref_Some [OF assms(3)] by (auto simp: links_same_list [OF assms(3)] split: if_splits)
  qed
qed

lemma forest_wf_same_list:
  assumes "forest_wf f" "deref_db f p = Some s" "ns_list s' = ns_list s" "n_refs s' = n_refs s"
  shows "forest_wf (f[p := Some s'])" "links (f[p := Some s']) q = links f q"
proof -
  have p: "p < length f" "f ! p = Some s" using deref_Some [OF assms(2)] by auto
  show l: "links (f[p := Some s']) q = links f q" for q
    using links_upd [OF p(1), of "Some s'" q] assms(3) p(2) by (simp add: links_of_def)
  show "forest_wf (f[p := Some s'])" using assms p by (auto simp: forest_wf_def l)
qed

lemma pend_dom:
  assumes "pend H f"
  shows "finite (dom H)" "card (dom H) \<le> length f"
proof -
  have "dom H \<subseteq> {..<length f}" using assms deref_Some unfolding pend_def by fastforce
  then show "finite (dom H)" "card (dom H) \<le> length f"
    using finite_subset card_mono [of "{..<length f}" "dom H"] by auto
qed

text \<open>Entering the list of \<open>p\<close>, and leaving it.\<close>

lemma pend_enter:
  assumes "pend H f" "H p = None" "deref_db f p = Some s" "n_ns s = Some es" "int (links (prune H f) p) < n_refs s"
  shows "prune (H(p \<mapsto> es)) f = prune H f" "pend (H(p \<mapsto> es)) f"
proof -
  show c: "prune (H(p \<mapsto> es)) f = prune H f"
    using assms(2-4) deref_Some [OF assms(3)] by (intro forest_eqI) (auto simp: deref_prune split: option.splits)
  show "pend (H(p \<mapsto> es)) f" using assms(1,3,5) unfolding pend_def c by auto
qed

lemma pend_leave:
  assumes "pend (H(p \<mapsto> [])) f" "H p = None" "deref_db f p = Some s"
  shows "pend H (f[p := Some (s\<lparr>n_ns := None\<rparr>)])"
    "links (prune H (f[p := Some (s\<lparr>n_ns := None\<rparr>)])) q = links (prune (H(p \<mapsto> [])) f) q"
proof -
  let ?g = "prune (H(p \<mapsto> [])) f" and ?f = "f[p := Some (s\<lparr>n_ns := None\<rparr>)]"
  have d: "deref_db ?g p = Some (s\<lparr>n_ns := Some []\<rparr>)" using assms(3) by (simp add: deref_prune)
  have c: "prune H ?f = ?g[p := Some (s\<lparr>n_ns := None\<rparr>)]" using assms(2,3) by (simp add: prune_upd prune_insert)
  have w: "forest_wf ?g" using assms(1) by (simp add: pend_def)
  have e: "ns_list (s\<lparr>n_ns := None\<rparr>) = ns_list (s\<lparr>n_ns := Some []\<rparr>)" "n_refs (s\<lparr>n_ns := None\<rparr>) = n_refs (s\<lparr>n_ns := Some []\<rparr>)"
    by (simp_all add: ns_list_def)
  note x = forest_wf_same_list [OF w d e]
  show l: "links (prune H ?f) q = links ?g q" for q using x(2) c by simp
  have "\<exists>t. deref_db ?f h = Some t \<and> int (links ?g h) < n_refs t" if "h \<in> dom H" for h
  proof -
    have "h \<noteq> p" "h \<in> dom (H(p \<mapsto> []))" using that assms(2) by auto
    then obtain t where "deref_db f h = Some t" "int (links ?g h) < n_refs t" using assms(1) unfolding pend_def by blast
    then show ?thesis using \<open>h \<noteq> p\<close> by simp
  qed
  then show "pend H ?f" using x(1) c l by (simp add: pend_def)
qed

lemma pend_release:
  assumes "pend H f" "H c = None" "deref_db f c = Some t" "n_ns t = None" "links (prune H f) c = 0"
  shows "pend H (f[c := None])" "links (prune H (f[c := None])) q = links (prune H f) q"
proof -
  have d: "deref_db (prune H f) c = Some t" "forest_wf (prune H f)" using assms by (simp_all add: deref_prune pend_def)
  have "ns_list t = []" using assms(4) by (simp add: ns_list_def)
  note x = forest_wf_drop [OF d(2,1) this assms(5)]
  have c: "prune H (f[c := None]) = (prune H f)[c := None]" using assms(2) by (rule prune_upd)
  show l: "links (prune H (f[c := None])) q = links (prune H f) q" for q using x(2) c by simp
  have "\<exists>t. deref_db (f[c := None]) h = Some t \<and> int (links (prune H f) h) < n_refs t" if h: "h \<in> dom H" for h
  proof -
    have "\<forall>h \<in> dom H. \<exists>t. deref_db f h = Some t \<and> int (links (prune H f) h) < n_refs t" using assms(1) by (simp add: pend_def)
    then obtain t where "deref_db f h = Some t" "int (links (prune H f) h) < n_refs t" using h by blast
    moreover have "h \<noteq> c" using h assms(2) by auto
    ultimately show ?thesis by simp
  qed
  then show "pend H (f[c := None])" using x(1) c l by (simp add: pend_def)
qed

text \<open>
  Emptying the list of a database releases what is referred to from nowhere else, and only that.  The fuel is enough when it is above
  the number of databases, since a database is not entered twice.
\<close>

lemma ns_reset_ok:
  "pend H f \<Longrightarrow> H p = None \<Longrightarrow> deref_db f p = Some s \<Longrightarrow> int (links (prune H f) p) < n_refs s \<Longrightarrow> length f + 2 \<le> n + card (dom H) \<Longrightarrow>
     \<exists>f' s'. sdb_ns_reset n f p = Inr f' \<and> pend H f' \<and> deref_db f' p = Some s' \<and> n_ns s' = None \<and> int (links (prune H f') p) < n_refs s'
       \<and> shrinks {p} f f' \<and> (\<forall>q. links (prune H f') q \<le> links (prune H f) q)"
  "pend (H(p \<mapsto> es)) f \<Longrightarrow> length f + 2 \<le> n + card (dom (H(p \<mapsto> es))) \<Longrightarrow>
     \<exists>f'. ns_reset_all n f es = Inr f' \<and> pend (H(p \<mapsto> [])) f' \<and> shrinks {} f f'
       \<and> (\<forall>q. links (prune (H(p \<mapsto> [])) f') q \<le> links (prune (H(p \<mapsto> es)) f) q)"
proof (induction n f p and n f es arbitrary: H s and H p rule: sdb_ns_reset_ns_reset_all.induct)
  case (1 f p)
  then show ?case using pend_dom(2) [OF 1(1)] by simp
next
  case (2 n f p)
  show ?case
  proof (cases "n_ns s")
    case None
    then show ?thesis using 2(2-5) by auto
  next
    case (Some es)
    note en = pend_enter [OF 2(2-4) Some 2(5)]
    have "card (dom (H(p \<mapsto> es))) = Suc (card (dom H))" using pend_dom(1) [OF 2(2)] 2(3) by (simp add: domIff)
    then have fuel: "length f + 2 \<le> n + card (dom (H(p \<mapsto> es)))" using 2(6) by simp
    obtain f1 where f1: "ns_reset_all n f es = Inr f1" "pend (H(p \<mapsto> [])) f1" "shrinks {} f f1"
      "\<forall>q. links (prune (H(p \<mapsto> [])) f1) q \<le> links (prune H f) q"
      using 2(1) [OF 2(4) Some en(2) fuel] unfolding en(1) by blast
    obtain s1 where s1: "deref_db f1 p = Some s1" "int (links (prune (H(p \<mapsto> [])) f1) p) < n_refs s1"
      using f1(2) unfolding pend_def by auto
    let ?f = "f1[p := Some (s1\<lparr>n_ns := None\<rparr>)]"
    note lv = pend_leave [OF f1(2) 2(3) s1(1)]
    have "sdb_ns_reset (Suc n) f p = Inr ?f" using 2(4) Some f1(1) s1(1) by simp
    moreover have "deref_db ?f p = Some (s1\<lparr>n_ns := None\<rparr>)" using deref_Some [OF s1(1)] by simp
    moreover have "shrinks {p} f ?f" using f1(3) s1(1) deref_Some [OF s1(1)] unfolding shrinks_def by (auto split: if_splits)
    ultimately show ?thesis using lv f1(4) s1(2) by auto
  qed
next
  case (3 n f)
  then show ?case by auto
next
  case (4 n f e es)
  let ?c = "ns_sdb e" and ?G = "H(p \<mapsto> e # es)" and ?G1 = "H(p \<mapsto> es)"
  have dm: "dom ?G1 = dom ?G" by auto
  obtain s where s: "deref_db f p = Some s" using 4(5) unfolding pend_def by auto
  have dp: "deref_db (prune ?G f) p = Some (s\<lparr>n_ns := Some (e # es)\<rparr>)" "forest_wf (prune ?G f)"
    using s 4(5) unfolding pend_def by (simp_all add: deref_prune)
  have "deref_db (prune ?G f) ?c \<noteq> None" using forest_wfD(2) [OF dp(2,1), of e] by simp
  then obtain t where t: "deref_db f ?c = Some t" by (auto simp: deref_prune split: option.splits if_splits)
  have pos: "1 \<le> n_refs t"
  proof -
    obtain u where "deref_db (prune ?G f) ?c = Some u" "n_refs u = n_refs t" using t by (cases "?G ?c") (simp_all add: deref_prune)
    then show ?thesis using forest_wfD(3) [OF dp(2)] by fastforce
  qed
  note lk = links_prune_Cons [OF s, of H e es]
  show ?case
  proof (cases "n_refs t = 1")
    case True
    note nx = pend_next(1) [OF 4(5) s t True]
    have g: "?G1 ?c = None" "pend ?G1 f" "links (prune ?G1 f) ?c = 0" using nx by (auto simp: domIff)
    have nr: "\<not> 1 < n_refs t" using True by simp
    have own: "int (links (prune ?G1 f) ?c) < n_refs t" using g(3) True by simp
    have fu: "length f + 2 \<le> n + card (dom ?G1)" using 4(6) unfolding dm .
    obtain f1 t1 where f1: "sdb_ns_reset n f ?c = Inr f1" "pend ?G1 f1" "deref_db f1 ?c = Some t1" "n_ns t1 = None"
      "int (links (prune ?G1 f1) ?c) < n_refs t1" "shrinks {?c} f f1" "\<forall>q. links (prune ?G1 f1) q \<le> links (prune ?G1 f) q"
      using 4(2) [OF t nr True g(2,1) t own fu] by blast
    have l0: "links (prune ?G1 f1) ?c = 0" using f1(7) g(3) by (metis le_zero_eq)
    have "n_refs t1 \<le> n_refs t" using f1(3,6) t unfolding shrinks_def by fastforce
    then have r1: "n_refs t1 = 1" using f1(5) True by simp
    have n2: "2 \<le> n" using 4(6) pend_dom(2) [OF 4(5)] by simp
    have fr: "sdb_free n f1 ?c = Inr (True, f1[?c := None])"
      by (rule sdb_free_leaf [OF f1(3) r1 _ n2]) (simp add: ns_list_def f1(4))
    note rel = pend_release [OF f1(2) g(1) f1(3,4) l0]
    have len: "length (f1[?c := None]) = length f" using f1(6) by (simp add: shrinks_def)
    have fuel: "length (f1[?c := None]) + 2 \<le> n + card (dom ?G1)" using fu len by simp
    obtain f2 where f2: "ns_reset_all n (f1[?c := None]) es = Inr f2" "pend (H(p \<mapsto> [])) f2" "shrinks {} (f1[?c := None]) f2"
      "\<forall>q. links (prune (H(p \<mapsto> [])) f2) q \<le> links (prune ?G1 (f1[?c := None])) q"
      using 4(3) [OF t nr True f1(1) fr refl rel(1) fuel] by blast
    have "shrinks {} f (f1[?c := None])" using f1(6) deref_Some [OF t] unfolding shrinks_def by (auto split: if_splits)
    then have "shrinks {} f f2" using f2(3) shrinks_trans by blast
    moreover have "links (prune (H(p \<mapsto> [])) f2) q \<le> links (prune ?G f) q" for q
    proof -
      have "links (prune (H(p \<mapsto> [])) f2) q \<le> links (prune ?G1 f1) q" using f2(4) rel(2) by simp
      also have "\<dots> \<le> links (prune ?G1 f) q" using f1(7) by blast
      finally show ?thesis using lk [of q] by simp
    qed
    moreover have "ns_reset_all n f (e # es) = Inr f2" using t True f1(1) fr f2(1) by simp
    ultimately show ?thesis using f2(2) by blast
  next
    case False
    then have r: "1 < n_refs t" using pos by simp
    let ?f1 = "f[?c := Some (t\<lparr>n_refs := n_refs t - 1\<rparr>)]"
    note p1 = pend_next(2) [OF 4(5) s t r]
    have fuel: "length ?f1 + 2 \<le> n + card (dom ?G1)" using 4(6) unfolding dm length_list_update .
    obtain f2 where f2: "ns_reset_all n ?f1 es = Inr f2" "pend (H(p \<mapsto> [])) f2" "shrinks {} ?f1 f2"
      "\<forall>q. links (prune (H(p \<mapsto> [])) f2) q \<le> links (prune ?G1 ?f1) q"
      using 4(1) [OF t r p1 fuel] by blast
    have "shrinks {} f ?f1" using t unfolding shrinks_def by auto
    then have "shrinks {} f f2" using f2(3) shrinks_trans by blast
    moreover have "links (prune (H(p \<mapsto> [])) f2) q \<le> links (prune ?G f) q" for q
      using f2(4) [rule_format, of q] lk [of q] links_same_list [OF t, of "t\<lparr>n_refs := n_refs t - 1\<rparr>" ?G1 q] by simp
    moreover have "ns_reset_all n f (e # es) = Inr f2" using t r f2(1) by simp
    ultimately show ?thesis using f2(2) by blast
  qed
qed

lemma ns_open_live:
  assumes "ns_open f" "is_live f p"
  obtains s l where "deref_db f p = Some s" "n_ns s = Some l"
  using assms unfolding is_live_def ns_open_def by (metis not_None_eq)

text \<open>Unsetting a name, also one that holds the last reference: what only it held is released.\<close>

lemma ns_unset_ok:
  assumes "forest_wf f" "ns_open f" "is_live f p" "length f + 2 \<le> n"
  shows "\<exists>b f'. sdb_ns_unset n f p nm ro = Inr (b, f') \<and> forest_wf f' \<and> ns_open f'"
proof -
  let ?P = "\<lambda>e. nm = Some (ns_name e) \<or> ro = Some (ns_sdb e)"
  obtain s l where s: "deref_db f p = Some s" "n_ns s = Some l" by (rule ns_open_live [OF assms(2,3)])
  obtain m where n: "n = Suc m" using assms(4) by (cases n) auto
  have p: "p < length f" using deref_Some [OF s(1)] by simp
  have w: "ns_entries_ok l" "\<forall>x \<in> set l. deref_db f (ns_sdb x) \<noteq> None" using forest_wfD(1,2) [OF assms(1) s(1)] s(2) by auto
  show ?thesis
  proof (cases "List.find ?P l")
    case None
    then have "sdb_ns_unset n f p nm ro = Inr (False, f)" using s by (simp add: sdb_ns_unset_def Let_def)
    then show ?thesis using assms(1,2) by blast
  next
    case (Some e)
    let ?l = "delete_first ?P l" and ?c = "ns_sdb e"
    note dl = delete_first_ok [OF Some w(1)]
    obtain b where b: "deref_db f ?c = Some b" using w(2) find_mem [OF Some] by auto
    consider "1 < n_refs b" | "n_refs b = 1" using forest_wfD(3) [OF assms(1) b] by linarith
    then show ?thesis
    proof cases
      case 1
      obtain f' where f': "sdb_ns_unset n f p nm ro = Inr (True, f')" "forest_wf f'"
        "\<forall>q. deref_db f' q = map_option (\<lambda>t. (if q = p then t\<lparr>n_ns := Some ?l\<rparr> else t)\<lparr>n_refs := n_refs t + (if q = ?c then -1 else 0)\<rparr>) (deref_db f q)"
        using ns_unset_shared [OF assms(1) s Some b 1, of m] unfolding n by blast
      have "ns_open f'" using assms(2) f'(3) unfolding ns_open_def by (auto split: if_splits)
      then show ?thesis using f' by blast
    next
      case r: 2
      let ?f1 = "f[p := Some (s\<lparr>n_ns := Some ?l\<rparr>)]"
      have wf1: "forest_wf ?f1"
      proof (rule forest_wf_relink [OF assms(1) s(1), where d = "\<lambda>_. 0" and l = ?l])
        show "deref_db ?f1 q = map_option (\<lambda>t. (if q = p then t\<lparr>n_ns := Some ?l\<rparr> else t)\<lparr>n_refs := n_refs t + 0\<rparr>) (deref_db f q)" for q
          using s(1) p by (auto simp: option.map_ident)
        show "0 < n_refs t + 0 \<and> int (length (filter (\<lambda>x. ns_sdb x = q) ?l)) \<le> int (length (filter (\<lambda>x. ns_sdb x = q) (ns_list s))) + 0"
          if "deref_db f q = Some t" for q t
          using forest_wfD(3) [OF assms(1) that] dl(1) [of q] s(2) by (auto split: if_splits)
      qed (use dl(2,3) w(2) in auto)
      have l0: "links ?f1 ?c = 0"
        using links_list_upd [OF s(1), of ?l s ?c] dl(1) [of ?c] s(2) forest_wfD(4) [OF assms(1) b] r by simp
      obtain b1 where b1: "deref_db ?f1 ?c = Some b1" "n_refs b1 = 1" using b r s(1) p by (cases "p = ?c") auto
      have own: "int (links ?f1 ?c) < n_refs b1" using l0 b1(2) by simp
      have pe: "pend Map.empty ?f1" using wf1 by (simp add: pend_def)
      obtain f2 t2 where f2: "sdb_ns_reset n ?f1 ?c = Inr f2" "pend Map.empty f2" "deref_db f2 ?c = Some t2" "n_ns t2 = None"
        "int (links f2 ?c) < n_refs t2" "shrinks {?c} ?f1 f2" "\<forall>q. links f2 q \<le> links ?f1 q"
        using ns_reset_ok(1) [OF pe _ b1(1), of n] own assms(4) by auto
      have z: "links (prune Map.empty f2) ?c = 0" using f2(7) l0 by (metis prune_empty le_zero_eq)
      have "n_refs t2 \<le> n_refs b1" using f2(3,6) b1(1) unfolding shrinks_def by fastforce
      then have r2: "n_refs t2 = 1" using f2(5) b1(2) by simp
      have fr: "sdb_free n f2 ?c = Inr (True, f2[?c := None])"
        by (rule sdb_free_leaf [OF f2(3) r2]) (use f2(4) assms(4) in \<open>simp_all add: ns_list_def\<close>)
      have "forest_wf (f2[?c := None])" using pend_release(1) [OF f2(2) _ f2(3,4) z] by (simp add: pend_def)
      moreover have "ns_open (f2[?c := None])"
        using assms(2) f2(3,6) deref_Some [OF f2(3)] unfolding ns_open_def shrinks_def by (fastforce split: if_splits)
      moreover have "sdb_ns_unset n f p nm ro = Inr (True, f2[?c := None])"
        using s Some b1 f2(1) fr by (simp add: sdb_ns_unset_def Let_def)
      ultimately show ?thesis by blast
    qed
  qed
qed

text \<open>
  Setting a name that is taken releases what it held.  \<^verbatim>\<open>sdb_free\<close> releases the namespaces of that as well, whoever else holds
  them: it has to be held elsewhere itself or to have no namespaces.
\<close>

definition ns_replaceable :: "forest \<Rightarrow> nat \<Rightarrow> string \<Rightarrow> bool" where
  "ns_replaceable f p name \<longleftrightarrow>
     (\<forall>s e b. deref_db f p = Some s \<and> List.find (\<lambda>e. ns_hash e = sdb_hash name) (ns_list s) = Some e
        \<and> deref_db f (ns_sdb e) = Some b \<longrightarrow> 1 < n_refs b \<or> ns_list b = [])"

lemma ns_set_replace_leaf:
  assumes "forest_wf f" "ns_open f" "deref_db f p = Some s" "n_ns s = Some l" "deref_db f r = Some c"
    "List.find (\<lambda>e. ns_hash e = sdb_hash name) l = Some e" "ns_sdb e \<noteq> r" "deref_db f (ns_sdb e) = Some b" "n_refs b = 1" "ns_list b = []" "2 \<le> n"
  shows "\<exists>f'. sdb_ns_set n f p name r = Inr (True, f') \<and> forest_wf f' \<and> ns_open f'"
proof -
  let ?d = "ns_sdb e"
  let ?l = "update_first (\<lambda>e. ns_hash e = sdb_hash name) (\<lambda>e. e\<lparr>ns_sdb := r\<rparr>) l"
  have "l \<noteq> []" using assms(6) by auto
  then have dp: "?d \<noteq> p" using assms(3,4,8,10) by auto
  have lt: "p < length f" "r < length f" "?d < length f"
    using deref_Some [OF assms(3)] deref_Some [OF assms(5)] deref_Some [OF assms(8)] by auto
  have w: "ns_entries_ok l" "\<forall>x \<in> set l. deref_db f (ns_sdb x) \<noteq> None" using forest_wfD(1,2) [OF assms(1,3)] assms(4) by auto
  note u = update_first_ok [OF assms(6) w(1)]
  define h where "h = map (\<lambda>q. map_option (\<lambda>t. (if q = p then t\<lparr>n_ns := Some ?l\<rparr> else t)\<lparr>n_refs := n_refs t + (if q = r then 1 else 0)\<rparr>) (f ! q)) [0..<length f]"
  have hd: "deref_db h q = map_option (\<lambda>t. (if q = p then t\<lparr>n_ns := Some ?l\<rparr> else t)\<lparr>n_refs := n_refs t + (if q = r then 1 else 0)\<rparr>) (deref_db f q)" for q
    by (simp add: h_def deref_db_def)
  have len: "length h = length f" by (simp add: h_def)
  have "\<forall>x \<in> set ?l. deref_db f (ns_sdb x) \<noteq> None" using u(3) w(2) assms(5) by fastforce
  moreover have "0 < n_refs t + (if q = r then 1 else 0) \<and> int (length (filter (\<lambda>x. ns_sdb x = q) ?l))
      \<le> int (length (filter (\<lambda>x. ns_sdb x = q) (ns_list s))) + (if q = r then 1 else 0)" if "deref_db f q = Some t" for q t
    using forest_wfD(3) [OF assms(1) that] assms(4) u(1) [of q r] by (auto split: if_splits)
  ultimately have wh: "forest_wf h" using forest_wf_relink [OF assms(1,3) len hd] u(2) by blast
  have dh: "deref_db h ?d = Some b" using hd [of ?d] assms(7,8) dp by (auto simp: option.map_ident)
  have lh: "links h ?d = 0"
  proof -
    have "map (links_of ?d) h = map (links_of ?d) (f[p := Some (s\<lparr>n_ns := Some ?l\<rparr>)])"
      using len deref_Some [OF assms(3)] by (intro nth_equalityI) (auto simp: h_def links_of_def ns_list_def nth_list_update split: option.splits)
    then have "links h ?d = links (f[p := Some (s\<lparr>n_ns := Some ?l\<rparr>)]) ?d" by (simp add: links_def)
    then show ?thesis using links_list_upd [OF assms(3), of ?l s ?d] u(1) [of ?d r] assms(4,7,9) forest_wfD(4) [OF assms(1,8)] by simp
  qed
  note dr = forest_wf_drop [OF wh dh assms(10) lh]
  have free: "sdb_free n f ?d = Inr (True, f[?d := None])" by (rule sdb_free_leaf [OF assms(8-11)])
  let ?f2 = "f[?d := None, r := Some (c\<lparr>n_refs := n_refs c + 1\<rparr>)]"
  obtain s1 where s1: "deref_db ?f2 p = Some s1" "s1 = (if p = r then c\<lparr>n_refs := n_refs c + 1\<rparr> else s)"
    using assms(3) lt dp by auto
  have ns1: "n_ns s1 = Some l" using s1(2) assms(3,4,5) by (auto split: if_splits)
  let ?f3 = "?f2[p := Some (s1\<lparr>n_ns := Some ?l\<rparr>)]"
  have run: "sdb_ns_set n f p name r = Inr (True, ?f3)"
    using assms(3-7) free s1(1) ns1 lt dp by (simp add: sdb_ns_set_def Let_def)
  have "?f3 = h[?d := None]"
  proof (rule forest_eqI)
    show "deref_db ?f3 q = deref_db (h[?d := None]) q" for q
      using hd [of q] s1(2) lt dp len assms(3,5,7) by (auto simp: option.map_ident)
  qed (simp add: len)
  moreover have "ns_open (h[?d := None])" using assms(2) hd unfolding ns_open_def by (auto split: if_splits)
  ultimately show ?thesis using run dr(1) by auto
qed

lemma ns_set_ok:
  assumes "forest_wf f" "ns_open f" "is_live f p" "is_live f r" "name \<noteq> []" "ns_replaceable f p name" "2 \<le> n"
  shows "\<exists>b f'. sdb_ns_set n f p name r = Inr (b, f') \<and> forest_wf f' \<and> ns_open f'"
proof -
  obtain s l where s: "deref_db f p = Some s" "n_ns s = Some l" by (rule ns_open_live [OF assms(2,3)])
  obtain c where c: "deref_db f r = Some c" using assms(4) by (auto simp: is_live_def)
  obtain m where n: "n = Suc m" using assms(7) by (cases n) auto
  show ?thesis
  proof (cases "List.find (\<lambda>e. ns_hash e = sdb_hash name) l")
    case None
    show ?thesis
    proof (cases "n_lock s = 0")
      case True
      obtain f' where f': "sdb_ns_set n f p name r = Inr (True, f')" "forest_wf f'"
        "\<forall>q. deref_db f' q = map_option (\<lambda>t. (if q = p then t\<lparr>n_ns := Some (l @ [\<lparr>ns_name = name, ns_hash = sdb_hash name, ns_sdb = r\<rparr>])\<rparr> else t)
               \<lparr>n_refs := n_refs t + (if q = r then 1 else 0)\<rparr>) (deref_db f q)"
        using ns_set_new [OF assms(1) s c True assms(5) None, of n] by blast
      have "ns_open f'" using assms(2) f'(3) unfolding ns_open_def by (auto split: if_splits)
      then show ?thesis using f' by blast
    next
      case False
      then have "sdb_ns_set n f p name r = Inr (False, f)" using s None by (simp add: sdb_ns_set_def Let_def)
      then show ?thesis using assms(1,2) by blast
    qed
  next
    case (Some e)
    obtain b where b: "deref_db f (ns_sdb e) = Some b"
      using forest_wfD(2) [OF assms(1) s(1)] s(2) find_mem [OF Some] by auto
    consider "ns_sdb e = r" | "ns_sdb e \<noteq> r" "1 < n_refs b" | "ns_sdb e \<noteq> r" "n_refs b = 1" "ns_list b = []"
    proof -
      have "1 < n_refs b \<or> ns_list b = []" using assms(6) s b Some unfolding ns_replaceable_def by force
      moreover have "0 < n_refs b" by (rule forest_wfD(3) [OF assms(1) b])
      ultimately have "1 < n_refs b \<or> n_refs b = 1 \<and> ns_list b = []" by linarith
      then show thesis using that by blast
    qed
    then show ?thesis
    proof cases
      case 1
      then have "sdb_ns_set n f p name r = Inr (False, f)" using s Some by (simp add: sdb_ns_set_def Let_def)
      then show ?thesis using assms(1,2) by blast
    next
      case 2
      obtain f' where f': "sdb_ns_set n f p name r = Inr (True, f')" "forest_wf f'"
        "\<forall>q. deref_db f' q = map_option (\<lambda>t. (if q = p then t\<lparr>n_ns := Some (update_first (\<lambda>e. ns_hash e = sdb_hash name) (\<lambda>e. e\<lparr>ns_sdb := r\<rparr>) l)\<rparr> else t)
               \<lparr>n_refs := n_refs t + (if q = r then 1 else if q = ns_sdb e then -1 else 0)\<rparr>) (deref_db f q)"
        using ns_set_replace [OF assms(1) s c Some 2(1) b 2(2), of m] unfolding n by blast
      have "ns_open f'" using assms(2) f'(3) unfolding ns_open_def by (auto split: if_splits)
      then show ?thesis using f' by blast
    next
      case 3
      then show ?thesis using ns_set_replace_leaf [OF assms(1,2) s c Some 3(1) b 3(2,3) assms(7)] by blast
    qed
  qed
qed

lemma ns_lock_open:
  "sdb_ns_lock n f p lock depth = Inr f' \<Longrightarrow> ns_open f \<Longrightarrow> ns_open f'"
  "ns_lock_all n f es lock depth = Inr f' \<Longrightarrow> ns_open f \<Longrightarrow> ns_open f'"
proof (induction n f p lock depth and n f es lock depth arbitrary: f' and f' rule: sdb_ns_lock_ns_lock_all.induct)
  case (2 n f p lock depth)
  then obtain s where s: "deref_db f p = Some s" by (cases "deref_db f p") auto
  have "ns_open (f[p := Some (s\<lparr>n_lock := lock\<rparr>)])" using 2(3) s unfolding ns_open_def by auto
  then show ?case using 2(1) [OF s refl] 2(2) s by (auto simp: Let_def split: if_splits)
next
  case (4 n f e es lock depth)
  then show ?case by (auto split: sum.splits)
qed auto

section \<open>Properties\<close>

text \<open>
  The forests that a program can make: new databases, and the operations on databases that were not released.  A name that is taken is
  set only if that is safe.
\<close>

inductive ns_reach :: "forest \<Rightarrow> bool" where
  ns_start: "ns_reach []"
| ns_new: "ns_reach f \<Longrightarrow> ns_reach (f @ [Some (blank_node now)])"
| ns_find: "ns_reach f \<Longrightarrow> sdb_ns f p name create = (r, f') \<Longrightarrow> ns_reach f'"
| ns_find_path: "ns_reach f \<Longrightarrow> sdb_ns_path f p path create = (r, f') \<Longrightarrow> ns_reach f'"
| ns_locked: "ns_reach f \<Longrightarrow> is_live f p \<Longrightarrow> sdb_ns_lock n f p lk depth = Inr f' \<Longrightarrow> ns_reach f'"
| ns_put: "ns_reach f \<Longrightarrow> is_live f p \<Longrightarrow> is_live f r \<Longrightarrow> name \<noteq> [] \<Longrightarrow> ns_replaceable f p name \<Longrightarrow> 2 \<le> n \<Longrightarrow>
    sdb_ns_set n f p name r = Inr (b, f') \<Longrightarrow> ns_reach f'"
| ns_drop: "ns_reach f \<Longrightarrow> is_live f p \<Longrightarrow> length f + 2 \<le> n \<Longrightarrow> sdb_ns_unset n f p nm ro = Inr (b, f') \<Longrightarrow> ns_reach f'"

lemma forest_wf_new:
  assumes "forest_wf f"
  shows "forest_wf (f @ [Some (blank_node now)])"
proof (rule forest_wfI)
  have z: "links f (length f) = 0" using links_dead [OF assms] by simp
  have bl: "ns_list (blank_node now) = []" "n_refs (blank_node now) = 1" by (simp_all add: blank_node_def ns_list_def)
  fix q t assume q: "deref_db (f @ [Some (blank_node now)]) q = Some t"
  show "ns_entries_ok (ns_list t)" using q forest_wfD(1) [OF assms] bl by (auto simp: ns_entries_ok_def split: if_splits)
  show "deref_db (f @ [Some (blank_node now)]) (ns_sdb e) \<noteq> None" if "e \<in> set (ns_list t)" for e
    using q that forest_wfD(2) [OF assms] bl by (auto split: if_splits)
  show "0 < n_refs t \<and> int (links (f @ [Some (blank_node now)]) q) \<le> n_refs t"
    using q z forest_wfD(3,4) [OF assms] bl by (auto simp: links_append split: if_splits)
qed

lemma ns_find_ok:
  assumes "forest_wf f" "ns_open f" "sdb_ns f p name create = (r, f')"
  shows "forest_wf f' \<and> ns_open f'"
proof (cases "deref_db f p = None \<or> name = []")
  case True
  then show ?thesis using sdb_ns_none [OF True, of create] assms by simp
next
  case False
  then show ?thesis using sdb_ns_spec(1,3) [OF assms(1) _ _ assms(3)] assms(2) by auto
qed

lemma ns_walk_open:
  assumes "forest_wf f" "ns_open f" "ns_walk f p xs create = (r, f')"
  shows "ns_open f'"
  using assms
proof (induction xs arbitrary: f p)
  case (Cons x xs)
  obtain q f1 where n: "sdb_ns f p x create = (q, f1)" by fastforce
  note w = ns_find_ok [OF Cons.prems(1,2) n]
  show ?case using Cons.IH [of f1] Cons.prems(3) n w by (auto split: option.splits)
qed simp

lemma ns_reach_wf: "ns_reach f \<Longrightarrow> forest_wf f \<and> ns_open f"
proof (induction rule: ns_reach.induct)
  case ns_start
  then show ?case by (simp add: forest_wf_def ns_open_def deref_db_def)
next
  case (ns_new f now)
  then show ?case using forest_wf_new by (auto simp: ns_open_def blank_node_def split: if_splits)
next
  case (ns_find f p name create r f')
  then show ?case using ns_find_ok by blast
next
  case (ns_find_path f p path create r f')
  then show ?case using ns_walk_wf ns_walk_open by (fastforce simp: sdb_ns_path_def split: if_splits)
next
  case (ns_locked f p n lk depth f')
  then show ?case using sdb_ns_lock_wf(1) [of f p n lk depth] ns_lock_open(1) by (auto split: sum.splits)
next
  case (ns_put f p r name n b f')
  then show ?case using ns_set_ok [of f p r name n] by auto
next
  case (ns_drop f p n nm ro b f')
  then show ?case using ns_unset_ok [of f p n nm ro] by auto
qed

text \<open>
  C18.  Namespaces stay well formed, and releasing is safe.  Start from nothing and make databases, look namespaces up and create them
  by name or by path, lock them to any depth, set and unset them, in any order: every reference is to a database that has not been released
  and whose counter covers all references to it, and the hashes by which a list is searched are distinct.  The next operation on
  databases that are not released never touches one that is: unsetting a name, also one that holds the last reference to a tree of
  databases, and setting a new one come to an end (with more fuel than there are databases) in such a state again.  Setting a
  name that is taken is covered when the database that is replaced is also held elsewhere or has no namespaces
  (\<open>ns_set_releases_shared\<close> shows what happens otherwise).
  Names with the same hash are the same name.
\<close>

theorem ns_operations_wf:
  assumes "ns_reach f" "is_live f p" "is_live f r" "name \<noteq> []" "ns_replaceable f p name" "length f + 2 \<le> n"
  shows "forest_wf f \<and> ns_open f
     \<and> (\<exists>b f'. sdb_ns_set n f p name r = Inr (b, f') \<and> ns_reach f')
     \<and> (\<exists>b f'. sdb_ns_unset n f p nm ro = Inr (b, f') \<and> ns_reach f')
     \<and> (case sdb_ns_lock n f p lk depth of Inl x \<Rightarrow> x = Out_Of_Fuel | Inr f' \<Rightarrow> ns_reach f')"
proof -
  have w: "forest_wf f" "ns_open f" using ns_reach_wf [OF assms(1)] by auto
  have n: "2 \<le> n" using assms(6) by simp
  obtain b1 f1 where s: "sdb_ns_set n f p name r = Inr (b1, f1)" using ns_set_ok [OF w assms(2-5) n] by blast
  obtain b2 f2 where u: "sdb_ns_unset n f p nm ro = Inr (b2, f2)" using ns_unset_ok [OF w assms(2,6), of nm ro] by blast
  have "case sdb_ns_lock n f p lk depth of Inl x \<Rightarrow> x = Out_Of_Fuel | Inr f' \<Rightarrow> ns_reach f'"
    using sdb_ns_lock_wf(1) [OF w(1) assms(2), of n lk depth] ns_locked [OF assms(1,2)] by (auto split: sum.splits)
  then show ?thesis using w s u ns_put [OF assms(1-5) n s] ns_drop [OF assms(1,2,6) u] by blast
qed

text \<open>A database with a namespace \<^verbatim>\<open>a\<close> that has a namespace \<^verbatim>\<open>b\<close>, and another database.\<close>

definition tree_forest :: forest where
  "tree_forest = snd (sdb_ns_path [Some (blank_node 0), Some (blank_node 0)] 0 ''a/b'' True)"

lemma tree_forest_reach: "ns_reach tree_forest"
proof -
  have "ns_reach ([] @ [Some (blank_node 0)] @ [Some (blank_node 0)])" using ns_reach.ns_new [OF ns_reach.ns_new [OF ns_reach.ns_start]] by simp
  then show ?thesis using ns_reach.ns_find_path [OF _ prod.collapse [symmetric]] unfolding tree_forest_def by force
qed

lemma tree_forest_nodes:
  "length tree_forest = 4" "is_live tree_forest 0" "is_live tree_forest 1" "\<not> is_live tree_forest 4"
  "map_option n_refs (deref_db tree_forest 2) = Some 1" "map_option n_refs (deref_db tree_forest 3) = Some 1"
  "sdb_ns_path tree_forest 0 ''a/b'' False = (Some 3, tree_forest)"
  by (simp_all add: tree_forest_def sdb_ns_path_def sdb_ns_def deref_db_def blank_node_def ns_list_def sdb_ns_new_def Let_def is_live_def)

theorem ns_operations_wf_witness:
  "\<exists>f'. sdb_ns_unset 6 tree_forest 0 (Some ''a'') None = Inr (True, f') \<and> ns_reach f' \<and> \<not> is_live f' 2 \<and> \<not> is_live f' 3 \<and> is_live f' 1"
proof -
  have "ns_replaceable tree_forest 0 ''c''"
    by (simp add: ns_replaceable_def tree_forest_def sdb_ns_path_def sdb_ns_def deref_db_def blank_node_def ns_list_def sdb_ns_new_def Let_def) code_simp
  then obtain b f' where r: "sdb_ns_unset 6 tree_forest 0 (Some ''a'') None = Inr (b, f')" "ns_reach f'"
    using ns_operations_wf [OF tree_forest_reach tree_forest_nodes(2,3), of "''c''" 6 "Some ''a''" None 0 0] tree_forest_nodes(1) by auto
  have "\<exists>f'. sdb_ns_unset 6 tree_forest 0 (Some ''a'') None = Inr (True, f') \<and> \<not> is_live f' 2 \<and> \<not> is_live f' 3 \<and> is_live f' 1"
    by (simp add: tree_forest_def sdb_ns_path_def sdb_ns_unset_def sdb_ns_def deref_db_def blank_node_def ns_list_def sdb_ns_new_def Let_def is_live_def
       sdb_free_def sdb_free_step_def ns_free_list_def ns_free_step_def numeral_eq_Suc)
  then show ?thesis using r by auto
qed

text \<open>
  C19.  A path that is created once is found again: after \<^verbatim>\<open>sdb_ns_path\<close> with creation returned a database, the same path
  without creation gives that database and changes nothing; every database there was has the contents, the counter and the
  lock it had and its list has only grown, and a database that is new is empty.
\<close>

theorem ns_path_found_again:
  assumes "forest_wf f" "ns_open f" "is_live f p" "sdb_ns_path f p path True = (Some q, f')"
  shows "sdb_ns_path f' p path False = (Some q, f') \<and> extends f f' \<and> is_live f' q
     \<and> (length f \<le> q \<longrightarrow> (\<exists>s. deref_db f' q = Some s \<and> mem_inv (n_s s) \<and> mem_view (n_s s) = Map.empty))"
proof (cases "path = []")
  case True
  then show ?thesis using assms(3,4) by (auto simp: sdb_ns_path_def is_live_def dest: deref_Some)
next
  case False
  then have w: "ns_walk f p (splitc (CHR ''/'') path) True = (Some q, f')" using assms(4) by (simp add: sdb_ns_path_def)
  from ns_walk_create [OF assms(1,2) assms(3) [unfolded is_live_def] w, of False] show ?thesis
    using False sdb_new0_ok by (auto simp: sdb_ns_path_def is_live_def)
qed

text \<open>
  C20.  Setting and unsetting are inverse: giving a database a new name in an unlocked one succeeds, the name then finds it,
  and unsetting that name succeeds and leaves every database, its counter and its list as they were.
\<close>

theorem ns_set_unset:
  assumes "forest_wf f" "ns_open f" "deref_db f p = Some s" "n_lock s = 0" "is_live f r" "name \<noteq> []"
    "\<forall>e \<in> set (ns_list s). ns_hash e \<noteq> sdb_hash name"
  shows "\<exists>f'. sdb_ns_set n f p name r = Inr (True, f') \<and> sdb_ns f' p name create = (Some r, f')
     \<and> sdb_ns_unset (Suc m) f' p (Some name) None = Inr (True, f)"
proof -
  obtain c where c: "deref_db f r = Some c" using assms(5) by (auto simp: is_live_def)
  obtain l where l: "n_ns s = Some l" using assms(2,3) by (auto simp: ns_open_def)
  let ?e = "\<lparr>ns_name = name, ns_hash = sdb_hash name, ns_sdb = r\<rparr>"
  have new: "\<forall>e \<in> set l. ns_hash e \<noteq> sdb_hash name" using assms(7) l by simp
  then have "List.find (\<lambda>e. ns_hash e = sdb_hash name) l = None" by (simp add: find_None_iff)
  from ns_set_new [OF assms(1,3) l c assms(4,6) this, of n]
  obtain f' where f': "sdb_ns_set n f p name r = Inr (True, f')" "forest_wf f'" "length f' = length f"
    and d: "\<And>q. deref_db f' q = map_option (\<lambda>t. (if q = p then t\<lparr>n_ns := Some (l @ [?e])\<rparr> else t)
               \<lparr>n_refs := n_refs t + (if q = r then 1 else 0)\<rparr>) (deref_db f q)" by blast
  obtain s' where s': "deref_db f' p = Some s'" "n_ns s' = Some (l @ [?e])" using d [of p] assms(3) by auto
  have look: "sdb_ns f' p name create = (Some r, f')"
    using extends_find [OF extends_refl s'(1) assms(6), of ?e create] s'(2) find_new [OF new, of ?e] by simp
  let ?P = "\<lambda>e. Some name = Some (ns_name e) \<or> None = Some (ns_sdb e)"
  have ok: "\<forall>e \<in> set l. ns_hash e = sdb_hash (ns_name e)" using forest_wfD(1) [OF assms(1,3)] l by (auto simp: ns_entries_ok_def)
  then have nP: "\<forall>e \<in> set l. \<not> ?P e" using new by auto
  have fnd: "List.find ?P (l @ [?e]) = Some ?e" using find_new [OF nP, of ?e] by simp
  have del: "delete_first ?P (xs @ [?e]) = xs" if "\<forall>e \<in> set xs. \<not> ?P e" for xs using that by (induction xs) auto
  obtain c' where c': "deref_db f' (ns_sdb ?e) = Some c'" "n_refs c' = n_refs c + 1" using d [of r] c by auto
  have "1 < n_refs c'" using c'(2) forest_wfD(3) [OF assms(1) c] by simp
  from ns_unset_shared [OF f'(2) s' fnd c'(1) this, of m]
  obtain f2 where f2: "sdb_ns_unset (Suc m) f' p (Some name) None = Inr (True, f2)" "length f2 = length f'"
    and d2: "\<And>q. deref_db f2 q = map_option (\<lambda>t. (if q = p then t\<lparr>n_ns := Some (delete_first ?P (l @ [?e]))\<rparr> else t)
               \<lparr>n_refs := n_refs t + (if q = ns_sdb ?e then -1 else 0)\<rparr>) (deref_db f' q)" by blast
  have "deref_db f2 q = deref_db f q" for q
    unfolding d2 d del [OF nP] using assms(3) l by (cases "deref_db f q") (auto simp: node_eqs)
  then have "f2 ! i = f ! i" if "i < length f" for i using that f2(2) f'(3) by (metis deref_db_def)
  then have "f2 = f" using f2(2) f'(3) by (intro nth_equalityI) auto
  then show ?thesis using f' look f2(1) by blast
qed

definition example_forest :: forest where
  "example_forest = [Some (blank_node 0), Some (blank_node 0)]"

lemma example_forest_ok:
  "forest_wf example_forest" "ns_open example_forest" "is_live example_forest 0" "is_live example_forest 1"
  "deref_db example_forest 0 = Some (blank_node 0)"
  by (auto simp: forest_wf_def ns_open_def is_live_def example_forest_def deref_db_def nth_Cons' links_def links_of_def ns_entries_ok_def
      blank_node_def ns_list_def split: if_splits)

theorem ns_path_found_again_witness:
  "\<exists>f'. sdb_ns_path example_forest 0 ''a/b'' True = (Some 3, f') \<and> sdb_ns_path f' 0 ''a/b'' False = (Some 3, f')"
proof -
  have "fst (sdb_ns_path example_forest 0 ''a/b'' True) = Some 3"
    by (simp add: sdb_ns_path_def example_forest_def sdb_ns_def deref_db_def blank_node_def ns_list_def sdb_ns_new_def Let_def)
  then obtain f' where f': "sdb_ns_path example_forest 0 ''a/b'' True = (Some 3, f')" by (metis prod.collapse)
  from ns_path_found_again [OF example_forest_ok(1-3) f'] f' show ?thesis by blast
qed

theorem ns_set_unset_witness:
  "\<exists>f'. sdb_ns_set 0 example_forest 0 ''a'' 1 = Inr (True, f') \<and> sdb_ns f' 0 ''a'' False = (Some 1, f')
     \<and> sdb_ns_unset 1 f' 0 (Some ''a'') None = Inr (True, example_forest)"
  using ns_set_unset [OF example_forest_ok(1,2,5) _ example_forest_ok(4), of "''a''" 0 False 0]
  by (simp add: blank_node_def ns_list_def)

section \<open>What modelling showed\<close>

text \<open>Names are compared by hash when they are looked up and by text when they are unset.\<close>

lemma ns_hash_collision:
  "sdb_hash ''cb'' = sdb_hash ''bC''"
  "\<exists>f. sdb_ns example_forest 0 ''cb'' True = (Some 2, f) \<and> sdb_ns f 0 ''bC'' False = (Some 2, f)
     \<and> sdb_ns_unset 5 f 0 (Some ''bC'') None = Inr (False, f)"
proof -
  show h: "sdb_hash ''cb'' = sdb_hash ''bC''" by code_simp
  show "\<exists>f. sdb_ns example_forest 0 ''cb'' True = (Some 2, f) \<and> sdb_ns f 0 ''bC'' False = (Some 2, f)
     \<and> sdb_ns_unset 5 f 0 (Some ''bC'') None = Inr (False, f)"
    using h by (simp add: example_forest_def sdb_ns_def sdb_ns_unset_def deref_db_def blank_node_def ns_list_def sdb_ns_new_def Let_def)
qed

text \<open>
  Setting a name that is taken: the database that is replaced is released with all its namespaces, also one that is held
  elsewhere, here as \<^verbatim>\<open>x\<close> of database 1, which is left with a reference to released memory.
\<close>

lemma ns_set_releases_shared:
  "\<exists>f f'. sdb_ns_set 6 tree_forest 1 ''x'' 3 = Inr (True, f) \<and> sdb_ns_set 6 f 0 ''a'' 1 = Inr (True, f')
     \<and> sdb_ns f' 1 ''x'' False = (Some 3, f') \<and> \<not> is_live f' 3"
  by (simp add: tree_forest_def sdb_ns_path_def sdb_ns_set_def sdb_ns_def deref_db_def blank_node_def ns_list_def sdb_ns_new_def Let_def is_live_def
       sdb_free_def sdb_free_step_def ns_free_list_def ns_free_step_def numeral_eq_Suc)

text \<open>After \<^verbatim>\<open>sdb_ns_reset\<close> there is no list: a namespace that is created is not found again.\<close>

lemma ns_reset_then_create:
  "\<exists>f f1 f2. sdb_ns_reset 5 example_forest 0 = Inr f \<and> sdb_ns f 0 ''a'' True = (Some 2, f1) \<and> sdb_ns f1 0 ''a'' True = (Some 3, f2)"
  by (simp add: example_forest_def sdb_ns_def deref_db_def blank_node_def ns_list_def sdb_ns_new_def Let_def numeral_eq_Suc)

text \<open>Two databases that are namespaces of each other cannot be released: the first is accessed after it was released.\<close>

definition cyclic_forest :: forest where
  "cyclic_forest =
     [Some ((blank_node 0)\<lparr>n_refs := 2, n_ns := Some [\<lparr>ns_name = ''b'', ns_hash = sdb_hash ''b'', ns_sdb = 1\<rparr>]\<rparr>),
      Some ((blank_node 0)\<lparr>n_refs := 2, n_ns := Some [\<lparr>ns_name = ''a'', ns_hash = sdb_hash ''a'', ns_sdb = 0\<rparr>]\<rparr>)]"

lemma ns_free_cycle: "sdb_ns_free 10 cyclic_forest 0 = Inl Use_After_Free"
  by (simp add: cyclic_forest_def sdb_ns_free_def ns_free_list_def ns_free_step_def sdb_free_step_def deref_db_def ns_list_def numeral_eq_Suc Let_def)

end
