(* ===== verification/Text.thy ===== *)
theory Text
  imports Ns Buffer
begin

text \<open>
  The text format: \<^verbatim>\<open>src/text.c\<close>.  A database and its namespaces are written as lines to a descriptor, each namespace
  after a line with its path, and read back by a state machine that removes the escapes in place.

  \<^item> The output is the descriptor \<open>fdesc\<close> of \<open>Buffer\<close>, on which a write may be short.
  \<^item> \<open>load_ctx\<close> is \<^verbatim>\<open>LoadCtx\<close>: the buffer is a list of bytes that is updated by index, the tokens of a path are offsets.
  \<^item> \<^verbatim>\<open>text_save\<close> follows the namespaces, which may be cyclic; its recursion has fuel.
\<close>

section \<open>Saving\<close>

definition cmp_ns :: "SdbNs \<Rightarrow> SdbNs \<Rightarrow> int" where
  "cmp_ns a b = strcmp (ns_name a) (ns_name b)"

definition write_all :: "fdesc \<Rightarrow> bytes \<Rightarrow> bool \<times> fdesc" where
  "write_all fd s = (case sys_write fd s of (n, fd) \<Rightarrow> (n = length s, fd))"

definition escape_flush :: "fdesc \<Rightarrow> bytes \<Rightarrow> bool \<times> fdesc" where
  "escape_flush fd blk = (if blk \<noteq> [] then write_all fd blk else (True, fd))"

text \<open>\<open>blk\<close> are the characters from \<^verbatim>\<open>p\<close> to \<^verbatim>\<open>n\<close>; \<^verbatim>\<open>ch\<close> is 0 for none.\<close>

definition escape_pair :: "fdesc \<Rightarrow> bytes \<Rightarrow> char \<Rightarrow> bool \<times> fdesc" where
  "escape_pair fd blk c =
     (case escape_flush fd blk of (False, fd) \<Rightarrow> (False, fd) | (True, fd) \<Rightarrow> write_all fd [CHR 0x5C, c])"

fun escape_go :: "char \<Rightarrow> fdesc \<Rightarrow> bytes \<Rightarrow> string \<Rightarrow> bool \<times> fdesc" where
  "escape_go ch fd blk [] = escape_flush fd blk"
| "escape_go ch fd blk (c # cs) =
     (if c = CHR 0x5C then
        (case escape_pair fd blk (CHR 0x5C) of (False, fd) \<Rightarrow> (False, fd) | (True, fd) \<Rightarrow> escape_go ch fd [] cs)
      else if c = CHR 0x0D then
        (case escape_pair fd blk (CHR ''r'') of (False, fd) \<Rightarrow> (False, fd) | (True, fd) \<Rightarrow> escape_go ch fd [] cs)
      else if c = CHR 0x0A then
        (case escape_pair fd blk (CHR ''n'') of (False, fd) \<Rightarrow> (False, fd) | (True, fd) \<Rightarrow> escape_go ch fd [] cs)
      else if ch \<noteq> NUL \<and> c = ch then
        (case escape_pair fd blk ch of (False, fd) \<Rightarrow> (False, fd) | (True, fd) \<Rightarrow> escape_go ch fd [] cs)
      else escape_go ch fd (blk @ [c]) cs)"

definition escape_loop :: "fdesc \<Rightarrow> string \<Rightarrow> char \<Rightarrow> bool \<times> fdesc" where
  "escape_loop fd str ch = escape_go ch fd [] str"

fun write_tokens :: "fdesc \<Rightarrow> bool \<Rightarrow> string list \<Rightarrow> bool \<times> fdesc" where
  "write_tokens fd first [] = (True, fd)"
| "write_tokens fd first (t # ts) =
     (case (if first then (True, fd) else write_all fd ''/'') of
        (False, fd) \<Rightarrow> (False, fd)
      | (True, fd) \<Rightarrow>
          (case escape_loop fd t (CHR ''/'') of
             (False, fd) \<Rightarrow> (False, fd)
           | (True, fd) \<Rightarrow> write_tokens fd False ts))"

definition write_path :: "fdesc \<Rightarrow> string list \<Rightarrow> bool \<times> fdesc" where
  "write_path fd path =
     (case write_all fd ''/'' of (False, fd) \<Rightarrow> (False, fd) | (True, fd) \<Rightarrow> write_tokens fd True path)"

definition write_key :: "fdesc \<Rightarrow> string \<Rightarrow> bool \<times> fdesc" where
  "write_key fd k =
     (case (if deref k = CHR ''/'' then write_all fd [CHR 0x5C] else (True, fd)) of
        (False, fd) \<Rightarrow> (False, fd)
      | (True, fd) \<Rightarrow> escape_loop fd k (CHR ''=''))"

definition write_value :: "fdesc \<Rightarrow> string \<Rightarrow> bool \<times> fdesc" where
  "write_value fd v = escape_loop fd v NUL"

text \<open>No entry that is visited has a NULL value.\<close>

definition save_kv_cb :: "string \<Rightarrow> string option \<Rightarrow> fdesc \<Rightarrow> bool \<times> fdesc" where
  "save_kv_cb k v fd =
     (case write_key fd k of
        (False, fd) \<Rightarrow> (False, fd)
      | (True, fd) \<Rightarrow>
          (case write_all fd ''='' of
             (False, fd) \<Rightarrow> (False, fd)
           | (True, fd) \<Rightarrow>
               (case write_value fd (case v of None \<Rightarrow> [] | Some v \<Rightarrow> v) of
                  (False, fd) \<Rightarrow> (False, fd)
                | (True, fd) \<Rightarrow> write_all fd [CHR 0x0A])))"

text \<open>Linked lists made of a list of data, and the data a loop over a linked list visits.\<close>

definition empty_heap :: "'a ls_heap" where
  "empty_heap = \<lparr>hp_data = \<lambda>_. None, hp_n = \<lambda>_. None, hp_p = \<lambda>_. None, hp_next = 0\<rparr>"

definition ls_of :: "'a list \<Rightarrow> 'a ls_heap \<times> ls" where
  "ls_of xs = fold (\<lambda>x (h, l). snd (ls_append h l (Some x))) xs (empty_heap, ls_new)"

definition ls_data :: "'a ls_heap \<times> ls \<Rightarrow> 'a list" where
  "ls_data hl = map (\<lambda>a. the (hp_data (fst hl) a)) (ls_iters (fst hl) (l_head (snd hl)))"

text \<open>The entries of one database: \<^verbatim>\<open>text_save\<close> ignores the results of the callback.\<close>

definition save_entries :: "bool \<Rightarrow> sdb \<Rightarrow> fdesc \<Rightarrow> fdesc \<times> sdb" where
  "save_entries srt s fd =
     (if srt then
        (case sdb_foreach_list empty_heap s True of
           (hl, s) \<Rightarrow> (fold (\<lambda>(k, v) fd. snd (save_kv_cb k v fd)) (ls_data hl) fd, s))
      else (case sdb_foreach (pure_cb save_kv_cb) fd s of (_, fd, s) \<Rightarrow> (fd, s)))"

text \<open>The number that stands for the comparison \<^verbatim>\<open>cmp_ns\<close> in the \<^verbatim>\<open>cmp\<close> field of a list.\<close>

definition CMP_NS :: nat where
  "CMP_NS = 1"

definition save_order :: "bool \<Rightarrow> SdbNs list \<Rightarrow> SdbNs list" where
  "save_order srt es =
     (if srt then (case ls_of es of (h, l) \<Rightarrow> ls_data (snd (ls_sort h l CMP_NS cmp_ns))) else es)"

text \<open>
  \<^verbatim>\<open>text_save\<close>.  When the line between namespaces cannot be written, the list is released: the copy that was sorted, or
  the list of the database itself, which is left dangling.
\<close>

fun text_save :: "nat \<Rightarrow> forest \<Rightarrow> nat \<Rightarrow> fdesc \<Rightarrow> bool \<Rightarrow> string list \<Rightarrow> ns_error + bool \<times> forest \<times> fdesc"
and text_save_ns :: "nat \<Rightarrow> forest \<Rightarrow> SdbNs list \<Rightarrow> fdesc \<Rightarrow> bool \<Rightarrow> string list \<Rightarrow> ns_error + bool \<times> forest \<times> fdesc" where
  "text_save 0 f p fd srt path = Inl Out_Of_Fuel"
| "text_save (Suc n) f p fd srt path =
     (case deref_db f p of
        None \<Rightarrow> Inl Use_After_Free
      | Some s \<Rightarrow>
          (case write_path fd path of
             (False, fd) \<Rightarrow> Inr (False, f, fd)
           | (True, fd) \<Rightarrow>
               (case write_all fd [CHR 0x0A] of
                  (False, fd) \<Rightarrow> Inr (False, f, fd)
                | (True, fd) \<Rightarrow>
                    (case save_entries srt (n_s s) fd of
                       (fd, t) \<Rightarrow>
                         text_save_ns n (f[p := Some (s\<lparr>n_s := t\<rparr>)]) (save_order srt (ns_list s)) fd srt path))))"
| "text_save_ns n f [] fd srt path = Inr (True, f, fd)"
| "text_save_ns n f (e # es) fd srt path =
     (case write_all fd [CHR 0x0A] of
        (False, fd) \<Rightarrow> if srt then Inr (False, f, fd) else Inl Dangling_Pointer
      | (True, fd) \<Rightarrow>
          (case text_save n f (ns_sdb e) fd srt (path @ [ns_name e]) of
             Inl x \<Rightarrow> Inl x
           | Inr (_, f, fd) \<Rightarrow> text_save_ns n f es fd srt path))"

definition sdb_text_save_fd :: "nat \<Rightarrow> forest \<Rightarrow> nat \<Rightarrow> fdesc \<Rightarrow> bool \<Rightarrow> ns_error + bool \<times> forest \<times> fdesc" where
  "sdb_text_save_fd n f p fd srt = text_save n f p fd srt []"

text \<open>\<open>can\<close> says whether the file can be opened for writing and \<open>room\<close> how much the device takes.\<close>

definition sdb_text_save :: "nat \<Rightarrow> bool \<Rightarrow> nat \<Rightarrow> files \<Rightarrow> forest \<Rightarrow> nat \<Rightarrow> string \<Rightarrow> bool \<Rightarrow> ns_error + bool \<times> forest \<times> files" where
  "sdb_text_save n can room fs f p file srt =
     (if \<not> can then Inr (False, f, fs)
      else case sdb_text_save_fd n f p \<lparr>f_data = [], f_off = 0, f_room = room\<rparr> srt of
        Inl x \<Rightarrow> Inl x
      | Inr (r, f, fd) \<Rightarrow> Inr (r, f, fs(file \<mapsto> f_data fd)))"

section \<open>Loading\<close>

datatype load_state = STATE_NEWLINE | STATE_PATH | STATE_KEY | STATE_VALUE

record load_ctx =
  lc_buf :: bytes
  lc_bufsz :: nat
  lc_root_db :: nat
  lc_cur_db :: nat
  lc_pos :: nat
  lc_line_begin :: nat
  lc_token_begin :: nat
  lc_shift :: nat
  lc_path :: "nat list"
  lc_state :: load_state
  lc_unescape :: bool

definition cstr_at :: "bytes \<Rightarrow> nat \<Rightarrow> string" where
  "cstr_at buf off = cstring (drop off buf)"

text \<open>The loop over the tokens; a loop over a linked list ends at data that is 0.\<close>

fun load_tokens :: "bytes \<Rightarrow> nat \<Rightarrow> nat list \<Rightarrow> nat \<Rightarrow> forest \<Rightarrow> nat \<times> forest" where
  "load_tokens buf root [] cur f = (cur, f)"
| "load_tokens buf root (t # ts) cur f =
     (if t = 0 then (cur, f)
      else if cstr_at buf t = [] then load_tokens buf root ts cur f
      else case sdb_ns f cur (cstr_at buf t) True of
        (None, f) \<Rightarrow> (root, f)
      | (Some q, f) \<Rightarrow> load_tokens buf root ts q f)"

definition set_at :: "forest \<Rightarrow> nat \<Rightarrow> string \<Rightarrow> string \<Rightarrow> forest" where
  "set_at f p k v =
     (case deref_db f p of
        None \<Rightarrow> f
      | Some s \<Rightarrow> f[p := Some (s\<lparr>n_s := snd (sdb_set (n_s s) k (Some v) 0)\<rparr>)])"

definition load_process_line :: "forest \<times> load_ctx \<Rightarrow> forest \<times> load_ctx" where
  "load_process_line st =
     (case st of (f, c) \<Rightarrow>
        let c = c\<lparr>lc_unescape := False, lc_buf := (lc_buf c)[lc_pos c - lc_shift c := NUL]\<rparr>;
            (f, c) =
              (case lc_state c of
                 STATE_PATH \<Rightarrow>
                   (case load_tokens (lc_buf c) (lc_root_db c) (lc_path c @ [lc_token_begin c]) (lc_root_db c) f of
                      (q, f) \<Rightarrow> (f, c\<lparr>lc_cur_db := q, lc_path := []\<rparr>))
               | STATE_VALUE \<Rightarrow>
                   let k = cstr_at (lc_buf c) (lc_line_begin c);
                       v = cstr_at (lc_buf c) (lc_token_begin c)
                   in if k = [] \<or> v = [] then (f, c) else (set_at f (lc_cur_db c) k v, c)
               | _ \<Rightarrow> (f, c))
        in (f, c\<lparr>lc_shift := 0, lc_state := STATE_NEWLINE\<rparr>))"

definition unescape_raw_char :: "char \<Rightarrow> char" where
  "unescape_raw_char c =
     (if c = CHR ''s'' then CHR '' '' else if c = CHR ''n'' then CHR 0x0A else if c = CHR ''r'' then CHR 0x0D
      else if c = CHR ''t'' then CHR 0x09 else c)"

definition load_char :: "load_ctx \<Rightarrow> char \<Rightarrow> load_ctx" where
  "load_char c ch =
     (let i = lc_pos c - lc_shift c;
          c = (if lc_unescape c then
                 c\<lparr>lc_buf := (lc_buf c)[i := unescape_raw_char ch], lc_unescape := False\<rparr>
               else if ch = CHR 0x5C then c\<lparr>lc_shift := lc_shift c + 1, lc_unescape := True\<rparr>
               else if lc_state c = STATE_PATH \<and> ch = CHR ''/'' then
                 c\<lparr>lc_buf := (lc_buf c)[i := NUL], lc_path := lc_path c @ [lc_token_begin c],
                   lc_token_begin := lc_pos c + 1, lc_shift := 0\<rparr>
               else if lc_state c = STATE_KEY \<and> ch = CHR ''='' then
                 c\<lparr>lc_buf := (lc_buf c)[i := NUL], lc_token_begin := lc_pos c + 1, lc_shift := 0, lc_state := STATE_VALUE\<rparr>
               else if lc_shift c \<noteq> 0 then c\<lparr>lc_buf := (lc_buf c)[i := ch]\<rparr>
               else c)
      in c\<lparr>lc_pos := lc_pos c + 1\<rparr>)"

definition load_process_single_char :: "forest \<times> load_ctx \<Rightarrow> forest \<times> load_ctx" where
  "load_process_single_char st =
     (case st of (f, c) \<Rightarrow>
        let ch = lc_buf c ! lc_pos c in
        if ch = CHR 0x0A \<or> ch = CHR 0x0D then
          (case load_process_line (f, c) of (f, c) \<Rightarrow> (f, c\<lparr>lc_pos := lc_pos c + 1\<rparr>))
        else if lc_state c = STATE_NEWLINE then
          let c = c\<lparr>lc_line_begin := lc_pos c\<rparr> in
          if ch = CHR ''/'' then (f, c\<lparr>lc_state := STATE_PATH, lc_token_begin := lc_pos c + 1, lc_pos := lc_pos c + 1\<rparr>)
          else (f, load_char (c\<lparr>lc_state := STATE_KEY\<rparr>) ch)
        else (f, load_char c ch))"

lemma load_single_fields [simp]:
  "lc_pos (snd (load_process_single_char st)) = lc_pos (snd st) + 1"
  "lc_bufsz (snd (load_process_single_char st)) = lc_bufsz (snd st)"
  by (auto simp: load_process_single_char_def load_process_line_def load_char_def Let_def split: prod.splits load_state.splits)

function load_loop :: "forest \<times> load_ctx \<Rightarrow> forest \<times> load_ctx" where
  "load_loop st = (if lc_pos (snd st) < lc_bufsz (snd st) then load_loop (load_process_single_char st) else st)"
  by auto
termination
  by (relation "measure (\<lambda>st. lc_bufsz (snd st) - lc_pos (snd st))") auto

declare load_loop.simps [simp del]

text \<open>The last line is copied to a block with room for the terminator.\<close>

definition load_process_final_line :: "forest \<times> load_ctx \<Rightarrow> forest \<times> load_ctx" where
  "load_process_final_line st =
     (case st of (f, c) \<Rightarrow>
        let b = lc_line_begin c; linesz = lc_bufsz c - b in
        load_process_line
          (f, c\<lparr>lc_buf := drop b (lc_buf c) @ [NUL], lc_bufsz := linesz, lc_pos := linesz, lc_token_begin := lc_token_begin c - b,
               lc_path := map (\<lambda>t. t - b) (lc_path c), lc_line_begin := 0\<rparr>))"

definition load_ctx_init :: "nat \<Rightarrow> bytes \<Rightarrow> load_ctx" where
  "load_ctx_init p buf =
     \<lparr>lc_buf = buf, lc_bufsz = length buf, lc_root_db = p, lc_cur_db = p, lc_pos = 0, lc_line_begin = 0, lc_token_begin = 0,
      lc_shift = 0, lc_path = [], lc_state = STATE_NEWLINE, lc_unescape = False\<rparr>"

definition sdb_text_load_buf :: "forest \<Rightarrow> nat \<Rightarrow> bytes \<Rightarrow> bool \<times> forest" where
  "sdb_text_load_buf f p buf =
     (if buf = [] then (True, f)
      else
        let (f, c) = load_loop (f, load_ctx_init p buf) in
        if lc_line_begin c < lc_bufsz c \<and> lc_state c \<noteq> STATE_NEWLINE then (True, fst (load_process_final_line (f, c)))
        else (True, f))"

definition sdb_text_load :: "files \<Rightarrow> forest \<Rightarrow> nat \<Rightarrow> string \<Rightarrow> bool \<times> forest" where
  "sdb_text_load fs f p file =
     (case fs file of
        None \<Rightarrow> (False, f)
      | Some b \<Rightarrow> if b = [] then (False, f) else sdb_text_load_buf f p b)"

section \<open>Reading a line\<close>

text \<open>The escaped form of a string.\<close>

definition esc_char :: "char \<Rightarrow> char \<Rightarrow> string" where
  "esc_char ch c =
     (if c = CHR 0x5C then [CHR 0x5C, CHR 0x5C] else if c = CHR 0x0D then [CHR 0x5C, CHR ''r'']
      else if c = CHR 0x0A then [CHR 0x5C, CHR ''n''] else if ch \<noteq> NUL \<and> c = ch then [CHR 0x5C, ch] else [c])"

definition esc :: "char \<Rightarrow> string \<Rightarrow> string" where
  "esc ch s = concat (map (esc_char ch) s)"

lemma esc_simps [simp]: "esc ch [] = []" "esc ch (c # s) = esc_char ch c @ esc ch s"
  by (simp_all add: esc_def)

text \<open>
  In the middle of a token that begins at \<open>t\<close>: the characters \<open>dec\<close> were read, without escapes they take their
  place at \<open>t\<close>, and \<open>rest\<close> is to come.
\<close>

definition reading :: "load_ctx \<Rightarrow> nat \<Rightarrow> string \<Rightarrow> string \<Rightarrow> bool" where
  "reading c t dec rest \<longleftrightarrow>
     drop (lc_pos c) (lc_buf c) = rest \<and> length (lc_buf c) = lc_bufsz c \<and> \<not> lc_unescape c
     \<and> t + length dec + lc_shift c = lc_pos c \<and> take (length dec) (drop t (lc_buf c)) = dec \<and> lc_pos c \<le> lc_bufsz c"

definition same_line :: "load_ctx \<Rightarrow> load_ctx \<Rightarrow> bool" where
  "same_line c c' \<longleftrightarrow>
     lc_bufsz c' = lc_bufsz c \<and> lc_root_db c' = lc_root_db c \<and> lc_cur_db c' = lc_cur_db c \<and> lc_line_begin c' = lc_line_begin c
     \<and> lc_token_begin c' = lc_token_begin c \<and> lc_path c' = lc_path c \<and> lc_state c' = lc_state c"

lemma same_line_trans: "same_line a b \<Longrightarrow> same_line b c \<Longrightarrow> same_line a c"
  by (simp add: same_line_def)

lemma drop_Cons_nth: "drop n xs = y # ys \<Longrightarrow> xs ! n = y \<and> n < length xs \<and> drop (Suc n) xs = ys"
  by (metis drop_Suc drop_eq_Nil hd_drop_conv_nth linorder_not_le list.discI list.sel(1,3) tl_drop)

lemma load_loop_step:
  assumes "drop (lc_pos c) (lc_buf c) = ch # rest" "length (lc_buf c) = lc_bufsz c"
  shows "load_loop (f, c) = load_loop (load_process_single_char (f, c))" "lc_buf c ! lc_pos c = ch"
proof -
  have "lc_pos c < lc_bufsz c" "lc_buf c ! lc_pos c = ch" using drop_Cons_nth [OF assms(1)] assms(2) by auto
  then show "load_loop (f, c) = load_loop (load_process_single_char (f, c))" "lc_buf c ! lc_pos c = ch"
    by (auto simp: load_loop.simps [of "(f, c)"])
qed

lemma place_char:
  assumes "take n (drop t xs) = dec" "length dec = n" "t + n < length xs"
  shows "take (Suc n) (drop t (xs[t + n := y])) = dec @ [y]" "take (t + n) (xs[t + n := y]) = take (t + n) xs"
proof -
  have "take (Suc n) (drop t (xs[t + n := y])) = take n (drop t (xs[t + n := y])) @ [drop t (xs[t + n := y]) ! n]"
    using assms(3) by (intro take_Suc_conv_app_nth) simp
  then show "take (Suc n) (drop t (xs[t + n := y])) = dec @ [y]" using assms by (simp add: drop_update_swap)
  show "take (t + n) (xs[t + n := y]) = take (t + n) xs" by simp
qed

definition plain :: "load_ctx \<Rightarrow> char \<Rightarrow> bool" where
  "plain c ch \<longleftrightarrow> ch \<noteq> CHR 0x0A \<and> ch \<noteq> CHR 0x0D \<and> ch \<noteq> CHR 0x5C \<and> lc_state c \<noteq> STATE_NEWLINE
     \<and> \<not> (lc_state c = STATE_PATH \<and> ch = CHR ''/'') \<and> \<not> (lc_state c = STATE_KEY \<and> ch = CHR ''='')"

lemma load_plain:
  assumes "reading c t dec (ch # rest)" "plain c ch"
  shows "\<exists>c'. load_loop (f, c) = load_loop (f, c') \<and> reading c' t (dec @ [ch]) rest \<and> same_line c c'
     \<and> take (t + length dec) (lc_buf c') = take (t + length dec) (lc_buf c)"
proof -
  have r: "drop (lc_pos c) (lc_buf c) = ch # rest" "length (lc_buf c) = lc_bufsz c" "\<not> lc_unescape c"
    "t + length dec + lc_shift c = lc_pos c" "take (length dec) (drop t (lc_buf c)) = dec"
    using assms(1) by (auto simp: reading_def)
  note d = drop_Cons_nth [OF r(1)]
  have i: "lc_pos c - lc_shift c = t + length dec" using r(4) by simp
  have step: "load_process_single_char (f, c) = (f, load_char c ch)"
    using d assms(2) by (simp add: load_process_single_char_def plain_def Let_def)
  show ?thesis
  proof (cases "lc_shift c = 0")
    case True
    have lc: "load_char c ch = c\<lparr>lc_pos := lc_pos c + 1\<rparr>" using assms(2) r(3) True by (auto simp: load_char_def plain_def Let_def)
    have "take (Suc (length dec)) (drop t (lc_buf c)) = dec @ [ch]"
      using place_char(1) [OF r(5) refl, of ch] r(4) d True list_update_id [of "lc_buf c" "lc_pos c"] by simp
    then show ?thesis using load_loop_step [OF r(1,2)] step lc r d
      by (intro exI [of _ "load_char c ch"]) (simp add: reading_def same_line_def)
  next
    case False
    have lc: "load_char c ch = c\<lparr>lc_buf := (lc_buf c)[t + length dec := ch], lc_pos := lc_pos c + 1\<rparr>"
      using assms(2) r(3) False i by (auto simp: load_char_def plain_def Let_def)
    have "t + length dec < length (lc_buf c)" using d r(4) by simp
    note pc = place_char [OF r(5) refl this, of ch]
    have "drop (Suc (lc_pos c)) ((lc_buf c)[t + length dec := ch]) = rest" using d r(4) by (simp add: drop_update_cancel)
    then show ?thesis using load_loop_step [OF r(1,2)] step lc r d pc
      by (intro exI [of _ "load_char c ch"]) (simp add: reading_def same_line_def)
  qed
qed

lemma load_pair:
  assumes "reading c t dec (CHR 0x5C # ch # rest)" "lc_state c \<noteq> STATE_NEWLINE" "ch \<noteq> CHR 0x0A" "ch \<noteq> CHR 0x0D"
  shows "\<exists>c'. load_loop (f, c) = load_loop (f, c') \<and> reading c' t (dec @ [unescape_raw_char ch]) rest \<and> same_line c c'
     \<and> take (t + length dec) (lc_buf c') = take (t + length dec) (lc_buf c)"
proof -
  have r: "drop (lc_pos c) (lc_buf c) = CHR 0x5C # ch # rest" "length (lc_buf c) = lc_bufsz c" "\<not> lc_unescape c"
    "t + length dec + lc_shift c = lc_pos c" "take (length dec) (drop t (lc_buf c)) = dec"
    using assms(1) by (auto simp: reading_def)
  note d = drop_Cons_nth [OF r(1)]
  note d2 = drop_Cons_nth [OF d [THEN conjunct2, THEN conjunct2]]
  let ?c1 = "c\<lparr>lc_shift := lc_shift c + 1, lc_unescape := True, lc_pos := lc_pos c + 1\<rparr>"
  let ?c2 = "c\<lparr>lc_shift := lc_shift c + 1, lc_buf := (lc_buf c)[t + length dec := unescape_raw_char ch], lc_pos := lc_pos c + 2\<rparr>"
  have s1: "load_process_single_char (f, c) = (f, ?c1)"
    using d assms(2) r(3) by (simp add: load_process_single_char_def load_char_def Let_def)
  have s2: "load_process_single_char (f, ?c1) = (f, ?c2)"
    using d2 assms(2-4) r(3,4) by (cases c) (auto simp: load_process_single_char_def load_char_def Let_def)
  have "t + length dec < length (lc_buf c)" using d r(4) by simp
  note pc = place_char [OF r(5) refl this, of "unescape_raw_char ch"]
  have dr: "drop (Suc (Suc (lc_pos c))) ((lc_buf c)[t + length dec := unescape_raw_char ch]) = rest" using d2 r(4) by (simp add: drop_update_cancel)
  have "load_loop (f, c) = load_loop (f, ?c2)"
    using load_loop_step(1) [OF r(1,2)] load_loop_step(1) [of ?c1 ch rest f] s1 s2 d r(2) by simp
  then show ?thesis using r d2 pc dr by (intro exI [of _ ?c2]) (auto simp: reading_def same_line_def)
qed

lemma load_esc:
  assumes "reading c t dec (esc ch s @ rest)" "lc_state c \<noteq> STATE_NEWLINE" "lc_state c = STATE_PATH \<Longrightarrow> ch = CHR ''/''"
    "lc_state c = STATE_KEY \<Longrightarrow> ch = CHR ''=''" "ch \<in> {NUL, CHR ''='', CHR ''/''}"
  shows "\<exists>c'. load_loop (f, c) = load_loop (f, c') \<and> reading c' t (dec @ s) rest \<and> same_line c c'
     \<and> take (t + length dec) (lc_buf c') = take (t + length dec) (lc_buf c)"
  using assms
proof (induction s arbitrary: c dec)
  case Nil
  then show ?case by (auto simp: same_line_def)
next
  case (Cons x s)
  have "\<exists>c1. load_loop (f, c) = load_loop (f, c1) \<and> reading c1 t (dec @ [x]) (esc ch s @ rest) \<and> same_line c c1
     \<and> take (t + length dec) (lc_buf c1) = take (t + length dec) (lc_buf c)"
  proof (cases "esc_char ch x = [x]")
    case True
    have "plain c x" using True Cons.prems(2-5) by (auto simp: plain_def esc_char_def split: if_splits)
    then show ?thesis using load_plain [of c t dec x "esc ch s @ rest" f] Cons.prems(1) True by simp
  next
    case False
    then obtain y where y: "esc_char ch x = [CHR 0x5C, y]" "unescape_raw_char y = x" "y \<noteq> CHR 0x0A" "y \<noteq> CHR 0x0D"
      using Cons.prems(5) by (auto simp: esc_char_def unescape_raw_char_def split: if_splits)
    then show ?thesis using load_pair [of c t dec y "esc ch s @ rest" f] Cons.prems(1,2) by simp
  qed
  then obtain c1 where c1: "load_loop (f, c) = load_loop (f, c1)" "reading c1 t (dec @ [x]) (esc ch s @ rest)" "same_line c c1"
    "take (t + length dec) (lc_buf c1) = take (t + length dec) (lc_buf c)" by blast
  have st: "lc_state c1 = lc_state c" using c1(3) by (simp add: same_line_def)
  obtain c2 where c2: "load_loop (f, c1) = load_loop (f, c2)" "reading c2 t ((dec @ [x]) @ s) rest" "same_line c1 c2"
    "take (t + length (dec @ [x])) (lc_buf c2) = take (t + length (dec @ [x])) (lc_buf c1)"
    using Cons.IH [OF c1(2)] Cons.prems(2-5) st by auto
  have "take (t + length dec) (lc_buf c2) = take (t + length dec) (lc_buf c)"
    using arg_cong [OF c2(4), of "take (t + length dec)"] c1(4) by (simp add: min_def)
  then show ?case using c1 c2 same_line_trans by auto
qed

text \<open>A terminated token in the buffer.\<close>

definition tok :: "bytes \<Rightarrow> nat \<Rightarrow> string \<Rightarrow> bool" where
  "tok buf t s \<longleftrightarrow> take (length s + 1) (drop t buf) = s @ [NUL]"

lemma tok_cstr:
  assumes "tok buf t s" "nonul s"
  shows "cstr_at buf t = s"
proof -
  have "drop t buf = s @ NUL # drop (length s + 1) (drop t buf)"
    using append_take_drop_id [of "length s + 1" "drop t buf"] assms(1) by (simp add: tok_def)
  then show ?thesis unfolding cstr_at_def using cstring_terminated [OF assms(2)] by metis
qed

lemma tok_frame:
  assumes "tok buf t s" "take n buf' = take n buf" "t + length s + 1 \<le> n"
  shows "tok buf' t s"
proof -
  have cut: "take (length s + 1) (drop t xs) = drop t (take (t + (length s + 1)) (take n xs))" for xs :: bytes
    using assms(3) by (simp add: take_drop add.commute min_def)
  show ?thesis using assms(1) unfolding tok_def cut assms(2) .
qed

lemma tok_reading:
  assumes "reading c t s rest" "rest \<noteq> []"
  shows "tok ((lc_buf c)[lc_pos c - lc_shift c := NUL]) t s"
    "take (t + length s) ((lc_buf c)[lc_pos c - lc_shift c := NUL]) = take (t + length s) (lc_buf c)"
    "lc_pos c - lc_shift c = t + length s" "t + length s < length (lc_buf c)"
proof -
  have r: "drop (lc_pos c) (lc_buf c) = rest" "t + length s + lc_shift c = lc_pos c" "take (length s) (drop t (lc_buf c)) = s"
    using assms(1) by (auto simp: reading_def)
  have "lc_pos c < length (lc_buf c)" using r(1) assms(2) by (metis drop_eq_Nil linorder_not_le)
  then show lt: "t + length s < length (lc_buf c)" using r(2) by simp
  show i: "lc_pos c - lc_shift c = t + length s" using r(2) by simp
  show "tok ((lc_buf c)[lc_pos c - lc_shift c := NUL]) t s"
    "take (t + length s) ((lc_buf c)[lc_pos c - lc_shift c := NUL]) = take (t + length s) (lc_buf c)"
    unfolding i using place_char [OF r(3) refl lt, of NUL] by (simp_all add: tok_def)
qed

text \<open>Between lines.\<close>

definition at_line :: "load_ctx \<Rightarrow> string \<Rightarrow> bool" where
  "at_line c rest \<longleftrightarrow>
     lc_state c = STATE_NEWLINE \<and> lc_shift c = 0 \<and> \<not> lc_unescape c \<and> lc_path c = [] \<and> drop (lc_pos c) (lc_buf c) = rest
     \<and> length (lc_buf c) = lc_bufsz c \<and> lc_pos c \<le> lc_bufsz c"

lemma load_blank:
  assumes "at_line c (CHR 0x0A # rest)"
  shows "\<exists>c'. load_loop (f, c) = load_loop (f, c') \<and> at_line c' rest \<and> lc_root_db c' = lc_root_db c \<and> lc_cur_db c' = lc_cur_db c"
proof -
  have a: "drop (lc_pos c) (lc_buf c) = CHR 0x0A # rest" "length (lc_buf c) = lc_bufsz c" using assms by (auto simp: at_line_def)
  note d = drop_Cons_nth [OF a(1)]
  let ?c = "c\<lparr>lc_unescape := False, lc_buf := (lc_buf c)[lc_pos c := NUL], lc_shift := 0, lc_state := STATE_NEWLINE, lc_pos := lc_pos c + 1\<rparr>"
  have "load_process_single_char (f, c) = (f, ?c)"
    using d assms by (simp add: load_process_single_char_def load_process_line_def Let_def at_line_def)
  then show ?thesis using load_loop_step(1) [OF a] d assms by (intro exI [of _ ?c]) (auto simp: at_line_def drop_update_cancel)
qed

lemma load_begin:
  assumes "at_line c (ch # rest)" "ch \<noteq> CHR 0x0A" "ch \<noteq> CHR 0x0D" "ch \<noteq> CHR ''/''"
  shows "load_loop (f, c) = load_loop (f, c\<lparr>lc_line_begin := lc_pos c, lc_state := STATE_KEY\<rparr>)"
proof -
  let ?c = "c\<lparr>lc_line_begin := lc_pos c, lc_state := STATE_KEY\<rparr>"
  have a: "drop (lc_pos c) (lc_buf c) = ch # rest" "length (lc_buf c) = lc_bufsz c" "lc_state c = STATE_NEWLINE" using assms(1) by (auto simp: at_line_def)
  have b: "drop (lc_pos ?c) (lc_buf ?c) = ch # rest" "length (lc_buf ?c) = lc_bufsz ?c" using a by auto
  have "load_process_single_char (f, c) = load_process_single_char (f, ?c)"
    using drop_Cons_nth [OF a(1)] assms(2-4) a(3) by (simp add: load_process_single_char_def Let_def)
  then show ?thesis using load_loop_step(1) [OF a(1,2), of f] load_loop_step(1) [OF b, of f] by simp
qed

text \<open>The end of a key.\<close>

lemma load_eq:
  assumes "reading c t k (CHR ''='' # rest)" "lc_state c = STATE_KEY"
  shows "\<exists>c'. load_loop (f, c) = load_loop (f, c') \<and> reading c' (lc_pos c + 1) [] rest \<and> tok (lc_buf c') t k \<and> t + length k + 1 \<le> lc_pos c + 1
     \<and> same_line (c\<lparr>lc_state := STATE_VALUE, lc_token_begin := lc_pos c + 1\<rparr>) c'"
proof -
  have r: "drop (lc_pos c) (lc_buf c) = CHR ''='' # rest" "length (lc_buf c) = lc_bufsz c" "\<not> lc_unescape c" "t + length k + lc_shift c = lc_pos c"
    using assms(1) by (auto simp: reading_def)
  note d = drop_Cons_nth [OF r(1)]
  let ?c = "c\<lparr>lc_buf := (lc_buf c)[lc_pos c - lc_shift c := NUL], lc_token_begin := lc_pos c + 1, lc_shift := 0, lc_state := STATE_VALUE, lc_pos := lc_pos c + 1\<rparr>"
  have "load_process_single_char (f, c) = (f, ?c)"
    using d assms(2) r(3) by (simp add: load_process_single_char_def load_char_def Let_def)
  then have "load_loop (f, c) = load_loop (f, ?c)" using load_loop_step(1) [OF r(1,2)] by simp
  moreover have "reading ?c (lc_pos c + 1) [] rest" using d r by (simp add: reading_def drop_update_cancel)
  moreover have "tok (lc_buf ?c) t k" using tok_reading(1) [OF assms(1)] by simp
  ultimately show ?thesis using r(4) by (intro exI [of _ ?c]) (simp add: same_line_def)
qed

definition key_text :: "string \<Rightarrow> string" where
  "key_text k = (if deref k = CHR ''/'' then [CHR 0x5C] else []) @ esc (CHR ''='') k"

definition kv_text :: "string \<Rightarrow> string \<Rightarrow> string" where
  "kv_text k v = key_text k @ ''='' @ esc NUL v @ [CHR 0x0A]"

lemma load_key:
  assumes "reading c t [] (key_text k @ rest)" "lc_state c = STATE_KEY"
  shows "\<exists>c'. load_loop (f, c) = load_loop (f, c') \<and> reading c' t k rest \<and> same_line c c'"
proof (cases "deref k = CHR ''/''")
  case False
  then show ?thesis using load_esc [of c t "[]" "CHR ''=''" k rest f] assms by (auto simp: key_text_def)
next
  case True
  then obtain k' where k: "k = CHR ''/'' # k'" by (cases k) (auto simp: deref_def)
  have "reading c t [] (CHR 0x5C # CHR ''/'' # (esc (CHR ''='') k' @ rest))"
    using assms(1) True unfolding k key_text_def by (simp add: esc_char_def)
  from load_pair [OF this, of f] obtain c1 where c1: "load_loop (f, c) = load_loop (f, c1)"
    "reading c1 t (''/'') (esc (CHR ''='') k' @ rest)" "same_line c c1"
    using assms(2) by (auto simp: unescape_raw_char_def)
  have "lc_state c1 = STATE_KEY" using c1(3) assms(2) by (simp add: same_line_def)
  then obtain c2 where "load_loop (f, c1) = load_loop (f, c2)" "reading c2 t (''/'' @ k') rest" "same_line c1 c2"
    using load_esc [OF c1(2), of f] by auto
  then show ?thesis using c1 k same_line_trans by auto
qed

lemma kv_text_first:
  obtains ch rest where "kv_text k v = ch # rest" "ch \<noteq> CHR 0x0A" "ch \<noteq> CHR 0x0D" "ch \<noteq> CHR ''/''"
proof (cases k)
  case Nil
  then show ?thesis using that [of "CHR ''=''"] by (simp add: kv_text_def key_text_def deref_def)
next
  case (Cons x k')
  show ?thesis
  proof (cases "x = CHR ''/''")
    case True
    then show ?thesis using Cons that [of "CHR 0x5C"] by (simp add: kv_text_def key_text_def deref_def)
  next
    case False
    have "\<exists>y z. esc_char (CHR ''='') x = y # z \<and> y \<noteq> CHR 0x0A \<and> y \<noteq> CHR 0x0D \<and> y \<noteq> CHR ''/''"
      using False by (simp add: esc_char_def)
    then obtain y z where "esc_char (CHR ''='') x = y # z" "y \<noteq> CHR 0x0A" "y \<noteq> CHR 0x0D" "y \<noteq> CHR ''/''" by blast
    then show ?thesis using Cons False that [of y] by (simp add: kv_text_def key_text_def deref_def)
  qed
qed

lemma load_kv_line:
  assumes "at_line c (kv_text k v @ rest)" "nonul k" "nonul v"
  shows "\<exists>c'. load_loop (f, c) = load_loop ((if k = [] \<or> v = [] then f else set_at f (lc_cur_db c) k v), c') \<and> at_line c' rest
     \<and> lc_root_db c' = lc_root_db c \<and> lc_cur_db c' = lc_cur_db c"
proof -
  let ?c0 = "c\<lparr>lc_line_begin := lc_pos c, lc_state := STATE_KEY\<rparr>" and ?t = "lc_pos c"
  obtain ch r0 where ch: "kv_text k v = ch # r0" "ch \<noteq> CHR 0x0A" "ch \<noteq> CHR 0x0D" "ch \<noteq> CHR ''/''" by (rule kv_text_first)
  have 0: "load_loop (f, c) = load_loop (f, ?c0)" using load_begin [OF _ ch(2-4), of c "r0 @ rest" f] assms(1) ch(1) by simp
  have "reading ?c0 ?t [] (key_text k @ (CHR ''='' # (esc NUL v @ CHR 0x0A # rest)))"
    using assms(1) by (simp add: at_line_def reading_def kv_text_def)
  from load_key [OF this, of f] obtain c1 where c1: "load_loop (f, ?c0) = load_loop (f, c1)" "same_line ?c0 c1"
    "reading c1 ?t k (CHR ''='' # (esc NUL v @ CHR 0x0A # rest))" by auto
  have "lc_state c1 = STATE_KEY" using c1(2) by (simp add: same_line_def)
  from load_eq [OF c1(3) this, of f] obtain c2 where c2: "load_loop (f, c1) = load_loop (f, c2)"
    "reading c2 (lc_pos c1 + 1) [] (esc NUL v @ CHR 0x0A # rest)" "tok (lc_buf c2) ?t k" "?t + length k + 1 \<le> lc_pos c1 + 1"
    "same_line (c1\<lparr>lc_state := STATE_VALUE, lc_token_begin := lc_pos c1 + 1\<rparr>) c2" by blast
  have s2: "lc_state c2 = STATE_VALUE" "lc_token_begin c2 = lc_pos c1 + 1" using c2(5) by (auto simp: same_line_def)
  from load_esc [OF c2(2), of f] s2 obtain c3 where c3: "load_loop (f, c2) = load_loop (f, c3)"
    "reading c3 (lc_pos c1 + 1) v (CHR 0x0A # rest)" "same_line c2 c3" "take (lc_pos c1 + 1) (lc_buf c3) = take (lc_pos c1 + 1) (lc_buf c2)" by auto
  let ?buf = "(lc_buf c3)[lc_pos c3 - lc_shift c3 := NUL]"
  note tr = tok_reading [OF c3(2)]
  have "take (lc_pos c1 + 1) ?buf = take (lc_pos c1 + 1) (lc_buf c2)"
    using arg_cong [OF tr(2), of "take (lc_pos c1 + 1)"] c3(4) by (simp add: min_def)
  then have tk: "tok ?buf ?t k" using tok_frame [OF c2(3)] c2(4) by blast
  have tv: "tok ?buf (lc_pos c1 + 1) v" using tr(1) by simp
  have sl: "lc_state c3 = STATE_VALUE" "lc_token_begin c3 = lc_pos c1 + 1" "lc_line_begin c3 = ?t" "lc_cur_db c3 = lc_cur_db c"
    "lc_root_db c3 = lc_root_db c" "lc_path c3 = []" "lc_bufsz c3 = lc_bufsz c"
    using c3(3) c2(5) c1(2) s2 assms(1) by (auto simp: same_line_def at_line_def)
  have r3: "drop (lc_pos c3) (lc_buf c3) = CHR 0x0A # rest" "length (lc_buf c3) = lc_bufsz c3" using c3(2) by (auto simp: reading_def)
  note d = drop_Cons_nth [OF r3(1)]
  let ?c4 = "c3\<lparr>lc_unescape := False, lc_buf := ?buf, lc_shift := 0, lc_state := STATE_NEWLINE, lc_pos := lc_pos c3 + 1\<rparr>"
  let ?f = "if k = [] \<or> v = [] then f else set_at f (lc_cur_db c) k v"
  have "load_process_single_char (f, c3) = (?f, ?c4)"
    using d tok_cstr [OF tk assms(2)] tok_cstr [OF tv assms(3)] sl by (simp add: load_process_single_char_def load_process_line_def Let_def)
  then have "load_loop (f, c) = load_loop (?f, ?c4)" using load_loop_step(1) [OF r3] 0 c1(1) c2(1) c3(1) by simp
  moreover have "at_line ?c4 rest" using d r3 sl tr(3,4) by (simp add: at_line_def drop_update_cancel)
  ultimately show ?thesis using sl by (intro exI [of _ ?c4]) simp
qed

text \<open>The walk that a path line makes, on the names themselves.\<close>

fun names_walk :: "nat \<Rightarrow> string list \<Rightarrow> nat \<Rightarrow> forest \<Rightarrow> nat \<times> forest" where
  "names_walk root [] cur f = (cur, f)"
| "names_walk root (x # xs) cur f =
     (if x = [] then names_walk root xs cur f
      else case sdb_ns f cur x True of
        (None, f) \<Rightarrow> (root, f)
      | (Some q, f) \<Rightarrow> names_walk root xs q f)"

lemma load_tokens_names:
  assumes "list_all2 (\<lambda>t x. t \<noteq> 0 \<and> cstr_at buf t = x) ts xs"
  shows "load_tokens buf root ts cur f = names_walk root xs cur f"
  using assms by (induction ts xs arbitrary: cur f rule: list_all2_induct) (auto split: prod.splits option.splits)

fun path_body :: "string list \<Rightarrow> string" where
  "path_body [] = []"
| "path_body [t] = esc (CHR ''/'') t"
| "path_body (t # u # ts) = esc (CHR ''/'') t @ ''/'' @ path_body (u # ts)"

definition path_text :: "string list \<Rightarrow> string" where
  "path_text ts = ''/'' @ path_body ts @ [CHR 0x0A]"

definition toks_before :: "bytes \<Rightarrow> nat \<Rightarrow> nat list \<Rightarrow> string list \<Rightarrow> bool" where
  "toks_before buf n ts xs \<longleftrightarrow> list_all2 (\<lambda>t x. t \<noteq> 0 \<and> tok buf t x \<and> t + length x + 1 \<le> n) ts xs"

lemma toks_frame:
  assumes "toks_before buf n ts xs" "take n buf' = take n buf" "n \<le> m"
  shows "toks_before buf' m ts xs"
  using assms(1) unfolding toks_before_def
  by (rule list_all2_mono) (use tok_frame [OF _ assms(2)] assms(3) in auto)

lemma toks_names:
  assumes "toks_before buf n ts xs" "\<forall>x \<in> set xs. nonul x"
  shows "list_all2 (\<lambda>t x. t \<noteq> 0 \<and> cstr_at buf t = x) ts xs"
  using assms unfolding toks_before_def list_all2_conv_all_nth by (auto intro: tok_cstr)

text \<open>The end of a path line.\<close>

lemma load_path_end:
  assumes "reading c tb t (CHR 0x0A # rest)" "lc_state c = STATE_PATH" "lc_token_begin c = tb" "tb \<noteq> 0"
    "toks_before (lc_buf c) tb (lc_path c) ds" "\<forall>x \<in> set (ds @ [t]). nonul x" "names_walk (lc_root_db c) (ds @ [t]) (lc_root_db c) f = (q, f')"
  shows "\<exists>c'. load_loop (f, c) = load_loop (f', c') \<and> at_line c' rest \<and> lc_root_db c' = lc_root_db c \<and> lc_cur_db c' = q"
proof -
  let ?buf = "(lc_buf c)[lc_pos c - lc_shift c := NUL]"
  note tr = tok_reading [OF assms(1)]
  have "take tb ?buf = take tb (lc_buf c)" using arg_cong [OF tr(2), of "take tb"] by (simp add: min_def)
  then have "toks_before ?buf (tb + length t + 1) (lc_path c) ds" using toks_frame [OF assms(5)] by simp
  then have "toks_before ?buf (tb + length t + 1) (lc_path c @ [tb]) (ds @ [t])"
    using tr(1) assms(4) by (simp add: toks_before_def list_all2_appendI)
  from load_tokens_names [OF toks_names [OF this assms(6)]]
  have w: "load_tokens ?buf (lc_root_db c) (lc_path c @ [tb]) (lc_root_db c) f = (q, f')" using assms(7) by simp
  have r: "drop (lc_pos c) (lc_buf c) = CHR 0x0A # rest" "length (lc_buf c) = lc_bufsz c" using assms(1) by (auto simp: reading_def)
  note d = drop_Cons_nth [OF r(1)]
  let ?c = "c\<lparr>lc_unescape := False, lc_buf := ?buf, lc_cur_db := q, lc_path := [], lc_shift := 0, lc_state := STATE_NEWLINE, lc_pos := lc_pos c + 1\<rparr>"
  have "load_process_single_char (f, c) = (f', ?c)"
    using d w assms(2,3) by (simp add: load_process_single_char_def load_process_line_def Let_def)
  then have "load_loop (f, c) = load_loop (f', ?c)" using load_loop_step(1) [OF r] by simp
  moreover have "at_line ?c rest" using d r tr(3,4) by (simp add: at_line_def drop_update_cancel)
  ultimately show ?thesis by (intro exI [of _ ?c]) simp
qed

lemma load_path_tokens:
  assumes "reading c tb [] (path_body (t # ts) @ CHR 0x0A # rest)" "lc_state c = STATE_PATH" "lc_token_begin c = tb" "tb \<noteq> 0"
    "toks_before (lc_buf c) tb (lc_path c) ds" "\<forall>x \<in> set (ds @ t # ts). nonul x" "names_walk (lc_root_db c) (ds @ t # ts) (lc_root_db c) f = (q, f')"
  shows "\<exists>c'. load_loop (f, c) = load_loop (f', c') \<and> at_line c' rest \<and> lc_root_db c' = lc_root_db c \<and> lc_cur_db c' = q"
  using assms
proof (induction ts arbitrary: t c tb ds)
  case Nil
  then obtain c1 where c1: "load_loop (f, c) = load_loop (f, c1)" "reading c1 tb t (CHR 0x0A # rest)" "same_line c c1" "take tb (lc_buf c1) = take tb (lc_buf c)"
    using load_esc [of c tb "[]" "CHR ''/''" t "CHR 0x0A # rest" f] by auto
  have s: "lc_state c1 = STATE_PATH" "lc_token_begin c1 = tb" "lc_root_db c1 = lc_root_db c" "lc_path c1 = lc_path c"
    using c1(3) Nil.prems(2,3) by (auto simp: same_line_def)
  have "toks_before (lc_buf c1) tb (lc_path c1) ds" using toks_frame [OF Nil.prems(5) c1(4)] s(4) by simp
  from load_path_end [OF c1(2) s(1,2) Nil.prems(4) this] show ?case using Nil.prems(6,7) s(3) c1(1) by simp
next
  case (Cons u ts)
  let ?R = "path_body (u # ts) @ CHR 0x0A # rest"
  obtain c1 where c1: "load_loop (f, c) = load_loop (f, c1)" "reading c1 tb t (CHR ''/'' # ?R)" "same_line c c1" "take tb (lc_buf c1) = take tb (lc_buf c)"
    using load_esc [of c tb "[]" "CHR ''/''" t "CHR ''/'' # ?R" f] Cons.prems(1,2) by auto
  have s: "lc_state c1 = STATE_PATH" "lc_token_begin c1 = tb" "lc_root_db c1 = lc_root_db c" "lc_path c1 = lc_path c"
    using c1(3) Cons.prems(2,3) by (auto simp: same_line_def)
  let ?buf = "(lc_buf c1)[lc_pos c1 - lc_shift c1 := NUL]" and ?tb = "lc_pos c1 + 1"
  let ?c2 = "c1\<lparr>lc_buf := ?buf, lc_path := lc_path c1 @ [tb], lc_token_begin := ?tb, lc_shift := 0, lc_pos := ?tb\<rparr>"
  have r: "drop (lc_pos c1) (lc_buf c1) = CHR ''/'' # ?R" "length (lc_buf c1) = lc_bufsz c1" "\<not> lc_unescape c1" "tb + length t + lc_shift c1 = lc_pos c1"
    using c1(2) by (auto simp: reading_def)
  note d = drop_Cons_nth [OF r(1)]
  have "load_process_single_char (f, c1) = (f, ?c2)"
    using d s(1,2) r(3) by (simp add: load_process_single_char_def load_char_def Let_def)
  then have l2: "load_loop (f, c) = load_loop (f, ?c2)" using load_loop_step(1) [OF r(1,2)] c1(1) by simp
  have rd: "reading ?c2 ?tb [] ?R" using d r by (simp add: reading_def drop_update_cancel)
  note tr = tok_reading [OF c1(2)]
  have "take tb ?buf = take tb (lc_buf c)" using arg_cong [OF tr(2), of "take tb"] c1(4) by (simp add: min_def)
  then have "toks_before ?buf ?tb (lc_path c) ds" using toks_frame [OF Cons.prems(5)] r(4) by simp
  then have tb: "toks_before (lc_buf ?c2) ?tb (lc_path ?c2) (ds @ [t])"
    using tr(1) Cons.prems(4) s(4) r(4) by (simp add: toks_before_def list_all2_appendI)
  show ?case using Cons.IH [OF rd _ _ _ tb] Cons.prems(6,7) s l2 by simp
qed

lemma load_path_line:
  assumes "at_line c (path_text xs @ rest)" "\<forall>x \<in> set xs. nonul x" "names_walk (lc_root_db c) xs (lc_root_db c) f = (q, f')"
  shows "\<exists>c'. load_loop (f, c) = load_loop (f', c') \<and> at_line c' rest \<and> lc_root_db c' = lc_root_db c \<and> lc_cur_db c' = q"
proof -
  obtain t ts where t: "path_body xs = path_body (t # ts)" "\<forall>x \<in> set (t # ts). nonul x" "names_walk (lc_root_db c) (t # ts) (lc_root_db c) f = (q, f')"
  proof (cases xs)
    case Nil
    then show ?thesis using that [of "[]" "[]"] assms(3) by simp
  next
    case (Cons t ts)
    then show ?thesis using that [of t ts] assms(2,3) by simp
  qed
  let ?c = "c\<lparr>lc_line_begin := lc_pos c, lc_state := STATE_PATH, lc_token_begin := lc_pos c + 1, lc_pos := lc_pos c + 1\<rparr>"
  have a: "drop (lc_pos c) (lc_buf c) = CHR ''/'' # (path_body (t # ts) @ CHR 0x0A # rest)" "length (lc_buf c) = lc_bufsz c" "lc_state c = STATE_NEWLINE"
    using assms(1) t(1) by (auto simp: at_line_def path_text_def)
  note d = drop_Cons_nth [OF a(1)]
  have "load_process_single_char (f, c) = (f, ?c)" using d a(3) by (simp add: load_process_single_char_def Let_def)
  then have l: "load_loop (f, c) = load_loop (f, ?c)" using load_loop_step(1) [OF a(1,2)] by simp
  have "reading ?c (lc_pos c + 1) [] (path_body (t # ts) @ CHR 0x0A # rest)" using assms(1) d by (simp add: reading_def at_line_def)
  from load_path_tokens [OF this, of "[]" f] show ?thesis using t(2,3) l assms(1) by (simp add: toks_before_def at_line_def)
qed

section \<open>Lines\<close>

datatype text_line = Path_Line "string list" | Kv_Line string string | Blank_Line

fun line_text :: "text_line \<Rightarrow> string" where
  "line_text (Path_Line xs) = path_text xs"
| "line_text (Kv_Line k v) = kv_text k v"
| "line_text Blank_Line = [CHR 0x0A]"

fun line_ok :: "text_line \<Rightarrow> bool" where
  "line_ok (Path_Line xs) = (\<forall>x \<in> set xs. nonul x)"
| "line_ok (Kv_Line k v) = (nonul k \<and> nonul v)"
| "line_ok Blank_Line = True"

text \<open>What a line does: it selects a namespace, or sets a key in the selected one.\<close>

fun exec_line :: "nat \<Rightarrow> text_line \<Rightarrow> nat \<times> forest \<Rightarrow> nat \<times> forest" where
  "exec_line root (Path_Line xs) st = names_walk root xs root (snd st)"
| "exec_line root (Kv_Line k v) st = (fst st, if k = [] \<or> v = [] then snd st else set_at (snd st) (fst st) k v)"
| "exec_line root Blank_Line st = st"

definition lines_text :: "text_line list \<Rightarrow> string" where
  "lines_text ls = concat (map line_text ls)"

lemma load_line:
  assumes "at_line c (line_text l @ rest)" "line_ok l"
  shows "\<exists>c'. load_loop (f, c) = load_loop (snd (exec_line (lc_root_db c) l (lc_cur_db c, f)), c') \<and> at_line c' rest
     \<and> lc_root_db c' = lc_root_db c \<and> lc_cur_db c' = fst (exec_line (lc_root_db c) l (lc_cur_db c, f))"
proof (cases l)
  case (Path_Line xs)
  then show ?thesis using load_path_line [of c xs rest f "fst (names_walk (lc_root_db c) xs (lc_root_db c) f)" "snd (names_walk (lc_root_db c) xs (lc_root_db c) f)"] assms by simp
next
  case (Kv_Line k v)
  then show ?thesis using load_kv_line [of c k v rest f] assms by (auto split: if_splits)
next
  case Blank_Line
  then show ?thesis using load_blank [of c rest f] assms by simp
qed

lemma load_lines:
  assumes "at_line c (lines_text ls @ rest)" "\<forall>l \<in> set ls. line_ok l"
  shows "\<exists>c'. load_loop (f, c) = load_loop (snd (fold (exec_line (lc_root_db c)) ls (lc_cur_db c, f)), c') \<and> at_line c' rest"
  using assms
proof (induction ls arbitrary: c f)
  case Nil
  then show ?case by (auto simp: lines_text_def)
next
  case (Cons l ls)
  have "at_line c (line_text l @ (lines_text ls @ rest))" using Cons.prems(1) by (simp add: lines_text_def)
  from load_line [OF this, of f] Cons.prems(2)
  obtain c1 where c1: "load_loop (f, c) = load_loop (snd (exec_line (lc_root_db c) l (lc_cur_db c, f)), c1)" "at_line c1 (lines_text ls @ rest)"
    "lc_root_db c1 = lc_root_db c" "lc_cur_db c1 = fst (exec_line (lc_root_db c) l (lc_cur_db c, f))" by auto
  from Cons.IH [OF c1(2), of "snd (exec_line (lc_root_db c) l (lc_cur_db c, f))"] show ?case using Cons.prems(2) c1 by simp
qed

lemma load_buf_lines:
  assumes "\<forall>l \<in> set ls. line_ok l"
  shows "sdb_text_load_buf f p (lines_text ls) = (True, snd (fold (exec_line p) ls (p, f)))"
proof (cases "lines_text ls = []")
  case True
  have "line_text l \<noteq> []" for l by (cases l) (auto simp: path_text_def kv_text_def)
  then have "ls = []" using True by (cases ls) (auto simp: lines_text_def)
  then show ?thesis by (simp add: sdb_text_load_buf_def lines_text_def)
next
  case False
  let ?c = "load_ctx_init p (lines_text ls)" and ?f = "snd (fold (exec_line p) ls (p, f))"
  have "at_line ?c (lines_text ls @ [])" by (simp add: at_line_def load_ctx_init_def)
  from load_lines [OF this assms, of f] obtain c' where c': "load_loop (f, ?c) = load_loop (?f, c')" "at_line c' []"
    by (auto simp: load_ctx_init_def)
  have "\<not> lc_pos c' < lc_bufsz c'" using c'(2) by (auto simp: at_line_def)
  then have "load_loop (?f, c') = (?f, c')" by (simp add: load_loop.simps [of "(?f, c')"])
  then show ?thesis using c' False by (simp add: sdb_text_load_buf_def at_line_def)
qed

section \<open>Trees of databases\<close>

text \<open>What a text holds: the entries of a database and its namespaces, in the order of the lines.\<close>

datatype dump = Dump "(string \<times> string) list" "(string \<times> dump) list"

fun dump_body :: "string list \<Rightarrow> dump \<Rightarrow> text_line list" where
  "dump_body path (Dump kvs subs) =
     map (\<lambda>(k, v). Kv_Line k v) kvs
     @ concat (map (\<lambda>(x, d). [Blank_Line, Path_Line (path @ [x])] @ dump_body (path @ [x]) d) subs)"

definition dump_lines :: "string list \<Rightarrow> dump \<Rightarrow> text_line list" where
  "dump_lines path d = Path_Line path # dump_body path d"

fun dump_wf :: "dump \<Rightarrow> bool" where
  "dump_wf (Dump kvs subs) \<longleftrightarrow>
     distinct (map fst kvs) \<and> length kvs \<le> 2147483647
     \<and> (\<forall>(k, v) \<in> set kvs. k \<noteq> [] \<and> v \<noteq> [] \<and> nonul k \<and> nonul v \<and> set_ok k v)
     \<and> distinct (map (\<lambda>x. sdb_hash (fst x)) subs) \<and> (\<forall>x \<in> set subs. fst x \<noteq> [] \<and> nonul (fst x) \<and> dump_wf (snd x))"

text \<open>A database at \<open>p\<close> that has these contents, with all its namespaces at addresses from \<open>lo\<close>, in any order.\<close>

fun stored :: "nat \<Rightarrow> forest \<Rightarrow> nat \<Rightarrow> dump \<Rightarrow> bool" where
  "stored lo f p (Dump kvs subs) \<longleftrightarrow>
     lo \<le> p \<and> (\<exists>s l l'. deref_db f p = Some s \<and> mem_inv (n_s s) \<and> mem_view (n_s s) = map_of kvs \<and> n_ns s = Some l \<and> ns_entries_ok l
       \<and> mset l' = mset l \<and> list_all2 (\<lambda>e x. ns_name e = fst x \<and> stored lo f (ns_sdb e) (snd x)) l' subs)"

lemma stored_frame:
  assumes "stored lo f p d" "\<And>q. lo \<le> q \<Longrightarrow> q < length f \<Longrightarrow> deref_db f' q = deref_db f q" "lo' \<le> lo"
  shows "stored lo' f' p d"
  using assms
proof (induction d arbitrary: p)
  case (Dump kvs subs)
  obtain s l l' where s: "lo \<le> p" "deref_db f p = Some s" "mem_inv (n_s s)" "mem_view (n_s s) = map_of kvs" "n_ns s = Some l" "ns_entries_ok l"
    "mset l' = mset l" "list_all2 (\<lambda>e x. ns_name e = fst x \<and> stored lo f (ns_sdb e) (snd x)) l' subs"
    using Dump.prems(1) by auto
  have "deref_db f' p = Some s" using Dump.prems(2) [OF s(1)] s(2) deref_Some [OF s(2)] by simp
  moreover have "list_all2 (\<lambda>e x. ns_name e = fst x \<and> stored lo' f' (ns_sdb e) (snd x)) l' subs"
    using s(8) unfolding list_all2_conv_all_nth
    using Dump.IH [OF _ _ _ Dump.prems(2,3)] by (metis nth_mem snds.intros prod.collapse)
  ultimately show ?case using s Dump.prems(3) by auto
qed

section \<open>Loading a tree\<close>

text \<open>Lists of namespaces only get longer.\<close>

definition grows :: "forest \<Rightarrow> forest \<Rightarrow> bool" where
  "grows f f' \<longleftrightarrow>
     (\<forall>p s. deref_db f p = Some s \<longrightarrow> (\<exists>s' es. deref_db f' p = Some s' \<and> n_ns s' = map_option (\<lambda>l. l @ es) (n_ns s)))"

lemma grows_refl [simp]: "grows f f"
proof -
  have "n_ns s = map_option (\<lambda>l. l @ []) (n_ns s)" for s :: node by (simp add: option.map_ident)
  then show ?thesis unfolding grows_def by blast
qed

lemma grows_find:
  assumes "grows f f'" "sdb_ns f p x c = (Some q, f)"
  shows "sdb_ns f' p x c' = (Some q, f')"
proof -
  obtain s where s: "deref_db f p = Some s" "x \<noteq> []" using assms(2) sdb_ns_none [of f p x c] by fastforce
  obtain s' es where s': "deref_db f' p = Some s'" "n_ns s' = map_option (\<lambda>l. l @ es) (n_ns s)" using assms(1) s(1) unfolding grows_def by blast
  have "\<exists>e. List.find (\<lambda>e. ns_hash e = sdb_hash x) (ns_list s) = Some e \<and> ns_sdb e = q"
    using assms(2) s(1,2)
  proof (cases rule: sdb_ns_cases)
    case (3 path)
    then have "length f = length f + 1" by (metis length_append_singleton length_list_update Suc_eq_plus1)
    then show ?thesis by simp
  qed auto
  then obtain e where e: "List.find (\<lambda>e. ns_hash e = sdb_hash x) (ns_list s) = Some e" "ns_sdb e = q" by blast
  have app: "List.find P xs = Some y \<Longrightarrow> List.find P (xs @ ys) = Some y" for P and xs ys :: "SdbNs list" and y
    by (induction xs) (auto split: if_splits)
  have "List.find (\<lambda>e. ns_hash e = sdb_hash x) (ns_list s') = Some e"
    using s'(2) e(1) app by (cases "n_ns s") (auto simp: ns_list_def)
  then show ?thesis using s'(1) s(2) e(2) by (simp add: sdb_ns_def Let_def)
qed

text \<open>The namespace at a path.\<close>

fun at_path :: "forest \<Rightarrow> nat \<Rightarrow> string list \<Rightarrow> nat \<Rightarrow> bool" where
  "at_path f p [] q = (p = q)"
| "at_path f p (x # xs) q = (\<exists>r. sdb_ns f p x False = (Some r, f) \<and> at_path f r xs q)"

lemma at_path_grows: "at_path f p xs q \<Longrightarrow> grows f f' \<Longrightarrow> at_path f' p xs q"
  by (induction xs arbitrary: p) (auto dest: grows_find)

lemma at_path_append: "at_path f p (xs @ ys) q \<longleftrightarrow> (\<exists>r. at_path f p xs r \<and> at_path f r ys q)"
  by (induction xs arbitrary: p) auto

lemma at_path_names: "at_path f p xs q \<Longrightarrow> \<forall>x \<in> set xs. x \<noteq> []"
  using sdb_ns_none by (induction xs arbitrary: p) fastforce+

lemma names_walk_path:
  assumes "at_path f p xs q"
  shows "names_walk root (xs @ ys) p f = names_walk root ys q f"
  using assms
proof (induction xs arbitrary: p)
  case (Cons x xs)
  obtain r where r: "sdb_ns f p x False = (Some r, f)" "at_path f r xs q" using Cons.prems by auto
  have "sdb_ns f p x True = (Some r, f)" "x \<noteq> []"
    using grows_find [OF _ r(1), of f True] at_path_names [OF Cons.prems] by auto
  then show ?case using Cons.IH [OF r(2)] by simp
qed simp

text \<open>Databases that were made by \<^verbatim>\<open>sdb_ns\<close> have no directory and no lock.\<close>

definition plain_forest :: "forest \<Rightarrow> bool" where
  "plain_forest f \<longleftrightarrow> forest_wf f \<and> (\<forall>p s. deref_db f p = Some s \<longrightarrow> n_dir s = None \<and> n_lock s = 0 \<and> n_ns s \<noteq> None)"

lemma plain_new:
  assumes "plain_forest f" "deref_db f p = Some s" "n_ns s = Some l" "x \<noteq> []" "\<forall>e \<in> set l. ns_hash e \<noteq> sdb_hash x"
  defines "e \<equiv> \<lparr>ns_name = x, ns_hash = sdb_hash x, ns_sdb = length f\<rparr>"
  shows "\<exists>f'. sdb_ns f p x True = (Some (length f), f') \<and> plain_forest f' \<and> length f' = length f + 1
     \<and> deref_db f' p = Some (s\<lparr>n_ns := Some (l @ [e])\<rparr>) \<and> (\<forall>q < length f. q \<noteq> p \<longrightarrow> deref_db f' q = deref_db f q)
     \<and> (\<exists>c now. deref_db f' (length f) = Some c \<and> n_s c = sdb_new0 now \<and> n_ns c = Some []) \<and> grows f f'"
proof -
  have w: "forest_wf f" "n_dir s = None" "n_lock s = 0" using assms(1,2) by (auto simp: plain_forest_def)
  have p: "p < length f" using deref_Some [OF assms(2)] by simp
  have nf: "List.find (\<lambda>e. ns_hash e = sdb_hash x) l = None" using assms(5) by (simp add: find_None_iff)
  let ?c = "(blank_node (s_now (n_s s)))\<lparr>n_path := None, n_name := Some x\<rparr>"
  define f' where "f' = f[p := Some (s\<lparr>n_ns := Some (l @ [e])\<rparr>)] @ [Some ?c]"
  have n: "sdb_ns f p x True = (Some (length f), f')"
    using assms(2-4) w nf by (simp add: sdb_ns_def Let_def sdb_ns_new_def f'_def e_def)
  have d: "deref_db f' q = (if q = length f then Some ?c else if q = p then Some (s\<lparr>n_ns := Some (l @ [e])\<rparr>) else deref_db f q)" for q
    using p by (simp add: f'_def)
  have "plain_forest f'" unfolding plain_forest_def d
    using sdb_ns_spec(1) [OF w(1) assms(2,4) n] assms(1,2) by (auto simp: plain_forest_def blank_node_def)
  moreover have "grows f f'" unfolding grows_def d
    using assms(2,3) by (auto simp: option.map_ident dest: deref_Some intro: exI [of _ "[e]"] exI [of _ "[]"])
  ultimately show ?thesis using n d p by (auto simp: f'_def blank_node_def)
qed

text \<open>Setting keys changes only the database itself.\<close>

lemma plain_upd:
  assumes "plain_forest f" "deref_db f p = Some s"
  shows "plain_forest (f[p := Some (s\<lparr>n_s := t\<rparr>)])" "grows f (f[p := Some (s\<lparr>n_s := t\<rparr>)])"
proof -
  show "plain_forest (f[p := Some (s\<lparr>n_s := t\<rparr>)])"
    using assms forest_wf_upd [of f p s "s\<lparr>n_s := t\<rparr>"] by (auto simp: plain_forest_def)
  show "grows f (f[p := Some (s\<lparr>n_s := t\<rparr>)])"
    using assms(2) by (auto simp: grows_def option.map_ident intro: exI [of _ "[]"])
qed

lemma exec_kvs:
  assumes "deref_db f p = Some s" "\<forall>(k, v) \<in> set kvs. k \<noteq> [] \<and> v \<noteq> []"
  shows "fold (exec_line root) (map (\<lambda>(k, v). Kv_Line k v) kvs) (p, f)
     = (p, f[p := Some (s\<lparr>n_s := fold (\<lambda>(k, v) d. snd (sdb_set d k (Some v) 0)) kvs (n_s s)\<rparr>)])"
  using assms
proof (induction kvs arbitrary: f s)
  case Nil
  then have "f[p := Some s] = f" using deref_Some [OF Nil.prems(1)] by (metis list_update_id)
  then show ?case by simp
next
  case (Cons x kvs)
  obtain k v where x: "x = (k, v)" by fastforce
  let ?s = "s\<lparr>n_s := snd (sdb_set (n_s s) k (Some v) 0)\<rparr>"
  have "exec_line root (Kv_Line k v) (p, f) = (p, f[p := Some ?s])" using Cons.prems x by (auto simp: set_at_def)
  moreover have "deref_db (f[p := Some ?s]) p = Some ?s" using deref_Some [OF Cons.prems(1)] by simp
  ultimately show ?case using Cons.IH [of "f[p := Some ?s]" ?s] Cons.prems(2) x by simp
qed

lemma grows_trans:
  assumes "grows f g" "grows g h"
  shows "grows f h"
  unfolding grows_def
proof (intro allI impI)
  fix p s assume "deref_db f p = Some s"
  then obtain s1 es where 1: "deref_db g p = Some s1" "n_ns s1 = map_option (\<lambda>l. l @ es) (n_ns s)" using assms(1) unfolding grows_def by blast
  obtain s2 es' where 2: "deref_db h p = Some s2" "n_ns s2 = map_option (\<lambda>l. l @ es') (n_ns s1)" using assms(2) 1(1) unfolding grows_def by blast
  have "n_ns s2 = map_option (\<lambda>l. l @ (es @ es')) (n_ns s)" using 1(2) 2(2) by (cases "n_ns s") auto
  then show "\<exists>s' es. deref_db h p = Some s' \<and> n_ns s' = map_option (\<lambda>l. l @ es) (n_ns s)" using 2(1) by blast
qed

text \<open>The state while the namespaces of \<open>p\<close> are loaded: those in \<open>dn\<close> are done.\<close>

definition subs_done :: "nat \<Rightarrow> forest \<Rightarrow> nat \<Rightarrow> node \<Rightarrow> (string \<times> dump) list \<Rightarrow> bool" where
  "subs_done lo f p s dn \<longleftrightarrow>
     plain_forest f \<and> p < lo \<and> lo \<le> length f
     \<and> (\<exists>l. deref_db f p = Some (s\<lparr>n_ns := Some l\<rparr>) \<and> list_all2 (\<lambda>e x. ns_name e = fst x \<and> stored lo f (ns_sdb e) (snd x)) l dn)"

definition loads :: "nat \<Rightarrow> string list \<Rightarrow> dump \<Rightarrow> bool" where
  "loads root path d \<longleftrightarrow>
     (\<forall>f p s. plain_forest f \<and> at_path f root path p \<and> deref_db f p = Some s \<and> mem_inv (n_s s) \<and> mem_view (n_s s) = Map.empty
        \<and> ht_count (s_ht (n_s s)) = 0 \<and> n_ns s = Some [] \<longrightarrow>
        (\<exists>cur f'. fold (exec_line root) (dump_body path d) (p, f) = (cur, f') \<and> stored p f' p d \<and> plain_forest f' \<and> grows f f'
           \<and> length f \<le> length f' \<and> (\<forall>q < length f. q \<noteq> p \<longrightarrow> deref_db f' q = deref_db f q)))"

lemma load_sub:
  assumes "subs_done lo f p s dn" "at_path f root path p" "loads root (path @ [x]) d" "x \<noteq> []"
    "\<forall>y \<in> set dn. sdb_hash (fst y) \<noteq> sdb_hash x"
  shows "\<exists>cur' f'. fold (exec_line root) ([Blank_Line, Path_Line (path @ [x])] @ dump_body (path @ [x]) d) (cur, f) = (cur', f')
     \<and> subs_done lo f' p s (dn @ [(x, d)]) \<and> grows f f' \<and> length f \<le> length f' \<and> (\<forall>q < length f. q \<noteq> p \<longrightarrow> deref_db f' q = deref_db f q)"
proof -
  obtain l where b: "plain_forest f" "p < lo" "lo \<le> length f" "deref_db f p = Some (s\<lparr>n_ns := Some l\<rparr>)"
    "list_all2 (\<lambda>e x. ns_name e = fst x \<and> stored lo f (ns_sdb e) (snd x)) l dn"
    using assms(1) by (auto simp: subs_done_def)
  have "forest_wf f" using b(1) by (simp add: plain_forest_def)
  from forest_wfD(1) [OF this b(4)] have "\<forall>e \<in> set l. ns_hash e = sdb_hash (ns_name e)" by (simp add: ns_entries_ok_def ns_list_def)
  moreover have "\<forall>e \<in> set l. \<exists>y \<in> set dn. ns_name e = fst y"
    using b(5) by (fastforce simp: list_all2_conv_all_nth in_set_conv_nth)
  ultimately have new: "\<forall>e \<in> set l. ns_hash e \<noteq> sdb_hash x" using assms(5) by fastforce
  let ?q = "length f" and ?e = "\<lparr>ns_name = x, ns_hash = sdb_hash x, ns_sdb = length f\<rparr>"
  obtain f1 c now where n: "sdb_ns f p x True = (Some ?q, f1)" "plain_forest f1" "length f1 = length f + 1"
    "deref_db f1 p = Some (s\<lparr>n_ns := Some (l @ [?e])\<rparr>)" "\<forall>q < length f. q \<noteq> p \<longrightarrow> deref_db f1 q = deref_db f q"
    "deref_db f1 ?q = Some c" "n_s c = sdb_new0 now" "n_ns c = Some []" "grows f f1"
    using plain_new [OF b(1,4) _ assms(4) new] by (auto simp del: deref_upd deref_append)
  have "names_walk root (path @ [x]) root f = (?q, f1)" using names_walk_path [OF assms(2), of root "[x]"] n(1) assms(4) by simp
  then have run: "fold (exec_line root) ([Blank_Line, Path_Line (path @ [x])] @ ls) (cur, f) = fold (exec_line root) ls (?q, f1)" for ls by simp
  have "sdb_ns f1 p x False = (Some ?q, f1)"
    using sdb_ns_spec(4) [of f p _ x True "Some ?q" f1 ?q False] b(1,4) assms(4) n(1) by (auto simp: plain_forest_def ns_open_def)
  then have pt: "at_path f1 root (path @ [x]) ?q" using at_path_grows [OF assms(2) n(9)] by (auto simp: at_path_append)
  obtain cur' f' where f': "fold (exec_line root) (dump_body (path @ [x]) d) (?q, f1) = (cur', f')" "stored ?q f' ?q d" "plain_forest f'"
    "grows f1 f'" "length f1 \<le> length f'" "\<forall>q < length f1. q \<noteq> ?q \<longrightarrow> deref_db f' q = deref_db f1 q"
    using assms(3) n(2,6-8) pt sdb_new0_ok unfolding loads_def by metis
  have same: "\<forall>q < length f. q \<noteq> p \<longrightarrow> deref_db f' q = deref_db f q" using f'(6) n(3,5) by auto
  have "list_all2 (\<lambda>e x. ns_name e = fst x \<and> stored lo f' (ns_sdb e) (snd x)) l dn"
    using b(5) by (rule list_all2_mono) (use stored_frame [of lo f _ _ f' lo] same b(2) in auto)
  moreover have "stored lo f' ?q d" using stored_frame [OF f'(2), of f' lo] b(3) by simp
  ultimately have "list_all2 (\<lambda>e x. ns_name e = fst x \<and> stored lo f' (ns_sdb e) (snd x)) (l @ [?e]) (dn @ [(x, d)])"
    by (simp add: list_all2_appendI)
  moreover have "deref_db f' p = Some (s\<lparr>n_ns := Some (l @ [?e])\<rparr>)" using f'(6) n(3,4) b(2,3) by simp
  ultimately have "subs_done lo f' p s (dn @ [(x, d)])"
    unfolding subs_done_def using f'(3,5) n(3) b(2,3) by auto
  then show ?thesis using run f'(1,5) n(3) grows_trans [OF n(9) f'(4)] same by auto
qed

lemma load_subs:
  assumes "subs_done lo f p s dn" "at_path f root path p" "\<forall>x \<in> set subs. loads root (path @ [fst x]) (snd x) \<and> fst x \<noteq> []"
    "distinct (map (\<lambda>x. sdb_hash (fst x)) (dn @ subs))"
  shows "\<exists>cur' f'. fold (exec_line root) (concat (map (\<lambda>(x, d). [Blank_Line, Path_Line (path @ [x])] @ dump_body (path @ [x]) d) subs)) (cur, f) = (cur', f')
     \<and> subs_done lo f' p s (dn @ subs) \<and> grows f f' \<and> length f \<le> length f' \<and> (\<forall>q < length f. q \<noteq> p \<longrightarrow> deref_db f' q = deref_db f q)"
  using assms
proof (induction subs arbitrary: f dn cur)
  case Nil
  then show ?case by simp
next
  case (Cons y subs)
  obtain x d where y: "y = (x, d)" by fastforce
  have "\<forall>y \<in> set dn. sdb_hash (fst y) \<noteq> sdb_hash x" using Cons.prems(4) y by (auto simp: image_iff)
  from load_sub [OF Cons.prems(1,2) _ _ this, of d cur] Cons.prems(3) y
  obtain c1 f1 where 1: "fold (exec_line root) ([Blank_Line, Path_Line (path @ [x])] @ dump_body (path @ [x]) d) (cur, f) = (c1, f1)"
    "subs_done lo f1 p s (dn @ [(x, d)])" "grows f f1" "length f \<le> length f1" "\<forall>q < length f. q \<noteq> p \<longrightarrow> deref_db f1 q = deref_db f q" by auto
  obtain c2 f2 where 2: "fold (exec_line root) (concat (map (\<lambda>(x, d). [Blank_Line, Path_Line (path @ [x])] @ dump_body (path @ [x]) d) subs)) (c1, f1) = (c2, f2)"
    "subs_done lo f2 p s ((dn @ [(x, d)]) @ subs)" "grows f1 f2" "length f1 \<le> length f2" "\<forall>q < length f1. q \<noteq> p \<longrightarrow> deref_db f2 q = deref_db f1 q"
    using Cons.IH [OF 1(2) at_path_grows [OF Cons.prems(2) 1(3)], of c1] Cons.prems(3,4) y by auto
  have "fold (exec_line root) (concat (map (\<lambda>(x, d). [Blank_Line, Path_Line (path @ [x])] @ dump_body (path @ [x]) d) (y # subs))) (cur, f) = (c2, f2)"
    using 1(1) 2(1) y by simp
  moreover have "\<forall>q < length f. q \<noteq> p \<longrightarrow> deref_db f2 q = deref_db f q" using 1(4,5) 2(5) by auto
  ultimately show ?case using 2(2,4) 1(4) grows_trans [OF 1(3) 2(3)] y by (intro exI [of _ c2] exI [of _ f2]) simp
qed

lemma loads_all: "dump_wf d \<Longrightarrow> loads root path d"
proof (induction d arbitrary: path)
  case (Dump kvs subs)
  show ?case unfolding loads_def
  proof (intro allI impI, elim conjE)
    fix f p s
    assume a: "plain_forest f" "at_path f root path p" "deref_db f p = Some s" "mem_inv (n_s s)" "mem_view (n_s s) = Map.empty"
      "ht_count (s_ht (n_s s)) = 0" "n_ns s = Some []"
    let ?t = "fold (\<lambda>(k, v) d. snd (sdb_set d k (Some v) 0)) kvs (n_s s)"
    let ?s = "s\<lparr>n_s := ?t\<rparr>" and ?f = "f[p := Some (s\<lparr>n_s := fold (\<lambda>(k, v) d. snd (sdb_set d k (Some v) 0)) kvs (n_s s)\<rparr>)]"
    have kv: "\<forall>(k, v) \<in> set kvs. k \<noteq> [] \<and> v \<noteq> []" "\<forall>(k, v) \<in> set kvs. v \<noteq> []" "\<forall>(k, v) \<in> set kvs. set_ok k v" "distinct (map fst kvs)"
      "length kvs \<le> 2147483647" using Dump.prems by auto
    have t: "mem_inv ?t" "mem_view ?t = map_of kvs"
      using mem_store.puts_view [OF a(4) _ kv(3)] a(5,6) kv(5) fold_put_map_of [OF kv(4,2), of Map.empty] by auto
    note pu = plain_upd [OF a(1,3), of ?t]
    have p: "p < length f" using deref_Some [OF a(3)] by simp
    have nss: "?s\<lparr>n_ns := Some []\<rparr> = ?s" using a(7) by (cases s) simp
    have "subs_done (length f) ?f p ?s []" unfolding subs_done_def using pu(1) p nss by auto
    moreover have "\<forall>x \<in> set subs. loads root (path @ [fst x]) (snd x) \<and> fst x \<noteq> []"
      using Dump.IH Dump.prems by (auto simp: snds.simps)
    ultimately obtain cur f' where f': "fold (exec_line root) (concat (map (\<lambda>(x, d). [Blank_Line, Path_Line (path @ [x])] @ dump_body (path @ [x]) d) subs)) (p, ?f) = (cur, f')"
      "subs_done (length f) f' p ?s ([] @ subs)" "grows ?f f'" "length ?f \<le> length f'" "\<forall>q < length ?f. q \<noteq> p \<longrightarrow> deref_db f' q = deref_db ?f q"
      using load_subs [of "length f" ?f p ?s "[]" root path subs p] at_path_grows [OF a(2) pu(2)] Dump.prems by auto
    obtain l where l: "plain_forest f'" "deref_db f' p = Some (?s\<lparr>n_ns := Some l\<rparr>)"
      "list_all2 (\<lambda>e x. ns_name e = fst x \<and> stored (length f) f' (ns_sdb e) (snd x)) l subs"
      using f'(2) by (auto simp: subs_done_def)
    have "list_all2 (\<lambda>e x. ns_name e = fst x \<and> stored p f' (ns_sdb e) (snd x)) l subs"
      using l(3) by (rule list_all2_mono) (use stored_frame [of "length f" f' _ _ f' p] p in auto)
    moreover have "ns_entries_ok l" using forest_wfD(1) [of f' p] l(1,2) by (auto simp: plain_forest_def ns_list_def)
    ultimately have "stored p f' p (Dump kvs subs)" using l(2) t by auto
    moreover have "fold (exec_line root) (dump_body path (Dump kvs subs)) (p, f) = (cur, f')" using f'(1) exec_kvs [OF a(3) kv(1), of root] by simp
    ultimately show "\<exists>cur f'. fold (exec_line root) (dump_body path (Dump kvs subs)) (p, f) = (cur, f') \<and> stored p f' p (Dump kvs subs) \<and> plain_forest f' \<and> grows f f'
           \<and> length f \<le> length f' \<and> (\<forall>q < length f. q \<noteq> p \<longrightarrow> deref_db f' q = deref_db f q)"
      using l(1) grows_trans [OF pu(2) f'(3)] f'(4,5) by auto
  qed
qed

section \<open>Writing\<close>

text \<open>A descriptor at the end of its file, and what appending to it gives.\<close>

definition at_end :: "fdesc \<Rightarrow> bool" where
  "at_end fd \<longleftrightarrow> f_off fd = length (f_data fd)"

definition app :: "fdesc \<Rightarrow> bytes \<Rightarrow> fdesc" where
  "app fd s = fd\<lparr>f_data := f_data fd @ s, f_off := f_off fd + length s, f_room := f_room fd - length s\<rparr>"

lemma app_simps [simp]: "app fd [] = fd" "app (app fd a) b = app fd (a @ b)" "f_room (app fd s) = f_room fd - length s"
  "at_end (app fd s) = at_end fd" "f_data (app fd s) = f_data fd @ s"
  by (simp_all add: app_def at_end_def)

text \<open>A writer that puts out \<open>s\<close> when there is room.\<close>

definition emits :: "(fdesc \<Rightarrow> bool \<times> fdesc) \<Rightarrow> bytes \<Rightarrow> bool" where
  "emits W s \<longleftrightarrow> (\<forall>fd. at_end fd \<and> length s \<le> f_room fd \<longrightarrow> W fd = (True, app fd s))"

lemma emitsD: "emits W s \<Longrightarrow> at_end fd \<Longrightarrow> length s \<le> f_room fd \<Longrightarrow> W fd = (True, app fd s)"
  by (simp add: emits_def)

lemma emits_skip: "emits (\<lambda>fd. (True, fd)) []"
  by (simp add: emits_def)

lemma emits_write: "emits (\<lambda>fd. write_all fd s) s"
  by (auto simp: emits_def write_all_def sys_write_def transfer_def padded_def app_def at_end_def Let_def)

lemma emits_seq:
  assumes "emits V a" "emits W b"
  shows "emits (\<lambda>fd. case V fd of (False, fd) \<Rightarrow> (False, fd) | (True, fd) \<Rightarrow> W fd) (a @ b)"
  using assms by (auto simp: emits_def)

lemma emits_flush: "emits (\<lambda>fd. escape_flush fd blk) blk"
  using emits_write [of blk] emits_skip by (cases blk) (auto simp: escape_flush_def)

lemma emits_pair: "emits (\<lambda>fd. escape_pair fd blk c) (blk @ [CHR 0x5C, c])"
  unfolding escape_pair_def by (rule emits_seq [OF emits_flush emits_write])

lemma emits_go: "emits (\<lambda>fd. escape_go ch fd blk s) (blk @ esc ch s)"
proof (induction s arbitrary: blk)
  case Nil
  then show ?case using emits_flush by simp
next
  case (Cons c s)
  have step: "emits (\<lambda>fd. case escape_pair fd blk y of (False, fd) \<Rightarrow> (False, fd) | (True, fd) \<Rightarrow> escape_go ch fd [] s) (blk @ [CHR 0x5C, y] @ esc ch s)" for y
    using emits_seq [OF emits_pair [of blk y] Cons.IH [of "[]"]] by simp
  show ?case using step [of "CHR 0x5C"] step [of "CHR ''r''"] step [of "CHR ''n''"] step [of ch] Cons.IH [of "blk @ [c]"]
    by (auto simp: esc_char_def)
qed

lemma emits_escape: "emits (\<lambda>fd. escape_loop fd s ch) (esc ch s)"
  using emits_go [of ch "[]" s] by (simp add: escape_loop_def)

lemma emits_tokens: "emits (\<lambda>fd. write_tokens fd first ts) ((if first \<or> ts = [] then [] else ''/'') @ path_body ts)"
proof (induction ts arbitrary: first)
  case Nil
  then show ?case using emits_skip by simp
next
  case (Cons t ts)
  have 1: "emits (\<lambda>fd. if first then (True, fd) else write_all fd ''/'') (if first then [] else ''/'')"
    using emits_skip emits_write by simp
  have "path_body (t # ts) = esc (CHR ''/'') t @ ((if ts = [] then [] else ''/'') @ path_body ts)" by (cases ts) auto
  then show ?case using emits_seq [OF 1 emits_seq [OF emits_escape Cons.IH [of False]]] by simp
qed

lemma emits_path: "emits (\<lambda>fd. write_path fd ts) (''/'' @ path_body ts)"
  using emits_seq [OF emits_write [of "''/''"] emits_tokens [of True ts]] by (simp add: write_path_def)

lemma emits_kv: "emits (save_kv_cb k (Some v)) (kv_text k v)"
proof -
  have "emits (\<lambda>fd. if deref k = CHR ''/'' then write_all fd [CHR 0x5C] else (True, fd)) (if deref k = CHR ''/'' then [CHR 0x5C] else [])"
    using emits_skip emits_write by simp
  from emits_seq [OF this emits_escape] have key: "emits (\<lambda>fd. write_key fd k) (key_text k)" by (simp add: write_key_def key_text_def)
  have val: "emits (\<lambda>fd. write_value fd v) (esc NUL v)" using emits_escape by (simp add: write_value_def)
  have "save_kv_cb k (Some v) = (\<lambda>fd. case write_key fd k of (False, fd) \<Rightarrow> (False, fd) | (True, fd) \<Rightarrow>
     (case write_all fd ''='' of (False, fd) \<Rightarrow> (False, fd) | (True, fd) \<Rightarrow>
       (case write_value fd v of (False, fd) \<Rightarrow> (False, fd) | (True, fd) \<Rightarrow> write_all fd [CHR 0x0A])))"
    by (simp only: save_kv_cb_def fun_eq_iff option.case) blast
  then show ?thesis using emits_seq [OF key emits_seq [OF emits_write [of "''=''"] emits_seq [OF val emits_write [of "[CHR 0x0A]"]]]] by (simp add: kv_text_def)
qed

definition kvs_text :: "(string \<times> string) list \<Rightarrow> string" where
  "kvs_text kvs = concat (map (\<lambda>(k, v). kv_text k v) kvs)"

lemma kvs_text_simps [simp]: "kvs_text [] = []" "kvs_text ((k, v) # kvs) = kv_text k v @ kvs_text kvs"
  by (simp_all add: kvs_text_def)

lemma kvs_text_lines: "kvs_text kvs = lines_text (map (\<lambda>(k, v). Kv_Line k v) kvs)"
  by (induction kvs) (auto simp: lines_text_def)

lemma walk_list_kvs:
  "at_end fd \<Longrightarrow> length (kvs_text kvs) \<le> f_room fd \<Longrightarrow> walk_list save_kv_cb kvs fd = (True, app fd (kvs_text kvs))"
proof (induction kvs arbitrary: fd)
  case (Cons x kvs)
  obtain k v where x: "x = (k, v)" by fastforce
  have "save_kv_cb k (Some v) fd = (True, app fd (kv_text k v))" using emitsD [OF emits_kv] Cons.prems x by simp
  then show ?case using Cons.IH [of "app fd (kv_text k v)"] Cons.prems x by simp
qed simp

lemma fold_kvs:
  "at_end fd \<Longrightarrow> length (kvs_text kvs) \<le> f_room fd \<Longrightarrow> fold (\<lambda>(k, v) fd. snd (save_kv_cb k v fd)) (map (\<lambda>(k, v). (k, Some v)) kvs) fd = app fd (kvs_text kvs)"
proof (induction kvs arbitrary: fd)
  case (Cons x kvs)
  obtain k v where x: "x = (k, v)" by fastforce
  have "save_kv_cb k (Some v) fd = (True, app fd (kv_text k v))" using emitsD [OF emits_kv] Cons.prems x by simp
  then show ?case using Cons.IH [of "app fd (kv_text k v)"] Cons.prems x by simp
qed simp

text \<open>The entries of a database in memory in the order in which they are written.\<close>

lemma save_entries_kvs:
  assumes "mem_inv s"
  shows "\<exists>kvs. distinct (map fst kvs) \<and> map_of kvs = mem_view s
     \<and> (\<forall>fd x. at_end fd \<and> length (kvs_text kvs) \<le> f_room fd \<longrightarrow> save_entries srt (s\<lparr>s_pos := x\<rparr>) fd = (app fd (kvs_text kvs), s\<lparr>s_pos := 0\<rparr>))"
proof -
  have fe: "sdb_foreach (pure_cb f) u (s\<lparr>s_pos := x\<rparr>) = (case walk_list f (mem_entries s) u of (b, u) \<Rightarrow> (b, u, s\<lparr>s_pos := 0\<rparr>))" for f u x
    using foreach_mem [of "s\<lparr>s_pos := x\<rparr>" f u] assms by (simp add: mem_entries_def)
  show ?thesis
  proof (cases srt)
    case False
    then have "\<forall>fd x. at_end fd \<and> length (kvs_text (mem_entries s)) \<le> f_room fd \<longrightarrow>
        save_entries srt (s\<lparr>s_pos := x\<rparr>) fd = (app fd (kvs_text (mem_entries s)), s\<lparr>s_pos := 0\<rparr>)"
      using walk_list_kvs [of _ "mem_entries s"] by (simp add: save_entries_def fe [unfolded case_prod_beta] case_prod_beta)
    then show ?thesis using mem_entries_ok(1,2) [OF assms] by blast
  next
    case True
    obtain h l s' where r: "sdb_foreach_list empty_heap s True = ((h, l), s')" by (metis prod.collapse)
    obtain as kvs where k: "ls_inv h l as" "map (hp_data h) as = map (\<lambda>(k, v). Some (k, Some v)) kvs" "distinct (map fst kvs)" "map_of kvs = mem_view s"
      using foreach_list_kvs [OF assms r] by blast
    have "None \<notin> set (contents h as)" unfolding contents_def k(2) by auto
    then have "ls_iters h (l_head l) = as" using iters_all [OF k(1)] by blast
    then have data: "ls_data (h, l) = map (\<lambda>(k, v). (k, Some v)) kvs"
      using arg_cong [OF k(2), of "map the"] by (simp add: ls_data_def comp_def case_prod_beta)
    have eq: "sdb_foreach_list empty_heap (s\<lparr>s_pos := x\<rparr>) True = ((h, l), s\<lparr>s_pos := 0\<rparr>)" for x
      using r fe [of sdb_foreach_list_cb "(empty_heap, ls_newf True)" x] fe [of sdb_foreach_list_cb "(empty_heap, ls_newf True)" "s_pos s"]
      by (auto simp: sdb_foreach_list_def split: prod.splits)
    have "\<forall>fd x. at_end fd \<and> length (kvs_text kvs) \<le> f_room fd \<longrightarrow> save_entries srt (s\<lparr>s_pos := x\<rparr>) fd = (app fd (kvs_text kvs), s\<lparr>s_pos := 0\<rparr>)"
      using True eq data fold_kvs by (simp add: save_entries_def)
    then show ?thesis using k(3,4) by blast
  qed
qed

section \<open>Saving a tree\<close>

interpretation nsc: cmp_order cmp_ns
proof unfold_locales
  show "cmp_ns x y \<le> 0 \<longleftrightarrow> 0 \<le> cmp_ns y x" for x y
    using strcmp_antisym [of "ns_name x" "ns_name y"] by (simp add: cmp_ns_def)
  show "cmp_ns x y \<le> 0 \<Longrightarrow> cmp_ns y z \<le> 0 \<Longrightarrow> cmp_ns x z \<le> 0" for x y z
    using strcmp_trans [of "ns_name x" "ns_name y" "ns_name z"] by (simp add: cmp_ns_def)
qed

lemma ls_of_fold:
  assumes "ls_inv h l as" "contents h as = map Some ds"
  shows "\<exists>h' l' bs. fold (\<lambda>x (h, l). snd (ls_append h l (Some x))) xs (h, l) = (h', l') \<and> ls_inv h' l' bs
     \<and> contents h' bs = map Some (ds @ xs) \<and> l_cmp l' = l_cmp l"
  using assms
proof (induction xs arbitrary: h l as ds)
  case Nil
  then show ?case by auto
next
  case (Cons x xs)
  obtain a h1 l1 where p: "ls_append h l (Some x) = (a, h1, l1)" by (metis prod.collapse)
  from append_ok [OF Cons.prems(1) p] Cons.prems(2)
  have i: "ls_inv h1 l1 (as @ [a])" "contents h1 (as @ [a]) = map Some (ds @ [x])" by auto
  have c: "l_cmp l1 = l_cmp l" using p by (auto simp: ls_append_def Let_def split: prod.splits)
  show ?case using Cons.IH [OF i] p c by auto
qed

lemma save_order_mset: "mset (save_order srt es) = mset es"
proof (cases srt)
  case True
  obtain h l as where o: "ls_of es = (h, l)" "ls_inv h l as" "contents h as = map Some es" "l_cmp l = None"
    using ls_of_fold [of empty_heap ls_new "[]" "[]" es]
    by (auto simp: ls_of_def ls_inv_def ls_new_def contents_def empty_heap_def)
  obtain b h' l' where s: "ls_sort h l CMP_NS cmp_ns = (b, h', l')" by (metis prod.collapse)
  obtain cs xs where t: "ls_inv h' l' cs" "contents h' cs = map Some xs" "mset xs = mset es"
    using nsc.ls_sort_ok [OF o(2,3) _ s] o(4) by auto
  have "None \<notin> set (contents h' cs)" unfolding t(2) by auto
  then have "ls_iters h' (l_head l') = cs" using iters_all [OF t(1)] by blast
  then have "ls_data (h', l') = xs" using arg_cong [OF t(2), of "map the"] by (simp add: ls_data_def contents_def comp_def)
  then show ?thesis using True o(1) s t(3) by (simp add: save_order_def)
qed (simp add: save_order_def)

text \<open>Forests that differ only in the positions of walks.\<close>

definition similar :: "forest \<Rightarrow> forest \<Rightarrow> bool" where
  "similar f g \<longleftrightarrow> length g = length f \<and> (\<forall>q. \<exists>x. deref_db g q = map_option (\<lambda>s. s\<lparr>n_s := (n_s s)\<lparr>s_pos := x\<rparr>\<rparr>) (deref_db f q))"

lemma similar_refl [simp]: "similar f f"
  unfolding similar_def
proof (intro conjI allI)
  fix q
  show "\<exists>x. deref_db f q = map_option (\<lambda>s. s\<lparr>n_s := (n_s s)\<lparr>s_pos := x\<rparr>\<rparr>) (deref_db f q)"
    by (cases "deref_db f q") (auto intro: exI [of _ "s_pos (n_s (the (deref_db f q)))"])
qed simp

lemma similar_at:
  assumes "similar f g" "deref_db f p = Some s"
  shows "\<exists>x. deref_db g p = Some (s\<lparr>n_s := (n_s s)\<lparr>s_pos := x\<rparr>\<rparr>)"
proof -
  obtain x where "deref_db g p = map_option (\<lambda>s. s\<lparr>n_s := (n_s s)\<lparr>s_pos := x\<rparr>\<rparr>) (deref_db f p)" using assms(1) unfolding similar_def by blast
  then show ?thesis using assms(2) by auto
qed

lemma similar_upd:
  assumes "similar f g" "deref_db f p = Some s" "deref_db g p = Some t"
  shows "similar f (g[p := Some (t\<lparr>n_s := (n_s s)\<lparr>s_pos := x\<rparr>\<rparr>)])"
  unfolding similar_def
proof (intro conjI allI)
  fix q
  obtain y where y: "t = s\<lparr>n_s := (n_s s)\<lparr>s_pos := y\<rparr>\<rparr>" using assms similar_at [OF assms(1,2)] by auto
  have p: "p < length g" using deref_Some [OF assms(3)] by simp
  show "\<exists>x'. deref_db (g[p := Some (t\<lparr>n_s := (n_s s)\<lparr>s_pos := x\<rparr>\<rparr>)]) q = map_option (\<lambda>s. s\<lparr>n_s := (n_s s)\<lparr>s_pos := x'\<rparr>\<rparr>) (deref_db f q)"
  proof (cases "q = p")
    case True
    then show ?thesis using assms(2) y p by (intro exI [of _ x]) simp
  next
    case False
    then show ?thesis using assms(1) by (simp add: similar_def)
  qed
qed (use assms(1) in \<open>simp add: similar_def\<close>)

text \<open>
  What can be saved: databases in memory, without a file, whose namespaces are nested less than \<open>n\<close> deep, with keys and
  values that text can represent; an empty key is written but not read.
\<close>

fun saveable :: "nat \<Rightarrow> forest \<Rightarrow> nat \<Rightarrow> bool" where
  "saveable 0 f p = False"
| "saveable (Suc n) f p \<longleftrightarrow>
     (\<exists>s l. deref_db f p = Some s \<and> mem_inv (n_s s) \<and> ht_count (s_ht (n_s s)) \<le> 2147483647
        \<and> (\<forall>k v. mem_view (n_s s) k = Some v \<longrightarrow> k \<noteq> [] \<and> nonul k \<and> nonul v)
        \<and> n_ns s = Some l \<and> ns_entries_ok l \<and> (\<forall>e \<in> set l. nonul (ns_name e) \<and> saveable n f (ns_sdb e)))"

definition saves :: "bool \<Rightarrow> nat \<Rightarrow> forest \<Rightarrow> nat \<Rightarrow> dump \<Rightarrow> bool" where
  "saves srt n f p d \<longleftrightarrow>
     (\<forall>g fd path. similar f g \<and> at_end fd \<and> length (lines_text (dump_lines path d)) \<le> f_room fd \<longrightarrow>
        (\<exists>g'. similar f g' \<and> text_save n g p fd srt path = Inr (True, g', app fd (lines_text (dump_lines path d)))))"

definition subs_text :: "string list \<Rightarrow> (string \<times> dump) list \<Rightarrow> string" where
  "subs_text path subs = concat (map (\<lambda>(x, d). CHR 0x0A # lines_text (dump_lines (path @ [x]) d)) subs)"

lemma dump_text_eq:
  "lines_text (dump_lines path (Dump kvs subs)) = (''/'' @ path_body path) @ [CHR 0x0A] @ kvs_text kvs @ subs_text path subs"
proof -
  have "lines_text (concat (map (\<lambda>(x, d). [Blank_Line, Path_Line (path @ [x])] @ dump_body (path @ [x]) d) subs)) = subs_text path subs"
    by (induction subs) (auto simp: lines_text_def subs_text_def dump_lines_def)
  then show ?thesis by (simp add: dump_lines_def lines_text_def path_text_def kvs_text_lines)
qed

lemma savesD:
  assumes "saves srt n f p d" "similar f g" "at_end fd" "length (lines_text (dump_lines path d)) \<le> f_room fd"
  shows "\<exists>g'. similar f g' \<and> text_save n g p fd srt path = Inr (True, g', app fd (lines_text (dump_lines path d)))"
  using assms unfolding saves_def by blast

lemma save_subs:
  assumes "\<forall>e \<in> set es. saves srt n f (ns_sdb e) (D e)" "similar f g" "at_end fd"
    "length (subs_text path (map (\<lambda>e. (ns_name e, D e)) es)) \<le> f_room fd"
  shows "\<exists>g'. similar f g' \<and> text_save_ns n g es fd srt path = Inr (True, g', app fd (subs_text path (map (\<lambda>e. (ns_name e, D e)) es)))"
  using assms
proof (induction es arbitrary: g fd)
  case Nil
  then show ?case by (auto simp: subs_text_def)
next
  case (Cons e es)
  let ?T = "lines_text (dump_lines (path @ [ns_name e]) (D e))" and ?R = "subs_text path (map (\<lambda>e. (ns_name e, D e)) es)"
  have all: "subs_text path (map (\<lambda>e. (ns_name e, D e)) (e # es)) = CHR 0x0A # ?T @ ?R" by (simp add: subs_text_def)
  have nl: "write_all fd [CHR 0x0A] = (True, app fd [CHR 0x0A])" using emitsD [OF emits_write] Cons.prems(3,4) all by simp
  have room: "length ?T \<le> f_room (app fd [CHR 0x0A])" using Cons.prems(4) all by simp
  obtain g1 where g1: "similar f g1" "text_save n g (ns_sdb e) (app fd [CHR 0x0A]) srt (path @ [ns_name e]) = Inr (True, g1, app fd (CHR 0x0A # ?T))"
    using savesD [of srt n f "ns_sdb e" "D e" g "app fd [CHR 0x0A]" "path @ [ns_name e]", OF _ _ _ room] Cons.prems(1-3) by auto
  have room2: "length ?R \<le> f_room (app fd (CHR 0x0A # ?T))" using Cons.prems(4) all by simp
  obtain g2 where "similar f g2" "text_save_ns n g1 es (app fd (CHR 0x0A # ?T)) srt path = Inr (True, g2, app fd (CHR 0x0A # ?T @ ?R))"
    using Cons.IH [of g1 "app fd (CHR 0x0A # ?T)", OF _ _ _ room2] Cons.prems(1,3) g1(1) by auto
  then show ?case using nl g1(2) all by simp
qed

lemma saveable_saves:
  assumes "saveable n f p"
  shows "\<exists>d. dump_wf d \<and> stored 0 f p d \<and> saves srt n f p d"
  using assms
proof (induction n arbitrary: p)
  case (Suc n)
  obtain s l where s: "deref_db f p = Some s" "mem_inv (n_s s)" "ht_count (s_ht (n_s s)) \<le> 2147483647"
    "\<forall>k v. mem_view (n_s s) k = Some v \<longrightarrow> k \<noteq> [] \<and> nonul k \<and> nonul v"
    "n_ns s = Some l" "ns_entries_ok l" "\<forall>e \<in> set l. nonul (ns_name e) \<and> saveable n f (ns_sdb e)"
    using Suc.prems by auto
  have "\<forall>e \<in> set l. \<exists>d. dump_wf d \<and> stored 0 f (ns_sdb e) d \<and> saves srt n f (ns_sdb e) d" using Suc.IH s(7) by blast
  then obtain D where D: "\<forall>e \<in> set l. dump_wf (D e) \<and> stored 0 f (ns_sdb e) (D e) \<and> saves srt n f (ns_sdb e) (D e)" by metis
  obtain kvs where k: "distinct (map fst kvs)" "map_of kvs = mem_view (n_s s)"
    and sv: "\<And>fd x. at_end fd \<and> length (kvs_text kvs) \<le> f_room fd \<Longrightarrow> save_entries srt ((n_s s)\<lparr>s_pos := x\<rparr>) fd = (app fd (kvs_text kvs), (n_s s)\<lparr>s_pos := 0\<rparr>)"
    using save_entries_kvs [OF s(2), of srt] by blast
  let ?o = "save_order srt l" and ?F = "\<lambda>e. (ns_name e, D e)"
  let ?d = "Dump kvs (map ?F ?o)"
  have mo: "mset ?o = mset l" by (rule save_order_mset)
  have so: "set ?o = set l" using mo by (metis set_mset_mset)
  have "set kvs = set (mem_entries (n_s s))"
    using map_of_inject_set [OF k(1) mem_entries_ok(1) [OF s(2)]] k(2) mem_entries_ok(2) [OF s(2)] by simp
  then have "length kvs = length (mem_entries (n_s s))"
    using k(1) mem_entries_ok(1) [OF s(2)] by (metis distinct_card distinct_map)
  then have len: "length kvs \<le> 2147483647" using mem_entries_ok(4) [OF s(2)] s(3) by simp
  have kv: "\<forall>(a, b) \<in> set kvs. a \<noteq> [] \<and> b \<noteq> [] \<and> nonul a \<and> nonul b \<and> set_ok a b"
  proof (intro ballI, clarify)
    fix a b assume "(a, b) \<in> set kvs"
    then have "mem_view (n_s s) a = Some b" using k by (metis map_of_is_SomeI)
    then show "a \<noteq> [] \<and> b \<noteq> [] \<and> nonul a \<and> nonul b \<and> set_ok a b"
      using s(4) mem_value_len [OF s(2)] by (auto simp: set_ok_def)
  qed
  have hs: "map (\<lambda>x. sdb_hash (fst x)) (map ?F ?o) = map ns_hash ?o" using s(6) so by (simp add: ns_entries_ok_def)
  have "distinct (map ns_hash l)" using s(6) by (simp add: ns_entries_ok_def)
  then have "distinct (map ns_hash ?o)" using mo by (metis mset_eq_imp_distinct_iff mset_map)
  then have "distinct (map (\<lambda>x. sdb_hash (fst x)) (map ?F ?o))" unfolding hs .
  then have "dump_wf ?d" using k(1) len kv D so s(6,7) by (auto simp: ns_entries_ok_def)
  moreover have "stored 0 f p ?d"
    using s k(2) mo D so by (auto simp: list_all2_map2 list_all2_same intro!: exI [of _ ?o])
  moreover have "saves srt (Suc n) f p ?d"
    unfolding saves_def
  proof (intro allI impI, elim conjE)
    fix g fd path
    let ?T = "lines_text (dump_lines path ?d)" and ?S = "subs_text path (map ?F ?o)"
    assume a: "similar f g" "at_end fd" "length ?T \<le> f_room fd"
    obtain x where t: "deref_db g p = Some (s\<lparr>n_s := (n_s s)\<lparr>s_pos := x\<rparr>\<rparr>)" using similar_at [OF a(1) s(1)] by blast
    let ?t = "s\<lparr>n_s := (n_s s)\<lparr>s_pos := x\<rparr>\<rparr>" and ?P = "''/'' @ path_body path"
    have T: "?T = ?P @ [CHR 0x0A] @ kvs_text kvs @ ?S" by (rule dump_text_eq)
    have 1: "write_path fd path = (True, app fd ?P)" using emitsD [OF emits_path a(2), of path] a(3) T by simp
    have 2: "write_all (app fd ?P) [CHR 0x0A] = (True, app fd (?P @ [CHR 0x0A]))"
      using emitsD [OF emits_write, of "app fd ?P" "[CHR 0x0A]"] a(2,3) T by simp
    have 3: "save_entries srt (n_s ?t) (app fd (?P @ [CHR 0x0A])) = (app fd (?P @ [CHR 0x0A] @ kvs_text kvs), (n_s s)\<lparr>s_pos := 0\<rparr>)"
      using sv [of "app fd (?P @ [CHR 0x0A])" x] a(2,3) T by simp
    let ?g = "g[p := Some (?t\<lparr>n_s := (n_s s)\<lparr>s_pos := 0\<rparr>\<rparr>)]"
    have room: "length ?S \<le> f_room (app fd (?P @ [CHR 0x0A] @ kvs_text kvs))" using a(3) T by simp
    obtain g' where g': "similar f g'" "text_save_ns n ?g ?o (app fd (?P @ [CHR 0x0A] @ kvs_text kvs)) srt path = Inr (True, g', app fd ?T)"
      using save_subs [of ?o srt n f D ?g, OF _ similar_upd [OF a(1) s(1) t] _ room] D so a(2) T by auto
    have nl: "ns_list ?t = l" using s(5) by (simp add: ns_list_def)
    have "text_save (Suc n) g p fd srt path = Inr (True, g', app fd ?T)"
      using t 1 2 3 g'(2) nl by (simp del: append_assoc)
    then show "\<exists>g'. similar f g' \<and> text_save (Suc n) g p fd srt path = Inr (True, g', app fd ?T)" using g'(1) by blast
  qed
  ultimately show ?case by blast
qed simp

section \<open>The round trip\<close>

text \<open>The values of the database at a path of namespaces, or none if there is no such namespace.\<close>

fun values_at :: "forest \<Rightarrow> nat \<Rightarrow> string list \<Rightarrow> (string \<rightharpoonup> string) option" where
  "values_at f p [] = map_option (\<lambda>s k. fst (fst (sdb_get (n_s s) k))) (deref_db f p)"
| "values_at f p (x # xs) = (case fst (sdb_ns f p x False) of None \<Rightarrow> None | Some q \<Rightarrow> values_at f q xs)"

fun dump_values :: "dump \<Rightarrow> string list \<Rightarrow> (string \<rightharpoonup> string) option" where
  "dump_values (Dump kvs subs) [] = Some (map_of kvs)"
| "dump_values (Dump kvs subs) (x # xs) =
     (if x = [] then None
      else case List.find (\<lambda>y. sdb_hash (fst y) = sdb_hash x) subs of None \<Rightarrow> None | Some y \<Rightarrow> dump_values (snd y) xs)"

lemma find_unique:
  assumes "distinct (map h xs)" "x \<in> set xs"
  shows "List.find (\<lambda>y. h y = h x) xs = Some x"
  using assms by (induction xs) (auto simp: image_iff)

lemma stored_values: "stored lo f p d \<Longrightarrow> dump_wf d \<Longrightarrow> values_at f p path = dump_values d path"
proof (induction path arbitrary: p d)
  case Nil
  obtain kvs subs where d: "d = Dump kvs subs" by (cases d)
  then show ?case using Nil sdb_get_mem by (auto simp: fun_eq_iff)
next
  case (Cons x xs)
  obtain kvs subs where d: "d = Dump kvs subs" by (cases d)
  obtain s l l' where s: "deref_db f p = Some s" "n_ns s = Some l" "ns_entries_ok l" "mset l' = mset l"
    "list_all2 (\<lambda>e x. ns_name e = fst x \<and> stored lo f (ns_sdb e) (snd x)) l' subs"
    using Cons.prems(1) d by auto
  have sl: "set l' = set l" using s(4) by (metis set_mset_mset)
  have hl: "distinct (map ns_hash l)" "\<forall>e \<in> set l. ns_hash e = sdb_hash (ns_name e)" using s(3) by (auto simp: ns_entries_ok_def)
  show ?case
  proof (cases "x = [] \<or> List.find (\<lambda>y. sdb_hash (fst y) = sdb_hash x) subs = None")
    case True
    then have "x = [] \<or> (\<forall>y \<in> set subs. sdb_hash (fst y) \<noteq> sdb_hash x)" by (auto simp: find_None_iff)
    then have "x = [] \<or> (\<forall>e \<in> set l'. sdb_hash (ns_name e) \<noteq> sdb_hash x)" using s(5) by (fastforce simp: list_all2_conv_all_nth in_set_conv_nth)
    then have "x = [] \<or> List.find (\<lambda>e. ns_hash e = sdb_hash x) l = None" using sl hl(2) by (auto simp: find_None_iff)
    then have "fst (sdb_ns f p x False) = None" using s(1,2) by (auto simp: sdb_ns_def Let_def ns_list_def)
    then show ?thesis using True d by (auto split: option.splits)
  next
    case False
    then obtain y where y: "List.find (\<lambda>y. sdb_hash (fst y) = sdb_hash x) subs = Some y" "x \<noteq> []" by auto
    then have "y \<in> set subs" "sdb_hash (fst y) = sdb_hash x" by (auto simp: find_Some_iff)
    then obtain i where "i < length subs" "y = subs ! i" by (auto simp: in_set_conv_nth)
    then have "l' ! i \<in> set l'" "ns_name (l' ! i) = fst y" "stored lo f (ns_sdb (l' ! i)) (snd y)" using s(5) by (auto simp: list_all2_conv_all_nth)
    then obtain e where e: "e \<in> set l" "ns_name e = fst y" "stored lo f (ns_sdb e) (snd y)" using sl by blast
    have h: "ns_hash e = sdb_hash x" using e(1,2) hl(2) \<open>sdb_hash (fst y) = sdb_hash x\<close> by simp
    have "List.find (\<lambda>e. ns_hash e = sdb_hash x) l = Some e" using find_unique [OF hl(1) e(1)] h by simp
    then have "fst (sdb_ns f p x False) = Some (ns_sdb e)" using s(1,2) y(2) by (simp add: sdb_ns_def Let_def ns_list_def)
    moreover have "dump_wf (snd y)" using Cons.prems(2) d \<open>y \<in> set subs\<close> by auto
    ultimately show ?thesis using Cons.IH [OF e(3)] d y by simp
  qed
qed

lemma dump_lines_ok: "dump_wf d \<Longrightarrow> \<forall>x \<in> set path. nonul x \<Longrightarrow> \<forall>l \<in> set (dump_body path d). line_ok l"
proof (induction d arbitrary: path)
  case (Dump kvs subs)
  have "\<forall>l \<in> set (dump_body (path @ [fst y]) (snd y)). line_ok l" if "y \<in> set subs" for y
    using Dump.IH [of y "snd y" "path @ [fst y]"] Dump.prems that by (auto simp: snds.simps)
  then show ?case using Dump.prems by fastforce
qed

text \<open>
  C13.  The text format loses nothing.  Take a database in memory with any tree of namespaces, whose keys, values and names are
  strings without NUL, the keys not empty.  There is a text such that saving, sorted or not, to any device with room for it
  succeeds and leaves exactly this text in the file, and loading a file with this text into a new database succeeds and gives,
  at every path of namespaces, the values the original has there, and no namespace where the original has none.
\<close>

theorem text_roundtrip:
  assumes "saveable n f p"
  shows "\<exists>T. (\<forall>room fs file. length T \<le> room \<longrightarrow>
            (\<exists>f'. similar f f' \<and> sdb_text_save n True room fs f p file srt = Inr (True, f', fs(file \<mapsto> T))))
       \<and> (\<forall>fs file now. fs file = Some T \<longrightarrow>
            (\<exists>f2. sdb_text_load fs [Some (blank_node now)] 0 file = (True, f2) \<and> (\<forall>path. values_at f2 0 path = values_at f p path)))"
proof -
  obtain d where d: "dump_wf d" "stored 0 f p d" "saves srt n f p d" using saveable_saves [OF assms] by blast
  let ?T = "lines_text (dump_lines [] d)"
  have save: "\<exists>f'. similar f f' \<and> sdb_text_save n True room fs f p nm srt = Inr (True, f', fs(nm \<mapsto> ?T))"
    if "length ?T \<le> room" for room and fs :: files and nm
    using savesD [OF d(3) similar_refl, of "\<lparr>f_data = [], f_off = 0, f_room = room\<rparr>" "[]"] that
    by (auto simp: sdb_text_save_def sdb_text_save_fd_def at_end_def)
  have load: "\<exists>f2. sdb_text_load fs [Some (blank_node now)] 0 nm = (True, f2) \<and> (\<forall>path. values_at f2 0 path = values_at f p path)"
    if "fs nm = Some ?T" for fs :: files and nm now
  proof -
    let ?f = "[Some (blank_node now)]"
    have pf: "plain_forest ?f"
      by (auto simp: plain_forest_def forest_wf_def deref_db_def links_def links_of_def ns_entries_ok_def blank_node_def ns_list_def split: if_splits)
    have dr: "deref_db ?f 0 = Some (blank_node now)" by (simp add: deref_db_def)
    have bl: "mem_inv (n_s (blank_node now))" "mem_view (n_s (blank_node now)) = Map.empty" "ht_count (s_ht (n_s (blank_node now))) = 0"
      "n_ns (blank_node now) = Some []" using sdb_new0_ok by (simp_all add: blank_node_def)
    obtain cur f2 where f2: "fold (exec_line 0) (dump_body [] d) (0, ?f) = (cur, f2)" "stored 0 f2 0 d"
      using loads_all [OF d(1), of 0 "[]", unfolded loads_def, rule_format, of ?f 0 "blank_node now"] pf dr bl by auto
    have "\<forall>l \<in> set (dump_lines [] d). line_ok l" using dump_lines_ok [OF d(1), of "[]"] by (simp add: dump_lines_def)
    from load_buf_lines [OF this, of ?f 0] have "sdb_text_load_buf ?f 0 ?T = (True, f2)" using f2(1) by (simp add: dump_lines_def)
    moreover have "?T \<noteq> []" by (simp add: dump_lines_def lines_text_def path_text_def)
    ultimately have "sdb_text_load fs ?f 0 nm = (True, f2)" using that by (simp add: sdb_text_load_def)
    then show ?thesis using stored_values [OF f2(2) d(1)] stored_values [OF d(2,1)] by auto
  qed
  show ?thesis using save load by blast
qed

definition text_example :: forest where
  "text_example =
     [Some ((blank_node 0)\<lparr>n_s := single ''/k'' ''v'', n_ns := Some [\<lparr>ns_name = ''a/b'', ns_hash = sdb_hash ''a/b'', ns_sdb = 1\<rparr>]\<rparr>),
      Some ((blank_node 0)\<lparr>n_s := single ''x=y'' [CHR 0x0A]\<rparr>)]"

lemma text_example_ok:
  "saveable 2 text_example 0" "values_at text_example 0 [''a/b''] = Some [''x=y'' \<mapsto> [CHR 0x0A]]"
proof -
  have l: "length ''/k'' < SDB_KSZ" "length ''v'' < SDB_VSZ" "length ''x=y'' < SDB_KSZ" "length [CHR 0x0A] < SDB_VSZ"
    by (simp_all add: SDB_KSZ_def SDB_VSZ_def)
  note a = single_ok [OF l(1,2)] and b = single_ok [OF l(3,4)]
  have d: "deref_db text_example 0 = Some ((blank_node 0)\<lparr>n_s := single ''/k'' ''v'', n_ns := Some [\<lparr>ns_name = ''a/b'', ns_hash = sdb_hash ''a/b'', ns_sdb = 1\<rparr>]\<rparr>)"
    "deref_db text_example 1 = Some ((blank_node 0)\<lparr>n_s := single ''x=y'' [CHR 0x0A]\<rparr>)"
    by (simp_all add: deref_db_def text_example_def)
  have "saveable 1 text_example 1" using b d(2) by (simp add: ns_entries_ok_def blank_node_def)
  then show "saveable 2 text_example 0" using a d(1) by (simp add: numeral_2_eq_2 ns_entries_ok_def blank_node_def)
  have "fst (sdb_ns text_example 0 ''a/b'' False) = Some 1" using d(1) by (simp add: sdb_ns_def ns_list_def)
  then show "values_at text_example 0 [''a/b''] = Some [''x=y'' \<mapsto> [CHR 0x0A]]" using b d(2) sdb_get_mem by (simp add: fun_eq_iff)
qed

theorem text_roundtrip_witness:
  "\<exists>T f2. (\<exists>room f'. sdb_text_save 2 True room Map.empty text_example 0 ''t'' True = Inr (True, f', [''t'' \<mapsto> T]))
     \<and> sdb_text_load [''t'' \<mapsto> T] [Some (blank_node 0)] 0 ''t'' = (True, f2)
     \<and> values_at f2 0 [''a/b''] = Some [''x=y'' \<mapsto> [CHR 0x0A]]"
proof -
  obtain T where T: "\<forall>room fs file. length T \<le> room \<longrightarrow>
            (\<exists>f'. similar text_example f' \<and> sdb_text_save 2 True room fs text_example 0 file True = Inr (True, f', fs(file \<mapsto> T)))"
    "\<forall>fs file now. fs file = Some T \<longrightarrow>
            (\<exists>f2. sdb_text_load fs [Some (blank_node now)] 0 file = (True, f2) \<and> (\<forall>path. values_at f2 0 path = values_at text_example 0 path))"
    using text_roundtrip [OF text_example_ok(1), of True] by blast
  obtain f' where "sdb_text_save 2 True (length T) Map.empty text_example 0 ''t'' True = Inr (True, f', [''t'' \<mapsto> T])" using T(1) by blast
  moreover obtain f2 where "sdb_text_load [''t'' \<mapsto> T] [Some (blank_node 0)] 0 ''t'' = (True, f2)" "\<forall>path. values_at f2 0 path = values_at text_example 0 path"
    using T(2) [rule_format, of "[''t'' \<mapsto> T]" "''t''" 0] by auto
  ultimately show ?thesis using text_example_ok(2) by metis
qed

section \<open>What modelling showed\<close>

text \<open>On a full device nothing is written, and nothing but the first line notices.\<close>

lemma write_full: "f_room fd = 0 \<Longrightarrow> write_all fd s = (s = [], fd)"
  by (auto simp: write_all_def sys_write_def)

lemma seq_full:
  assumes "snd (V fd) = fd" "snd (W fd) = fd"
  shows "snd (case V fd of (False, fd) \<Rightarrow> (False, fd) | (True, fd) \<Rightarrow> W fd) = fd"
  using assms by (cases "V fd"; cases "fst (V fd)") auto

lemma pair_full: "f_room fd = 0 \<Longrightarrow> snd (escape_pair fd blk c) = fd"
  unfolding escape_pair_def by (rule seq_full) (simp_all add: escape_flush_def write_full)

lemma escape_full: "f_room fd = 0 \<Longrightarrow> snd (escape_go ch fd blk s) = fd"
proof (induction s arbitrary: blk)
  case (Cons c s)
  have q: "snd (case escape_pair fd blk y of (False, fd) \<Rightarrow> (False, fd) | (True, fd) \<Rightarrow> escape_go ch fd [] s) = fd" for y
    by (rule seq_full [where V = "\<lambda>fd. escape_pair fd blk y" and W = "\<lambda>fd. escape_go ch fd [] s"])
       (use pair_full [OF Cons.prems] Cons.IH [OF Cons.prems, of "[]"] in simp_all)
  show ?case using Cons.IH [OF Cons.prems, of "blk @ [c]"] by (simp add: q)
qed (simp add: escape_flush_def write_full)

lemma save_kv_full:
  assumes "f_room fd = 0"
  shows "snd (save_kv_cb k v fd) = fd"
proof -
  have e: "snd (escape_loop fd s ch) = fd" for s ch using escape_full [OF assms] by (simp add: escape_loop_def)
  have k: "snd (write_key fd k) = fd" unfolding write_key_def by (rule seq_full) (simp_all add: e write_full assms)
  show ?thesis unfolding save_kv_cb_def
    by (intro seq_full) (simp_all add: k e write_value_def write_full assms)
qed

lemma walk_full: "f_room fd = 0 \<Longrightarrow> snd (walk_list save_kv_cb kvs fd) = fd"
proof (induction kvs)
  case (Cons x kvs)
  obtain k v where x: "x = (k, v)" by fastforce
  show ?case using Cons.IH [OF Cons.prems] save_kv_full [OF Cons.prems, of k "Some v"] x by (auto split: prod.splits bool.splits)
qed simp

text \<open>
  A save to a device that takes two bytes reports success with only the path line written, and with a
  namespace it leaves the list of namespaces released.
\<close>

lemma text_save_ignores_errors:
  "\<exists>f'. sdb_text_save 3 True 2 Map.empty [Some ((blank_node 0)\<lparr>n_s := single ''k'' ''v''\<rparr>)] 0 ''t'' False
      = Inr (True, f', [''t'' \<mapsto> [CHR ''/'', CHR 0x0A]])"
  "sdb_text_save 3 True 2 Map.empty text_example 0 ''t'' False = Inl Dangling_Pointer"
proof -
  let ?fd = "\<lparr>f_data = [CHR ''/'', CHR 0x0A], f_off = 2, f_room = 0\<rparr>"
  have l: "length ''/k'' < SDB_KSZ" "length ''v'' < SDB_VSZ" "length ''k'' < SDB_KSZ" by (simp_all add: SDB_KSZ_def SDB_VSZ_def)
  have en: "fst (save_entries False (single k ''v'') ?fd) = ?fd" if "length k < SDB_KSZ" for k
    using foreach_mem [of "single k ''v''" save_kv_cb ?fd] single_ok [OF that l(2)] walk_full [of ?fd]
    by (auto simp: save_entries_def split: prod.splits) (metis fdesc.select_convs(3) snd_conv)
  have wr: "write_path \<lparr>f_data = [], f_off = 0, f_room = 2\<rparr> [] = (True, \<lparr>f_data = ''/'', f_off = 1, f_room = 1\<rparr>)"
    "write_all \<lparr>f_data = ''/'', f_off = 1, f_room = 1\<rparr> [CHR 0x0A] = (True, ?fd)"
    by (simp_all add: write_path_def write_all_def sys_write_def transfer_def padded_def Let_def)
  show "\<exists>f'. sdb_text_save 3 True 2 Map.empty [Some ((blank_node 0)\<lparr>n_s := single ''k'' ''v''\<rparr>)] 0 ''t'' False
      = Inr (True, f', [''t'' \<mapsto> [CHR ''/'', CHR 0x0A]])"
    using wr en [OF l(3)]
    by (auto simp: sdb_text_save_def sdb_text_save_fd_def numeral_3_eq_3 deref_db_def save_order_def ns_list_def blank_node_def split: prod.splits)
  show "sdb_text_save 3 True 2 Map.empty text_example 0 ''t'' False = Inl Dangling_Pointer"
    using wr en [OF l(1)] write_full [of ?fd "[CHR 0x0A]"]
    by (auto simp: sdb_text_save_def sdb_text_save_fd_def numeral_3_eq_3 text_example_def deref_db_def save_order_def ns_list_def split: prod.splits)
qed

end
