(* ===== verification/Strbuf.thy ===== *)
theory Strbuf
  imports Sdb_Prelude
begin

text \<open>
  The growing string buffer of \<^verbatim>\<open>src/strbuf.c\<close>, with its memory: \<open>sb_buf\<close> is the allocated
  block (\<open>None\<close> for NULL) and a write outside of it is the result \<open>None\<close>.  The fields \<^verbatim>\<open>len\<close> and \<^verbatim>\<open>size\<close> and
  the length of the string are \<^verbatim>\<open>int\<close>: a sum above \<^verbatim>\<open>INT_MAX\<close> is the result \<open>None\<close> too.  Allocation succeeds.  \<^verbatim>\<open>strbuf_appendf\<close> is \<^verbatim>\<open>strbuf_append\<close> of the formatted
  string; \<^verbatim>\<open>strbuf_free\<close> only releases memory.
\<close>

section \<open>Memory blocks\<close>

text \<open>\<^verbatim>\<open>memcpy (buf + off, src, strlen (src))\<close>, and \<^verbatim>\<open>realloc\<close>; fresh bytes are arbitrary and here 0.\<close>

definition mem_put :: "bytes \<Rightarrow> nat \<Rightarrow> bytes \<Rightarrow> bytes option" where
  "mem_put buf off src =
     (if off + length src \<le> length buf
      then Some (take off buf @ src @ drop (off + length src) buf) else None)"

definition mem_realloc :: "bytes option \<Rightarrow> nat \<Rightarrow> bytes" where
  "mem_realloc buf sz =
     (let old = (case buf of None \<Rightarrow> [] | Some b \<Rightarrow> b) in take sz old @ replicate (sz - length old) NUL)"

lemma mem_put_Some: "off + length src \<le> length buf \<Longrightarrow>
  mem_put buf off src = Some (take off buf @ src @ drop (off + length src) buf)"
  by (simp add: mem_put_def)

lemma mem_put_length: "mem_put buf off src = Some b \<Longrightarrow> length b = length buf"
  by (auto simp: mem_put_def split: if_splits)

lemma mem_put_take:
  assumes "mem_put buf off src = Some b"
  shows "take off b = take off buf" "take (off + length src) b = take off buf @ src"
  using assms by (auto simp: mem_put_def min_absorb2 split: if_splits)

lemma mem_realloc_length [simp]: "length (mem_realloc buf sz) = sz"
  by (auto simp: mem_realloc_def Let_def)

section \<open>The buffer\<close>

record strbuf =
  sb_buf :: "bytes option"
  sb_len :: nat
  sb_size :: nat

definition strbuf_new :: strbuf where
  "strbuf_new = \<lparr>sb_buf = None, sb_len = 0, sb_size = 0\<rparr>"

definition strbuf_append :: "strbuf \<Rightarrow> string \<Rightarrow> int \<Rightarrow> strbuf option" where
  "strbuf_append sb str nl =
     (if nl < 0 then Some sb
      else
        let len = length str in
        if sb_len sb + len + 2 > INT_MAX then None
        else if sb_len sb + len + 2 \<ge> sb_size sb \<and> sb_size sb + len + 256 > INT_MAX then None
        else
        let sb = (if sb_len sb + len + 2 \<ge> sb_size sb
                  then let newsize = sb_size sb + len + 256
                       in sb\<lparr>sb_buf := Some (mem_realloc (sb_buf sb) newsize), sb_size := newsize\<rparr>
                  else sb)
        in case sb_buf sb of
             None \<Rightarrow> Some sb
           | Some b \<Rightarrow>
               (case mem_put b (sb_len sb) str of
                  None \<Rightarrow> None
                | Some b \<Rightarrow>
                    let l = sb_len sb + len in
                    (case (if nl \<noteq> 0 then mem_put b l [CHR 0x0A] else Some b) of
                       None \<Rightarrow> None
                     | Some b \<Rightarrow>
                         let l = (if nl \<noteq> 0 then l + 1 else l) in
                         map_option (\<lambda>b. sb\<lparr>sb_buf := Some b, sb_len := l\<rparr>) (mem_put b l [NUL]))))"

text \<open>\<open>formatted\<close> is what \<^verbatim>\<open>sdb_vstrdupf\<close> returns for the format and its arguments.\<close>

definition strbuf_appendf :: "strbuf \<Rightarrow> int \<Rightarrow> string \<Rightarrow> strbuf option" where
  "strbuf_appendf sb nl formatted = strbuf_append sb formatted nl"

text \<open>The string at the address that \<^verbatim>\<open>strbuf_drain\<close> returns, or NULL.\<close>

definition strbuf_drain :: "strbuf \<Rightarrow> string option" where
  "strbuf_drain sb = map_option cstring (sb_buf sb)"

section \<open>Properties\<close>

definition sb_inv :: "strbuf \<Rightarrow> bool" where
  "sb_inv sb \<longleftrightarrow>
     (case sb_buf sb of
        None \<Rightarrow> sb_len sb = 0 \<and> sb_size sb = 0
      | Some b \<Rightarrow> length b = sb_size sb \<and> sb_len sb < sb_size sb \<and> sb_size sb \<le> 2 * sb_len sb + 258 \<and> b ! sb_len sb = NUL)"

text \<open>
  The block is at most twice as long as the text, and some, so that the sums of \<^verbatim>\<open>strbuf_append\<close> stay within \<^verbatim>\<open>int\<close>
  while the text has at most \<open>2\<^sup>3\<^sup>0 - 130\<close> bytes.
\<close>

definition sb_fits :: "nat \<Rightarrow> bool" where
  "sb_fits n \<longleftrightarrow> n \<le> 1073741694"

lemma sb_fits_mono: "sb_fits n \<Longrightarrow> m \<le> n \<Longrightarrow> sb_fits m"
  by (simp add: sb_fits_def)

definition sb_text :: "strbuf \<Rightarrow> string" where
  "sb_text sb = (case sb_buf sb of None \<Rightarrow> [] | Some b \<Rightarrow> take (sb_len sb) b)"

lemma strbuf_new_ok [simp]: "sb_inv strbuf_new" "sb_text strbuf_new = []"
  by (simp_all add: sb_inv_def sb_text_def strbuf_new_def)

lemma take_realloc: "n \<le> length b \<Longrightarrow> n \<le> sz \<Longrightarrow> take n (mem_realloc (Some b) sz) = take n b"
  by (simp add: mem_realloc_def)

lemma sb_text_upd: "sb_text (sb\<lparr>sb_buf := Some b, sb_len := l\<rparr>) = take l b"
  by (simp add: sb_text_def)

lemma sb_text_length: "sb_inv sb \<Longrightarrow> length (sb_text sb) = sb_len sb"
  by (auto simp: sb_inv_def sb_text_def split: option.splits)

lemma strbuf_append_ok:
  assumes "sb_inv sb" "0 \<le> nl" "sb_fits (length (sb_text sb) + length str)"
  shows "\<exists>sb'. strbuf_append sb str nl = Some sb' \<and> sb_inv sb'
     \<and> sb_text sb' = sb_text sb @ str @ (if nl = 0 then [] else [CHR 0x0A]) \<and> sb_buf sb' \<noteq> None"
proof -
  define sb1 where "sb1 = (if sb_len sb + length str + 2 \<ge> sb_size sb
    then sb\<lparr>sb_buf := Some (mem_realloc (sb_buf sb) (sb_size sb + length str + 256)), sb_size := sb_size sb + length str + 256\<rparr>
    else sb)"
  have len: "sb_len sb \<le> sb_size sb" "sb_size sb \<le> 2 * sb_len sb + 258" using assms(1) by (auto simp: sb_inv_def split: option.splits)
  have fits: "sb_len sb + length str + 2 \<le> INT_MAX" "sb_len sb + length str + 2 \<ge> sb_size sb \<longrightarrow> sb_size sb + length str + 256 \<le> INT_MAX"
    using assms(3) sb_text_length [OF assms(1)] by (auto simp: sb_fits_def INT_MAX_def)
  have sz: "sb_size sb1 \<le> 2 * (sb_len sb + length str) + 258" using len by (auto simp: sb1_def)
  obtain b where b: "sb_buf sb1 = Some b" "length b = sb_size sb1" "sb_len sb1 = sb_len sb"
    "sb_len sb + length str + 2 < sb_size sb1" "take (sb_len sb) b = sb_text sb"
  proof (cases "sb_len sb + length str + 2 \<ge> sb_size sb")
    case True
    show ?thesis
      by (rule that [of "mem_realloc (sb_buf sb) (sb_size sb + length str + 256)"])
        (use True len assms(1) in \<open>auto simp: sb1_def sb_text_def sb_inv_def take_realloc split: option.splits\<close>)
  next
    case False
    then show ?thesis using assms(1) that
      by (auto simp: sb1_def sb_text_def sb_inv_def split: option.splits)
  qed
  define ls where "ls = (if nl = 0 then [] else [CHR 0x0A])"
  obtain b1 where b1: "mem_put b (sb_len sb) str = Some b1" using b by (simp add: mem_put_Some)
  obtain b2 where b2: "(if nl \<noteq> 0 then mem_put b1 (sb_len sb + length str) [CHR 0x0A] else Some b1) = Some b2"
    using b mem_put_length [OF b1] by (cases "nl = 0") (simp_all add: mem_put_Some)
  have l2: "length b2 = length b" using b2 mem_put_length [OF b1] by (auto dest: mem_put_length split: if_splits)
  have t2: "take (sb_len sb + length (str @ ls)) b2 = sb_text sb @ str @ ls"
    using b2 mem_put_take [OF b1] b(5) by (auto simp: ls_def add.assoc dest!: mem_put_take(2) split: if_splits)
  define l where "l = sb_len sb + length (str @ ls)"
  have lb: "l < length b2" using b(2,4) l2 by (simp add: l_def ls_def)
  have b3: "mem_put b2 l [NUL] = Some (take l b2 @ [NUL] @ drop (l + 1) b2)" using lb by (simp add: mem_put_Some)
  have "strbuf_append sb str nl = Some (sb1\<lparr>sb_buf := Some (take l b2 @ [NUL] @ drop (l + 1) b2), sb_len := l\<rparr>)"
    unfolding strbuf_append_def Let_def sb1_def [symmetric]
    using assms(2) fits b(1,3) b1 b2 b3 by (auto simp: l_def ls_def)
  moreover have "sb_inv (sb1\<lparr>sb_buf := Some (take l b2 @ [NUL] @ drop (l + 1) b2), sb_len := l\<rparr>)"
    using lb l2 b(2) sz by (simp add: sb_inv_def nth_append) (simp add: l_def)
  moreover have "take l (take l b2 @ [NUL] @ drop (l + 1) b2) = take l b2" using lb by simp
  then have "take l (take l b2 @ [NUL] @ drop (l + 1) b2) = sb_text sb @ str @ ls"
    using t2 [folded l_def] by (rule trans)
  then have "sb_text (sb1\<lparr>sb_buf := Some (take l b2 @ [NUL] @ drop (l + 1) b2), sb_len := l\<rparr>)
      = sb_text sb @ str @ (if nl = 0 then [] else [CHR 0x0A])"
    unfolding ls_def sb_text_upd .
  ultimately show ?thesis by fastforce
qed

text \<open>Appending a list of strings.\<close>

fun strbuf_append_all :: "strbuf \<Rightarrow> (string \<times> int) list \<Rightarrow> strbuf option" where
  "strbuf_append_all sb [] = Some sb"
| "strbuf_append_all sb ((str, nl) # xs) =
     (case strbuf_append sb str nl of None \<Rightarrow> None | Some sb \<Rightarrow> strbuf_append_all sb xs)"

lemma strbuf_append_all_ok:
  assumes "sb_inv sb" "\<forall>(str, nl) \<in> set xs. 0 \<le> nl" "xs \<noteq> []"
    "sb_fits (length (sb_text sb) + length (concat (map (\<lambda>(str, nl). str @ (if nl = 0 then [] else [CHR 0x0A])) xs)))"
  shows "\<exists>sb'. strbuf_append_all sb xs = Some sb' \<and> sb_inv sb' \<and> sb_buf sb' \<noteq> None
     \<and> sb_text sb' = sb_text sb @ concat (map (\<lambda>(str, nl). str @ (if nl = 0 then [] else [CHR 0x0A])) xs)"
  using assms
proof (induction xs arbitrary: sb)
  case (Cons x xs)
  obtain str nl where x: "x = (str, nl)" by fastforce
  obtain sb1 where 1: "strbuf_append sb str nl = Some sb1" "sb_inv sb1"
    "sb_text sb1 = sb_text sb @ str @ (if nl = 0 then [] else [CHR 0x0A])" "sb_buf sb1 \<noteq> None"
    using strbuf_append_ok [OF Cons.prems(1), of nl str] Cons.prems(2) sb_fits_mono [OF Cons.prems(4)] x by fastforce
  have fits: "sb_fits (length (sb_text sb1) + length (concat (map (\<lambda>(str, nl). str @ (if nl = 0 then [] else [CHR 0x0A])) xs)))"
    using Cons.prems(4) 1(3) x by (simp add: add.assoc)
  show ?case
  proof (cases "xs = []")
    case False
    then show ?thesis using Cons.IH [OF 1(2) _ False fits] Cons.prems(2) 1 x by auto
  qed (use 1 x in simp)
qed simp

lemma strbuf_drain_text: "sb_inv sb \<Longrightarrow> nonul (sb_text sb) \<Longrightarrow> sb_buf sb \<noteq> None \<Longrightarrow> strbuf_drain sb = Some (sb_text sb)"
proof -
  assume a: "sb_inv sb" "nonul (sb_text sb)" "sb_buf sb \<noteq> None"
  then obtain b where b: "sb_buf sb = Some b" by auto
  then have "b = sb_text sb @ NUL # drop (Suc (sb_len sb)) b"
    using a(1) id_take_nth_drop [of "sb_len sb" b] by (auto simp: sb_inv_def sb_text_def)
  then show ?thesis using a(2) b cstring_terminated by (metis option.map(2) strbuf_drain_def)
qed

text \<open>
  C27.  The string buffer is memory safe and loses nothing: starting from a new buffer, any sequence of
  appends of at most \<open>2\<^sup>3\<^sup>0 - 130\<close> bytes in all stays inside the block that is allocated at each moment, no
  \<^verbatim>\<open>int\<close> overflows, and draining the
  buffer gives the concatenation of the strings, each followed by a newline where asked for.
\<close>

theorem strbuf_safe_concat:
  assumes "xs \<noteq> []" "\<forall>(str, nl) \<in> set xs. 0 \<le> nl \<and> nonul str"
    "length (concat (map (\<lambda>(str, nl). str @ (if nl = 0 then [] else [CHR 0x0A])) xs)) \<le> 1073741694"
  shows "\<exists>sb. strbuf_append_all strbuf_new xs = Some sb
     \<and> strbuf_drain sb = Some (concat (map (\<lambda>(str, nl). str @ (if nl = 0 then [] else [CHR 0x0A])) xs))"
proof -
  let ?t = "concat (map (\<lambda>(str, nl). str @ (if nl = 0 then [] else [CHR 0x0A])) xs)"
  have "nonul ?t" using assms(2) by (induction xs) (auto split: prod.splits)
  moreover obtain sb where "strbuf_append_all strbuf_new xs = Some sb" "sb_inv sb" "sb_buf sb \<noteq> None" "sb_text sb = ?t"
    using strbuf_append_all_ok [of strbuf_new xs] assms by (fastforce simp: sb_fits_def)
  ultimately show ?thesis using strbuf_drain_text [of sb] by auto
qed

theorem strbuf_safe_concat_witness:
  "\<exists>sb. strbuf_append_all strbuf_new [(''ab'', 0), (''c'', 1)] = Some sb
     \<and> strbuf_drain sb = Some [CHR ''a'', CHR ''b'', CHR ''c'', CHR 0x0A]"
  using strbuf_safe_concat [of "[(''ab'', 0), (''c'', 1)]"] by simp

end
