(* ===== verification/Fmt.thy ===== *)
theory Fmt
  imports Base64 Sdb_Util Strbuf
begin

text \<open>
  Structures in strings: \<^verbatim>\<open>src/fmt.c\<close>.  A format string describes a C structure, one character per
  field; every field takes 8 bytes on a 64-bit target (\<^verbatim>\<open>R_MAX (sizeof (void*), n)\<close>).

  \<^item> The structure is the byte list at the address \<^verbatim>\<open>p\<close>; a read or a write outside of it is the
    result \<open>None\<close>.  Integers are little-endian.
  \<^item> \<open>load\<close> is the C string at an address, for the fields that hold pointers.  The strings that
    \<^verbatim>\<open>sdb_fmt_tobin\<close> allocates are the list \<open>heap\<close>; \<open>addr i\<close> is the address the allocator gives
    the \<open>i\<close>-th of them.  \<^verbatim>\<open>sdb_fmt_free\<close> only releases them.
\<close>

lemma strchr_tl_less: "Some n = map_option tl (strchr s c) \<Longrightarrow> length n < length s"
  using strchr_length [of s c] by (cases "strchr s c") (auto simp: neq_Nil_conv less_eq_Suc_le)

section \<open>Bytes and numbers\<close>

definition mem_get :: "bytes \<Rightarrow> nat \<Rightarrow> nat \<Rightarrow> bytes option" where
  "mem_get mem off n = (if off + n \<le> length mem then Some (take n (drop off mem)) else None)"

fun le_val :: "bytes \<Rightarrow> nat" where
  "le_val [] = 0"
| "le_val (c # bs) = of_char c + 256 * le_val bs"

fun le_bytes :: "nat \<Rightarrow> nat \<Rightarrow> bytes" where
  "le_bytes 0 v = []"
| "le_bytes (Suc n) v = char_of v # le_bytes n (v div 256)"

section \<open>Operations\<close>

text \<open>The text of one field; the inner \<open>None\<close> is a format character that is not known.\<close>

definition fmt_value :: "(ut64 \<Rightarrow> string) \<Rightarrow> bytes \<Rightarrow> nat \<Rightarrow> char \<Rightarrow> string option option" where
  "fmt_value load p len c =
     (if c = CHR ''b'' then
        map_option (\<lambda>b. Some (itoa64 (word_of_nat (le_val b)) 10)) (mem_get p len 1)
      else if c = CHR ''h'' then
        map_option (\<lambda>b. Some (itoa64 (scast (word_of_nat (le_val b) :: 16 word)) 10)) (mem_get p len 2)
      else if c = CHR ''d'' then
        map_option (\<lambda>b. Some (itoa64 (scast (word_of_nat (le_val b) :: ut32)) 10)) (mem_get p len 4)
      else if c = CHR ''q'' then
        map_option (\<lambda>b. Some (itoa64 (word_of_nat (le_val b)) 10)) (mem_get p len 8)
      else if c = CHR ''z'' then
        (if NUL \<in> set (drop len p) then Some (Some (cstring (drop len p))) else None)
      else if c = CHR ''s'' then
        map_option (\<lambda>b. Some (sdb_encode (map of_char (load (word_of_nat (le_val b)))) (-1))) (mem_get p len 8)
      else if c = CHR ''p'' then
        map_option (\<lambda>b. Some (itoa64 (word_of_nat (le_val b)) 16)) (mem_get p len 8)
      else Some None)"

fun fmt_tostr_loop :: "(ut64 \<Rightarrow> string) \<Rightarrow> bytes \<Rightarrow> string \<Rightarrow> nat \<Rightarrow> strbuf \<Rightarrow> strbuf option" where
  "fmt_tostr_loop load p [] len sb = Some sb"
| "fmt_tostr_loop load p (c # fmt) len sb =
     (case fmt_value load p len c of
        None \<Rightarrow> None
      | Some val \<Rightarrow>
          (case (case val of
                   None \<Rightarrow> Some sb
                 | Some v \<Rightarrow>
                     if v = [] then Some sb
                     else (case (if sb_len sb > 0 then strbuf_append sb '','' 0 else Some sb) of
                             None \<Rightarrow> None
                           | Some sb \<Rightarrow> strbuf_append sb v 0)) of
             None \<Rightarrow> None
           | Some sb \<Rightarrow> fmt_tostr_loop load p fmt (len + 8) sb))"

definition sdb_fmt_tostr :: "(ut64 \<Rightarrow> string) \<Rightarrow> bytes \<Rightarrow> string \<Rightarrow> string option option" where
  "sdb_fmt_tostr load p fmt = map_option strbuf_drain (fmt_tostr_loop load p fmt 0 strbuf_new)"

definition fmt_store ::
  "(nat \<Rightarrow> ut64) \<Rightarrow> bytes \<Rightarrow> string list \<Rightarrow> nat \<Rightarrow> char \<Rightarrow> string \<Rightarrow> (bytes \<times> string list) option" where
  "fmt_store addr stru heap idx c word =
     (let num = (\<lambda>n. map_option (\<lambda>m. (m, heap)) (mem_put stru idx (le_bytes n (unat (sdb_atoi word)))));
          ptr = (\<lambda>s. map_option (\<lambda>m. (m, heap @ [s])) (mem_put stru idx (le_bytes 8 (unat (addr (length heap))))))
      in if c = CHR ''b'' then num 1
         else if c = CHR ''d'' then num 4
         else if c = CHR ''q'' then num 8
         else if c = CHR ''h'' then num 2
         else if c = CHR ''s'' then
           ptr (case sdb_decode word of Some e \<Rightarrow> cstring (map (\<lambda>b. char_of (unat b)) e) | None \<Rightarrow> word)
         else if c = CHR ''z'' then ptr word
         else if c = CHR ''p'' then num 8
         else Some (stru, heap))"

fun fmt_tobin_loop ::
  "(nat \<Rightarrow> ut64) \<Rightarrow> string \<Rightarrow> string \<Rightarrow> nat \<Rightarrow> nat \<Rightarrow> bytes \<Rightarrow> string list \<Rightarrow> (nat \<times> bytes \<times> string list) option" where
  "fmt_tobin_loop addr ptr [] idx items stru heap = Some (items, stru, heap)"
| "fmt_tobin_loop addr ptr (c # fmt) idx items stru heap =
     (case sdb_anext ptr of
        (word, next) \<Rightarrow>
          if word = [] then Some (items, stru, heap)
          else
            (case fmt_store addr stru heap idx c word of
               None \<Rightarrow> None
             | Some (stru, heap) \<Rightarrow>
                 (case next of
                    None \<Rightarrow> Some (Suc items, stru, heap)
                  | Some n \<Rightarrow> fmt_tobin_loop addr n fmt (idx + 8) (Suc items) stru heap)))"

definition sdb_fmt_tobin ::
  "(nat \<Rightarrow> ut64) \<Rightarrow> string \<Rightarrow> string \<Rightarrow> bytes \<Rightarrow> string list \<Rightarrow> (nat \<times> bytes \<times> string list) option" where
  "sdb_fmt_tobin addr str fmt stru heap =
     (if str = [] then Some (0, stru, heap) else fmt_tobin_loop addr str fmt 0 0 stru heap)"

definition fmt_size :: "char \<Rightarrow> nat" where
  "fmt_size c =
     (if c = CHR ''b'' then 1 else if c = CHR ''h'' then 2 else if c = CHR ''d'' then 4
      else if c \<in> {CHR ''q'', CHR ''z'', CHR ''s'', CHR ''p''} then 8 else 0)"

text \<open>The length \<^verbatim>\<open>sdb_fmt_init\<close> returns, and the structure after its \<^verbatim>\<open>memset\<close>.\<close>

definition sdb_fmt_init :: "bytes option \<Rightarrow> string \<Rightarrow> (nat \<times> bytes option) option" where
  "sdb_fmt_init p fmt =
     (let len = sum_list (map fmt_size fmt) in
      case p of
        None \<Rightarrow> Some (len, None)
      | Some p \<Rightarrow> map_option (\<lambda>p. (len, Some p)) (mem_put p 0 (replicate len NUL)))"

definition sdb_anext2 :: "string \<Rightarrow> string \<times> string option" where
  "sdb_anext2 str = (str, map_option tl (strchr str SDB_RS))"

text \<open>
  \<^verbatim>\<open>sdb_fmt_array_num\<close> returns the length followed by the numbers; the model gives the numbers.
  \<open>None\<close> is the NULL of an empty list, and would be a write past the \<^verbatim>\<open>len + 1\<close> cells that were
  allocated (there is none, \<open>fmt_array_num_fields\<close> below).
\<close>

function fmt_num_loop :: "string \<Rightarrow> ut64 list" where
  "fmt_num_loop ptr =
     (case sdb_anext2 ptr of (str, next) \<Rightarrow>
        sdb_atoi str # (case next of None \<Rightarrow> [] | Some n \<Rightarrow> fmt_num_loop n))"
  by pat_completeness auto
termination
  by (relation "measure length")
    (auto simp: sdb_anext2_def dest: strchr_tl_less)

declare fmt_num_loop.simps [simp del]

definition sdb_fmt_array_num :: "string \<Rightarrow> ut64 list option" where
  "sdb_fmt_array_num list =
     (if list = [] then None
      else let nums = fmt_num_loop list in
           if length nums \<le> sdb_alen (Some list) then Some nums else None)"

text \<open>
  \<^verbatim>\<open>sdb_fmt_array\<close>: the elements, and the number of bytes written behind the table of pointers; a write
  outside of the block of \<^verbatim>\<open>2 * strlen (list) + (len + 1) * sizeof (char *) + 1\<close> bytes would be \<open>None\<close>.
\<close>

function fmt_array_loop :: "string \<Rightarrow> nat \<Rightarrow> string list \<times> nat" where
  "fmt_array_loop ptr used =
     (case sdb_anext2 ptr of (str, next) \<Rightarrow>
        (case next of
           None \<Rightarrow> ([str], used + length str + 2)
         | Some n \<Rightarrow>
             let slen = length str - length n - 1;
                 (rest, used) = fmt_array_loop n (used + slen + 1)
             in (take slen str # rest, used)))"
  by pat_completeness auto
termination
  by (relation "measure (\<lambda>(ptr, used). length ptr)")
    (auto simp: sdb_anext2_def dest: strchr_tl_less)

declare fmt_array_loop.simps [simp del]

definition sdb_fmt_array :: "string \<Rightarrow> string list option" where
  "sdb_fmt_array list =
     (if list = [] then None
      else case fmt_array_loop list 0 of
        (elems, used) \<Rightarrow>
          if length elems \<le> sdb_alen (Some list) \<and> used \<le> 2 * length list + 1 then Some elems else None)"

section \<open>Lists\<close>

lemma anext2_sep: "SDB_RS \<in> set s \<Longrightarrow> sdb_anext2 s = (s, Some (tl (dropWhile (\<lambda>x. x \<noteq> SDB_RS) s)))"
  by (simp add: sdb_anext2_def strchr_Some)

lemma anext2_last: "SDB_RS \<notin> set s \<Longrightarrow> sdb_anext2 s = (s, None)"
  by (simp add: sdb_anext2_def strchr_None [THEN iffD2])

lemma fmt_array_loop_fields:
  "fmt_array_loop p u = (splitc SDB_RS p, u + length p + 2)"
proof (induction p u rule: fmt_array_loop.induct)
  case (1 p u)
  show ?case
  proof (cases "SDB_RS \<in> set p")
    case True
    let ?d = "dropWhile (\<lambda>x. x \<noteq> SDB_RS) p" and ?t = "takeWhile (\<lambda>x. x \<noteq> SDB_RS) p"
    have d: "?d \<noteq> []" using True by (auto simp: dropWhile_eq_Nil_conv)
    have p: "p = ?t @ SDB_RS # tl ?d"
      using takeWhile_dropWhile_id [of "\<lambda>x. x \<noteq> SDB_RS" p] hd_dropWhile [OF d] d by (metis list.collapse)
    have len: "length p - length (tl ?d) - 1 = length ?t" "length p = length ?t + 1 + length (tl ?d)"
      using arg_cong [OF p, of length] by simp_all
    have tk: "take (length ?t) p = ?t" by (subst p) simp
    note a = anext2_sep [OF True]
    have "fmt_array_loop (tl ?d) (u + length ?t + 1) = (splitc SDB_RS (tl ?d), u + length ?t + 1 + length (tl ?d) + 2)"
      using 1 [OF a [symmetric] refl refl] len(1) by simp
    then show ?thesis using True len(2)
      by (subst fmt_array_loop.simps) (simp add: a len(1) tk splitc_span [of _ p])
  next
    case False
    then show ?thesis by (subst fmt_array_loop.simps) (simp add: anext2_last splitc_no_sep)
  qed
qed

lemma fmt_array_fields: "s \<noteq> [] \<Longrightarrow> sdb_fmt_array s = Some (splitc SDB_RS s)"
  using alen_fields [of s] by (cases s) (auto simp: sdb_fmt_array_def fmt_array_loop_fields)

lemma sep_char: "SDB_RS \<noteq> NUL" "\<not> isspace SDB_RS" "\<not> isdigit_in base SDB_RS" "SDB_RS \<noteq> CHR ''-''"
  "SDB_RS \<noteq> CHR ''+''" "SDB_RS \<noteq> CHR ''0''" "SDB_RS \<noteq> CHR ''x''" "SDB_RS \<noteq> CHR ''X''"
  by (simp_all add: SDB_RS_def isspace_def isdigit_in_def digit_val_def)

lemma digits_field: "SDB_RS \<notin> set f \<Longrightarrow> strtoull_digits base acc (f @ SDB_RS # r) = strtoull_digits base acc f"
  by (induction f arbitrary: acc) (simp_all add: sep_char)

lemma isdigit_NUL: "\<not> isdigit_in base NUL"
  by (simp add: isdigit_in_def digit_val_def)

lemma space_field: "SDB_RS \<notin> set f \<Longrightarrow> dropWhile isspace (f @ SDB_RS # r) = dropWhile isspace f @ SDB_RS # r"
  by (induction f) (simp_all add: sep_char)

lemma deref_field: "(deref (g @ SDB_RS # r) = c \<longleftrightarrow> deref g = c)" if "c \<noteq> SDB_RS" "c \<noteq> NUL"
  using that by (cases g) (auto simp: deref_def)

lemma deref_digit: "isdigit_in base (deref (g @ SDB_RS # r)) \<longleftrightarrow> isdigit_in base (deref g)"
  by (cases g) (auto simp: deref_def sep_char isdigit_NUL)

lemma atoi_field:
  assumes "SDB_RS \<notin> set f"
  shows "sdb_atoi (f @ SDB_RS # r) = sdb_atoi f"
proof -
  define g where "g = dropWhile isspace f"
  define h where "h = (if deref g = CHR ''-'' \<or> deref g = CHR ''+'' then tl g else g)"
  have g: "SDB_RS \<notin> set g" using assms set_dropWhileD by (fastforce simp: g_def)
  have h: "SDB_RS \<notin> set h" using g by (cases g) (auto simp: h_def)
  have s2: "(if deref (g @ SDB_RS # r) = CHR ''-'' \<or> deref (g @ SDB_RS # r) = CHR ''+''
      then tl (g @ SDB_RS # r) else g @ SDB_RS # r) = h @ SDB_RS # r"
    by (cases g) (auto simp: h_def deref_def sep_char)
  note neq = sep_char(4-8) [symmetric]
  have v: "(if deref (h @ SDB_RS # r) = CHR ''0'' then
        if (deref (tl (h @ SDB_RS # r)) = CHR ''x'' \<or> deref (tl (h @ SDB_RS # r)) = CHR ''X'')
          \<and> isdigit_in 16 (deref (tl (tl (h @ SDB_RS # r))))
        then strtoull_digits 16 0 (tl (tl (h @ SDB_RS # r))) else strtoull_digits 8 0 (h @ SDB_RS # r)
      else strtoull_digits 10 0 (h @ SDB_RS # r))
     = (if deref h = CHR ''0'' then
        if (deref (tl h) = CHR ''x'' \<or> deref (tl h) = CHR ''X'') \<and> isdigit_in 16 (deref (tl (tl h)))
        then strtoull_digits 16 0 (tl (tl h)) else strtoull_digits 8 0 h
      else strtoull_digits 10 0 h)"
  proof (cases "deref h = CHR ''0''")
    case True
    then obtain h1 where h1: "h = CHR ''0'' # h1" by (cases h) (auto simp: deref_def)
    show ?thesis
    proof (cases h1)
      case (Cons x h2)
      have d: "strtoull_digits b a (h2 @ SDB_RS # r) = strtoull_digits b a h2" for b a
        using digits_field [of h2] h h1 Cons by simp
      have "isdigit_in 16 (deref (h2 @ SDB_RS # r)) \<longleftrightarrow> isdigit_in 16 (deref h2)" by (rule deref_digit)
      then show ?thesis using h1 Cons d by (simp add: deref_def [of "_ # _"])
    qed (simp add: h1 deref_def sep_char)
  qed (use deref_field [of "CHR ''0''" h r] neq digits_field [OF h] in auto)
  have m: "deref (g @ SDB_RS # r) = CHR ''-'' \<longleftrightarrow> deref g = CHR ''-''" 
    "deref (f @ SDB_RS # r) = CHR ''-'' \<longleftrightarrow> deref f = CHR ''-''"
    using deref_field [of "CHR ''-''"] neq by auto
  show ?thesis
    unfolding sdb_atoi_def strtoull0_def Let_def space_field [OF assms] g_def [symmetric]
    unfolding s2 h_def [symmetric] v
    unfolding m ..
qed

lemma fmt_num_loop_splitc: "fmt_num_loop p = map sdb_atoi (splitc SDB_RS p)"
proof (induction p rule: fmt_num_loop.induct)
  case (1 p)
  show ?case
  proof (cases "SDB_RS \<in> set p")
    case True
    then obtain f r where p: "p = f @ SDB_RS # r" and f: "SDB_RS \<notin> set f" by (meson split_list_first)
    have a: "sdb_anext2 p = (p, Some r)" by (simp add: sdb_anext2_def p strchr_append_sep [OF f])
    show ?thesis using 1 [OF a [symmetric]]
      by (subst fmt_num_loop.simps) (simp add: a [unfolded p] p splitc_append_sep [OF f] atoi_field [OF f])
  next
    case False
    then show ?thesis by (subst fmt_num_loop.simps) (simp add: anext2_last splitc_no_sep)
  qed
qed

lemma fmt_array_num_fields: "s \<noteq> [] \<Longrightarrow> sdb_fmt_array_num s = Some (map sdb_atoi (splitc SDB_RS s))"
  using alen_fields [of s] by (simp add: sdb_fmt_array_num_def fmt_num_loop_splitc)

text \<open>
  \<^verbatim>\<open>sdb_fmt_array\<close> and \<^verbatim>\<open>sdb_fmt_array_num\<close> split a non-empty list into its fields, without
  writing outside of the block they allocate: neither past the table of elements nor past the
  copies of the strings behind it.
\<close>

theorem fmt_arrays_safe:
  assumes "s \<noteq> []"
  shows "sdb_fmt_array s = Some (splitc SDB_RS s) \<and>
    sdb_fmt_array_num s = Some (map sdb_atoi (splitc SDB_RS s)) \<and>
    snd (fmt_array_loop s 0) \<le> 2 * length s + 1"
  using fmt_array_fields [OF assms] fmt_array_num_fields [OF assms] assms
  by (cases s) (simp_all add: fmt_array_loop_fields)

theorem fmt_arrays_safe_witness:
  "sdb_fmt_array ''a,,b'' = Some [''a'', '''', ''b''] \<and> snd (fmt_array_loop ''a,,b'' 0) \<le> 9"
  using fmt_arrays_safe [of "''a,,b''"] by (simp add: SDB_RS_def)

section \<open>Structures\<close>

lemma itoa64_chars:
  assumes "base \<in> {10, 16}"
  shows "itoa64 n base \<noteq> []" "SDB_RS \<notin> set (itoa64 n base)" "nonul (itoa64 n base)"
proof -
  have d: "set (digs b m) \<subseteq> set ''0123456789abcdef''" if "b \<le> 16" for b m
    using that
  proof (induction b m rule: digs.induct)
    case (1 b m)
    have "itoa_digit (m mod b) \<in> set ''0123456789abcdef''" if "2 \<le> b"
      using that 1(2) unfolding itoa_digit_def by (intro nth_mem) (simp add: less_le_trans [of "m mod b" b])
    then show ?case using 1 by (subst digs.simps) (auto simp: not_less)
  qed
  have ne: "n \<noteq> 0 \<Longrightarrow> digs 10 (unat n) \<noteq> []" using digs_hd [of 10 "unat n"] by (auto simp: unat_eq_zero)
  show "itoa64 n base \<noteq> []" using assms ne by (cases "n = 0") (auto simp: itoa64_zero itoa64_dec itoa64_hex)
  have "set (itoa64 n base) \<subseteq> set ''x0123456789abcdef''"
    using assms d [of 10 "unat n"] d [of 16 "unat n"]
    by (cases "n = 0") (auto simp: itoa64_zero itoa64_dec itoa64_hex)
  then show "SDB_RS \<notin> set (itoa64 n base)" "nonul (itoa64 n base)"
    by (auto simp: SDB_RS_def nonul_def)
qed

lemma le_bytes_length [simp]: "length (le_bytes n v) = n"
  by (induction n arbitrary: v) auto

lemma le_val_bound: "le_val bs < 256 ^ length bs"
proof (induction bs)
  case (Cons c bs)
  have "of_char c + 256 * le_val bs < 256 + 256 * le_val bs" using of_char_lt_256 [of c] by simp
  also have "\<dots> \<le> 256 * 256 ^ length bs" using Cons by (simp add: Suc_le_eq)
  finally show ?case by simp
qed simp

lemma le_bytes_mod: "n \<le> m \<Longrightarrow> le_bytes n (v mod 256 ^ m) = le_bytes n v"
proof (induction n arbitrary: v m)
  case (Suc n)
  then obtain m' where m: "m = Suc m'" by (cases m) auto
  have 1: "v mod (256 * 256 ^ m') div 256 = (v div 256) mod 256 ^ m'"
    by (simp add: div_mult2_eq [symmetric] mod_mult2_eq)
  have 2: "v mod 256 ^ m mod 256 = v mod 256" by (simp add: m mod_mult2_eq mod_mod_cancel)
  have "char_of (v mod 256 ^ m) = (char_of v :: char)" by (metis 2 char_of_mod_256)
  then show ?case using Suc.IH [of m' "v div 256"] Suc.prems by (simp add: 1 m)
qed simp

lemma le_bytes_val: "le_bytes (length bs) (le_val bs) = bs"
proof (induction bs)
  case (Cons c bs)
  have "char_of (of_char c + 256 * le_val bs) = (char_of (of_char c :: nat) :: char)"
    by (metis char_of_mod_256 mod_mult_self2)
  moreover have "(of_char c + 256 * le_val bs) div 256 = le_val bs" using of_char_lt_256 [of c] by simp
  ultimately show ?case using Cons by simp
qed simp

lemma ucast_scast: "ucast (scast (x :: 16 word) :: ut64) = x" "ucast (scast (y :: ut32) :: ut64) = y"
  by (rule bit_word_eqI, simp add: bit_simps)+

lemma fmt_value_num:
  assumes "c \<in> set ''bhdqp''" "len + fmt_size c \<le> length p"
  shows "\<exists>w base. base \<in> {10, 16} \<and> fmt_value load p len c = Some (Some (itoa64 w base))
     \<and> le_bytes (fmt_size c) (unat w) = take (fmt_size c) (drop len p)"
proof -
  let ?b = "take (fmt_size c) (drop len p)"
  have l: "length ?b = fmt_size c" using assms(2) by simp
  have v: "le_val ?b < 256 ^ fmt_size c" using le_val_bound [of ?b] l by simp
  have b: "le_bytes (fmt_size c) (le_val ?b) = ?b" using le_bytes_val [of ?b] l by simp
  have get: "mem_get p len (fmt_size c) = Some ?b" using assms(2) by (simp add: mem_get_def)
  consider "c = CHR ''b''" | "c = CHR ''h''" | "c = CHR ''d''" | "c = CHR ''q'' \<or> c = CHR ''p''"
    using assms(1) by auto
  then show ?thesis
  proof cases
    case 1
    then have "unat (word_of_nat (le_val ?b) :: ut64) = le_val ?b"
      using v by (simp add: fmt_size_def unat_of_nat)
    then show ?thesis using 1 get b by (auto simp: fmt_value_def fmt_size_def intro!: exI [of _ "word_of_nat (le_val ?b)"])
  next
    case 2
    let ?w = "scast (word_of_nat (le_val ?b) :: 16 word) :: ut64"
    have "unat ?w mod 256 ^ 2 = le_val ?b"
      using arg_cong [OF ucast_scast(1) [of "word_of_nat (le_val ?b)"], of unat] v 2
      by (simp add: fmt_size_def unat_of_nat unsigned_ucast_eq take_bit_eq_mod)
    then have "le_bytes 2 (unat ?w) = ?b" using le_bytes_mod [of 2 2 "unat ?w"] b 2 by (simp add: fmt_size_def)
    then show ?thesis using 2 get by (auto simp: fmt_value_def fmt_size_def intro!: exI [of _ ?w])
  next
    case 3
    let ?w = "scast (word_of_nat (le_val ?b) :: ut32) :: ut64"
    have "unat ?w mod 256 ^ 4 = le_val ?b"
      using arg_cong [OF ucast_scast(2) [of "word_of_nat (le_val ?b)"], of unat] v 3
      by (simp add: fmt_size_def unat_of_nat unsigned_ucast_eq take_bit_eq_mod)
    then have "le_bytes 4 (unat ?w) = ?b" using le_bytes_mod [of 4 4 "unat ?w"] b 3 by (simp add: fmt_size_def)
    then show ?thesis using 3 get by (auto simp: fmt_value_def fmt_size_def intro!: exI [of _ ?w])
  next
    case 4
    then have "unat (word_of_nat (le_val ?b) :: ut64) = le_val ?b"
      using v by (auto simp: fmt_size_def unat_of_nat)
    then show ?thesis using 4 get b by (auto simp: fmt_value_def fmt_size_def intro!: exI [of _ "word_of_nat (le_val ?b)"])
  qed
qed

fun field_texts :: "(ut64 \<Rightarrow> string) \<Rightarrow> bytes \<Rightarrow> string \<Rightarrow> nat \<Rightarrow> string list" where
  "field_texts load p [] len = []"
| "field_texts load p (c # fmt) len = the (the (fmt_value load p len c)) # field_texts load p fmt (len + 8)"

lemma joinc_merge: "joinc c (t # v # vs) = joinc c ((t @ c # v) # vs)"
  by (cases vs) auto

lemma fmt_size_le: "fmt_size c \<le> 8"
  by (simp add: fmt_size_def)

lemma itoa64_bound:
  assumes "base \<in> {10, 16}"
  shows "length (itoa64 w base) < 64"
proof -
  have "\<bar>base\<bar> \<le> 16" using assms by auto
  from sdb_itoa_bounds [OF this, of w] show ?thesis by (auto simp: itoa64_def SDB_NUM_BUFSZ_def)
qed

lemma fmt_append_field:
  assumes "sb_inv sb" "v \<noteq> []" "sb_fits (length (sb_text sb) + length v + 1)"
  shows "\<exists>sb'. (case (if sb_len sb > 0 then strbuf_append sb '','' 0 else Some sb) of
       None \<Rightarrow> None | Some sb \<Rightarrow> strbuf_append sb v 0) = Some sb'
     \<and> sb_inv sb' \<and> sb_buf sb' \<noteq> None
     \<and> sb_text sb' = joinc SDB_RS ((if sb_text sb = [] then [] else [sb_text sb]) @ [v])"
proof (cases "sb_text sb = []")
  case True
  then have "sb_len sb = 0" using sb_text_length [OF assms(1)] by simp
  then show ?thesis using strbuf_append_ok [OF assms(1), of 0 v] sb_fits_mono [OF assms(3)] True by auto
next
  case False
  then have "sb_len sb > 0" using sb_text_length [OF assms(1)] by (metis length_greater_0_conv)
  moreover obtain sb1 where 1: "strbuf_append sb '','' 0 = Some sb1" "sb_inv sb1" "sb_text sb1 = sb_text sb @ '',''"
    using strbuf_append_ok [OF assms(1), of 0 "'',''"] sb_fits_mono [OF assms(3)] assms(2) by (auto simp: Suc_le_eq)
  moreover have "sb_fits (length (sb_text sb1) + length v)" using assms(3) 1(3) by simp
  moreover note strbuf_append_ok [OF 1(2), of 0 v]
  ultimately show ?thesis using False by (auto simp: SDB_RS_def)
qed

lemma tostr_loop_fields:
  assumes "sb_inv sb" "set fmt \<subseteq> set ''bhdqp''" "len + 8 * length fmt \<le> length p"
    "sb_fits (length (sb_text sb) + 65 * length fmt)"
  shows "\<exists>sb'. fmt_tostr_loop load p fmt len sb = Some sb' \<and> sb_inv sb' \<and> (fmt \<noteq> [] \<longrightarrow> sb_buf sb' \<noteq> None)
     \<and> sb_text sb' = joinc SDB_RS ((if sb_text sb = [] then [] else [sb_text sb]) @ field_texts load p fmt len)"
  using assms
proof (induction fmt arbitrary: len sb)
  case (Cons c fmt)
  have c: "c \<in> set ''bhdqp''" "len + fmt_size c \<le> length p" using Cons.prems fmt_size_le [of c] by auto
  obtain w base where v: "base \<in> {10, 16}" "fmt_value load p len c = Some (Some (itoa64 w base))"
    using fmt_value_num [OF c] by blast
  note ne = itoa64_chars(1) [OF v(1), of w] and bound = itoa64_bound [OF v(1), of w]
  have fits: "sb_fits (length (sb_text sb) + length (itoa64 w base) + 1)"
    by (rule sb_fits_mono [OF Cons.prems(4)]) (use bound in simp)
  obtain sb1 where 1: "(case (if sb_len sb > 0 then strbuf_append sb '','' 0 else Some sb) of
       None \<Rightarrow> None | Some sb \<Rightarrow> strbuf_append sb (itoa64 w base) 0) = Some sb1"
    "sb_inv sb1" "sb_buf sb1 \<noteq> None"
    "sb_text sb1 = joinc SDB_RS ((if sb_text sb = [] then [] else [sb_text sb]) @ [itoa64 w base])"
    using fmt_append_field [OF Cons.prems(1) ne fits] by blast
  have fits1: "sb_fits (length (sb_text sb1) + 65 * length fmt)"
    by (rule sb_fits_mono [OF Cons.prems(4)]) (use bound 1(4) in simp)
  have "sb_text sb1 \<noteq> []" using 1(4) ne by auto
  then obtain sb' where 2: "fmt_tostr_loop load p fmt (len + 8) sb1 = Some sb'" "sb_inv sb'"
    "fmt \<noteq> [] \<longrightarrow> sb_buf sb' \<noteq> None" "sb_text sb' = joinc SDB_RS (sb_text sb1 # field_texts load p fmt (len + 8))"
    using Cons.IH [OF 1(2), of "len + 8"] Cons.prems fits1 by auto
  have "sb_text sb' = joinc SDB_RS ((if sb_text sb = [] then [] else [sb_text sb]) @ field_texts load p (c # fmt) len)"
    using 2(4) 1(4) v(2) joinc_merge [of SDB_RS "sb_text sb" "itoa64 w base"] by (auto split: if_splits)
  moreover have "sb_buf sb' \<noteq> None" using 2 1(3) by (cases "fmt = []") auto
  moreover have "fmt_tostr_loop load p (c # fmt) len sb = Some sb'" using v(2) ne 1(1) 2(1) by simp
  ultimately show ?case using 2(2) by blast
qed (auto split: if_splits)

lemma field_texts_ok:
  assumes "set fmt \<subseteq> set ''bhdqp''" "len + 8 * length fmt \<le> length p" "v \<in> set (field_texts load p fmt len)"
  shows "v \<noteq> [] \<and> SDB_RS \<notin> set v \<and> nonul v"
  using assms
proof (induction fmt arbitrary: len)
  case (Cons c fmt)
  have c: "c \<in> set ''bhdqp''" "len + fmt_size c \<le> length p" using Cons.prems fmt_size_le [of c] by auto
  obtain w base where b: "base \<in> {10, 16}" "fmt_value load p len c = Some (Some (itoa64 w base))"
    using fmt_value_num [OF c] by blast
  show ?case
  proof (cases "v = itoa64 w base")
    case True
    then show ?thesis using itoa64_chars [OF b(1)] by simp
  next
    case False
    then have "v \<in> set (field_texts load p fmt (len + 8))" using Cons.prems(3) b(2) by simp
    then show ?thesis using Cons.IH [of "len + 8"] Cons.prems by auto
  qed
qed simp

lemma tostr_fields:
  assumes "fmt \<noteq> []" "set fmt \<subseteq> set ''bhdqp''" "8 * length fmt \<le> length p" "length fmt \<le> 16000000"
  shows "sdb_fmt_tostr load p fmt = Some (Some (joinc SDB_RS (field_texts load p fmt 0)))"
proof -
  have nn: "nonul (joinc SDB_RS vs)" if "\<forall>v \<in> set vs. nonul v" for vs
    using that by (induction SDB_RS vs rule: joinc.induct) (auto simp: SDB_RS_def)
  obtain sb where sb: "fmt_tostr_loop load p fmt 0 strbuf_new = Some sb" "sb_inv sb" "sb_buf sb \<noteq> None"
    "sb_text sb = joinc SDB_RS (field_texts load p fmt 0)"
    using tostr_loop_fields [of strbuf_new fmt 0 p load] assms by (auto simp: sb_fits_def)
  have "nonul (sb_text sb)" unfolding sb(4)
    by (rule nn) (use field_texts_ok [OF assms(2), of 0 p _ load] assms(3) in auto)
  then show ?thesis using sb strbuf_drain_text [OF sb(2)] by (simp add: sdb_fmt_tostr_def)
qed

lemma tobin_loop_fields:
  assumes "fmt \<noteq> []" "set fmt \<subseteq> set ''bhdqp''" "len + 8 * length fmt \<le> length p" "length m = length p"
  shows "\<exists>m'. fmt_tobin_loop addr (joinc SDB_RS (field_texts load p fmt len)) fmt len items m heap
        = Some (items + length fmt, m', heap)
     \<and> length m' = length m \<and> take len m' = take len m
     \<and> (\<forall>i < length fmt. take (fmt_size (fmt ! i)) (drop (len + 8 * i) m') = take (fmt_size (fmt ! i)) (drop (len + 8 * i) p))"
  using assms
proof (induction fmt arbitrary: len items m)
  case (Cons c fmt)
  let ?n = "fmt_size c"
  have c: "c \<in> set ''bhdqp''" "len + ?n \<le> length p" using Cons.prems fmt_size_le [of c] by auto
  obtain w base where v: "base \<in> {10, 16}" "fmt_value load p len c = Some (Some (itoa64 w base))"
    "le_bytes ?n (unat w) = take ?n (drop len p)"
    using fmt_value_num [OF c] by blast
  note ch = itoa64_chars [OF v(1), of w]
  define m1 where "m1 = take len m @ take ?n (drop len p) @ drop (len + ?n) m"
  have put: "mem_put m len (le_bytes ?n (unat w)) = Some m1"
    using c(2) Cons.prems(4) v(3) by (simp add: mem_put_def m1_def)
  have "sdb_atoi (itoa64 w base) = w" using atoi_itoa [of base w] v(1) by auto
  then have st: "fmt_store addr m heap len c (itoa64 w base) = Some (m1, heap)"
    using put c(1) by (auto simp: fmt_store_def fmt_size_def Let_def)
  have m1: "length m1 = length p" "take len m1 = take len m" "take ?n (drop len m1) = take ?n (drop len p)"
    using c(2) Cons.prems(4) by (simp_all add: m1_def min_absorb2)
  show ?case
  proof (cases "fmt = []")
    case True
    have "fmt_tobin_loop addr (joinc SDB_RS (field_texts load p (c # fmt) len)) (c # fmt) len items m heap
        = Some (items + length (c # fmt), m1, heap)"
      using True v(2) ch st by (simp add: sdb_anext_def strchr_None [THEN iffD2])
    then show ?thesis using True m1 Cons.prems(4) by auto
  next
    case False
    have ne: "field_texts load p fmt (len + 8) \<noteq> []" using False by (cases fmt) auto
    have nx: "sdb_anext (joinc SDB_RS (field_texts load p (c # fmt) len))
        = (itoa64 w base, Some (joinc SDB_RS (field_texts load p fmt (len + 8))))"
      using v(2) ch(2) by (auto simp: sdb_anext_def joinc_Cons [OF ne] strchr_append_sep takeWhile_append)
    obtain m' where m': "fmt_tobin_loop addr (joinc SDB_RS (field_texts load p fmt (len + 8))) fmt (len + 8) (Suc items) m1 heap
        = Some (Suc items + length fmt, m', heap)" "length m' = length m1" "take (len + 8) m' = take (len + 8) m1"
      "\<forall>i < length fmt. take (fmt_size (fmt ! i)) (drop (len + 8 + 8 * i) m') = take (fmt_size (fmt ! i)) (drop (len + 8 + 8 * i) p)"
      using Cons.IH [OF False, of "len + 8" m1 "Suc items"] Cons.prems m1(1) by auto
    have hd: "take ?n (drop len m') = take ?n (drop len p)"
    proof -
      have "take ?n (drop len m') = take ?n (drop len (take (len + 8) m'))"
        using fmt_size_le [of c] by (simp add: drop_take min_absorb1)
      also have "\<dots> = take ?n (drop len m1)"
        using m'(3) fmt_size_le [of c] by (simp add: drop_take min_absorb1)
      finally show ?thesis using m1(3) by simp
    qed
    have "take len m' = take len m"
      using arg_cong [OF m'(3), of "take len"] m1(2) by (simp add: min_absorb1)
    moreover have "take (fmt_size ((c # fmt) ! i)) (drop (len + 8 * i) m') = take (fmt_size ((c # fmt) ! i)) (drop (len + 8 * i) p)"
      if "i < length (c # fmt)" for i
      using that hd m'(4) by (cases i) (auto simp: add.assoc)
    moreover have "fmt_tobin_loop addr (joinc SDB_RS (field_texts load p (c # fmt) len)) (c # fmt) len items m heap
        = Some (items + length (c # fmt), m', heap)"
      using nx ch(1) st m'(1) by simp
    ultimately show ?thesis using m'(2) m1(1) Cons.prems(4) by auto
  qed
qed simp

text \<open>
  C28.  Structures survive the trip through a string: printing a structure of numeric and pointer
  fields with \<^verbatim>\<open>sdb_fmt_tostr\<close> and reading the string into another block of memory with
  \<^verbatim>\<open>sdb_fmt_tobin\<close> copies every field, reads all of them and allocates nothing.  There may be 16 million
  fields, whose text fits into the \<^verbatim>\<open>int\<close> lengths of the string buffer.
\<close>

theorem fmt_roundtrip:
  assumes "fmt \<noteq> []" "set fmt \<subseteq> set ''bhdqp''" "8 * length fmt \<le> length p" "length m = length p" "length fmt \<le> 16000000"
  shows "\<exists>str m'. sdb_fmt_tostr load p fmt = Some (Some str)
     \<and> sdb_fmt_tobin addr str fmt m heap = Some (length fmt, m', heap)
     \<and> (\<forall>i < length fmt. take (fmt_size (fmt ! i)) (drop (8 * i) m') = take (fmt_size (fmt ! i)) (drop (8 * i) p))"
proof -
  let ?str = "joinc SDB_RS (field_texts load p fmt 0)"
  have "?str \<noteq> []"
  proof -
    obtain v vs where v: "field_texts load p fmt 0 = v # vs" using assms(1) by (cases fmt) auto
    then have "v \<noteq> []" using field_texts_ok [OF assms(2), of 0 p v load] assms(3) by simp
    then show ?thesis using v by (cases vs) auto
  qed
  then show ?thesis
    using tostr_fields [OF assms(1-3,5), of load] tobin_loop_fields [OF assms(1,2), of 0 p m addr load 0 heap] assms(3,4)
    by (auto simp: sdb_fmt_tobin_def)
qed

theorem fmt_roundtrip_witness:
  "\<exists>str m'. sdb_fmt_tostr (\<lambda>_. []) (replicate 16 CHR ''a'') ''hq'' = Some (Some str)
     \<and> sdb_fmt_tobin (\<lambda>_. 0) str ''hq'' (replicate 16 NUL) [] = Some (2, m', [])
     \<and> take 2 m' = ''aa''"
  using fmt_roundtrip [of "''hq''" "replicate 16 CHR ''a''" "replicate 16 NUL" "\<lambda>_. []" "\<lambda>_. 0" "[]"]
  by (auto simp: fmt_size_def numeral_2_eq_2)

text \<open>
  The structure needs 8 bytes per field, but \<^verbatim>\<open>sdb_fmt_init\<close> counts and clears the natural size of each:
  it leaves the last 14 of the 16 bytes of a structure of two byte fields as they were.
\<close>

lemma fmt_init_short: "sdb_fmt_init (Some (replicate 16 CHR ''a'')) ''bb''
    = Some (2, Some ([NUL, NUL] @ replicate 14 CHR ''a''))"
  by (simp add: sdb_fmt_init_def fmt_size_def mem_put_def numeral_2_eq_2 numeral_eq_Suc)

end
