(* ===== verification/Sdb_Array.thy ===== *)
theory Sdb_Array
  imports Sdb_Num Fmt Cmp_Order
begin

text \<open>
  Arrays in values: \<^verbatim>\<open>src/array.c\<close>.  An array is a string of fields separated by \<^verbatim>\<open>SDB_RS\<close>.

  \<^item> Pointers into a value are suffixes.  Array and key handles are not NULL, a value is \<open>None\<close>
    for NULL where the code checks for it.
  \<^item> The value lengths the operations compute with are those \<^verbatim>\<open>sdb_const_get_len\<close> reports; a C
    string that a copy with such a length produces ends at its first NUL.
  \<^item> \<^verbatim>\<open>qsort\<close> is a sort by the comparison function; elements that compare equal are equal strings
    or numbers here, so that the result does not depend on the algorithm.
\<close>

section \<open>Comparison and search\<close>

lemma strchr_shrinks: "strchr s c = Some n \<Longrightarrow> length n - Suc 0 < length s"
  using strchr_tl_less [of "tl n" s c] by simp

function aindexof_loop :: "string \<Rightarrow> int \<Rightarrow> int \<Rightarrow> string option" where
  "aindexof_loop p len idx =
     (if len = idx then Some p
      else case map_option tl (strchr p SDB_RS) of
             None \<Rightarrow> None | Some n \<Rightarrow> aindexof_loop n (len + 1) idx)"
  by pat_completeness auto
termination
  by (relation "measure (\<lambda>(p, len, idx). length p)") (auto dest: strchr_shrinks)

declare aindexof_loop.simps [simp del]

definition Aindexof :: "string \<Rightarrow> int \<Rightarrow> string option" where
  "Aindexof str idx = aindexof_loop str 0 idx"

definition at_end :: "char \<Rightarrow> bool" where
  "at_end c \<longleftrightarrow> c = NUL \<or> c = SDB_RS"

function astrcmp :: "string \<Rightarrow> string \<Rightarrow> int" where
  "astrcmp a b =
     (let va = deref a; vb = deref b in
      if at_end va then (if at_end vb then 0 else -1)
      else if at_end vb then 1
      else if va \<noteq> vb then (if schar va > schar vb then 1 else -1)
      else astrcmp (tl a) (tl b))"
  by pat_completeness auto
termination
  by (relation "measure (\<lambda>(a, b). length a)") (auto simp: at_end_def deref_def split: list.splits)

declare astrcmp.simps [simp del]

definition cstring_cmp :: "string \<Rightarrow> string \<Rightarrow> int" where
  "cstring_cmp a b = astrcmp a b"

definition int_cmp :: "ut64 \<Rightarrow> ut64 \<Rightarrow> int" where
  "int_cmp a b = (if a > b then 1 else if a < b then -1 else 0)"

section \<open>Reading\<close>

fun skip_fields :: "nat \<Rightarrow> string \<Rightarrow> string option" where
  "skip_fields 0 p = Some p"
| "skip_fields (Suc n) p = (case strchr p SDB_RS of None \<Rightarrow> None | Some q \<Rightarrow> skip_fields n (tl q))"

definition sdb_array_get_num :: "sdb \<Rightarrow> string \<Rightarrow> int \<Rightarrow> (ut64 \<times> ut32) \<times> sdb" where
  "sdb_array_get_num s key idx =
     (case sdb_const_get s key of
        ((v, cas), s) \<Rightarrow>
          (((case v of
               None \<Rightarrow> 0
             | Some str \<Rightarrow>
                 if str = [] then 0
                 else (case skip_fields (nat idx) str of None \<Rightarrow> 0 | Some p \<Rightarrow> sdb_atoi p)), cas), s))"

definition field_at :: "string \<Rightarrow> string" where
  "field_at p = (case strchr p SDB_RS of None \<Rightarrow> p | Some n \<Rightarrow> take (length p - length n) p)"

definition sdb_array_get :: "sdb \<Rightarrow> string \<Rightarrow> int \<Rightarrow> (string option \<times> ut32) \<times> sdb" where
  "sdb_array_get s key idx =
     (case sdb_const_get s key of
        ((v, cas), s) \<Rightarrow>
          (((case v of
               None \<Rightarrow> None
             | Some str \<Rightarrow>
                 if str = [] then None
                 else
                   let alen = int (sdb_alen (Some str)) in
                   if idx < 0 \<and> - idx > alen then None
                   else
                     let idx = (if idx < 0 then idx + alen else idx) in
                     if idx = 0 then Some (field_at str)
                     else map_option field_at (skip_fields (nat idx) str)), cas), s))"

function contains_loop :: "string \<Rightarrow> string \<Rightarrow> bool" where
  "contains_loop ptr val =
     (if field_at ptr = val then True
      else case map_option tl (strchr ptr SDB_RS) of None \<Rightarrow> False | Some p \<Rightarrow> contains_loop p val)"
  by pat_completeness auto
termination
  by (relation "measure (\<lambda>(p, v). length p)") (auto dest: strchr_shrinks)

declare contains_loop.simps [simp del]

definition sdb_array_contains :: "sdb \<Rightarrow> string \<Rightarrow> string option \<Rightarrow> bool \<times> sdb" where
  "sdb_array_contains s key val =
     (case val of
        None \<Rightarrow> (False, s)
      | Some val \<Rightarrow>
          (case sdb_const_get s key of
             ((v, _), s) \<Rightarrow>
               (case v of None \<Rightarrow> False | Some ptr \<Rightarrow> ptr \<noteq> [] \<and> contains_loop ptr val, s)))"

definition sdb_array_contains_num :: "sdb \<Rightarrow> string \<Rightarrow> ut64 \<Rightarrow> bool \<times> sdb" where
  "sdb_array_contains_num s key num = sdb_array_contains s key (Some (itoa64 num 0))"

text \<open>The loops of \<^verbatim>\<open>sdb_array_indexof\<close>, \<^verbatim>\<open>sdb_array_remove\<close> and \<^verbatim>\<open>sdb_array_remove_num\<close>.\<close>

function index_loop :: "(string \<Rightarrow> bool) \<Rightarrow> string \<Rightarrow> int \<Rightarrow> int option" where
  "index_loop hit p idx =
     (if hit p then Some idx
      else case map_option tl (strchr p SDB_RS) of None \<Rightarrow> None | Some n \<Rightarrow> index_loop hit n (idx + 1))"
  by pat_completeness auto
termination
  by (relation "measure (\<lambda>(h, p, i). length p)") (auto dest: strchr_shrinks)

declare index_loop.simps [simp del]

definition sdb_array_indexof :: "sdb \<Rightarrow> string \<Rightarrow> string \<Rightarrow> int \<times> sdb" where
  "sdb_array_indexof s key val =
     (case sdb_const_get s key of
        ((v, _), s) \<Rightarrow>
          (case v of
             None \<Rightarrow> -1
           | Some str \<Rightarrow> (case index_loop (\<lambda>p. astrcmp p val = 0) str 0 of None \<Rightarrow> -1 | Some i \<Rightarrow> i), s))"

definition sdb_array_size :: "sdb \<Rightarrow> string \<Rightarrow> nat \<times> sdb" where
  "sdb_array_size s key = (case sdb_const_get s key of ((v, _), s) \<Rightarrow> (sdb_alen v, s))"

definition sdb_array_length :: "sdb \<Rightarrow> string \<Rightarrow> nat \<times> sdb" where
  "sdb_array_length s key = (case sdb_const_get s key of ((v, _), s) \<Rightarrow> (sdb_alen_ignore_empty v, s))"

section \<open>Writing\<close>

text \<open>
  \<^verbatim>\<open>sdb_array_insert\<close> falls back to \<^verbatim>\<open>sdb_array_set\<close> when there is no such index, and \<^verbatim>\<open>sdb_array_set\<close>
  appends by inserting at -1.
\<close>

function sdb_array_insert :: "sdb \<Rightarrow> string \<Rightarrow> int \<Rightarrow> string \<Rightarrow> ut32 \<Rightarrow> bool \<times> sdb"
  and sdb_array_set :: "sdb \<Rightarrow> string \<Rightarrow> int \<Rightarrow> string \<Rightarrow> ut32 \<Rightarrow> bool \<times> sdb" where
  "sdb_array_insert s key idx val cas =
     (case sdb_const_get_len s key of
        ((v, _, _), s) \<Rightarrow>
          let str = (case v of None \<Rightarrow> [] | Some str \<Rightarrow> str) in
          if str = [] then sdb_set s key (Some val) cas
          else if idx = -1 then sdb_set_owned s key (Some (str @ SDB_RS # val)) cas
          else if idx = 0 then sdb_set_owned s key (Some (val @ SDB_RS # str)) cas
          else
            (case Aindexof str idx of
               Some ptr \<Rightarrow>
                 let lnstr = (if length ptr < length str then length str - length ptr - 1 else 0)
                 in sdb_set_owned s key (Some (take lnstr str @ SDB_RS # val @ SDB_RS # ptr)) cas
             | None \<Rightarrow> sdb_array_set s key idx val cas))"
| "sdb_array_set s key idx val cas =
     (case sdb_const_get_len s key of
        ((v, _, _), s) \<Rightarrow>
          let str = (case v of None \<Rightarrow> [] | Some str \<Rightarrow> str) in
          if str = [] then sdb_set s key (Some val) cas
          else
            let len = int (sdb_alen (Some str)) in
            if idx < 0 \<or> idx = len then sdb_array_insert s key (-1) val cas
            else if idx > len then
              sdb_array_insert s key (-1) (replicate (nat (idx - len)) SDB_RS @ val) cas
            else
              (case Aindexof str idx of
                 None \<Rightarrow> (False, s)
               | Some ptr \<Rightarrow>
                   let diff = length str - length ptr in
                   sdb_set s key
                     (Some (take diff str @ val
                        @ (case Aindexof str (idx + 1) of None \<Rightarrow> [] | Some usr \<Rightarrow> SDB_RS # usr))) cas))"
  by pat_completeness auto
termination
  by (relation "measure (\<lambda>x. case x of Inl (s, key, idx, val, cas) \<Rightarrow> (if idx = -1 then 0 else 2) | Inr _ \<Rightarrow> 1)")
    auto

declare sdb_array_insert.simps [simp del] sdb_array_set.simps [simp del]

definition sdb_array_insert_num :: "sdb \<Rightarrow> string \<Rightarrow> int \<Rightarrow> ut64 \<Rightarrow> ut32 \<Rightarrow> bool \<times> sdb" where
  "sdb_array_insert_num s key idx val cas = sdb_array_insert s key idx (itoa64 val 0) cas"

definition sdb_array_set_num :: "sdb \<Rightarrow> string \<Rightarrow> int \<Rightarrow> ut64 \<Rightarrow> ut32 \<Rightarrow> bool \<times> sdb" where
  "sdb_array_set_num s key idx val cas = sdb_array_set s key idx (itoa64 val 0) cas"

definition sdb_array_add :: "sdb \<Rightarrow> string \<Rightarrow> string \<Rightarrow> ut32 \<Rightarrow> bool \<times> sdb" where
  "sdb_array_add s key val cas =
     (case sdb_array_contains s key (Some val) of
        (True, s) \<Rightarrow> (False, s)
      | (False, s) \<Rightarrow> sdb_array_insert s key (-1) val cas)"

definition sdb_array_add_num :: "sdb \<Rightarrow> string \<Rightarrow> ut64 \<Rightarrow> ut32 \<Rightarrow> bool \<times> sdb" where
  "sdb_array_add_num s key val cas =
     (let v = itoa64 val 0 in
      case sdb_array_contains s key (Some v) of
        (c, s) \<Rightarrow> sdb_array_add s key (if \<not> c \<and> val < 256 then itoa64 val 10 else v) cas)"

definition sdb_array_unset :: "sdb \<Rightarrow> string \<Rightarrow> int \<Rightarrow> ut32 \<Rightarrow> bool \<times> sdb" where
  "sdb_array_unset s key idx cas = sdb_array_set s key idx [] cas"

definition sdb_array_append :: "sdb \<Rightarrow> string \<Rightarrow> string option \<Rightarrow> ut32 \<Rightarrow> bool \<times> sdb" where
  "sdb_array_append s key val cas =
     (case sdb_const_get_len s key of
        ((v, str_len, kas), s) \<Rightarrow>
          (case val of
             None \<Rightarrow> (False, s)
           | Some val \<Rightarrow>
               if cas \<noteq> 0 \<and> cas \<noteq> kas then (False, s)
               else
                 let str = (case v of None \<Rightarrow> [] | Some str \<Rightarrow> str) in
                 if str \<noteq> [] \<and> str_len > 0 then
                   (True, snd (sdb_set_owned s key
                      (Some (cstring (take str_len (str @ [NUL]) @ SDB_RS # val))) kas))
                 else (True, snd (sdb_set s key (Some val) kas))))"

definition sdb_array_append_num :: "sdb \<Rightarrow> string \<Rightarrow> ut64 \<Rightarrow> ut32 \<Rightarrow> bool \<times> sdb" where
  "sdb_array_append_num s key val cas = sdb_array_set_num s key (-1) val cas"

definition sdb_array_prepend :: "sdb \<Rightarrow> string \<Rightarrow> string option \<Rightarrow> ut32 \<Rightarrow> bool \<times> sdb" where
  "sdb_array_prepend s key val cas =
     (case val of
        None \<Rightarrow> (False, s)
      | Some val \<Rightarrow>
          (case sdb_const_get_len s key of
             ((v, str_len, kas), s) \<Rightarrow>
               if cas \<noteq> 0 \<and> cas \<noteq> kas then (False, s)
               else
                 let str = (case v of None \<Rightarrow> [] | Some str \<Rightarrow> str) in
                 if str \<noteq> [] then
                   (True, snd (sdb_set_owned s key
                      (Some (cstring (val @ SDB_RS # take str_len (str @ [NUL])))) kas))
                 else (True, snd (sdb_set s key (Some val) kas))))"

definition sdb_array_push :: "sdb \<Rightarrow> string \<Rightarrow> string option \<Rightarrow> ut32 \<Rightarrow> bool \<times> sdb" where
  "sdb_array_push s key val cas = sdb_array_prepend s key val cas"

definition sdb_array_push_num :: "sdb \<Rightarrow> string \<Rightarrow> ut64 \<Rightarrow> ut32 \<Rightarrow> bool \<times> sdb" where
  "sdb_array_push_num s key num cas = sdb_array_push s key (Some (itoa64 num 0)) cas"

definition sdb_array_prepend_num :: "sdb \<Rightarrow> string \<Rightarrow> ut64 \<Rightarrow> ut32 \<Rightarrow> bool \<times> sdb" where
  "sdb_array_prepend_num s key num cas = sdb_array_push s key (Some (itoa64 num 0)) cas"

section \<open>Removing\<close>

definition sdb_array_delete :: "sdb \<Rightarrow> string \<Rightarrow> int \<Rightarrow> ut32 \<Rightarrow> bool \<times> sdb" where
  "sdb_array_delete s key idx cas =
     (case sdb_get s key of
        ((v, _), s) \<Rightarrow>
          let str = (case v of None \<Rightarrow> [] | Some str \<Rightarrow> str) in
          if str = [] then (False, s)
          else
            let alen = int (sdb_alen (Some str));
                idx = (if idx < 0 then (if alen \<noteq> 0 then alen - 1 else alen) else idx)
            in case skip_fields (nat idx) str of
                 None \<Rightarrow> (False, s)
               | Some p \<Rightarrow>
                   let before = take (length str - length p) str;
                       str' = (case strchr p SDB_RS of
                                 Some n \<Rightarrow> before @ tl n
                               | None \<Rightarrow> if before \<noteq> [] then butlast before else [])
                   in (True, snd (sdb_set_owned s key (Some str') cas)))"

definition sdb_array_remove_num :: "sdb \<Rightarrow> string \<Rightarrow> ut64 \<Rightarrow> ut32 \<Rightarrow> bool \<times> sdb" where
  "sdb_array_remove_num s key val cas =
     (case sdb_const_get s key of
        ((v, _), s) \<Rightarrow>
          (case v of
             None \<Rightarrow> (False, s)
           | Some str \<Rightarrow>
               (case index_loop (\<lambda>p. sdb_atoi p = val) str 0 of
                  None \<Rightarrow> (False, s)
                | Some idx \<Rightarrow> sdb_array_delete s key idx cas)))"

definition sdb_array_remove :: "sdb \<Rightarrow> string \<Rightarrow> string \<Rightarrow> ut32 \<Rightarrow> bool \<times> sdb" where
  "sdb_array_remove s key val cas =
     (case sdb_const_get s key of
        ((v, _), s) \<Rightarrow>
          (case v of
             None \<Rightarrow> (False, s)
           | Some str \<Rightarrow>
               (case index_loop (\<lambda>p. astrcmp p val = 0) str 0 of
                  None \<Rightarrow> (False, s)
                | Some idx \<Rightarrow> sdb_array_delete s key idx cas)))"

text \<open>The popped element and the \<^verbatim>\<open>cas\<close> of the value it was taken from (\<open>None\<close>: \<^verbatim>\<open>*cas\<close> is not written).\<close>

definition sdb_array_pop_head :: "sdb \<Rightarrow> string \<Rightarrow> (string option \<times> ut32 option) \<times> sdb" where
  "sdb_array_pop_head s key =
     (case sdb_get s key of
        ((v, kas), s) \<Rightarrow>
          let str = (case v of None \<Rightarrow> [] | Some str \<Rightarrow> str) in
          if str = [] then ((None, None), s)
          else
            (case strchr str SDB_RS of
               Some end \<Rightarrow>
                 ((Some (take (length str - length end) str), Some kas), snd (sdb_set s key (Some (tl end)) 0))
             | None \<Rightarrow> ((Some str, Some kas), snd (sdb_unset s key 0))))"

definition sdb_array_pop :: "sdb \<Rightarrow> string \<Rightarrow> (string option \<times> ut32 option) \<times> sdb" where
  "sdb_array_pop s key = sdb_array_pop_head s key"

definition sdb_array_pop_num :: "sdb \<Rightarrow> string \<Rightarrow> (ut64 \<times> ut32) \<times> sdb" where
  "sdb_array_pop_num s key =
     (case sdb_array_pop s key of
        ((None, _), s) \<Rightarrow> ((UT64_MAX, word_of_nat UT32_MAX), s)
      | ((Some a, _), s) \<Rightarrow> ((sdb_atoi a, 0), s))"

text \<open>The scan of \<^verbatim>\<open>sdb_array_pop_tail\<close> from the last character back to the first.\<close>

fun pop_tail_scan :: "string \<Rightarrow> nat \<Rightarrow> nat" where
  "pop_tail_scan str 0 = 0"
| "pop_tail_scan str (Suc e) = (if str ! Suc e \<noteq> SDB_RS then pop_tail_scan str e else Suc e)"

definition sdb_array_pop_tail :: "sdb \<Rightarrow> string \<Rightarrow> (string option \<times> ut32 option) \<times> sdb" where
  "sdb_array_pop_tail s key =
     (case sdb_get s key of
        ((v, kas), s) \<Rightarrow>
          let str = (case v of None \<Rightarrow> [] | Some str \<Rightarrow> str) in
          if str = [] then ((None, None), s)
          else
            let e = pop_tail_scan str (length str - 1) in
            if str ! e = SDB_RS
            then ((Some (drop (e + 1) str), Some kas), snd (sdb_set_owned s key (Some (take e str)) 0))
            else ((Some (drop e str), Some kas), snd (sdb_set_owned s key (Some str) 0)))"

section \<open>Sorted arrays\<close>

function add_sorted_skip :: "string \<Rightarrow> string \<Rightarrow> string" where
  "add_sorted_skip v p =
     (if p = [] then []
      else if astrcmp v p < 0 then p
      else case sdb_const_anext p of None \<Rightarrow> [] | Some n \<Rightarrow> add_sorted_skip v n)"
  by pat_completeness auto
termination
  by (relation "measure (\<lambda>(v, p). length p)") (auto simp: sdb_const_anext_def dest: strchr_shrinks)

declare add_sorted_skip.simps [simp del]

text \<open>\<open>lp\<close> and \<open>p\<close> are \<^verbatim>\<open>str_lp\<close> and \<^verbatim>\<open>str_p\<close>, which are equal between two rounds.\<close>

fun add_sorted_loop :: "string list \<Rightarrow> string \<Rightarrow> string \<Rightarrow> string" where
  "add_sorted_loop [] lp nstr = (if lp \<noteq> [] then nstr @ lp else if nstr \<noteq> [] then butlast nstr else nstr)"
| "add_sorted_loop (v # vals) lp nstr =
     (let p = add_sorted_skip v lp;
          nstr = nstr @ take (length lp - length p) lp;
          nstr = (if p = [] \<and> lp \<noteq> [] then nstr @ [SDB_RS] else nstr)
      in add_sorted_loop vals p (nstr @ v @ [SDB_RS]))"

definition sdb_array_add_sorted :: "sdb \<Rightarrow> string \<Rightarrow> string option \<Rightarrow> ut32 \<Rightarrow> bool \<times> sdb" where
  "sdb_array_add_sorted s key val cas =
     (case sdb_const_get_len s key of
        ((v, lstr, _), s) \<Rightarrow>
          let str = (case v of None \<Rightarrow> [] | Some str \<Rightarrow> if str = [] then [] else take lstr (str @ [NUL])) in
          (case val of
             None \<Rightarrow> (False, s)
           | Some val \<Rightarrow>
               (case sdb_fmt_array val of
                  None \<Rightarrow> (False, s)
                | Some vals \<Rightarrow>
                    let vals = (if length vals > 1 then qsort cstring_cmp vals else vals)
                    in sdb_set_owned s key (Some (cstring (add_sorted_loop vals str []))) cas)))"

definition sdb_array_add_sorted_num :: "sdb \<Rightarrow> string \<Rightarrow> ut64 \<Rightarrow> ut32 \<Rightarrow> bool \<times> sdb" where
  "sdb_array_add_sorted_num s key val cas =
     (case sdb_const_get s key of
        ((v, _), s) \<Rightarrow>
          let str = (case v of None \<Rightarrow> [] | Some str \<Rightarrow> str) in
          if str = [] then sdb_set s key (Some (itoa64 val 0)) cas
          else
            let i = (case index_loop (\<lambda>p. val \<le> sdb_atoi p) str 0 of None \<Rightarrow> -1 | Some i \<Rightarrow> i)
            in sdb_array_insert_num s key i val cas)"

definition sdb_array_sort :: "sdb \<Rightarrow> string \<Rightarrow> ut32 \<Rightarrow> sdb" where
  "sdb_array_sort s key cas =
     (case sdb_get_len s key of
        ((v, lstr, _), s) \<Rightarrow>
          let str = (case v of None \<Rightarrow> [] | Some str \<Rightarrow> str) in
          if str = [] then s
          else
            (case sdb_fmt_array str of
               None \<Rightarrow> s
             | Some strs \<Rightarrow>
                 let nstr = concat (map (\<lambda>x. x @ [SDB_RS]) (qsort cstring_cmp strs))
                 in snd (sdb_set_owned s key (Some (if nstr \<noteq> [] then butlast nstr else nstr)) cas)))"

text \<open>The numbers are laid out as 64-bit words and printed with a format of as many \<^verbatim>\<open>q\<close>.\<close>

definition sdb_array_sort_num :: "sdb \<Rightarrow> string \<Rightarrow> ut32 \<Rightarrow> sdb" where
  "sdb_array_sort_num s key cas =
     (case sdb_get s key of
        ((v, _), s) \<Rightarrow>
          let str = (case v of None \<Rightarrow> [] | Some str \<Rightarrow> str) in
          if str = [] then s
          else
            (case sdb_fmt_array_num str of
               None \<Rightarrow> s
             | Some nums \<Rightarrow>
                 let nums = qsort int_cmp nums;
                     mem = concat (map (\<lambda>n. le_bytes 8 (unat n)) nums);
                     ret = sdb_fmt_tostr (\<lambda>_. []) mem (replicate (length nums) CHR ''q'')
                 in (case ret of
                       None \<Rightarrow> s
                     | Some ret \<Rightarrow> snd (sdb_set_owned s key ret cas))))"

section \<open>Fields of a value\<close>

abbreviation elems :: "string \<Rightarrow> string list" where
  "elems s \<equiv> splitc SDB_RS s"

abbreviation unelems :: "string list \<Rightarrow> string" where
  "unelems fs \<equiv> joinc SDB_RS fs"

lemma field_induct [case_names last field]:
  assumes "\<And>f. SDB_RS \<notin> set f \<Longrightarrow> P f" "\<And>f r. SDB_RS \<notin> set f \<Longrightarrow> P r \<Longrightarrow> P (f @ SDB_RS # r)"
  shows "P s"
proof (induction "length s" arbitrary: s rule: less_induct)
  case less
  show ?case
  proof (cases "SDB_RS \<in> set s")
    case True
    then obtain f r where "s = f @ SDB_RS # r" "SDB_RS \<notin> set f" by (meson split_list_first)
    then show ?thesis using less assms(2) by simp
  qed (rule assms(1))
qed

lemmas field_simps = splitc_no_sep splitc_append_sep strchr_append_sep

lemma no_sep_strchr: "SDB_RS \<notin> set f \<Longrightarrow> strchr f SDB_RS = None"
  by (simp add: strchr_None)

lemma field_at_hd: "field_at p = hd (elems p)"
  by (induct p rule: field_induct) (simp_all add: field_at_def field_simps no_sep_strchr)

lemma skip_fields_spec:
  "skip_fields n s = (if n < length (elems s) then Some (unelems (drop n (elems s))) else None)"
proof (induction n arbitrary: s)
  case (Suc n)
  show ?case
    by (induct s rule: field_induct) (use Suc in \<open>simp_all add: field_simps no_sep_strchr joinc_Cons\<close>)
qed simp

lemma aindexof_loop_spec:
  "aindexof_loop s len idx =
     (if len \<le> idx \<and> nat (idx - len) < length (elems s)
      then Some (unelems (drop (nat (idx - len)) (elems s))) else None)"
proof (induction s arbitrary: len rule: field_induct)
  case (last f)
  then show ?case by (subst aindexof_loop.simps) (auto simp: field_simps no_sep_strchr)
next
  case (field f r)
  show ?case
  proof (cases "len < idx")
    case True
    then have "nat (idx - len) = Suc (nat (idx - (len + 1)))" by simp
    then show ?thesis using True field
      by (subst aindexof_loop.simps) (simp add: field_simps field.IH [of "len + 1"])
  next
    case False
    then show ?thesis using field.hyps field.IH [of "len + 1"]
      by (subst aindexof_loop.simps) (auto simp: field_simps joinc_Cons)
  qed
qed

lemma Aindexof_spec:
  "Aindexof s idx =
     (if 0 \<le> idx \<and> nat idx < length (elems s) then Some (unelems (drop (nat idx) (elems s))) else None)"
  by (simp add: Aindexof_def aindexof_loop_spec)

lemma contains_loop_spec: "contains_loop s v \<longleftrightarrow> v \<in> set (elems s)"
  by (induction s rule: field_induct; subst contains_loop.simps)
    (auto simp: field_simps no_sep_strchr field_at_hd)

lemma index_loop_spec:
  assumes "\<And>p. hit p \<longleftrightarrow> H (hd (elems p))"
  shows "index_loop hit s k = map_option (\<lambda>i. k + int i) (find_index H (elems s))"
  by (induction s arbitrary: k rule: field_induct; subst index_loop.simps)
    (auto simp: field_simps no_sep_strchr assms option.map_comp comp_def algebra_simps)

section \<open>The order of elems\<close>

fun scmp :: "string \<Rightarrow> string \<Rightarrow> int" where
  "scmp [] [] = 0"
| "scmp [] (y # ys) = -1"
| "scmp (x # xs) [] = 1"
| "scmp (x # xs) (y # ys) = (if x = y then scmp xs ys else if schar x > schar y then 1 else -1)"

definition cut :: "string \<Rightarrow> string" where
  "cut s = takeWhile (\<lambda>c. \<not> at_end c) s"

lemma schar_eq: "schar x = schar y \<longleftrightarrow> x = y"
proof -
  have b: "0 \<le> (of_char c :: int) \<and> (of_char c :: int) < 256" for c :: char
    using of_char_lt_256 [of c] of_nat_of_char [of c, where 'a = int] by (metis of_nat_0_le_iff of_nat_less_iff of_nat_numeral)
  have "(of_char x :: int) = of_char y \<Longrightarrow> x = y" by (metis char_of_char)
  then show ?thesis using b [of x] b [of y] by (auto simp: schar_def Let_def split: if_splits)
qed

lemma astrcmp_scmp: "astrcmp a b = scmp (cut a) (cut b)"
proof (induction a b rule: astrcmp.induct)
  case (1 a b)
  show ?case
    by (subst astrcmp.simps, cases a; cases b)
      (use 1 in \<open>auto simp: cut_def deref_def at_end_def Let_def\<close>)
qed

lemma cut_field: "nonul p \<Longrightarrow> cut p = hd (elems p)"
proof (induction p)
  case (Cons c p)
  then show ?case by (auto simp: cut_def at_end_def)
qed (simp add: cut_def)

lemma scmp_0: "scmp a b = 0 \<longleftrightarrow> a = b"
  by (induction a b rule: scmp.induct) auto

lemma scmp_antisym: "scmp a b \<le> 0 \<Longrightarrow> scmp b a \<le> 0 \<Longrightarrow> a = b"
  by (induction a b rule: scmp.induct) (auto simp: schar_eq split: if_splits)

lemma scmp_flip: "scmp a b \<le> 0 \<longleftrightarrow> 0 \<le> scmp b a"
  by (induction a b rule: scmp.induct) (auto simp: schar_eq not_less_iff_gr_or_eq)

lemma scmp_trans: "scmp a b \<le> 0 \<Longrightarrow> scmp b c \<le> 0 \<Longrightarrow> scmp a c \<le> 0"
proof (induction a arbitrary: b c)
  case Nil
  then show ?case by (cases c) auto
next
  case (Cons x xs)
  then show ?case by (cases b; cases c) (auto simp: schar_eq split: if_splits)
qed

interpretation field_order: cmp_order cstring_cmp
  by unfold_locales (use scmp_flip scmp_trans in \<open>auto simp: cstring_cmp_def astrcmp_scmp\<close>)

interpretation num_order: cmp_linorder int_cmp
  by unfold_locales (auto simp: int_cmp_def split: if_splits)

section \<open>Arrays in memory\<close>

definition arr :: "sdb \<Rightarrow> string \<Rightarrow> string list" where
  "arr s k = (case mem_view s k of None \<Rightarrow> [] | Some v \<Rightarrow> elems v)"

definition clean :: "sdb \<Rightarrow> string \<Rightarrow> bool" where
  "clean s k \<longleftrightarrow> (case mem_view s k of None \<Rightarrow> True | Some v \<Rightarrow> nonul v)"

lemma arr_cases:
  obtains (none) "mem_view s k = None" "arr s k = []"
  | (some) str where "mem_view s k = Some str" "str \<noteq> []" "arr s k = elems str" "arr s k \<noteq> []"
proof (cases "mem_view s k")
  case (Some str)
  then have "str \<noteq> []" by (auto simp: mem_view_def split: option.splits if_splits)
  then show ?thesis using Some some by (simp add: arr_def)
qed (use none in \<open>simp add: arr_def\<close>)

lemma const_get_run: "mem_inv s \<Longrightarrow> \<exists>c. sdb_const_get s k = ((mem_view s k, c), s) \<and> sdb_get s k = ((mem_view s k, c), s)"
  by (simp add: sdb_const_get_def sdb_get_def sdb_get_len_def get_mem split: option.splits)

lemma elems_no_sep: "f \<in> set (elems s) \<Longrightarrow> SDB_RS \<notin> set f"
  by (rule splitc_fields_no_sep)

lemma elems_drop: "n < length (elems s) \<Longrightarrow> elems (unelems (drop n (elems s))) = drop n (elems s)"
  by (rule splitc_joinc) (use elems_no_sep in \<open>auto dest: in_set_dropD\<close>)

lemma elems_take: "0 < n \<Longrightarrow> elems (unelems (take n (elems s))) = take n (elems s)"
  by (rule splitc_joinc) (use elems_no_sep in \<open>auto dest: in_set_takeD\<close>)

lemma split_at: "0 < n \<Longrightarrow> n < length (elems s) \<Longrightarrow>
  s = unelems (take n (elems s)) @ SDB_RS # unelems (drop n (elems s))"
  using joinc_append [of "take n (elems s)" "drop n (elems s)" SDB_RS] by simp

lemma atoi_hd: "sdb_atoi p = sdb_atoi (hd (elems p))"
  by (induct p rule: field_induct) (simp_all add: field_simps atoi_field)

lemma astrcmp_eq: "nonul p \<Longrightarrow> nonul v \<Longrightarrow> astrcmp p v = 0 \<longleftrightarrow> hd (elems p) = hd (elems v)"
  by (simp add: astrcmp_scmp scmp_0 cut_field)

lemma index_loop_nonul:
  assumes "\<And>p. nonul p \<Longrightarrow> hit p \<longleftrightarrow> H (hd (elems p))" "nonul s"
  shows "index_loop hit s k = map_option (\<lambda>i. k + int i) (find_index H (elems s))"
  using assms(2)
  by (induction s arbitrary: k rule: field_induct; subst index_loop.simps)
    (auto simp: field_simps no_sep_strchr assms(1) option.map_comp comp_def algebra_simps)

text \<open>
  Reading arrays: on a database in memory the readers of \<^verbatim>\<open>src/array.c\<close> are the operations of lists on
  the fields of the value.  \<^verbatim>\<open>sdb_array_get\<close> returns the element at an index, counted from the
  end when it is negative, and nothing out of range; \<^verbatim>\<open>sdb_array_get_num\<close> its number;
  \<^verbatim>\<open>sdb_array_size\<close>, \<^verbatim>\<open>sdb_array_contains\<close> and \<^verbatim>\<open>sdb_array_indexof\<close> the length, membership and the first index.
\<close>

theorem array_reads:
  assumes "mem_inv s" "clean s k" "nonul v" "SDB_RS \<notin> set v"
  shows "fst (fst (sdb_array_get s k i)) =
      (let n = int (length (arr s k)); j = (if i < 0 then i + n else i) in
       if 0 \<le> j \<and> j < n then Some (arr s k ! nat j) else None)
    \<and> fst (fst (sdb_array_get_num s k i)) = (if nat i < length (arr s k) then sdb_atoi (arr s k ! nat i) else 0)
    \<and> sdb_array_size s k = (length (arr s k), s)
    \<and> sdb_array_contains s k (Some v) = (v \<in> set (arr s k), s)
    \<and> sdb_array_indexof s k v = (case find_index ((=) v) (arr s k) of None \<Rightarrow> -1 | Some j \<Rightarrow> int j, s)"
proof -
  obtain c where g: "sdb_const_get s k = ((mem_view s k, c), s)" using const_get_run [OF assms(1)] by blast
  note d = sdb_array_get_def sdb_array_get_num_def sdb_array_size_def sdb_array_contains_def sdb_array_indexof_def
  show ?thesis
  proof (cases rule: arr_cases [of s k])
    case none
    then show ?thesis by (simp add: d g sdb_alen_def Let_def)
  next
    case (some str)
    have n: "sdb_alen (Some str) = length (elems str)" using alen_fields [of str] some(2) by simp
    have idx: "index_loop (\<lambda>p. astrcmp p v = 0) str 0 = map_option int (find_index ((=) v) (elems str))"
      using index_loop_nonul [of "\<lambda>p. astrcmp p v = 0" "(=) v" str 0] assms(2-4) some(1) astrcmp_eq [of _ v]
      by (auto simp: clean_def splitc_no_sep)
    have hd: "m < length (elems str) \<Longrightarrow> hd (elems (unelems (drop m (elems str)))) = elems str ! m" for m
      by (simp add: elems_drop hd_drop_conv_nth)
    have h0: "hd (elems str) = elems str ! 0" by (simp add: hd_conv_nth)
    have "fst (fst (sdb_array_get s k i)) =
      (let n = int (length (arr s k)); j = (if i < 0 then i + n else i) in
       if 0 \<le> j \<and> j < n then Some (arr s k ! nat j) else None)"
      using some by (auto simp: d g n skip_fields_spec Let_def field_at_hd hd h0)
    moreover have "fst (fst (sdb_array_get_num s k i)) = (if nat i < length (arr s k) then sdb_atoi (arr s k ! nat i) else 0)"
      using some atoi_hd [of "unelems (drop (nat i) (elems str))"] by (auto simp: d g skip_fields_spec hd)
    ultimately show ?thesis using some
      by (auto simp: d g n idx contains_loop_spec split: option.splits)
  qed
qed

theorem array_reads_witness:
  "let s = single ''k'' ''a,b,c'' in
   fst (fst (sdb_array_get s ''k'' (-1))) = Some ''c'' \<and> sdb_array_indexof s ''k'' ''b'' = (1, s)"
proof -
  let ?s = "single ''k'' ''a,b,c''"
  have v: "mem_view ?s ''k'' = Some ''a,b,c''" "mem_inv ?s" by (simp_all add: single_ok SDB_KSZ_def SDB_VSZ_def)
  have a: "arr ?s ''k'' = [''a'', ''b'', ''c'']" using v by (simp add: arr_def SDB_RS_def)
  have c: "clean ?s ''k''" using v by (simp add: clean_def)
  have b: "nonul ''b''" "SDB_RS \<notin> set ''b''" by (simp_all add: SDB_RS_def)
  show ?thesis using array_reads [OF v(2) c b, of "-1"] by (simp add: a Let_def)
qed

section \<open>Writing arrays in memory\<close>

text \<open>What inserting at and assigning to an index mean for the list of elements.\<close>

definition ins_at :: "int \<Rightarrow> string list \<Rightarrow> string list \<Rightarrow> string list" where
  "ins_at i vs fs =
     (if fs = [] then vs else if i < 0 then fs @ vs
      else take (nat i) fs @ replicate (nat i - length fs) [] @ vs @ drop (nat i) fs)"

definition set_at :: "int \<Rightarrow> string list \<Rightarrow> string list \<Rightarrow> string list" where
  "set_at i vs fs =
     (if fs = [] then vs else if i < 0 then fs @ vs
      else take (nat i) fs @ replicate (nat i - length fs) [] @ vs @ drop (Suc (nat i)) fs)"

lemma join_elems: "str @ SDB_RS # val = unelems (elems str @ elems val)"
  by (simp add: joinc_append)

lemma elems_pad: "elems (replicate n SDB_RS @ val) = replicate n [] @ elems val"
  by (induction n) auto

lemma get_len_run: "mem_inv s \<Longrightarrow> \<exists>n c. sdb_const_get_len s k = ((mem_view s k, n, c), s) \<and> \<not> set_conflict s k c
   \<and> n = (case mem_view s k of None \<Rightarrow> 0 | Some v \<Rightarrow> length v) \<and> sdb_get_len s k = ((mem_view s k, n, c), s)"
  using const_get_cas [of s k] by (auto simp: get_mem sdb_get_len_def split: option.splits)

lemma insert_last:
  assumes "mem_ready s k" "length (unelems (arr s k @ elems val)) < SDB_VSZ" "arr s k \<noteq> []"
  shows "mem_view (snd (sdb_array_insert s k (-1) val 0)) = put_spec k (unelems (arr s k @ elems val)) (mem_view s)"
proof -
  obtain str where str: "mem_view s k = Some str" "str \<noteq> []" "arr s k = elems str"
    using assms(3) by (cases rule: arr_cases [of s k]) auto
  have "sdb_array_insert s k (-1) val 0 = sdb_set_owned s k (Some (unelems (arr s k @ elems val))) 0"
    using get_len_run [OF mem_readyD [OF assms(1)], of k] str
    by (subst sdb_array_insert.simps) (auto simp: join_elems)
  then show ?thesis using set_ready(3) [OF assms(1,2)] by simp
qed

lemma set_view:
  assumes "mem_ready s k" "length (unelems (set_at i (elems val) (arr s k))) < SDB_VSZ"
  shows "mem_view (snd (sdb_array_set s k i val 0)) = put_spec k (unelems (set_at i (elems val) (arr s k))) (mem_view s)"
proof (cases rule: arr_cases [of s k])
  case none
  then have "sdb_array_set s k i val 0 = sdb_set s k (Some (unelems (set_at i (elems val) (arr s k)))) 0"
    using get_len_run [OF mem_readyD [OF assms(1)], of k] by (subst sdb_array_set.simps) (auto simp: set_at_def)
  then show ?thesis using set_ready(1) [OF assms] by simp
next
  case (some str)
  let ?n = "length (elems str)"
  have al: "int (sdb_alen (Some str)) = int ?n" using alen_fields [of str] some(2) by simp
  note run = sdb_array_set.simps [of s k i val 0]
  show ?thesis
  proof (cases "i < 0 \<or> i \<ge> int ?n")
    case True
    have e: "set_at i (elems val) (arr s k) = arr s k @ elems (replicate (nat (i - int ?n)) SDB_RS @ val)"
      using True some by (auto simp: set_at_def elems_pad nat_diff_distrib')
    have "sdb_array_set s k i val 0 = sdb_array_insert s k (-1) (replicate (nat (i - int ?n)) SDB_RS @ val) 0"
      using get_len_run [OF mem_readyD [OF assms(1)], of k] some True al unfolding run by (auto simp: Let_def)
    then show ?thesis using insert_last [OF assms(1) _ some(4)] assms(2) e by simp
  next
    case False
    define j where "j = nat i"
    have j: "j < ?n" "i = int j" using False by (auto simp: j_def)
    have p: "Aindexof str i = Some (unelems (drop j (elems str)))" using j by (simp add: Aindexof_spec)
    have u: "Aindexof str (i + 1) = (if Suc j < ?n then Some (unelems (drop (Suc j) (elems str))) else None)"
      using j by (simp add: Aindexof_spec nat_add_distrib)
    have pre: "take (length str - length (unelems (drop j (elems str)))) str
        = (if j = 0 then [] else unelems (take j (elems str)) @ [SDB_RS])"
    proof (cases "j = 0")
      case False
      then have s: "str = unelems (take j (elems str)) @ SDB_RS # unelems (drop j (elems str))" using split_at j by simp
      have "length str - length (unelems (drop j (elems str))) = length (unelems (take j (elems str)) @ [SDB_RS])"
        using arg_cong [OF s, of length] by simp
      then show ?thesis using False s by (metis append.assoc append_Cons append_Nil append_eq_conv_conj)
    qed simp
    let ?r = "take (length str - length (unelems (drop j (elems str)))) str @ val
       @ (case Aindexof str (i + 1) of None \<Rightarrow> [] | Some usr \<Rightarrow> SDB_RS # usr)"
    have tl: "val @ (case Aindexof str (i + 1) of None \<Rightarrow> [] | Some usr \<Rightarrow> SDB_RS # usr)
        = unelems (elems val @ drop (Suc j) (elems str))"
      using u by (auto simp: joinc_append)
    have "?r = unelems (take j (elems str) @ elems val @ drop (Suc j) (elems str))"
      unfolding tl pre using j(1) by (cases "j = 0") (auto simp: joinc_append [of "take j (elems str)"] take_Suc_conv_app_nth)
    then have r: "?r = unelems (set_at i (elems val) (arr s k))" using some j by (simp add: set_at_def)
    have "sdb_array_set s k i val 0 = sdb_set s k (Some ?r) 0"
      using get_len_run [OF mem_readyD [OF assms(1)], of k] some False al p unfolding run by (auto simp: Let_def)
    then show ?thesis using set_ready(1) [OF assms] r by simp
  qed
qed

lemma insert_view:
  assumes "mem_ready s k" "length (unelems (ins_at i (elems val) (arr s k))) < SDB_VSZ"
  shows "mem_view (snd (sdb_array_insert s k i val 0)) = put_spec k (unelems (ins_at i (elems val) (arr s k))) (mem_view s)"
proof (cases rule: arr_cases [of s k])
  case none
  then have "sdb_array_insert s k i val 0 = sdb_set s k (Some (unelems (ins_at i (elems val) (arr s k)))) 0"
    using get_len_run [OF mem_readyD [OF assms(1)], of k] by (subst sdb_array_insert.simps) (auto simp: ins_at_def)
  then show ?thesis using set_ready(1) [OF assms] by simp
next
  case (some str)
  let ?n = "length (elems str)"
  note run = sdb_array_insert.simps [of s k i val 0]
  show ?thesis
  proof (cases "0 \<le> i \<and> i < int ?n")
    case True
    define j where "j = nat i"
    have j: "j < ?n" "i = int j" using True by (auto simp: j_def)
    let ?p = "unelems (drop j (elems str))"
    have r: "unelems (ins_at i (elems val) (arr s k)) =
      (if j = 0 then val @ SDB_RS # str else unelems (take j (elems str)) @ SDB_RS # val @ SDB_RS # ?p)"
      using some j by (auto simp: ins_at_def joinc_append)
    have ln: "take (length str - length ?p - 1) str = unelems (take j (elems str))" "length ?p < length str" if "j \<noteq> 0"
    proof -
      have s: "str = unelems (take j (elems str)) @ SDB_RS # ?p" using split_at j that by simp
      show "length ?p < length str" using arg_cong [OF s, of length] by simp
      have "length str - length ?p - 1 = length (unelems (take j (elems str)))" using arg_cong [OF s, of length] by simp
      then show "take (length str - length ?p - 1) str = unelems (take j (elems str))" using s by (metis append_eq_conv_conj)
    qed
    have "Aindexof str i = Some ?p" using j by (simp add: Aindexof_spec)
    then have "sdb_array_insert s k i val 0 = sdb_set_owned s k (Some (unelems (ins_at i (elems val) (arr s k)))) 0"
      using get_len_run [OF mem_readyD [OF assms(1)], of k] some(1,2) j ln r unfolding run by (auto simp: Let_def)
    then show ?thesis using set_ready(3) [OF assms] by simp
  next
    case False
    then have e: "ins_at i (elems val) (arr s k) = set_at i (elems val) (arr s k)"
      using some by (auto simp: ins_at_def set_at_def)
    show ?thesis
    proof (cases "i = -1")
      case True
      then show ?thesis using insert_last [OF assms(1) _ some(4)] assms(2) some(4) by (simp add: ins_at_def)
    next
      case ne: False
      have "Aindexof str i = None" using False by (auto simp: Aindexof_spec)
      then have "sdb_array_insert s k i val 0 = sdb_array_set s k i val 0"
        using get_len_run [OF mem_readyD [OF assms(1)], of k] some(1,2) False ne unfolding run by (auto simp: Let_def)
      then show ?thesis using set_view [OF assms(1)] assms(2) e by simp
    qed
  qed
qed

text \<open>
  C29.  \<^verbatim>\<open>sdb_array_insert\<close> and \<^verbatim>\<open>sdb_array_set\<close> act on the list of elements: they insert before, or
  replace, the element at the index; a negative index appends; an index past the end first
  fills the gap with empty elements; an array without elements becomes the value alone whatever
  the index.  Inserting a value that contains separators inserts all of its elements.
\<close>

theorem array_insert_set:
  assumes "mem_ready s k" "sdb_array_insert s k i val 0 = (r1, s1)" "sdb_array_set s k i val 0 = (r2, s2)"
    "length (unelems (ins_at i (elems val) (arr s k))) < SDB_VSZ"
    "length (unelems (set_at i (elems val) (arr s k))) < SDB_VSZ"
  shows "mem_view s1 = put_spec k (unelems (ins_at i (elems val) (arr s k))) (mem_view s)
     \<and> mem_view s2 = put_spec k (unelems (set_at i (elems val) (arr s k))) (mem_view s)"
  using insert_view [OF assms(1,4)] set_view [OF assms(1,5)] assms(2,3) by simp

theorem array_insert_set_witness:
  "let s = single ''k'' ''a,b'' in
   mem_view (snd (sdb_array_insert s ''k'' 1 ''x'' 0)) ''k'' = Some ''a,x,b''
   \<and> mem_view (snd (sdb_array_set s ''k'' 1 ''x'' 0)) ''k'' = Some ''a,x''"
proof -
  let ?s = "single ''k'' ''a,b''"
  have a: "arr ?s ''k'' = [''a'', ''b'']" by (simp add: arr_def single_ok SDB_KSZ_def SDB_VSZ_def SDB_RS_def)
  have r: "mem_ready ?s ''k''" by (simp add: single_ok SDB_KSZ_def SDB_VSZ_def)
  have e: "unelems (ins_at 1 (elems ''x'') (arr ?s ''k'')) = ''a,x,b''" "unelems (set_at 1 (elems ''x'') (arr ?s ''k'')) = ''a,x''"
    by (simp_all add: a ins_at_def set_at_def SDB_RS_def)
  obtain r1 s1 r2 s2 where x: "sdb_array_insert ?s ''k'' 1 ''x'' 0 = (r1, s1)" "sdb_array_set ?s ''k'' 1 ''x'' 0 = (r2, s2)"
    by fastforce
  show ?thesis using array_insert_set [OF r x] e x by (simp add: SDB_VSZ_def)
qed

section \<open>Removing elements in memory\<close>

definition del_at :: "nat \<Rightarrow> 'a list \<Rightarrow> 'a list" where
  "del_at j fs = take j fs @ drop (Suc j) fs"

lemma delete_string:
  assumes "j < length (elems str)"
  defines "p \<equiv> unelems (drop j (elems str))"
  defines "b \<equiv> take (length str - length p) str"
  shows "(case strchr p SDB_RS of Some n \<Rightarrow> b @ tl n | None \<Rightarrow> if b \<noteq> [] then butlast b else [])
     = unelems (del_at j (elems str))"
proof -
  have b: "b = (if j = 0 then [] else unelems (take j (elems str)) @ [SDB_RS])"
  proof (cases "j = 0")
    case False
    then have s: "str = unelems (take j (elems str)) @ SDB_RS # p" using split_at assms(1) by (simp add: p_def)
    have "length str - length p = length (unelems (take j (elems str)) @ [SDB_RS])" using arg_cong [OF s, of length] by simp
    then show ?thesis using False s unfolding b_def by (metis append.assoc append_Cons append_Nil append_eq_conv_conj)
  qed (simp add: b_def p_def)
  have f: "drop j (elems str) = elems str ! j # drop (Suc j) (elems str)" using assms(1) by (rule Cons_nth_drop_Suc [symmetric])
  have ns: "SDB_RS \<notin> set (elems str ! j)" using elems_no_sep [OF nth_mem [OF assms(1)]] .
  show ?thesis
  proof (cases "drop (Suc j) (elems str) = []")
    case True
    then have "p = elems str ! j" using f by (simp add: p_def)
    then show ?thesis using ns True b by (auto simp: no_sep_strchr del_at_def)
  next
    case False
    then have "p = elems str ! j @ SDB_RS # unelems (drop (Suc j) (elems str))" using f by (simp add: p_def joinc_Cons)
    then show ?thesis using ns False b assms(1) by (auto simp: strchr_append_sep del_at_def joinc_append)
  qed
qed

lemma joinc_length: "length (joinc c xs) = sum_list (map length xs) + (length xs - 1)"
  by (induction c xs rule: joinc.induct) auto

lemma joinc_del_length: "length (unelems (del_at j (elems str))) \<le> length str"
proof (cases "j < length (elems str)")
  case True
  then have "elems str = take j (elems str) @ elems str ! j # drop (Suc j) (elems str)" by (rule id_take_nth_drop)
  then have "sum_list (map length (elems str)) = sum_list (map length (take j (elems str)))
      + length (elems str ! j) + sum_list (map length (drop (Suc j) (elems str)))"
    by (metis add.assoc list.simps(9) map_append sum_list.Cons sum_list_append)
  then show ?thesis using True joinc_length [of SDB_RS "elems str"]
      joinc_length [of SDB_RS "take j (elems str) @ drop (Suc j) (elems str)"]
    by (simp add: del_at_def)
qed (simp add: del_at_def)

lemma delete_view:
  assumes "mem_ready s k" "sdb_array_delete s k i 0 = (r, s')"
  shows "let n = length (arr s k); j = (if i < 0 then n - 1 else nat i) in
     if j < n then r \<and> mem_view s' = put_spec k (unelems (del_at j (arr s k))) (mem_view s)
     else \<not> r \<and> s' = s"
proof (cases rule: arr_cases [of s k])
  case none
  then show ?thesis using assms(2) const_get_run [OF mem_readyD [OF assms(1)], of k]
    by (auto simp: sdb_array_delete_def Let_def)
next
  case (some str)
  define j where "j = (if i < 0 then length (elems str) - 1 else nat i)"
  have al: "int (sdb_alen (Some str)) = int (length (elems str))" "0 < length (elems str)"
    using alen_fields [of str] some(2) by simp_all
  have j: "nat (if i < 0 then if int (sdb_alen (Some str)) \<noteq> 0 then int (sdb_alen (Some str)) - 1
      else int (sdb_alen (Some str)) else i) = j" unfolding al(1) using al(2) by (auto simp: j_def)
  have len: "length (unelems (del_at j (elems str))) < SDB_VSZ"
    using mem_value_len [OF mem_readyD [OF assms(1)] some(1)] joinc_del_length [of j str] by simp
  have "(r, s') = (if j < length (elems str)
      then (True, snd (sdb_set_owned s k (Some (unelems (del_at j (elems str)))) 0)) else (False, s))"
    using assms(2) const_get_run [OF mem_readyD [OF assms(1)], of k] some(1,2) delete_string [of j str]
    by (auto simp: sdb_array_delete_def Let_def j skip_fields_spec)
  then show ?thesis using set_ready(3) [OF assms(1) len] some(3)
    by (auto simp: Let_def j_def [symmetric] split: if_splits)
qed

text \<open>
  C30.  \<^verbatim>\<open>sdb_array_delete\<close> removes the element at an index, the last one for a negative index, and fails
  without any change when there is none; \<^verbatim>\<open>sdb_array_remove\<close> removes the first element that equals a
  string, and fails without any change when no element does.  A key whose last element is removed
  has no value any more.
\<close>

theorem array_delete_remove:
  assumes "mem_ready s k" "clean s k" "nonul v" "SDB_RS \<notin> set v"
    "sdb_array_delete s k i 0 = (r1, s1)" "sdb_array_remove s k v 0 = (r2, s2)"
  shows "(let n = length (arr s k); j = (if i < 0 then n - 1 else nat i) in
      if j < n then r1 \<and> mem_view s1 = put_spec k (unelems (del_at j (arr s k))) (mem_view s)
      else \<not> r1 \<and> s1 = s)
     \<and> (case find_index ((=) v) (arr s k) of
          None \<Rightarrow> \<not> r2 \<and> s2 = s
        | Some j \<Rightarrow> r2 \<and> mem_view s2 = put_spec k (unelems (del_at j (arr s k))) (mem_view s))"
proof
  show "let n = length (arr s k); j = (if i < 0 then n - 1 else nat i) in
      if j < n then r1 \<and> mem_view s1 = put_spec k (unelems (del_at j (arr s k))) (mem_view s)
      else \<not> r1 \<and> s1 = s"
    by (rule delete_view [OF assms(1,5)])
  obtain c where g: "sdb_const_get s k = ((mem_view s k, c), s)"
    using const_get_run [OF mem_readyD [OF assms(1)]] by blast
  show "case find_index ((=) v) (arr s k) of
          None \<Rightarrow> \<not> r2 \<and> s2 = s
        | Some j \<Rightarrow> r2 \<and> mem_view s2 = put_spec k (unelems (del_at j (arr s k))) (mem_view s)"
  proof (cases rule: arr_cases [of s k])
    case none
    then show ?thesis using assms(6) by (simp add: sdb_array_remove_def g)
  next
    case (some str)
    have idx: "index_loop (\<lambda>p. astrcmp p v = 0) str 0 = map_option int (find_index ((=) v) (elems str))"
      using index_loop_nonul [of "\<lambda>p. astrcmp p v = 0" "(=) v" str 0] assms(2-4) some(1) astrcmp_eq [of _ v]
      by (auto simp: clean_def splitc_no_sep)
    show ?thesis
    proof (cases "find_index ((=) v) (elems str)")
      case None
      then show ?thesis using assms(6) some idx by (simp add: sdb_array_remove_def g)
    next
      case (Some j)
      then have "sdb_array_delete s k (int j) 0 = (r2, s2)" using assms(6) some idx by (simp add: sdb_array_remove_def g)
      then show ?thesis using delete_view [OF assms(1), of "int j" r2 s2] find_index_SomeD [OF Some] Some some(3)
        by (auto simp: Let_def)
    qed
  qed
qed

theorem array_delete_remove_witness:
  "let s = single ''k'' ''a,b,c'' in
   mem_view (snd (sdb_array_delete s ''k'' (-1) 0)) ''k'' = Some ''a,b''
   \<and> mem_view (snd (sdb_array_remove s ''k'' ''b'' 0)) ''k'' = Some ''a,c''"
proof -
  let ?s = "single ''k'' ''a,b,c''"
  have v: "mem_view ?s ''k'' = Some ''a,b,c''" "mem_ready ?s ''k''" by (simp_all add: single_ok SDB_KSZ_def SDB_VSZ_def)
  have a: "arr ?s ''k'' = [''a'', ''b'', ''c'']" using v by (simp add: arr_def SDB_RS_def)
  have c: "clean ?s ''k''" using v by (simp add: clean_def)
  have b: "nonul ''b''" "SDB_RS \<notin> set ''b''" by (simp_all add: SDB_RS_def)
  obtain r1 s1 r2 s2 where x: "sdb_array_delete ?s ''k'' (-1) 0 = (r1, s1)" "sdb_array_remove ?s ''k'' ''b'' 0 = (r2, s2)"
    by fastforce
  show ?thesis using array_delete_remove [OF v(2) c b x] x by (simp add: a Let_def del_at_def SDB_RS_def)
qed

section \<open>Stacks\<close>

lemma cstring_take: "nonul (a @ b) \<Longrightarrow> cstring (take (length a) (a @ [NUL]) @ b) = a @ b"
  by (simp add: cstring_id)

lemma arr_put:
  assumes "mem_view s' = put_spec k (unelems fs) m" "unelems fs \<noteq> []" "\<forall>f \<in> set fs. SDB_RS \<notin> set f"
  shows "arr s' k = fs"
proof -
  have "fs \<noteq> []" using assms(2) by auto
  then have "elems (unelems fs) = fs" using assms(3) by (intro splitc_joinc) auto
  then show ?thesis using assms(1,2) by (simp add: arr_def)
qed

lemma append_prepend_view:
  assumes "mem_ready s k" "clean s k" "nonul v" "length (unelems (arr s k @ elems v)) < SDB_VSZ"
  shows "mem_view (snd (sdb_array_append s k (Some v) 0)) = put_spec k (unelems (arr s k @ elems v)) (mem_view s)"
    "mem_view (snd (sdb_array_push s k (Some v) 0)) = put_spec k (unelems (elems v @ arr s k)) (mem_view s)"
    "mem_inv (snd (sdb_array_push s k (Some v) 0))"
    "ht_count (s_ht (snd (sdb_array_push s k (Some v) 0))) \<le> ht_count (s_ht s) + 1"
proof -
  obtain n c where g: "sdb_const_get_len s k = ((mem_view s k, n, c), s)" "\<not> set_conflict s k c"
    "n = (case mem_view s k of None \<Rightarrow> 0 | Some v \<Rightarrow> length v)"
    using get_len_run [OF mem_readyD [OF assms(1)], of k] by blast
  have len: "length (unelems (elems v @ arr s k)) < SDB_VSZ" using assms(4) by (simp add: joinc_length)
  note w = set_ready_cas [OF assms(1,4) g(2)] set_ready_cas [OF assms(1) len g(2)]
  have runs: "\<exists>f\<in>{sdb_set, sdb_set_owned}. snd (sdb_array_append s k (Some v) 0) = snd (f s k (Some (unelems (arr s k @ elems v))) c)"
    "\<exists>f\<in>{sdb_set, sdb_set_owned}. snd (sdb_array_push s k (Some v) 0) = snd (f s k (Some (unelems (elems v @ arr s k))) c)"
    by (atomize (full), cases rule: arr_cases [of s k])
      (use g assms(2,3) in \<open>auto simp: sdb_array_append_def sdb_array_push_def sdb_array_prepend_def clean_def
         cstring_id joinc_append SDB_RS_def\<close>)
  show "mem_view (snd (sdb_array_append s k (Some v) 0)) = put_spec k (unelems (arr s k @ elems v)) (mem_view s)"
    using runs(1) w by auto
  show "mem_view (snd (sdb_array_push s k (Some v) 0)) = put_spec k (unelems (elems v @ arr s k)) (mem_view s)"
    "mem_inv (snd (sdb_array_push s k (Some v) 0))"
    "ht_count (s_ht (snd (sdb_array_push s k (Some v) 0))) \<le> ht_count (s_ht s) + 1"
    using runs(2) w by auto
qed

lemma pop_head_view:
  assumes "mem_ready s k" "sdb_array_pop s k = ((r, c), s')"
  shows "if arr s k = [] then r = None \<and> s' = s
     else r = Some (hd (arr s k)) \<and> mem_view s' = put_spec k (unelems (tl (arr s k))) (mem_view s)"
proof (cases rule: arr_cases [of s k])
  case none
  then show ?thesis using assms(2) const_get_run [OF mem_readyD [OF assms(1)], of k]
    by (auto simp: sdb_array_pop_def sdb_array_pop_head_def)
next
  case (some str)
  have len: "length str < SDB_VSZ" using mem_value_len [OF mem_readyD [OF assms(1)] some(1)] by simp
  obtain c' where g: "sdb_get s k = ((Some str, c'), s)"
    using const_get_run [OF mem_readyD [OF assms(1)], of k] some(1) by auto
  show ?thesis
  proof (cases "SDB_RS \<in> set str")
    case True
    then obtain f t where s: "str = f @ SDB_RS # t" "SDB_RS \<notin> set f" by (meson split_list_first)
    have "r = Some f" "s' = snd (sdb_set s k (Some t) 0)"
      using assms(2) g some(2) s by (auto simp: sdb_array_pop_def sdb_array_pop_head_def strchr_append_sep)
    then show ?thesis using some s set_ready(1) [OF assms(1), of t] len by (simp add: splitc_append_sep)
  next
    case False
    then have "r = Some str" "s' = snd (sdb_set s k (Some []) 0)"
      using assms(2) g some(2) by (auto simp: sdb_array_pop_def sdb_array_pop_head_def no_sep_strchr sdb_unset_def)
    then show ?thesis using some False set_ready(1) [OF assms(1), of "[]"] by (simp add: splitc_no_sep SDB_VSZ_def)
  qed
qed

text \<open>
  C31.  An array is a stack and a queue: \<^verbatim>\<open>sdb_array_push\<close> adds an element in front and \<^verbatim>\<open>sdb_array_append\<close> at
  the end; \<^verbatim>\<open>sdb_array_pop\<close> returns and removes the first element, and nothing from an array without
  elements; popping what was pushed returns it and restores every value.
\<close>

theorem array_push_pop:
  assumes "mem_ready s k" "clean s k" "ht_count (s_ht s) + 1 < 2147483647"
    "nonul v" "v \<noteq> []" "SDB_RS \<notin> set v" "length (unelems (arr s k @ [v])) < SDB_VSZ"
    "sdb_array_push s k (Some v) 0 = (r1, s1)" "sdb_array_pop s1 k = ((r2, c), s2)"
    "sdb_array_append s k (Some v) 0 = (r3, s3)"
  shows "arr s1 k = v # arr s k \<and> r2 = Some v \<and> mem_view s2 = mem_view s \<and> arr s3 k = arr s k @ [v]"
proof -
  have e: "elems v = [v]" using assms(6) by (rule splitc_no_sep)
  have len: "length (unelems (arr s k @ elems v)) < SDB_VSZ" using assms(7) e by simp
  note w = append_prepend_view [OF assms(1,2,4) len]
  have ns: "\<forall>f \<in> set (arr s k). SDB_RS \<notin> set f"
    using elems_no_sep by (auto simp: arr_def split: option.splits)
  have "0 < length (unelems (v # arr s k))" "0 < length (unelems (arr s k @ [v]))"
    unfolding joinc_length using assms(5) by simp_all
  then have ne: "unelems (v # arr s k) \<noteq> []" "unelems (arr s k @ [v]) \<noteq> []" by simp_all
  have 1: "mem_view s1 = put_spec k (unelems (v # arr s k)) (mem_view s)" using w(2) assms(8) e by simp
  have a1: "arr s1 k = v # arr s k" using arr_put [OF 1 ne(1)] assms(6) ns by simp
  have 3: "mem_view s3 = put_spec k (unelems (arr s k @ [v])) (mem_view s)" using w(1) assms(10) e by simp
  have a3: "arr s3 k = arr s k @ [v]" using arr_put [OF 3 ne(2)] assms(6) ns by auto
  have r: "mem_ready s1 k" using w(3,4) assms(1,3,8) by (simp add: mem_ready_def)
  have p: "r2 = Some v" "mem_view s2 = put_spec k (unelems (arr s k)) (mem_view s1)"
    using pop_head_view [OF r assms(9)] a1 by simp_all
  have "mem_view s2 = mem_view s"
    by (cases rule: arr_cases [of s k]) (use p(2) 1 in \<open>auto simp: put_spec_def\<close>)
  then show ?thesis using a1 a3 p(1) by blast
qed

theorem array_push_pop_witness:
  "let s = single ''k'' ''a,b''; s1 = snd (sdb_array_push s ''k'' (Some ''x'') 0) in
   arr s1 ''k'' = [''x'', ''a'', ''b''] \<and> fst (fst (sdb_array_pop s1 ''k'')) = Some ''x''"
proof -
  let ?s = "single ''k'' ''a,b''"
  have v: "mem_view ?s ''k'' = Some ''a,b''" "mem_ready ?s ''k''" "ht_count (s_ht ?s) \<le> 1"
    using single_ok [of "''k''" "''a,b''"] by (simp_all add: SDB_KSZ_def SDB_VSZ_def)
  have a: "arr ?s ''k'' = [''a'', ''b'']" using v by (simp add: arr_def SDB_RS_def)
  have c: "clean ?s ''k''" using v by (simp add: clean_def)
  obtain r1 s1 r3 s3 where x: "sdb_array_push ?s ''k'' (Some ''x'') 0 = (r1, s1)" "sdb_array_append ?s ''k'' (Some ''x'') 0 = (r3, s3)"
    by fastforce
  obtain r2 c2 s2 where y: "sdb_array_pop s1 ''k'' = ((r2, c2), s2)" by (metis prod.collapse)
  show ?thesis using array_push_pop [OF v(2) c _ _ _ _ _ x(1) y x(2)] x y v(3) by (simp add: a SDB_RS_def SDB_VSZ_def)
qed

section \<open>Popping at the end\<close>

lemma pop_tail_scan_sep: "SDB_RS \<notin> set b \<Longrightarrow> m \<le> length b \<Longrightarrow> pop_tail_scan (a @ SDB_RS # b) (length a + m) = length a"
proof (induction m)
  case 0
  then show ?case by (cases "length a") (auto simp: nth_append)
next
  case (Suc m)
  then have "(a @ SDB_RS # b) ! Suc (length a + m) = b ! m" by (simp add: nth_append)
  moreover have "b ! m \<noteq> SDB_RS" using Suc.prems by (metis Suc_le_eq nth_mem)
  ultimately show ?case using Suc by simp
qed

lemma pop_tail_scan_none: "SDB_RS \<notin> set str \<Longrightarrow> e < length str \<Longrightarrow> pop_tail_scan str e = 0"
  by (induction e) (auto dest: nth_mem)

text \<open>
  \<^verbatim>\<open>sdb_array_pop_tail\<close> returns and removes the last element of an array of two elements or more.  From an
  array of one element it returns the element but leaves it in the database.
\<close>

lemma pop_tail_view:
  assumes "mem_ready s k" "arr s k \<noteq> []" "sdb_array_pop_tail s k = ((r, c), s')"
  shows "r = Some (last (arr s k))
     \<and> mem_view s' = (if length (arr s k) = 1 then mem_view s else put_spec k (unelems (butlast (arr s k))) (mem_view s))"
proof (cases rule: arr_cases [of s k])
  case (some str)
  have len: "length str < SDB_VSZ" using mem_value_len [OF mem_readyD [OF assms(1)] some(1)] by simp
  obtain c' where g: "sdb_get s k = ((Some str, c'), s)"
    using const_get_run [OF mem_readyD [OF assms(1)], of k] some(1) by auto
  show ?thesis
  proof (cases "SDB_RS \<in> set str")
    case True
    then obtain a b where s: "str = a @ SDB_RS # b" "SDB_RS \<notin> set b" by (meson split_list_last)
    have e: "pop_tail_scan str (length str - 1) = length a"
      using pop_tail_scan_sep [OF s(2), of "length b" a] by (simp add: s(1))
    have "r = Some b" "s' = snd (sdb_set_owned s k (Some a) 0)"
      using assms(3) g some(2) e by (auto simp: sdb_array_pop_tail_def s(1) nth_append)
    moreover have "elems str = elems a @ [b]" using s by (simp add: splitc_append splitc_no_sep)
    ultimately show ?thesis using some set_ready(3) [OF assms(1), of a] len s(1) by (simp add: butlast_append)
  next
    case False
    then have "str ! 0 \<noteq> SDB_RS" using some(2) by (metis length_greater_0_conv nth_mem)
    then have "r = Some str" "s' = snd (sdb_set_owned s k (Some str) 0)"
      using assms(3) g some(2) pop_tail_scan_none [OF False, of "length str - 1"] by (auto simp: sdb_array_pop_tail_def)
    then show ?thesis using some False set_ready(3) [OF assms(1) len]
      by (auto simp: splitc_no_sep put_spec_def)
  qed
qed (use assms(2) in simp)

section \<open>Sorting in memory\<close>

lemma concat_sep: "xs \<noteq> [] \<Longrightarrow> concat (map (\<lambda>x. x @ [c]) xs) = joinc c xs @ [c]"
  by (induction c xs rule: joinc.induct) auto

lemma joinc_mset_length: "mset xs = mset ys \<Longrightarrow> length (joinc c xs) = length (joinc c ys)"
proof -
  assume m: "mset xs = mset ys"
  have "sum_list (map length xs) = sum_list (map length ys)"
    using m by (metis mset_map sum_mset_sum_list)
  then show ?thesis using mset_eq_length [OF m] by (simp add: joinc_length)
qed

text \<open>
  C32.  \<^verbatim>\<open>sdb_array_sort\<close> sorts: the elements of the array afterwards are a permutation of those before, in
  the order of \<^verbatim>\<open>astrcmp\<close>, and no other key changes.
\<close>

theorem array_sort_sorted:
  assumes "mem_ready s k"
  defines "s' \<equiv> sdb_array_sort s k 0"
  shows "mset (arr s' k) = mset (arr s k) \<and> ordered cstring_cmp (arr s' k) \<and> (\<forall>j. j = k \<or> mem_view s' j = mem_view s j)"
proof (cases rule: arr_cases [of s k])
  case none
  then have "s' = s" using get_len_run [OF mem_readyD [OF assms(1)], of k] by (auto simp: s'_def sdb_array_sort_def)
  then show ?thesis using none by simp
next
  case (some str)
  let ?q = "qsort cstring_cmp (elems str)"
  have ne: "?q \<noteq> []" using qsort_length [of cstring_cmp "elems str"] by (metis length_0_conv splitc_nonempty)
  have len: "length (unelems ?q) = length str" using joinc_mset_length [OF mset_qsort, of SDB_RS cstring_cmp "elems str"] by simp
  have v: "length (unelems ?q) < SDB_VSZ" using mem_value_len [OF mem_readyD [OF assms(1)] some(1)] len by simp
  have "s' = snd (sdb_set_owned s k (Some (unelems ?q)) 0)"
    using get_len_run [OF mem_readyD [OF assms(1)], of k] some(1,2) fmt_array_fields [OF some(2)] concat_sep [OF ne, of SDB_RS]
    by (auto simp: s'_def sdb_array_sort_def)
  then have w: "mem_view s' = put_spec k (unelems ?q) (mem_view s)" using set_ready(3) [OF assms(1) v] by simp
  have n2: "unelems ?q \<noteq> []" using len some(2) by auto
  have "arr s' k = ?q" using arr_put [OF w n2] elems_no_sep by simp
  then show ?thesis using w field_order.qsort_ordered some(3) by (auto simp: mset_qsort put_spec_def)
qed

theorem array_sort_sorted_witness:
  "ordered cstring_cmp (arr (sdb_array_sort (single ''k'' ''b,a'') ''k'' 0) ''k'')"
  using array_sort_sorted [of "single ''k'' ''b,a''" "''k''"] by (simp add: single_ok SDB_KSZ_def SDB_VSZ_def)

subsection \<open>Adding to a sorted array\<close>

fun add_merge :: "string list \<Rightarrow> string list \<Rightarrow> string list" where
  "add_merge [] fs = fs"
| "add_merge (v # vs) fs =
     takeWhile (\<lambda>f. \<not> cstring_cmp v f < 0) fs @ v # add_merge vs (dropWhile (\<lambda>f. \<not> cstring_cmp v f < 0) fs)"

lemma mset_add_merge: "mset (add_merge vs fs) = mset vs + mset fs"
proof (induction vs arbitrary: fs)
  case (Cons v vs)
  let ?P = "\<lambda>f. \<not> cstring_cmp v f < 0"
  have "mset fs = mset (takeWhile ?P fs) + mset (dropWhile ?P fs)"
    by (metis mset_append takeWhile_dropWhile_id)
  then show ?case using Cons by simp
qed simp

lemma set_add_merge: "set (add_merge vs fs) = set vs \<union> set fs"
  using arg_cong [OF mset_add_merge [of vs fs], of set_mset] by simp

lemma ordered_split:
  assumes "ordered cmp fs"
  shows "ordered cmp (takeWhile P fs)" "ordered cmp (dropWhile P fs)"
    "x \<in> set (takeWhile P fs) \<Longrightarrow> y \<in> set (dropWhile P fs) \<Longrightarrow> cmp x y \<le> 0"
  using assms ordered_simps(3) [of cmp "takeWhile P fs" "dropWhile P fs"] by auto

lemma ordered_add_merge: "ordered cstring_cmp vs \<Longrightarrow> ordered cstring_cmp fs \<Longrightarrow> ordered cstring_cmp (add_merge vs fs)"
proof (induction vs arbitrary: fs)
  case (Cons v vs)
  let ?P = "\<lambda>f. \<not> cstring_cmp v f < 0"
  let ?T = "takeWhile ?P fs" and ?D = "dropWhile ?P fs"
  note o = ordered_split [OF Cons.prems(2), where P = ?P]
  have T: "cstring_cmp f v \<le> 0" if "f \<in> set ?T" for f
    using set_takeWhileD [OF that] field_order.flip [of f v] by linarith
  have D: "cstring_cmp v d \<le> 0" if "d \<in> set ?D" for d
  proof -
    from that obtain e es where e: "?D = e # es" by (cases ?D) auto
    have "cstring_cmp v e \<le> 0" using hd_dropWhile [of ?P fs] e by auto
    moreover have "cstring_cmp e d \<le> 0"
      using o(2) that field_order.refl [of e] unfolding e by auto
    ultimately show ?thesis by (rule field_order.trans)
  qed
  have V: "\<forall>w \<in> set vs. cstring_cmp v w \<le> 0" "ordered cstring_cmp vs" using Cons.prems(1) by simp_all
  have "\<forall>w \<in> set (v # add_merge vs ?D). cstring_cmp v w \<le> 0"
    using V(1) D field_order.refl [of v] by (auto simp: set_add_merge)
  moreover have "cstring_cmp f w \<le> 0" if "f \<in> set ?T" "cstring_cmp v w \<le> 0" for f w
    using field_order.trans [OF T [OF that(1)] that(2)] .
  moreover have "ordered cstring_cmp (add_merge vs ?D)" by (rule Cons.IH [OF V(2) o(2)])
  ultimately show ?case using o(1) by simp
qed simp

lemma astrcmp_empty: "\<not> astrcmp v [] < 0"
  by (subst astrcmp.simps) (simp add: deref_def at_end_def Let_def)

lemma astrcmp_hd: "nonul p \<Longrightarrow> astrcmp v p = astrcmp v (hd (elems p))"
proof -
  assume n: "nonul p"
  have "hd (elems p) \<in> set (elems p)" by simp
  then have "cut (hd (elems p)) = hd (elems p)"
    using elems_no_sep n cut_field [OF n] by (metis cut_def takeWhile_idem)
  then show ?thesis by (simp add: astrcmp_scmp cut_field [OF n])
qed

lemma add_sorted_skip_spec:
  "nonul p \<Longrightarrow> add_sorted_skip v p = unelems (dropWhile (\<lambda>f. \<not> cstring_cmp v f < 0) (elems p))"
proof (induction p rule: field_induct)
  case (last f)
  then show ?case
    by (subst add_sorted_skip.simps)
      (auto simp: splitc_no_sep sdb_const_anext_def no_sep_strchr cstring_cmp_def astrcmp_empty)
next
  case (field f r)
  have "astrcmp v (f @ SDB_RS # r) = astrcmp v f"
    using astrcmp_hd [OF field.prems, of v] field.hyps by (simp add: field_simps)
  then show ?case using field
    by (subst add_sorted_skip.simps)
      (auto simp: field_simps sdb_const_anext_def cstring_cmp_def joinc_Cons)
qed

text \<open>The text written so far is always a list of elements with their separators.\<close>

lemma add_sorted_round:
  fixes v :: string
  assumes "\<forall>g \<in> set gs. SDB_RS \<notin> set g \<and> nonul g" "gs = [] \<or> unelems gs \<noteq> []"
  defines "P \<equiv> \<lambda>f. \<not> cstring_cmp v f < 0"
  shows "add_sorted_skip v (unelems gs) = unelems (dropWhile P gs)"
    "dropWhile P gs = [] \<or> unelems (dropWhile P gs) \<noteq> []"
    "take (length (unelems gs) - length (unelems (dropWhile P gs))) (unelems gs)
       @ (if unelems (dropWhile P gs) = [] \<and> unelems gs \<noteq> [] then [SDB_RS] else [])
     = concat (map (\<lambda>x. x @ [SDB_RS]) (takeWhile P gs))"
proof -
  let ?T = "takeWhile P gs" and ?D = "dropWhile P gs"
  have nn: "nonul (unelems gs)" if "\<forall>g \<in> set gs. nonul g" for gs
    using that by (induction SDB_RS gs rule: joinc.induct) (auto simp: SDB_RS_def)
  have el: "gs \<noteq> [] \<Longrightarrow> elems (unelems gs) = gs" using assms(1) by (intro splitc_joinc) auto
  have P0: "P []" by (simp add: P_def cstring_cmp_def astrcmp_empty)
  show 1: "add_sorted_skip v (unelems gs) = unelems ?D"
  proof (cases "gs = []")
    case True
    then show ?thesis by (simp add: add_sorted_skip.simps)
  next
    case False
    then show ?thesis using add_sorted_skip_spec [of "unelems gs" v] nn [of gs] assms(1) el by (simp add: P_def)
  qed
  show 2: "?D = [] \<or> unelems ?D \<noteq> []"
  proof (cases ?D)
    case (Cons d ds)
    then have "d \<noteq> []" using hd_dropWhile [of P gs] P0 by auto
    then show ?thesis using Cons by (cases ds) auto
  qed simp
  show "take (length (unelems gs) - length (unelems ?D)) (unelems gs)
       @ (if unelems ?D = [] \<and> unelems gs \<noteq> [] then [SDB_RS] else []) = concat (map (\<lambda>x. x @ [SDB_RS]) ?T)"
  proof (cases "?D = []")
    case True
    then have T: "?T = gs" by (metis append_Nil2 takeWhile_dropWhile_id)
    show ?thesis unfolding True T using assms(2) concat_sep [of gs SDB_RS] by (cases "gs = []") auto
  next
    case False
    with 2 have ne: "unelems ?D \<noteq> []" by blast
    show ?thesis
    proof (cases "?T = []")
      case True
      then have "?D = gs" by (metis append_Nil takeWhile_dropWhile_id)
      then show ?thesis using ne True by simp
    next
      case T: False
      have s: "unelems gs = unelems ?T @ SDB_RS # unelems ?D"
        using joinc_append [OF T False, of SDB_RS] by simp
      show ?thesis unfolding s concat_sep [OF T] using ne by simp
    qed
  qed
qed

lemma add_sorted_loop_spec:
  assumes "\<forall>g \<in> set gs. SDB_RS \<notin> set g \<and> nonul g" "gs = [] \<or> unelems gs \<noteq> []"
  shows "add_sorted_loop vs (unelems gs) (concat (map (\<lambda>x. x @ [SDB_RS]) done)) = unelems (done @ add_merge vs gs)"
  using assms
proof (induction vs arbitrary: gs "done")
  case Nil
  show ?case
  proof (cases "gs = []")
    case True
    then show ?thesis using concat_sep [of "done" SDB_RS] by (cases "done = []") auto
  next
    case False
    then show ?thesis using Nil concat_sep [of "done" SDB_RS] by (cases "done = []") (auto simp: joinc_append)
  qed
next
  case (Cons v vs)
  let ?P = "\<lambda>f. \<not> cstring_cmp v f < 0"
  let ?D = "dropWhile ?P gs"
  note r = add_sorted_round [OF Cons.prems, of v]
  have D: "\<forall>g \<in> set ?D. SDB_RS \<notin> set g \<and> nonul g" using Cons.prems(1) set_dropWhileD by fastforce
  have "add_sorted_loop (v # vs) (unelems gs) (concat (map (\<lambda>x. x @ [SDB_RS]) done))
      = add_sorted_loop vs (unelems ?D) (concat (map (\<lambda>x. x @ [SDB_RS]) (done @ takeWhile ?P gs @ [v])))"
    unfolding map_append concat_append r(3) [symmetric] add_sorted_loop.simps Let_def r(1) by simp
  also have "\<dots> = unelems ((done @ takeWhile ?P gs @ [v]) @ add_merge vs ?D)"
    by (rule Cons.IH [OF D r(2)])
  finally show ?case by simp
qed

lemma elems_nonul: "nonul w \<Longrightarrow> f \<in> set (elems w) \<Longrightarrow> nonul f"
  by (induct w rule: field_induct) (auto simp: splitc_no_sep splitc_append_sep)

lemma qsort_short: "(if 1 < length xs then qsort cmp xs else xs) = qsort cmp xs"
proof (cases xs)
  case (Cons x ys)
  then show ?thesis by (cases ys) (simp_all add: qsort_def)
qed (simp add: qsort_def)

text \<open>
  C33.  \<^verbatim>\<open>sdb_array_add_sorted\<close> keeps a sorted array sorted: it adds the elements of the value, however
  many and in whatever order they are given, and keeps the old ones.
\<close>

theorem array_add_sorted_sorted:
  assumes "mem_ready s k" "clean s k" "nonul v" "v \<noteq> []" "unelems (arr s k @ elems v) = x" "length x < SDB_VSZ"
    "ordered cstring_cmp (arr s k)" "sdb_array_add_sorted s k (Some v) 0 = (r, s')"
  shows "ordered cstring_cmp (arr s' k) \<and> mset (arr s' k) = mset (arr s k) + mset (elems v)"
proof -
  let ?q = "qsort cstring_cmp (elems v)" and ?m = "add_merge (qsort cstring_cmp (elems v)) (arr s k)"
  obtain n c where g: "sdb_const_get_len s k = ((mem_view s k, n, c), s)"
    "n = (case mem_view s k of None \<Rightarrow> 0 | Some v \<Rightarrow> length v)"
    using get_len_run [OF mem_readyD [OF assms(1)], of k] by blast
  have nv: "\<forall>f \<in> set (elems w). SDB_RS \<notin> set f \<and> nonul f" if "nonul w" for w
    using that elems_no_sep elems_nonul by blast
  have na: "\<forall>g \<in> set (arr s k). SDB_RS \<notin> set g \<and> nonul g"
    using nv assms(2) by (auto simp: arr_def clean_def split: option.splits)
  have q1: "(if length (elems v) > 1 then ?q else elems v) = ?q"
    by (rule qsort_short)
  have str: "(case mem_view s k of None \<Rightarrow> [] | Some str \<Rightarrow> if str = [] then [] else take n (str @ [NUL])) = unelems (arr s k)"
    by (cases rule: arr_cases [of s k]) (use g(2) in auto)
  have ne: "arr s k = [] \<or> unelems (arr s k) \<noteq> []" by (cases rule: arr_cases [of s k]) auto
  have loop: "add_sorted_loop ?q (unelems (arr s k)) [] = unelems ?m"
    using add_sorted_loop_spec [OF na ne, of ?q "[]"] by simp
  have mm: "mset ?m = mset (arr s k @ elems v)" by (simp add: mset_add_merge mset_qsort)
  have ml: "length (unelems ?m) = length x" using joinc_mset_length [OF mm] assms(5) by simp
  have sm: "\<forall>f \<in> set ?m. SDB_RS \<notin> set f \<and> nonul f" using na nv [OF assms(3)] by (auto simp: set_add_merge)
  have nm: "nonul (unelems ?m)"
  proof -
    have "nonul (unelems gs)" if "\<forall>g \<in> set gs. nonul g" for gs
      using that by (induction SDB_RS gs rule: joinc.induct) (auto simp: SDB_RS_def)
    then show ?thesis using sm by blast
  qed
  have "s' = snd (sdb_set_owned s k (Some (unelems ?m)) 0)"
    using assms(8) g(1) str loop q1 fmt_array_fields [OF assms(4)] cstring_id [OF nm]
    by (simp add: sdb_array_add_sorted_def Let_def)
  then have w: "mem_view s' = put_spec k (unelems ?m) (mem_view s)" using set_ready(3) [OF assms(1)] assms(6) ml by simp
  have "length v \<le> length x" using joinc_length [of SDB_RS "arr s k @ elems v"] joinc_length [of SDB_RS "elems v"] assms(5) by simp
  then have "unelems ?m \<noteq> []" using ml assms(4) by auto
  then have "arr s' k = ?m" using arr_put [OF w] sm by blast
  then show ?thesis using ordered_add_merge [OF field_order.qsort_ordered assms(7)] mm by simp
qed

theorem array_add_sorted_sorted_witness:
  "let s' = snd (sdb_array_add_sorted (single ''k'' ''b'') ''k'' (Some ''c,a'') 0) in
   ordered cstring_cmp (arr s' ''k'') \<and> mset (arr s' ''k'') = {#''a'', ''b'', ''c''#}"
proof -
  let ?s = "single ''k'' ''b''"
  have v: "mem_view ?s ''k'' = Some ''b''" "mem_ready ?s ''k''" by (simp_all add: single_ok SDB_KSZ_def SDB_VSZ_def)
  have a: "arr ?s ''k'' = [''b'']" using v by (simp add: arr_def SDB_RS_def)
  have c: "clean ?s ''k''" "ordered cstring_cmp (arr ?s ''k'')" using v a by (simp_all add: clean_def)
  obtain r s' where x: "sdb_array_add_sorted ?s ''k'' (Some ''c,a'') 0 = (r, s')" by fastforce
  show ?thesis using array_add_sorted_sorted [OF v(2) c(1) _ _ refl _ c(2) x] x
    by (simp add: a SDB_RS_def SDB_VSZ_def add_mset_commute)
qed

subsection \<open>Numbers\<close>

lemma le_val_bytes: "v < 256 ^ n \<Longrightarrow> le_val (le_bytes n v) = v"
proof (induction n arbitrary: v)
  case (Suc n)
  then have "v div 256 < 256 ^ n" by (simp add: div_less_iff_less_mult mult.commute)
  then show ?case using Suc.IH [of "v div 256"] by simp
qed simp

lemma field_texts_q:
  "field_texts load (pre @ concat (map (\<lambda>n. le_bytes 8 (unat n)) nums)) (replicate (length nums) CHR ''q'') (length pre)
     = map (\<lambda>n. itoa64 n 10) (nums :: ut64 list)"
proof (induction nums arbitrary: pre)
  case (Cons n nums)
  let ?rest = "concat (map (\<lambda>n. le_bytes 8 (unat n)) nums)"
  have "le_val (le_bytes 8 (unat n)) = unat n" using unat_ut64 [of n] by (intro le_val_bytes) simp
  then have "fmt_value load (pre @ le_bytes 8 (unat n) @ ?rest) (length pre) CHR ''q'' = Some (Some (itoa64 n 10))"
    by (simp add: fmt_value_def mem_get_def)
  then show ?case using Cons.IH [of "pre @ le_bytes 8 (unat n)"] by simp
qed simp

lemma joinc_length_ge: "\<forall>f \<in> set fs. f \<noteq> [] \<Longrightarrow> 2 * length fs \<le> length (joinc c fs) + 1"
proof (induction c fs rule: joinc.induct)
  case (3 c x y zs)
  then have "x \<noteq> []" "2 * length (y # zs) \<le> length (joinc c (y # zs)) + 1" by auto
  then show ?case by (cases x) simp_all
qed (auto simp: Suc_le_eq)

text \<open>
  \<^verbatim>\<open>sdb_array_sort_num\<close> sorts by number: the numbers of the elements afterwards are those before, in
  ascending order, each printed in decimal.
\<close>

theorem array_sort_num_sorted:
  assumes "mem_ready s k" "length (unelems (map (\<lambda>n. itoa64 n 10) (qsort int_cmp (map sdb_atoi (arr s k))))) < SDB_VSZ"
  defines "s' \<equiv> sdb_array_sort_num s k 0"
  shows "mset (map sdb_atoi (arr s' k)) = mset (map sdb_atoi (arr s k))
     \<and> sorted_wrt (\<le>) (map sdb_atoi (arr s' k))
     \<and> arr s' k = map (\<lambda>n. itoa64 n 10) (map sdb_atoi (arr s' k))"
proof (cases rule: arr_cases [of s k])
  case none
  then have "s' = s" using const_get_run [OF mem_readyD [OF assms(1)], of k] by (auto simp: s'_def sdb_array_sort_num_def)
  then show ?thesis using none by simp
next
  case (some str)
  let ?n = "qsort int_cmp (map sdb_atoi (elems str))"
  let ?t = "map (\<lambda>n. itoa64 n 10) ?n"
  let ?mem = "concat (map (\<lambda>n. le_bytes 8 (unat n)) ?n)"
  have ne: "?n \<noteq> []" using qsort_length [of int_cmp "map sdb_atoi (elems str)"] by (metis length_0_conv length_map splitc_nonempty)
  have "2 * length ?t \<le> length (unelems ?t) + 1" using itoa64_chars(1) [of 10] by (intro joinc_length_ge) auto
  then have "length ?n \<le> 16000000" using assms(2) some(3) by (simp add: SDB_VSZ_def)
  moreover have "length ?mem = 8 * length ?n" by (simp add: length_concat comp_def sum_list_triv)
  ultimately have ts: "sdb_fmt_tostr (\<lambda>_. []) ?mem (replicate (length ?n) CHR ''q'') = Some (Some (unelems ?t))"
    using tostr_fields [of "replicate (length ?n) CHR ''q''" ?mem "\<lambda>_. []"] ne field_texts_q [of "\<lambda>_. []" "[]" ?n] by simp
  have "s' = snd (sdb_set_owned s k (Some (unelems ?t)) 0)"
    using const_get_run [OF mem_readyD [OF assms(1)], of k] some(1,2) fmt_array_num_fields [OF some(2)] ts
    by (auto simp: s'_def sdb_array_sort_num_def Let_def)
  then have w: "mem_view s' = put_spec k (unelems ?t) (mem_view s)"
    using set_ready(3) [OF assms(1)] assms(2) some(3) by simp
  have "\<forall>f \<in> set ?t. SDB_RS \<notin> set f \<and> f \<noteq> []" using itoa64_chars(1,2) [of 10] by auto
  moreover have "?t = hd ?t # tl ?t" using ne by simp
  ultimately have "unelems ?t \<noteq> []" using joinc.simps(2,3) by (metis append_is_Nil_conv list.set_intros(1) neq_Nil_conv)
  then have a: "arr s' k = ?t" using arr_put [OF w] itoa64_chars(2) [of 10] by simp
  have at: "map sdb_atoi ?t = ?n" by (simp add: atoi_itoa comp_def)
  have "sorted_wrt (\<le>) ?n"
    using num_order.qsort_ordered [of "map sdb_atoi (elems str)"] unfolding ordered_def
    by (rule sorted_wrt_mono_rel [rotated]) (simp add: int_cmp_def split: if_splits)
  then show ?thesis unfolding a at some(3) by (simp add: mset_qsort)
qed

theorem array_sort_num_sorted_witness:
  "sorted_wrt (\<le>) (map sdb_atoi (arr (sdb_array_sort_num (single ''k'' ''9'') ''k'' 0) ''k''))"
proof -
  let ?s = "single ''k'' ''9''"
  have v: "mem_view ?s ''k'' = Some ''9''" "mem_ready ?s ''k''" by (simp_all add: single_ok SDB_KSZ_def SDB_VSZ_def)
  have a: "arr ?s ''k'' = [''9'']" using v by (simp add: arr_def SDB_RS_def)
  obtain t where "sdb_itoa (sdb_atoi ''9'') 10 (Some SDB_NUM_BUFSZ) = ItoaStr t" "length t < SDB_NUM_BUFSZ"
    using sdb_itoa_bounds [of 10 "sdb_atoi ''9''"] by auto
  then have "length (itoa64 (sdb_atoi ''9'') 10) < SDB_VSZ" by (simp add: itoa64_def SDB_NUM_BUFSZ_def SDB_VSZ_def)
  then show ?thesis using array_sort_num_sorted [OF v(2)] by (simp add: a qsort_def)
qed

end
