(* ===== verification/Js0n.thy ===== *)
theory Js0n
  imports Sdb_Prelude
begin

text \<open>
  The tokenizer of JSON text: \<^verbatim>\<open>src/json/js0n.c\<close>, both the program over jump tables and the one with switches that is compiled
  where labels are no values.  \<open>j_out\<close> is what was written through \<^verbatim>\<open>out\<close>, offsets and lengths in turn.
\<close>

section \<open>The program with jump tables\<close>

datatype go = Gostruct | Gobare | Gostring | Goutf8_Continue | Goesc

datatype label = L_bad | L_loop | L_up | L_down | L_qup | L_qdown | L_esc | L_unesc | L_bare | L_unbare
  | L_utf8_2 | L_utf8_3 | L_utf8_4 | L_utf_continue

definition gostruct :: "char \<Rightarrow> label" where
  "gostruct c =
     (if c \<in> {CHR 0x09, CHR '' '', CHR 0x0D, CHR 0x0A, CHR '','', CHR '':''} then L_loop
      else if c = CHR 0x22 then L_qup
      else if c \<in> {CHR ''['', CHR ''{''} then L_up
      else if c \<in> {CHR '']'', CHR ''}''} then L_down
      else if c \<in> {CHR ''-'', CHR ''t'', CHR ''f'', CHR ''n''} then L_bare
      else if 48 \<le> (of_char c :: nat) \<and> (of_char c :: nat) \<le> 57 then L_bare
      else L_bad)"

definition gobare :: "char \<Rightarrow> label" where
  "gobare c =
     (if c \<in> {CHR '' '', CHR 0x09, CHR 0x0D, CHR 0x0A, CHR '','', CHR '']'', CHR ''}''} then L_unbare
      else if 32 \<le> (of_char c :: nat) \<and> (of_char c :: nat) \<le> 126 then L_loop
      else L_bad)"

definition gostring :: "char \<Rightarrow> label" where
  "gostring c =
     (let n = (of_char c :: nat) in
      if c = CHR 0x5C then L_esc
      else if c = CHR 0x22 then L_qdown
      else if 32 \<le> n \<and> n \<le> 126 then L_loop
      else if 192 \<le> n \<and> n \<le> 223 then L_utf8_2
      else if 224 \<le> n \<and> n \<le> 239 then L_utf8_3
      else if 240 \<le> n \<and> n \<le> 247 then L_utf8_4
      else L_bad)"

definition goutf8_continue :: "char \<Rightarrow> label" where
  "goutf8_continue c = (if 128 \<le> (of_char c :: nat) \<and> (of_char c :: nat) \<le> 191 then L_utf_continue else L_bad)"

definition goesc :: "char \<Rightarrow> label" where
  "goesc c =
     (if c \<in> {CHR 0x22, CHR 0x5C, CHR ''/'', CHR ''b'', CHR ''f'', CHR ''n'', CHR ''r'', CHR ''t'', CHR ''u''} then L_unesc else L_bad)"

fun go_label :: "go \<Rightarrow> char \<Rightarrow> label" where
  "go_label Gostruct = gostruct"
| "go_label Gobare = gobare"
| "go_label Gostring = gostring"
| "go_label Goutf8_Continue = goutf8_continue"
| "go_label Goesc = goesc"

record js0n =
  j_prev :: ut32
  j_depth :: int
  j_remain :: int
  j_out :: "ut32 list"

text \<open>\<^verbatim>\<open>PUSH\<close> and \<^verbatim>\<open>CAP\<close>; \<open>cur\<close> is \<^verbatim>\<open>cur - js\<close>.\<close>

definition PUSH :: "int \<Rightarrow> int \<Rightarrow> js0n \<Rightarrow> js0n" where
  "PUSH i cur j =
     (if j_depth j = 1 then let w = word_of_int (cur + i) in j\<lparr>j_out := j_out j @ [w], j_prev := w\<rparr> else j)"

definition CAP :: "int \<Rightarrow> int \<Rightarrow> js0n \<Rightarrow> js0n" where
  "CAP i cur j =
     (if j_depth j = 1 then let w = word_of_int (cur + i - uint (j_prev j) + 1) in j\<lparr>j_out := j_out j @ [w], j_prev := w\<rparr> else j)"

text \<open>
  One jump and the code at its label, until control is at the end of the loop body; none when it is at \<^verbatim>\<open>l_bad\<close>.  The second jump
  of \<^verbatim>\<open>l_unbare\<close> is through \<^verbatim>\<open>gostruct\<close> and does not come back to \<^verbatim>\<open>l_unbare\<close>.
\<close>

fun at_label :: "label \<Rightarrow> int \<Rightarrow> go \<times> js0n \<Rightarrow> (go \<times> js0n) option" where
  "at_label L_bad cur s = None"
| "at_label L_loop cur s = Some s"
| "at_label L_up cur (g, j) = (let j = PUSH 0 cur j in Some (g, j\<lparr>j_depth := j_depth j + 1\<rparr>))"
| "at_label L_down cur (g, j) = (let j = j\<lparr>j_depth := j_depth j - 1\<rparr> in Some (g, CAP 0 cur j))"
| "at_label L_qup cur (g, j) = Some (Gostring, PUSH 1 cur j)"
| "at_label L_qdown cur (g, j) = Some (Gostruct, CAP (- 1) cur j)"
| "at_label L_esc cur (g, j) = Some (Goesc, j)"
| "at_label L_unesc cur (g, j) = Some (Gostring, j)"
| "at_label L_bare cur (g, j) = Some (Gobare, PUSH 0 cur j)"
| "at_label L_unbare cur (g, j) = None"
| "at_label L_utf8_2 cur (g, j) = Some (Goutf8_Continue, j\<lparr>j_remain := 1\<rparr>)"
| "at_label L_utf8_3 cur (g, j) = Some (Goutf8_Continue, j\<lparr>j_remain := 2\<rparr>)"
| "at_label L_utf8_4 cur (g, j) = Some (Goutf8_Continue, j\<lparr>j_remain := 3\<rparr>)"
| "at_label L_utf_continue cur (g, j) =
     (let j = j\<lparr>j_remain := j_remain j - 1\<rparr> in Some (if j_remain j = 0 then Gostring else g, j))"

definition js0n_step :: "int \<Rightarrow> char \<Rightarrow> go \<times> js0n \<Rightarrow> (go \<times> js0n) option" where
  "js0n_step cur c s =
     (case go_label (fst s) c of
        L_unbare \<Rightarrow> at_label (gostruct c) cur (Gostruct, CAP (- 1) cur (snd s))
      | l \<Rightarrow> at_label l cur s)"

fun js0n_loop :: "int \<Rightarrow> string \<Rightarrow> go \<times> js0n \<Rightarrow> int \<times> ut32 list" where
  "js0n_loop cur [] s = (j_depth (snd s), j_out (snd s))"
| "js0n_loop cur (c # cs) s =
     (case js0n_step cur c s of
        None \<Rightarrow> (1, j_out (case go_label (fst s) c of L_unbare \<Rightarrow> CAP (- 1) cur (snd s) | _ \<Rightarrow> snd s))
      | Some s \<Rightarrow> js0n_loop (cur + 1) cs s)"

definition js0n_init :: js0n where
  "js0n_init = \<lparr>j_prev = 0, j_depth = 0, j_remain = 0, j_out = []\<rparr>"

definition sdb_js0n :: "string \<Rightarrow> int \<times> ut32 list" where
  "sdb_js0n js = js0n_loop 0 js (Gostruct, js0n_init)"

section \<open>The program with switches\<close>

text \<open>The flags of \<^verbatim>\<open>what_did\<close>, of which one is set at a time.\<close>

datatype what = GO_DOWN | GO_UP | GO_Q_DOWN | GO_Q_UP | GO_BARE | GO_UNBARE | GO_ESCAPE | GO_UNESCAPE | GO_UTF8 | GO_UTF8_CONTINUE

text \<open>The last switch of the loop body.\<close>

definition switch_struct :: "int \<Rightarrow> char \<Rightarrow> what \<times> js0n \<Rightarrow> (what \<times> js0n) option" where
  "switch_struct cur c s =
     (case s of (w, j) \<Rightarrow>
        if c \<in> {CHR 0x09, CHR '' '', CHR 0x0D, CHR 0x0A, CHR '','', CHR '':''} then Some (w, j)
        else if c = CHR 0x22 then Some (GO_Q_UP, PUSH 1 cur j)
        else if c \<in> {CHR ''['', CHR ''{''} then (let j = PUSH 0 cur j in Some (GO_UP, j\<lparr>j_depth := j_depth j + 1\<rparr>))
        else if c \<in> {CHR '']'', CHR ''}''} then (let j = j\<lparr>j_depth := j_depth j - 1\<rparr> in Some (GO_DOWN, CAP 0 cur j))
        else if c \<in> {CHR ''-'', CHR ''t'', CHR ''f'', CHR ''n''} then Some (GO_BARE, PUSH 0 cur j)
        else if 48 \<le> (of_char c :: nat) \<and> (of_char c :: nat) \<le> 57 then Some (GO_BARE, PUSH 0 cur j)
        else None)"

definition switch_string :: "int \<Rightarrow> char \<Rightarrow> what \<times> js0n \<Rightarrow> (what \<times> js0n) option" where
  "switch_string cur c s =
     (case s of (w, j) \<Rightarrow>
        let n = (of_char c :: nat) in
        if c = CHR 0x5C then Some (GO_ESCAPE, j)
        else if c = CHR 0x22 then Some (GO_Q_DOWN, CAP (- 1) cur j)
        else if n \<le> 31 \<or> 127 \<le> n \<and> n \<le> 191 \<or> 248 \<le> n \<and> n \<le> 255 then None
        else if n < 127 then Some (w, j)
        else if n < 224 then Some (GO_UTF8, j\<lparr>j_remain := 1\<rparr>)
        else if n < 239 then Some (GO_UTF8, j\<lparr>j_remain := 2\<rparr>)
        else Some (GO_UTF8, j\<lparr>j_remain := 3\<rparr>))"

definition switch_bare :: "char \<Rightarrow> bool" where
  "switch_bare c \<longleftrightarrow> c \<in> {CHR '' '', CHR 0x09, CHR 0x0D, CHR 0x0A, CHR '','', CHR '']'', CHR ''}''}"

definition switch_step :: "int \<Rightarrow> char \<Rightarrow> what \<times> js0n \<Rightarrow> (what \<times> js0n) option" where
  "switch_step cur c s =
     (case s of (w, j) \<Rightarrow>
        let n = (of_char c :: nat) in
        if w = GO_BARE \<and> \<not> switch_bare c then (if 32 \<le> n \<and> n \<le> 126 then Some (w, j) else None)
        else
          let (w, j) = (if w = GO_BARE then (GO_UNBARE, CAP (- 1) cur j) else (w, j)) in
          if w = GO_UTF8 then
            if n < 128 \<or> 192 \<le> n \<and> n \<le> 255 then None
            else let j = j\<lparr>j_remain := j_remain j - 1\<rparr> in Some (if j_remain j = 0 then GO_UTF8_CONTINUE else w, j)
          else if w = GO_ESCAPE then
            if c \<in> {CHR 0x22, CHR 0x5C, CHR ''/'', CHR ''b'', CHR ''f'', CHR ''n'', CHR ''r'', CHR ''t'', CHR ''u''} then Some (GO_UNESCAPE, j) else None
          else if w = GO_Q_UP \<or> w = GO_UTF8_CONTINUE \<or> w = GO_UNESCAPE then switch_string cur c (w, j)
          else switch_struct cur c (w, j))"

fun switch_loop :: "int \<Rightarrow> string \<Rightarrow> what \<times> js0n \<Rightarrow> int \<times> ut32 list" where
  "switch_loop cur [] s = (j_depth (snd s), j_out (snd s))"
| "switch_loop cur (c # cs) s =
     (case switch_step cur c s of
        None \<Rightarrow> (1, j_out (if fst s = GO_BARE \<and> switch_bare c then CAP (- 1) cur (snd s) else snd s))
      | Some s \<Rightarrow> switch_loop (cur + 1) cs s)"

definition sdb_js0n_switch :: "string \<Rightarrow> int \<times> ut32 list" where
  "sdb_js0n_switch js = switch_loop 0 js (GO_DOWN, js0n_init)"

section \<open>The two programs agree\<close>

fun go_of :: "what \<Rightarrow> go" where
  "go_of GO_BARE = Gobare"
| "go_of GO_ESCAPE = Goesc"
| "go_of GO_UTF8 = Goutf8_Continue"
| "go_of GO_Q_UP = Gostring"
| "go_of GO_UTF8_CONTINUE = Gostring"
| "go_of GO_UNESCAPE = Gostring"
| "go_of w = Gostruct"

definition go_state :: "what \<times> js0n \<Rightarrow> go \<times> js0n" where
  "go_state s = (go_of (fst s), snd s)"

lemma struct_same:
  "at_label (gostruct c) cur (Gostruct, j) = map_option go_state (switch_struct cur c (w, j))" if "go_of w = Gostruct"
  using that by (simp add: gostruct_def switch_struct_def go_state_def Let_def del: insert_iff)

lemma string_same:
  assumes "go_of w = Gostring" "c \<noteq> CHR 0xEF"
  shows "at_label (gostring c) cur (Gostring, j) = map_option go_state (switch_string cur c (w, j))"
proof -
  define n where "n = (of_char c :: nat)"
  have "n \<noteq> 239" using assms(2) of_char_nat_inject [of c "CHR 0xEF"] by (simp add: n_def)
  moreover have "n \<le> 255" using of_char_lt_256 [of c] by (simp only: n_def)
  ultimately show ?thesis using assms(1) unfolding gostring_def switch_string_def n_def [symmetric]
    by (auto simp: go_state_def Let_def)
qed

lemma gostruct_not_unbare [simp]: "gostruct c \<noteq> L_unbare" "gostring c \<noteq> L_unbare"
  by (simp_all add: gostruct_def gostring_def Let_def)

lemma step_cases:
  "js0n_step cur c (Gostruct, j) = at_label (gostruct c) cur (Gostruct, j)"
  "js0n_step cur c (Gostring, j) = at_label (gostring c) cur (Gostring, j)"
  "js0n_step cur c (Goesc, j) = at_label (goesc c) cur (Goesc, j)"
  "js0n_step cur c (Goutf8_Continue, j) = at_label (goutf8_continue c) cur (Goutf8_Continue, j)"
  "switch_bare c \<Longrightarrow> js0n_step cur c (Gobare, j) = at_label (gostruct c) cur (Gostruct, CAP (- 1) cur j)"
  "\<not> switch_bare c \<Longrightarrow> js0n_step cur c (Gobare, j) =
     (if 32 \<le> (of_char c :: nat) \<and> (of_char c :: nat) \<le> 126 then Some (Gobare, j) else None)"
  by (auto simp: js0n_step_def goesc_def goutf8_continue_def gobare_def switch_bare_def simp del: insert_iff split: label.splits)

lemma step_same:
  assumes "c \<noteq> CHR 0xEF"
  shows "js0n_step cur c (go_state (w, j)) = map_option go_state (switch_step cur c (w, j))"
proof -
  define n where "n = (of_char c :: nat)"
  have l: "n \<le> 255" using of_char_lt_256 [of c] by (simp only: n_def)
  consider "go_of w = Gostruct" | "w = GO_BARE" | "w = GO_ESCAPE" | "w = GO_UTF8" | "go_of w = Gostring" by (cases w) auto
  then show ?thesis
  proof cases
    case 1
    then have "switch_step cur c (w, j) = switch_struct cur c (w, j)" by (cases w) (simp_all add: switch_step_def)
    then show ?thesis using struct_same [OF 1] 1 by (simp add: go_state_def step_cases)
  next
    case 2
    show ?thesis
    proof (cases "switch_bare c")
      case True
      then have "switch_step cur c (w, j) = switch_struct cur c (GO_UNBARE, CAP (- 1) cur j)" using 2 by (simp add: switch_step_def)
      then show ?thesis using struct_same [of GO_UNBARE c cur] True 2 by (simp add: go_state_def [of "(GO_BARE, j)"] step_cases)
    next
      case False
      then show ?thesis using 2 by (auto simp: go_state_def step_cases switch_step_def Let_def)
    qed
  next
    case 3
    then show ?thesis by (simp add: go_state_def step_cases switch_step_def goesc_def del: insert_iff)
  next
    case 4
    then show ?thesis using l unfolding switch_step_def go_state_def step_cases goutf8_continue_def n_def [symmetric]
      by (auto simp: step_cases goutf8_continue_def Let_def n_def [symmetric])
  next
    case 5
    then have "switch_step cur c (w, j) = switch_string cur c (w, j)" by (cases w) (simp_all add: switch_step_def)
    then show ?thesis using string_same [OF 5 assms] 5 by (simp add: go_state_def step_cases)
  qed
qed

lemma loop_same: "CHR 0xEF \<notin> set cs \<Longrightarrow> js0n_loop cur cs (go_state s) = switch_loop cur cs s"
proof (induction cs arbitrary: cur s)
  case Nil
  then show ?case by (simp add: go_state_def)
next
  case (Cons c cs)
  have st: "js0n_step cur c (go_state s) = map_option go_state (switch_step cur c s)" using step_same [of c cur "fst s" "snd s"] Cons.prems by auto
  have out: "(case go_label (fst (go_state s)) c of L_unbare \<Rightarrow> CAP (- 1) cur (snd (go_state s)) | _ \<Rightarrow> snd (go_state s))
      = (if fst s = GO_BARE \<and> switch_bare c then CAP (- 1) cur (snd s) else snd s)"
    by (cases "fst s") (auto simp: go_state_def goesc_def goutf8_continue_def gobare_def switch_bare_def simp del: insert_iff split: label.splits)
  show ?case using Cons st out by (auto simp: split: option.splits)
qed

text \<open>
  C25.  The two programs for the tokenizer, of which the build compiles one, return the same and write the same for every text without
  the byte 0xEF.
\<close>

theorem js0n_programs_agree:
  assumes "CHR 0xEF \<notin> set js"
  shows "sdb_js0n_switch js = sdb_js0n js"
  using loop_same [OF assms, of 0 "(GO_DOWN, js0n_init)"] by (simp add: sdb_js0n_def sdb_js0n_switch_def go_state_def)

theorem js0n_programs_agree_witness: "sdb_js0n_switch ''[true]'' = (0, [1, 4])"
  using js0n_programs_agree [of "''[true]''"]
  by (simp add: sdb_js0n_def js0n_step_def gostruct_def gobare_def PUSH_def CAP_def js0n_init_def)

text \<open>The first byte of a three-byte character of UTF-8 is taken for that of a four-byte one.\<close>

lemma js0n_programs_differ:
  "fst (sdb_js0n [CHR ''['', CHR 0x22, CHR 0xEF, CHR 0xBB, CHR 0xBF, CHR 0x22, CHR '']'']) = 0"
  "fst (sdb_js0n_switch [CHR ''['', CHR 0x22, CHR 0xEF, CHR 0xBB, CHR 0xBF, CHR 0x22, CHR '']'']) = 1"
  by (simp_all add: sdb_js0n_def js0n_step_def gostruct_def gostring_def goutf8_continue_def sdb_js0n_switch_def switch_step_def
      switch_struct_def switch_string_def PUSH_def CAP_def js0n_init_def Let_def)

section \<open>Runs of the tokenizer\<close>

fun jrun :: "int \<Rightarrow> string \<Rightarrow> go \<times> js0n \<Rightarrow> (go \<times> js0n) option" where
  "jrun cur [] s = Some s"
| "jrun cur (c # cs) s = (case js0n_step cur c s of None \<Rightarrow> None | Some s \<Rightarrow> jrun (cur + 1) cs s)"

lemma jrun_append: "jrun cur (xs @ ys) s = (case jrun cur xs s of None \<Rightarrow> None | Some s \<Rightarrow> jrun (cur + int (length xs)) ys s)"
  by (induction xs arbitrary: cur s) (auto split: option.splits simp: algebra_simps)

lemma js0n_loop_run:
  "jrun cur xs s = Some s' \<Longrightarrow> js0n_loop cur (xs @ ys) s = js0n_loop (cur + int (length xs)) ys s'"
  by (induction xs arbitrary: cur s) (auto split: option.splits simp: algebra_simps)

text \<open>Writing entries; a bare word is closed by the character after it.\<close>

definition writes :: "js0n \<Rightarrow> ut32 list \<Rightarrow> js0n" where
  "writes j ws = j\<lparr>j_out := j_out j @ ws, j_prev := last (j_prev j # ws)\<rparr>"

lemma writes_simps [simp]:
  "writes j [] = j" "writes (writes j ws) vs = writes j (ws @ vs)" "j_depth (writes j ws) = j_depth j" "j_out (writes j ws) = j_out j @ ws"
  by (auto simp: writes_def)

definition settle :: "int \<Rightarrow> go \<times> js0n \<Rightarrow> go \<times> js0n" where
  "settle cur s = (if fst s = Gobare then (Gostruct, CAP (- 1) cur (snd s)) else s)"

definition ends :: "int \<Rightarrow> string \<Rightarrow> js0n \<Rightarrow> js0n \<Rightarrow> bool" where
  "ends cur cs j j' \<longleftrightarrow> (\<exists>s. jrun cur cs (Gostruct, j) = Some s \<and> settle (cur + int (length cs)) s = (Gostruct, j'))"

lemma settle_Gostruct: "settle cur s = (Gostruct, j) \<Longrightarrow> fst s = Gostruct \<or> fst s = Gobare"
  by (auto simp: settle_def split: if_splits)

lemma settle_step:
  assumes "settle cur s = (Gostruct, j)" "switch_bare c"
  shows "js0n_step cur c s = js0n_step cur c (Gostruct, j)"
  using assms by (cases s) (auto simp: settle_def step_cases split: if_splits)

lemma ends_run: "jrun cur cs (Gostruct, j) = Some (Gostruct, j') \<Longrightarrow> ends cur cs j j'"
  by (auto simp: ends_def settle_def)

lemma ends_append:
  assumes "ends cur xs j j1" "ends (cur + int (length xs)) ys j1 j2" "ys \<noteq> [] \<Longrightarrow> switch_bare (hd ys)"
  shows "ends cur (xs @ ys) j j2"
proof -
  obtain s where s: "jrun cur xs (Gostruct, j) = Some s" "settle (cur + int (length xs)) s = (Gostruct, j1)" using assms(1) by (auto simp: ends_def)
  show ?thesis
  proof (cases ys)
    case Nil
    then show ?thesis using s assms(2) by (auto simp: ends_def settle_def)
  next
    case (Cons c cs)
    have "js0n_step (cur + int (length xs)) c s = js0n_step (cur + int (length xs)) c (Gostruct, j1)"
      using settle_step [OF s(2)] assms(3) Cons by simp
    then show ?thesis using s(1) assms(2) Cons by (auto simp: ends_def jrun_append algebra_simps)
  qed
qed

lemma ends_prepend:
  assumes "jrun cur xs (Gostruct, j) = Some (Gostruct, j1)" "ends (cur + int (length xs)) ys j1 j2"
  shows "ends cur (xs @ ys) j j2"
  using assms by (auto simp: ends_def jrun_append algebra_simps)

section \<open>JSON values\<close>

datatype json = JBare string | JStr string | JArr "json list" | JObj "(string \<times> json) list"

abbreviation QUOTE :: char where
  "QUOTE \<equiv> CHR 0x22"

definition key_text :: "string \<Rightarrow> string" where
  "key_text k = QUOTE # k @ [QUOTE, CHR '':'']"

fun json_text :: "json \<Rightarrow> string" where
  "json_text (JBare b) = b"
| "json_text (JStr x) = QUOTE # x @ [QUOTE]"
| "json_text (JArr vs) = CHR ''['' # joinc (CHR '','') (map json_text vs) @ '']''"
| "json_text (JObj ms) = CHR ''{'' # joinc (CHR '','') (map (\<lambda>(k, v). key_text k @ json_text v) ms) @ ''}''"

text \<open>Contents of strings: printable characters of ASCII and escapes.\<close>

fun jstr_ok :: "string \<Rightarrow> bool" where
  "jstr_ok [] = True"
| "jstr_ok (c # cs) =
     (if c = CHR 0x5C then (case cs of [] \<Rightarrow> False | d # ds \<Rightarrow> goesc d = L_unesc \<and> jstr_ok ds)
      else c \<noteq> QUOTE \<and> 32 \<le> (of_char c :: nat) \<and> (of_char c :: nat) \<le> 126 \<and> jstr_ok cs)"

definition bare_ok :: "string \<Rightarrow> bool" where
  "bare_ok b \<longleftrightarrow> b \<noteq> [] \<and> gostruct (hd b) = L_bare \<and> (\<forall>c \<in> set (tl b). gobare c = L_loop)"

fun json_wf :: "json \<Rightarrow> bool" where
  "json_wf (JBare b) = bare_ok b"
| "json_wf (JStr x) = jstr_ok x"
| "json_wf (JArr vs) = (\<forall>v \<in> set vs. json_wf v)"
| "json_wf (JObj ms) = (\<forall>m \<in> set ms. jstr_ok (fst m) \<and> json_wf (snd m))"

text \<open>What the tokenizer writes for a value at a depth and an offset.\<close>

fun emit :: "int \<Rightarrow> int \<Rightarrow> json \<Rightarrow> ut32 list"
and emit_elements :: "int \<Rightarrow> int \<Rightarrow> json list \<Rightarrow> ut32 list"
and emit_members :: "int \<Rightarrow> int \<Rightarrow> (string \<times> json) list \<Rightarrow> ut32 list" where
  "emit d cur (JBare b) = (if d = 1 then [word_of_int cur, word_of_int (int (length b))] else [])"
| "emit d cur (JStr x) = (if d = 1 then [word_of_int (cur + 1), word_of_int (int (length x))] else [])"
| "emit d cur (JArr vs) =
     (let ws = emit_elements (d + 1) (cur + 1) vs in
      if d = 1 then [word_of_int cur, word_of_int (int (length (json_text (JArr vs))))] else ws)"
| "emit d cur (JObj ms) =
     (let ws = emit_members (d + 1) (cur + 1) ms in
      if d = 1 then [word_of_int cur, word_of_int (int (length (json_text (JObj ms))))] else ws)"
| "emit_elements d cur [] = []"
| "emit_elements d cur (v # vs) = emit d cur v @ emit_elements d (cur + int (length (json_text v)) + 1) vs"
| "emit_members d cur [] = []"
| "emit_members d cur ((k, v) # ms) =
     (if d = 1 then [word_of_int (cur + 1), word_of_int (int (length k))] else [])
     @ emit d (cur + int (length k) + 3) v @ emit_members d (cur + int (length k) + 3 + int (length (json_text v)) + 1) ms"

lemma emit_deep: "2 \<le> d \<Longrightarrow> emit d cur v = []" "2 \<le> d \<Longrightarrow> emit_elements d cur vs = []" "2 \<le> d \<Longrightarrow> emit_members d cur ms = []"
  by (induction d cur v and d cur vs and d cur ms rule: emit_emit_elements_emit_members.induct) (auto simp: Let_def)

lemma push_writes: "j_depth j = 1 \<Longrightarrow> PUSH i cur j = writes j [word_of_int (cur + i)]" "j_depth j \<noteq> 1 \<Longrightarrow> PUSH i cur j = j"
  by (simp_all add: PUSH_def writes_def Let_def)

lemma cap_writes:
  "j_depth j = 1 \<Longrightarrow> CAP i cur (writes j (ws @ [word_of_int a])) = writes j (ws @ [word_of_int a, word_of_int (cur + i - a + 1)])"
  "j_depth j \<noteq> 1 \<Longrightarrow> CAP i cur j = j"
  by (simp_all add: CAP_def writes_def Let_def wi_hom_add [symmetric] wi_hom_sub [symmetric])

lemma run_chars:
  assumes "jstr_ok x"
  shows "jrun cur x (Gostring, j) = Some (Gostring, j)"
  using assms
proof (induction x arbitrary: cur rule: jstr_ok.induct)
  case (2 c cs)
  show ?case
  proof (cases "c = CHR 0x5C")
    case True
    then obtain d ds where cs: "cs = d # ds" "goesc d = L_unesc" "jstr_ok ds" using 2(3) by (auto split: list.splits)
    then show ?thesis using True 2(1) [OF True cs(1)] by (simp add: step_cases gostring_def)
  next
    case False
    then show ?thesis using 2(2) [OF False] 2(3) by (simp add: step_cases gostring_def Let_def)
  qed
qed simp

lemma run_quoted:
  assumes "jstr_ok x"
  shows "jrun cur (QUOTE # x @ [QUOTE]) (Gostruct, j) =
    Some (Gostruct, writes j (if j_depth j = 1 then [word_of_int (cur + 1), word_of_int (int (length x))] else []))"
proof -
  have q: "gostruct QUOTE = L_qup" "gostring QUOTE = L_qdown" by (simp_all add: gostruct_def gostring_def)
  show ?thesis
  proof (cases "j_depth j = 1")
    case True
    then show ?thesis using cap_writes(1) [of j "- 1" "cur + 1 + int (length x)" "[]" "cur + 1"]
      by (simp add: step_cases q jrun_append run_chars [OF assms] push_writes(1))
  next
    case False
    then show ?thesis by (simp add: step_cases q jrun_append run_chars [OF assms] push_writes(2) cap_writes(2))
  qed
qed

lemma run_bare:
  assumes "\<forall>c \<in> set b. gobare c = L_loop"
  shows "jrun cur b (Gobare, j) = Some (Gobare, j)"
  using assms by (induction b arbitrary: cur) (auto simp: js0n_step_def)

lemma ends_bare:
  assumes "bare_ok b"
  shows "ends cur b j (writes j (if j_depth j = 1 then [word_of_int cur, word_of_int (int (length b))] else []))"
proof -
  obtain c cs where b: "b = c # cs" "gostruct c = L_bare" "\<forall>c \<in> set cs. gobare c = L_loop" using assms by (cases b) (auto simp: bare_ok_def)
  have "jrun cur b (Gostruct, j) = Some (Gobare, PUSH 0 cur j)" using run_bare [OF b(3)] b(1,2) by (simp add: step_cases)
  moreover have "CAP (- 1) (cur + int (length b)) (PUSH 0 cur j) = writes j (if j_depth j = 1 then [word_of_int cur, word_of_int (int (length b))] else [])"
    using cap_writes(1) [of j "- 1" "cur + int (length b)" "[]" cur] by (auto simp: push_writes cap_writes(2))
  ultimately show ?thesis by (simp add: ends_def settle_def)
qed

lemma step_comma: "js0n_step cur (CHR '','') (Gostruct, j) = Some (Gostruct, j)"
  "js0n_step cur (CHR '':'') (Gostruct, j) = Some (Gostruct, j)"
  by (simp_all add: step_cases gostruct_def)

lemma bare_delims [simp]: "switch_bare (CHR '','')" "switch_bare (CHR '']'')" "switch_bare (CHR ''}'')"
  by (simp_all add: switch_bare_def)

text \<open>A list of values between separators.\<close>

lemma ends_Cons:
  assumes "ends cur x j j1" "xs \<noteq> [] \<Longrightarrow> ends (cur + int (length x) + 1) (joinc (CHR '','') xs) j1 j2" "xs = [] \<Longrightarrow> j2 = j1"
  shows "ends cur (joinc (CHR '','') (x # xs)) j j2"
proof (cases "xs = []")
  case True
  then show ?thesis using assms by simp
next
  case False
  have "ends (cur + int (length x)) (CHR '','' # joinc (CHR '','') xs) j1 j2"
    using ends_prepend [of "cur + int (length x)" "'',''" j1 j1] assms(2) [OF False] step_comma(1) by simp
  from ends_append [OF assms(1) this] False show ?thesis by (simp add: joinc_Cons)
qed

text \<open>Brackets around something that writes nothing at the depth inside, or at depth other than 1.\<close>

lemma run_brackets:
  assumes "\<And>j1. j_depth j1 = j_depth j + 1 \<Longrightarrow> ends (cur + 1) body j1 (writes j1 ws)"
    and "j_depth j = 1 \<Longrightarrow> ws = []" and "(a, b) \<in> {(CHR ''['', CHR '']''), (CHR ''{'', CHR ''}'')}"
  shows "jrun cur (a # body @ [b]) (Gostruct, j) =
    Some (Gostruct, writes j (if j_depth j = 1 then [word_of_int cur, word_of_int (int (length body) + 2)] else ws))"
proof -
  have l: "gostruct a = L_up" "gostruct b = L_down" "switch_bare b" using assms(3) by (auto simp: gostruct_def)
  let ?j1 = "(PUSH 0 cur j)\<lparr>j_depth := j_depth j + 1\<rparr>"
  let ?j2 = "CAP 0 (cur + 1 + int (length body)) ((writes ?j1 ws)\<lparr>j_depth := j_depth j\<rparr>)"
  have up: "js0n_step cur a (Gostruct, j) = Some (Gostruct, ?j1)" by (simp add: step_cases l PUSH_def Let_def)
  have "ends (cur + 1) body ?j1 (writes ?j1 ws)" by (rule assms(1)) simp
  then obtain s where s: "jrun (cur + 1) body (Gostruct, ?j1) = Some s" "settle (cur + 1 + int (length body)) s = (Gostruct, writes ?j1 ws)"
    by (auto simp: ends_def)
  have "js0n_step (cur + 1 + int (length body)) b s = Some (Gostruct, ?j2)"
    using settle_step [OF s(2) l(3)] by (simp add: step_cases l)
  then have e: "jrun cur (a # body @ [b]) (Gostruct, j) = Some (Gostruct, ?j2)" using up s(1) by (simp add: jrun_append)
  have "?j2 = writes j (if j_depth j = 1 then [word_of_int cur, word_of_int (int (length body) + 2)] else ws)"
  proof (cases "j_depth j = 1")
    case True
    then have "(writes ?j1 ws)\<lparr>j_depth := j_depth j\<rparr> = writes j ([] @ [word_of_int cur])" using assms(2)
      by (simp add: push_writes(1) writes_def)
    then show ?thesis using True cap_writes(1) [OF True, of 0 "cur + 1 + int (length body)" "[]" cur] by (simp add: algebra_simps)
  next
    case False
    then have "(writes ?j1 ws)\<lparr>j_depth := j_depth j\<rparr> = writes j ws" by (simp add: push_writes(2) writes_def)
    then show ?thesis using False cap_writes(2) [of "writes j ws"] by simp
  qed
  then show ?thesis using e by simp
qed

lemmas ends_brackets = ends_run [OF run_brackets]

lemma key_length [simp]: "length (key_text k) = length k + 3"
  by (simp add: key_text_def)

lemma run_key:
  assumes "jstr_ok k"
  shows "jrun cur (key_text k) (Gostruct, j) =
    Some (Gostruct, writes j (if j_depth j = 1 then [word_of_int (cur + 1), word_of_int (int (length k))] else []))"
proof -
  have "key_text k = (QUOTE # k @ [QUOTE]) @ '':''" by (simp add: key_text_def)
  then show ?thesis using run_quoted [OF assms, of cur j] by (simp only: jrun_append) (simp add: step_comma(2))
qed

lemma ends_json:
  "json_wf v \<Longrightarrow> d = j_depth j \<Longrightarrow> ends cur (json_text v) j (writes j (emit d cur v))"
  "\<forall>v \<in> set vs. json_wf v \<Longrightarrow> d = j_depth j \<Longrightarrow> ends cur (joinc (CHR '','') (map json_text vs)) j (writes j (emit_elements d cur vs))"
  "\<forall>m \<in> set ms. jstr_ok (fst m) \<and> json_wf (snd m) \<Longrightarrow> d = j_depth j \<Longrightarrow>
     ends cur (joinc (CHR '','') (map (\<lambda>(k, v). key_text k @ json_text v) ms)) j (writes j (emit_members d cur ms))"
proof (induction d cur v and d cur vs and d cur ms arbitrary: j and j and j rule: emit_emit_elements_emit_members.induct)
  case (1 d cur b)
  then show ?case using ends_bare [of b cur j] by simp
next
  case (2 d cur x)
  then show ?case using ends_run [OF run_quoted [of x cur j]] by simp
next
  case (3 d cur vs)
  have "ends (cur + 1) (joinc (CHR '','') (map json_text vs)) j1 (writes j1 (emit_elements (d + 1) (cur + 1) vs))"
    if "j_depth j1 = j_depth j + 1" for j1
    using 3(1) [of j1] 3(2,3) that by simp
  from ends_brackets [of j cur _ "emit_elements (d + 1) (cur + 1) vs", OF this, of "CHR ''[''" "CHR '']''"]
  show ?case using 3(3) emit_deep(2) by (cases "d = 1") (simp_all add: Let_def add.commute)
next
  case (4 d cur ms)
  have "ends (cur + 1) (joinc (CHR '','') (map (\<lambda>(k, v). key_text k @ json_text v) ms)) j1 (writes j1 (emit_members (d + 1) (cur + 1) ms))"
    if "j_depth j1 = j_depth j + 1" for j1
    using 4(1) [of j1] 4(2,3) that by simp
  from ends_brackets [of j cur _ "emit_members (d + 1) (cur + 1) ms", OF this, of "CHR ''{''" "CHR ''}''"]
  show ?case using 4(3) emit_deep(3) by (cases "d = 1") (simp_all add: Let_def add.commute)
next
  case (5 d cur)
  then show ?case by (simp add: ends_run)
next
  case (6 d cur v vs)
  have v: "ends cur (json_text v) j (writes j (emit d cur v))" using 6 by simp
  have "ends (cur + int (length (json_text v)) + 1) (joinc (CHR '','') (map json_text vs)) (writes j (emit d cur v))
      (writes (writes j (emit d cur v)) (emit_elements d (cur + int (length (json_text v)) + 1) vs))"
    using 6 by (intro 6(2)) auto
  then show ?case using ends_Cons [OF v, of "map json_text vs"] by simp
next
  case (7 d cur)
  then show ?case by (simp add: ends_run)
next
  case (8 d cur k v ms)
  let ?k = "if d = 1 then [word_of_int (cur + 1), word_of_int (int (length k))] else []" and ?c = "cur + int (length k) + 3"
  have "ends ?c (json_text v) (writes j ?k) (writes (writes j ?k) (emit d ?c v))" using 8 by (intro 8(1)) auto
  with run_key [of k cur j] 8 have m: "ends cur (key_text k @ json_text v) j (writes j (?k @ emit d ?c v))"
    using ends_prepend [of cur "key_text k" j "writes j ?k"] by (simp add: algebra_simps)
  have "ends (?c + int (length (json_text v)) + 1) (joinc (CHR '','') (map (\<lambda>(k, v). key_text k @ json_text v) ms)) (writes j (?k @ emit d ?c v))
      (writes (writes j (?k @ emit d ?c v)) (emit_members d (?c + int (length (json_text v)) + 1) ms))"
    using 8 by (intro 8(2)) auto
  then show ?case using ends_Cons [OF m, of "map (\<lambda>(k, v). key_text k @ json_text v) ms"] by (auto simp: algebra_simps)
qed

abbreviation members_text :: "(string \<times> json) list \<Rightarrow> string" where
  "members_text ms \<equiv> joinc (CHR '','') (map (\<lambda>(k, v). key_text k @ json_text v) ms)"

lemma run_object:
  assumes "json_wf (JObj ms)" "j_depth j = 0"
  shows "jrun cur (json_text (JObj ms)) (Gostruct, j) = Some (Gostruct, writes j (emit_members 1 (cur + 1) ms))"
proof -
  have "ends (cur + 1) (members_text ms) j1 (writes j1 (emit_members 1 (cur + 1) ms))" if "j_depth j1 = j_depth j + 1" for j1
    using ends_json(3) [of ms 1 j1 "cur + 1"] assms that by simp
  from run_brackets [of j cur _ "emit_members 1 (cur + 1) ms", OF this, of "CHR ''{''" "CHR ''}''"] show ?thesis using assms(2) by simp
qed

section \<open>What follows a value\<close>

text \<open>The rest of a text after a value inside it: the tokenizer does not find an open bracket there.\<close>

definition rest_ok :: "string \<Rightarrow> bool" where
  "rest_ok r \<longleftrightarrow> (\<forall>cur j. j_depth j \<le> 0 \<longrightarrow> fst (js0n_loop cur r (Gostruct, j)) \<le> 0)"

lemma rest_ok_Nil [simp]: "rest_ok []"
  by (simp add: rest_ok_def)

lemma rest_ok_close:
  assumes "rest_ok r"
  shows "rest_ok (CHR ''}'' # r)"
  unfolding rest_ok_def
proof (intro allI impI)
  fix cur and j :: js0n
  assume "j_depth j \<le> 0"
  moreover have "js0n_step cur (CHR ''}'') (Gostruct, j) = Some (Gostruct, j\<lparr>j_depth := j_depth j - 1\<rparr>)" if "j_depth j \<le> 0"
    using that by (simp add: step_cases gostruct_def Let_def cap_writes(2))
  ultimately show "fst (js0n_loop cur (CHR ''}'' # r) (Gostruct, j)) \<le> 0" using assms by (simp add: rest_ok_def)
qed

lemma ends_loop:
  assumes "ends cur xs j j1" "switch_bare c" "js0n_step (cur + int (length xs)) c (Gostruct, j1) = Some s'"
  shows "js0n_loop cur (xs @ c # r) (Gostruct, j) = js0n_loop (cur + int (length xs)) (c # r) (Gostruct, j1)"
proof -
  obtain s where s: "jrun cur xs (Gostruct, j) = Some s" "settle (cur + int (length xs)) s = (Gostruct, j1)" using assms(1) by (auto simp: ends_def)
  show ?thesis using js0n_loop_run [OF s(1), of "c # r"] settle_step [OF s(2) assms(2)] assms(3) by simp
qed

definition siblings_text :: "(string \<times> json) list \<Rightarrow> string" where
  "siblings_text ms = (if ms = [] then [] else CHR '','' # members_text ms)"

lemma rest_ok_siblings:
  assumes "rest_ok r" "json_wf (JObj ms)"
  shows "rest_ok (siblings_text ms @ CHR ''}'' # r)"
proof (cases "ms = []")
  case False
  show ?thesis unfolding rest_ok_def
  proof (intro allI impI)
    fix cur and j :: js0n
    assume j: "j_depth j \<le> 0"
    let ?j = "writes j (emit_members (j_depth j) (cur + 1) ms)"
    have e: "ends (cur + 1) (members_text ms) j ?j" using ends_json(3) [of ms "j_depth j" j "cur + 1"] assms(2) by simp
    obtain s where "js0n_step (cur + 1 + int (length (members_text ms))) (CHR ''}'') (Gostruct, ?j) = Some s"
      by (simp add: step_cases gostruct_def Let_def)
    from ends_loop [OF e _ this, of r] show "fst (js0n_loop cur (siblings_text ms @ CHR ''}'' # r) (Gostruct, j)) \<le> 0"
      using rest_ok_close [OF assms(1)] j False by (simp add: siblings_text_def step_comma rest_ok_def)
  qed
qed (use rest_ok_close [OF assms(1)] in \<open>simp add: siblings_text_def\<close>)

text \<open>The tokenizer writes at most one entry for a character, after those it has written.\<close>

lemma unbare_struct: "go_label g c = L_unbare \<Longrightarrow> gostruct c = L_loop \<or> gostruct c = L_down"
proof (cases g)
  case Gobare
  assume "go_label g c = L_unbare"
  then have "c \<in> {CHR '' '', CHR 0x09, CHR 0x0D, CHR 0x0A, CHR '','', CHR '']'', CHR ''}''}" using Gobare
    by (simp add: gobare_def del: insert_iff split: if_splits)
  then show ?thesis by (auto simp: gostruct_def)
qed (simp_all add: goesc_def goutf8_continue_def split: if_splits)

lemma step_out: "js0n_step cur c s = Some s' \<Longrightarrow> \<exists>ws. j_out (snd s') = j_out (snd s) @ ws \<and> length ws \<le> 1"
proof (cases s)
  case (Pair g j)
  have l: "at_label l cur (g, j) = Some s' \<Longrightarrow> \<exists>ws. j_out (snd s') = j_out j @ ws \<and> length ws \<le> 1" for l g
    by (cases l) (auto simp: PUSH_def CAP_def Let_def)
  assume st: "js0n_step cur c s = Some s'"
  show ?thesis
  proof (cases "go_label g c = L_unbare")
    case True
    then have "at_label (gostruct c) cur (Gostruct, CAP (- 1) cur j) = Some s'" using st Pair by (simp add: js0n_step_def)
    then show ?thesis using unbare_struct [OF True] Pair by (auto simp: CAP_def Let_def split: if_splits)
  next
    case False
    then have "js0n_step cur c s = at_label (go_label g c) cur (g, j)" using Pair by (simp add: js0n_step_def split: label.splits)
    then show ?thesis using l st Pair by simp
  qed
qed

lemma loop_out: "\<exists>ws. snd (js0n_loop cur cs s) = j_out (snd s) @ ws \<and> length ws \<le> length cs"
proof (induction cs arbitrary: cur s)
  case (Cons c cs)
  show ?case
  proof (cases "js0n_step cur c s")
    case None
    then show ?thesis by (auto simp: CAP_def Let_def split: label.splits)
  next
    case (Some s')
    obtain ws where "j_out (snd s') = j_out (snd s) @ ws" "length ws \<le> 1" using step_out [OF Some] by blast
    moreover obtain vs where "snd (js0n_loop (cur + 1) cs s') = j_out (snd s') @ vs" "length vs \<le> length cs" using Cons.IH by blast
    ultimately show ?thesis using Some by (intro exI [of _ "ws @ vs"]) simp
  qed
qed simp

lemma js0n_out_length: "length (snd (sdb_js0n js)) \<le> length js"
  using loop_out [of 0 js "(Gostruct, js0n_init)"] by (auto simp: sdb_js0n_def js0n_init_def)

end
