(* ===== verification/Json.thy ===== *)
theory Json
  imports Sdb_Core Js0n
begin

text \<open>
  Members of JSON text: ranges of strings (\<^verbatim>\<open>src/json/rangstr.c\<close>), lookup along a path (\<^verbatim>\<open>src/json/path.c\<close>), and reading, writing and
  formatting JSON values (\<^verbatim>\<open>src/json.c\<close>, \<^verbatim>\<open>src/json/api.c\<close>).  A pointer into a text is the suffix at it; the integers of a
  range are within the text.  Reading or writing past the end of an array is an error value.
\<close>

section \<open>Ranges\<close>

datatype json_error = Read_Past_End | Write_Past_End | Bad_Argument

record rangstr =
  rs_type :: char
  rs_next :: bool
  rs_f :: nat
  rs_t :: nat
  rs_p :: "string option"

text \<open>The character at an offset of a string, the terminator at its end.\<close>

definition char_at :: "string \<Rightarrow> nat \<Rightarrow> char" where
  "char_at p i = (if i < length p then p ! i else NUL)"

lemma char_at_less: "char_at p i \<noteq> NUL \<Longrightarrow> i < length p"
  by (simp add: char_at_def split: if_splits)

abbreviation rs_str :: "rangstr \<Rightarrow> string" where
  "rs_str rs \<equiv> the (rs_p rs)"

definition rangstr_null :: rangstr where
  "rangstr_null = \<lparr>rs_type = NUL, rs_next = False, rs_f = 0, rs_t = 0, rs_p = None\<rparr>"

definition rangstr_new :: "string \<Rightarrow> rangstr" where
  "rangstr_new s = \<lparr>rs_type = NUL, rs_next = True, rs_f = 0, rs_t = length s, rs_p = Some s\<rparr>"

definition rangstr_length :: "rangstr \<Rightarrow> nat" where
  "rangstr_length rs = (if rs_t rs > rs_f rs then rs_t rs - rs_f rs else 0)"

text \<open>The digits from an offset; \<^verbatim>\<open>int\<close> arithmetic wraps around.\<close>

fun int_loop :: "string \<Rightarrow> 32 word \<Rightarrow> 32 word" where
  "int_loop [] n = n"
| "int_loop (c # cs) n =
     (if (of_char c :: nat) < 48 \<or> (of_char c :: nat) > 57 then n else int_loop cs (n * 10 + (of_nat (of_char c) - 48)))"

definition rangstr_int :: "rangstr \<Rightarrow> int" where
  "rangstr_int s =
     (case rs_p s of
        None \<Rightarrow> 0
      | Some p \<Rightarrow>
          let i = (if char_at p (rs_f s) = CHR ''['' then 1 else 0);
              neg = (char_at p (rs_f s) = CHR ''-'');
              i = i + (if neg then rs_f s + 1 else rs_f s);
              n = int_loop (take (rs_t s - i) (drop i p)) 0
          in sint (if neg then - n else n))"

definition rangstr_dup :: "rangstr \<Rightarrow> string option" where
  "rangstr_dup rs = (case rs_p rs of None \<Rightarrow> None | Some p \<Rightarrow> Some (take (rangstr_length rs) (drop (rs_f rs) p)))"

text \<open>\<^verbatim>\<open>rangstr_news\<close> on two entries of the array.\<close>

definition rangstr_news :: "string \<Rightarrow> ut32 \<Rightarrow> ut32 \<Rightarrow> rangstr" where
  "rangstr_news s a b = \<lparr>rs_type = NUL, rs_next = True, rs_f = unat a, rs_t = unat (a + b), rs_p = Some s\<rparr>"

definition rangstr_cmp :: "rangstr \<Rightarrow> rangstr \<Rightarrow> int" where
  "rangstr_cmp a b =
     (let la = int (rs_t a) - int (rs_f a);
          lb = int (rs_t b) - int (rs_f b);
          lbz = int (length (rs_str b) - rs_f b);
          lb = (if lbz < lb then lbz else lb)
      in if la \<noteq> lb then 1
         else strcmp (take (nat la) (drop (rs_f a) (rs_str a))) (take (nat la) (drop (rs_f b) (rs_str b))))"

fun find_loop :: "string \<Rightarrow> char \<Rightarrow> nat \<Rightarrow> nat \<Rightarrow> int" where
  "find_loop p ch i 0 = - 1"
| "find_loop p ch i (Suc n) =
     (if char_at p i = NUL then - 1 else if char_at p i = ch then int i else find_loop p ch (i + 1) n)"

definition rangstr_find :: "rangstr \<Rightarrow> char \<Rightarrow> int" where
  "rangstr_find a ch = find_loop (rs_str a) ch (rs_f a) (rs_t a - rs_f a)"

definition rangstr_str :: "rangstr \<Rightarrow> string" where
  "rangstr_str rs = drop (rs_f rs) (rs_str rs)"

section \<open>Paths\<close>

definition json_path_first :: "rangstr \<Rightarrow> rangstr" where
  "json_path_first s =
     (case rs_p s of
        None \<Rightarrow> s
      | Some p \<Rightarrow> s\<lparr>rs_f := 0, rs_t := (case strchr p (CHR ''.'') of Some q \<Rightarrow> length p - length q | None \<Rightarrow> length p)\<rparr>)"

text \<open>The loop that looks for the end of a component: where it stopped, and whether at the end of the path.\<close>

function path_scan :: "string \<Rightarrow> char \<Rightarrow> nat \<Rightarrow> bool \<times> nat" where
  "path_scan p stop t =
     (if char_at p t = stop then (False, t)
      else if char_at p t = NUL then (True, t)
      else if char_at p t = CHR ''['' then (False, t)
      else path_scan p stop (t + 1))"
  by pat_completeness auto
termination
  by (relation "measure (\<lambda>(p, stop, t). length p - t)") (auto simp: char_at_def split: if_splits)

declare path_scan.simps [simp del]

text \<open>The code from the label \<^verbatim>\<open>rep\<close>, first up to the loop.\<close>

definition path_head :: "rangstr \<Rightarrow> string \<Rightarrow> char \<Rightarrow> char \<times> rangstr" where
  "path_head s p stop =
     (let (ty, stop) = (if char_at p (rs_t s) = CHR ''['' then (CHR ''['', CHR '']'') else (NUL, stop));
          t = rs_t s + 1;
          t = (if char_at p t = stop then t + 1 else t)
      in (stop, s\<lparr>rs_type := ty, rs_f := t, rs_t := t\<rparr>))"

lemma path_head_less: "rs_t s < rs_t (snd (path_head s p stop))"
  by (simp add: path_head_def Let_def)

lemma path_head_simps [simp]:
  "rs_f (snd (path_head s p stop)) = rs_t (snd (path_head s p stop))"
  "rs_p (snd (path_head s p stop)) = rs_p s" "rs_next (snd (path_head s p stop)) = rs_next s"
  by (simp_all add: path_head_def Let_def)

function path_rep :: "rangstr \<Rightarrow> string \<Rightarrow> char \<Rightarrow> bool \<times> rangstr" where
  "path_rep s p stop =
     (let h = path_head s p stop; s = snd h; t = rs_t s
      in if char_at p t = NUL then (False, s)
         else case path_scan p (fst h) t of
           (True, t') \<Rightarrow> (True, s\<lparr>rs_t := t', rs_next := False\<rparr>)
         | (False, t') \<Rightarrow>
             if t = t' then path_rep s p (fst h)
             else if char_at p t = CHR 0x22 then (True, s\<lparr>rs_f := t + 1, rs_t := t' - 1\<rparr>)
             else (True, s\<lparr>rs_t := t'\<rparr>))"
  by pat_completeness auto
termination
  by (relation "measure (\<lambda>(s, p, stop). length p - rs_t s)") (auto intro!: diff_less_mono2 dest!: char_at_less intro: less_trans [OF path_head_less] path_head_less)

declare path_rep.simps [simp del]

text \<open>After a quote at the end of the path the code from \<^verbatim>\<open>rep\<close> on starts at the terminator and reads what is behind it.\<close>

definition json_path_next :: "rangstr \<Rightarrow> json_error + bool \<times> rangstr" where
  "json_path_next s =
     (case rs_p s of
        None \<Rightarrow> Inr (False, s)
      | Some p \<Rightarrow>
          if char_at p (rs_t s) = NUL \<or> \<not> rs_next s then Inr (False, s)
          else
            let s = (if char_at p (rs_t s) = CHR 0x22 then s\<lparr>rs_t := rs_t s + 1\<rparr> else s)
            in if rs_t s \<ge> length p then Inl Read_Past_End else Inr (path_rep s p (CHR ''.'')))"

section \<open>Lookup\<close>

definition RESFIXSZ :: nat where
  "RESFIXSZ = 1024"

text \<open>The array that \<^verbatim>\<open>sdb_js0n\<close> wrote to, of which the rest is 0.\<close>

definition js0n_array :: "string \<Rightarrow> ut32 list \<Rightarrow> ut32 list option" where
  "js0n_array s out =
     (let n = (if length s > RESFIXSZ then length s + 1 else RESFIXSZ) in
      if length out \<le> n then Some (out @ replicate (n - length out) 0) else None)"

definition res_at :: "ut32 list \<Rightarrow> nat \<Rightarrow> ut32 option" where
  "res_at res i = (if i < length res then Some (res ! i) else None)"

text \<open>The range of entries \<open>i\<close> and \<open>i + 1\<close>.\<close>

definition news_at :: "string \<Rightarrow> ut32 list \<Rightarrow> nat \<Rightarrow> json_error + rangstr" where
  "news_at s res i =
     (case (res_at res i, res_at res (i + 1)) of (Some a, Some b) \<Rightarrow> Inr (rangstr_news s a b) | _ \<Rightarrow> Inl Read_Past_End)"

text \<open>The loops over the array: over the elements of a JSON array and over the members of an object.\<close>

fun find_element :: "string \<Rightarrow> ut32 list \<Rightarrow> nat \<Rightarrow> nat \<Rightarrow> json_error + rangstr" where
  "find_element s res i n =
     (case res_at res i of
        None \<Rightarrow> Inl Read_Past_End
      | Some a \<Rightarrow>
          if a = 0 then Inr rangstr_null
          else case n of 0 \<Rightarrow> news_at s res i | Suc m \<Rightarrow> find_element s res (i + 2) m)"

function find_member :: "string \<Rightarrow> ut32 list \<Rightarrow> nat \<Rightarrow> rangstr \<Rightarrow> json_error + rangstr" where
  "find_member s res i rs =
     (case res_at res i of
        None \<Rightarrow> Inl Read_Past_End
      | Some a \<Rightarrow>
          if a = 0 then Inr rangstr_null
          else case news_at s res i of
            Inl e \<Rightarrow> Inl e
          | Inr rsn \<Rightarrow> if rangstr_cmp rs rsn = 0 then news_at s res (i + 2) else find_member s res (i + 4) rs)"
  by pat_completeness auto
termination
  by (relation "measure (\<lambda>(s, res, i, rs). length res - i)") (auto simp: res_at_def split: if_splits)

declare find_member.simps [simp del] find_element.simps [simp del]

definition json_find :: "string \<Rightarrow> rangstr \<Rightarrow> json_error + rangstr" where
  "json_find s rs =
     (case sdb_js0n s of
        (ret, out) \<Rightarrow>
          (case js0n_array s out of
             None \<Rightarrow> Inl Write_Past_End
           | Some res \<Rightarrow>
               if ret > 0 then Inr rangstr_null
               else if deref s = CHR ''['' then
                 (let n = rangstr_int rs in if n < 0 then Inr rangstr_null else find_element s res 0 (nat n))
               else find_member s res 0 rs))"

lemma path_scan_ge: "path_scan p stop t = (e, t') \<Longrightarrow> t \<le> t'"
  by (induction p stop t arbitrary: e t' rule: path_scan.induct)
     (subst (asm) (2) path_scan.simps, auto split: if_splits)

lemma path_rep_less: "path_rep s p stop = (True, s') \<Longrightarrow> rs_t s < rs_t s' \<and> rs_p s' = rs_p s"
proof (induction s p stop rule: path_rep.induct)
  case (1 s p stop)
  let ?h = "path_head s p stop"
  obtain e t' where sc: "path_scan p (fst ?h) (rs_t (snd ?h)) = (e, t')" by fastforce
  have t: "rs_t s < rs_t (snd ?h)" "rs_t (snd ?h) \<le> t'" using path_scan_ge [OF sc] path_head_less by simp_all
  have IH: "char_at p (rs_t (snd ?h)) \<noteq> NUL \<Longrightarrow> \<not> e \<Longrightarrow> rs_t (snd ?h) = t' \<Longrightarrow> path_rep (snd ?h) p (fst ?h) = (True, s')
      \<Longrightarrow> rs_t (snd ?h) < rs_t s' \<and> rs_p s' = rs_p (snd ?h)"
    using 1(1) [OF refl refl refl _ sc [symmetric]] by simp
  show ?case using 1(2) sc t IH path_rep.simps [of s p stop] by (auto simp: Let_def split: if_splits bool.splits)
qed

lemma path_rep_p: "rs_p (snd (path_rep s p stop)) = rs_p s"
proof (induction s p stop rule: path_rep.induct)
  case (1 s p stop)
  then show ?case by (subst path_rep.simps) (simp add: Let_def split: prod.splits bool.splits)
qed

lemma json_path_next_p: "json_path_next s = Inr (b, s') \<Longrightarrow> rs_p s' = rs_p s"
  using path_rep_p [of s] path_rep_p [of "s\<lparr>rs_t := rs_t s + 1\<rparr>"]
  by (auto simp: json_path_next_def Let_def split: option.splits if_splits) (metis snd_conv)+

lemma json_path_next_less:
  assumes "json_path_next s = Inr (True, s')"
  shows "rs_t s < rs_t s' \<and> rs_p s' = rs_p s \<and> rs_t s < length (rs_str s)"
proof -
  obtain p where p: "rs_p s = Some p" "char_at p (rs_t s) \<noteq> NUL" using assms by (auto simp: json_path_next_def split: option.splits if_splits)
  let ?s = "if char_at p (rs_t s) = CHR 0x22 then s\<lparr>rs_t := rs_t s + 1\<rparr> else s"
  have "path_rep ?s p (CHR ''.'') = (True, s')" using assms p by (auto simp: json_path_next_def Let_def split: if_splits)
  from path_rep_less [OF this] show ?thesis using char_at_less [OF p(2)] p(1) by (auto split: if_splits)
qed

section \<open>Lookup along a path\<close>

text \<open>
  The inner loop of \<^verbatim>\<open>json_get\<close>: \<open>Inl\<close> when it returns, \<open>Inr\<close> with the ranges when it ends.
\<close>

function get_inner :: "rangstr \<Rightarrow> rangstr \<Rightarrow> json_error + rangstr + rangstr \<times> rangstr" where
  "get_inner rj rs =
     (case json_find (rangstr_str rj) rs of
        Inl e \<Rightarrow> Inl e
      | Inr rj2 \<Rightarrow>
          if rs_p rj2 = None then
            (if char_at (rs_str rj) (rs_t rj) = NUL then Inr (Inl rj2) else Inr (Inr (rj, rs)))
          else
            (case json_path_next rs of
               Inl e \<Rightarrow> Inl e
             | Inr (False, rs) \<Rightarrow> Inr (Inr (rj2, rs))
             | Inr (True, rs) \<Rightarrow> get_inner rj2 rs))"
  by pat_completeness auto
termination
  by (relation "measure (\<lambda>(rj, rs). length (rs_str rs) - rs_t rs)") (auto dest!: json_path_next_less)

declare get_inner.simps [simp del]

lemma get_inner_p: "get_inner rj rs = Inr (Inr (rj', rs')) \<Longrightarrow> rs_p rs' = rs_p rs"
proof (induction rj rs rule: get_inner.induct)
  case (1 rj rs)
  show ?case
  proof (cases "json_path_next rs")
    case (Inl e)
    then show ?thesis using 1(2) by (subst (asm) get_inner.simps) (auto split: sum.splits if_splits)
  next
    case (Inr r)
    obtain b rs1 where r: "r = (b, rs1)" by fastforce
    have p: "rs_p rs1 = rs_p rs" using json_path_next_p Inr r by blast
    show ?thesis using 1(2) 1(1) [OF _ _ Inr, unfolded r] Inr r p
      by (subst (asm) get_inner.simps) (auto split: sum.splits if_splits bool.splits)
  qed
qed

lemma find_loop_bounds: "find_loop p ch i n = x \<Longrightarrow> x \<noteq> - 1 \<Longrightarrow> int i \<le> x \<and> x < int (length p)"
  by (induction p ch i n arbitrary: x rule: find_loop.induct) (fastforce split: if_splits dest: char_at_less)+

text \<open>
  The outer loop of \<^verbatim>\<open>json_get\<close>; \<open>again\<close> is \<^verbatim>\<open>n > 0\<close>.
\<close>

function get_outer :: "bool \<Rightarrow> rangstr \<Rightarrow> rangstr \<Rightarrow> json_error + rangstr" where
  "get_outer again rj rs =
     (let rst = rs_t rs;
          x = rangstr_find (rs\<lparr>rs_f := rs_f rs + 1\<rparr>) (CHR ''['');
          rs = (if x \<noteq> - 1 then rs\<lparr>rs_t := nat x\<rparr> else rs)
      in if rst = rs_t rs \<and> again \<and> rs_p rj \<noteq> None \<or> rs_p rj = None then Inr rj
         else case get_inner rj rs of
           Inl e \<Rightarrow> Inl e
         | Inr (Inl rj) \<Rightarrow> Inr rj
         | Inr (Inr (rj, rs1)) \<Rightarrow>
             if rst = rs_t rs1 \<and> again \<and> rs_p rj \<noteq> None \<or> x = - 1 then Inr rj
             else get_outer True rj (rs1\<lparr>rs_t := rst, rs_f := nat x\<rparr>))"
  by pat_completeness auto

termination
proof (relation "measure (\<lambda>(again, rj, rs). length (rs_str rs) - rs_f rs)", goal_cases)
  case (2 again rj rs rst x rs0 r q rj1 rs1)
  have p: "rs_p rs1 = rs_p rs" using get_inner_p [of rj rs0 rj1 rs1] 2 by (simp split: if_splits)
  have x: "x \<noteq> - 1" using 2 by blast
  have "int (rs_f rs + 1) \<le> x \<and> x < int (length (rs_str rs))"
    using find_loop_bounds [of "rs_str rs" "CHR ''[''" "rs_f rs + 1" "rs_t rs - (rs_f rs + 1)" x] x 2(2) by (simp add: rangstr_find_def)
  then show ?case using p by auto
qed simp

declare get_outer.simps [simp del]

definition json_get :: "string \<Rightarrow> string \<Rightarrow> json_error + rangstr" where
  "json_get js p = get_outer False (rangstr_new js) (json_path_first (rangstr_new p))"

section \<open>Reading and writing members\<close>

definition sdb_json_get_str :: "string \<Rightarrow> string \<Rightarrow> json_error + string option" where
  "sdb_json_get_str json path = map_sum id rangstr_dup (json_get json path)"

definition sdb_json_get_bool :: "string \<Rightarrow> string \<Rightarrow> json_error + bool" where
  "sdb_json_get_bool json path =
     map_sum id (\<lambda>rs. rangstr_length rs = 4 \<and> strneq (drop (rs_f rs) (rs_str rs)) ''true'' 4) (json_get json path)"

definition sdb_json_get :: "sdb \<Rightarrow> string \<Rightarrow> string \<Rightarrow> (json_error + string option) \<times> ut32 \<times> sdb" where
  "sdb_json_get s k p =
     (case sdb_get s k of
        ((None, cas), s) \<Rightarrow> (Inr None, cas, s)
      | ((Some v, cas), s) \<Rightarrow> (map_sum id rangstr_dup (json_get v p), cas, s))"

definition sdb_json_num_get :: "sdb \<Rightarrow> string \<Rightarrow> string \<Rightarrow> (json_error + int) \<times> ut32 \<times> sdb" where
  "sdb_json_num_get s k p =
     (case sdb_get s k of
        ((None, cas), s) \<Rightarrow> (Inr 0, cas, s)
      | ((Some v, cas), s) \<Rightarrow> (map_sum id rangstr_int (json_get v p), cas, s))"

text \<open>
  The loops of \<^verbatim>\<open>findkey\<close>, downwards from an offset: to the quote after the key, then to the one before it.
\<close>

fun quote_before :: "string \<Rightarrow> nat \<Rightarrow> int" where
  "quote_before p 0 = - 1"
| "quote_before p (Suc i) = (if char_at p (Suc i) = CHR 0x22 then int (Suc i) else quote_before p i)"

fun key_before :: "string \<Rightarrow> nat \<Rightarrow> int" where
  "key_before p 0 = - 1"
| "key_before p (Suc i) = (if char_at p (Suc i) = CHR 0x22 then quote_before p i else key_before p i)"

definition findkey :: "string \<Rightarrow> int \<Rightarrow> int" where
  "findkey p f = key_before p (nat f)"

definition isstring :: "string \<Rightarrow> bool" where
  "isstring s \<longleftrightarrow> s \<noteq> ''true'' \<and> s \<noteq> ''false'' \<and> (\<exists>c \<in> set s. (of_char c :: nat) < 48 \<or> (of_char c :: nat) > 57)"

definition quotes :: "string \<Rightarrow> string" where
  "quotes v = (if isstring v then [CHR 0x22] else [])"

text \<open>
  The text with the value in a range replaced, and the text with the member of the range removed; \<open>pre\<close> is what \<^verbatim>\<open>beg[0]\<close> and
  \<^verbatim>\<open>len[0]\<close>, \<open>post\<close> what \<^verbatim>\<open>beg[2]\<close> and \<^verbatim>\<open>len[2]\<close> describe without the terminator.
\<close>

definition json_replace :: "string \<Rightarrow> string \<Rightarrow> string \<Rightarrow> string" where
  "json_replace pre v post =
     (if isstring v then
        let q = (if deref post \<noteq> CHR 0x22 then [CHR 0x22] else []) in pre @ q @ v @ q @ post
      else
        let post = (if deref post = CHR 0x22 then tl post else post);
            post = (if deref post = CHR 0x22 then tl post else post)
        in pre @ v @ post)"

definition json_delete :: "string \<Rightarrow> string \<Rightarrow> nat \<Rightarrow> string \<Rightarrow> string" where
  "json_delete js p f post =
     (let kidx = findkey p (int f - 2);
          len0 = nat (max 1 (kidx - 1));
          post = (if deref post = CHR 0x22 then tl post else post);
          post = (if length post + 1 \<noteq> 2 then tl post else post)
      in take len0 js @ post)"

definition sdb_json_set :: "sdb \<Rightarrow> string \<Rightarrow> string \<Rightarrow> string option \<Rightarrow> ut32 \<Rightarrow> json_error + bool \<times> sdb" where
  "sdb_json_set s k p v cas =
     (case v of
        None \<Rightarrow> Inr (False, s)
      | Some v \<Rightarrow>
          (case sdb_const_get_len s k of
             ((None, _, _), s) \<Rightarrow>
               Inr (True, snd (sdb_set s k (Some ([CHR ''{'', CHR 0x22] @ p @ [CHR 0x22, CHR '':''] @ quotes v @ v @ quotes v @ ''}'')) cas))
           | ((Some js, _, c), s) \<Rightarrow>
               if cas \<noteq> 0 \<and> c \<noteq> cas then Inr (False, s)
               else
                 (case json_get js p of
                    Inl e \<Rightarrow> Inl e
                  | Inr rs \<Rightarrow>
                      (case rs_p rs of
                         None \<Rightarrow>
                           let comma = (if char_at js 0 \<noteq> NUL \<and> char_at js 1 \<noteq> CHR ''}'' then '','' else [])
                           in Inr (True, snd (sdb_set_owned s k
                                (Some ([CHR ''{'', CHR 0x22] @ p @ [CHR 0x22, CHR '':''] @ quotes v @ v @ quotes v @ comma @ drop 1 js)) cas))
                       | Some q \<Rightarrow>
                           let pre = take (length js - length (drop (rs_f rs) q)) js;
                               post = drop (rs_t rs) q;
                               str = (if v \<noteq> [] then json_replace pre v post else json_delete js q (rs_f rs) post)
                           in Inr (True, snd (sdb_set_owned s k (Some str) cas))))))"

definition sdb_json_unset :: "sdb \<Rightarrow> string \<Rightarrow> string \<Rightarrow> ut32 \<Rightarrow> json_error + bool \<times> sdb" where
  "sdb_json_unset s k p cas = sdb_json_set s k p None cas"

text \<open>The number is converted to \<^verbatim>\<open>ut64\<close> for \<^verbatim>\<open>sdb_itoa\<close>.\<close>

definition sdb_json_num_set :: "sdb \<Rightarrow> string \<Rightarrow> string \<Rightarrow> int \<Rightarrow> ut32 \<Rightarrow> json_error + bool \<times> sdb" where
  "sdb_json_num_set s k p v cas = sdb_json_set s k p (Some (itoa64 (word_of_int v) 10)) cas"

definition int32 :: "int \<Rightarrow> int" where
  "int32 n = sint (word_of_int n :: 32 word)"

definition json_num_add :: "sdb \<Rightarrow> string \<Rightarrow> string \<Rightarrow> int \<Rightarrow> ut32 \<Rightarrow> json_error + int \<times> sdb" where
  "json_num_add s k p n cas =
     (case sdb_json_num_get s k p of
        (Inl e, _, _) \<Rightarrow> Inl e
      | (Inr cur, c, s) \<Rightarrow>
          if cas \<noteq> 0 \<and> c \<noteq> cas then Inr (0, s)
          else map_sum id (\<lambda>(_, s). (int32 (cur + n), s)) (sdb_json_num_set s k p (int32 (cur + n)) cas))"

definition sdb_json_num_inc :: "sdb \<Rightarrow> string \<Rightarrow> string \<Rightarrow> int \<Rightarrow> ut32 \<Rightarrow> json_error + int \<times> sdb" where
  "sdb_json_num_inc s k p n cas = json_num_add s k p n cas"

definition sdb_json_num_dec :: "sdb \<Rightarrow> string \<Rightarrow> string \<Rightarrow> int \<Rightarrow> ut32 \<Rightarrow> json_error + int \<times> sdb" where
  "sdb_json_num_dec s k p n cas = json_num_add s k p (- n) cas"

text \<open>The older interface on texts: \<^verbatim>\<open>src/json/api.c\<close>.\<close>

definition api_json_get :: "string \<Rightarrow> string \<Rightarrow> json_error + string option" where
  "api_json_get s p = map_sum id rangstr_dup (json_get s p)"

definition api_json_set :: "string \<Rightarrow> string \<Rightarrow> string \<Rightarrow> json_error + string option" where
  "api_json_set s k v =
     map_sum id (\<lambda>rs. case rs_p rs of
         None \<Rightarrow> None
       | Some q \<Rightarrow> Some (take (length s - length (drop (rs_f rs) q)) s @ v @ drop (rs_t rs) q)) (json_get s k)"

section \<open>Formatting\<close>

text \<open>
  \<^verbatim>\<open>SdbJsonString\<close>: the bytes before the terminator and the size of the block.  The arguments of \<^verbatim>\<open>sdb_json_format\<close>; a double is given by
  the text that \<^verbatim>\<open>%f\<close> makes of it.
\<close>

record SdbJsonString =
  sj_buf :: "string option"
  sj_blen :: nat

datatype json_arg = Arg_Int int | Arg_Double string | Arg_Ut64 ut64 | Arg_Str string

definition sj_text :: "SdbJsonString \<Rightarrow> string" where
  "sj_text s = (case sj_buf s of None \<Rightarrow> [] | Some t \<Rightarrow> t)"

definition JSONSTR_ALLOCATE :: "nat \<Rightarrow> SdbJsonString \<Rightarrow> SdbJsonString" where
  "JSONSTR_ALLOCATE y s =
     (let len = length (sj_text s) in
      if len + y > sj_blen s then s\<lparr>sj_blen := (if len + y > sj_blen s * 2 then len + y else sj_blen s * 2)\<rparr> else s)"

text \<open>Writing characters at the end, and the terminator after them.\<close>

definition sj_put :: "string \<Rightarrow> SdbJsonString \<Rightarrow> json_error + SdbJsonString" where
  "sj_put t s =
     (if length (sj_text s) + length t + 1 > sj_blen s then Inl Write_Past_End else Inr (s\<lparr>sj_buf := Some (sj_text s @ t)\<rparr>))"

definition dec_text :: "int \<Rightarrow> string" where
  "dec_text i = (if i = 0 then ''0'' else if i < 0 then CHR ''-'' # digs 10 (nat (- i)) else digs 10 (nat i))"

definition api_json_seti :: "string \<Rightarrow> string \<Rightarrow> int \<Rightarrow> json_error + string option" where
  "api_json_seti s k a = api_json_set s k (dec_text a)"

definition hex_text :: "ut64 \<Rightarrow> string" where
  "hex_text n = ''0x'' @ (if n = 0 then ''0'' else digs 16 (unat n))"

definition quoted_text :: "string \<Rightarrow> string" where
  "quoted_text x = QUOTE # concat (map (\<lambda>c. if c = QUOTE then [CHR 0x5C, c] else [c]) x) @ [QUOTE]"

text \<open>
  The code of a conversion; without an argument of the type it takes the behaviour is undefined.
\<close>

definition json_conv :: "char \<Rightarrow> json_arg list \<Rightarrow> SdbJsonString \<Rightarrow> json_error + SdbJsonString \<times> json_arg list" where
  "json_conv c args s =
     (if c = CHR ''b'' then
        (case args of Arg_Int i # as \<Rightarrow> map_sum id (\<lambda>s. (s, as)) (sj_put (if i \<noteq> 0 then ''true'' else ''false'') (JSONSTR_ALLOCATE 32 s)) | _ \<Rightarrow> Inl Bad_Argument)
      else if c = CHR ''f'' then
        (case args of Arg_Double t # as \<Rightarrow> map_sum id (\<lambda>s. (s, as)) (sj_put (take 127 t) (JSONSTR_ALLOCATE 32 s)) | _ \<Rightarrow> Inl Bad_Argument)
      else if c = CHR ''l'' then
        (case args of Arg_Ut64 n # as \<Rightarrow> map_sum id (\<lambda>s. (s, as)) (sj_put (hex_text n) (JSONSTR_ALLOCATE 32 s)) | _ \<Rightarrow> Inl Bad_Argument)
      else if c = CHR ''d'' \<or> c = CHR ''i'' then
        (case args of Arg_Int i # as \<Rightarrow> map_sum id (\<lambda>s. (s, as)) (sj_put (dec_text i) (JSONSTR_ALLOCATE 32 s)) | _ \<Rightarrow> Inl Bad_Argument)
      else if c = CHR ''s'' then
        (case args of Arg_Str x # as \<Rightarrow> map_sum id (\<lambda>s. (s, as)) (sj_put (quoted_text x) (JSONSTR_ALLOCATE (length x * 2 + 3) s)) | _ \<Rightarrow> Inl Bad_Argument)
      else map_sum id (\<lambda>s. (s, args)) (sj_put [] s))"

fun format_loop :: "string \<Rightarrow> json_arg list \<Rightarrow> SdbJsonString \<Rightarrow> json_error + SdbJsonString" where
  "format_loop [] args s = Inr s"
| "format_loop (c # cs) args s =
     (if c = CHR ''%'' then
        (case cs of
           [] \<Rightarrow> Inl Read_Past_End
         | d # ds \<Rightarrow> (case json_conv d args s of Inl e \<Rightarrow> Inl e | Inr (s, args) \<Rightarrow> format_loop ds args s))
      else (case sj_put [c] (JSONSTR_ALLOCATE 10 s) of Inl e \<Rightarrow> Inl e | Inr s \<Rightarrow> format_loop cs args s))"

definition sdb_json_format :: "SdbJsonString \<Rightarrow> string \<Rightarrow> json_arg list \<Rightarrow> json_error + SdbJsonString" where
  "sdb_json_format s fmt args =
     (let s = (if sj_buf s = None then s\<lparr>sj_blen := 1024, sj_buf := Some []\<rparr> else s)
      in if fmt = [] then Inr s else format_loop fmt args s)"

section \<open>Indentation\<close>

definition SIZE_MAX :: nat where
  "SIZE_MAX = 18446744073709551615"

text \<open>\<^verbatim>\<open>INT_MAX - x\<close> and the sums of \<^verbatim>\<open>sdb_json_indent\<close> are computed in \<^verbatim>\<open>size_t\<close>.\<close>

definition int_max_minus :: "nat \<Rightarrow> nat" where
  "int_max_minus x = (INT_MAX + (SIZE_MAX + 1) - x mod (SIZE_MAX + 1)) mod (SIZE_MAX + 1)"

definition size_add :: "nat \<Rightarrow> nat \<Rightarrow> nat" where
  "size_add a b = (a + b) mod (SIZE_MAX + 1)"

text \<open>The first loop, for the size of the block; none where it returns.\<close>

fun indent_size :: "string \<Rightarrow> nat \<Rightarrow> bool \<Rightarrow> nat \<Rightarrow> nat \<Rightarrow> nat option" where
  "indent_size [] tab_len instr indent o_size = Some o_size"
| "indent_size (c # cs) tab_len instr indent o_size =
     (if instr then
        let esc = (c \<noteq> CHR 0x22 \<and> c = CHR 0x5C \<and> deref cs = CHR 0x22) in
        if esc \<and> o_size = SIZE_MAX then None
        else
          let o_size = (if esc then o_size + 1 else o_size) in
          if o_size = SIZE_MAX then None
          else indent_size cs tab_len (c \<noteq> CHR 0x22) indent (o_size + 1)
      else
        let instr = (c = CHR 0x22) in
        if o_size > int_max_minus (indent * tab_len + 2) then None
        else if c = CHR ''{'' \<or> c = CHR ''['' then
          indent_size cs tab_len instr (indent + 1) (size_add o_size ((indent + 1) * tab_len + 2))
        else if c = CHR ''}'' \<or> c = CHR '']'' then
          indent_size cs tab_len instr (indent - 1) (size_add o_size ((indent - 1) * tab_len + 2))
        else if c = CHR '','' then indent_size cs tab_len instr indent (size_add o_size (indent * tab_len + 2))
        else if c = CHR '':'' then indent_size cs tab_len instr indent (size_add o_size 2)
        else indent_size cs tab_len instr indent (size_add o_size 1))"

definition doIndent :: "int \<Rightarrow> string \<Rightarrow> string" where
  "doIndent idt tab = concat (replicate (nat idt) tab)"

definition json_space :: "char \<Rightarrow> bool" where
  "json_space c \<longleftrightarrow> c = CHR 0x0A \<or> c = CHR 0x0D \<or> c = CHR 0x09 \<or> c = CHR '' ''"

text \<open>The second loop: what is written, with the last newline.\<close>

fun indent_write :: "string \<Rightarrow> string \<Rightarrow> bool \<Rightarrow> int \<Rightarrow> string" where
  "indent_write [] tab instr indent = [CHR 0x0A]"
| "indent_write (c # cs) tab instr indent =
     (if instr then
        (if c \<noteq> CHR 0x22 \<and> c = CHR 0x5C \<and> deref cs = CHR 0x22 then [c] else []) @ c # indent_write cs tab (c \<noteq> CHR 0x22) indent
      else
        let instr = (c = CHR 0x22) in
        if json_space c then indent_write cs tab instr indent
        else if c = CHR '':'' then c # CHR '' '' # indent_write cs tab instr indent
        else if c = CHR '','' then c # CHR 0x0A # doIndent indent tab @ indent_write cs tab instr indent
        else if c = CHR ''{'' \<or> c = CHR ''['' then
          c # (if indent \<noteq> - 1 then CHR 0x0A else CHR '' '') # doIndent (indent + 1) tab @ indent_write cs tab instr (indent + 1)
        else if c = CHR ''}'' \<or> c = CHR '']'' then
          CHR 0x0A # doIndent (indent - 1) tab @ c # indent_write cs tab instr (indent - 1)
        else c # indent_write cs tab instr indent)"

definition sdb_json_indent :: "string \<Rightarrow> string \<Rightarrow> json_error + string option" where
  "sdb_json_indent s tab =
     (case indent_size s (length tab) False 0 0 of
        None \<Rightarrow> Inr None
      | Some o_size \<Rightarrow>
          let o_size = size_add o_size 2; out = indent_write s tab False 0 in
          if length out + 1 > o_size + 1 then Inl Write_Past_End else Inr (Some out))"

fun unindent_write :: "string \<Rightarrow> bool \<Rightarrow> string" where
  "unindent_write [] instr = []"
| "unindent_write (c # cs) instr =
     (if instr then
        (if c \<noteq> CHR 0x22 \<and> c = CHR 0x5C \<and> deref cs = CHR 0x22 then [c] else []) @ c # unindent_write cs (c \<noteq> CHR 0x22)
      else if json_space c then unindent_write cs (c = CHR 0x22)
      else c # unindent_write cs (c = CHR 0x22))"

definition sdb_json_unindent :: "string \<Rightarrow> json_error + string" where
  "sdb_json_unindent s =
     (let out = unindent_write s False in if length out + 1 > length s + 1 then Inl Write_Past_End else Inr out)"

section \<open>Finding a member\<close>

text \<open>What a range of a value covers: a string without its quotes.\<close>

fun inner :: "json \<Rightarrow> string" where
  "inner (JStr x) = x"
| "inner v = json_text v"

fun quote_len :: "json \<Rightarrow> nat" where
  "quote_len (JStr x) = 1"
| "quote_len v = 0"

definition range_of :: "string \<Rightarrow> nat \<Rightarrow> json \<Rightarrow> rangstr" where
  "range_of s n v =
     \<lparr>rs_type = NUL, rs_next = True, rs_f = n + quote_len v, rs_t = n + quote_len v + length (inner v), rs_p = Some s\<rparr>"

lemma inner_text: "json_text v = replicate (quote_len v) QUOTE @ inner v @ replicate (quote_len v) QUOTE"
  by (cases v) auto

lemma emit_one: "emit 1 cur v = [word_of_int (cur + int (quote_len v)), word_of_int (int (length (inner v)))]"
  by (cases v) (simp_all add: Let_def)

lemma unat_int: "x < 2 ^ 32 \<Longrightarrow> unat (word_of_int (int x) :: ut32) = x"
  by (simp add: unat_of_nat take_bit_nat_eq_self)

lemma news_range:
  assumes "n + length (json_text v) \<le> length s" "length s < 2 ^ 32"
  shows "rangstr_news s (word_of_int (int (n + quote_len v))) (word_of_int (int (length (inner v)))) = range_of s n v"
proof -
  define a b where "a = n + quote_len v" and "b = length (inner v)"
  have l: "a + b < 2 ^ 32" using assms arg_cong [OF inner_text [of v], of length] by (simp add: a_def b_def)
  have "(word_of_int (int a) :: ut32) + word_of_int (int b) = word_of_int (int (a + b))" by (simp add: wi_hom_add)
  then show ?thesis using l unat_int [of a] unat_int [of "a + b"] unfolding rangstr_news_def range_of_def a_def [symmetric] b_def [symmetric] by simp
qed

text \<open>A range whose text is the key \<open>k\<close>.\<close>

definition key_range :: "rangstr \<Rightarrow> string \<Rightarrow> bool" where
  "key_range rs k \<longleftrightarrow> (\<exists>P. rs_p rs = Some P \<and> rs_t rs = rs_f rs + length k \<and> take (length k) (drop (rs_f rs) P) = k)"

lemma cmp_key:
  assumes "key_range rs k" "s = a @ x @ b" "rs_f r = length a" "rs_t r = length a + length x" "rs_p r = Some s"
  shows "rangstr_cmp rs r = 0 \<longleftrightarrow> k = x"
proof -
  obtain P where P: "rs_p rs = Some P" "rs_t rs = rs_f rs + length k" "take (length k) (drop (rs_f rs) P) = k" using assms(1) by (auto simp: key_range_def)
  have l: "int (rs_t rs) - int (rs_f rs) = int (length k)" "int (rs_t r) - int (rs_f r) = int (length x)"
    "\<not> int (length s - length a) < int (length x)" using P(2) assms(2-4) by simp_all
  have x: "length x = length k \<Longrightarrow> take (length k) (drop (length a) s) = x" by (simp add: assms(2))
  show ?thesis
  proof (cases "length k = length x")
    case True
    then show ?thesis using P l x assms(3,5) by (simp add: rangstr_cmp_def strcmp_eq_0)
  next
    case False
    then show ?thesis using P l assms(3,5) by (auto simp: rangstr_cmp_def)
  qed
qed

fun set_member :: "string \<Rightarrow> json \<Rightarrow> (string \<times> json) list \<Rightarrow> (string \<times> json) list" where
  "set_member k w [] = []"
| "set_member k w ((k', v) # ms) = (if k' = k then (k', w) # ms else (k', v) # set_member k w ms)"

lemma members_Cons: "members_text ((k, v) # ms) = key_text k @ json_text v @ siblings_text ms"
  by (simp add: siblings_text_def joinc_Cons)

lemma set_member_Nil [simp]: "set_member k w ms = [] \<longleftrightarrow> ms = []"
  by (cases "(k, w, ms)" rule: set_member.cases) auto

lemma find_member_ok:
  assumes "key_range rs k" "map_of ms k = Some v" "json_wf (JObj ms)" "s = pre @ members_text ms @ post" "length s < 2 ^ 32" "pre \<noteq> []"
    "res = rpre @ emit_members 1 (int (length pre)) ms @ rpost"
  shows "\<exists>a ms2. members_text ms = a @ json_text v @ siblings_text ms2 \<and> json_wf (JObj ms2)
     \<and> (\<forall>w. members_text (set_member k w ms) = a @ json_text w @ siblings_text ms2)
     \<and> find_member s res (length rpre) rs = Inr (range_of s (length pre + length a) v)"
  using assms
proof (induction ms arbitrary: pre rpre)
  case (Cons m ms)
  obtain k1 v1 where m: "m = (k1, v1)" by fastforce
  let ?c = "length pre + length k1 + 3"
  have res: "res = rpre @ [word_of_int (int (length pre + 1)), word_of_int (int (length k1)), word_of_int (int (?c + quote_len v1)), word_of_int (int (length (inner v1)))]
      @ emit_members 1 (int (?c + length (json_text v1) + 1)) ms @ rpost"
    using Cons.prems(7) by (simp add: m emit_one algebra_simps)
  have s: "s = pre @ key_text k1 @ json_text v1 @ siblings_text ms @ post" using Cons.prems(4) by (simp only: m members_Cons) simp
  have len: "length pre + 3 + length k1 + length (json_text v1) \<le> length s" using s by simp
  have at: "res_at res (length rpre) = Some (word_of_int (int (length pre + 1)))" "res_at res (length rpre + 1) = Some (word_of_int (int (length k1)))"
    "res_at res (length rpre + 2) = Some (word_of_int (int (?c + quote_len v1)))" "res_at res (length rpre + 3) = Some (word_of_int (int (length (inner v1))))"
    unfolding res_at_def res by (simp_all add: nth_append)
  have nz: "(word_of_int (int (length pre + 1)) :: ut32) \<noteq> 0"
  proof -
    have "unat (word_of_int (int (length pre + 1)) :: ut32) = length pre + 1"
      using len Cons.prems(5) by (intro unat_int) simp
    then show ?thesis by (metis Suc_eq_plus1 Zero_not_Suc unat_0)
  qed
  let ?r = "range_of s (length pre) (JStr k1)"
  have kr: "news_at s res (length rpre) = Inr ?r"
    using at(1,2) news_range [of "length pre" "JStr k1" s] len Cons.prems(5) by (simp add: news_at_def)
  have eq: "rangstr_cmp rs ?r = 0 \<longleftrightarrow> k = k1"
    by (rule cmp_key [OF Cons.prems(1), of s "pre @ [QUOTE]" k1 "[QUOTE, CHR '':''] @ json_text v1 @ siblings_text ms @ post"])
       (simp_all add: s key_text_def range_of_def)
  show ?case
  proof (cases "k = k1")
    case True
    then have v: "v1 = v" using Cons.prems(2) m by simp
    have "res_at res (length rpre + 2 + 1) = Some (word_of_int (int (length (inner v1))))" using at(4) by (simp add: numeral_3_eq_3)
    then have "news_at s res (length rpre + 2) = Inr (rangstr_news s (word_of_int (int (?c + quote_len v1))) (word_of_int (int (length (inner v1)))))"
      using at(3) by (simp only: news_at_def prod.case option.case)
    also have "\<dots> = Inr (range_of s ?c v)" using news_range [of ?c v1 s] len Cons.prems(5) v by (simp only: sum.inject)
    finally have "find_member s res (length rpre) rs = Inr (range_of s ?c v)"
      using at(1) nz kr eq True by (subst find_member.simps) (simp only: option.case if_False sum.case if_True refl)
    then show ?thesis using True v m Cons.prems(3)
      by (intro exI [of _ "key_text k1"] exI [of _ ms]) (auto simp: members_Cons add.assoc simp del: map_eq_Cons_conv list.map)
  next
    case False
    then have mp: "map_of ms k = Some v" using Cons.prems(2) m by simp
    then have ne: "ms \<noteq> []" by auto
    let ?pre = "pre @ key_text k1 @ json_text v1 @ '',''"
    let ?rpre = "rpre @ [word_of_int (int (length pre + 1)), word_of_int (int (length k1)), word_of_int (int (?c + quote_len v1)), word_of_int (int (length (inner v1)))]"
    have "\<exists>a ms2. members_text ms = a @ json_text v @ siblings_text ms2 \<and> json_wf (JObj ms2)
       \<and> (\<forall>w. members_text (set_member k w ms) = a @ json_text w @ siblings_text ms2)
       \<and> find_member s res (length ?rpre) rs = Inr (range_of s (length ?pre + length a) v)"
      by (rule Cons.IH [OF Cons.prems(1) mp]) (use Cons.prems(3,5) s res ne in \<open>simp_all add: siblings_text_def algebra_simps\<close>)
    then obtain a ms2 where a: "members_text ms = a @ json_text v @ siblings_text ms2" "json_wf (JObj ms2)"
      "\<forall>w. members_text (set_member k w ms) = a @ json_text w @ siblings_text ms2"
      "find_member s res (length ?rpre) rs = Inr (range_of s (length ?pre + length a) v)" by blast
    have "length ?rpre = length rpre + 4" by simp
    then have "find_member s res (length rpre) rs = find_member s res (length ?rpre) rs"
      using at nz kr eq False by (subst find_member.simps) (simp only: option.case if_False sum.case)
    then show ?thesis using a ne False m
      by (intro exI [of _ "key_text k1 @ json_text v1 @ '','' @ a"] exI [of _ ms2]) (simp add: joinc_Cons algebra_simps)
  qed
qed simp

lemma array_ok: "length (snd (sdb_js0n s)) \<le> length s \<Longrightarrow> \<exists>zs. js0n_array s (snd (sdb_js0n s)) = Some (snd (sdb_js0n s) @ zs)"
  by (auto simp: js0n_array_def Let_def RESFIXSZ_def)

text \<open>Looking up a key in the text of an object, whatever follows it.\<close>

lemma json_find_ok:
  assumes "key_range rs k" "map_of ms k = Some v" "json_wf (JObj ms)" "rest_ok post" "length (json_text (JObj ms) @ post) < 2 ^ 32"
  shows "\<exists>a ms2. members_text ms = a @ json_text v @ siblings_text ms2 \<and> json_wf (JObj ms2)
     \<and> (\<forall>w. members_text (set_member k w ms) = a @ json_text w @ siblings_text ms2)
     \<and> json_find (json_text (JObj ms) @ post) rs = Inr (range_of (json_text (JObj ms) @ post) (1 + length a) v)"
proof -
  let ?s = "json_text (JObj ms) @ post"
  let ?j = "writes js0n_init (emit_members 1 1 ms)"
  have j: "js0n_loop 0 ?s (Gostruct, js0n_init) = js0n_loop (int (length (json_text (JObj ms)))) post (Gostruct, ?j)"
    using js0n_loop_run [OF run_object [OF assms(3), of js0n_init 0], of post] by (simp add: js0n_init_def)
  have ret: "fst (sdb_js0n ?s) \<le> 0" using assms(4) j by (simp add: sdb_js0n_def rest_ok_def js0n_init_def del: json_text.simps)
  obtain ws where out: "snd (sdb_js0n ?s) = emit_members 1 1 ms @ ws"
    using loop_out [of "int (length (json_text (JObj ms)))" post "(Gostruct, ?j)"] j by (auto simp: sdb_js0n_def js0n_init_def simp del: json_text.simps)
  obtain zs where zs: "js0n_array ?s (snd (sdb_js0n ?s)) = Some (emit_members 1 1 ms @ ws @ zs)"
    using array_ok [OF js0n_out_length, of ?s] out by auto
  have s: "?s = ''{'' @ members_text ms @ ''}'' @ post" by simp
  have "json_find ?s rs = find_member ?s (emit_members 1 1 ms @ ws @ zs) 0 rs"
    using ret zs by (simp add: json_find_def deref_def case_prod_beta)
  with find_member_ok [OF assms(1-3) s assms(5), of "emit_members 1 1 ms @ ws @ zs" "[]" "ws @ zs"] show ?thesis by simp
qed

section \<open>Looking up a path\<close>

text \<open>Names that stand for themselves in a path.\<close>

definition path_key :: "string \<Rightarrow> bool" where
  "path_key k \<longleftrightarrow> k \<noteq> [] \<and> CHR ''.'' \<notin> set k \<and> CHR ''['' \<notin> set k \<and> QUOTE \<notin> set k \<and> nonul k"

definition path_tail :: "string list \<Rightarrow> string" where
  "path_tail ks = (if ks = [] then [] else CHR ''.'' # joinc (CHR ''.'') ks)"

definition at_key :: "rangstr \<Rightarrow> string \<Rightarrow> string list \<Rightarrow> bool" where
  "at_key rs k ks \<longleftrightarrow> (\<exists>pp. rs_p rs = Some (pp @ k @ path_tail ks) \<and> rs_f rs = length pp \<and> rs_t rs = length pp + length k \<and> (ks \<noteq> [] \<longrightarrow> rs_next rs))"

lemma path_tail_Cons: "path_tail (k # ks) = CHR ''.'' # k @ path_tail ks"
  by (cases ks) (auto simp: path_tail_def)

lemma char_at_mid: "char_at (a @ x @ b) (length a + i) = (if i < length x then x ! i else char_at b (i - length x))"
  by (auto simp: char_at_def nth_append)

lemma path_scan_key:
  assumes "P = a @ k @ path_tail ks" "CHR ''.'' \<notin> set k" "CHR ''['' \<notin> set k" "nonul k"
  shows "path_scan P (CHR ''.'') (length a) = (ks = [], length a + length k)"
  using assms
proof (induction k arbitrary: a)
  case Nil
  then have "char_at P (length a) = (if ks = [] then NUL else CHR ''.'')"
    using char_at_mid [of a "[]" "path_tail ks" 0] by (simp add: char_at_def path_tail_def)
  then show ?case by (subst path_scan.simps) simp
next
  case (Cons c k)
  have c: "char_at P (length a) = c" using char_at_mid [of a "c # k" "path_tail ks" 0] Cons.prems(1) by simp
  then have "path_scan P (CHR ''.'') (length a) = path_scan P (CHR ''.'') (length (a @ [c]))"
    using Cons.prems by (subst path_scan.simps) (auto simp: nonul_def)
  then show ?case using Cons.IH [of "a @ [c]"] Cons.prems by (simp add: nonul_def)
qed

lemma path_next_key:
  assumes "at_key rs k (k2 # ks)" "path_key k2"
  shows "\<exists>rs'. json_path_next rs = Inr (True, rs') \<and> at_key rs' k2 ks"
proof -
  obtain pp where pp: "rs_p rs = Some (pp @ k @ path_tail (k2 # ks))" "rs_f rs = length pp" "rs_t rs = length pp + length k" "rs_next rs"
    using assms(1) by (auto simp: at_key_def)
  define P where "P = pp @ k @ path_tail (k2 # ks)"
  let ?t = "length (pp @ k @ ''.'')"
  have c: "char_at P (rs_t rs) = CHR ''.''" using char_at_mid [of "pp @ k" "path_tail (k2 # ks)" "[]" 0] pp(3) by (simp add: P_def path_tail_Cons)
  have hd: "char_at P ?t = hd k2" using char_at_mid [of "pp @ k @ ''.''" k2 "path_tail ks" 0] assms(2)
    by (simp add: P_def path_tail_Cons path_key_def hd_conv_nth)
  have k2: "hd k2 \<noteq> CHR ''.''" "hd k2 \<noteq> QUOTE" "hd k2 \<noteq> NUL" using assms(2) hd_in_set [of k2] unfolding path_key_def nonul_def by metis+
  have t: "?t = rs_t rs + 1" using pp(3) by simp
  have h: "path_head rs P (CHR ''.'') = (CHR ''.'', rs\<lparr>rs_type := NUL, rs_f := ?t, rs_t := ?t\<rparr>)"
    using c hd k2(1) t by (simp add: path_head_def Let_def)
  have sc: "path_scan P (CHR ''.'') ?t = (ks = [], ?t + length k2)"
    by (rule path_scan_key [where a = "pp @ k @ ''.''" and k = k2 and ks = ks]) (use assms(2) in \<open>auto simp: P_def path_tail_Cons path_key_def\<close>)
  let ?b = "rs\<lparr>rs_type := NUL, rs_f := ?t, rs_t := ?t + length k2\<rparr>"
  let ?r = "if ks = [] then ?b\<lparr>rs_next := False\<rparr> else ?b"
  have "path_rep rs P (CHR ''.'') = (True, ?r)"
    using hd k2 sc assms(2) pp(4) by (subst path_rep.simps, cases "ks = []") (auto simp: h path_key_def Let_def)
  then have "json_path_next rs = Inr (True, ?r)" using pp(1,4) c char_at_less [of P "rs_t rs"] by (simp add: json_path_next_def P_def)
  moreover have "at_key ?r k2 ks" using pp(1,4) unfolding at_key_def by (intro exI [of _ "pp @ k @ ''.''"]) (auto simp: path_tail_Cons)
  ultimately show ?thesis by blast
qed

lemma path_next_end: "at_key rs k [] \<Longrightarrow> json_path_next rs = Inr (False, rs)"
  by (auto simp: at_key_def json_path_next_def char_at_def path_tail_def)

lemma at_key_range: "at_key rs k ks \<Longrightarrow> key_range rs k"
  by (auto simp: at_key_def key_range_def)

lemma path_first_key:
  assumes "path_key k"
  shows "at_key (json_path_first (rangstr_new (k @ path_tail ks))) k ks"
proof (cases ks)
  case Nil
  then show ?thesis using assms by (simp add: json_path_first_def rangstr_new_def at_key_def path_tail_def path_key_def strchr_None [THEN iffD2])
next
  case (Cons k2 ks2)
  have "strchr (k @ path_tail ks) (CHR ''.'') = Some (path_tail ks)"
    using assms strchr_append_sep [of "CHR ''.''" k] Cons by (simp add: path_tail_Cons path_key_def)
  then show ?thesis by (simp add: json_path_first_def rangstr_new_def at_key_def)
qed

fun jlookup :: "json \<Rightarrow> string list \<Rightarrow> json option" where
  "jlookup v [] = Some v"
| "jlookup (JObj ms) (k # ks) = (case map_of ms k of None \<Rightarrow> None | Some v \<Rightarrow> jlookup v ks)"
| "jlookup v (k # ks) = None"

fun jset :: "json \<Rightarrow> string list \<Rightarrow> json \<Rightarrow> json" where
  "jset v [] w = w"
| "jset (JObj ms) (k # ks) w = (case map_of ms k of None \<Rightarrow> JObj ms | Some v \<Rightarrow> JObj (set_member k (jset v ks w) ms))"
| "jset v (k # ks) w = v"

text \<open>The range of the value at a path inside a text, and the text around it, which does not depend on the value.\<close>

definition located :: "string \<Rightarrow> json \<Rightarrow> string list \<Rightarrow> json \<Rightarrow> rangstr \<Rightarrow> bool" where
  "located S v path w r \<longleftrightarrow>
     (\<exists>pre post m n. json_text v = pre @ json_text w @ post \<and> (\<forall>x. json_text (jset v path x) = pre @ json_text x @ post)
        \<and> post \<noteq> [] \<and> (hd post = CHR '','' \<or> hd post = CHR ''}'') \<and> r = range_of (drop m S) n w \<and> m + n = length pre)"

lemma map_of_wf: "json_wf (JObj ms) \<Longrightarrow> map_of ms k = Some v \<Longrightarrow> json_wf v"
  by (fastforce dest: map_of_SomeD)

lemma jlookup_Cons: "jlookup v (k # ks) = Some w \<Longrightarrow> \<exists>ms v1. v = JObj ms \<and> map_of ms k = Some v1 \<and> jlookup v1 ks = Some w"
  by (cases v) (auto split: option.splits)

lemma get_inner_ok:
  assumes "at_key rs k ks" "\<forall>x \<in> set ks. path_key x" "json_wf v" "rangstr_str rj = json_text v @ post" "rest_ok post"
    "length (json_text v @ post) < 2 ^ 32" "jlookup v (k # ks) = Some w"
  shows "\<exists>r rs'. get_inner rj rs = Inr (Inr (r, rs')) \<and> located (json_text v @ post) v (k # ks) w r"
  using assms
proof (induction ks arbitrary: rs k v rj post)
  case Nil
  obtain ms where ms: "v = JObj ms" "map_of ms k = Some w" using jlookup_Cons [OF Nil(7)] by auto
  obtain a ms2 where a: "members_text ms = a @ json_text w @ siblings_text ms2"
     "\<forall>w'. members_text (set_member k w' ms) = a @ json_text w' @ siblings_text ms2"
     "json_find (json_text v @ post) rs = Inr (range_of (json_text v @ post) (1 + length a) w)"
    using json_find_ok [OF at_key_range [OF Nil(1)] ms(2)] Nil(3,5,6) ms(1) by metis
  have "get_inner rj rs = Inr (Inr (range_of (json_text v @ post) (1 + length a) w, rs))"
    using a(3) Nil(4) path_next_end [OF Nil(1)] by (subst get_inner.simps) (simp add: range_of_def)
  moreover have "located (json_text v @ post) v [k] w (range_of (json_text v @ post) (1 + length a) w)"
    unfolding located_def using a(1,2) ms
    by (intro exI [of _ "CHR ''{'' # a"] exI [of _ "siblings_text ms2 @ ''}''"] exI [of _ 0] exI [of _ "1 + length a"])
       (simp add: siblings_text_def)
  ultimately show ?case by blast
next
  case (Cons k2 ks)
  obtain ms v1 where ms: "v = JObj ms" "map_of ms k = Some v1" "jlookup v1 (k2 # ks) = Some w" using jlookup_Cons [OF Cons(8)] by auto
  obtain ms1 where v1: "v1 = JObj ms1" using jlookup_Cons [OF ms(3)] by auto
  obtain a ms2 where a: "members_text ms = a @ json_text v1 @ siblings_text ms2" "json_wf (JObj ms2)"
     "\<forall>w'. members_text (set_member k w' ms) = a @ json_text w' @ siblings_text ms2"
     "json_find (json_text v @ post) rs = Inr (range_of (json_text v @ post) (1 + length a) v1)"
    using json_find_ok [OF at_key_range [OF Cons(2)] ms(2)] Cons(4,6,7) ms(1) by metis
  let ?S = "json_text v @ post" and ?post = "siblings_text ms2 @ CHR ''}'' # post"
  let ?rj = "range_of ?S (1 + length a) v1"
  have S: "?S = (CHR ''{'' # a) @ json_text v1 @ ?post" using ms(1) a(1) by simp
  have str: "rangstr_str ?rj = json_text v1 @ ?post" unfolding rangstr_str_def range_of_def v1 by (simp only: S v1) simp
  have S1: "drop (1 + length a) ?S = json_text v1 @ ?post" unfolding S by simp
  obtain rs2 where rs2: "json_path_next rs = Inr (True, rs2)" "at_key rs2 k2 ks" using path_next_key [OF Cons(2)] Cons(3) by auto
  have "\<exists>r rs'. get_inner ?rj rs2 = Inr (Inr (r, rs')) \<and> located (json_text v1 @ ?post) v1 (k2 # ks) w r"
    by (rule Cons.IH [OF rs2(2) _ _ str]) (use Cons(3,4,6,7) ms map_of_wf a(2) rest_ok_siblings S in \<open>auto simp del: json_text.simps\<close>)
  then obtain r rs' where r: "get_inner ?rj rs2 = Inr (Inr (r, rs'))" "located (json_text v1 @ ?post) v1 (k2 # ks) w r" by blast
  then obtain pre post2 m n where l: "json_text v1 = pre @ json_text w @ post2" "\<forall>x. json_text (jset v1 (k2 # ks) x) = pre @ json_text x @ post2"
    "r = range_of (drop m (json_text v1 @ ?post)) n w" "m + n = length pre" "post2 \<noteq> [] \<and> (hd post2 = CHR '','' \<or> hd post2 = CHR ''}'')"
    unfolding located_def by blast
  have "get_inner rj rs = Inr (Inr (r, rs'))"
    using a(4) Cons(5) rs2(1) r(1) by (subst get_inner.simps) (simp add: range_of_def)
  moreover have "located ?S v (k # k2 # ks) w r"
    unfolding located_def
  proof (intro exI conjI allI)
    show "json_text v = (CHR ''{'' # a @ pre) @ json_text w @ (post2 @ siblings_text ms2 @ ''}'')" using ms(1) a(1) l(1) by simp
    show "json_text (jset v (k # k2 # ks) x) = (CHR ''{'' # a @ pre) @ json_text x @ (post2 @ siblings_text ms2 @ ''}'')" for x
      using ms(1,2) a(3) l(2) by (simp del: jset.simps(3)) 
    show "r = range_of (drop (m + (1 + length a)) ?S) n w" using l(3) S1 drop_drop [of m "1 + length a" ?S] by metis
    show "post2 @ siblings_text ms2 @ ''}'' \<noteq> []" "hd (post2 @ siblings_text ms2 @ ''}'') = CHR '','' \<or> hd (post2 @ siblings_text ms2 @ ''}'') = CHR ''}''"
      using l(5) by auto
    show "m + (1 + length a) + n = length (CHR ''{'' # a @ pre)" using l(4) by simp
  qed
  ultimately show ?case by blast
qed

lemma find_loop_none: "(\<And>j. i \<le> j \<Longrightarrow> j < i + n \<Longrightarrow> char_at p j \<noteq> ch) \<Longrightarrow> find_loop p ch i n = - 1"
  by (induction n arbitrary: i) auto

lemma joinc_path: "joinc (CHR ''.'') (k # ks) = k @ path_tail ks"
  by (cases ks) (auto simp: path_tail_def)

lemma json_get_located:
  assumes "json_wf v" "path \<noteq> []" "\<forall>k \<in> set path. path_key k" "jlookup v path = Some w" "length (json_text v) < 2 ^ 32"
  shows "\<exists>r. json_get (json_text v) (joinc (CHR ''.'') path) = Inr r \<and> located (json_text v) v path w r"
proof -
  obtain k ks where p: "path = k # ks" using assms(2) by (cases path) auto
  let ?rs = "json_path_first (rangstr_new (k @ path_tail ks))"
  have k: "path_key k" "\<forall>x \<in> set ks. path_key x" using assms(3) p by auto
  have at: "at_key ?rs k ks" by (rule path_first_key [OF k(1)])
  have f: "rs_f ?rs = 0" "rs_p ?rs = Some (k @ path_tail ks)" by (auto simp: json_path_first_def rangstr_new_def split: option.splits)
  then have t: "rs_t ?rs = length k" using at by (auto simp: at_key_def)
  have "char_at (k @ path_tail ks) j \<noteq> CHR ''[''" if "j < length k" for j
    using that k(1) nth_mem [OF that] by (metis char_at_mid [of "[]" k "path_tail ks" j] append_Nil add_0 list.size(3) path_key_def)
  then have x: "rangstr_find (?rs\<lparr>rs_f := rs_f ?rs + 1\<rparr>) (CHR ''['') = - 1"
    using f t by (auto simp: rangstr_find_def intro!: find_loop_none)
  obtain r rs' where r: "get_inner (rangstr_new (json_text v)) ?rs = Inr (Inr (r, rs'))" "located (json_text v) v path w r"
    using get_inner_ok [OF at k(2) assms(1), of "rangstr_new (json_text v)" "[]" w] assms(4,5) p by (auto simp: rangstr_str_def rangstr_new_def)
  have "json_get (json_text v) (joinc (CHR ''.'') path) = Inr r"
    unfolding json_get_def p joinc_path using x r(1) by (subst get_outer.simps) (simp add: rangstr_new_def)
  then show ?thesis using r(2) by blast
qed

lemma dup_located:
  assumes "located (json_text v) v path w r"
  shows "rangstr_dup r = Some (inner w)"
proof -
  obtain pre post m n where l: "json_text v = pre @ json_text w @ post" "r = range_of (drop m (json_text v)) n w" "m + n = length pre"
    using assms unfolding located_def by blast
  have "drop (n + quote_len w) (drop m (json_text v)) = drop (quote_len w) (json_text w @ post)"
  proof -
    have "drop (n + quote_len w) (drop m (json_text v)) = drop (quote_len w) (drop (length pre) (json_text v))"
      by (simp only: drop_drop l(3) [symmetric] ac_simps)
    then show ?thesis by (simp add: l(1))
  qed
  also have "\<dots> = inner w @ replicate (quote_len w) QUOTE @ post" by (subst inner_text) simp
  finally show ?thesis using l(2) by (simp add: rangstr_dup_def range_of_def rangstr_length_def)
qed

text \<open>
  C23.  Reading a member along a path of names gives its value, the contents of a string without the quotes.  The text is that of an object
  of any nesting, with strings of printable characters and escapes; the names of the path are not empty and have no dot, bracket or quote.
\<close>

theorem json_get_member:
  assumes "json_wf v" "path \<noteq> []" "\<forall>k \<in> set path. path_key k" "jlookup v path = Some w" "length (json_text v) < 2 ^ 31"
  shows "sdb_json_get_str (json_text v) (joinc (CHR ''.'') path) = Inr (Some (inner w))"
proof -
  obtain r where "json_get (json_text v) (joinc (CHR ''.'') path) = Inr r" "located (json_text v) v path w r"
    using json_get_located [OF assms(1-4)] assms(5) by auto
  then show ?thesis using dup_located by (simp add: sdb_json_get_str_def)
qed

definition json_example :: json where
  "json_example = JObj [(''x'', JArr [JBare ''1'', JStr ''y'']), (''a'', JObj [(''b'', JStr ''hi''), (''c'', JBare ''true'')])]"

theorem json_get_member_witness: "sdb_json_get_str (json_text json_example) ''a.b'' = Inr (Some ''hi'')"
  using json_get_member [of json_example "[''a'', ''b'']" "JStr ''hi''"]
  by (simp add: json_example_def bare_ok_def gostruct_def gobare_def path_key_def nonul_def key_text_def)

section \<open>Writing a member and reading it back\<close>

lemma jset_lookup: "jlookup v path = Some w \<Longrightarrow> jlookup (jset v path x) path = Some x"
proof (induction v path rule: jlookup.induct)
  case (2 ms k ks)
  have "map_of (set_member k y ms) k = Some y" if "map_of ms k \<noteq> None" for y
    using that by (induction k y ms rule: set_member.induct) auto
  then show ?case using 2 by (auto split: option.splits)
qed auto

lemma set_member_set: "m \<in> set (set_member k y ms) \<Longrightarrow> m \<in> set ms \<or> snd m = y \<and> (\<exists>v. (fst m, v) \<in> set ms)"
  by (induction k y ms rule: set_member.induct) (auto split: if_splits)

lemma jset_wf: "json_wf v \<Longrightarrow> json_wf x \<Longrightarrow> json_wf (jset v path x)"
proof (induction v path x rule: jset.induct)
  case (2 ms k ks w)
  show ?case
  proof (cases "map_of ms k")
    case None
    then show ?thesis using 2(2) by simp
  next
    case (Some v)
    have "json_wf (jset v ks w)" using 2(1) [OF Some map_of_wf [OF 2(2) Some] 2(3)] .
    then show ?thesis using Some 2(2) by (auto dest!: set_member_set)
  qed
qed auto

definition value_of :: "string \<Rightarrow> json" where
  "value_of x = (if isstring x then JStr x else JBare x)"

lemma value_of_wf:
  assumes "x \<noteq> []" "isstring x \<Longrightarrow> jstr_ok x"
  shows "json_wf (value_of x)"
proof (cases "isstring x")
  case False
  have d: "gostruct c = L_bare" "gobare c = L_loop" if "48 \<le> (of_char c :: nat)" "(of_char c :: nat) \<le> 57" for c :: char
  proof -
    have "c \<noteq> x" if "(of_char x :: nat) < 48 \<or> 57 < (of_char x :: nat)" for x using \<open>48 \<le> (of_char c :: nat)\<close> \<open>(of_char c :: nat) \<le> 57\<close> that by auto
    then show "gostruct c = L_bare" "gobare c = L_loop" using that by (simp_all add: gostruct_def gobare_def)
  qed
  show ?thesis
  proof (cases "x = ''true'' \<or> x = ''false''")
    case True
    have b: "bare_ok ''true''" "bare_ok ''false''" by (simp_all add: bare_ok_def gostruct_def gobare_def)
    from True have "bare_ok x" by (rule disjE) (simp_all only: b)
    then show ?thesis using False by (simp only: value_of_def if_False json_wf.simps)
  next
    case no: False
    then have "\<forall>c \<in> set x. 48 \<le> (of_char c :: nat) \<and> (of_char c :: nat) \<le> 57" using False by (auto simp: isstring_def)
    then show ?thesis using False d assms(1) by (cases x) (auto simp: value_of_def bare_ok_def)
  qed
qed (use assms in \<open>simp add: value_of_def\<close>)

lemma replace_located:
  assumes "located (json_text v) v path w r" "isstring x \<or> quote_len w = 0"
  shows "json_replace (take (length (json_text v) - length (drop (rs_f r) (rs_str r))) (json_text v)) x (drop (rs_t r) (rs_str r))
    = json_text (jset v path (value_of x))"
proof -
  obtain pre post m n where l: "json_text v = pre @ json_text w @ post" "json_text (jset v path (value_of x)) = pre @ json_text (value_of x) @ post"
    "post \<noteq> []" "hd post = CHR '','' \<or> hd post = CHR ''}''" "r = range_of (drop m (json_text v)) n w" "m + n = length pre"
    using assms(1) unfolding located_def by blast
  let ?q = "replicate (quote_len w) QUOTE"
  have T: "json_text v = (pre @ ?q @ inner w) @ ?q @ post" "json_text v = (pre @ ?q) @ inner w @ ?q @ post" using l(1) inner_text [of w] by simp_all
  have "drop (rs_t r) (rs_str r) = drop (length (pre @ ?q @ inner w)) (json_text v)" using l(5)
    by (simp add: range_of_def l(6) [symmetric] ac_simps)
  also have "\<dots> = ?q @ post" using T(1) by (metis append_eq_conv_conj)
  finally have post: "drop (rs_t r) (rs_str r) = ?q @ post" .
  have "length (drop (rs_f r) (rs_str r)) = length (json_text v) - length (pre @ ?q)" using l(5,6) by (simp add: range_of_def)
  moreover have "length (pre @ ?q) \<le> length (json_text v)" by (subst T(2)) simp
  ultimately have pre: "take (length (json_text v) - length (drop (rs_f r) (rs_str r))) (json_text v) = pre @ ?q"
    using T(2) by (metis append_eq_conv_conj diff_diff_cancel)
  have d: "deref (?q @ post) = QUOTE \<longleftrightarrow> quote_len w = 1" using l(3,4) by (cases w; cases post) (auto simp: deref_def)
  have d2: "deref post \<noteq> QUOTE" using l(3,4) by (cases post) (auto simp: deref_def)
  show ?thesis unfolding pre post l(2) using assms(2) d d2 by (cases w) (auto simp: json_replace_def value_of_def)
qed

text \<open>
  C24.  Writing a member that exists and reading it back.  In a database in memory whose value at a key is the text of an object,
  \<^verbatim>\<open>sdb_json_set\<close> with a path of names to a member succeeds, the new value is the text of the object with this member replaced
  and nothing else changed, and \<^verbatim>\<open>sdb_json_get\<close> gives what was written.  The value written is a string, or the
  member is not one: a number or a boolean that is written over a string leaves half of its quotes (\<open>json_replace_string\<close>).
\<close>

theorem json_set_get:
  assumes "mem_ready s k" "mem_view s k = Some (json_text v)" "json_wf v" "path \<noteq> []" "\<forall>x \<in> set path. path_key x" "jlookup v path = Some w"
    "x \<noteq> []" "isstring x \<longrightarrow> jstr_ok x" "isstring x \<or> (\<forall>y. w \<noteq> JStr y)" "length (json_text (jset v path (value_of x))) < SDB_VSZ"
  shows "\<exists>s'. sdb_json_set s k (joinc (CHR ''.'') path) (Some x) 0 = Inr (True, s')
     \<and> mem_view s' = (mem_view s)(k \<mapsto> json_text (jset v path (value_of x)))
     \<and> fst (sdb_json_get s' k (joinc (CHR ''.'') path)) = Inr (Some x)"
proof -
  let ?p = "joinc (CHR ''.'') path" and ?v = "jset v path (value_of x)"
  have inv: "mem_inv s" using mem_readyD [OF assms(1)] .
  have l: "length (json_text v) < 2 ^ 32" using mem_value_len [OF inv assms(2)] by (simp add: SDB_VSZ_def)
  obtain r where r: "json_get (json_text v) ?p = Inr r" "located (json_text v) v path w r" using json_get_located [OF assms(3-6) l] by blast
  have p: "rs_p r \<noteq> None" using r(2) by (auto simp: located_def range_of_def)
  have q: "isstring x \<or> quote_len w = 0" using assms(9) by (cases w) auto
  obtain n c where g: "sdb_const_get_len s k = ((Some (json_text v), n, c), s)"
    using const_get_mem(3,4) [OF inv, of k] assms(2) by (metis prod.collapse)
  let ?s = "snd (sdb_set_owned s k (Some (json_text ?v)) 0)"
  have set: "sdb_json_set s k ?p (Some x) 0 = Inr (True, ?s)"
    using g r(1) p assms(7) replace_located [OF r(2) q] by (auto simp: sdb_json_set_def Let_def split: option.splits)
  have ne: "json_text ?v \<noteq> []" using r(2) value_of_wf [OF assms(7)] by (auto simp: located_def)
  have view: "mem_view ?s = (mem_view s)(k \<mapsto> json_text ?v)" "mem_inv ?s"
    using set_ready(3,4) [OF assms(1,10)] ne by (simp_all add: put_spec_def)
  have wf: "json_wf ?v" using jset_wf [OF assms(3) value_of_wf [OF assms(7)]] assms(8) by blast
  have l2: "length (json_text ?v) < 2 ^ 32" using assms(10) by (simp add: SDB_VSZ_def)
  obtain r2 where r2: "json_get (json_text ?v) ?p = Inr r2" "located (json_text ?v) ?v path (value_of x) r2"
    using json_get_located [OF wf assms(4,5) jset_lookup [OF assms(6)] l2] by blast
  have "inner (value_of x) = x" by (simp add: value_of_def)
  then have "fst (sdb_json_get ?s k ?p) = Inr (Some x)"
    using sdb_get_mem [OF view(2), of k] view(1) r2(1) dup_located [OF r2(2)] by (auto simp: sdb_json_get_def split: prod.splits option.splits)
  then show ?thesis using set view(1) by blast
qed

theorem json_set_get_witness:
  "\<exists>s'. sdb_json_set (single ''k'' (json_text (JObj [(''a'', JBare ''1''), (''b'', JBare ''2'')]))) ''k'' ''a'' (Some ''34'') 0 = Inr (True, s')
     \<and> fst (sdb_json_get s' ''k'' ''a'') = Inr (Some ''34'')"
proof -
  let ?v = "JObj [(''a'', JBare ''1''), (''b'', JBare ''2'')]"
  have t: "json_text ?v = [CHR ''{'', QUOTE, CHR ''a'', QUOTE, CHR '':'', CHR ''1'', CHR '','', QUOTE, CHR ''b'', QUOTE, CHR '':'', CHR ''2'', CHR ''}'']"
    by (simp add: key_text_def)
  have l: "length ''k'' < SDB_KSZ" "length (json_text ?v) < SDB_VSZ" "json_text ?v \<noteq> []" unfolding t by (simp_all add: SDB_KSZ_def SDB_VSZ_def)
  note o = single_ok [OF l]
  have ready: "mem_ready (single ''k'' (json_text ?v)) ''k''" using o(2) l(1) by blast
  have view: "mem_view (single ''k'' (json_text ?v)) ''k'' = Some (json_text ?v)" using o(1) by simp
  have n: "\<not> isstring ''34''" by (simp add: isstring_def)
  have "\<exists>s'. sdb_json_set (single ''k'' (json_text ?v)) ''k'' (joinc (CHR ''.'') [''a'']) (Some ''34'') 0 = Inr (True, s')
     \<and> mem_view s' = (mem_view (single ''k'' (json_text ?v)))(''k'' \<mapsto> json_text (jset ?v [''a''] (value_of ''34'')))
     \<and> fst (sdb_json_get s' ''k'' (joinc (CHR ''.'') [''a''])) = Inr (Some ''34'')"
    by (rule json_set_get [OF ready view, where w = "JBare ''1''"])
       (simp_all add: n bare_ok_def gostruct_def path_key_def nonul_def value_of_def key_text_def SDB_VSZ_def)
  then show ?thesis by auto
qed

section \<open>Indenting fits and is undone\<close>

lemma int_max_minus: "x \<le> INT_MAX \<Longrightarrow> int_max_minus x = INT_MAX - x"
proof -
  assume x: "x \<le> INT_MAX"
  then have "x mod (SIZE_MAX + 1) = x" "INT_MAX + (SIZE_MAX + 1) - x = (INT_MAX - x) + (SIZE_MAX + 1)" "INT_MAX - x < SIZE_MAX + 1"
    by (simp_all add: INT_MAX_def SIZE_MAX_def)
  then show ?thesis by (simp only: int_max_minus_def mod_add_self2) simp
qed

lemma size_add: "a + b \<le> SIZE_MAX \<Longrightarrow> size_add a b = a + b"
  by (simp add: size_add_def SIZE_MAX_def)

lemma doIndent_length: "length (doIndent i tab) = nat i * length tab"
  by (simp add: doIndent_def length_concat sum_list_replicate)

lemma indent_fits:
  assumes "indent_size s (length tab) instr i k = Some n" "j \<le> int i" "(i + length s) * length tab + 2 \<le> INT_MAX"
    "k + 2 * length s \<le> INT_MAX + length tab + 2 * N" "length s \<le> N" "INT_MAX + length tab + 2 * N \<le> SIZE_MAX"
  shows "length (indent_write s tab instr j) + k \<le> n + 1 \<and> n \<le> INT_MAX + length tab + 2 * N"
  using assms
proof (induction s arbitrary: instr i j k)
  case (Cons c s)
  let ?t = "length tab"
  have le: "m * ?t + 2 \<le> INT_MAX" if "m \<le> i + length (c # s)" for m
    using mult_le_mono1 [OF that, of ?t] Cons.prems(3) by linarith
  have "nat j \<le> i" "nat (j + 1) \<le> i + 1" "nat (j - 1) \<le> i - 1" using Cons.prems(2) by linarith+
  note ji = this [THEN mult_le_mono1, of ?t]
  show ?case
  proof (cases instr)
    case True
    define e where "e = (if c \<noteq> CHR 0x22 \<and> c = CHR 0x5C \<and> deref s = CHR 0x22 then 1 else 0 :: nat)"
    have "indent_size s ?t (c \<noteq> CHR 0x22) i (k + e + 1) = Some n" using Cons.prems(1) True by (auto simp: e_def Let_def split: if_splits)
    from Cons.IH [OF this Cons.prems(2)] have "length (indent_write s tab (c \<noteq> CHR 0x22) j) + (k + e + 1) \<le> n + 1 \<and> n \<le> INT_MAX + ?t + 2 * N"
      using Cons.prems(4-6) le [of "i + length s"] by (auto simp: e_def)
    moreover have "length (indent_write (c # s) tab instr j) = e + 1 + length (indent_write s tab (c \<noteq> CHR 0x22) j)" using True by (simp add: e_def)
    ultimately show ?thesis by linarith
  next
    case False
    have k: "k + i * ?t + 2 \<le> INT_MAX" using Cons.prems(1) False le [of i] by (auto simp: int_max_minus Let_def split: if_splits)
    have go: "length (indent_write s tab (c = CHR 0x22) j') + (k + x) \<le> n + 1 \<and> n \<le> INT_MAX + ?t + 2 * N"
      if "indent_size s ?t (c = CHR 0x22) i' (size_add k x) = Some n" "j' \<le> int i'" "i' \<le> i + 1" "x \<le> i * ?t + ?t + 2" for i' j' x
    proof -
      have x: "k + x \<le> INT_MAX + ?t" "k + x \<le> SIZE_MAX" using k that(4) Cons.prems(6) by linarith+
      have "indent_size s ?t (c = CHR 0x22) i' (k + x) = Some n" using that(1) size_add [OF x(2)] by simp
      then show ?thesis using Cons.IH [OF _ that(2)] le [of "i' + length s"] that(3) x(1) Cons.prems(5,6) by auto
    qed
    consider "c = CHR ''{'' \<or> c = CHR ''[''" | "c = CHR ''}'' \<or> c = CHR '']''" | "c = CHR '',''" | "c = CHR '':''"
      | "c \<notin> {CHR ''{'', CHR ''['', CHR ''}'', CHR '']'', CHR '','', CHR '':''}" by blast
    then show ?thesis
    proof cases
      case 1
      then have "indent_size s ?t (c = CHR 0x22) (i + 1) (size_add k ((i + 1) * ?t + 2)) = Some n" using Cons.prems(1) False by (auto simp: Let_def split: if_splits)
      from go [OF this, of "j + 1"] show ?thesis using 1 False Cons.prems(2) ji(2) by (auto simp: json_space_def doIndent_length)
    next
      case 2
      then have "indent_size s ?t (c = CHR 0x22) (i - 1) (size_add k ((i - 1) * ?t + 2)) = Some n" using Cons.prems(1) False by (auto simp: Let_def split: if_splits)
      moreover have "(i - 1) * ?t + 2 \<le> i * ?t + ?t + 2" by (simp add: trans_le_add1)
      moreover have "j - 1 \<le> int (i - 1)" using Cons.prems(2) by (cases i) auto
      ultimately have "length (indent_write s tab (c = CHR 0x22) (j - 1)) + (k + ((i - 1) * ?t + 2)) \<le> n + 1 \<and> n \<le> INT_MAX + ?t + 2 * N"
        using go [of "i - 1" "(i - 1) * ?t + 2" "j - 1"] by linarith
      moreover have "length (indent_write (c # s) tab instr j) = length (indent_write s tab (c = CHR 0x22) (j - 1)) + nat (j - 1) * ?t + 2"
        using 2 False by (elim disjE) (simp_all add: json_space_def doIndent_length)
      ultimately show ?thesis using ji(3) by linarith
    next
      case 3
      then have "indent_size s ?t (c = CHR 0x22) i (size_add k (i * ?t + 2)) = Some n" using Cons.prems(1) False by (auto simp: Let_def split: if_splits)
      from go [OF this, of j] have "length (indent_write s tab (c = CHR 0x22) j) + (k + (i * ?t + 2)) \<le> n + 1 \<and> n \<le> INT_MAX + ?t + 2 * N"
        using Cons.prems(2) by simp
      moreover have "length (indent_write (c # s) tab instr j) = length (indent_write s tab (c = CHR 0x22) j) + nat j * ?t + 2"
        using 3 False by (simp add: json_space_def doIndent_length)
      ultimately show ?thesis using ji(1) by linarith
    next
      case 4
      then have "indent_size s ?t (c = CHR 0x22) i (size_add k 2) = Some n" using Cons.prems(1) False by (auto simp: Let_def split: if_splits)
      from go [OF this, of j] show ?thesis using 4 False Cons.prems(2) by (auto simp: json_space_def)
    next
      case 5
      then have "indent_size s ?t (c = CHR 0x22) i (size_add k 1) = Some n" using Cons.prems(1) False by (auto simp: Let_def split: if_splits)
      from go [OF this, of j] show ?thesis using 5 False Cons.prems(2) by (auto simp: Let_def)
    qed
  qed
qed simp

lemma unindent_space: "set w \<subseteq> Collect json_space \<Longrightarrow> unindent_write (w @ s) False = unindent_write s False"
  by (induction w) (auto simp: json_space_def)

lemma unindent_indent:
  assumes "CHR 0x5C \<notin> set s" "set tab \<subseteq> Collect json_space" "instr \<longleftrightarrow> odd (length (filter (\<lambda>c. c = CHR 0x22) s))"
  shows "unindent_write (indent_write s tab instr i) instr = unindent_write s instr"
  using assms
proof (induction s arbitrary: instr i)
  case Nil
  then show ?case by (simp add: json_space_def)
next
  case (Cons c s)
  have d: "set (doIndent j tab) \<subseteq> Collect json_space" for j using Cons.prems(2) by (auto simp: doIndent_def)
  have q: "\<not> json_space (CHR 0x22)" "json_space (CHR 0x0A)" "json_space (CHR '' '')" by (simp_all add: json_space_def)
  have IH: "unindent_write (indent_write s tab i' j) i' = unindent_write s i'" if "i' \<longleftrightarrow> odd (length (filter (\<lambda>c. c = CHR 0x22) s))" for i' j
    using Cons.IH [OF _ Cons.prems(2) that] Cons.prems(1) by simp
  show ?case
  proof (cases instr)
    case True
    then show ?thesis using Cons.prems(1,3) IH [of "c \<noteq> CHR 0x22"] by (auto split: if_splits)
  next
    case False
    have rest: "unindent_write (indent_write s tab (c = CHR 0x22) j) (c = CHR 0x22) = unindent_write s (c = CHR 0x22)" for j
    proof (rule IH)
      show "(c = CHR 0x22) = odd (length (filter (\<lambda>c. c = CHR 0x22) s))" using Cons.prems(3) False by (auto split: if_splits)
    qed
    consider "json_space c" | "c = CHR '':''" | "c = CHR '',''" | "c = CHR ''{'' \<or> c = CHR ''[''" | "c = CHR ''}'' \<or> c = CHR '']''"
      | "\<not> json_space c \<and> c \<notin> {CHR ''{'', CHR ''['', CHR ''}'', CHR '']'', CHR '','', CHR '':''}" by blast
    then show ?thesis
    proof cases
      case 1
      then have "c \<noteq> CHR 0x22" using q(1) by auto
      then show ?thesis using False rest 1 by (simp add: Let_def)
    next
      case 2
      then show ?thesis using False rest by (simp add: json_space_def)
    next
      case 3
      then show ?thesis using False rest unindent_space [OF d] by (simp add: json_space_def)
    next
      case 4
      then show ?thesis using False rest unindent_space [OF d] q(2,3) by (elim disjE) (simp_all add: json_space_def)
    next
      case 5
      then show ?thesis using False rest unindent_space [OF d] by (elim disjE) (simp_all add: json_space_def)
    next
      case 6
      then show ?thesis using False rest by (simp add: Let_def)
    qed
  qed
qed

lemma unindent_length: "CHR 0x5C \<notin> set s \<Longrightarrow> length (unindent_write s instr) \<le> length s"
  by (induction s arbitrary: instr) (auto simp: le_SucI)

lemma indent_no_escape: "CHR 0x5C \<notin> set s \<Longrightarrow> CHR 0x5C \<notin> set tab \<Longrightarrow> CHR 0x5C \<notin> set (indent_write s tab instr i)"
proof (induction s arbitrary: instr i)
  case (Cons c s)
  have "CHR 0x5C \<notin> set (doIndent j tab)" for j using Cons.prems(2) by (auto simp: doIndent_def)
  then show ?case using Cons by (simp add: Let_def)
qed simp

text \<open>
  C26.  Indenting a text never writes past the block it computed the size of, whatever the text, as long as the size of the text times that of the
  indentation is below \<^verbatim>\<open>INT_MAX\<close>.  For a text without escapes whose strings are closed, and an indentation of white space,
  removing the white space of the indented text gives what it gives of the text itself, without writing past its block.
\<close>

theorem json_indent_unindent:
  assumes "(length s + 1) * (length tab + 2) \<le> INT_MAX"
  shows "sdb_json_indent s tab \<noteq> Inl e
    \<and> (\<forall>out. sdb_json_indent s tab = Inr (Some out) \<longrightarrow> CHR 0x5C \<notin> set s \<longrightarrow> set tab \<subseteq> Collect json_space
        \<longrightarrow> even (length (filter (\<lambda>c. c = CHR 0x22) s)) \<longrightarrow>
        sdb_json_unindent out = sdb_json_unindent s \<and> sdb_json_unindent s = Inr (unindent_write s False))"
proof -
  have l: "(0 + length s) * length tab + 2 \<le> INT_MAX" "2 * length s + length tab \<le> INT_MAX" using assms by (simp_all add: algebra_simps)
  have fits: "length (indent_write s tab False 0) \<le> n + 1" "size_add n 2 = n + 2" if "indent_size s (length tab) False 0 0 = Some n" for n
  proof -
    have b: "INT_MAX + length tab + 2 * length s \<le> SIZE_MAX - 2" using l(2) by (simp add: INT_MAX_def SIZE_MAX_def)
    then have "length (indent_write s tab False 0) + 0 \<le> n + 1 \<and> n \<le> INT_MAX + length tab + 2 * length s"
      by (intro indent_fits [OF that _ l(1)]) simp_all
    then show "length (indent_write s tab False 0) \<le> n + 1" "size_add n 2 = n + 2" using b size_add [of n 2]
      by (simp_all add: SIZE_MAX_def)
  qed
  have un: "sdb_json_unindent x = Inr (unindent_write x False)" if "CHR 0x5C \<notin> set x" for x
    using unindent_length [OF that, of False] by (simp add: sdb_json_unindent_def Let_def)
  have "sdb_json_unindent (indent_write s tab False 0) = Inr (unindent_write s False)"
    if "CHR 0x5C \<notin> set s" "set tab \<subseteq> Collect json_space" "even (length (filter (\<lambda>c. c = CHR 0x22) s))"
  proof -
    have "\<not> json_space (CHR 0x5C)" by (simp add: json_space_def)
    then have "CHR 0x5C \<notin> set tab" using that(2) by blast
    then show ?thesis using un [OF indent_no_escape [OF that(1)]] unindent_indent [OF that(1,2), of False] that(3) by simp
  qed
  then show ?thesis using un [of s] fits by (auto simp: sdb_json_indent_def Let_def split: option.splits if_splits)
qed

theorem json_indent_unindent_witness:
  "sdb_json_unindent (indent_write ''[1,[2]]'' '' '' False 0) = Inr ''[1,[2]]''"
proof -
  have "sdb_json_indent ''[1,[2]]'' '' '' = Inr (Some (indent_write ''[1,[2]]'' '' '' False 0))"
    by (simp add: sdb_json_indent_def int_max_minus INT_MAX_def size_add SIZE_MAX_def json_space_def doIndent_def Let_def numeral_2_eq_2)
  then show ?thesis using json_indent_unindent [of "''[1,[2]]''" "'' ''"] by (simp add: INT_MAX_def json_space_def)
qed

section \<open>Formatted text\<close>

text \<open>The text a conversion stands for; a double must take less than 32 characters.\<close>

fun conv_text :: "char \<Rightarrow> json_arg \<Rightarrow> string option" where
  "conv_text c (Arg_Int i) =
     (if \<not> (- 2147483648 \<le> i \<and> i < 2147483648) then None
      else if c = CHR ''b'' then Some (if i \<noteq> 0 then ''true'' else ''false'') else if c = CHR ''d'' \<or> c = CHR ''i'' then Some (dec_text i) else None)"
| "conv_text c (Arg_Double t) = (if c = CHR ''f'' \<and> length t < 32 then Some t else None)"
| "conv_text c (Arg_Ut64 n) = (if c = CHR ''l'' then Some (hex_text n) else None)"
| "conv_text c (Arg_Str x) = (if c = CHR ''s'' then Some (quoted_text x) else None)"

fun format_text :: "string \<Rightarrow> json_arg list \<Rightarrow> string option" where
  "format_text [] args = (if args = [] then Some [] else None)"
| "format_text (c # cs) args =
     (if c = CHR ''%'' then
        (case cs of
           [] \<Rightarrow> None
         | d # ds \<Rightarrow>
             (case args of
                [] \<Rightarrow> None
              | a # as \<Rightarrow>
                  (case (conv_text d a, format_text ds as) of (Some t, Some u) \<Rightarrow> Some (t @ u) | _ \<Rightarrow> None)))
      else map_option (\<lambda>u. c # u) (format_text cs args))"

definition sj_ok :: "SdbJsonString \<Rightarrow> bool" where
  "sj_ok s \<longleftrightarrow> sj_buf s \<noteq> None \<and> length (sj_text s) < sj_blen s"

lemma put_ok:
  assumes "length t < y"
  shows "\<exists>s'. sj_put t (JSONSTR_ALLOCATE y s) = Inr s' \<and> sj_text s' = sj_text s @ t \<and> sj_ok s'"
  using assms by (auto simp: sj_put_def JSONSTR_ALLOCATE_def sj_text_def sj_ok_def Let_def)

lemma dec_length: "- 2147483648 \<le> i \<Longrightarrow> i < 2147483648 \<Longrightarrow> length (dec_text i) < 32"
proof -
  assume "- 2147483648 \<le> i" "i < 2147483648"
  then have "nat i < 10 ^ 10" "nat (- i) < 10 ^ 10" by simp_all
  then have "length (digs 10 (nat i)) \<le> 10" "length (digs 10 (nat (- i))) \<le> 10" using digs_length [of 10] by simp_all
  then show ?thesis by (simp add: dec_text_def)
qed

lemma hex_length: "length (hex_text n) < 32"
proof -
  have "unat n < 16 ^ 16" using unsigned_less [of n] by simp
  then show ?thesis using digs_length [of 16 "unat n" 16] by (simp add: hex_text_def)
qed

lemma quoted_length: "length (quoted_text x) < length x * 2 + 3"
proof -
  have "length (concat (map (\<lambda>c. if c = QUOTE then [CHR 0x5C, c] else [c]) x)) \<le> length x * 2" by (induction x) auto
  then show ?thesis by (simp add: quoted_text_def)
qed

lemma conv_ok:
  assumes "conv_text c a = Some t"
  shows "\<exists>s'. json_conv c (a # as) s = Inr (s', as) \<and> sj_text s' = sj_text s @ t \<and> sj_ok s'"
proof (cases a)
  case (Arg_Int i)
  then show ?thesis using assms put_ok [of t 32 s] dec_length [of i] by (auto simp: json_conv_def split: if_splits)
next
  case (Arg_Double x)
  then show ?thesis using assms put_ok [of t 32 s] by (auto simp: json_conv_def split: if_splits)
next
  case (Arg_Ut64 n)
  then show ?thesis using assms put_ok [of t 32 s] hex_length [of n] by (auto simp: json_conv_def split: if_splits)
next
  case (Arg_Str x)
  then show ?thesis using assms put_ok [of t "length x * 2 + 3" s] quoted_length [of x] by (auto simp: json_conv_def split: if_splits)
qed

lemma format_loop_ok:
  "format_text fmt args = Some t \<Longrightarrow> sj_ok s \<Longrightarrow> \<exists>s'. format_loop fmt args s = Inr s' \<and> sj_text s' = sj_text s @ t \<and> sj_ok s'"
proof (induction fmt args arbitrary: s t rule: format_text.induct)
  case (1 args)
  then show ?case by (auto split: if_splits)
next
  case (2 c cs args)
  show ?case
  proof (cases "c = CHR ''%''")
    case True
    obtain d ds a as u w where e: "cs = d # ds" "args = a # as" "conv_text d a = Some u" "format_text ds as = Some w" "t = u @ w"
      using 2(3) True by (auto split: list.splits option.splits)
    obtain s1 where s1: "json_conv d (a # as) s = Inr (s1, as)" "sj_text s1 = sj_text s @ u" "sj_ok s1" using conv_ok [OF e(3)] by blast
    then show ?thesis using 2(1) [OF True e(1,2) e(4) s1(3)] True e by auto
  next
    case False
    then obtain w where w: "format_text cs args = Some w" "t = c # w" using 2(3) by auto
    obtain s1 where s1: "sj_put [c] (JSONSTR_ALLOCATE 10 s) = Inr s1" "sj_text s1 = sj_text s @ [c]" "sj_ok s1" using put_ok [of "[c]" 10 s] by auto
    then show ?thesis using 2(2) [OF False w(1) s1(3)] False w(2) by auto
  qed
qed

text \<open>
  \<^verbatim>\<open>sdb_json_format\<close> appends the text that the format and its arguments stand for and leaves room for the terminator in the block; it does
  not write past it.  The arguments fit the conversions, the format does not end in the middle of one, and doubles take less than 32 characters.
\<close>

theorem json_format_spec:
  assumes "sj_buf s = None \<or> sj_ok s" "format_text fmt args = Some t"
  shows "\<exists>s'. sdb_json_format s fmt args = Inr s' \<and> sj_text s' = sj_text s @ t \<and> length (sj_text s') < sj_blen s'"
proof -
  let ?s = "if sj_buf s = None then s\<lparr>sj_blen := 1024, sj_buf := Some []\<rparr> else s"
  have o: "sj_ok ?s" "sj_text ?s = sj_text s" using assms(1) by (auto simp: sj_ok_def sj_text_def)
  obtain s' where "format_loop fmt args ?s = Inr s'" "sj_text s' = sj_text ?s @ t" "sj_ok s'" using format_loop_ok [OF assms(2) o(1)] by blast
  then show ?thesis using o(2) by (auto simp: sdb_json_format_def sj_ok_def Let_def)
qed

theorem json_format_spec_witness:
  "\<exists>s'. sdb_json_format \<lparr>sj_buf = None, sj_blen = 0\<rparr> ''[%d,%b]'' [Arg_Int 5, Arg_Int 0] = Inr s' \<and> sj_text s' = ''[5,false]''"
  using json_format_spec [of "\<lparr>sj_buf = None, sj_blen = 0\<rparr>" "''[%d,%b]''" "[Arg_Int 5, Arg_Int 0]" "''[5,false]''"]
  by (auto simp: sj_text_def dec_text_def digs.simps itoa_digit_def)

section \<open>What modelling showed\<close>

text \<open>A missing member of a nested object: the value of the object is returned, or that of a member of the next object.\<close>

lemma json_get_missing:
  "sdb_json_get_str (json_text (JObj [(''a'', JObj [(''b'', JBare ''7'')])])) ''a.z'' = Inr (Some (json_text (JObj [(''b'', JBare ''7'')])))"
  by code_simp

lemma json_get_neighbour:
  "sdb_json_get_str (json_text (JObj [(''a'', JObj []), (''c'', JObj [(''d'', JBare ''3'')])])) ''a.d'' = Inr (Some ''3'')"
  by code_simp

text \<open>A number written over a string leaves the opening quote.\<close>

lemma json_replace_string:
  "json_replace [CHR ''{'', QUOTE, CHR ''a'', QUOTE, CHR '':'', QUOTE] ''1'' [QUOTE, CHR ''}'']
     = [CHR ''{'', QUOTE, CHR ''a'', QUOTE, CHR '':'', QUOTE, CHR ''1'', CHR ''}'']"
  by code_simp

text \<open>
  Deleting the member \<open>b\<close> of a nested object cuts the text at an offset in the nested object, here before the member \<open>x\<close>.
\<close>

lemma json_delete_nested:
  "json_delete (json_text (JObj [(''x'', JBare ''1''), (''a'', JObj [(''b'', JBare ''2''), (''c'', JBare ''3'')])]))
     (json_text (JObj [(''b'', JBare ''2''), (''c'', JBare ''3'')]) @ ''}'') 5
     (siblings_text [(''c'', JBare ''3'')] @ ''}}'') = json_text (JObj [(''c'', JBare ''3'')]) @ ''}''"
  by code_simp

text \<open>Removing a member by its function does nothing: it passes no value, which is an error.\<close>

lemma json_unset_noop: "sdb_json_unset s k p cas = Inr (False, s)"
  by (simp add: sdb_json_unset_def sdb_json_set_def)

text \<open>A path that ends in a quote is read past its end.\<close>

lemma json_path_quote_end:
  "json_path_next \<lparr>rs_type = NUL, rs_next = True, rs_f = 0, rs_t = 1, rs_p = Some [CHR ''a'', QUOTE]\<rparr> = Inl Read_Past_End"
  by (simp add: json_path_next_def char_at_def)

text \<open>Blocks that are too small, and a format that is read past its end.\<close>

lemma json_unindent_overflow: "sdb_json_unindent [QUOTE, CHR 0x5C, QUOTE] = Inl Write_Past_End"
  by (simp add: sdb_json_unindent_def deref_def json_space_def)

lemma json_format_double_overflow:
  "length x = 992 \<Longrightarrow> length t = 316 \<Longrightarrow> sdb_json_format \<lparr>sj_buf = Some x, sj_blen = 1024\<rparr> ''%f'' [Arg_Double t] = Inl Write_Past_End"
  by (simp add: sdb_json_format_def json_conv_def sj_put_def JSONSTR_ALLOCATE_def sj_text_def)

lemma json_format_percent: "sdb_json_format \<lparr>sj_buf = Some [], sj_blen = 1024\<rparr> ''%'' args = Inl Read_Past_End"
  by (simp add: sdb_json_format_def)

text \<open>Negative numbers are stored as 64-bit unsigned ones.\<close>

lemma json_num_negative: "sdb_json_num_set s k p (- 1) cas = sdb_json_set s k p (Some ''18446744073709551615'') cas"
proof -
  have "digs 10 18446744073709551615 = ''18446744073709551615''" by (simp add: digs.simps itoa_digit_def)
  moreover have "unat (- 1 :: ut64) = 18446744073709551615" by (simp add: unsigned_minus_1_eq_mask mask_eq_exp_minus_1)
  ultimately show ?thesis by (simp add: sdb_json_num_set_def itoa64_dec)
qed

text \<open>
  The loop over the members of an object goes four entries at a time and reads past the array of 1024 entries on the stack when there
  is no entry of 0 at a multiple of four, as for 511 numbers in braces.
\<close>

definition ones :: string where
  "ones = CHR ''{'' # joinc (CHR '','') (map json_text (replicate 511 (JBare ''1''))) @ ''}''"

lemma ones_elements: "emit_elements 1 c (replicate n (JBare ''1'')) = concat (map (\<lambda>i. [word_of_int (c + 2 * int i), 1]) [0..<n])"
proof (induction n arbitrary: c)
  case (Suc n)
  have "emit_elements 1 c (replicate (Suc n) (JBare ''1'')) = [word_of_int c, 1] @ emit_elements 1 (c + 2) (replicate n (JBare ''1''))" by (simp add: add.commute)
  also have "\<dots> = concat (map (\<lambda>i. [word_of_int (c + 2 * int i), 1]) [0..<Suc n])"
    by (subst Suc.IH) (simp add: map_upt_Suc algebra_simps del: upt_Suc)
  finally show ?case .
qed simp

lemma concat_pairs: "concat (map (\<lambda>i. [f i, g i]) [0..<n]) ! (2 * i) = f i" if "i < n"
  using that by (induction n) (auto simp: nth_append length_concat comp_def sum_list_triv less_Suc_eq)

lemma concat_pairs_snd: "concat (map (\<lambda>i. [f i, g i]) [0..<n]) ! Suc (2 * i) = g i" if "i < n"
  using that by (induction n) (auto simp: nth_append length_concat comp_def sum_list_triv less_Suc_eq)

lemma cmp_longer: "int (rs_t b) - int (rs_f b) < int (rs_t a) - int (rs_f a) \<Longrightarrow> rangstr_cmp a b \<noteq> 0"
  by (auto simp: rangstr_cmp_def Let_def)

lemma json_find_past_end:
  assumes "rs_t rs = rs_f rs + 2"
  shows "json_find ones rs = Inl Read_Past_End"
proof -
  let ?vs = "replicate 511 (JBare ''1'')"
  let ?out = "concat (map (\<lambda>i. [word_of_int (1 + 2 * int i), 1]) [0..<511]) :: ut32 list"
  have len: "length (joinc (CHR '','') (replicate n ''1'')) = 2 * n - 1" for n
  proof (induction n)
    case (Suc n)
    then show ?case by (cases n) (auto simp: joinc_Cons)
  qed simp
  have lo: "length ?out = 1022" by (simp add: length_concat comp_def sum_list_triv)
  have lb: "length ones = 1023" using len [of 511] by (simp add: ones_def)
  have "ends 1 (joinc (CHR '','') (map json_text ?vs)) j1 (writes j1 ?out)" if "j_depth j1 = j_depth js0n_init + 1" for j1
    using ends_json(2) [of ?vs 1 j1 1] that ones_elements [of 1 511] by (simp add: js0n_init_def bare_ok_def gostruct_def)
  from run_brackets [of js0n_init 0 _ ?out, OF _ _ , of "joinc (CHR '','') (map json_text ?vs)" "CHR ''{''" "CHR ''}''"] this
  have "jrun 0 ones (Gostruct, js0n_init) = Some (Gostruct, writes js0n_init ?out)" by (simp add: ones_def js0n_init_def)
  from js0n_loop_run [OF this, of "[]"] have j: "sdb_js0n ones = (0, ?out)" by (simp add: sdb_js0n_def js0n_init_def)
  define res where "res = ?out @ [0, 0]"
  have res: "js0n_array ones ?out = Some res" using lo lb by (simp add: js0n_array_def RESFIXSZ_def res_def numeral_2_eq_2)
  have lr: "length res = 1024" using lo by (simp add: res_def)
  have at: "res_at res (4 * i) = Some (word_of_int (int (1 + 4 * i)))" "res_at res (4 * i + 1) = Some 1" if "i < 256" for i
    using that lr lo concat_pairs [of "2 * i" 511 "\<lambda>i. word_of_int (1 + 2 * int i)" "\<lambda>_. 1"]
      concat_pairs_snd [of "2 * i" 511 "\<lambda>i. word_of_int (1 + 2 * int i)" "\<lambda>_. 1"]
    by (simp_all add: res_at_def res_def nth_append)
  have "find_member ones res (4 * (256 - i)) rs = Inl Read_Past_End" if "i \<le> 256" for i
    using that
  proof (induction i)
    case 0
    then show ?case using lr by (subst find_member.simps) (simp add: res_at_def)
  next
    case (Suc i)
    define m where "m = 256 - Suc i"
    have m: "m < 256" "256 - i = m + 1" using Suc.prems by (auto simp: m_def)
    have u: "unat (word_of_int (int (1 + 4 * m)) :: ut32) = 1 + 4 * m" "unat (word_of_int (int (2 + 4 * m)) :: ut32) = 2 + 4 * m" using m(1) by (intro unat_int; simp)+
    have w: "(word_of_int (int (1 + 4 * m)) :: ut32) + 1 = word_of_int (int (2 + 4 * m))" by simp
    let ?r = "rangstr_news ones (word_of_int (int (1 + 4 * m))) 1"
    have r: "rs_f ?r = 1 + 4 * m" "rs_t ?r = 2 + 4 * m" unfolding rangstr_news_def w by (simp_all only: rangstr.simps u)
    have "rangstr_cmp rs ?r \<noteq> 0" by (rule cmp_longer) (use r assms in linarith)
    moreover have "(word_of_int (int (1 + 4 * m)) :: ut32) \<noteq> 0" using u(1) by (metis add_is_0 one_neq_zero unat_0)
    moreover have "news_at ones res (4 * m) = Inr ?r" using at [OF m(1)] by (simp only: news_at_def prod.case option.case)
    ultimately have "find_member ones res (4 * m) rs = find_member ones res (4 * m + 4) rs"
      using at(1) [OF m(1)] by (subst find_member.simps) (simp only: option.case if_False sum.case)
    moreover have "find_member ones res (4 * m + 4) rs = Inl Read_Past_End" using Suc.IH Suc.prems m(2) by (simp add: algebra_simps)
    ultimately show ?case unfolding m_def [symmetric] by (simp only:)
  qed
  from this [of 256] have "find_member ones res 0 rs = Inl Read_Past_End" by simp
  then show ?thesis using j res by (simp add: json_find_def ones_def deref_def)
qed

end
