(* ===== verification/Sdb_Query.thy ===== *)
theory Sdb_Query
  imports Text Sdb_Array Json
begin

text \<open>
  The command language: \<^verbatim>\<open>src/query.c\<close>.

  \<^item> A query is a text of segments separated by semicolons.  The C code cuts it in place; here its parts are strings of their own.  \<open>Query\<close>
    is the structure of a segment without the output buffer, which is passed along; \<open>q_json\<close> is the offset of the colon in \<open>q_line\<close>, the
    text in which it was found, and \<open>q_own\<close> says whether \<open>q_cmd\<close> is still that text.
  \<^item> A \<open>world\<close> is the heap of databases and what was written to the standard output.  Commands on one database work on the database and
    the output only.
  \<^item> Accesses outside of an array or through NULL, the overflow of an \<^verbatim>\<open>int\<close>, and the faults of the components are values of \<open>q_fault\<close>.
  \<^item> The files that queries run are a parameter.  A query can run a file with queries: these functions call each other, the fuel bounds the
    nesting and \<open>No_Fuel\<close> says that it was not enough.  The loop over the segments needs none, since every segment consumes some of the text.
\<close>

section \<open>State\<close>

datatype q_fault =
    Null_Pointer
  | Signed_Overflow
  | Buffer_Fault
  | Json_Fault json_error
  | Ns_Fault ns_error
  | No_Fuel

datatype QStatus = Q_NEXT | Q_STOP | Q_ERR

record Query =
  q_s :: nat
  q_encode :: bool
  q_cmd :: string
  q_p :: string
  q_val :: "string option"
  q_eq :: "string option"
  q_json :: "nat option"
  q_line :: string
  q_own :: bool

record world =
  w_f :: forest
  w_stdout :: string

text \<open>The text before the first \<open>c\<close>, and what follows it when there is one.\<close>

definition cut_at :: "char \<Rightarrow> string \<Rightarrow> string \<times> string option" where
  "cut_at c s = (case strchr s c of None \<Rightarrow> (s, None) | Some t \<Rightarrow> (take (length s - length t) s, Some (tl t)))"

text \<open>\<^verbatim>\<open>sdb_encode ((const ut8 *)v, -1)\<close>, and \<^verbatim>\<open>(char *)sdb_decode (v, NULL)\<close> as a C string.\<close>

definition encode_text :: "string \<Rightarrow> string" where
  "encode_text v = sdb_encode (map of_char v) (- 1)"

definition decode_text :: "string option \<Rightarrow> string option" where
  "decode_text v = map_option (\<lambda>b. cstring (map (\<lambda>x. char_of (unat x)) b)) (Option.bind v sdb_decode)"

text \<open>\<^verbatim>\<open>atoi\<close>: the value of \<^verbatim>\<open>strtol (s, NULL, 10)\<close>, which saturates, converted to an \<^verbatim>\<open>int\<close>.\<close>

definition atoi :: "string \<Rightarrow> int" where
  "atoi s =
     (let s1 = dropWhile isspace s;
          neg = (deref s1 = CHR ''-'');
          s2 = (if deref s1 = CHR ''-'' \<or> deref s1 = CHR ''+'' then tl s1 else s1);
          v = int (strtoull_digits 10 0 s2)
      in int32 (if neg then max (- v) (- (2 ^ 63)) else min v (2 ^ 63 - 1)))"

text \<open>Assigning a \<^verbatim>\<open>ut64\<close> to an \<^verbatim>\<open>int\<close>.\<close>

definition to_int :: "ut64 \<Rightarrow> int" where
  "to_int n = int32 (uint n)"

section \<open>Output\<close>

definition put :: "strbuf \<Rightarrow> string \<Rightarrow> int \<Rightarrow> q_fault + strbuf" where
  "put out str nl = (case strbuf_append out str nl of None \<Rightarrow> Inl Buffer_Fault | Some out \<Rightarrow> Inr out)"

definition q_puts :: "strbuf \<Rightarrow> string option \<Rightarrow> q_fault + strbuf" where
  "q_puts out s =
     (case s of
        None \<Rightarrow> Inr out
      | Some s \<Rightarrow> if s \<noteq> [] then put out s 1 else Inr out)"

text \<open>The user data of the callback is the output buffer, or the fault that ended the walk.\<close>

definition foreach_list_cb ::
  "string option \<Rightarrow> bool \<Rightarrow> string \<Rightarrow> string option \<Rightarrow> q_fault + strbuf \<Rightarrow> bool \<times> (q_fault + strbuf)" where
  "foreach_list_cb root encode k v u =
     (case u of
        Inl e \<Rightarrow> (False, Inl e)
      | Inr out \<Rightarrow>
          (case (case (if encode then decode_text v else None) of None \<Rightarrow> v | Some v2 \<Rightarrow> Some v2) of
             None \<Rightarrow> (False, Inl Null_Pointer)
           | Some v \<Rightarrow>
               let line = (case root of
                             Some root \<Rightarrow> root @ CHR ''/'' # k @ CHR ''='' # v
                           | None \<Rightarrow> k @ CHR ''='' # v)
               in (case put out line 1 of Inl e \<Rightarrow> (False, Inl e) | Inr out \<Rightarrow> (True, Inr out))))"

section \<open>Dumps\<close>

text \<open>
  The array \<^verbatim>\<open>root\<close> of \<^verbatim>\<open>q_dump\<close>; a byte that was never assigned is \<open>None\<close>.  Reading such a byte and writing past the
  end are faults.
\<close>

type_synonym root_buf = "char option list"

definition ROOT_SIZE :: nat where
  "ROOT_SIZE = 1024"

fun root_text :: "root_buf \<Rightarrow> string option" where
  "root_text [] = None"
| "root_text (None # cs) = None"
| "root_text (Some c # cs) = (if c = NUL then Some [] else map_option ((#) c) (root_text cs))"

definition root_put :: "root_buf \<Rightarrow> nat \<Rightarrow> string \<Rightarrow> root_buf option" where
  "root_put root p s =
     (if p + length s \<le> length root then Some (take p root @ map Some s @ drop (p + length s) root) else None)"

text \<open>
  \<^verbatim>\<open>walk_namespace\<close> and its loop over the namespaces, in which \<open>left\<close> is counted down; \<open>s\<close> is \<^verbatim>\<open>ns->sdb\<close> and \<open>p\<close> and \<open>roote\<close> are
  offsets in \<open>root\<close>.
\<close>

fun walk_namespace ::
    "nat \<Rightarrow> forest \<Rightarrow> root_buf \<Rightarrow> int \<Rightarrow> nat \<Rightarrow> nat \<Rightarrow> bool \<Rightarrow> strbuf \<Rightarrow> q_fault + forest \<times> root_buf \<times> strbuf"
and walk_subs ::
    "nat \<Rightarrow> forest \<Rightarrow> root_buf \<Rightarrow> int \<Rightarrow> nat \<Rightarrow> nat \<Rightarrow> SdbNs list \<Rightarrow> bool \<Rightarrow> strbuf \<Rightarrow> q_fault + forest \<times> root_buf \<times> strbuf" where
  "walk_namespace 0 f root left p s encode out = Inl No_Fuel"
| "walk_namespace (Suc n) f root left p s encode out =
     (case root_text root of
        None \<Rightarrow> Inl Buffer_Fault
      | Some r \<Rightarrow>
          (case deref_db f s of
             None \<Rightarrow> Inl (Ns_Fault Use_After_Free)
           | Some d \<Rightarrow>
               (case sdb_foreach (pure_cb (foreach_list_cb (Some r) encode)) (Inr out) (n_s d) of
                  (_, Inl e, _) \<Rightarrow> Inl e
                | (_, Inr out, db) \<Rightarrow>
                    walk_subs n (f[s := Some (d\<lparr>n_s := db\<rparr>)]) root left p (length r) (ns_list d) encode out)))"
| "walk_subs n f root left p roote [] encode out = Inr (f, root, out)"
| "walk_subs n f root left p roote (e # es) encode out =
     (let len = length (ns_name e); fits = int len + 2 < left in
      case root_put root p ''/'' of
        None \<Rightarrow> Inl Buffer_Fault
      | Some root \<Rightarrow>
          (case (if fits then root_put root (p + 1) (ns_name e @ [NUL]) else Some root) of
             None \<Rightarrow> Inl Buffer_Fault
           | Some root \<Rightarrow>
               let left = (if fits then left - (int len + 2) else left) in
               (case walk_namespace n f root left (roote + len + 1) (ns_sdb e) encode out of
                  Inl e \<Rightarrow> Inl e
                | Inr (f, root, out) \<Rightarrow> walk_subs n f root left p roote es encode out)))"

text \<open>The loop of the command \<^verbatim>\<open>***\<close>, which uses one array for all namespaces.\<close>

fun dump_walk :: "nat \<Rightarrow> forest \<Rightarrow> root_buf \<Rightarrow> SdbNs list \<Rightarrow> bool \<Rightarrow> strbuf \<Rightarrow> q_fault + forest \<times> strbuf" where
  "dump_walk n f root [] encode out = Inr (f, out)"
| "dump_walk n f root (e # es) encode out =
     (let name_len = length (ns_name e) in
      if name_len < ROOT_SIZE then
        (case root_put root 0 (ns_name e @ [NUL]) of
           None \<Rightarrow> Inl Buffer_Fault
         | Some root \<Rightarrow>
             (case walk_namespace n f root (int ROOT_SIZE - int name_len) name_len (ns_sdb e) encode out of
                Inl e \<Rightarrow> Inl e
              | Inr (f, root, out) \<Rightarrow> dump_walk n f root es encode out))
      else dump_walk n f root es encode out)"

fun dump_names :: "SdbNs list \<Rightarrow> strbuf \<Rightarrow> q_fault + strbuf" where
  "dump_names [] out = Inr out"
| "dump_names (e # es) out = (case q_puts out (Some (ns_name e)) of Inl x \<Rightarrow> Inl x | Inr out \<Rightarrow> dump_names es out)"

text \<open>The loop over a list of entries; it goes on when the callback returns false.\<close>

fun dump_entries :: "bool \<Rightarrow> (string \<times> string option) list \<Rightarrow> strbuf \<Rightarrow> q_fault + strbuf" where
  "dump_entries encode [] out = Inr out"
| "dump_entries encode ((k, v) # kvs) out =
     (case snd (foreach_list_cb None encode k v (Inr out)) of
        Inl e \<Rightarrow> Inl e
      | Inr out \<Rightarrow> dump_entries encode kvs out)"

definition q_dump :: "nat \<Rightarrow> forest \<Rightarrow> Query \<Rightarrow> strbuf \<Rightarrow> q_fault + bool \<times> forest \<times> strbuf" where
  "q_dump n f q out =
     (case deref_db f (q_s q) of
        None \<Rightarrow> Inl (Ns_Fault Use_After_Free)
      | Some d \<Rightarrow>
          if q_cmd q = ''***'' then
            map_sum id (\<lambda>(f, out). (True, f, out)) (dump_walk n f (replicate ROOT_SIZE None) (ns_list d) (q_encode q) out)
          else if q_cmd q = ''**'' then
            map_sum id (\<lambda>out. (True, f, out)) (dump_names (ns_list d) out)
          else if q_cmd q = ''*'' then
            (case sdb_foreach_list empty_heap (n_s d) True of
               (hl, db) \<Rightarrow>
                 map_sum id (\<lambda>out. (True, f[q_s q := Some (d\<lparr>n_s := db\<rparr>)], out)) (dump_entries (q_encode q) (ls_data hl) out))
          else Inr (False, f, out))"

section \<open>Commands on one database\<close>

fun grep_entries :: "(string \<times> string option) list \<Rightarrow> strbuf \<Rightarrow> q_fault + strbuf" where
  "grep_entries [] out = Inr out"
| "grep_entries ((k, v) # kvs) out =
     (case v of
        None \<Rightarrow> Inl Null_Pointer
      | Some v \<Rightarrow>
          (case put out k 0 of
             Inl e \<Rightarrow> Inl e
           | Inr out \<Rightarrow>
               (case put out ''='' 0 of
                  Inl e \<Rightarrow> Inl e
                | Inr out \<Rightarrow> (case put out v 1 of Inl e \<Rightarrow> Inl e | Inr out \<Rightarrow> grep_entries kvs out))))"

definition q_grep :: "Query \<Rightarrow> sdb \<Rightarrow> strbuf \<Rightarrow> q_fault + sdb \<times> strbuf" where
  "q_grep q s out =
     (if deref (drop 1 (q_cmd q)) = CHR ''~'' then
        (case sdb_foreach_match empty_heap s (drop 2 (q_cmd q)) False of
           (hl, s) \<Rightarrow> map_sum id (\<lambda>out. (s, out)) (grep_entries (ls_data hl) out))
      else Inr (snd (sdb_unset_like s (drop 1 (q_cmd q))), out))"

text \<open>What a command on one database gives: the status, the database and the output.\<close>

type_synonym q_result = "q_fault + QStatus \<times> sdb \<times> strbuf"

definition say :: "QStatus \<Rightarrow> sdb \<Rightarrow> strbuf \<Rightarrow> string option \<Rightarrow> q_result" where
  "say st s out text = map_sum id (\<lambda>out. (st, s, out)) (q_puts out text)"

text \<open>
  The key expression and the path after \<^verbatim>\<open>*json = 0\<close>: the \<^verbatim>\<open>:\<close> is in the text of the segment, and so in \<open>q_cmd\<close> unless that
  was replaced by the value of a key.
\<close>

definition json_key :: "Query \<Rightarrow> nat \<Rightarrow> string" where
  "json_key q j = (if q_own q then take j (q_cmd q) else q_cmd q)"

definition json_path :: "Query \<Rightarrow> nat \<Rightarrow> string" where
  "json_path q j = drop (j + 1) (q_line q)"

definition q_incdec :: "Query \<Rightarrow> sdb \<Rightarrow> strbuf \<Rightarrow> q_result" where
  "q_incdec q s out =
     (let cmd = q_cmd q; plus = (deref cmd = CHR ''+'') in
      if deref (drop 1 cmd) = CHR ''['' then
        (case strchr cmd CHR '']'' of
           None \<Rightarrow> Inr (Q_STOP, s, out)
         | Some eb \<Rightarrow>
             let idx = to_int (sdb_atoi (drop 2 cmd)) in
             (case sdb_array_get_num s (tl eb) idx of
                ((curnum, _), s) \<Rightarrow>
                  (case q_eq q of
                     Some eq \<Rightarrow>
                       let neq = sdb_atoi eq; curnum = (if plus then curnum + neq else curnum - neq)
                       in Inr (Q_NEXT, snd (sdb_array_set_num s (tl eb) idx curnum 0), out)
                   | None \<Rightarrow>
                       let curnum = (if plus then curnum + 1 else curnum - 1)
                       in say Q_NEXT s out (Some (itoa64 curnum 10)))))
      else
        case q_val q of
          Some val \<Rightarrow>
            if sdb_isnum val then
              let neg = (deref val = CHR ''-'');
                  add = (if neg then \<not> plus else plus);
                  d = word_of_int (to_int (sdb_atoi (if neg then tl val else val)))
              in if add then Inr (Q_NEXT, snd (sdb_num_inc s (drop 1 cmd) d 0), out)
                 else Inr (Q_NEXT, snd (sdb_num_dec s (drop 1 cmd) d 0), out)
            else if plus then Inr (Q_NEXT, snd (sdb_concat s (drop 1 cmd) (Some val) 0), out)
            else Inr (Q_NEXT, snd (sdb_uncat s (drop 1 cmd) (Some val) 0), out)
        | None \<Rightarrow>
            (case sdb_const_get s (drop 1 cmd) of
               ((v, _), s) \<Rightarrow>
                 (case q_json q of
                    Some j \<Rightarrow>
                      (case (if plus then sdb_json_num_inc s (drop 1 (json_key q j)) (json_path q j) 1 0
                             else sdb_json_num_dec s (drop 1 (json_key q j)) (json_path q j) 1 0) of
                         Inl e \<Rightarrow> Inl (Json_Fault e)
                       | Inr (n, s) \<Rightarrow> say Q_NEXT s out (Some (dec_text n)))
                  | None \<Rightarrow>
                      (case (if plus then sdb_num_inc s (drop 1 cmd) 1 0 else sdb_num_dec s (drop 1 cmd) 1 0) of
                         (n, s) \<Rightarrow> say Q_NEXT s out (Some (if sdb_num_base v = 16 then hex_text n else dec_text (sint n)))))))"

text \<open>The value of a segment with an \<^verbatim>\<open>=\<close>, as it is stored.\<close>

definition q_value :: "Query \<Rightarrow> string" where
  "q_value q = (case q_val q of None \<Rightarrow> [] | Some v \<Rightarrow> v)"

definition q_stored :: "Query \<Rightarrow> string" where
  "q_stored q = (if q_encode q then encode_text (q_value q) else q_value q)"

text \<open>The part of \<^verbatim>\<open>q_array_pm\<close> for a number or a value after the sign; \<open>- i\<close> overflows for the least \<^verbatim>\<open>int\<close>.\<close>

definition array_pm_index :: "Query \<Rightarrow> sdb \<Rightarrow> strbuf \<Rightarrow> q_result" where
  "array_pm_index q s out =
     (let cmd = q_cmd q; p = q_p q; i = atoi (drop 1 cmd) in
      if i = - (2 ^ 31) then Inl Signed_Overflow
      else if q_eq q \<noteq> None then
        if i < 0 then
          (case sdb_array_get s p (- i) of
             ((None, _), s) \<Rightarrow> Inr (Q_STOP, s, out)
           | ((Some el, _), s) \<Rightarrow>
               (case (if q_encode q then decode_text (Some el) else Some el) of
                  None \<Rightarrow> Inr (Q_STOP, s, out)
                | Some el \<Rightarrow> say Q_NEXT (snd (sdb_array_delete s p (- i) 0)) out (Some el)))
        else if deref (drop 1 cmd) = CHR ''+'' then Inr (Q_NEXT, snd (sdb_array_insert s p i (q_stored q) 0), out)
        else Inr (Q_NEXT, snd (sdb_array_set s p i (q_stored q) 0), out)
      else if i = 0 then
        Inr (Q_NEXT, (if deref (drop 1 cmd) = CHR ''-'' then snd (sdb_array_remove s p (drop 2 cmd) 0) else s), out)
      else
        (case sdb_array_get s p (if i < 0 then - i else i) of
           ((el, _), s) \<Rightarrow>
             (case el of
                None \<Rightarrow> Inr (Q_NEXT, s, out)
              | Some el \<Rightarrow>
                  if el \<noteq> [] then say Q_NEXT (if i < 0 then snd (sdb_array_delete s p (- i) 0) else s) out (Some el)
                  else Inr (Q_NEXT, s, out))))"

definition q_array_pm :: "Query \<Rightarrow> sdb \<Rightarrow> strbuf \<Rightarrow> q_result" where
  "q_array_pm q s out =
     (let c1 = deref (drop 1 (q_cmd q)); c2 = deref (drop 2 (q_cmd q)); p = q_p q in
      if c1 = c2 then
        if q_eq q \<noteq> None \<and> c1 = CHR ''+'' then Inr (Q_NEXT, snd (sdb_array_push s p (q_val q) 0), out)
        else if q_eq q = None \<and> c1 = CHR ''-'' then
          (case sdb_array_pop s p of ((ret, _), s) \<Rightarrow> say Q_NEXT s out ret)
        else Inr (Q_NEXT, s, out)
      else if c2 = NUL then
        if q_eq q \<noteq> None then
          Inr (Q_NEXT, snd (if c1 = CHR ''+'' then sdb_array_add s p (q_value q) 0 else sdb_array_remove s p (q_value q) 0), out)
        else
          let idx = (if c1 = CHR ''+'' then 0 else - 1) in
          (case sdb_array_get s p idx of
             ((ret, _), s) \<Rightarrow> say Q_NEXT (snd (sdb_array_delete s p idx 0)) out ret)
      else array_pm_index q s out)"

text \<open>Separators become line ends, but not a separator at the end.\<close>

fun rs_lines :: "string \<Rightarrow> string" where
  "rs_lines [] = []"
| "rs_lines (c # cs) = (if c = SDB_RS \<and> cs \<noteq> [] then CHR 0x0A else c) # rs_lines cs"

text \<open>A string, decoded when it can be.\<close>

definition decoded :: "bool \<Rightarrow> string option \<Rightarrow> string option" where
  "decoded encode v = (if encode then (case decode_text v of None \<Rightarrow> v | Some d \<Rightarrow> Some d) else v)"

definition q_array :: "Query \<Rightarrow> sdb \<Rightarrow> strbuf \<Rightarrow> q_result" where
  "q_array q s out =
     (let cmd = q_cmd q; p = q_p q; c1 = deref (drop 1 cmd); c2 = deref (drop 2 cmd) in
      if c1 = CHR ''?'' then
        (case sdb_array_length s p of (n, s) \<Rightarrow> say Q_NEXT s out (Some (dec_text (int n))))
      else if c1 = CHR ''!'' then
        Inr (Q_NEXT, (if c2 = CHR ''+'' then snd (sdb_array_add_sorted s p (q_val q) 0) else sdb_array_sort s p 0), out)
      else if c1 = CHR ''#'' then
        Inr (Q_NEXT,
          (if c2 = CHR ''+''
           then snd (sdb_array_add_sorted_num s p (case q_val q of None \<Rightarrow> 0 | Some v \<Rightarrow> sdb_atoi v) 0)
           else sdb_array_sort_num s p 0), out)
      else if c1 = CHR ''+'' \<or> c1 = CHR ''-'' then q_array_pm q s out
      else if q_eq q \<noteq> None then
        Inr (Q_NEXT,
          snd (if c1 \<noteq> NUL then sdb_array_set s p (atoi (drop 1 cmd)) (q_stored q) 0
               else if q_encode q then sdb_set_owned s p (Some (q_stored q)) 0
               else sdb_set s p (Some (q_stored q)) 0), out)
      else if c1 \<noteq> NUL then
        (case sdb_array_get s p (atoi (drop 1 cmd)) of
           ((el, _), s) \<Rightarrow> say Q_NEXT s out (decoded (q_encode q) el))
      else
        (case sdb_const_get s p of
           ((None, _), s) \<Rightarrow> Inr (Q_STOP, s, out)
         | ((Some sval, _), s) \<Rightarrow> say Q_NEXT s out (decoded (q_encode q) (Some (rs_lines sval)))))"

definition rtrim :: "string \<Rightarrow> string" where
  "rtrim s = rev (dropWhile isspace (rev s))"

text \<open>
  \<^verbatim>\<open>q_kv\<close>.  The test \<^verbatim>\<open>json > q->eq\<close> is never true, since the text in which the \<^verbatim>\<open>:\<close> was found ends before \<^verbatim>\<open>eq\<close>.
\<close>

definition q_kv :: "Query \<Rightarrow> sdb \<Rightarrow> strbuf \<Rightarrow> q_result" where
  "q_kv q s out =
     (if q_eq q \<noteq> None then
        (case q_json q of
           Some j \<Rightarrow>
             (case sdb_json_set s (json_key q j) (json_path q j) (Some (q_stored q)) 0 of
                Inl e \<Rightarrow> Inl (Json_Fault e)
              | Inr (_, s) \<Rightarrow> Inr (Q_NEXT, s, out))
         | None \<Rightarrow>
             Inr (Q_NEXT,
               (if q_cmd q \<noteq> [] then snd (sdb_set s (rtrim (q_cmd q)) (Some (dropWhile isspace (q_stored q))) 0) else s),
               out))
      else
        case q_json q of
          Some j \<Rightarrow>
            if json_path q j \<noteq> [] then
              (case sdb_json_get s (json_key q j) (json_path q j) of
                 (Inl e, _, _) \<Rightarrow> Inl (Json_Fault e)
               | (Inr None, _, s) \<Rightarrow> Inr (Q_NEXT, s, out)
               | (Inr (Some js), _, s) \<Rightarrow>
                   (case (if q_encode q then decode_text (Some js) else Some js) of
                      None \<Rightarrow> Inr (Q_STOP, s, out)
                    | Some js \<Rightarrow> say Q_NEXT s out (Some js)))
            else
              (case sdb_const_get s (json_key q j) of
                 ((None, _), s) \<Rightarrow> Inr (Q_NEXT, s, out)
               | ((Some v, _), s) \<Rightarrow>
                   (case sdb_json_indent v ''  '' of
                      Inl e \<Rightarrow> Inl (Json_Fault e)
                    | Inr o' \<Rightarrow> say Q_NEXT s out o'))
        | None \<Rightarrow>
            (case sdb_const_get s (q_cmd q) of
               ((None, _), s) \<Rightarrow> Inr (Q_NEXT, s, out)
             | ((Some v, _), s) \<Rightarrow> say Q_NEXT s out (if q_encode q then decode_text (Some v) else Some v)))"

section \<open>Segments\<close>

text \<open>An operation on the database at a pointer.\<close>

definition on_db :: "world \<Rightarrow> nat \<Rightarrow> (sdb \<Rightarrow> q_fault + 'a \<times> sdb \<times> strbuf) \<Rightarrow> q_fault + 'a \<times> world \<times> strbuf" where
  "on_db w p op =
     (case deref_db (w_f w) p of
        None \<Rightarrow> Inl (Ns_Fault Use_After_Free)
      | Some d \<Rightarrow>
          (case op (n_s d) of
             Inl e \<Rightarrow> Inl e
           | Inr (a, s, out) \<Rightarrow> Inr (a, w\<lparr>w_f := (w_f w)[p := Some (d\<lparr>n_s := s\<rparr>)]\<rparr>, out)))"

definition read_key :: "string \<Rightarrow> strbuf \<Rightarrow> sdb \<Rightarrow> q_fault + string option \<times> sdb \<times> strbuf" where
  "read_key k out s = (case sdb_const_get s k of ((v, _), s) \<Rightarrow> Inr (v, s, out))"

text \<open>
  The loop that looks for the quote at the end of a value: \<open>acc\<close> is the value before \<^verbatim>\<open>quot\<close>, last character first.  The
  result is the value without the escapes and the text after the quote.
\<close>

fun seg_quote :: "string \<Rightarrow> string \<Rightarrow> (string \<times> string) option" where
  "seg_quote acc [] = None"
| "seg_quote acc (c # cs) =
     (if c = CHR 0x22 then
        if acc = [] \<or> hd acc \<noteq> CHR 0x5C then Some (rev acc, cs) else seg_quote (c # tl acc) cs
      else seg_quote (c # acc) cs)"

text \<open>The loop over the names of namespaces before the key.\<close>

function seg_ns :: "forest \<Rightarrow> nat \<Rightarrow> string \<Rightarrow> bool \<Rightarrow> (nat \<times> string) option \<times> forest" where
  "seg_ns f p cmd create =
     (case strchr cmd CHR ''/'' of
        None \<Rightarrow> (Some (p, cmd), f)
      | Some slash \<Rightarrow>
          (case sdb_ns f p (take (length cmd - length slash) cmd) create of
             (None, f) \<Rightarrow> (None, f)
           | (Some p, f) \<Rightarrow> seg_ns f p (tl slash) create))"
  by pat_completeness auto
termination
proof (relation "measure (\<lambda>(f, p, cmd, create). length cmd)", goal_cases)
  case (2 f p cmd create slash)
  then have "slash \<noteq> []" "length slash \<le> length cmd" using strchr_length by blast+
  then show ?case by (cases slash) simp_all
qed simp

declare seg_ns.simps [simp del]

definition SDB_OPTION_FS :: ut32 where
  "SDB_OPTION_FS = 4"

text \<open>\<^verbatim>\<open>sdb_query_file\<close> is passed to the functions that it calls.\<close>

type_synonym query_fn = "world \<Rightarrow> nat \<Rightarrow> string \<Rightarrow> q_fault + bool \<times> world"

text \<open>The end of \<^verbatim>\<open>q_segment\<close>: the command for the first character of the key expression.\<close>

definition q_run :: "query_fn \<Rightarrow> world \<Rightarrow> Query \<Rightarrow> strbuf \<Rightarrow> q_fault + QStatus \<times> world \<times> strbuf" where
  "q_run qfile w q out =
     (let c = deref (q_cmd q) in
      if c = CHR ''.'' then
        (case deref_db (w_f w) (q_s q) of
           None \<Rightarrow> Inl (Ns_Fault Use_After_Free)
         | Some d \<Rightarrow>
             if n_options d AND SDB_OPTION_FS \<noteq> 0 then
               (case qfile w (q_s q) (drop 1 (q_cmd q)) of
                  Inl e \<Rightarrow> Inl e
                | Inr (ok, w) \<Rightarrow> Inr (if ok then Q_NEXT else Q_STOP, w, out))
             else Inr (Q_NEXT, w, out))
      else
        on_db w (q_s q) (\<lambda>s.
          if c = CHR ''~'' then map_sum id (\<lambda>(s, out). (Q_NEXT, s, out)) (q_grep q s out)
          else if c = CHR ''+'' \<or> c = CHR ''-'' then q_incdec q s out
          else if c = CHR ''['' then q_array q s out
          else q_kv q s out))"

text \<open>Types and dumps, which come before; a dump ends the query.\<close>

definition q_early :: "nat \<Rightarrow> world \<Rightarrow> Query \<Rightarrow> strbuf \<Rightarrow> q_fault + bool \<times> world \<times> strbuf" where
  "q_early n w q out =
     (if deref (q_cmd q) = CHR ''?'' then
        (case on_db w (q_s q) (read_key (drop 1 (q_cmd q)) out) of
           Inl e \<Rightarrow> Inl e
         | Inr (v, w, out) \<Rightarrow> map_sum id (\<lambda>out. (False, w, out)) (q_puts out (Some (sdb_type v))))
      else if deref (q_cmd q) = CHR ''*'' then
        map_sum id (\<lambda>(b, f, out). (b, w\<lparr>w_f := f\<rparr>, out)) (q_dump n (w_f w) q out)
      else Inr (False, w, out))"

text \<open>\<^verbatim>\<open>q_segment\<close> after the namespaces: early commands, the split of array keys, indirection.\<close>

definition q_dispatch :: "query_fn \<Rightarrow> nat \<Rightarrow> world \<Rightarrow> Query \<Rightarrow> strbuf \<Rightarrow> q_fault + QStatus \<times> world \<times> strbuf" where
  "q_dispatch qfile n w q out =
     (case q_early n w q out of
        Inl e \<Rightarrow> Inl e
      | Inr (stop, w, out) \<Rightarrow>
          if stop then Inr (Q_STOP, w, out)
          else
            let cmd = q_cmd q;
                q = q\<lparr>q_json := map_option (\<lambda>t. length cmd - length t) (strchr cmd CHR '':''), q_line := cmd, q_own := True\<rparr>
            in if deref cmd = CHR ''['' then
                 (case strchr cmd CHR '']'' of
                    None \<Rightarrow> Inr (Q_STOP, w, out)
                  | Some tp \<Rightarrow> q_run qfile w (q\<lparr>q_cmd := take (length cmd - length tp) cmd, q_p := tl tp\<rparr>) out)
               else if deref cmd = CHR ''$'' then
                 (case on_db w (q_s q) (\<lambda>s. case sdb_get s (drop 1 cmd) of ((nc, _), s) \<Rightarrow> Inr (nc, s, out)) of
                    Inl e \<Rightarrow> Inl e
                  | Inr (nc, w, out) \<Rightarrow>
                      let cmd = (case nc of None \<Rightarrow> [] | Some v \<Rightarrow> v)
                      in q_run qfile w (q\<lparr>q_cmd := cmd, q_p := cmd, q_own := False\<rparr>) out)
               else q_run qfile w q out)"

text \<open>\<^verbatim>\<open>q_segment\<close> from the walk of the namespaces on; \<open>r\<close> is the database of the query.\<close>

definition q_walk ::
  "query_fn \<Rightarrow> nat \<Rightarrow> world \<Rightarrow> nat \<Rightarrow> strbuf \<Rightarrow> bool \<Rightarrow> string \<Rightarrow> string option \<Rightarrow> string option \<Rightarrow>
   q_fault + QStatus \<times> world \<times> strbuf" where
  "q_walk qfile n w r out encode cmd eq val =
     (case seg_ns (w_f w) r cmd (eq \<noteq> None) of
        (None, f) \<Rightarrow> Inr (Q_ERR, w\<lparr>w_f := f\<rparr>, out)
      | (Some (p, cmd), f) \<Rightarrow>
          q_dispatch qfile n (w\<lparr>w_f := f\<rparr>)
            \<lparr>q_s = p, q_encode = encode, q_cmd = cmd, q_p = cmd, q_val = val, q_eq = eq, q_json = None, q_line = cmd, q_own = True\<rparr> out)"

text \<open>
  \<^verbatim>\<open>q_segment\<close>.  The text is cut_at in place in C; here the parts are strings of their own: the key expression, the text at \<^verbatim>\<open>eq\<close>, the
  value, and the text after the \<^verbatim>\<open>;\<close> at \<^verbatim>\<open>next\<close>.
\<close>

definition q_segment ::
  "query_fn \<Rightarrow> nat \<Rightarrow> world \<Rightarrow> nat \<Rightarrow> strbuf \<Rightarrow> string \<Rightarrow> q_fault + QStatus \<times> string option \<times> world \<times> strbuf" where
  "q_segment qfile n w r out cmd0 =
     (let cmd = dropWhile (\<lambda>c. c = CHR '' '' \<or> c = CHR 0x09) cmd0 in
      if deref cmd = CHR ''#'' then
        let (t, next) = cut_at CHR '';'' (tl cmd); d = digs 16 (unat (sdb_hash t)) in
        map_sum id (\<lambda>out. (Q_NEXT, next, w, out)) (put out (''0x'' @ replicate (8 - length d) CHR ''0'' @ d @ [CHR 0x0A]) 1)
      else
        let encode = (deref cmd = CHR ''%''); cmd = (if encode then tl cmd else cmd);
            go = (\<lambda>w key eq val next. map_sum id (\<lambda>(st, w, out). (st, next, w, out)) (q_walk qfile n w r out encode key eq val))
        in case cut_at CHR ''='' cmd of
             (_, None) \<Rightarrow> (let (key, next) = cut_at CHR '';'' cmd in go w key None None next)
           | (key, Some eq) \<Rightarrow>
               if deref eq = CHR ''$'' then
                 let (name, next) = cut_at CHR '';'' (tl eq) in
                 (case on_db w r (read_key name out) of
                    Inl e \<Rightarrow> Inl e
                  | Inr (None, w, out) \<Rightarrow> Inr (Q_STOP, None, w, out)
                  | Inr (Some val, w, out) \<Rightarrow> go w key (Some (CHR ''$'' # name)) (Some val) next)
               else if deref eq = CHR 0x22 then
                 (case seg_quote [] (tl eq) of
                    None \<Rightarrow> Inr (Q_ERR, None, w, out)
                  | Some (val, rest) \<Rightarrow> go w key (Some (CHR 0x22 # val)) (Some val) (snd (cut_at CHR '';'' rest)))
               else
                 let (val, next) = cut_at CHR '';'' eq in go w key (Some val) (Some val) next)"

section \<open>Queries\<close>

lemma cut_at_length:
  assumes "cut_at c s = (a, b)"
  shows "b = Some t \<Longrightarrow> length t < length s"
proof (cases "strchr s c")
  case (Some n)
  assume "b = Some t"
  then have "t = tl n" using assms Some by (simp add: cut_at_def)
  then show ?thesis using strchr_length [OF Some] by (cases n) auto
qed (use assms in \<open>simp add: cut_at_def\<close>)

lemma seg_quote_length: "seg_quote acc s = Some (v, rest) \<Longrightarrow> length rest < length s"
  by (induction acc s rule: seg_quote.induct) (auto split: if_splits)

lemma map_sum_Inr: "map_sum id g x = Inr y \<longleftrightarrow> (\<exists>z. x = Inr z \<and> y = g z)"
  by (cases x) auto

lemma snd_cut_at_length: "snd (cut_at c s) = Some t \<Longrightarrow> length t < length s"
  using cut_at_length [of c s "fst (cut_at c s)" "snd (cut_at c s)" t] by (metis prod.collapse)

text \<open>Every segment that says where the next one is has consumed some of the text.\<close>

lemma q_segment_next:
  assumes "q_segment qfile n w r out cmd = Inr (st, Some rest, w', out')"
  shows "length rest < length cmd"
proof -
  let ?c = "dropWhile (\<lambda>c. c = CHR '' '' \<or> c = CHR 0x09) cmd"
  have len: "length ?c \<le> length cmd" "length (tl ?c) \<le> length cmd" "length (if b then tl ?c else ?c) \<le> length cmd" for b
    using length_dropWhile_le [of _ cmd] le_trans by (auto intro: le_trans [OF diff_le_self])
  show ?thesis
    using assms len unfolding q_segment_def Let_def
    by (auto simp: map_sum_Inr split: if_splits prod.splits option.splits sum.splits
        dest!: cut_at_length [OF _ refl] snd_cut_at_length [OF sym] seg_quote_length)
qed

text \<open>The loop of \<^verbatim>\<open>sdb_querys\<close>.\<close>

function query_loop ::
  "query_fn \<Rightarrow> nat \<Rightarrow> world \<Rightarrow> nat \<Rightarrow> strbuf \<Rightarrow> string \<Rightarrow> q_fault + QStatus \<times> world \<times> strbuf" where
  "query_loop qfile n w r out cmd =
     (case q_segment qfile n w r out cmd of
        Inl e \<Rightarrow> Inl e
      | Inr (st, next, w, out) \<Rightarrow>
          (case (if st = Q_NEXT then next else None) of
             None \<Rightarrow> Inr (st, w, out)
           | Some cmd \<Rightarrow> query_loop qfile n w r out cmd))"
  by pat_completeness auto
termination
  by (relation "measure (\<lambda>(qfile, n, w, r, out, cmd). length cmd)")
    (auto split: if_splits dest: q_segment_next)

declare query_loop.simps [simp del]

text \<open>
  \<^verbatim>\<open>sdb_querys\<close> on a database that is not NULL: the text that is returned.  \<open>buf\<close> is the command when \<open>cmd\<close> is NULL; what is left in
  \<^verbatim>\<open>buf\<close> is not part of the result.
\<close>

definition sdb_querys ::
  "query_fn \<Rightarrow> nat \<Rightarrow> world \<Rightarrow> nat \<Rightarrow> string option \<Rightarrow> string option \<Rightarrow> q_fault + string option \<times> world" where
  "sdb_querys qfile n w r buf cmd =
     (case (case cmd of Some c \<Rightarrow> Some c | None \<Rightarrow> buf) of
        None \<Rightarrow> Inr (None, w)
      | Some c \<Rightarrow>
          (case query_loop qfile n w r strbuf_new c of
             Inl e \<Rightarrow> Inl e
           | Inr (st, w, out) \<Rightarrow> Inr (if st = Q_ERR then None else strbuf_drain out, w)))"

definition sdb_query :: "query_fn \<Rightarrow> nat \<Rightarrow> query_fn" where
  "sdb_query qfile n w r cmd =
     (let must_save = (deref cmd = CHR ''~'' \<or> strchr cmd CHR ''='' \<noteq> None) in
      case sdb_querys qfile n w r None (Some cmd) of
        Inl e \<Rightarrow> Inl e
      | Inr (out, w) \<Rightarrow> Inr (must_save, w\<lparr>w_stdout := w_stdout w @ (case out of None \<Rightarrow> [] | Some t \<Rightarrow> t)\<rparr>))"

text \<open>\<open>formatted\<close> is what \<^verbatim>\<open>sdb_vstrdupf\<close> returns for the format and its arguments.\<close>

definition sdb_queryf :: "query_fn \<Rightarrow> nat \<Rightarrow> world \<Rightarrow> nat \<Rightarrow> string option \<Rightarrow> q_fault + bool \<times> world" where
  "sdb_queryf qfile n w r formatted =
     (case formatted of None \<Rightarrow> Inr (False, w) | Some cmd \<Rightarrow> sdb_query qfile n w r cmd)"

definition sdb_querysf ::
  "query_fn \<Rightarrow> nat \<Rightarrow> world \<Rightarrow> nat \<Rightarrow> string option \<Rightarrow> string option \<Rightarrow> q_fault + string option \<times> world" where
  "sdb_querysf qfile n w r buf formatted =
     (case formatted of None \<Rightarrow> Inr (None, w) | Some cmd \<Rightarrow> sdb_querys qfile n w r buf (Some cmd))"

fun query_all :: "query_fn \<Rightarrow> nat \<Rightarrow> world \<Rightarrow> nat \<Rightarrow> string list \<Rightarrow> q_fault + world" where
  "query_all qfile n w r [] = Inr w"
| "query_all qfile n w r (l # ls) =
     (case sdb_query qfile n w r l of Inl e \<Rightarrow> Inl e | Inr (_, w) \<Rightarrow> query_all qfile n w r ls)"

text \<open>\<^verbatim>\<open>sdb_query_lines\<close> runs the text between line ends, also when it is empty.\<close>

definition sdb_query_lines :: "query_fn \<Rightarrow> nat \<Rightarrow> query_fn" where
  "sdb_query_lines qfile n w r cmd =
     map_sum id (\<lambda>w. (True, w)) (query_all qfile n w r (splitc CHR 0x0A cmd))"

text \<open>\<^verbatim>\<open>slurp\<close>; \<open>files\<close> has the contents of the files that can be read.\<close>

definition slurp :: "files \<Rightarrow> string \<Rightarrow> string option" where
  "slurp files file = (if file = [] then None else map_option cstring (files file))"

text \<open>\<^verbatim>\<open>sdb_query_file\<close>; the fuel bounds the nesting of files that run files, and the depth of dumps.\<close>

primrec sdb_query_file :: "files \<Rightarrow> nat \<Rightarrow> query_fn" where
  "sdb_query_file files 0 = (\<lambda>w r file. Inl No_Fuel)"
| "sdb_query_file files (Suc n) =
     (\<lambda>w r file.
        case slurp files file of
          None \<Rightarrow> Inr (False, w)
        | Some txt \<Rightarrow> sdb_query_lines (sdb_query_file files n) n w r txt)"

section \<open>Segments that set and get a key\<close>

text \<open>Names that have no meaning of their own in a query, and the text of a key in a namespace.\<close>

definition plain_name :: "string \<Rightarrow> bool" where
  "plain_name k \<longleftrightarrow> k \<noteq> [] \<and> set k \<inter> set ''=;/:'' = {} \<and> hd k \<notin> set (CHR 0x09 # '' #%?*[$.~+-'') \<and> \<not> isspace (last k)"

text \<open>Names that can stand at the end of a segment.\<close>

definition seg_name :: "string \<Rightarrow> bool" where
  "seg_name k \<longleftrightarrow> k \<noteq> [] \<and> set k \<inter> set ''=;/'' = {} \<and> hd k \<notin> set (CHR 0x09 # '' #%'')"

definition query_key :: "string list \<Rightarrow> string \<Rightarrow> string" where
  "query_key ps k = concat (map (\<lambda>p. p @ ''/'') ps) @ k"

text \<open>A value as it is written between quotes.\<close>

definition escaped :: "string \<Rightarrow> string" where
  "escaped v = concat (map (\<lambda>c. if c = CHR 0x22 then [CHR 0x5C, c] else [c]) v)"

definition quoted :: "string \<Rightarrow> string" where
  "quoted v = CHR 0x22 # escaped v @ [CHR 0x22]"

lemma cut_at_none [simp]: "c \<notin> set s \<Longrightarrow> cut_at c s = (s, None)"
  using strchr_None [of s c] by (simp add: cut_at_def)

lemma cut_at_sep [simp]: "c \<notin> set s \<Longrightarrow> cut_at c (s @ c # t) = (s, Some t)"
  using strchr_append_sep [of c s t] by (simp add: cut_at_def)

lemma plain_nameD:
  assumes "plain_name k"
  shows "k \<noteq> []" "CHR ''='' \<notin> set k" "CHR '';'' \<notin> set k" "CHR ''/'' \<notin> set k" "CHR '':'' \<notin> set k" "\<not> isspace (last k)"
    "deref k \<notin> set (CHR 0x09 # '' #%?*[$.~+-'')"
  using assms by (auto simp: plain_name_def deref_def split: list.splits)

lemma plain_seg_name: "plain_name k \<Longrightarrow> seg_name k"
  by (auto simp: plain_name_def seg_name_def)

lemma seg_nameD:
  assumes "seg_name k"
  shows "k \<noteq> []" "CHR ''='' \<notin> set k" "CHR '';'' \<notin> set k" "CHR ''/'' \<notin> set k" "deref (k @ x) \<notin> set (CHR 0x09 # '' #%'')"
  using assms by (cases k; auto simp: seg_name_def deref_def)+

lemma query_key_simps [simp]: "query_key [] k = k" "query_key (p # ps) k = p @ CHR ''/'' # query_key ps k"
  by (simp_all add: query_key_def)

lemma query_key_seg:
  assumes "\<forall>p \<in> set ps. plain_name p" "seg_name k"
  shows "CHR ''='' \<notin> set (query_key ps k)" "CHR '';'' \<notin> set (query_key ps k)" "query_key ps k \<noteq> []"
    "deref (query_key ps k @ x) \<notin> set (CHR 0x09 # '' #%'')"
proof -
  show "CHR ''='' \<notin> set (query_key ps k)" "CHR '';'' \<notin> set (query_key ps k)" "query_key ps k \<noteq> []"
    using assms by (auto simp: query_key_def dest: plain_nameD seg_nameD)
  show "deref (query_key ps k @ x) \<notin> set (CHR 0x09 # '' #%'')"
    using assms seg_nameD(5) [OF plain_seg_name, of "hd ps"] seg_nameD(5) [OF assms(2)] by (cases ps) auto
qed

lemma seg_quote_escaped:
  "(if v = [] then acc = [] \<or> hd acc \<noteq> CHR 0x5C else last v \<noteq> CHR 0x5C) \<Longrightarrow>
   seg_quote acc (escaped v @ CHR 0x22 # rest) = Some (rev acc @ v, rest)"
proof (induction v arbitrary: acc)
  case (Cons c v)
  then show ?case using Cons.IH [of "c # acc"] by (auto simp: escaped_def split: if_splits)
qed (simp add: escaped_def)

text \<open>The walk of \<^verbatim>\<open>q_segment\<close> is the walk of \<^verbatim>\<open>sdb_ns_path\<close>.\<close>

lemma seg_ns_path:
  assumes "\<forall>p \<in> set ps. CHR ''/'' \<notin> set p" "CHR ''/'' \<notin> set k"
  shows "seg_ns f r (query_key ps k) c =
    (case ns_walk f r ps c of (None, f) \<Rightarrow> (None, f) | (Some p, f) \<Rightarrow> (Some (p, k), f))"
  using assms
proof (induction ps arbitrary: f r)
  case Nil
  then show ?case using strchr_None [of k "CHR ''/''"] by (subst seg_ns.simps) simp
next
  case (Cons p ps)
  then show ?case by (subst seg_ns.simps) (auto simp: strchr_append_sep split: prod.splits option.splits)
qed

lemma ns_walk_lookup: "snd (ns_walk f r ps False) = f"
proof (induction ps arbitrary: r)
  case (Cons x ps)
  have "snd (sdb_ns f r x False) = f" for r by (auto simp: sdb_ns_def Let_def split: option.splits)
  then show ?case using Cons.IH by (auto split: prod.splits option.splits) (metis snd_conv)+
qed simp

lemma sdb_ns_upd:
  assumes "deref_db f p = Some d"
  shows "fst (sdb_ns (f[p := Some (d\<lparr>n_s := s\<rparr>)]) r x False) = fst (sdb_ns f r x False)"
  using assms deref_Some [OF assms] by (auto simp: sdb_ns_def Let_def ns_list_def split: option.splits)

lemma ns_walk_upd:
  assumes "deref_db f p = Some d"
  shows "fst (ns_walk (f[p := Some (d\<lparr>n_s := s\<rparr>)]) r ps False) = fst (ns_walk f r ps False)"
proof (induction ps arbitrary: r)
  case (Cons x ps)
  have look: "snd (sdb_ns g r x False) = g" for g by (auto simp: sdb_ns_def Let_def split: option.splits)
  have e: "ns_walk g r (x # ps) False = (case fst (sdb_ns g r x False) of None \<Rightarrow> (None, g) | Some q \<Rightarrow> ns_walk g q ps False)" for g
    using look [of g] by (auto split: prod.splits option.splits)
  show ?case unfolding e sdb_ns_upd [OF assms] using Cons.IH by (simp split: option.splits)
qed simp

lemma out_put_ok:
  assumes "sb_inv out" "sb_fits (length (sb_text out) + length s)"
  obtains out' where "put out s 1 = Inr out'" "sb_inv out'" "sb_text out' = sb_text out @ s @ [CHR 0x0A]" "sb_buf out' \<noteq> None"
  using strbuf_append_ok [OF assms(1) _ assms(2), of 1] by (auto simp: put_def)

lemma q_puts_ok:
  assumes "sb_inv out" "s \<noteq> []" "sb_fits (length (sb_text out) + length s)"
  obtains out' where "q_puts out (Some s) = Inr out'" "sb_inv out'" "sb_text out' = sb_text out @ s @ [CHR 0x0A]" "sb_buf out' \<noteq> None"
  using out_put_ok [OF assms(1,3)] assms(2) by (auto simp: q_puts_def)

text \<open>The query that a plain key makes.\<close>

abbreviation plain_query :: "nat \<Rightarrow> bool \<Rightarrow> string \<Rightarrow> string option \<Rightarrow> string option \<Rightarrow> Query" where
  "plain_query p enc k eq val \<equiv>
     \<lparr>q_s = p, q_encode = enc, q_cmd = k, q_p = k, q_val = val, q_eq = eq, q_json = None, q_line = k, q_own = True\<rparr>"

lemma q_walk_plain:
  assumes "\<forall>p \<in> set ps. plain_name p" "plain_name k" "ns_walk (w_f w) r ps (eq \<noteq> None) = (Some p, f)"
  shows "q_walk qfile n w r out enc (query_key ps k) eq val = on_db (w\<lparr>w_f := f\<rparr>) p (\<lambda>s. q_kv (plain_query p enc k eq val) s out)"
proof -
  have "seg_ns (w_f w) r (query_key ps k) (eq \<noteq> None) = (Some (p, k), f)"
    using seg_ns_path [of ps k "w_f w" r "eq \<noteq> None"] assms plain_nameD(4) by auto
  moreover have "strchr k CHR '':'' = None" using plain_nameD(5) [OF assms(2)] strchr_None by simp
  moreover have "\<not> isspace (last k)" "deref k \<notin> set (CHR 0x09 # '' #%?*[$.~+-'')" using plain_nameD [OF assms(2)] by auto
  ultimately show ?thesis by (simp add: q_walk_def q_dispatch_def q_early_def q_run_def)
qed

lemma skip_blanks: "deref s \<notin> set (CHR 0x09 # '' #%'') \<Longrightarrow> dropWhile (\<lambda>c. c = CHR '' '' \<or> c = CHR 0x09) s = s"
  by (cases s) (auto simp: deref_def)

definition enc_mark :: "bool \<Rightarrow> string" where
  "enc_mark enc = (if enc then ''%'' else [])"

text \<open>A segment without \<^verbatim>\<open>=\<close>, the last one, and one with a quoted value, followed by another.\<close>

lemma q_segment_get:
  assumes "\<forall>p \<in> set ps. plain_name p" "seg_name k"
  shows "q_segment qfile n w r out (enc_mark enc @ query_key ps k) =
    map_sum id (\<lambda>(st, w, out). (st, None, w, out)) (q_walk qfile n w r out enc (query_key ps k) None None)"
proof -
  note t = query_key_seg [OF assms]
  have d: "deref (query_key ps k) \<notin> set (CHR 0x09 # '' #%'')" using t(4) [of "[]"] by simp
  show ?thesis
    using t d skip_blanks [OF d]
    by (cases enc) (simp_all add: q_segment_def enc_mark_def Let_def deref_def)
qed

lemma q_segment_set:
  assumes "\<forall>p \<in> set ps. plain_name p" "plain_name k" "v \<noteq> []" "last v \<noteq> CHR 0x5C"
  shows "q_segment qfile n w r out (enc_mark enc @ query_key ps k @ CHR ''='' # quoted v @ CHR '';'' # rest) =
    map_sum id (\<lambda>(st, w, out). (st, Some rest, w, out))
      (q_walk qfile n w r out enc (query_key ps k) (Some (CHR 0x22 # v)) (Some v))"
proof -
  note t = query_key_seg [OF assms(1) plain_seg_name [OF assms(2)]]
  let ?x = "CHR ''='' # quoted v @ CHR '';'' # rest"
  have c: "cut_at CHR ''='' (query_key ps k @ ?x) = (query_key ps k, Some (quoted v @ CHR '';'' # rest))" using t(1) by simp
  have q: "deref (quoted v @ y) = CHR 0x22" "tl (quoted v @ y) = escaped v @ CHR 0x22 # y" for y
    by (simp_all add: quoted_def deref_def)
  have s: "seg_quote [] (escaped v @ CHR 0x22 # CHR '';'' # rest) = Some (v, CHR '';'' # rest)"
    using seg_quote_escaped [of v "[]" "CHR '';'' # rest"] assms(3,4) by simp
  have m: "cut_at CHR '';'' (CHR '';'' # rest) = ([], Some rest)" using cut_at_sep [of "CHR '';''" "[]" rest] by simp
  have d: "deref (query_key ps k @ ?x) \<notin> set (CHR 0x09 # '' #%'')" by (rule t(4))
  show ?thesis
    using skip_blanks [OF d] d c q s m by (cases enc) (simp_all add: q_segment_def enc_mark_def Let_def deref_def)
qed

section \<open>Encoded values\<close>

lemma unat_byte: "unat (of_char c :: ut8) = of_char c"
  using of_char_lt_256 [of c] by (subst of_nat_of_char [symmetric]) (simp add: unat_of_nat)

lemma byte_zero: "(of_char c :: ut8) = 0 \<longleftrightarrow> c = NUL"
proof -
  have "(of_char c :: ut8) = 0 \<longleftrightarrow> unat (of_char c :: ut8) = 0" by (simp add: unat_eq_zero)
  then have "(of_char c :: ut8) = 0 \<longleftrightarrow> (of_char c :: nat) = of_char NUL" unfolding unat_byte by simp
  then show ?thesis unfolding of_char_nat_inject .
qed

lemma encode_text_ok:
  assumes "v \<noteq> []" "nonul v" "length v < 2 ^ 28"
  shows "decode_text (Some (encode_text v)) = Some v" "encode_text v \<noteq> []" "\<not> isspace (hd (encode_text v))"
proof -
  let ?b = "map of_char v :: ut8 list"
  have tw: "takeWhile (\<lambda>b. b \<noteq> 0) ?b = ?b" using assms(2) by (auto simp: takeWhile_eq_all_conv byte_zero nonul_def)
  have e: "encode_text v = sdb_encode_raw ?b" "sdb_encode ?b (int (length ?b)) = sdb_encode_raw ?b"
    unfolding encode_text_def sdb_encode_def tw using assms(1) by simp_all
  have "sdb_decode (encode_text v) = Some ?b" using decode_encode [of ?b] assms e by simp
  moreover have "cstring (map (\<lambda>x. char_of (unat x)) ?b) = v"
    using assms(2) by (auto simp: comp_def unat_byte cstring_def takeWhile_eq_all_conv nonul_def)
  ultimately show "decode_text (Some (encode_text v)) = Some v" by (simp add: decode_text_def)
  define l where "l = (if length ?b > 3 then 3 else length ?b)"
  have "1 \<le> l" using assms(1) by (cases v) (auto simp: l_def)
  then obtain t where "sdb_b64_encode ?b l = b64_char (drop_bit 2 (?b ! 0)) # t" by (simp add: sdb_b64_encode_def Let_def)
  moreover have "encode_text v = sdb_b64_encode ?b l @ sdb_encode_raw (drop 3 ?b)"
    unfolding e l_def using assms(1) by (subst sdb_encode_raw.simps) simp
  ultimately have h: "encode_text v = b64_char (drop_bit 2 (?b ! 0)) # t @ sdb_encode_raw (drop 3 ?b)" by simp
  then show "encode_text v \<noteq> []" by simp
  have "43 \<le> (of_char (b64_char (drop_bit 2 (?b ! 0))) :: nat)"
    by (rule b64_char_decode(1) [OF six_bits]) (auto simp: bit_simps dest: bit_imp_le_length)
  then show "\<not> isspace (hd (encode_text v))" using h by (auto simp: isspace_def)
qed

section \<open>Setting and getting\<close>

text \<open>A segment that sets a key, and one that gets it, on the database that the path leads to.\<close>

lemma set_segment:
  assumes "\<forall>p \<in> set ps. plain_name p" "plain_name k" "v \<noteq> []" "last v \<noteq> CHR 0x5C"
    "ns_walk (w_f w) r ps True = (Some p, f)" "deref_db f p = Some d"
  shows "q_segment qfile n w r out (enc_mark enc @ query_key ps k @ CHR ''='' # quoted v @ CHR '';'' # rest) =
    Inr (Q_NEXT, Some rest, w\<lparr>w_f := f[p := Some (d\<lparr>n_s :=
      snd (sdb_set (n_s d) k (Some (dropWhile isspace (if enc then encode_text v else v))) 0)\<rparr>)]\<rparr>, out)"
proof -
  have "rtrim k = k" using plain_nameD(1,6) [OF assms(2)] by (cases k rule: rev_cases) (auto simp: rtrim_def)
  then have "q_kv (plain_query p enc k (Some e) (Some v)) s out =
      Inr (Q_NEXT, snd (sdb_set s k (Some (dropWhile isspace (if enc then encode_text v else v))) 0), out)" for e s
    using plain_nameD(1) [OF assms(2)] by (simp add: q_kv_def q_stored_def q_value_def)
  then show ?thesis
    using q_walk_plain [OF assms(1,2), of w r "Some (CHR 0x22 # v)" p f] assms(5,6)
    by (simp add: q_segment_set [OF assms(1-4)] on_db_def)
qed

lemma get_segment:
  assumes "\<forall>p \<in> set ps. plain_name p" "plain_name k" "ns_walk (w_f w) r ps False = (Some p, f)"
    "deref_db f p = Some d" "mem_inv (n_s d)" "mem_view (n_s d) k = Some x"
    "v \<noteq> []" "(if enc then decode_text (Some x) else Some x) = Some v" "sb_inv out" "sb_fits (length (sb_text out) + length v)"
  obtains out' where "q_segment qfile n w r out (enc_mark enc @ query_key ps k) = Inr (Q_NEXT, None, w\<lparr>w_f := f\<rparr>, out')"
    "sb_inv out'" "sb_text out' = sb_text out @ v @ [CHR 0x0A]" "sb_buf out' \<noteq> None"
proof -
  obtain out' where o: "q_puts out (Some v) = Inr out'" "sb_inv out'" "sb_text out' = sb_text out @ v @ [CHR 0x0A]" "sb_buf out' \<noteq> None"
    using q_puts_ok [OF assms(9,7,10)] by blast
  have "fst (fst (sdb_const_get (n_s d) k)) = Some x" "snd (sdb_const_get (n_s d) k) = n_s d"
    using const_get_mem [OF assms(5)] assms(6) by simp_all
  then obtain cas where g: "sdb_const_get (n_s d) k = ((Some x, cas), n_s d)" by (metis prod.collapse)
  have "q_kv (plain_query p enc k None None) (n_s d) out = Inr (Q_NEXT, n_s d, out')"
    using g o(1) assms(8) by (simp add: q_kv_def say_def)
  moreover have "f[p := Some d] = f" using deref_Some [OF assms(4)] by (metis list_update_id)
  ultimately have "q_segment qfile n w r out (enc_mark enc @ query_key ps k) = Inr (Q_NEXT, None, w\<lparr>w_f := f\<rparr>, out')"
    using q_walk_plain [OF assms(1,2), of w r None p f] assms(3,4) by (simp add: q_segment_get [OF assms(1) plain_seg_name [OF assms(2)]] on_db_def)
  then show ?thesis using that o by blast
qed

text \<open>Both in one query, in a namespace that may be new.\<close>

lemma set_get_query:
  assumes "forest_wf (w_f w)" "ns_open (w_f w)" "deref_db (w_f w) r \<noteq> None"
    "\<forall>p \<in> set ps. plain_name p" "plain_name k" "v \<noteq> []" "last v \<noteq> CHR 0x5C" "nonul v"
    "ns_walk (w_f w) r ps True = (Some p, f)" "deref_db f p = Some d" "mem_ready (n_s d) k"
    "x = (if enc then encode_text v else v)" "x \<noteq> []" "\<not> isspace (hd x)" "length x < SDB_VSZ"
    "(if enc then decode_text (Some x) else Some x) = Some v" "sb_fits (length v)"
  shows "\<exists>s. sdb_querys qfile n w r buf (Some (enc_mark enc @ query_key ps k @ CHR ''='' # quoted v @ CHR '';'' # enc_mark enc @ query_key ps k))
      = Inr (Some (v @ [CHR 0x0A]), w\<lparr>w_f := f[p := Some (d\<lparr>n_s := s\<rparr>)]\<rparr>)
     \<and> mem_view s = (mem_view (n_s d))(k \<mapsto> x) \<and> mem_inv s"
proof -
  define s where "s = snd (sdb_set (n_s d) k (Some x) 0)"
  have v: "mem_view s = (mem_view (n_s d))(k \<mapsto> x)" "mem_inv s"
    using set_ready(1,2) [OF assms(11,15)] assms(13) by (simp_all add: s_def put_spec_def)
  let ?f = "f[p := Some (d\<lparr>n_s := s\<rparr>)]"
  have 1: "q_segment qfile n w r strbuf_new (enc_mark enc @ query_key ps k @ CHR ''='' # quoted v @ CHR '';'' # enc_mark enc @ query_key ps k)
      = Inr (Q_NEXT, Some (enc_mark enc @ query_key ps k), w\<lparr>w_f := ?f\<rparr>, strbuf_new)"
  proof -
    have "dropWhile isspace x = x" using assms(13,14) by (cases x) auto
    then show ?thesis
      using set_segment [OF assms(4-7,9,10), of qfile n strbuf_new enc] unfolding assms(12) [symmetric] by (simp add: s_def)
  qed
  have "ns_walk f r ps False = (Some p, f)" using ns_walk_create [OF assms(1-3,9)] by blast
  then have nw: "ns_walk ?f r ps False = (Some p, ?f)"
    using ns_walk_upd [OF assms(10), of s r ps] ns_walk_lookup [of ?f r ps] by (metis fst_conv prod.collapse)
  have dr: "deref_db ?f p = Some (d\<lparr>n_s := s\<rparr>)" using deref_Some [OF assms(10)] by simp
  obtain out where o: "q_segment qfile n (w\<lparr>w_f := ?f\<rparr>) r strbuf_new (enc_mark enc @ query_key ps k)
      = Inr (Q_NEXT, None, w\<lparr>w_f := ?f\<rparr>, out)" "sb_inv out" "sb_text out = v @ [CHR 0x0A]" "sb_buf out \<noteq> None"
    by (rule get_segment [OF assms(4,5), of "w\<lparr>w_f := ?f\<rparr>" r p ?f "d\<lparr>n_s := s\<rparr>" x v enc strbuf_new qfile n])
      (use v nw dr assms(6,16,17) in auto)
  have "strbuf_drain out = Some (v @ [CHR 0x0A])" using strbuf_drain_text [OF o(2)] o(3,4) assms(8) by (simp add: nonul_def)
  then have "sdb_querys qfile n w r buf (Some (enc_mark enc @ query_key ps k @ CHR ''='' # quoted v @ CHR '';'' # enc_mark enc @ query_key ps k))
      = Inr (Some (v @ [CHR 0x0A]), w\<lparr>w_f := ?f\<rparr>)"
    using 1 o(1) by (simp add: sdb_querys_def query_loop.simps)
  then show ?thesis using v by blast
qed

text \<open>
  C15.  A query writes a value and reads it back: for a key in a namespace at any depth, which may be new, the command
  \<^verbatim>\<open>path/key="value";path/key\<close> returns the value and a line end; the database at the path has the value under the key and
  nothing else is changed.  The value may contain separators, equal signs and quotes; each quote is written with a backslash.  It
  does not begin with a space, which would be dropped (\<open>query_quoted_space\<close>), and does not end with a backslash.
\<close>

theorem query_set_get:
  assumes "forest_wf (w_f w)" "ns_open (w_f w)" "deref_db (w_f w) r \<noteq> None"
    and "\<forall>p \<in> set ps. plain_name p" "plain_name k"
    and "v \<noteq> []" "\<not> isspace (hd v)" "last v \<noteq> CHR 0x5C" "nonul v" "length v < SDB_VSZ"
    and "ns_walk (w_f w) r ps True = (Some p, f)" "deref_db f p = Some d" "mem_ready (n_s d) k"
  shows "\<exists>s. sdb_querys qfile n w r buf (Some (query_key ps k @ CHR ''='' # quoted v @ CHR '';'' # query_key ps k))
      = Inr (Some (v @ [CHR 0x0A]), w\<lparr>w_f := f[p := Some (d\<lparr>n_s := s\<rparr>)]\<rparr>)
     \<and> mem_view s = (mem_view (n_s d))(k \<mapsto> v)"
  using set_get_query [OF assms(1-5,6,8,9,11-13), of v False qfile n buf] assms(6,7,10)
  by (auto simp: enc_mark_def sb_fits_def SDB_VSZ_def)

definition query_world :: world where
  "query_world = \<lparr>w_f = example_forest, w_stdout = []\<rparr>"

lemma example_walk:
  obtains f d where "ns_walk example_forest 0 [''a''] True = (Some 2, f)" "deref_db f 2 = Some d" "n_s d = sdb_new0 0"
proof -
  have "deref_db (snd (ns_walk example_forest 0 [''a''] True)) 2 \<noteq> None"
    "n_s (the (deref_db (snd (ns_walk example_forest 0 [''a''] True)) 2)) = sdb_new0 0"
    "fst (ns_walk example_forest 0 [''a''] True) = Some 2"
    by (simp_all add: example_forest_def sdb_ns_def deref_db_def blank_node_def ns_list_def sdb_ns_new_def Let_def sdb_new0_def)
  then show ?thesis using that by (metis option.exhaust_sel prod.collapse)
qed

lemma example_plain: "\<forall>p \<in> set [''a'']. plain_name p" "plain_name ''k''"
  by (simp_all add: plain_name_def isspace_def)

theorem query_set_get_witness:
  "\<exists>w. sdb_querys (\<lambda>w r f. Inl No_Fuel) 0 query_world 0 None
     (Some (''a/k='' @ [CHR 0x22, CHR ''x'', CHR 0x5C, CHR 0x22, CHR '';'', CHR ''y'', CHR 0x22] @ '';a/k''))
     = Inr (Some [CHR ''x'', CHR 0x22, CHR '';'', CHR ''y'', CHR 0x0A], w)"
proof -
  obtain f d where f: "ns_walk example_forest 0 [''a''] True = (Some 2, f)" "deref_db f 2 = Some d" "n_s d = sdb_new0 0"
    by (rule example_walk)
  have "mem_ready (n_s d) ''k''" unfolding f(3) using sdb_new0_ok by (simp add: mem_ready_def SDB_KSZ_def)
  with query_set_get [of query_world 0 "[''a'']" "''k''" "[CHR ''x'', CHR 0x22, CHR '';'', CHR ''y'']" 2 f d "\<lambda>w r f. Inl No_Fuel" 0 None]
    example_forest_ok(1,2,5) example_plain f
  show ?thesis
    by (auto simp: query_world_def isspace_def nonul_def SDB_VSZ_def quoted_def escaped_def)
qed

text \<open>
  With the mark \<^verbatim>\<open>%\<close> the value is stored in base 64 and decoded when it is read; it may begin with spaces.
\<close>

theorem query_encoded_set_get:
  assumes "forest_wf (w_f w)" "ns_open (w_f w)" "deref_db (w_f w) r \<noteq> None"
    and "\<forall>p \<in> set ps. plain_name p" "plain_name k"
    and "v \<noteq> []" "last v \<noteq> CHR 0x5C" "nonul v" "length v < 2 ^ 28" "length (encode_text v) < SDB_VSZ"
    and "ns_walk (w_f w) r ps True = (Some p, f)" "deref_db f p = Some d" "mem_ready (n_s d) k"
  shows "\<exists>s. sdb_querys qfile n w r buf (Some (CHR ''%'' # query_key ps k @ CHR ''='' # quoted v @ CHR '';'' # CHR ''%'' # query_key ps k))
      = Inr (Some (v @ [CHR 0x0A]), w\<lparr>w_f := f[p := Some (d\<lparr>n_s := s\<rparr>)]\<rparr>)
     \<and> mem_view s = (mem_view (n_s d))(k \<mapsto> encode_text v)"
  using set_get_query [OF assms(1-8,11-13), of "encode_text v" True qfile n buf] encode_text_ok [OF assms(6,8,9)] assms(9,10)
  by (auto simp: enc_mark_def sb_fits_def)

theorem query_encoded_set_get_witness:
  "\<exists>w. sdb_querys (\<lambda>w r f. Inl No_Fuel) 0 query_world 0 None
     (Some (''%a/k='' @ [CHR 0x22, CHR '' '', CHR ''x'', CHR 0x22] @ '';%a/k'')) = Inr (Some ('' x'' @ [CHR 0x0A]), w)"
proof -
  obtain f d where f: "ns_walk example_forest 0 [''a''] True = (Some 2, f)" "deref_db f 2 = Some d" "n_s d = sdb_new0 0"
    by (rule example_walk)
  have "mem_ready (n_s d) ''k''" unfolding f(3) using sdb_new0_ok by (simp add: mem_ready_def SDB_KSZ_def)
  moreover have "length (encode_text '' x'') < SDB_VSZ"
    by (simp add: encode_text_def sdb_encode_def encode_raw_length byte_zero SDB_VSZ_def del: of_char_Char)
  ultimately show ?thesis
    using query_encoded_set_get [of query_world 0 "[''a'']" "''k''" "'' x''" 2 f d "\<lambda>w r f. Inl No_Fuel" 0 None]
      example_forest_ok(1,2,5) example_plain f
    by (auto simp: query_world_def nonul_def quoted_def escaped_def)
qed

section \<open>What dumps print\<close>

text \<open>The line of an entry.\<close>

definition entry_line :: "string option \<Rightarrow> bool \<Rightarrow> string \<times> string \<Rightarrow> string" where
  "entry_line root encode kv =
     (case root of None \<Rightarrow> [] | Some r \<Rightarrow> r @ ''/'') @ fst kv @ CHR ''='' # the (decoded encode (Some (snd kv))) @ [CHR 0x0A]"

text \<open>Output that only grows.\<close>

definition grown :: "strbuf \<Rightarrow> string \<Rightarrow> strbuf \<Rightarrow> bool" where
  "grown out t out' \<longleftrightarrow> sb_inv out' \<and> sb_text out' = sb_text out @ t \<and> (t \<noteq> [] \<or> sb_buf out \<noteq> None \<longrightarrow> sb_buf out' \<noteq> None)"

lemma grown_refl: "sb_inv out \<Longrightarrow> grown out [] out"
  by (simp add: grown_def)

lemma grown_trans: "grown a s b \<Longrightarrow> grown b t c \<Longrightarrow> grown a (s @ t) c"
  by (auto simp: grown_def)

lemma grown_fits: "grown out s out' \<Longrightarrow> sb_fits (length (sb_text out) + length (s @ t)) \<Longrightarrow> sb_fits (length (sb_text out') + length t)"
  by (simp add: grown_def add.assoc)

lemma fits_prefix: "sb_fits (n + length (s @ t)) \<Longrightarrow> sb_fits (n + length s)"
  by (erule sb_fits_mono) simp

lemma list_cb_ok:
  assumes "sb_inv out" "sb_fits (length (sb_text out) + length (entry_line root encode (k, v)))"
  obtains out' where "foreach_list_cb root encode k (Some v) (Inr out) = (True, Inr out')" "grown out (entry_line root encode (k, v)) out'"
proof -
  obtain x where x: "decoded encode (Some v) = Some x" by (cases encode; cases "decode_text (Some v)") (auto simp: decoded_def)
  then have d: "(case (if encode then decode_text (Some v) else None) of None \<Rightarrow> Some v | Some v2 \<Rightarrow> Some v2) = Some x"
    by (auto simp: decoded_def split: if_splits option.splits)
  obtain out' where o: "put out ((case root of None \<Rightarrow> [] | Some r \<Rightarrow> r @ ''/'') @ k @ CHR ''='' # x) 1 = Inr out'"
    "sb_inv out'" "sb_text out' = sb_text out @ entry_line root encode (k, v)" "sb_buf out' \<noteq> None"
    using out_put_ok [OF assms(1), of "(case root of None \<Rightarrow> [] | Some r \<Rightarrow> r @ ''/'') @ k @ CHR ''='' # x"]
      sb_fits_mono [OF assms(2)] x by (auto simp: entry_line_def)
  have "foreach_list_cb root encode k (Some v) (Inr out) = (True, Inr out')"
    using o(1) unfolding foreach_list_cb_def sum.case d by (cases root) (simp_all add: Let_def)
  then show ?thesis using that o by (simp add: grown_def)
qed

lemma dump_entries_ok:
  assumes "sb_inv out" "sb_fits (length (sb_text out) + length (concat (map (entry_line None encode) kvs)))"
  shows "\<exists>out'. dump_entries encode (map (\<lambda>(k, v). (k, Some v)) kvs) out = Inr out' \<and> grown out (concat (map (entry_line None encode) kvs)) out'"
  using assms
proof (induction kvs arbitrary: out)
  case (Cons kv kvs)
  have fits: "sb_fits (length (sb_text out) + length (entry_line None encode kv @ concat (map (entry_line None encode) kvs)))"
    using Cons.prems(2) by simp
  obtain out1 where 1: "foreach_list_cb None encode (fst kv) (Some (snd kv)) (Inr out) = (True, Inr out1)"
    "grown out (entry_line None encode kv) out1"
    using list_cb_ok [OF Cons.prems(1), of None encode "fst kv" "snd kv"] fits_prefix [OF fits] by auto
  then have "sb_inv out1" "sb_fits (length (sb_text out1) + length (concat (map (entry_line None encode) kvs)))"
    using grown_fits [OF _ fits] by (simp_all add: grown_def)
  from Cons.IH [OF this] 1 show ?case by (auto simp: case_prod_beta intro: grown_trans)
qed (simp add: grown_refl)

lemma walk_list_ok:
  assumes "sb_inv out" "sb_fits (length (sb_text out) + length (concat (map (entry_line root encode) kvs)))"
  shows "\<exists>out'. walk_list (foreach_list_cb root encode) kvs (Inr out) = (True, Inr out') \<and> grown out (concat (map (entry_line root encode) kvs)) out'"
  using assms
proof (induction kvs arbitrary: out)
  case (Cons kv kvs)
  have fits: "sb_fits (length (sb_text out) + length (entry_line root encode kv @ concat (map (entry_line root encode) kvs)))"
    using Cons.prems(2) by simp
  obtain out1 where 1: "foreach_list_cb root encode (fst kv) (Some (snd kv)) (Inr out) = (True, Inr out1)"
    "grown out (entry_line root encode kv) out1"
    using list_cb_ok [OF Cons.prems(1), of root encode "fst kv" "snd kv"] fits_prefix [OF fits] by auto
  then have "sb_inv out1" "sb_fits (length (sb_text out1) + length (concat (map (entry_line root encode) kvs)))"
    using grown_fits [OF _ fits] by (simp_all add: grown_def)
  from Cons.IH [OF this] 1 show ?case by (cases kv) (auto intro: grown_trans)
qed (simp add: grown_refl)

text \<open>The sorted list of the entries of a database in memory.\<close>

lemma sorted_entries:
  assumes "mem_inv s"
  obtains hl kvs where "sdb_foreach_list empty_heap s True = (hl, s\<lparr>s_pos := 0\<rparr>)" "ls_data hl = map (\<lambda>(k, v). (k, Some v)) kvs"
    "distinct (map fst kvs)" "map_of kvs = mem_view s" "sorted_wrt (\<lambda>a b. strcmp (fst a) (fst b) \<le> 0) kvs"
proof -
  obtain h l s' where r: "sdb_foreach_list empty_heap s True = ((h, l), s')" by (metis prod.collapse)
  obtain as kvs where k: "ls_inv h l as" "map (hp_data h) as = map (\<lambda>(k, v). Some (k, Some v)) kvs" "distinct (map fst kvs)"
    "map_of kvs = mem_view s" "sorted_wrt (\<lambda>a b. strcmp (fst a) (fst b) \<le> 0) kvs"
    using foreach_list_kvs [OF assms r] by blast
  have "None \<notin> set (contents h as)" unfolding contents_def k(2) by auto
  then have "ls_iters h (l_head l) = as" using iters_all [OF k(1)] by blast
  then have "ls_data (h, l) = map (\<lambda>(k, v). (k, Some v)) kvs"
    using arg_cong [OF k(2), of "map the"] by (simp add: ls_data_def comp_def case_prod_beta)
  moreover have "s' = s\<lparr>s_pos := 0\<rparr>" using r by (auto simp: sdb_foreach_list_def foreach_mem [OF assms] split: prod.splits if_splits)
  ultimately show ?thesis using that r k(3-5) by blast
qed

lemma dump_size:
  assumes "distinct (map fst kvs)" "map_of kvs = m"
  shows "length (concat (map (\<lambda>(k, v). k @ CHR ''='' # v @ [CHR 0x0A]) kvs)) = (\<Sum>k \<in> dom m. length k + length (the (m k)) + 2)"
proof -
  have "length (concat (map (\<lambda>(k, v). k @ CHR ''='' # v @ [CHR 0x0A]) kvs)) = (\<Sum>kv \<leftarrow> kvs. length (fst kv) + length (snd kv) + 2)"
    by (simp add: length_concat comp_def case_prod_beta)
  also have "\<dots> = (\<Sum>k \<leftarrow> map fst kvs. length k + length (the (m k)) + 2)"
    using map_of_is_SomeI [OF assms(1)] assms(2) by (auto intro!: arg_cong [where f = sum_list])
  also have "\<dots> = (\<Sum>k \<in> dom m. length k + length (the (m k)) + 2)"
    using sum.distinct_set_conv_list [OF assms(1)] dom_map_of_conv_image_fst [of kvs] assms(2) by (metis (no_types) set_map)
  finally show ?thesis .
qed

text \<open>
  C17.  The command \<^verbatim>\<open>*\<close> on a database in memory returns a line \<^verbatim>\<open>key=value\<close> for every key that has a value, in the order of
  the keys, when the lines have at most \<open>2\<^sup>3\<^sup>0 - 130\<close> bytes together.
\<close>

theorem query_dump:
  assumes "deref_db (w_f w) r = Some d" "mem_inv (n_s d)" "mem_view (n_s d) \<noteq> Map.empty"
    and "\<forall>k v. mem_view (n_s d) k = Some v \<longrightarrow> nonul k \<and> nonul v"
    and "(\<Sum>k \<in> dom (mem_view (n_s d)). length k + length (the (mem_view (n_s d) k)) + 2) \<le> 1073741694"
  shows "\<exists>kvs. sdb_querys qfile n w r buf (Some ''*'') =
      Inr (Some (concat (map (\<lambda>(k, v). k @ CHR ''='' # v @ [CHR 0x0A]) kvs)), w\<lparr>w_f := (w_f w)[r := Some (d\<lparr>n_s := (n_s d)\<lparr>s_pos := 0\<rparr>\<rparr>)]\<rparr>)
     \<and> distinct (map fst kvs) \<and> map_of kvs = mem_view (n_s d) \<and> sorted_wrt (\<lambda>a b. strcmp (fst a) (fst b) \<le> 0) kvs"
proof -
  obtain hl kvs where l: "sdb_foreach_list empty_heap (n_s d) True = (hl, (n_s d)\<lparr>s_pos := 0\<rparr>)" "ls_data hl = map (\<lambda>(k, v). (k, Some v)) kvs"
    "distinct (map fst kvs)" "map_of kvs = mem_view (n_s d)" "sorted_wrt (\<lambda>a b. strcmp (fst a) (fst b) \<le> 0) kvs"
    by (rule sorted_entries [OF assms(2)])
  define t where "t = concat (map (\<lambda>(k, v). k @ CHR ''='' # v @ [CHR 0x0A]) kvs)"
  have line: "entry_line None False = (\<lambda>(k, v). k @ CHR ''='' # v @ [CHR 0x0A])" by (auto simp: entry_line_def decoded_def fun_eq_iff)
  have fits: "sb_fits (length t)" using dump_size [OF l(3,4)] assms(5) by (simp add: t_def sb_fits_def)
  obtain out where o: "dump_entries False (ls_data hl) strbuf_new = Inr out" "grown strbuf_new t out"
    using dump_entries_ok [of strbuf_new False kvs] fits unfolding l(2) t_def line by auto
  have "kvs \<noteq> []" using assms(3) l(4) by auto
  then have "t \<noteq> []" by (cases kvs) (auto simp: t_def)
  moreover have "nonul t"
  proof -
    have "nonul k \<and> nonul v" if "(k, v) \<in> set kvs" for k v
      using assms(4) map_of_is_SomeI [OF l(3) that] l(4) by auto
    then show ?thesis by (auto simp: t_def nonul_def)
  qed
  ultimately have "strbuf_drain out = Some t" using o(2) strbuf_drain_text [of out] by (simp add: grown_def)
  moreover have "strchr ''*'' CHR ''/'' = None" by simp
  ultimately have "sdb_querys qfile n w r buf (Some ''*'') = Inr (Some t, w\<lparr>w_f := (w_f w)[r := Some (d\<lparr>n_s := (n_s d)\<lparr>s_pos := 0\<rparr>\<rparr>)]\<rparr>)"
    using l(1) o(1) assms(1)
    by (simp add: sdb_querys_def query_loop.simps q_segment_def Let_def deref_def q_walk_def seg_ns.simps q_dispatch_def q_early_def q_dump_def)
  then show ?thesis using l(3-5) unfolding t_def by blast
qed

text \<open>
  What \<^verbatim>\<open>walk_namespace\<close> prints for a database at the path \<open>r\<close>, and the condition under which it can: databases in memory, names
  that fit in what is left of the array, no cycle within the fuel.
\<close>

fun walk_lines :: "nat \<Rightarrow> forest \<Rightarrow> bool \<Rightarrow> string \<Rightarrow> nat \<Rightarrow> string"
and subs_lines :: "nat \<Rightarrow> forest \<Rightarrow> bool \<Rightarrow> string \<Rightarrow> SdbNs list \<Rightarrow> string" where
  "walk_lines 0 f encode r s = []"
| "walk_lines (Suc n) f encode r s =
     (case deref_db f s of
        None \<Rightarrow> []
      | Some d \<Rightarrow> concat (map (entry_line (Some r) encode) (mem_entries (n_s d))) @ subs_lines n f encode r (ns_list d))"
| "subs_lines n f encode r [] = []"
| "subs_lines n f encode r (e # es) = walk_lines n f encode (r @ CHR ''/'' # ns_name e) (ns_sdb e) @ subs_lines n f encode r es"

fun walk_ok :: "nat \<Rightarrow> forest \<Rightarrow> int \<Rightarrow> nat \<Rightarrow> bool"
and subs_ok :: "nat \<Rightarrow> forest \<Rightarrow> int \<Rightarrow> SdbNs list \<Rightarrow> bool" where
  "walk_ok 0 f left s = False"
| "walk_ok (Suc n) f left s = (case deref_db f s of None \<Rightarrow> False | Some d \<Rightarrow> mem_inv (n_s d) \<and> subs_ok n f left (ns_list d))"
| "subs_ok n f left [] = True"
| "subs_ok n f left (e # es) =
     (let left' = left - (int (length (ns_name e)) + 2)
      in 0 < left' \<and> nonul (ns_name e) \<and> walk_ok n f left' (ns_sdb e) \<and> subs_ok n f left' es)"

text \<open>A forest up to the positions of dumps, which walking resets.\<close>

definition still :: "forest \<Rightarrow> forest" where
  "still f = map (map_option (\<lambda>d. d\<lparr>n_s := (n_s d)\<lparr>s_pos := 0\<rparr>\<rparr>)) f"

lemma deref_still: "deref_db (still f) p = map_option (\<lambda>d. d\<lparr>n_s := (n_s d)\<lparr>s_pos := 0\<rparr>\<rparr>) (deref_db f p)"
  by (simp add: still_def deref_db_def)

lemma still_upd:
  assumes "deref_db f p = Some d"
  shows "still (f[p := Some (d\<lparr>n_s := (n_s d)\<lparr>s_pos := 0\<rparr>\<rparr>)]) = still f"
  using deref_Some [OF assms] by (simp add: still_def map_update) (metis (mono_tags) list_update_id nth_map option.map(2))

lemma still_walk:
  "walk_lines n (still f) encode r s = walk_lines n f encode r s" "subs_lines n (still f) encode r es = subs_lines n f encode r es"
  "walk_ok n (still f) left s = walk_ok n f left s" "subs_ok n (still f) left es = subs_ok n f left es"
proof -
  have "walk_lines n (still f) encode r s = walk_lines n f encode r s" "subs_lines n (still f) encode r es = subs_lines n f encode r es"
    by (induction n f encode r s and n f encode r es rule: walk_lines_subs_lines.induct)
      (auto simp: deref_still mem_entries_def ns_list_def split: option.splits)
  then show "walk_lines n (still f) encode r s = walk_lines n f encode r s" "subs_lines n (still f) encode r es = subs_lines n f encode r es" .
  have "walk_ok n (still f) left s = walk_ok n f left s" "subs_ok n (still f) left es = subs_ok n f left es"
    by (induction n f left s and n f left es rule: walk_ok_subs_ok.induct)
      (auto simp: deref_still ns_list_def Let_def split: option.splits)
  then show "walk_ok n (still f) left s = walk_ok n f left s" "subs_ok n (still f) left es = subs_ok n f left es" .
qed

lemma still_cong:
  assumes "still f' = still f"
  shows "walk_lines n f' = walk_lines n f" "subs_lines n f' = subs_lines n f" "walk_ok n f' = walk_ok n f" "subs_ok n f' = subs_ok n f"
  using still_walk [of n f] still_walk [of n f'] unfolding assms by (simp_all add: fun_eq_iff)

lemma root_text_put: "nonul s \<Longrightarrow> root_text (map Some s @ Some NUL # x) = Some s"
  by (induction s) auto

lemma root_textD: "root_text root = Some r \<Longrightarrow> nonul r \<and> take (length r) root = map Some r"
  by (induction root arbitrary: r rule: root_text.induct) (auto split: if_splits)

text \<open>Both writes of the loop: the path of the next namespace is in the array.\<close>

lemma root_put_sub:
  assumes "take (length r) root = map Some r" "length r + length s + 2 \<le> length root" "nonul r" "nonul s"
  obtains root1 root2 where "root_put root (length r) ''/'' = Some root1" "root_put root1 (length r + 1) (s @ [NUL]) = Some root2"
    "root_text root2 = Some (r @ CHR ''/'' # s)" "length root2 = length root"
proof -
  let ?r1 = "map Some (r @ ''/'') @ drop (length r + 1) root"
  let ?r2 = "map Some (r @ CHR ''/'' # s) @ Some NUL # drop (length r + length s + 2) root"
  have 1: "root_put root (length r) ''/'' = Some ?r1" using assms(1,2) by (simp add: root_put_def)
  have 2: "root_put ?r1 (length r + 1) (s @ [NUL]) = Some ?r2" using assms(2) by (auto simp: root_put_def add.commute)
  have 3: "root_text ?r2 = Some (r @ CHR ''/'' # s)" using assms(3,4) by (intro root_text_put) (simp add: nonul_def)
  have 4: "length ?r2 = length root" using assms(2) by simp
  show ?thesis by (rule that [OF 1 2 3 4])
qed

text \<open>What a walk guarantees.\<close>

definition walked :: "forest \<Rightarrow> root_buf \<Rightarrow> string \<Rightarrow> strbuf \<Rightarrow> string \<Rightarrow> q_fault + forest \<times> root_buf \<times> strbuf \<Rightarrow> bool" where
  "walked f root r out t res \<longleftrightarrow>
     (\<exists>f' root' out'. res = Inr (f', root', out') \<and> still f' = still f \<and> length root' = length root
        \<and> take (length r) root' = map Some r \<and> grown out t out')"

lemma walk_subs_ok:
  assumes IH: "\<And>f root left s out r. walk_ok n f left s \<Longrightarrow> root_text root = Some r \<Longrightarrow> int (length r) + left \<le> int (length root) \<Longrightarrow> sb_inv out \<Longrightarrow>
      sb_fits (length (sb_text out) + length (walk_lines n f encode r s)) \<Longrightarrow>
      walked f root r out (walk_lines n f encode r s) (walk_namespace n f root left (length r) s encode out)"
    and "subs_ok n f left es" "take (length r) root = map Some r" "nonul r" "int (length r) + left \<le> int (length root)" "sb_inv out"
      "sb_fits (length (sb_text out) + length (subs_lines n f encode r es))"
  shows "walked f root r out (subs_lines n f encode r es) (walk_subs n f root left (length r) (length r) es encode out)"
  using assms(2-)
proof (induction es arbitrary: f root left out)
  case (Cons e es)
  let ?l = "length (ns_name e)" and ?r = "r @ CHR ''/'' # ns_name e"
  let ?left = "left - (int ?l + 2)"
  have ok: "0 < ?left" "nonul (ns_name e)" "walk_ok n f ?left (ns_sdb e)" "subs_ok n f ?left es"
    using Cons.prems(1) by (auto simp: Let_def)
  obtain root1 root2 where p: "root_put root (length r) ''/'' = Some root1" "root_put root1 (length r + 1) (ns_name e @ [NUL]) = Some root2"
    "root_text root2 = Some ?r" "length root2 = length root"
    by (rule root_put_sub [OF Cons.prems(2) _ Cons.prems(3) ok(2)]) (use Cons.prems(4) ok(1) in auto)
  have "walked f root2 ?r out (walk_lines n f encode ?r (ns_sdb e)) (walk_namespace n f root2 ?left (length ?r) (ns_sdb e) encode out)"
    by (rule IH [OF ok(3) p(3) _ Cons.prems(5)]) (use Cons.prems(4,6) p(4) fits_prefix in simp_all)
  then obtain f1 root3 out1 where w: "walk_namespace n f root2 ?left (length ?r) (ns_sdb e) encode out = Inr (f1, root3, out1)"
    "still f1 = still f" "length root3 = length root2" "take (length ?r) root3 = map Some ?r" "grown out (walk_lines n f encode ?r (ns_sdb e)) out1"
    unfolding walked_def by blast
  have "sb_fits (length (sb_text out1) + length (subs_lines n f encode r es))" using grown_fits [OF w(5)] Cons.prems(6) by simp
  moreover have "take (length r) root3 = map Some r" using arg_cong [OF w(4), of "take (length r)"] by (simp add: min_def)
  ultimately have "walked f1 root3 r out1 (subs_lines n f1 encode r es) (walk_subs n f1 root3 ?left (length r) (length r) es encode out1)"
    using Cons.IH [of f1 ?left root3 out1] ok(1,4) Cons.prems(3,4) w(3,5) p(4) still_cong [OF w(2)] by (auto simp: grown_def)
  then show ?case
    using p(1,2,4) ok(1) w still_cong [OF w(2)] by (auto simp: walked_def Let_def intro: grown_trans)
qed (simp add: walked_def grown_refl)

lemma walk_namespace_ok:
  assumes "walk_ok n f left s" "root_text root = Some r" "int (length r) + left \<le> int (length root)" "sb_inv out"
    "sb_fits (length (sb_text out) + length (walk_lines n f encode r s))"
  shows "walked f root r out (walk_lines n f encode r s) (walk_namespace n f root left (length r) s encode out)"
  using assms
proof (induction n arbitrary: f root left s out r)
  case (Suc n)
  obtain d where d: "deref_db f s = Some d" "mem_inv (n_s d)" "subs_ok n f left (ns_list d)"
    using Suc.prems(1) by (auto split: option.splits)
  have fits: "sb_fits (length (sb_text out) +
      length (concat (map (entry_line (Some r) encode) (mem_entries (n_s d))) @ subs_lines n f encode r (ns_list d)))"
    using Suc.prems(5) d(1) by simp
  obtain out1 where o: "walk_list (foreach_list_cb (Some r) encode) (mem_entries (n_s d)) (Inr out) = (True, Inr out1)"
    "grown out (concat (map (entry_line (Some r) encode) (mem_entries (n_s d)))) out1"
    using walk_list_ok [OF Suc.prems(4) fits_prefix [OF fits]] by blast
  let ?f = "f[s := Some (d\<lparr>n_s := (n_s d)\<lparr>s_pos := 0\<rparr>\<rparr>)]"
  note st = still_cong [OF still_upd [OF d(1)]]
  have "walked ?f root r out1 (subs_lines n ?f encode r (ns_list d)) (walk_subs n ?f root left (length r) (length r) (ns_list d) encode out1)"
    by (rule walk_subs_ok [OF Suc.IH]) (use d(3) st root_textD [OF Suc.prems(2)] Suc.prems(3) o(2) grown_fits [OF o(2) fits] in \<open>auto simp: grown_def\<close>)
  then show ?case
    using d(1) Suc.prems(2) o st still_upd [OF d(1)] by (auto simp: walked_def foreach_mem [OF d(2)] intro: grown_trans)
qed simp

text \<open>The same for the loop of \<^verbatim>\<open>***\<close>.\<close>

definition tops_ok :: "nat \<Rightarrow> forest \<Rightarrow> SdbNs list \<Rightarrow> bool" where
  "tops_ok n f es \<longleftrightarrow>
     (\<forall>e \<in> set es. length (ns_name e) < ROOT_SIZE \<and> nonul (ns_name e) \<and> walk_ok n f (int ROOT_SIZE - int (length (ns_name e))) (ns_sdb e))"

definition tops_lines :: "nat \<Rightarrow> forest \<Rightarrow> bool \<Rightarrow> SdbNs list \<Rightarrow> string" where
  "tops_lines n f encode es = concat (map (\<lambda>e. walk_lines n f encode (ns_name e) (ns_sdb e)) es)"

lemma dump_walk_ok:
  assumes "tops_ok n f es" "length root = ROOT_SIZE" "sb_inv out" "sb_fits (length (sb_text out) + length (tops_lines n f encode es))"
  shows "\<exists>f' out'. dump_walk n f root es encode out = Inr (f', out') \<and> still f' = still f \<and> grown out (tops_lines n f encode es) out'"
  using assms
proof (induction es arbitrary: f root out)
  case (Cons e es)
  let ?s = "ns_name e"
  have ok: "length ?s < ROOT_SIZE" "nonul ?s" "walk_ok n f (int ROOT_SIZE - int (length ?s)) (ns_sdb e)" "tops_ok n f es"
    using Cons.prems(1) by (auto simp: tops_ok_def)
  let ?root = "map Some ?s @ Some NUL # drop (length ?s + 1) root"
  have p: "root_put root 0 (?s @ [NUL]) = Some ?root" using ok(1) Cons.prems(2) by (simp add: root_put_def)
  have l: "length ?root = ROOT_SIZE" using ok(1) Cons.prems(2) by simp
  have fits: "sb_fits (length (sb_text out) + length (walk_lines n f encode ?s (ns_sdb e) @ tops_lines n f encode es))"
    using Cons.prems(4) by (simp add: tops_lines_def)
  have "walked f ?root ?s out (walk_lines n f encode ?s (ns_sdb e))
      (walk_namespace n f ?root (int ROOT_SIZE - int (length ?s)) (length ?s) (ns_sdb e) encode out)"
    by (rule walk_namespace_ok [OF ok(3) root_text_put [OF ok(2)] _ Cons.prems(3) fits_prefix [OF fits]]) (unfold l, simp)
  then obtain f1 root1 out1 where w: "walk_namespace n f ?root (int ROOT_SIZE - int (length ?s)) (length ?s) (ns_sdb e) encode out = Inr (f1, root1, out1)"
    "still f1 = still f" "length root1 = ROOT_SIZE" "grown out (walk_lines n f encode ?s (ns_sdb e)) out1"
    unfolding walked_def l by blast
  have "tops_ok n f1 es" "tops_lines n f1 encode es = tops_lines n f encode es"
    using ok(4) still_cong [OF w(2)] by (simp_all add: tops_ok_def tops_lines_def)
  then show ?case
    using Cons.IH [of f1 root1 out1] ok(1) p w grown_fits [OF w(4) fits] by (auto simp: tops_lines_def Let_def grown_def)
qed (simp add: tops_lines_def grown_refl)

text \<open>
  C16.  The command \<^verbatim>\<open>***\<close> returns a line \<^verbatim>\<open>path/key=value\<close> for every entry of every namespace below the database, and stays
  inside its array of 1024 bytes, when the databases are in memory, no namespace contains itself, the names fit and
  the output has at most \<open>2\<^sup>3\<^sup>0 - 130\<close> bytes.  (The example in \<^verbatim>\<open>doc/namespaces.md\<close> shows names of namespaces instead of entries.)
\<close>

theorem query_dump_tree:
  assumes "deref_db (w_f w) r = Some d" "tops_ok n (w_f w) (ns_list d)"
    and "tops_lines n (w_f w) False (ns_list d) \<noteq> []" "nonul (tops_lines n (w_f w) False (ns_list d))"
    and "length (tops_lines n (w_f w) False (ns_list d)) \<le> 1073741694"
  shows "\<exists>f. sdb_querys qfile n w r buf (Some ''***'') = Inr (Some (tops_lines n (w_f w) False (ns_list d)), w\<lparr>w_f := f\<rparr>)
     \<and> still f = still (w_f w)"
proof -
  obtain f out where o: "dump_walk n (w_f w) (replicate ROOT_SIZE None) (ns_list d) False strbuf_new = Inr (f, out)" "still f = still (w_f w)"
    "grown strbuf_new (tops_lines n (w_f w) False (ns_list d)) out"
    using dump_walk_ok [OF assms(2), of "replicate ROOT_SIZE None" strbuf_new False] assms(5) by (auto simp: sb_fits_def)
  then have "strbuf_drain out = Some (tops_lines n (w_f w) False (ns_list d))"
    using strbuf_drain_text [of out] assms(3,4) by (simp add: grown_def)
  then have "sdb_querys qfile n w r buf (Some ''***'') = Inr (Some (tops_lines n (w_f w) False (ns_list d)), w\<lparr>w_f := f\<rparr>)"
    using o(1) assms(1)
    by (simp add: sdb_querys_def query_loop.simps q_segment_def Let_def deref_def q_walk_def seg_ns.simps q_dispatch_def q_early_def q_dump_def)
  then show ?thesis using o(2) by blast
qed

lemma single_ok_kv: "mem_view (single ''k'' ''v'') = [''k'' \<mapsto> ''v'']" "mem_inv (single ''k'' ''v'')"
  using single_ok [of "''k''" "''v''"] by (simp_all add: SDB_KSZ_def SDB_VSZ_def)

definition tree_world :: world where
  "tree_world =
     \<lparr>w_f = [Some ((blank_node 0)\<lparr>n_ns := Some [\<lparr>ns_name = ''a'', ns_hash = sdb_hash ''a'', ns_sdb = 1\<rparr>]\<rparr>),
             Some ((blank_node 0)\<lparr>n_s := single ''k'' ''v''\<rparr>)],
      w_stdout = []\<rparr>"

theorem query_dump_witness:
  "\<exists>kvs w. sdb_querys (\<lambda>w r f. Inl No_Fuel) 0 tree_world 1 None (Some ''*'')
       = Inr (Some (concat (map (\<lambda>(k, v). k @ CHR ''='' # v @ [CHR 0x0A]) kvs)), w)
     \<and> map_of kvs = [''k'' \<mapsto> ''v'']"
proof -
  have d: "deref_db (w_f tree_world) 1 = Some ((blank_node 0)\<lparr>n_s := single ''k'' ''v''\<rparr>)" by (simp add: tree_world_def deref_db_def)
  have "mem_inv (n_s ((blank_node 0)\<lparr>n_s := single ''k'' ''v''\<rparr>))"
    "mem_view (n_s ((blank_node 0)\<lparr>n_s := single ''k'' ''v''\<rparr>)) = [''k'' \<mapsto> ''v'']" using single_ok_kv by simp_all
  note m = this
  have "\<forall>k v. mem_view (n_s ((blank_node 0)\<lparr>n_s := single ''k'' ''v''\<rparr>)) k = Some v \<longrightarrow> nonul k \<and> nonul v"
    unfolding m(2) by (auto simp: nonul_def split: if_splits)
  moreover have "mem_view (n_s ((blank_node 0)\<lparr>n_s := single ''k'' ''v''\<rparr>)) \<noteq> Map.empty" unfolding m(2) by simp
  moreover have "(\<Sum>k \<in> dom (mem_view (n_s ((blank_node 0)\<lparr>n_s := single ''k'' ''v''\<rparr>))).
      length k + length (the (mem_view (n_s ((blank_node 0)\<lparr>n_s := single ''k'' ''v''\<rparr>)) k)) + 2) \<le> 1073741694"
    unfolding m(2) by simp
  ultimately show ?thesis using query_dump [OF d m(1), of "\<lambda>w r f. Inl No_Fuel" 0 None] unfolding m(2) by blast
qed

lemma single_entries: "mem_entries (single ''k'' ''v'') = [(''k'', ''v'')]"
proof -
  let ?e = "mem_entries (single ''k'' ''v'')"
  have e: "distinct (map fst ?e)" "map_of ?e = [''k'' \<mapsto> ''v'']" using mem_entries_ok [OF single_ok_kv(2)] single_ok_kv(1) by auto
  have "set ?e = {(''k'', ''v'')}"
  proof (rule set_eqI)
    fix x
    show "x \<in> set ?e \<longleftrightarrow> x \<in> {(''k'', ''v'')}" using map_of_eq_Some_iff [OF e(1), of "fst x" "snd x"] e(2) by (cases x) (auto split: if_splits)
  qed
  moreover have "distinct ?e" using e(1) by (simp add: distinct_map)
  ultimately have "length ?e = 1" using distinct_card [of ?e] by simp
  then show ?thesis using \<open>set ?e = {(''k'', ''v'')}\<close> by (cases ?e) auto
qed

theorem query_dump_tree_witness:
  "\<exists>w. sdb_querys (\<lambda>w r f. Inl No_Fuel) 1 tree_world 0 None (Some ''***'') = Inr (Some (''a/k=v'' @ [CHR 0x0A]), w)"
proof -
  let ?d = "(blank_node 0)\<lparr>n_ns := Some [\<lparr>ns_name = ''a'', ns_hash = sdb_hash ''a'', ns_sdb = 1\<rparr>]\<rparr>"
  have d: "deref_db (w_f tree_world) 0 = Some ?d" "deref_db (w_f tree_world) 1 = Some ((blank_node 0)\<lparr>n_s := single ''k'' ''v''\<rparr>)"
    by (simp_all add: tree_world_def deref_db_def)
  have n: "ns_list ?d = [\<lparr>ns_name = ''a'', ns_hash = sdb_hash ''a'', ns_sdb = 1\<rparr>]" "ns_list ((blank_node 0)\<lparr>n_s := single ''k'' ''v''\<rparr>) = []"
    by (simp_all add: ns_list_def blank_node_def)
  have "tops_ok 1 (w_f tree_world) (ns_list ?d)"
    using d(2) n single_ok_kv(2) by (simp add: tops_ok_def ROOT_SIZE_def nonul_def)
  moreover have "tops_lines 1 (w_f tree_world) False (ns_list ?d) = ''a/k=v'' @ [CHR 0x0A]"
    using d(2) n by (simp add: tops_lines_def single_entries entry_line_def decoded_def)
  ultimately show ?thesis
    using query_dump_tree [OF d(1), of 1 "\<lambda>w r f. Inl No_Fuel" None] by (auto simp: nonul_def)
qed

section \<open>What modelling showed\<close>

text \<open>
  The \<^verbatim>\<open>=\<close> is looked for in the whole text and not up to the next \<^verbatim>\<open>;\<close>: a command without a value and one with a value after it are
  taken as one, which stores the value under a key with a \<^verbatim>\<open>;\<close> in it.
\<close>

lemma query_read_then_write:
  assumes "deref_db (w_f w) r = Some d"
  shows "sdb_querys qfile n w r buf (Some ''a;b=c'') =
    Inr (None, w\<lparr>w_f := (w_f w)[r := Some (d\<lparr>n_s := snd (sdb_set (n_s d) ''a;b'' (Some ''c'') 0)\<rparr>)]\<rparr>)"
  using assms
  by (simp add: sdb_querys_def query_loop.simps q_segment_def Let_def deref_def cut_at_def q_walk_def seg_ns.simps q_dispatch_def
      q_early_def q_run_def on_db_def q_kv_def q_stored_def q_value_def rtrim_def isspace_def strbuf_drain_def strbuf_new_def)

text \<open>Spaces at the beginning of a value are dropped between quotes, too.\<close>

lemma query_quoted_space:
  assumes "deref_db (w_f w) r = Some d"
  shows "q_segment qfile n w r out (''k='' @ quoted '' x'' @ CHR '';'' # rest) =
    Inr (Q_NEXT, Some rest, w\<lparr>w_f := (w_f w)[r := Some (d\<lparr>n_s := snd (sdb_set (n_s d) ''k'' (Some ''x'') 0)\<rparr>)]\<rparr>, out)"
  using set_segment [of "[]" "''k''" "'' x''" w r r "w_f w" d qfile n out False rest] example_plain(2) assms
  by (simp add: enc_mark_def isspace_def)

text \<open>An array element that is incremented without a number is printed and not stored.\<close>

lemma query_array_inc_not_stored:
  assumes "mem_inv s" "q_cmd q = ''+[0]k''" "q_eq q = None" "q_incdec q s out = Inr (st, s', out')"
  shows "s' = s"
proof -
  have "s2 = s" if "sdb_array_get_num s ''k'' i = (x, s2)" for i x s2
    using that const_get_mem(2) [OF assms(1), of "''k''"] by (auto simp: sdb_array_get_num_def split: prod.splits)
  then show ?thesis using assms(2-4) by (auto simp: q_incdec_def Let_def deref_def say_def map_sum_Inr split: prod.splits)
qed

text \<open>Numbers go through an \<^verbatim>\<open>int\<close>.\<close>

lemma query_inc_truncates:
  assumes "q_cmd q = ''+k''" "q_val q = Some ''4294967296''"
  shows "q_incdec q s out = Inr (Q_NEXT, snd (sdb_num_inc s ''k'' 0 0), out)"
proof -
  have "strtoull_digits 10 0 ''4294967296'' = 4294967296" by (simp add: isdigit_in_def digit_val_def)
  then have "sdb_atoi ''4294967296'' = 4294967296" by (simp add: sdb_atoi_def strtoull0_def deref_def isspace_def Let_def)
  then have "to_int (sdb_atoi ''4294967296'') = 0" by (simp add: to_int_def int32_def)
  moreover have "sdb_isnum ''4294967296''" by (simp add: sdb_isnum_def deref_def isdigit_in_def digit_val_def)
  ultimately show ?thesis using assms by (simp add: q_incdec_def Let_def deref_def)
qed

text \<open>Indirection through a key looks for the key with the path of a member in its name.\<close>

lemma query_indirect_member:
  assumes "deref_db (w_f w) r = Some d" "mem_inv (n_s d)" "mem_view (n_s d) ''k:p'' = None" "mem_view (n_s d) [] = None"
  shows "sdb_querys qfile n w r buf (Some ''$k:p'') = Inr (None, w)"
proof -
  have g: "\<exists>cas. sdb_get (n_s d) x = ((None, cas), n_s d)" if "mem_view (n_s d) x = None" for x
    using get_mem [OF assms(2), of x] that by (auto simp: sdb_get_def sdb_get_len_def)
  have "(w_f w)[r := Some d] = w_f w" using deref_Some [OF assms(1)] by (metis list_update_id)
  then show ?thesis
    using assms(1) g [OF assms(3)] g [OF assms(4)]
    by (auto simp: sdb_querys_def query_loop.simps q_segment_def Let_def deref_def cut_at_def q_walk_def seg_ns.simps q_dispatch_def
      q_early_def q_run_def on_db_def q_kv_def json_path_def json_key_def sdb_json_get_def strbuf_drain_def strbuf_new_def)
qed

text \<open>A command that increments a number changes the database, but \<^verbatim>\<open>sdb_query\<close> does not say that it has to be saved.\<close>

lemma dec_length64: "length (dec_text (sint (m :: ut64))) \<le> 32"
proof -
  have "sint m < 2 ^ 63" "- (2 ^ 63) \<le> sint m" using sint_range_size [of m] by (simp_all add: word_size)
  then have "nat (sint m) < 10 ^ 19" "nat (- sint m) < 10 ^ 19" by simp_all
  then have "length (digs 10 (nat (sint m))) \<le> 19" "length (digs 10 (nat (- sint m))) \<le> 19" using digs_length [of 10] by simp_all
  then show ?thesis by (simp add: dec_text_def)
qed

lemma query_inc_not_saved:
  assumes "deref_db (w_f w) r = Some d" "mem_inv (n_s d)"
  shows "\<exists>w'. sdb_query qfile n w r ''+k'' = Inr (False, w')
     \<and> map_option n_s (deref_db (w_f w') r) = Some (snd (sdb_num_inc (n_s d) ''k'' 1 0))"
proof -
  obtain v cas where g: "sdb_const_get (n_s d) ''k'' = ((v, cas), n_s d)" using const_get_mem(2) [OF assms(2)] by (metis prod.collapse)
  obtain m s where i: "sdb_num_inc (n_s d) ''k'' 1 0 = (m, s)" by fastforce
  define t where "t = (if sdb_num_base v = 16 then hex_text m else dec_text (sint m))"
  have "length t \<le> 32" using hex_length [of m] dec_length64 [of m] by (auto simp: t_def)
  then have "\<exists>out. q_puts strbuf_new (Some t) = Inr out"
    using out_put_ok [OF strbuf_new_ok(1), of t] by (auto simp: q_puts_def sb_fits_def)
  then obtain out where o: "q_puts strbuf_new (Some t) = Inr out" by blast
  have "q_incdec (plain_query r False ''+k'' None None) (n_s d) strbuf_new = Inr (Q_NEXT, s, out)"
    using g i o by (simp add: q_incdec_def Let_def deref_def say_def t_def)
  then have "q_segment qfile n w r strbuf_new ''+k'' = Inr (Q_NEXT, None, w\<lparr>w_f := (w_f w)[r := Some (d\<lparr>n_s := s\<rparr>)]\<rparr>, out)"
    using assms(1) by (simp add: q_segment_def Let_def deref_def cut_at_def q_walk_def seg_ns.simps q_dispatch_def
      q_early_def q_run_def on_db_def)
  then show ?thesis
    using i deref_Some [OF assms(1)] by (simp add: sdb_query_def sdb_querys_def query_loop.simps deref_def Let_def)
qed

text \<open>A file that runs itself: no fuel is enough.\<close>

lemma query_file_self:
  assumes "files f = Some (CHR ''.'' # f)" "f \<noteq> []" "nonul f" "set f \<inter> {CHR ''='', CHR '';'', CHR ''/'', CHR 0x0A} = {}"
    and "deref_db (w_f w) r = Some d" "n_options d AND SDB_OPTION_FS \<noteq> 0"
  shows "sdb_query_file files n w r f = Inl No_Fuel"
proof (induction n)
  case (Suc n)
  have "slurp files f = Some (CHR ''.'' # f)"
    using assms(1-3) by (auto simp: slurp_def cstring_def takeWhile_eq_all_conv nonul_def)
  moreover have "splitc CHR 0x0A (CHR ''.'' # f) = [CHR ''.'' # f]" using assms(4) by (intro splitc_no_sep) auto
  moreover have "q_segment (sdb_query_file files n) n w r strbuf_new (CHR ''.'' # f) = Inl No_Fuel"
  proof -
    have "cut_at CHR ''='' (CHR ''.'' # f) = (CHR ''.'' # f, None)" "cut_at CHR '';'' (CHR ''.'' # f) = (CHR ''.'' # f, None)"
      using assms(4) by (auto intro!: cut_at_none)
    moreover have "seg_ns (w_f w) r (CHR ''.'' # f) False = (Some (r, CHR ''.'' # f), w_f w)"
      using assms(4) strchr_None [of "CHR ''.'' # f" "CHR ''/''"] by (subst seg_ns.simps) simp
    ultimately show ?thesis
      using Suc.IH assms(5,6) by (simp add: q_segment_def Let_def deref_def q_walk_def q_dispatch_def q_early_def q_run_def)
  qed
  ultimately show ?case
    by (simp add: sdb_query_lines_def sdb_query_def sdb_querys_def query_loop.simps)
qed simp

text \<open>
  A name that does not fit takes the place of the terminator only: the array is then read past what was written to it.
\<close>

lemma walk_unterminated:
  assumes "nonul r" "left \<le> int (length (ns_name e)) + 2" "root = map Some r @ Some NUL # replicate m None"
  shows "walk_subs (Suc n) f root left (length r) (length r) (e # es) encode out = Inl Buffer_Fault"
proof -
  let ?r = "map Some (r @ ''/'') @ replicate m None"
  have "root_put root (length r) ''/'' = Some ?r" by (simp add: root_put_def assms(3))
  moreover have "root_text (map Some s @ replicate m None) = None" if "nonul s" for s
    using that by (induction s) (cases m, auto)
  from this [of "r @ ''/''"] have "root_text ?r = None" using assms(1) by (simp add: nonul_def)
  ultimately show ?thesis using assms(2) by (simp add: Let_def)
qed

end
