(* ===== verification/Dict.thy ===== *)
theory Dict
  imports Map_Interface Sdb_Util
begin

text \<open>
  The dictionary of \<^verbatim>\<open>src/dict.c\<close>: an array of buckets, each a NULL pointer or an array of entries that an
  entry with key 0 ends.

  \<^item> \<open>d_table\<close> holds the entries of each bucket before the terminator, \<open>None\<close> for NULL.
  \<^item> \<open>d_f\<close> says whether a free callback is set, and \<open>d_freed\<close> collects what it was called with.
  \<^item> Reading the table of a dictionary without buckets is the result \<open>None\<close>.
  \<^item> The size is a \<^verbatim>\<open>ut32\<close>, but \<^verbatim>\<open>dict_set\<close>, \<^verbatim>\<open>dict_getr\<close> and \<^verbatim>\<open>dict_del\<close> keep the number of a bucket in an \<^verbatim>\<open>int\<close>, which
    the operations here do for at most \<open>2\<^sup>3\<^sup>1\<close> buckets (\<open>bucket_int\<close>); the invariant has that bound.
\<close>

section \<open>Operations\<close>

type_synonym dicti = ut64

record dictkv =
  dk_k :: dicti
  dk_v :: dicti
  dk_u :: ut64

record dict =
  d_table :: "dictkv list option list"
  d_f :: bool
  d_size :: nat
  d_freed :: "ut64 list"

definition dict_init :: "nat \<Rightarrow> bool \<Rightarrow> ut64 list \<Rightarrow> dict" where
  "dict_init sz f freed = \<lparr>d_table = replicate sz None, d_f = f, d_size = sz, d_freed = freed\<rparr>"

definition dict_new :: "ut32 \<Rightarrow> bool \<Rightarrow> dict" where
  "dict_new sz f = dict_init (max (unat sz) 1) f []"

definition dict_bucket :: "dict \<Rightarrow> dicti \<Rightarrow> nat" where
  "dict_bucket m k = (if d_size m > 0 then unat k mod d_size m else 0)"

definition dict_fini :: "dict \<Rightarrow> dict" where
  "dict_fini m =
     dict_init 0 False
       (d_freed m @ (if d_f m then concat (map (\<lambda>b. case b of None \<Rightarrow> [] | Some kvs \<Rightarrow> map dk_u kvs) (d_table m)) else []))"

definition dict_hash :: "string \<Rightarrow> dicti" where
  "dict_hash s = ucast (sdb_hash s)"

fun bucket_set :: "dictkv list \<Rightarrow> dicti \<Rightarrow> dicti \<Rightarrow> ut64 \<Rightarrow> dictkv list" where
  "bucket_set [] k v u = [\<lparr>dk_k = k, dk_v = v, dk_u = u\<rparr>]"
| "bucket_set (kv # kvs) k v u =
     (if dk_k kv = k then kv\<lparr>dk_v := v, dk_u := u\<rparr> # kvs else kv # bucket_set kvs k v u)"

definition dict_set :: "dict \<Rightarrow> dicti \<Rightarrow> dicti \<Rightarrow> ut64 \<Rightarrow> bool \<times> dict" where
  "dict_set m k v u =
     (if d_size m = 0 \<or> k = 0 then (False, m)
      else
        let bucket = dict_bucket m k;
            kvs = (case d_table m ! bucket of None \<Rightarrow> [] | Some kvs \<Rightarrow> kvs)
        in (True, m\<lparr>d_table := (d_table m)[bucket := Some (bucket_set kvs k v u)]\<rparr>))"

definition dict_stats :: "dict \<Rightarrow> ut32 \<Rightarrow> nat" where
  "dict_stats m nb =
     (if sint nb < 0 then d_size m - 1
      else if unat nb < d_size m then (case d_table m ! unat nb of None \<Rightarrow> 0 | Some kvs \<Rightarrow> length kvs)
      else 0)"

definition dict_getr :: "dict \<Rightarrow> dicti \<Rightarrow> dictkv option" where
  "dict_getr m k =
     (if d_size m = 0 then None
      else case d_table m ! dict_bucket m k of
             None \<Rightarrow> None | Some kvs \<Rightarrow> find (\<lambda>kv. dk_k kv = k) kvs)"

definition dict_get :: "dict \<Rightarrow> dicti \<Rightarrow> dicti" where
  "dict_get m k = (case dict_getr m k of None \<Rightarrow> 0 | Some kv \<Rightarrow> dk_v kv)"

definition dict_getu :: "dict \<Rightarrow> dicti \<Rightarrow> ut64" where
  "dict_getu m k = (case dict_getr m k of None \<Rightarrow> 0 | Some kv \<Rightarrow> dk_u kv)"

definition dict_add :: "dict \<Rightarrow> dicti \<Rightarrow> dicti \<Rightarrow> ut64 \<Rightarrow> bool \<times> dict" where
  "dict_add m k v u = (if dict_getr m k \<noteq> None then (False, m) else dict_set m k v u)"

text \<open>The entry that is removed and the entries that are left.\<close>

fun bucket_del :: "dictkv list \<Rightarrow> dicti \<Rightarrow> (dictkv \<times> dictkv list) option" where
  "bucket_del [] k = None"
| "bucket_del (kv # kvs) k =
     (if dk_k kv = k then Some (kv, kvs)
      else map_option (\<lambda>(x, r). (x, kv # r)) (bucket_del kvs k))"

definition dict_del :: "dict \<Rightarrow> dicti \<Rightarrow> (bool \<times> dict) option" where
  "dict_del m k =
     (let bucket = dict_bucket m k in
      if k = 0 then Some (False, m)
      else if d_size m = 0 then None
      else
        (case d_table m ! bucket of
           None \<Rightarrow> Some (False, m)
         | Some kvs \<Rightarrow>
             (case bucket_del kvs k of
                None \<Rightarrow> Some (False, m)
              | Some (kv, kvs') \<Rightarrow>
                  Some (True, m\<lparr>d_freed := (if d_f m then d_freed m @ [dk_u kv] else d_freed m),
                                d_table := (d_table m)[bucket := Some kvs']\<rparr>))))"

text \<open>The callback gets and returns the caller's state; a result \<open>True\<close> stops the iteration.\<close>

fun foreach_bucket :: "('s \<Rightarrow> dictkv \<Rightarrow> bool \<times> 's) \<Rightarrow> dictkv list \<Rightarrow> 's \<Rightarrow> bool \<times> 's" where
  "foreach_bucket cb [] u = (True, u)"
| "foreach_bucket cb (kv # kvs) u = (case cb u kv of (res, u) \<Rightarrow> if res then (False, u) else foreach_bucket cb kvs u)"

fun foreach_table :: "('s \<Rightarrow> dictkv \<Rightarrow> bool \<times> 's) \<Rightarrow> dictkv list option list \<Rightarrow> 's \<Rightarrow> 's" where
  "foreach_table cb [] u = u"
| "foreach_table cb (b # bs) u =
     (case foreach_bucket cb (case b of None \<Rightarrow> [] | Some kvs \<Rightarrow> kvs) u of
        (iterate, u) \<Rightarrow> if iterate then foreach_table cb bs u else u)"

definition dict_foreach :: "dict \<Rightarrow> ('s \<Rightarrow> dictkv \<Rightarrow> bool \<times> 's) \<Rightarrow> 's \<Rightarrow> 's" where
  "dict_foreach m cb u = foreach_table cb (d_table m) u"

section \<open>The dictionary is a map\<close>

definition bucket_kvs :: "dict \<Rightarrow> nat \<Rightarrow> dictkv list" where
  "bucket_kvs m i = (case d_table m ! i of None \<Rightarrow> [] | Some kvs \<Rightarrow> kvs)"

definition dict_inv :: "dict \<Rightarrow> bool" where
  "dict_inv m \<longleftrightarrow> 0 < d_size m \<and> d_size m \<le> 2 ^ 31 \<and> length (d_table m) = d_size m
     \<and> (\<forall>i < d_size m. distinct (map dk_k (bucket_kvs m i))
          \<and> (\<forall>kv \<in> set (bucket_kvs m i). dk_k kv \<noteq> 0 \<and> unat (dk_k kv) mod d_size m = i))"

definition dict_lookup :: "dict \<Rightarrow> dicti \<Rightarrow> (dicti \<times> ut64) option" where
  "dict_lookup m k = map_option (\<lambda>kv. (dk_v kv, dk_u kv)) (dict_getr m k)"

definition bucket_lookup :: "dictkv list \<Rightarrow> dicti \<Rightarrow> (dicti \<times> ut64) option" where
  "bucket_lookup kvs k = map_option (\<lambda>kv. (dk_v kv, dk_u kv)) (find (\<lambda>kv. dk_k kv = k) kvs)"

definition dict_step :: "(dicti, dicti \<times> ut64) map_op \<Rightarrow> dict \<Rightarrow> bool \<times> dict" where
  "dict_step p m =
     (case p of
        Insert k (v, u) \<Rightarrow> dict_add m k v u
      | Update k (v, u) \<Rightarrow> dict_set m k v u
      | Delete k \<Rightarrow> (case dict_del m k of None \<Rightarrow> (False, m) | Some r \<Rightarrow> r))"

lemma bucket_lt: "dict_inv m \<Longrightarrow> dict_bucket m k < d_size m"
  by (simp add: dict_inv_def dict_bucket_def)

lemma bucket_int: "dict_inv m \<Longrightarrow> sint (word_of_nat (dict_bucket m k) :: 32 word) = int (dict_bucket m k)"
proof -
  assume "dict_inv m"
  then have "dict_bucket m k < 2147483648" using bucket_lt [of m k] by (simp add: dict_inv_def)
  then show ?thesis by (simp add: signed_of_nat signed_take_bit_int_eq_self)
qed

lemma dict_lookup_bucket: "dict_inv m \<Longrightarrow> dict_lookup m k = bucket_lookup (bucket_kvs m (dict_bucket m k)) k"
  by (auto simp: dict_lookup_def dict_getr_def bucket_lookup_def bucket_kvs_def dict_inv_def split: option.splits)

lemma bucket_set_lookup: "bucket_lookup (bucket_set kvs k v u) = (bucket_lookup kvs)(k \<mapsto> (v, u))"
  by (induction kvs) (auto simp: bucket_lookup_def fun_eq_iff)

lemma bucket_set_keys: "set (map dk_k (bucket_set kvs k v u)) = insert k (set (map dk_k kvs))"
  "distinct (map dk_k kvs) \<Longrightarrow> distinct (map dk_k (bucket_set kvs k v u))"
proof -
  show keys: "set (map dk_k (bucket_set kvs k v u)) = insert k (set (map dk_k kvs))" for kvs
    by (induction kvs) auto
  show "distinct (map dk_k kvs) \<Longrightarrow> distinct (map dk_k (bucket_set kvs k v u))"
  proof (induction kvs)
    case (Cons kv kvs)
    then show ?case using keys [of kvs] by auto
  qed simp
qed

lemma bucket_del_None: "bucket_del kvs k = None \<longleftrightarrow> bucket_lookup kvs k = None"
  by (induction kvs) (auto simp: bucket_lookup_def)

lemma bucket_del_Some:
  "bucket_del kvs k = Some (x, r) \<Longrightarrow> distinct (map dk_k kvs) \<Longrightarrow>
   bucket_lookup kvs k = Some (dk_v x, dk_u x) \<and> bucket_lookup r = (bucket_lookup kvs)(k := None)
   \<and> set r \<subseteq> set kvs \<and> distinct (map dk_k r)"
proof (induction kvs arbitrary: r)
  case (Cons kv kvs)
  show ?case
  proof (cases "dk_k kv = k")
    case True
    then have "\<forall>e \<in> set kvs. dk_k e \<noteq> k" using Cons.prems(2) by (metis distinct.simps(2) image_eqI list.set_map list.simps(9))
    then have "find (\<lambda>e. dk_k e = k) kvs = None" by (auto simp: find_None_iff)
    then show ?thesis using Cons.prems True by (auto simp: bucket_lookup_def fun_eq_iff)
  next
    case False
    then obtain r' where r: "bucket_del kvs k = Some (x, r')" "r = kv # r'" using Cons.prems(1) by auto
    then have "set r' \<subseteq> set kvs" using Cons by auto
    then show ?thesis using Cons.IH [OF r(1)] Cons.prems(2) False r(2)
      by (auto simp: bucket_lookup_def fun_eq_iff)
  qed
qed simp

lemma bucket_upd:
  "length (d_table m) = d_size m \<Longrightarrow> i < d_size m \<Longrightarrow>
   bucket_kvs (m\<lparr>d_table := (d_table m)[i := Some kvs]\<rparr>) j = (if j = i then kvs else bucket_kvs m j)"
  by (auto simp: bucket_kvs_def nth_list_update)

text \<open>Replacing the bucket of a key.\<close>

lemma bucket_replace:
  assumes "dict_inv m" "distinct (map dk_k kvs)" "set (map dk_k kvs) \<subseteq> insert k (set (map dk_k (bucket_kvs m (dict_bucket m k))))"
    "k \<noteq> 0" "d_table m' = (d_table m)[dict_bucket m k := Some kvs]" "d_size m' = d_size m"
  shows "dict_inv m'"
    "bucket_lookup kvs = (bucket_lookup (bucket_kvs m (dict_bucket m k)))(k := x) \<Longrightarrow> dict_lookup m' = (dict_lookup m)(k := x)"
proof -
  let ?b = "dict_bucket m k"
  have len: "length (d_table m) = d_size m" "?b < d_size m" using assms(1) bucket_lt by (auto simp: dict_inv_def)
  have kv: "bucket_kvs m' j = (if j = ?b then kvs else bucket_kvs m j)" for j
    using len assms(5) by (auto simp: bucket_kvs_def nth_list_update)
  have keys: "key \<noteq> 0 \<and> unat key mod d_size m = ?b" if "key \<in> set (map dk_k kvs)" for key
    using that assms(1,3,4) len(2) by (auto simp: dict_inv_def dict_bucket_def)
  show inv: "dict_inv m'"
    using assms(1,2,5,6) keys by (auto simp: dict_inv_def kv)
  show "dict_lookup m' = (dict_lookup m)(k := x)"
    if l: "bucket_lookup kvs = (bucket_lookup (bucket_kvs m ?b))(k := x)"
  proof
    fix j
    have "dict_bucket m' j = dict_bucket m j" using assms(6) by (simp add: dict_bucket_def)
    moreover have "dict_bucket m j = ?b \<or> j \<noteq> k" by auto
    ultimately show "dict_lookup m' j = ((dict_lookup m)(k := x)) j"
      using l by (auto simp: dict_lookup_bucket [OF inv] dict_lookup_bucket [OF assms(1)] kv)
  qed
qed

lemma dict_set_refines:
  assumes "dict_inv m" "k \<noteq> 0" "dict_set m k v u = (r, m')"
  shows "r" "dict_inv m'" "dict_lookup m' = (dict_lookup m)(k \<mapsto> (v, u))"
proof -
  let ?b = "dict_bucket m k"
  let ?kvs = "bucket_set (bucket_kvs m ?b) k v u"
  have sz: "d_size m \<noteq> 0" using assms(1) by (simp add: dict_inv_def)
  have m': "m' = m\<lparr>d_table := (d_table m)[?b := Some ?kvs]\<rparr>" and "r"
    using assms sz by (auto simp: dict_set_def Let_def bucket_kvs_def)
  then show "r" by simp
  have d: "distinct (map dk_k ?kvs)"
    using assms(1) bucket_lt [OF assms(1)] by (intro bucket_set_keys) (auto simp: dict_inv_def)
  note x = bucket_replace [OF assms(1) d _ assms(2), of m']
  show "dict_inv m'" "dict_lookup m' = (dict_lookup m)(k \<mapsto> (v, u))"
    using x(1) x(2) [where x = "Some (v, u)"] bucket_set_keys(1) by (auto simp: m' bucket_set_lookup)
qed

lemma dict_del_refines:
  assumes "dict_inv m" "k \<noteq> 0"
  shows "\<exists>m'. dict_del m k = Some (dict_lookup m k \<noteq> None, m') \<and> dict_inv m' \<and> dict_lookup m' = (dict_lookup m)(k := None)"
proof -
  let ?b = "dict_bucket m k"
  have sz: "d_size m \<noteq> 0" using assms(1) by (simp add: dict_inv_def)
  have dk: "distinct (map dk_k (bucket_kvs m ?b))" using assms(1) bucket_lt [OF assms(1)] by (auto simp: dict_inv_def)
  show ?thesis
  proof (cases "bucket_del (bucket_kvs m ?b) k")
    case None
    then have l: "dict_lookup m k = None" by (simp add: bucket_del_None dict_lookup_bucket [OF assms(1)])
    have "dict_del m k = Some (False, m)"
      using None assms(2) sz by (auto simp: dict_del_def bucket_kvs_def Let_def split: option.splits)
    then show ?thesis using l assms(1) by (auto simp: fun_upd_idem)
  next
    case (Some p)
    obtain x r where p: "p = (x, r)" by fastforce
    note del = bucket_del_Some [OF Some [unfolded p] dk]
    define m' where "m' = m\<lparr>d_freed := (if d_f m then d_freed m @ [dk_u x] else d_freed m),
        d_table := (d_table m)[?b := Some r]\<rparr>"
    have "dict_del m k = Some (True, m')"
      using Some p assms(2) sz by (auto simp: dict_del_def bucket_kvs_def Let_def m'_def split: option.splits)
    moreover have "dict_lookup m k \<noteq> None" using del by (simp add: dict_lookup_bucket [OF assms(1)])
    moreover have "set (map dk_k r) \<subseteq> insert k (set (map dk_k (bucket_kvs m ?b)))" using del by auto
    then have "dict_inv m'" "dict_lookup m' = (dict_lookup m)(k := None)"
      using bucket_replace(1) [OF assms(1) _ _ assms(2), of r m'] bucket_replace(2) [OF assms(1) _ _ assms(2), of r m' None] del
      by (auto simp: m'_def)
    ultimately show ?thesis by auto
  qed
qed

interpretation dict_map: map_impl dict_lookup dict_step dict_inv "\<lambda>m. 0" cap "\<lambda>k. k \<noteq> 0" for cap
proof unfold_locales
  fix m p r m'
  assume a: "dict_inv m" "op_key p \<noteq> (0 :: dicti)" "dict_step p m = (r, m')"
  have n: "dict_getr m k = None \<longleftrightarrow> dict_lookup m k = None" for k by (simp add: dict_lookup_def)
  have "spec_op p (dict_lookup m) = (r, dict_lookup m') \<and> dict_inv m'"
  proof (cases p)
    case (Insert k x)
    obtain v u where x: "x = (v, u)" by fastforce
    show ?thesis
      using a Insert x dict_set_refines [OF a(1), of k v u r m'] by (auto simp: dict_step_def dict_add_def n split: if_splits)
  next
    case (Update k x)
    obtain v u where x: "x = (v, u)" by fastforce
    show ?thesis using a Update x dict_set_refines [OF a(1), of k v u r m'] by (auto simp: dict_step_def)
  next
    case (Delete k)
    then show ?thesis using a dict_del_refines [OF a(1), of k] by (auto simp: dict_step_def)
  qed
  then show "spec_op p (dict_lookup m) = (r, dict_lookup m')" "dict_inv m' \<and> 0 \<le> (0::nat) + 1" by simp_all
qed

lemma dict_new_ok:
  assumes "unat sz \<le> 2 ^ 31"
  shows "dict_inv (dict_new sz f)" "dict_lookup (dict_new sz f) = Map.empty"
proof -
  show 1: "dict_inv (dict_new sz f)" using assms by (auto simp: dict_inv_def dict_new_def dict_init_def bucket_kvs_def)
  then have "dict_bucket (dict_new sz f) k < max (unat sz) 1" for k
    using bucket_lt [OF 1] by (simp add: dict_new_def dict_init_def)
  then show "dict_lookup (dict_new sz f) = Map.empty"
    unfolding fun_eq_iff dict_lookup_bucket [OF 1] by (simp add: bucket_lookup_def bucket_kvs_def dict_new_def dict_init_def)
qed

text \<open>
  C35.  The dictionary refines a finite map: on a new dictionary of any size up to \<open>2\<^sup>3\<^sup>1\<close>, any sequence of \<^verbatim>\<open>dict_add\<close>,
  \<^verbatim>\<open>dict_set\<close> and \<^verbatim>\<open>dict_del\<close> calls with non-zero keys returns what the map operations return and leaves
  the entries of the map, and \<^verbatim>\<open>dict_get\<close> reads them.
\<close>

theorem dict_refines_map:
  assumes "unat sz \<le> 2 ^ 31" "\<forall>p \<in> set ps. op_key p \<noteq> 0" "run_ops dict_step ps (dict_new sz f) = (rs, m)"
  shows "run_ops spec_op ps Map.empty = (rs, dict_lookup m) \<and> dict_inv m
     \<and> dict_get m k = (case dict_lookup m k of None \<Rightarrow> 0 | Some (v, u) \<Rightarrow> v)"
proof -
  have "run_ops spec_op ps (dict_lookup (dict_new sz f)) = (rs, dict_lookup m) \<and> dict_inv m"
    using dict_map.run_ops_refines [OF dict_new_ok(1) [OF assms(1)] _ assms(2,3), of "length ps"] by simp
  then show ?thesis by (simp add: dict_new_ok(2) [OF assms(1)] dict_get_def dict_lookup_def split: option.splits)
qed

theorem dict_refines_map_witness:
  "run_ops spec_op [Insert 1 (2, 3), Update 1 (4, 5), Delete (9 :: dicti)] Map.empty
     = (fst (run_ops dict_step [Insert 1 (2, 3), Update 1 (4, 5), Delete 9] (dict_new 4 False)),
        dict_lookup (snd (run_ops dict_step [Insert 1 (2, 3), Update 1 (4, 5), Delete 9] (dict_new 4 False))))"
  using dict_refines_map [OF _ _ prod.collapse [symmetric], of 4 "[Insert 1 (2, 3), Update 1 (4, 5), Delete 9]"] by simp

text \<open>The key 0 marks the end of a bucket, and is refused.\<close>

lemma dict_zero_key: "dict_set m 0 v u = (False, m)" "dict_del m 0 = Some (False, m)"
  by (simp_all add: dict_set_def dict_del_def)

text \<open>
  \<^verbatim>\<open>dict_fini\<close> leaves a dictionary without buckets, which \<^verbatim>\<open>dict_set\<close> and \<^verbatim>\<open>dict_getr\<close> accept; \<^verbatim>\<open>dict_del\<close> reads
  through its NULL table.
\<close>

lemma dict_fini_then_use:
  "dict_set (dict_fini m) k v u = (False, dict_fini m)" "dict_getr (dict_fini m) k = None"
  "k \<noteq> 0 \<Longrightarrow> dict_del (dict_fini m) k = None"
  by (simp_all add: dict_set_def dict_getr_def dict_del_def dict_fini_def dict_init_def)

lemma foreach_bucket_all: "(\<And>u kv. cb u kv = (False, g kv u)) \<Longrightarrow> foreach_bucket cb kvs u = (True, fold g kvs u)"
  by (induction kvs arbitrary: u) auto

lemma dict_foreach_all:
  assumes "\<And>u kv. cb u kv = (False, g kv u)"
  shows "dict_foreach m cb u = fold g (concat (map (\<lambda>b. case b of None \<Rightarrow> [] | Some kvs \<Rightarrow> kvs) (d_table m))) u"
proof -
  have "foreach_table cb bs u = fold g (concat (map (\<lambda>b. case b of None \<Rightarrow> [] | Some kvs \<Rightarrow> kvs) bs)) u" for bs
    by (induction bs arbitrary: u) (auto simp: foreach_bucket_all [of cb g, OF assms])
  then show ?thesis by (simp add: dict_foreach_def)
qed

end
