(* ===== verification/Disk.thy ===== *)
theory Disk
  imports Iter
begin

text \<open>
  The file of a database: \<^verbatim>\<open>src/disk.c\<close>, and \<^verbatim>\<open>sdb_open\<close> and \<^verbatim>\<open>sdb_sync\<close> of \<^verbatim>\<open>src/sdb.c\<close>.

  \<^item> \<open>store\<close> is a database together with the fields of \<^verbatim>\<open>struct sdb_t\<close> that concern its file (\<^verbatim>\<open>name\<close>, \<^verbatim>\<open>dir\<close>, \<^verbatim>\<open>ndump\<close>,
    whether \<^verbatim>\<open>fdump\<close> is open, the writer \<^verbatim>\<open>m\<close>) and the file system, a map from names to contents.
  \<^item> \<open>io\<close> is the outcome of the system calls of one operation: whether the temporary file can be created, the room
    on the device, whether \<^verbatim>\<open>fsync\<close>, \<^verbatim>\<open>close\<close> and the replacing \<^verbatim>\<open>rename\<close> succeed, whether \<^verbatim>\<open>sdb_text_check\<close> can open and
    read the file, whether \<^verbatim>\<open>sdb_open\<close> can open it, whether \<^verbatim>\<open>fstat\<close> works on it, and whether that finds a regular file
    and which time stamp.  Memory is always available, as in the other theories.
  \<^item> \<open>load\<close> stands for \<^verbatim>\<open>sdb_text_load\<close> of \<open>Text\<close> on the contents of a file in the text format; the properties hold for any.
\<close>

section \<open>Operations\<close>

record io =
  io_create :: bool
  io_room :: nat
  io_fsync :: bool
  io_close :: bool
  io_replace :: bool
  io_check :: bool
  io_read :: bool
  io_stat :: bool
  io_regular :: bool
  io_mtime :: ut64

record store =
  st_s :: sdb
  st_name :: "string option"
  st_dir :: "string option"
  st_ndump :: "string option"
  st_fdump :: bool
  st_m :: cdb_make
  st_fs :: files

text \<open>
  \<^verbatim>\<open>sdb_text_check\<close> of \<^verbatim>\<open>src/text.c\<close>: the first bytes of the file up to a NUL; \<^verbatim>\<open>char\<close> is signed.
\<close>

fun text_scan :: "string \<Rightarrow> bool \<Rightarrow> bool \<Rightarrow> bool \<Rightarrow> bool \<times> bool \<times> bool" where
  "text_scan [] ascii eq nl = (ascii, eq, nl)"
| "text_scan (c # cs) ascii eq nl =
     (if c = CHR ''='' then text_scan cs ascii True nl
      else if c = CHR 0x0A then text_scan cs ascii eq True
      else if \<not> eq \<and> (schar c < 10 \<or> schar c > 126) then text_scan cs False eq nl
      else text_scan cs ascii eq nl)"

definition sdb_text_check :: "bytes \<Rightarrow> bool" where
  "sdb_text_check f =
     (let n = min (length f) 64 in
      if n < 1 then False
      else case text_scan (cstring (take 63 (take n f))) True False False of
        (ascii, eq, nl) \<Rightarrow> n > 4 \<and> ascii \<and> nl \<and> eq)"

text \<open>
  The end of \<^verbatim>\<open>sdb_open\<close>, from \<^verbatim>\<open>s->last = 0LL\<close> on: what \<^verbatim>\<open>fstat\<close> does not take for a regular file is closed again,
  and a file on which \<^verbatim>\<open>fstat\<close> fails is used without a time stamp.
\<close>

definition open_cdb :: "io \<Rightarrow> sdb \<Rightarrow> bool \<times> sdb" where
  "open_cdb env s =
     (let s = s\<lparr>s_last := 0\<rparr> in
      case s_fd s of
        None \<Rightarrow> (False, s)
      | Some f \<Rightarrow>
          if io_stat env \<and> \<not> io_regular env then (False, s\<lparr>s_fd := None\<rparr>)
          else
            let s = (if io_stat env then s\<lparr>s_last := io_mtime env\<rparr> else s)
            in (True, s\<lparr>s_db := snd (cdb_init (s_db s) (Some f))\<rparr>))"

definition open_file :: "io \<Rightarrow> store \<Rightarrow> string \<Rightarrow> bool \<times> store" where
  "open_file env st f =
     (case open_cdb env ((st_s st)\<lparr>s_fd := (if io_read env then st_fs st f else None), s_db := (s_db (st_s st))\<lparr>c_fd := None\<rparr>\<rparr>) of
        (ok, s) \<Rightarrow> (ok, st\<lparr>st_dir := Some f, st_s := s\<rparr>))"

definition sdb_open :: "io \<Rightarrow> (bytes \<Rightarrow> sdb \<Rightarrow> bool \<times> sdb) \<Rightarrow> store \<Rightarrow> string option \<Rightarrow> bool \<times> store" where
  "sdb_open env load st file =
     (case file of
        None \<Rightarrow> (case open_cdb env (st_s st) of (ok, s) \<Rightarrow> (ok, st\<lparr>st_s := s\<rparr>))
      | Some f \<Rightarrow>
          (case if io_check env then st_fs st f else None of
             Some b \<Rightarrow> if sdb_text_check b
               then (case load b (st_s st) of (ok, s) \<Rightarrow> (ok \<and> s_fd s \<noteq> None, st\<lparr>st_s := s\<rparr>))
               else open_file env st f
           | None \<Rightarrow> open_file env st f))"

definition sdb_disk_create :: "io \<Rightarrow> store \<Rightarrow> bool \<times> store" where
  "sdb_disk_create env st =
     (if st_fdump st then (False, st)
      else
        let st = (if st_dir st = None then st\<lparr>st_dir := st_name st\<rparr> else st);
            dir = (case st_dir st of None \<Rightarrow> ''./'' | Some d \<Rightarrow> d);
            str = dir @ ''.tmp'';
            st = st\<lparr>st_ndump := None\<rparr>
        in if \<not> io_create env then (False, st)
           else (True, st\<lparr>st_fdump := True, st_ndump := Some str, st_fs := (st_fs st)(str \<mapsto> []),
                          st_m := cdb_make_start (st_m st) \<lparr>f_data = [], f_off = 0, f_room = io_room env\<rparr>\<rparr>))"

definition sdb_disk_insert :: "cdb_make \<Rightarrow> string \<Rightarrow> string option \<Rightarrow> bool \<times> cdb_make" where
  "sdb_disk_insert m key val =
     (case val of None \<Rightarrow> (False, m) | Some v \<Rightarrow> cdb_make_add m key (length key) v (length v))"

definition close_current_database :: "sdb \<Rightarrow> sdb" where
  "close_current_database s = s\<lparr>s_db := (cdb_fini (s_db s))\<lparr>c_fd := None\<rparr>, s_fd := None\<rparr>"

definition sdb_disk_abort :: "store \<Rightarrow> store" where
  "sdb_disk_abort st =
     st\<lparr>st_m := cdb_make_cancel (st_m st), st_fdump := False, st_ndump := None,
        st_fs := (case st_ndump st of None \<Rightarrow> st_fs st | Some f \<Rightarrow> (st_fs st)(f := None))\<rparr>"

text \<open>\<^verbatim>\<open>sdb_disk_finish\<close>; the contents of the temporary file are those of the writer's descriptor.\<close>

definition sdb_disk_finish :: "io \<Rightarrow> (bytes \<Rightarrow> sdb \<Rightarrow> bool \<times> sdb) \<Rightarrow> store \<Rightarrow> bool \<times> store" where
  "sdb_disk_finish env load st =
     (case (st_fdump st, st_ndump st, st_dir st) of
        (True, Some tmp, Some dir) \<Rightarrow>
          (case cdb_make_finish (st_m st) of
             None \<Rightarrow> (False, st)
           | Some (ok, m) \<Rightarrow>
               let st = st\<lparr>st_m := m, st_fdump := False, st_fs := (st_fs st)(tmp \<mapsto> f_data (b_fd (m_b m)))\<rparr> in
               if \<not> (ok \<and> io_fsync env \<and> io_close env) then (False, sdb_disk_abort st)
               else
                 let st = st\<lparr>st_s := close_current_database (st_s st)\<rparr> in
                 if \<not> io_replace env then (False, snd (sdb_open env load (sdb_disk_abort st) (Some dir)))
                 else
                   let st = st\<lparr>st_fs := (st_fs st)(dir := st_fs st tmp, tmp := None), st_ndump := None\<rparr>
                   in sdb_open env load st (Some dir))
      | _ \<Rightarrow> (False, sdb_disk_abort st))"

definition sdb_disk_unlink :: "store \<Rightarrow> bool \<times> store" where
  "sdb_disk_unlink st =
     (let st = st\<lparr>st_s := close_current_database (st_s st)\<rparr> in
      case st_dir st of
        None \<Rightarrow> (False, st)
      | Some d \<Rightarrow> if d = [] then (False, st) else (st_fs st d \<noteq> None, st\<lparr>st_fs := (st_fs st)(d := None)\<rparr>))"

section \<open>Synchronising\<close>

text \<open>The user data of the callbacks: the keys that were written and are in memory, and the writer.\<close>

type_synonym sync = "SetP \<times> cdb_make"

definition sync_has_persisted :: "SetP \<Rightarrow> string \<Rightarrow> bool" where
  "sync_has_persisted p key = (case ht_find p key of None \<Rightarrow> False | Some x \<Rightarrow> x \<noteq> 0)"

definition insert_into_disk :: "string \<Rightarrow> string option \<Rightarrow> sync \<Rightarrow> bool \<times> sync" where
  "insert_into_disk key val u =
     (if sync_has_persisted (fst u) key then (True, u)
      else case sdb_disk_insert (snd u) key val of (b, m) \<Rightarrow> (b, fst u, m))"

definition mark_persisted :: "string \<Rightarrow> string option \<Rightarrow> sync \<Rightarrow> bool \<times> sync" where
  "mark_persisted key val u =
     (if sync_has_persisted (fst u) key then (True, u)
      else case ht_insert (fst u) key 1 () of (b, p) \<Rightarrow> (b, p, snd u))"

text \<open>The loop that appends the new keys; it does not change the table.\<close>

fun sync_entries :: "sdb_kv list \<Rightarrow> sync \<Rightarrow> bool \<times> sync" where
  "sync_entries [] u = (True, u)"
| "sync_entries (kv # kvs) u =
     (if kv_value kv \<noteq> None \<and> kv_value kv \<noteq> Some [] \<and> kv_expire kv = 0 \<and> \<not> sync_has_persisted (fst u) (kv_key kv) then
        (case sdb_disk_insert (snd u) (kv_key kv) (kv_value kv) of
           (False, m) \<Rightarrow> (False, fst u, m)
         | (True, m) \<Rightarrow>
             (case mark_persisted (kv_key kv) (kv_value kv) (fst u, m) of
                (False, u) \<Rightarrow> (False, u)
              | (True, u) \<Rightarrow> sync_entries kvs u))
      else sync_entries kvs u)"

definition remove_persisted :: "sdb \<Rightarrow> string \<Rightarrow> nat \<Rightarrow> bool \<times> sdb" where
  "remove_persisted s key val = (True, s\<lparr>s_ht := snd (sdb_ht_delete (s_ht s) key)\<rparr>)"

definition sdb_sync :: "io \<Rightarrow> (bytes \<Rightarrow> sdb \<Rightarrow> bool \<times> sdb) \<Rightarrow> store \<Rightarrow> bool \<times> store" where
  "sdb_sync env load st =
     (case sdb_disk_create env st of
        (False, st) \<Rightarrow> (False, st)
      | (True, st) \<Rightarrow>
          (case sdb_foreach_cdb (pure_cb insert_into_disk) (Some (pure_cb mark_persisted)) ((ht_pp_new0, st_m st), st_s st) of
             (ok, u, s) \<Rightarrow>
               let st = st\<lparr>st_s := s, st_m := snd u\<rparr> in
               if \<not> ok then (False, sdb_disk_abort st)
               else
                 (case sync_entries (ht_entries (s_ht s)) u of
                    (ok, p, m) \<Rightarrow>
                      let st = st\<lparr>st_m := m\<rparr> in
                      if \<not> ok then (False, sdb_disk_abort st)
                      else
                        (case sdb_disk_finish env load st of
                           (False, st) \<Rightarrow> (False, sdb_disk_abort st)
                         | (True, st) \<Rightarrow>
                             let s = ht_foreach p remove_persisted (st_s st)
                             in (True, st\<lparr>st_s := snd (sdb_journal_clear s)\<rparr>)))))"

section \<open>Walking over a file\<close>

text \<open>
  The records that \<^verbatim>\<open>sdb_dump_dupnext\<close> reads back: a key of 254 characters is not read although the writer
  takes it, nor is an empty one.
\<close>

definition dump_ok :: "rec \<Rightarrow> bool" where
  "dump_ok r \<longleftrightarrow> nonul (fst r) \<and> nonul (snd r) \<and> fst r \<noteq> [] \<and> length (fst r) < 254 \<and> length (snd r) + 1 < SDB_MAX_VALUE"

lemma dump_ok_rec: "dump_ok r \<Longrightarrow> rec_ok r"
  by (simp add: dump_ok_def rec_ok_def SDB_MAX_KEY_def)

text \<open>
  Nothing marks the end of the records; the walk goes on into the hash tables behind them and has to
  stop at their first bytes, taken for a length header.
\<close>

definition stops :: "bytes \<Rightarrow> bool" where
  "stops T \<longleftrightarrow> length T < 4 \<or>
     (let k = of_char (T ! 0) :: nat; v = of_char (T ! 1) + of_char (T ! 2) * 256 + of_char (T ! 3) * 65536 :: nat;
          n = (if k > SDB_MIN_KEY \<and> k < SDB_MAX_KEY then k else 0)
      in k < 1 \<or> v < 1 \<or> length T < 4 + n \<or> v < SDB_MAX_VALUE \<and> length T < 4 + n + v)"

definition walk_ends :: "rec list \<Rightarrow> bool" where
  "walk_ends rs \<longleftrightarrow> stops (tables_bytes (hps 1024 rs) 256)"

lemma getbytes_at:
  assumes "maps_file (s_db s) (A @ X @ B)" "s_pos s = length A"
  shows "getbytes s (length X) = (Some X, s\<lparr>s_pos := length A + length X\<rparr>)"
proof -
  have "length A + length X < 2 ^ 32" using assms(1) by (simp add: maps_file_def)
  then show ?thesis using read_at [OF assms(1)] assms(2) by (simp add: getbytes_def)
qed

lemma dupnext_rec:
  assumes "maps_file (s_db s) F" "F = A @ rec_bytes r @ B" "s_pos s = length A" "dump_ok r"
  shows "sdb_dump_dupnext s = (Some (fst r, Some (snd r), length (snd r) + 1), s\<lparr>s_pos := length A + length (rec_bytes r)\<rparr>)"
proof -
  let ?H = "kvlen_bytes (length (fst r) + 1) (length (snd r) + 1)"
  have kv: "cdb_getkvlen (s_db s) (s_pos s) = (True, length (fst r) + 1, length (snd r) + 1)"
    using kvlen_read [OF assms(1,2) dump_ok_rec [OF assms(4)]] assms(3) by simp
  have lt: "length A + 4 < 2 ^ 32" using assms(1,2) by (simp add: maps_file_def rec_bytes_def)
  let ?s1 = "s\<lparr>s_pos := length A + 4\<rparr>" and ?K = "fst r @ [NUL]" and ?V = "snd r @ [NUL]"
  have F: "F = (A @ ?H) @ ?K @ (?V @ B)" "F = (A @ ?H @ ?K) @ ?V @ B" using assms(2) by (simp_all add: rec_bytes_def)
  have k: "getbytes ?s1 (length ?K) = (Some ?K, s\<lparr>s_pos := length A + 4 + length ?K\<rparr>)"
    using getbytes_at [of ?s1 "A @ ?H" ?K "?V @ B"] assms(1) F(1) by simp
  have v: "getbytes (s\<lparr>s_pos := length A + 4 + length ?K\<rparr>) (length ?V) = (Some ?V, s\<lparr>s_pos := length A + 4 + length ?K + length ?V\<rparr>)"
    using getbytes_at [of "s\<lparr>s_pos := length A + 4 + length ?K\<rparr>" "A @ ?H @ ?K" ?V B] assms(1) F(2) by (simp add: add.assoc)
  have ks: "SDB_MIN_KEY < length (fst r) + 1" "length (fst r) + 1 < SDB_MAX_KEY" "length (snd r) + 1 < SDB_MAX_VALUE"
    using assms(4) by (auto simp: dump_ok_def SDB_MIN_KEY_def SDB_MAX_KEY_def)
  have c: "cstring ?K = fst r" "cstring ?V = snd r"
    using assms(4) cstring_terminated [of "fst r" "[]"] cstring_terminated [of "snd r" "[]"] by (auto simp: dump_ok_def)
  have dk: "dupnext_key ?s1 (length (fst r) + 1) = (Some (fst r), s\<lparr>s_pos := length A + 4 + length ?K\<rparr>)"
    using k ks c by (simp add: dupnext_key_def)
  have dv: "dupnext_value (s\<lparr>s_pos := length A + 4 + length ?K\<rparr>) (length (snd r) + 1)
      = (Some (Some (snd r)), s\<lparr>s_pos := length A + 4 + length ?K + length ?V\<rparr>)"
    using v ks c by (simp add: dupnext_value_def)
  show ?thesis unfolding sdb_dump_dupnext_def kv using dk dv lt assms(3) by (simp add: rec_bytes_def)
qed

lemma cdb_read_end: "maps_file c (A @ T) \<Longrightarrow> length T < n \<Longrightarrow> cdb_read c n (length A + 0) = None"
  by (simp add: maps_file_def cdb_read_def)

lemma dupnext_stops:
  assumes "maps_file (s_db s) (A @ T)" "s_pos s = length A" "stops T"
  shows "\<exists>p. sdb_dump_dupnext s = (None, s\<lparr>s_pos := p\<rparr>)"
proof (cases "length T < 4")
  case True
  then have "cdb_getkvlen (s_db s) (s_pos s) = (False, 0, 0)"
    using cdb_read_end [OF assms(1) True] assms(2) by (simp add: cdb_getkvlen_def)
  then show ?thesis by (auto simp: sdb_dump_dupnext_def intro!: exI [of _ "s_pos s"])
next
  case False
  note big = False
  let ?H = "take 4 T" and ?B = "drop 4 T"
  have len: "length ?H = 4" "T = ?H @ ?B" using False by auto
  define k where "k = (of_char (T ! 0) :: nat)"
  define v where "v = (of_char (T ! 1) + of_char (T ! 2) * 256 + of_char (T ! 3) * 65536 :: nat)"
  define n where "n = (if k > SDB_MIN_KEY \<and> k < SDB_MAX_KEY then k else 0)"
  have rd: "cdb_read (s_db s) 4 (length A) = Some ?H" using read_at [of "s_db s" A ?H ?B] assms(1) len by simp
  have "v \<le> CDB_MAX_VALUE"
    using of_char_lt_256 [of "T ! 1"] of_char_lt_256 [of "T ! 2"] of_char_lt_256 [of "T ! 3"]
    unfolding v_def CDB_MAX_VALUE_def by linarith
  then have kv: "cdb_getkvlen (s_db s) (s_pos s) = (True, k, v)"
    using rd assms(2) by (simp add: cdb_getkvlen_def k_def v_def Let_def)
  have lt: "length A + length T < 2 ^ 32" using assms(1) by (simp add: maps_file_def)
  have st: "k < 1 \<or> v < 1 \<or> length T < 4 + n \<or> v < SDB_MAX_VALUE \<and> length T < 4 + n + v"
    using assms(3) False unfolding stops_def Let_def n_def k_def v_def by blast
  let ?s1 = "s\<lparr>s_pos := length A + 4\<rparr>"
  have nx: "(s_pos s + 4) mod 2 ^ 32 = length A + 4" using lt False assms(2) by simp
  have gb: "getbytes t m = (None, t)" if "s_db t = s_db s" "s_pos t = length A + j" "length T < j + m" for j m and t :: sdb
    using that assms(1) by (auto simp: getbytes_def cdb_read_def maps_file_def)
  have dk: "fst (dupnext_key ?s1 k) = None \<and> snd (dupnext_key ?s1 k) = ?s1 \<or> (\<exists>x. dupnext_key ?s1 k = (Some x, s\<lparr>s_pos := length A + 4 + n\<rparr>))"
  proof (cases "n = 0 \<or> length T < 4 + n")
    case True
    then show ?thesis using gb [of ?s1 4 k] by (auto simp: dupnext_key_def n_def split: if_splits)
  next
    case f: False
    have "cdb_read (s_db s) k (length A + 4) = Some (take k (drop 4 T))" "length A + 4 + k < 2 ^ 32"
      using read_maps [OF assms(1), of "length A + 4" k] f lt by (auto simp: n_def split: if_splits)
    then show ?thesis using f by (auto simp: dupnext_key_def getbytes_def n_def split: if_splits)
  qed
  show ?thesis
  proof (cases "k < 1 \<or> v < 1 \<or> fst (dupnext_key ?s1 k) = None")
    case True
    then show ?thesis unfolding sdb_dump_dupnext_def kv using nx dk by (auto simp: Let_def split: prod.splits)
  next
    case f: False
    then obtain x where x: "dupnext_key ?s1 k = (Some x, s\<lparr>s_pos := length A + 4 + n\<rparr>)" using dk by auto
    have "\<not> length T < 4 + n" using f big gb [of ?s1 4 k] by (auto simp: dupnext_key_def n_def split: if_splits)
    then have vs: "v < SDB_MAX_VALUE" "length T < 4 + n + v" using st f by auto
    then have "dupnext_value (s\<lparr>s_pos := length A + 4 + n\<rparr>) v = (None, s\<lparr>s_pos := length A + 4 + n\<rparr>)"
      using gb [of "s\<lparr>s_pos := length A + 4 + n\<rparr>" "4 + n" v] by (simp add: dupnext_value_def add.assoc)
    then show ?thesis unfolding sdb_dump_dupnext_def kv using nx x f by auto
  qed
qed


text \<open>The walk as a loop over the records, for callbacks that leave the database alone.\<close>

definition rec_step :: "(string \<Rightarrow> string option \<Rightarrow> 'u \<Rightarrow> bool \<times> 'u) \<Rightarrow> (string \<Rightarrow> string option \<Rightarrow> 'u \<Rightarrow> bool \<times> 'u) \<Rightarrow>
    sdb_ht \<Rightarrow> rec \<Rightarrow> 'u \<Rightarrow> bool \<times> 'u" where
  "rec_step f g ht r u =
     (case sdb_ht_find_kvp ht (fst r) of
        Some kv \<Rightarrow>
          (case kv_value kv of
             None \<Rightarrow> (True, u)
           | Some w \<Rightarrow> (case f (kv_key kv) (Some w) u of (False, u) \<Rightarrow> (False, u) | (True, u) \<Rightarrow> g (fst r) (Some w) u))
      | None \<Rightarrow> f (fst r) (Some (snd r)) u)"

fun walk_recs :: "(rec \<Rightarrow> 'u \<Rightarrow> bool \<times> 'u) \<Rightarrow> rec list \<Rightarrow> 'u \<Rightarrow> bool \<times> 'u" where
  "walk_recs f [] u = (True, u)"
| "walk_recs f (r # rs) u = (case f r u of (False, u) \<Rightarrow> (False, u) | (True, u) \<Rightarrow> walk_recs f rs u)"

lemma cdb_record_pure:
  "cdb_record (pure_cb f) (Some (pure_cb g)) k (Some v) (u, s) = (case rec_step f g (s_ht s) (k, v) u of (b, u) \<Rightarrow> (b, u, s))"
  by (auto simp: cdb_record_def rec_step_def split: option.splits prod.splits bool.splits)

lemma foreach_loop_file:
  assumes "maps_file (s_db s) (A @ concat (map rec_bytes rs) @ T)" "s_pos s = length A" "\<forall>r \<in> set rs. dump_ok r"
    "stops T" "length rs < fuel"
  shows "\<exists>p. foreach_cdb_loop fuel (pure_cb f) (Some (pure_cb g)) (u, s)
     = (case walk_recs (rec_step f g (s_ht s)) rs u of (b, u) \<Rightarrow> (b, u, s\<lparr>s_pos := p\<rparr>))"
  using assms
proof (induction rs arbitrary: A u s fuel)
  case Nil
  then obtain n where n: "fuel = Suc n" by (cases fuel) auto
  show ?case using dupnext_stops [of s A T] Nil.prems n by auto
next
  case (Cons r rs)
  then obtain n where n: "fuel = Suc n" "length rs < n" by (cases fuel) auto
  let ?s = "s\<lparr>s_pos := length A + length (rec_bytes r)\<rparr>"
  have d: "sdb_dump_dupnext s = (Some (fst r, Some (snd r), length (snd r) + 1), ?s)"
    using dupnext_rec [OF Cons.prems(1), of A r] Cons.prems(2,3) by simp
  have IH: "\<exists>p. foreach_cdb_loop n (pure_cb f) (Some (pure_cb g)) (u', ?s)
     = (case walk_recs (rec_step f g (s_ht ?s)) rs u' of (b, u) \<Rightarrow> (b, u, ?s\<lparr>s_pos := p\<rparr>))" for u'
    by (rule Cons.IH [of _ "A @ rec_bytes r"]) (use Cons.prems n in simp_all)
  obtain b u' where st: "rec_step f g (s_ht s) r u = (b, u')" by fastforce
  show ?case
  proof (cases b)
    case True
    then show ?thesis using IH [of u'] d st n(1) by (simp add: cdb_record_pure)
  next
    case False
    then show ?thesis using d st n(1) by (auto simp: cdb_record_pure)
  qed
qed

text \<open>The file of a database, if it has one, is a finished constant database.\<close>

definition on_disk :: "sdb \<Rightarrow> rec list \<Rightarrow> bool" where
  "on_disk s rs \<longleftrightarrow>
     (s_fd s = None \<and> c_fd (s_db s) = None \<and> c_map (s_db s) = None \<and> rs = []
      \<or> s_fd s = Some (cdb_file rs) \<and> maps_file (s_db s) (cdb_file rs))
     \<and> (\<forall>r \<in> set rs. dump_ok r)"

lemma foreach_cdb_file:
  assumes "on_disk s rs" "walk_ends rs"
  shows "\<exists>p. sdb_foreach_cdb (pure_cb f) (Some (pure_cb g)) (u, s)
     = (case walk_recs (rec_step f g (s_ht s)) rs u of (b, u) \<Rightarrow> (b, u, s\<lparr>s_pos := p\<rparr>))"
proof (cases "s_fd s = None")
  case True
  then have "sdb_foreach_cdb (pure_cb f) (Some (pure_cb g)) (u, s) = (True, u, s\<lparr>s_pos := 0\<rparr>)" "rs = []"
    using assms(1) by (auto simp: on_disk_def sdb_foreach_cdb_def walk_fuel_def sdb_dump_dupnext_def sdb_dump_begin_def getkvlen_closed)
  then show ?thesis by auto
next
  case False
  let ?E = "hps 1024 rs" and ?H = "final_bytes (length (recs_bytes rs)) (hps 1024 rs) 256"
  have m: "maps_file (s_db s) (cdb_file rs)" "\<forall>r \<in> set rs. dump_ok r" using assms(1) False by (auto simp: on_disk_def)
  have F: "cdb_file rs = ?H @ concat (map rec_bytes rs) @ tables_bytes ?E 256" by (simp add: cdb_file_def)
  have H: "length ?H = 1024" by (simp add: final_bytes_length)
  have "length rs \<le> length (concat (map rec_bytes rs))" by (induction rs) (auto simp: rec_bytes_def)
  then have fuel: "length rs < walk_fuel s" using m(1) F by (simp add: walk_fuel_def maps_file_def)
  let ?s = "s\<lparr>s_pos := 1024\<rparr>"
  have "\<exists>p. foreach_cdb_loop (walk_fuel s) (pure_cb f) (Some (pure_cb g)) (u, ?s)
      = (case walk_recs (rec_step f g (s_ht ?s)) rs u of (b, u) \<Rightarrow> (b, u, ?s\<lparr>s_pos := p\<rparr>))"
    by (rule foreach_loop_file [of _ ?H _ "tables_bytes ?E 256"]) (use m F H fuel assms(2) in \<open>simp_all add: walk_ends_def\<close>)
  then show ?thesis using False by (simp add: sdb_foreach_cdb_def sdb_dump_begin_def)
qed

section \<open>What synchronising writes\<close>

text \<open>The records that the two loops hand to the writer, and the keys they mark.\<close>

fun sync_recs :: "sdb_ht \<Rightarrow> rec list \<Rightarrow> string set \<Rightarrow> rec list \<times> string set" where
  "sync_recs ht [] P = ([], P)"
| "sync_recs ht (r # rs) P =
     (case sdb_ht_find_kvp ht (fst r) of
        None \<Rightarrow> (case sync_recs ht rs P of (out, Q) \<Rightarrow> (if fst r \<in> P then out else r # out, Q))
      | Some kv \<Rightarrow>
          (case kv_value kv of
             None \<Rightarrow> sync_recs ht rs P
           | Some w \<Rightarrow> (case sync_recs ht rs (insert (fst r) P) of
                         (out, Q) \<Rightarrow> (if fst r \<in> P then out else (fst r, w) # out, Q))))"

definition fresh :: "sdb_kv \<Rightarrow> bool" where
  "fresh kv \<longleftrightarrow> kv_value kv \<noteq> None \<and> kv_value kv \<noteq> Some [] \<and> kv_expire kv = 0"

fun sync_new :: "sdb_kv list \<Rightarrow> string set \<Rightarrow> rec list \<times> string set" where
  "sync_new [] P = ([], P)"
| "sync_new (kv # kvs) P =
     (if fresh kv \<and> kv_key kv \<notin> P
      then (case sync_new kvs (insert (kv_key kv) P) of (out, Q) \<Rightarrow> ((kv_key kv, the (kv_value kv)) # out, Q))
      else sync_new kvs P)"

lemma add_all_append:
  "add_all (xs @ ys) c = (case add_all xs c of (False, c) \<Rightarrow> (False, c) | (True, c) \<Rightarrow> add_all ys c)"
  by (induction xs arbitrary: c) (auto split: prod.splits bool.splits)

definition marks :: "SetP \<Rightarrow> string set \<Rightarrow> bool" where
  "marks p P \<longleftrightarrow> set_inv p \<and> dom (ht_find p) = P"

lemma marks_has: "marks p P \<Longrightarrow> sync_has_persisted p k \<longleftrightarrow> k \<in> P"
  by (auto simp: marks_def sync_has_persisted_def set_inv_def split: option.splits)

lemma mark_ok:
  assumes "marks p P" "ht_count p < 2147483647"
  obtains p' where "mark_persisted k v (p, m) = (True, p', m)" "marks p' (insert k P)" "ht_count p' \<le> ht_count p + 1"
proof (cases "k \<in> P")
  case True
  then show ?thesis using assms that [of p] by (simp add: mark_persisted_def marks_has insert_absorb)
next
  case False
  let ?p = "snd (ht_insert p k 1 ())"
  have s: "set_inv p" "ht_inv p" "ht_room p" using assms by (auto simp: marks_def set_inv_def ht_room_def)
  obtain b h where i: "insert_update p k 1 () False = (b, h)" by fastforce
  have "ht_find p k = None" using False assms(1) by (auto simp: marks_def)
  then have "fst (ht_insert p k 1 ())" using insert_update_refines(4) [OF s(2,3) i] i by (simp add: ht_insert_def)
  then have "mark_persisted k v (p, m) = (True, ?p, m)"
    using False assms(1) by (auto simp: mark_persisted_def marks_has split: prod.splits)
  then show ?thesis using that set_table_add [OF s(1) assms(2), of k] assms(1) by (auto simp: marks_def)
qed

lemma insert_ok_unmarked:
  assumes "marks p P" "k \<notin> P"
  shows "insert_into_disk k (Some v) (p, m) = (case cdb_make_add m k (length k) v (length v) of (b, m) \<Rightarrow> (b, p, m))"
  using assms by (simp add: insert_into_disk_def marks_has sdb_disk_insert_def)

lemma insert_ok_marked:
  assumes "marks p P" "k \<in> P"
  shows "insert_into_disk k (Some v) (p, m) = (True, p, m)"
  using assms by (simp add: insert_into_disk_def marks_has)

text \<open>The outcome of a loop: what \<open>add_all\<close> gives on the records \<open>out\<close>.\<close>

definition wrote :: "rec list \<Rightarrow> string set \<Rightarrow> nat \<Rightarrow> cdb_make \<Rightarrow> bool \<times> sync \<Rightarrow> bool" where
  "wrote out Q n m res \<longleftrightarrow>
     (case add_all out m of
        (False, _) \<Rightarrow> \<not> fst res
      | (True, m') \<Rightarrow> fst res \<and> snd (snd res) = m' \<and> marks (fst (snd res)) Q \<and> ht_count (fst (snd res)) \<le> n)"

lemma wrote_Cons:
  assumes "add_all [r] m = (True, m')" "wrote out Q n m' res"
  shows "wrote (r # out) Q n m res"
proof -
  have "add_all (r # out) m = add_all out m'" using assms(1) by (auto split: prod.splits bool.splits)
  then show ?thesis using assms(2) by (simp add: wrote_def)
qed

lemma wrote_fail:
  assumes "add_all [r] m = (False, m')" "\<not> fst res"
  shows "wrote (r # out) Q n m res"
  using assms by (auto simp: wrote_def split: prod.splits bool.splits)

lemma wrote_mono: "wrote out Q n m res \<Longrightarrow> n \<le> n' \<Longrightarrow> wrote out Q n' m res"
  by (auto simp: wrote_def split: prod.splits bool.splits)

lemma walk_recs_wrote:
  assumes "table_wf ht" "marks p P" "ht_count p + length rs \<le> 2147483647"
    "sync_recs ht rs P = (out, Q)"
  shows "wrote out Q (ht_count p + length rs) m (walk_recs (rec_step insert_into_disk mark_persisted ht) rs (p, m))"
  using assms(2-)
proof (induction rs arbitrary: p P m out)
  case Nil
  then show ?case by (simp add: wrote_def)
next
  case (Cons r rs)
  let ?f = "rec_step insert_into_disk mark_persisted ht"
  have c: "ht_count p + length rs \<le> 2147483647" "ht_count p < 2147483647" using Cons.prems(2) by auto
  obtain k v where r: "r = (k, v)" by fastforce
  show ?case
  proof (cases "sdb_ht_find_kvp ht k")
    case None
    obtain out' where o: "sync_recs ht rs P = (out', Q)" "out = (if k \<in> P then out' else r # out')"
      using Cons.prems(3) None r by (auto split: prod.splits)
    have st: "?f r (p, m) = insert_into_disk k (Some v) (p, m)" using None r by (simp add: rec_step_def)
    show ?thesis
    proof (cases "k \<in> P")
      case True
      then show ?thesis using Cons.IH [OF Cons.prems(1) c(1) o(1), of m] st insert_ok_marked [OF Cons.prems(1) True] o(2)
        by (auto intro: wrote_mono)
    next
      case False
      obtain b m1 where a: "cdb_make_add m k (length k) v (length v) = (b, m1)" by fastforce
      have st1: "?f r (p, m) = (b, p, m1)" using st insert_ok_unmarked [OF Cons.prems(1) False] a by simp
      show ?thesis
      proof (cases b)
        case True
        then have "add_all [r] m = (True, m1)" using a r by simp
        from wrote_Cons [OF this wrote_mono [OF Cons.IH [OF Cons.prems(1) c(1) o(1), of m1]]]
        show ?thesis using st1 True False o(2) by simp
      next
        case f: False
        then have "add_all [r] m = (False, m1)" using a r by simp
        from wrote_fail [OF this] show ?thesis using st1 f False o(2) by simp
      qed
    qed
  next
    case (Some kv)
    have key: "kv_key kv = k" using assms(1) Some by (simp add: table_wf_def)
    show ?thesis
    proof (cases "kv_value kv")
      case None
      then show ?thesis using Cons.IH [OF Cons.prems(1) c(1), of out m] Cons.prems(3) Some r
        by (auto simp: rec_step_def intro: wrote_mono)
    next
      case v: (Some w)
      obtain out' where o: "sync_recs ht rs (insert k P) = (out', Q)" "out = (if k \<in> P then out' else (k, w) # out')"
        using Cons.prems(3) Some v r by (auto split: prod.splits)
      have st: "?f r u = (case insert_into_disk k (Some w) u of (False, u) \<Rightarrow> (False, u) | (True, u) \<Rightarrow> mark_persisted k (Some w) u)" for u
        using Some v key r by (auto simp: rec_step_def split: prod.splits bool.splits)
      have IH: "wrote out' Q (ht_count p + length (r # rs)) m' (walk_recs ?f rs (p', m'))"
        if "marks p' (insert k P)" "ht_count p' \<le> ht_count p + 1" for p' m'
        using Cons.IH [OF that(1) _ o(1), of m'] that(2) Cons.prems(2) by (auto intro: wrote_mono)
      show ?thesis
      proof (cases "k \<in> P")
        case True
        obtain p' where "mark_persisted k (Some w) (p, m) = (True, p', m)" "marks p' (insert k P)" "ht_count p' \<le> ht_count p + 1"
          by (rule mark_ok [OF Cons.prems(1) c(2)])
        then show ?thesis using IH [of p' m] st insert_ok_marked [OF Cons.prems(1) True] o(2) True by simp
      next
        case False
        obtain b m1 where a: "cdb_make_add m k (length k) w (length w) = (b, m1)" by fastforce
        have st1: "insert_into_disk k (Some w) (p, m) = (b, p, m1)" using insert_ok_unmarked [OF Cons.prems(1) False] a by simp
        show ?thesis
        proof (cases b)
          case True
          then have a1: "add_all [(k, w)] m = (True, m1)" using a by simp
          obtain p' where p': "mark_persisted k (Some w) (p, m1) = (True, p', m1)" "marks p' (insert k P)" "ht_count p' \<le> ht_count p + 1"
            by (rule mark_ok [OF Cons.prems(1) c(2)])
          from wrote_Cons [OF a1 IH [OF p'(2,3)]] show ?thesis using st st1 p'(1) True False o(2) by simp
        next
          case f: False
          then have "add_all [(k, w)] m = (False, m1)" using a by simp
          from wrote_fail [OF this] show ?thesis using st st1 f False o(2) by simp
        qed
      qed
    qed
  qed
qed

lemma sync_entries_wrote:
  assumes "marks p P" "ht_count p + length kvs \<le> 2147483647" "sync_new kvs P = (out, Q)"
  shows "wrote out Q (ht_count p + length kvs) m (sync_entries kvs (p, m))"
  using assms
proof (induction kvs arbitrary: p P m out)
  case Nil
  then show ?case by (simp add: wrote_def)
next
  case (Cons kv kvs)
  have c: "ht_count p + length kvs \<le> 2147483647" "ht_count p < 2147483647" using Cons.prems(2) by auto
  show ?case
  proof (cases "fresh kv \<and> kv_key kv \<notin> P")
    case False
    then have "sync_entries (kv # kvs) (p, m) = sync_entries kvs (p, m)"
      by (auto simp: fresh_def marks_has [OF Cons.prems(1)])
    moreover have "sync_new kvs P = (out, Q)" using Cons.prems(3) False by auto
    ultimately show ?thesis using Cons.IH [OF Cons.prems(1) c(1), of out m] by (auto intro: wrote_mono)
  next
    case True
    then obtain w where w: "kv_value kv = Some w" "w \<noteq> []" by (auto simp: fresh_def)
    let ?k = "kv_key kv"
    obtain out' where o: "sync_new kvs (insert ?k P) = (out', Q)" "out = (?k, w) # out'"
      using Cons.prems(3) True w by (auto split: prod.splits)
    obtain b m1 where a: "cdb_make_add m ?k (length ?k) w (length w) = (b, m1)" by fastforce
    obtain p' where p': "mark_persisted ?k (Some w) (p, m1) = (True, p', m1)" "marks p' (insert ?k P)" "ht_count p' \<le> ht_count p + 1"
      by (rule mark_ok [OF Cons.prems(1) c(2)])
    have run: "sync_entries (kv # kvs) (p, m) = (if b then sync_entries kvs (p', m1) else (False, p, m1))"
      using True w a p'(1) by (simp add: fresh_def marks_has [OF Cons.prems(1)] sdb_disk_insert_def)
    show ?thesis
    proof (cases b)
      case True
      then have "add_all [(?k, w)] m = (True, m1)" using a by simp
      moreover have "wrote out' Q (ht_count p + length (kv # kvs)) m1 (sync_entries kvs (p', m1))"
        using Cons.IH [OF p'(2) _ o(1), of m1] p'(3) Cons.prems(2) by (auto intro: wrote_mono)
      ultimately show ?thesis using wrote_Cons run True o(2) by simp
    next
      case False
      then have "add_all [(?k, w)] m = (False, m1)" using a by simp
      then show ?thesis using wrote_fail run False o(2) by simp
    qed
  qed
qed

section \<open>Synchronising keeps the values\<close>

lemma sync_recs_keys:
  "sync_recs ht rs P = (out, Q) \<Longrightarrow>
   Q = P \<union> {k \<in> fst ` set rs. \<exists>kv w. sdb_ht_find_kvp ht k = Some kv \<and> kv_value kv = Some w}"
  by (induction ht rs P arbitrary: out rule: sync_recs.induct) (auto split: option.splits prod.splits)

lemma sync_recs_map:
  assumes "sync_recs ht rs P = (out, Q)" "\<forall>k \<in> P. sdb_ht_find_kvp ht k \<noteq> None"
  shows "map_of out k =
    (case sdb_ht_find_kvp ht k of
       None \<Rightarrow> map_of rs k
     | Some kv \<Rightarrow> (case kv_value kv of None \<Rightarrow> None | Some w \<Rightarrow> if k \<in> fst ` set rs \<and> k \<notin> P then Some w else None))"
  using assms
proof (induction ht rs P arbitrary: out rule: sync_recs.induct)
  case (1 ht P)
  then show ?case by (auto split: option.splits)
next
  case (2 ht r rs P)
  obtain j v where r: "r = (j, v)" by fastforce
  show ?case
  proof (cases "sdb_ht_find_kvp ht j")
    case None
    then have "j \<notin> P" using 2(5) by auto
    then obtain out' where o: "sync_recs ht rs P = (out', Q)" "out = r # out'"
      using 2(4) None r by (auto split: prod.splits)
    show ?thesis using 2(1) [OF _ o(1) 2(5)] None r o(2) by (auto split: option.splits)
  next
    case (Some kv)
    show ?thesis
    proof (cases "kv_value kv")
      case None
      then have "sync_recs ht rs P = (out, Q)" using 2(4) Some r by simp
      from 2(2) [OF _ None this 2(5)] show ?thesis using Some None r by (auto split: option.splits)
    next
      case v: (Some w)
      obtain out' where o: "sync_recs ht rs (insert j P) = (out', Q)" "out = (if j \<in> P then out' else (j, w) # out')"
        using 2(4) Some v r by (auto split: prod.splits)
      from 2(3) [OF _ v, of out'] o(1) show ?thesis using Some v r o(2) 2(5) by (auto split: option.splits)
    qed
  qed
qed

lemma sync_new_map:
  assumes "sync_new kvs P = (out, Q)" "distinct (map kv_key kvs)"
  shows "Q = P \<union> {k. \<exists>kv \<in> set kvs. kv_key kv = k \<and> fresh kv}"
    "map_of out k = (case find (\<lambda>kv. kv_key kv = k) kvs of
        None \<Rightarrow> None | Some kv \<Rightarrow> if fresh kv \<and> k \<notin> P then kv_value kv else None)"
proof -
  have "Q = P \<union> {k. \<exists>kv \<in> set kvs. kv_key kv = k \<and> fresh kv} \<and>
    map_of out k = (case find (\<lambda>kv. kv_key kv = k) kvs of
        None \<Rightarrow> None | Some kv \<Rightarrow> if fresh kv \<and> k \<notin> P then kv_value kv else None)"
    using assms
  proof (induction kvs arbitrary: P out)
    case (Cons kv kvs)
    have d: "distinct (map kv_key kvs)" "kv_key kv \<notin> kv_key ` set kvs" using Cons.prems(2) by auto
    have nf: "find (\<lambda>e. kv_key e = kv_key kv) kvs = None"
      unfolding find_None_iff using d(2) by (metis imageI)
    show ?case
    proof (cases "fresh kv \<and> kv_key kv \<notin> P")
      case True
      then obtain w where w: "kv_value kv = Some w" by (auto simp: fresh_def)
      obtain out' where o: "sync_new kvs (insert (kv_key kv) P) = (out', Q)" "out = (kv_key kv, w) # out'"
        using Cons.prems(1) True w by (auto split: prod.splits)
      show ?thesis using Cons.IH [OF o(1) d(1)] o(2) True w nf by (auto split: option.splits)
    next
      case False
      then have "sync_new kvs P = (out, Q)" using Cons.prems(1) by auto
      from Cons.IH [OF this d(1)] show ?thesis using False nf by (auto split: option.splits)
    qed
  qed simp
  then show "Q = P \<union> {k. \<exists>kv \<in> set kvs. kv_key kv = k \<and> fresh kv}"
    "map_of out k = (case find (\<lambda>kv. kv_key kv = k) kvs of
        None \<Rightarrow> None | Some kv \<Rightarrow> if fresh kv \<and> k \<notin> P then kv_value kv else None)" by blast+
qed

lemma find_entries:
  assumes "table_wf ht"
  shows "find (\<lambda>kv. kv_key kv = k) (ht_entries ht) = sdb_ht_find_kvp ht k"
proof -
  have st: "ht_struct ht" using assms by (auto simp: table_wf_def sdb_ht_inv_def ht_inv_def)
  have d: "distinct (map kv_key (ht_entries ht))" by (rule distinct_entries [OF st])
  have "find (\<lambda>kv. kv_key kv = k) xs = Some kv \<longleftrightarrow> kv \<in> set xs \<and> kv_key kv = k" if "distinct (map kv_key xs)" for xs :: "sdb_kv list" and kv
    using that by (induction xs) (auto simp: image_iff)
  then show ?thesis using d by (intro option_eqI) (simp add: sdb_ht_find_kvp_def find_kv_iff [OF st])
qed

text \<open>The records of the new file, and the keys that leave the memory.\<close>

definition synced :: "sdb_ht \<Rightarrow> rec list \<Rightarrow> rec list \<times> string set" where
  "synced ht rs =
     (case sync_recs ht rs {} of (out, P) \<Rightarrow> (case sync_new (ht_entries ht) P of (new, Q) \<Rightarrow> (out @ new, Q)))"

lemma synced_map:
  assumes "table_wf ht" "synced ht rs = (out, Q)"
  shows "map_of out k =
    (case sdb_ht_find_kvp ht k of
       None \<Rightarrow> map_of rs k
     | Some kv \<Rightarrow> (case kv_value kv of None \<Rightarrow> None | Some w \<Rightarrow> if k \<in> fst ` set rs \<or> fresh kv then Some w else None))"
    "k \<in> Q \<longleftrightarrow> (\<exists>kv w. sdb_ht_find_kvp ht k = Some kv \<and> kv_value kv = Some w \<and> (k \<in> fst ` set rs \<or> fresh kv))"
proof -
  obtain o1 P o2 where o: "sync_recs ht rs {} = (o1, P)" "sync_new (ht_entries ht) P = (o2, Q)" "out = o1 @ o2"
    using assms(2) by (auto simp: synced_def split: prod.splits)
  have st: "ht_struct ht" using assms by (auto simp: table_wf_def sdb_ht_inv_def ht_inv_def)
  have d: "distinct (map kv_key (ht_entries ht))" by (rule distinct_entries [OF st])
  have P: "P = {k \<in> fst ` set rs. \<exists>kv w. sdb_ht_find_kvp ht k = Some kv \<and> kv_value kv = Some w}"
    using sync_recs_keys [OF o(1)] by simp
  note m1 = sync_recs_map [OF o(1), of k, simplified]
  note q = sync_new_map(1) [OF o(2) d]
  note m2 = sync_new_map(2) [OF o(2) d, of k, unfolded find_entries [OF assms(1)]]
  show "map_of out k =
    (case sdb_ht_find_kvp ht k of
       None \<Rightarrow> map_of rs k
     | Some kv \<Rightarrow> (case kv_value kv of None \<Rightarrow> None | Some w \<Rightarrow> if k \<in> fst ` set rs \<or> fresh kv then Some w else None))"
    using m1 m2 P by (auto simp: o(3) map_of_append map_add_def fresh_def split: option.splits)
  have "(\<exists>kv \<in> set (ht_entries ht). kv_key kv = k \<and> fresh kv) \<longleftrightarrow> (\<exists>kv. sdb_ht_find_kvp ht k = Some kv \<and> fresh kv)"
    by (auto simp: sdb_ht_find_kvp_def find_kv_iff [OF st])
  then show "k \<in> Q \<longleftrightarrow> (\<exists>kv w. sdb_ht_find_kvp ht k = Some kv \<and> kv_value kv = Some w \<and> (k \<in> fst ` set rs \<or> fresh kv))"
    using q P by (auto simp: fresh_def)
qed

lemma get_on_disk:
  assumes "on_disk s rs" "table_wf (s_ht s)" "\<not> s_timestamped s"
  shows "fst (fst (sdb_get s k)) =
    (case sdb_ht_find_kvp (s_ht s) k of
       Some kv \<Rightarrow> (case kv_value kv of None \<Rightarrow> None | Some v \<Rightarrow> if v = [] then None else Some v)
     | None \<Rightarrow> map_of rs k)"
proof (cases "sdb_ht_find_kvp (s_ht s) k")
  case (Some kv)
  then show ?thesis using assms(3) by (auto simp: sdb_get_def sdb_get_len_def sdb_const_get_len_def split: option.splits)
next
  case None
  have g: "fst (fst (sdb_get s k)) = fst (fst (get_disk s k))"
    using None by (auto simp: sdb_get_def sdb_get_len_def sdb_const_get_len_def split: prod.splits)
  show ?thesis
  proof (cases "s_fd s = None")
    case True
    then show ?thesis using None g assms(1) by (auto simp: on_disk_def get_disk_def)
  next
    case False
    have m: "maps_file (cdb_findstart (s_db s)) (cdb_file rs)" "c_loop (cdb_findstart (s_db s)) = 0"
      using assms(1) False by (auto simp: on_disk_def maps_file_def cdb_findstart_def)
    have ok: "\<forall>r \<in> set rs. rec_ok r" using assms(1) dump_ok_rec by (auto simp: on_disk_def)
    obtain res c where f: "cdb_findnext (cdb_findstart (s_db s)) (unat (sdb_hash k)) k = (res, c)" by fastforce
    note fv = found_value [OF cdb_findnext_file [OF m ok, of k, unfolded f]]
    have fa: "found_at rs k (cdb_file rs)
     (List.find (has_key rs k) (filter (\<lambda>e. hp_h e = unat (sdb_hash k)) (hps 1024 rs))) (res, c)"
      using cdb_findnext_file [OF m ok, of k] f by simp
    show ?thesis
    proof (cases "map_of rs k")
      case n: None
      then show ?thesis using fv None g False f by (simp add: get_disk_def)
    next
      case (Some v)
      have r: "res = 1" "cdb_read c (c_dlen c) (c_dpos c) = Some (v @ [NUL])" using fv Some by auto
      have dv: "nonul v" "length v + 1 < SDB_MAX_VALUE"
        using assms(1) map_of_SomeD [OF Some] by (auto simp: on_disk_def dump_ok_def)
      have mc: "maps_file c (cdb_file rs)" using fa r(1) by (auto simp: found_at_def split: option.splits)
      have rd: "take (c_dlen c) (drop (c_dpos c) (cdb_file rs)) = v @ [NUL]"
        using r(2) mc by (auto simp: cdb_read_def maps_file_def split: if_splits)
      have "c_dpos c + c_dlen c \<le> length (cdb_file rs)"
        using r(2) mc by (auto simp: cdb_read_def maps_file_def split: if_splits)
      then have len: "c_dlen c = length v + 1" using arg_cong [OF rd, of length] by simp
      have "drop (c_dpos c) (cdb_file rs) = (v @ [NUL]) @ drop (c_dlen c) (drop (c_dpos c) (cdb_file rs))"
        using rd by (metis append_take_drop_id)
      then have "map_string c (c_dpos c) = v"
        using mc cstring_terminated [OF dv(1)] by (simp add: map_string_def maps_file_def)
      then show ?thesis using None g False f r(1) len dv(2) Some by (simp add: get_disk_def)
    qed
  qed
qed

lemma delete_kvp:
  assumes "table_wf ht"
  shows "table_wf (snd (sdb_ht_delete ht k))" "sdb_ht_find_kvp (snd (sdb_ht_delete ht k)) = (sdb_ht_find_kvp ht)(k := None)"
proof -
  have inv: "ht_inv ht" "ht_struct ht" using assms by (auto simp: table_wf_def sdb_ht_inv_def ht_inv_def)
  obtain r h where d: "ht_delete ht k = (r, h)" by fastforce
  have "ht_find_kv ht k = None \<and> h = ht \<or> delete_result ht k h"
    using d bucket_index_None [OF inv(2), of k] bucket_remove_result [OF inv(2), of k]
    by (cases "find_index (is_kv_equal ht k (calcsize_key ht k)) (b_arr (ht_table ht ! bucketfn ht k))")
       (auto simp: ht_delete_def Let_def)
  then have f: "ht_find_kv h = (ht_find_kv ht)(k := None)"
    using delete_result_find [OF inv(2)] by (auto simp: fun_eq_iff)
  then show f': "sdb_ht_find_kvp (snd (sdb_ht_delete ht k)) = (sdb_ht_find_kvp ht)(k := None)"
    using d by (simp add: sdb_ht_find_kvp_def sdb_ht_delete_def fun_eq_iff)
  have "sdb_ht_inv h" using ht_delete_refines(1,2) [OF inv(1) d] assms by (simp add: table_wf_def sdb_ht_inv_def)
  then show "table_wf (snd (sdb_ht_delete ht k))"
    using assms f' d unfolding table_wf_def by (auto simp: sdb_ht_delete_def split: if_splits)
qed

lemma foreach_remove:
  "table_wf (s_ht s) \<Longrightarrow> table_wf (s_ht (snd (foreach_kvs remove_persisted kvs s)))
     \<and> sdb_ht_find_kvp (s_ht (snd (foreach_kvs remove_persisted kvs s)))
         = (\<lambda>k. if k \<in> kv_key ` set kvs then None else sdb_ht_find_kvp (s_ht s) k)
     \<and> (\<exists>ht. snd (foreach_kvs remove_persisted kvs s) = s\<lparr>s_ht := ht\<rparr>)"
proof (induction kvs arbitrary: s)
  case Nil
  then show ?case by (auto intro!: exI [of _ "s_ht s"])
next
  case (Cons kv kvs)
  let ?s = "s\<lparr>s_ht := snd (sdb_ht_delete (s_ht s) (kv_key kv))\<rparr>"
  have w: "table_wf (s_ht ?s)" using delete_kvp(1) [OF Cons.prems] by simp
  have run: "foreach_kvs remove_persisted (kv # kvs) s = foreach_kvs remove_persisted kvs ?s"
    by (simp add: remove_persisted_def)
  have ex: "\<exists>ht. snd (foreach_kvs remove_persisted kvs ?s) = s\<lparr>s_ht := ht\<rparr>" using Cons.IH [OF w] by auto
  show ?case unfolding run using Cons.IH [OF w] delete_kvp(2) [OF Cons.prems] ex by (auto simp: fun_eq_iff)
qed

lemma remove_marked:
  assumes "table_wf (s_ht s)" "marks p Q"
  shows "table_wf (s_ht (ht_foreach p remove_persisted s))"
    "sdb_ht_find_kvp (s_ht (ht_foreach p remove_persisted s)) = (\<lambda>k. if k \<in> Q then None else sdb_ht_find_kvp (s_ht s) k)"
    "\<exists>ht. ht_foreach p remove_persisted s = s\<lparr>s_ht := ht\<rparr>"
proof -
  have st: "ht_struct p" and dom: "dom (ht_find p) = Q" using assms(2) by (auto simp: marks_def set_inv_def ht_inv_def)
  have "k \<in> kv_key ` set (ht_entries p) \<longleftrightarrow> k \<in> Q" for k
  proof -
    have "k \<in> Q \<longleftrightarrow> ht_find_kv p k \<noteq> None" unfolding dom [symmetric] by (auto simp: ht_find_def split: option.splits)
    then show ?thesis using find_kv_None [OF st, of k] by argo
  qed
  then have "kv_key ` set (ht_entries p) = Q" by blast
  then show "table_wf (s_ht (ht_foreach p remove_persisted s))"
    "sdb_ht_find_kvp (s_ht (ht_foreach p remove_persisted s)) = (\<lambda>k. if k \<in> Q then None else sdb_ht_find_kvp (s_ht s) k)"
    "\<exists>ht. ht_foreach p remove_persisted s = s\<lparr>s_ht := ht\<rparr>"
    using foreach_remove [OF assms(1), of "ht_entries p"] by (simp_all add: ht_foreach_def)
qed

text \<open>A store whose file has the records \<open>rs\<close> and whose keys in memory the walk can read back.\<close>

definition wf_store :: "store \<Rightarrow> rec list \<Rightarrow> bool" where
  "wf_store st rs \<longleftrightarrow>
     on_disk (st_s st) rs \<and> table_wf (s_ht (st_s st)) \<and> \<not> s_timestamped (st_s st)
     \<and> length rs + length (ht_entries (s_ht (st_s st))) \<le> 2147483647
     \<and> length (m_final (st_m st)) = 1024 \<and> \<not> st_fdump st
     \<and> (\<forall>k kv w. sdb_ht_find_kvp (s_ht (st_s st)) k = Some kv \<and> kv_value kv = Some w \<longrightarrow> dump_ok (k, w))"

definition store_dir :: "store \<Rightarrow> string option" where
  "store_dir st = (if st_dir st = None then st_name st else st_dir st)"

lemma create_store:
  assumes "\<not> st_fdump st"
  shows "sdb_disk_create env st =
    (if io_create env
     then (True, st\<lparr>st_dir := store_dir st, st_fdump := True, st_ndump := Some ((case store_dir st of None \<Rightarrow> ''./'' | Some d \<Rightarrow> d) @ ''.tmp''),
            st_fs := (st_fs st)((case store_dir st of None \<Rightarrow> ''./'' | Some d \<Rightarrow> d) @ ''.tmp'' \<mapsto> []),
            st_m := cdb_make_start (st_m st) \<lparr>f_data = [], f_off = 0, f_room = io_room env\<rparr>\<rparr>)
     else (False, st\<lparr>st_dir := store_dir st, st_ndump := None\<rparr>))"
  using assms by (cases st) (auto simp: sdb_disk_create_def store_dir_def Let_def)

lemma synced_dump_ok:
  assumes "wf_store st rs" "synced (s_ht (st_s st)) rs = (out, Q)"
  shows "\<forall>r \<in> set out. dump_ok r"
proof -
  let ?ht = "s_ht (st_s st)"
  have w: "table_wf ?ht" "\<forall>r \<in> set rs. dump_ok r"
    "\<And>k kv w. sdb_ht_find_kvp ?ht k = Some kv \<Longrightarrow> kv_value kv = Some w \<Longrightarrow> dump_ok (k, w)"
    using assms(1) by (auto simp: wf_store_def on_disk_def)
  obtain o1 P o2 where o: "sync_recs ?ht rs {} = (o1, P)" "sync_new (ht_entries ?ht) P = (o2, Q)" "out = o1 @ o2"
    using assms(2) by (auto simp: synced_def split: prod.splits)
  have st: "ht_struct ?ht" using w(1) by (auto simp: table_wf_def sdb_ht_inv_def ht_inv_def)
  have 1: "sync_recs ?ht xs P = (ys, R) \<Longrightarrow> set xs \<subseteq> set rs \<Longrightarrow> \<forall>r \<in> set ys. dump_ok r" for xs P ys R
    using w(2,3) by (induction xs arbitrary: P ys) (auto split: option.splits prod.splits if_splits)
  have 2: "sync_new xs P = (ys, R) \<Longrightarrow> set xs \<subseteq> set (ht_entries ?ht) \<Longrightarrow> \<forall>r \<in> set ys. dump_ok r" for xs P ys R
  proof (induction xs arbitrary: P ys)
    case (Cons kv xs)
    have "sdb_ht_find_kvp ?ht (kv_key kv) = Some kv"
      using Cons.prems(2) find_kv_iff [OF st] by (simp add: sdb_ht_find_kvp_def)
    then have "fresh kv \<Longrightarrow> dump_ok (kv_key kv, the (kv_value kv))" using w(3) by (auto simp: fresh_def)
    then show ?case using Cons by (auto split: prod.splits if_splits)
  qed simp
  show ?thesis using 1 [OF o(1)] 2 [OF o(2)] o(3) by auto
qed

text \<open>Synchronising up to the end of the two loops.\<close>

lemma sync_writes:
  assumes "wf_store st rs" "walk_ends rs" "sdb_disk_create env st = (True, st1)" "synced (s_ht (st_s st)) rs = (out, Q)"
  shows "case add_all out (st_m st1) of
      (False, _) \<Rightarrow> \<exists>pos m. sdb_sync env load st = (False, sdb_disk_abort (st1\<lparr>st_s := (st_s st)\<lparr>s_pos := pos\<rparr>, st_m := m\<rparr>))
    | (True, m) \<Rightarrow> \<exists>p pos. marks p Q \<and> sdb_sync env load st =
        (case sdb_disk_finish env load (st1\<lparr>st_s := (st_s st)\<lparr>s_pos := pos\<rparr>, st_m := m\<rparr>) of
           (False, st) \<Rightarrow> (False, sdb_disk_abort st)
         | (True, st) \<Rightarrow> (True, st\<lparr>st_s := snd (sdb_journal_clear (ht_foreach p remove_persisted (st_s st)))\<rparr>))"
proof -
  let ?ht = "s_ht (st_s st)" and ?f = "rec_step insert_into_disk mark_persisted (s_ht (st_s st))"
  have w: "on_disk (st_s st) rs" "table_wf ?ht" "length rs + length (ht_entries ?ht) \<le> 2147483647" "\<not> st_fdump st"
    using assms(1) by (auto simp: wf_store_def)
  have s1: "st_s st1 = st_s st" using assms(3) create_store [OF w(4), of env] by (auto split: if_splits)
  obtain o1 P o2 where o: "sync_recs ?ht rs {} = (o1, P)" "sync_new (ht_entries ?ht) P = (o2, Q)" "out = o1 @ o2"
    using assms(4) by (auto simp: synced_def split: prod.splits)
  have p0: "marks ht_pp_new0 {}" "ht_count (ht_pp_new0 :: SetP) = 0" 
    by (auto simp: marks_def set_inv_def ht_pp_new0_ok dom_def)
  obtain pos where run: "sdb_foreach_cdb (pure_cb insert_into_disk) (Some (pure_cb mark_persisted)) ((ht_pp_new0, st_m st1), st_s st)
     = (case walk_recs ?f rs (ht_pp_new0, st_m st1) of (b, u) \<Rightarrow> (b, u, (st_s st)\<lparr>s_pos := pos\<rparr>))"
    using foreach_cdb_file [OF w(1) assms(2), of insert_into_disk mark_persisted "(ht_pp_new0, st_m st1)"] by auto
  obtain b p m where wr: "walk_recs ?f rs (ht_pp_new0, st_m st1) = (b, p, m)" by (metis prod.collapse)
  have 1: "wrote o1 P (length rs) (st_m st1) (b, p, m)"
    using walk_recs_wrote [OF w(2) p0(1) _ o(1), of "st_m st1"] p0(2) w(3) wr by simp
  show ?thesis
  proof (cases "fst (add_all o1 (st_m st1))")
    case False
    then have "\<not> b" "\<not> fst (add_all out (st_m st1))"
      using 1 by (auto simp: wrote_def o(3) add_all_append split: prod.splits bool.splits)
    then show ?thesis using assms(3) run wr s1 by (auto simp: sdb_sync_def split: prod.splits bool.splits)
  next
    case True
    then have a1: "add_all o1 (st_m st1) = (True, m)" and b and mk: "marks p P" "ht_count p \<le> length rs"
      using 1 by (auto simp: wrote_def split: prod.splits bool.splits)
    obtain b2 p2 m2 where en: "sync_entries (ht_entries ?ht) (p, m) = (b2, p2, m2)" by (metis prod.collapse)
    have 2: "wrote o2 Q (ht_count p + length (ht_entries ?ht)) m (b2, p2, m2)"
      using sync_entries_wrote [OF mk(1) _ o(2), of m] mk(2) w(3) en by simp
    have aa: "add_all out (st_m st1) = add_all o2 m" by (simp add: o(3) add_all_append a1)
    have S: "sdb_sync env load st =
        (if \<not> b2 then (False, sdb_disk_abort (st1\<lparr>st_s := (st_s st)\<lparr>s_pos := pos\<rparr>, st_m := m2\<rparr>))
         else case sdb_disk_finish env load (st1\<lparr>st_s := (st_s st)\<lparr>s_pos := pos\<rparr>, st_m := m2\<rparr>) of
           (False, st) \<Rightarrow> (False, sdb_disk_abort st)
         | (True, st) \<Rightarrow> (True, st\<lparr>st_s := snd (sdb_journal_clear (ht_foreach p2 remove_persisted (st_s st)))\<rparr>))"
      using assms(3) run wr s1 \<open>b\<close> en by (auto simp: sdb_sync_def Let_def split: prod.splits bool.splits)
    show ?thesis
    proof (cases "fst (add_all o2 m)")
      case False
      then show ?thesis using 2 S aa by (auto simp: wrote_def split: prod.splits bool.splits)
    next
      case True
      then have "add_all o2 m = (True, m2)" "b2" "marks p2 Q"
        using 2 by (auto simp: wrote_def split: prod.splits bool.splits)
      then show ?thesis using S aa by auto
    qed
  qed
qed


text \<open>Opening a file that does not look like text: when it works, and what it leaves alone.\<close>

definition reopens :: "io \<Rightarrow> bool" where
  "reopens env \<longleftrightarrow> io_read env \<and> (io_stat env \<longrightarrow> io_regular env)"

lemma open_file_result: "fst (open_file env st f) \<longleftrightarrow> reopens env \<and> st_fs st f \<noteq> None"
  by (auto simp: open_file_def open_cdb_def reopens_def Let_def split: option.splits)

lemma open_cdb_keeps: "\<exists>fd db t. snd (open_cdb env (s\<lparr>s_fd := fd', s_db := db'\<rparr>)) = s\<lparr>s_fd := fd, s_db := db, s_last := t\<rparr>"
  by (cases s) (simp add: open_cdb_def Let_def split: option.splits)

lemma open_file_keeps:
  "st_fs (snd (open_file env st f)) = st_fs st" "st_dir (snd (open_file env st f)) = Some f"
  "st_ndump (snd (open_file env st f)) = st_ndump st" "st_fdump (snd (open_file env st f)) = st_fdump st"
  by (simp_all add: open_file_def split: prod.splits)

lemma open_file_state: "\<exists>fd db t. st_s (snd (open_file env st f)) = (st_s st)\<lparr>s_fd := fd, s_db := db, s_last := t\<rparr>"
proof -
  have "st_s (snd (open_file env st f)) =
     snd (open_cdb env ((st_s st)\<lparr>s_fd := (if io_read env then st_fs st f else None), s_db := (s_db (st_s st))\<lparr>c_fd := None\<rparr>\<rparr>))"
    by (simp add: open_file_def split: prod.splits)
  then show ?thesis using open_cdb_keeps by simp
qed


lemma sdb_open_binary:
  assumes "\<And>b. st_fs st f = Some b \<Longrightarrow> \<not> sdb_text_check b"
  shows "sdb_open env load st (Some f) = open_file env st f"
  using assms by (auto simp: sdb_open_def split: option.splits)

lemma open_file_maps:
  assumes "reopens env" "st_fs st f = Some (cdb_file rs)" "length (cdb_file rs) < 2 ^ 32" "\<forall>r \<in> set rs. dump_ok r"
  shows "on_disk (st_s (snd (open_file env st f))) rs" "s_fd (st_s (snd (open_file env st f))) = Some (cdb_file rs)"
proof -
  have "1024 \<le> length (cdb_file rs)" by (simp add: db_size_file db_size_def)
  note i = init_maps [OF assms(3) this]
  show "on_disk (st_s (snd (open_file env st f))) rs" "s_fd (st_s (snd (open_file env st f))) = Some (cdb_file rs)"
    using assms i by (auto simp: open_file_def open_cdb_def reopens_def on_disk_def Let_def)
qed

lemma finish_success:
  assumes "\<not> st_fdump st" "length (m_final (st_m st)) = 1024" "\<forall>r \<in> set out. dump_ok r" "\<not> sdb_text_check (cdb_file out)"
    "sdb_disk_create env st = (True, st1)" "add_all out (st_m st1) = (True, m)"
    "sdb_disk_finish env load (st1\<lparr>st_s := s, st_m := m\<rparr>) = (True, st2)"
  shows "on_disk (st_s st2) out" "s_fd (st_s st2) = Some (cdb_file out)" "\<exists>d. store_dir st = Some d \<and> st_fs st2 = (st_fs st)(d @ ''.tmp'' := None, d \<mapsto> cdb_file out)"
    "\<exists>fd db t. st_s st2 = s\<lparr>s_fd := fd, s_db := db, s_last := t\<rparr>"
proof -
  obtain d where d: "store_dir st = Some d"
    using assms(5,7) create_store [OF assms(1), of env] by (cases "store_dir st") (auto simp: sdb_disk_finish_def split: if_splits)
  have st1: "st1 = st\<lparr>st_dir := Some d, st_fdump := True, st_ndump := Some (d @ ''.tmp''), st_fs := (st_fs st)(d @ ''.tmp'' \<mapsto> []),
            st_m := cdb_make_start (st_m st) \<lparr>f_data = [], f_off = 0, f_room = io_room env\<rparr>\<rparr>"
    using assms(5) create_store [OF assms(1), of env] d by (auto split: if_splits)
  obtain m' where fin: "cdb_make_finish m = Some (True, m')" "io_replace env" "io_fsync env" "io_close env"
    using assms(7) st1 by (auto simp: sdb_disk_finish_def Let_def split: option.splits prod.splits bool.splits if_splits)
  have sr: "\<forall>r \<in> set out. short_rec r"
    using assms(3) by (auto simp: dump_ok_def short_rec_def SDB_MAX_VALUE_def)
  have "add_all out (cdb_make_start (st_m st) \<lparr>f_data = [], f_off = 0, f_room = io_room env\<rparr>) = (True, m)"
    using assms(6) st1 by simp
  note f = finished_file [OF _ assms(2) sr this fin(1), unfolded fdesc.simps, OF refl]
  have ne: "d \<noteq> d @ ''.tmp''" by simp
  define st3 where "st3 = st1\<lparr>st_s := close_current_database s, st_m := m', st_fdump := False, st_ndump := None,
     st_fs := (st_fs st1)(d \<mapsto> cdb_file out, d @ ''.tmp'' := None)\<rparr>"
  have fs3: "st_fs st3 = (st_fs st)(d @ ''.tmp'' := None, d \<mapsto> cdb_file out)" using st1 fun_upd_twist [OF ne] by (simp add: st3_def)
  have "sdb_disk_finish env load (st1\<lparr>st_s := s, st_m := m\<rparr>) = sdb_open env load st3 (Some d)"
    using st1 fin f(1) by (cases st) (simp add: sdb_disk_finish_def Let_def st3_def)
  then have op: "open_file env st3 d = (True, st2)" using sdb_open_binary [of st3 d env load] assms(4,7) fs3 by simp
  then have re: "reopens env" using open_file_result [of env st3 d] by simp
  show "on_disk (st_s st2) out" "s_fd (st_s st2) = Some (cdb_file out)"
    using open_file_maps [OF re, of st3 d out] op fs3 f(2) assms(3) by simp_all
  show "\<exists>d. store_dir st = Some d \<and> st_fs st2 = (st_fs st)(d @ ''.tmp'' := None, d \<mapsto> cdb_file out)"
    using open_file_keeps(1) [of env st3 d] op fs3 d by simp
  show "\<exists>fd db t. st_s st2 = s\<lparr>s_fd := fd, s_db := db, s_last := t\<rparr>"
    using open_file_state [of env st3 d] op
    by (cases s) (auto simp: st3_def close_current_database_def)
qed

text \<open>The value of a key, an empty one being none.\<close>

definition value_of :: "sdb \<Rightarrow> string \<Rightarrow> string option" where
  "value_of s k = (case fst (fst (sdb_get s k)) of None \<Rightarrow> None | Some v \<Rightarrow> if v = [] then None else Some v)"

lemma journal_clear_fields [simp]:
  "s_ht (snd (sdb_journal_clear s)) = s_ht s" "s_timestamped (snd (sdb_journal_clear s)) = s_timestamped s"
  "on_disk (snd (sdb_journal_clear s)) rs = on_disk s rs" "on_disk (s\<lparr>s_ht := ht\<rparr>) rs = on_disk s rs"
  by (auto simp: sdb_journal_clear_def on_disk_def split: option.splits)

lemma synced_file:
  assumes "wf_store st rs" "walk_ends rs" "synced (s_ht (st_s st)) rs = (out, Q)" "\<not> sdb_text_check (cdb_file out)"
    "sdb_sync env load st = (True, st')"
  shows "on_disk (st_s st') out \<and> s_fd (st_s st') = Some (cdb_file out) \<and> table_wf (s_ht (st_s st'))
     \<and> (\<exists>d. store_dir st = Some d \<and> st_fs st' = (st_fs st)(d @ ''.tmp'' := None, d \<mapsto> cdb_file out))
     \<and> (\<forall>k. value_of (st_s st') k = value_of (st_s st) k)"
proof -
  have w: "on_disk (st_s st) rs" "table_wf (s_ht (st_s st))" "\<not> s_timestamped (st_s st)" "\<not> st_fdump st" "length (m_final (st_m st)) = 1024"
    using assms(1) by (auto simp: wf_store_def)
  obtain st1 where c: "sdb_disk_create env st = (True, st1)" using assms(5) by (auto simp: sdb_sync_def split: prod.splits bool.splits)
  note sw = sync_writes [OF assms(1,2) c assms(3), of load]
  then obtain m where m: "add_all out (st_m st1) = (True, m)" using assms(5) by (auto split: prod.splits bool.splits)
  then obtain p pos where mk: "marks p Q" and run: "sdb_sync env load st =
        (case sdb_disk_finish env load (st1\<lparr>st_s := (st_s st)\<lparr>s_pos := pos\<rparr>, st_m := m\<rparr>) of
           (False, st) \<Rightarrow> (False, sdb_disk_abort st)
         | (True, st) \<Rightarrow> (True, st\<lparr>st_s := snd (sdb_journal_clear (ht_foreach p remove_persisted (st_s st)))\<rparr>))"
    using sw by auto
  then obtain st2 where f: "sdb_disk_finish env load (st1\<lparr>st_s := (st_s st)\<lparr>s_pos := pos\<rparr>, st_m := m\<rparr>) = (True, st2)"
    and st': "st' = st2\<lparr>st_s := snd (sdb_journal_clear (ht_foreach p remove_persisted (st_s st2)))\<rparr>"
    using assms(5) by (auto split: prod.splits bool.splits)
  note fs = finish_success [OF w(4,5) synced_dump_ok [OF assms(1,3)] assms(4) c m f]
  obtain fd db t where s2: "st_s st2 = (st_s st)\<lparr>s_pos := pos, s_fd := fd, s_db := db, s_last := t\<rparr>" using fs(4) by auto
  let ?s = "ht_foreach p remove_persisted (st_s st2)"
  have tw: "table_wf (s_ht (st_s st2))" using w(2) s2 by simp
  obtain ht where h: "?s = (st_s st2)\<lparr>s_ht := ht\<rparr>" using remove_marked(3) [OF tw mk] by blast
  have od: "on_disk (st_s st') out" using fs(1) st' h by simp
  have nt: "table_wf (s_ht (st_s st'))" "\<not> s_timestamped (st_s st')"
    using remove_marked(1) [OF tw mk] h st' s2 w(3) by auto
  have fk: "sdb_ht_find_kvp (s_ht (st_s st')) k = (if k \<in> Q then None else sdb_ht_find_kvp (s_ht (st_s st)) k)" for k
    using remove_marked(2) [OF tw mk] st' s2 by simp
  have "value_of (st_s st') k = value_of (st_s st) k" for k
    using synced_map [OF w(2) assms(3), of k] fk [of k]
    by (auto simp: value_of_def get_on_disk [OF od nt] get_on_disk [OF w(1-3)] split: option.splits)
  then show ?thesis using od nt(1) fs(2,3) st' h by (simp add: sdb_journal_clear_def split: option.splits)
qed

text \<open>
  The first bytes of a database file are the position of the first hash table.  A file whose records end at
  2621 (\<^verbatim>\<open>0x0a3d\<close>) or 15626 (\<^verbatim>\<open>0x3d0a\<close>) starts with \<^verbatim>\<open>=\<close> and a newline and is taken for text.
\<close>

lemma cdb_file_prefix: "\<exists>B. cdb_file rs = ut32_pack (length (recs_bytes rs)) @ B"
proof -
  have "[0..<256] = 0 # [1..<256]" using upt_conv_Cons [of 0 256] by simp
  then show ?thesis by (simp add: cdb_file_def final_bytes_def tables_bytes_def)
qed

lemma text_scan_two:
  "(case text_scan [x, y] True False False of (ascii, eq, nl) \<Rightarrow> ascii \<and> nl \<and> eq)
     \<longleftrightarrow> x = CHR ''='' \<and> y = CHR 0x0A \<or> x = CHR 0x0A \<and> y = CHR ''=''"
  by simp

lemma small_text_check:
  assumes "length (recs_bytes rs) < 65536"
  shows "sdb_text_check (cdb_file rs) \<longleftrightarrow> length (recs_bytes rs) \<in> {2621, 15626}"
proof -
  let ?n = "length (recs_bytes rs)"
  have n: "1024 \<le> ?n" by (simp add: recs_bytes_def)
  obtain B where B: "cdb_file rs = ut32_pack ?n @ B" using cdb_file_prefix by blast
  have len: "1024 \<le> length (cdb_file rs)" by (simp add: db_size_file db_size_def)
  have "char_of (?n div 65536) = NUL" using assms by (simp add: char_of_eq_iff)
  then have t: "take 63 (take (min (length (cdb_file rs)) 64) (cdb_file rs))
      = [char_of ?n, char_of (?n div 256), NUL] @ char_of (?n div 16777216) # take 59 B"
    using len by (simp add: min_absorb2) (simp add: B ut32_pack_def)
  have d: "?n = ?n mod 256 + 256 * (?n div 256)" "?n div 256 < 256" "4 \<le> ?n div 256" using assms n by auto
  define a where "a = ?n mod 256"
  define b where "b = ?n div 256"
  have ab: "a < 256" "b < 256" "4 \<le> b" "?n = a + 256 * b" using d by (auto simp: a_def b_def)
  have ca: "char_of ?n = (char_of a :: char)" by (simp add: a_def)
  have "cstring (take 63 (take (min (length (cdb_file rs)) 64) (cdb_file rs))) = cstring [char_of a, char_of b, NUL]"
    unfolding t ca b_def [symmetric] by (simp add: cstring_def)
  then have "sdb_text_check (cdb_file rs) \<longleftrightarrow>
     (case text_scan (cstring [char_of a, char_of b, NUL]) True False False of (ascii, eq, nl) \<Rightarrow> ascii \<and> nl \<and> eq)"
    using len unfolding sdb_text_check_def Let_def by (auto split: prod.splits)
  also have "\<dots> \<longleftrightarrow> a = 61 \<and> b = 10 \<or> a = 10 \<and> b = 61"
  proof (cases "a = 0")
    case True
    then have "cstring [char_of a, char_of b, NUL] = []" by (simp add: cstring_def char_of_eq_iff)
    then show ?thesis using True by simp
  next
    case False
    then have "cstring [char_of a, char_of b, NUL] = [char_of a, char_of b]"
      using ab(1-3) by (simp add: cstring_def char_of_eq_iff take_bit_eq_mod)
    then show ?thesis using ab(1,2) by (simp only: text_scan_two char_of_eq_iff take_bit_eq_mod) simp
  qed
  also have "\<dots> \<longleftrightarrow> ?n = 2621 \<or> ?n = 15626"
  proof
    show "?n = 2621 \<or> ?n = 15626" if "a = 61 \<and> b = 10 \<or> a = 10 \<and> b = 61" using that ab(4) by auto
  qed (auto simp: a_def b_def)
  finally show ?thesis by simp
qed

section \<open>Synchronising succeeds, and a failure changes nothing\<close>

lemma sync_finishes:
  assumes "wf_store st rs" "walk_ends rs" "synced (s_ht (st_s st)) rs = (out, Q)" "\<not> sdb_text_check (cdb_file out)"
    "store_dir st = Some d" "io_create env" "io_fsync env" "io_close env" "io_replace env"
    "db_size out < 2 ^ 32" "db_size out \<le> io_room env" "length out \<le> 178956970" "reopens env"
  shows "fst (sdb_sync env load st)"
proof -
  let ?fd = "\<lparr>f_data = [], f_off = 0, f_room = io_room env\<rparr>"
  have w: "\<not> st_fdump st" "length (m_final (st_m st)) = 1024" using assms(1) by (auto simp: wf_store_def)
  define st1 where "st1 = st\<lparr>st_dir := Some d, st_fdump := True, st_ndump := Some (d @ ''.tmp''), st_fs := (st_fs st)(d @ ''.tmp'' \<mapsto> []),
            st_m := cdb_make_start (st_m st) ?fd\<rparr>"
  have c: "sdb_disk_create env st = (True, st1)" using create_store [OF w(1), of env] assms(5,6) by (simp add: st1_def)
  have rk: "\<forall>r \<in> set out. rec_ok r" using synced_dump_ok [OF assms(1,3)] dump_ok_rec by blast
  obtain m m' where m: "add_all out (cdb_make_start (st_m st) ?fd) = (True, m)" "cdb_make_finish m = Some (True, m')"
    using create_succeeds [of ?fd "st_m st" out] w(2) rk assms(10-12) by auto
  have "\<forall>r \<in> set out. short_rec r" using rk by (auto simp: rec_ok_def short_rec_def SDB_MAX_KEY_def SDB_MAX_VALUE_def)
  note f = finished_file(1) [OF _ w(2) this m, unfolded fdesc.simps, OF refl]
  have "fst (sdb_open env load st3 (Some d))" if "st_fs st3 d = Some (cdb_file out)" for st3
    using that assms(4,13) sdb_open_binary [of st3 d env load] open_file_result [of env st3 d] by simp
  then have "fst (sdb_disk_finish env load (st1\<lparr>st_s := s, st_m := m\<rparr>))" for s
    using assms(7-9) m(2) f by (simp add: st1_def sdb_disk_finish_def Let_def)
  then have fin: "\<exists>st2. sdb_disk_finish env load (st1\<lparr>st_s := s, st_m := m\<rparr>) = (True, st2)" for s
    by (metis prod.collapse)
  have add: "add_all out (st_m st1) = (True, m)" using m(1) by (simp add: st1_def)
  obtain p :: SetP and pos where "sdb_sync env load st =
        (case sdb_disk_finish env load (st1\<lparr>st_s := (st_s st)\<lparr>s_pos := pos\<rparr>, st_m := m\<rparr>) of
           (False, st) \<Rightarrow> (False, sdb_disk_abort st)
         | (True, st) \<Rightarrow> (True, st\<lparr>st_s := snd (sdb_journal_clear (ht_foreach p remove_persisted (st_s st)))\<rparr>))"
    using sync_writes [OF assms(1,2) c assms(3), of load] unfolding add prod.case bool.case by blast
  then show ?thesis using fin [of "(st_s st)\<lparr>s_pos := pos\<rparr>"] by auto
qed

lemma abort_fields [simp]:
  "st_s (sdb_disk_abort st) = st_s st" "st_dir (sdb_disk_abort st) = st_dir st" "\<not> st_fdump (sdb_disk_abort st)"
  "st_fs (sdb_disk_abort st) = (case st_ndump st of None \<Rightarrow> st_fs st | Some f \<Rightarrow> (st_fs st)(f := None))"
  by (auto simp: sdb_disk_abort_def)







text \<open>
  C10.  Synchronising loses nothing.  Take a database whose file, if it has one, is a finished
  constant database of records that the walk can read back, with any changes in memory.
  If \<^verbatim>\<open>sdb_sync\<close> reports success, then the file of the database is the finished constant
  database of the records that the memory and the old file give together, the temporary file
  is gone, the new file is open, and every key has the value it had before, an empty value being no value.
  The file written must not look like a text database, and the walk over the old file must end at its records.
\<close>

theorem sdb_sync_keeps_values:
  assumes "wf_store st rs" "walk_ends rs" "synced (s_ht (st_s st)) rs = (out, Q)" "\<not> sdb_text_check (cdb_file out)"
    "sdb_sync env load st = (True, st')"
  shows "on_disk (st_s st') out \<and> s_fd (st_s st') = Some (cdb_file out) \<and> table_wf (s_ht (st_s st'))
     \<and> (\<exists>d. store_dir st = Some d \<and> st_fs st' = (st_fs st)(d @ ''.tmp'' := None, d \<mapsto> cdb_file out))
     \<and> (\<forall>k. value_of (st_s st') k = value_of (st_s st) k)"
  by (rule synced_file [OF assms])

text \<open>
  C11.  Synchronising gets done.  If the temporary file can be created, flushed, closed and renamed and the new file opened, the new file does not
  look like text, the walk over the old file ends at its records, the database has a name, the records are few and small enough for the format and the device has room for them, then \<^verbatim>\<open>sdb_sync\<close> returns
  true and leaves the new database under that name, whatever the table and the old file held.
\<close>

theorem sdb_sync_succeeds:
  assumes "wf_store st rs" "walk_ends rs" "synced (s_ht (st_s st)) rs = (out, Q)" "\<not> sdb_text_check (cdb_file out)"
    "store_dir st = Some d" "io_create env" "io_fsync env" "io_close env" "io_replace env"
    "db_size out < 2 ^ 32" "db_size out \<le> io_room env" "length out \<le> 178956970" "reopens env"
  shows "\<exists>st'. sdb_sync env load st = (True, st') \<and> s_fd (st_s st') = Some (cdb_file out) \<and> st_fs st' d = Some (cdb_file out)"
proof -
  obtain st' where s: "sdb_sync env load st = (True, st')" using sync_finishes [OF assms] by (metis prod.collapse)
  from synced_file [OF assms(1-4) s] show ?thesis using s assms(5) by auto
qed


text \<open>
  A key that was set after the file was opened, and is not in the file, is lost when it is set again: \<^verbatim>\<open>sdb_set\<close> deletes
  it from memory, whatever the \<^verbatim>\<open>cas\<close>, and reports success.
\<close>

lemma set_twice_on_disk:
  assumes "on_disk s rs" "s_fd s \<noteq> None" "table_wf (s_ht s)" "\<not> s_timestamped s" "map_of rs k = None"
    and "sdb_ht_find_kvp (s_ht s) k = Some kv" "kv_value kv = Some old" "kv_cas kv \<noteq> -1" "set_ok k v" "sdb_set s k (Some v) cas = (r, s')"
  shows "r \<and> sdb_ht_find_kvp (s_ht s') k = None"
proof -
  have m: "maps_file (cdb_findstart (s_db s)) (cdb_file rs)" "c_loop (cdb_findstart (s_db s)) = 0"
    using assms(1,2) by (auto simp: on_disk_def maps_file_def cdb_findstart_def)
  have ok: "\<forall>r \<in> set rs. rec_ok r" using assms(1) dump_ok_rec by (auto simp: on_disk_def)
  obtain res c where f: "cdb_findnext (cdb_findstart (s_db s)) (unat (sdb_hash k)) k = (res, c)" by fastforce
  have "res = 0" using found_value [OF cdb_findnext_file [OF m ok, of k, unfolded f]] assms(5) by simp
  then have z: "fst (cdb_findnext (cdb_findstart (s_db s)) (unat (sdb_hash k)) k) = 0" using f by simp
  from set_deletes_unsaved [OF assms(9,6,7) z assms(10)] show ?thesis
    using delete_kvp(2) [OF assms(3), of k] nextcas_pos [OF assms(8)] by simp
qed

text \<open>A database named \<^verbatim>\<open>db\<close> with one key in memory and no file yet, and outcomes of the system calls: the renaming and the opening may fail.\<close>

definition example_kv :: sdb_kv where
  "example_kv = \<lparr>kv_key = ''k'', kv_value = Some ''v'', kv_key_len = strlen32 ''k'', kv_value_len = 1, kv_cas = 2, kv_expire = 0\<rparr>"

definition example_store :: store where
  "example_store =
     \<lparr>st_s = (sdb_new0 0)\<lparr>s_ht := snd (sdb_ht_insert_kvp sdb_ht_new example_kv True)\<rparr>, st_name = Some ''db'', st_dir = None,
      st_ndump = None, st_fdump = False, st_m = blank_make, st_fs = Map.empty\<rparr>"

definition example_io :: "bool \<Rightarrow> bool \<Rightarrow> io" where
  "example_io b c =
     \<lparr>io_create = True, io_room = 5000, io_fsync = True, io_close = True, io_replace = b,
      io_check = True, io_read = c, io_stat = True, io_regular = True, io_mtime = 7\<rparr>"

definition example_load :: "bytes \<Rightarrow> sdb \<Rightarrow> bool \<times> sdb" where
  "example_load b s = (False, s)"

lemma example_ok:
  "wf_store example_store []" "walk_ends []" "synced (s_ht (st_s example_store)) [] = ([(''k'', ''v'')], {''k''})"
  "\<not> sdb_text_check (cdb_file [])" "\<not> sdb_text_check (cdb_file [(''k'', ''v'')])" "store_dir example_store = Some ''db''"
  "\<forall>d. store_dir example_store = Some d \<longrightarrow> st_fs example_store d = s_fd (st_s example_store)"
  "value_of (st_s example_store) ''k'' = Some ''v''"
proof -
  let ?ht = "s_ht (st_s example_store)"
  have w0: "table_wf sdb_ht_new" "ht_room sdb_ht_new" using sdb_ht_new_ok by (auto simp: table_wf_def ht_room_def)
  have kw: "kv_wf example_kv" by (simp add: kv_wf_def example_kv_def SDB_KSZ_def SDB_VSZ_def)
  obtain r h where i: "sdb_ht_insert_kvp sdb_ht_new example_kv True = (r, h)" by fastforce
  have h: "?ht = h" using i by (simp add: example_store_def)
  note t = table_wf_insert [OF w0 kw i]
  have fd: "sdb_ht_find_kvp h k = (if k = ''k'' then Some example_kv else None)" for k
    using t(3) sdb_ht_new_ok(3) by (simp add: example_kv_def)
  have st: "ht_struct h" using t(1) by (auto simp: table_wf_def sdb_ht_inv_def ht_inv_def)
  have "e \<in> set (ht_entries h) \<longleftrightarrow> e = example_kv" for e
    using fd [of "kv_key e"] find_kv_iff [OF st, of "kv_key e" e] by (auto simp: sdb_ht_find_kvp_def example_kv_def split: if_splits)
  then have "set (ht_entries h) = {example_kv}" by blast
  moreover have "distinct (ht_entries h)" using distinct_entries [OF st] by (simp add: distinct_map)
  ultimately have e: "ht_entries h = [example_kv]" by (cases "ht_entries h" rule: remdups_adj.cases) auto
  show od: "wf_store example_store []"
    using t(1) e fd h by (auto simp: wf_store_def on_disk_def example_store_def sdb_new0_def cdb_init_def cdb_findstart_def blank_make_def blank_cdb_def
       dump_ok_def SDB_MAX_VALUE_def example_kv_def split: if_splits)
  show "walk_ends []" using tables_bytes_total [OF hps_used, of 1024 "[]"] by (simp add: walk_ends_def stops_def)
  show "synced (s_ht (st_s example_store)) [] = ([(''k'', ''v'')], {''k''})"
    unfolding h synced_def by (simp add: e fresh_def) (simp add: example_kv_def)
  show "\<not> sdb_text_check (cdb_file [])" "\<not> sdb_text_check (cdb_file [(''k'', ''v'')])"
    using small_text_check [of "[]"] small_text_check [of "[(''k'', ''v'')]"] by (simp_all add: recs_bytes_def rec_bytes_length)
  show "store_dir example_store = Some ''db''" by (simp add: store_dir_def example_store_def)
  show "\<forall>d. store_dir example_store = Some d \<longrightarrow> st_fs example_store d = s_fd (st_s example_store)"
    by (simp add: example_store_def sdb_new0_def)
  have "on_disk (st_s example_store) []" "table_wf ?ht" "\<not> s_timestamped (st_s example_store)" using od by (auto simp: wf_store_def)
  from get_on_disk [OF this] show "value_of (st_s example_store) ''k'' = Some ''v''"
    by (simp add: value_of_def h fd) (simp add: example_kv_def)
qed

theorem sdb_sync_keeps_values_witness:
  "\<exists>st'. sdb_sync (example_io True True) example_load example_store = (True, st')
     \<and> st_fs st' ''db'' = Some (cdb_file [(''k'', ''v'')]) \<and> value_of (st_s st') ''k'' = Some ''v''"
proof -
  obtain st' where s: "sdb_sync (example_io True True) example_load example_store = (True, st')"
    using sync_finishes [OF example_ok(1-3,5,6), of "example_io True True" example_load]
    by (simp add: example_io_def reopens_def db_size_def) (metis prod.collapse)
  from sdb_sync_keeps_values [OF example_ok(1-3,5) s] s show ?thesis using example_ok(6,8) by auto
qed

theorem sdb_sync_succeeds_witness:
  "\<exists>st'. sdb_sync (example_io True True) example_load example_store = (True, st') \<and> st_fs st' ''db'' = Some (cdb_file [(''k'', ''v'')])"
  using sdb_sync_succeeds [OF example_ok(1-3,5,6), of "example_io True True" example_load] by (auto simp: example_io_def reopens_def db_size_def)




end
