(* ===== verification/Diff.thy ===== *)
theory Diff
  imports Text
begin

text \<open>
  Differences between two trees of databases: \<^verbatim>\<open>src/diff.c\<close>.  \<open>diff_ctx\<close> has the flag \<^verbatim>\<open>equal\<close>, whether there is a
  callback, and what it was called with.  The databases are those of a forest; the recursion into namespaces has fuel.
\<close>

section \<open>Operations\<close>

record diff =
  df_path :: "string list"
  df_k :: string
  df_v :: "string option"
  df_add :: bool

text \<open>
  \<^verbatim>\<open>sdb_diff_format\<close>: \<open>mem\<close> is the block that \<^verbatim>\<open>str\<close> pointed to, \<open>off\<close> the offset of \<^verbatim>\<open>str\<close> in it, \<open>sz\<close> what is left, 0 once
  \<^verbatim>\<open>str\<close> is NULL; \<^verbatim>\<open>snprintf\<close> writes at most \<open>sz - 1\<close> characters and a terminator.
\<close>

definition appendf :: "string \<Rightarrow> bytes \<times> nat \<times> nat \<times> nat \<Rightarrow> bytes \<times> nat \<times> nat \<times> nat" where
  "appendf s st =
     (case st of (mem, off, sz, r) \<Rightarrow>
        let w = take (sz - 1) s @ [NUL];
            mem = (if sz > 0 then take off mem @ w @ drop (off + length w) mem else mem);
            sr = length s
        in if sr \<ge> sz then (mem, off, 0, r + sr) else (mem, off + sr, sz - sr, r + sr))"

definition sdb_diff_format :: "bytes \<Rightarrow> nat \<Rightarrow> diff \<Rightarrow> nat \<times> bytes" where
  "sdb_diff_format mem sz d =
     (let st = appendf ([if df_add d then CHR ''+'' else CHR ''-''] @ (if df_v d \<noteq> None then ''  '' else ''NS'') @ '' '') (mem, 0, sz, 0);
          st = fold (\<lambda>c. appendf (c @ ''/'')) (df_path d) st;
          st = (case df_v d of Some v \<Rightarrow> appendf (df_k d @ ''='' @ v) st | None \<Rightarrow> appendf (df_k d) st)
      in case st of (mem, off, sz, r) \<Rightarrow> (r, mem))"

record diff_ctx =
  dc_equal :: bool
  dc_cb :: bool
  dc_out :: "diff list"

definition sdb_diff_report_ns :: "string list \<Rightarrow> SdbNs \<Rightarrow> bool \<Rightarrow> diff_ctx \<Rightarrow> diff_ctx" where
  "sdb_diff_report_ns path e add c = c\<lparr>dc_out := dc_out c @ [\<lparr>df_path = path, df_k = ns_name e, df_v = None, df_add = add\<rparr>]\<rparr>"

definition sdb_diff_report_kv :: "string list \<Rightarrow> string \<Rightarrow> string option \<Rightarrow> bool \<Rightarrow> diff_ctx \<Rightarrow> diff_ctx" where
  "sdb_diff_report_kv path k v add c = c\<lparr>dc_out := dc_out c @ [\<lparr>df_path = path, df_k = k, df_v = v, df_add = add\<rparr>]\<rparr>"

definition sdb_diff_report_kv_cb :: "string list \<Rightarrow> bool \<Rightarrow> string \<Rightarrow> string option \<Rightarrow> diff_ctx \<Rightarrow> bool \<times> diff_ctx" where
  "sdb_diff_report_kv_cb path add k v c = (True, sdb_diff_report_kv path k v add c)"

fun sdb_diff_report :: "nat \<Rightarrow> string list \<Rightarrow> forest \<Rightarrow> nat \<Rightarrow> bool \<Rightarrow> diff_ctx \<Rightarrow> ns_error + forest \<times> diff_ctx"
and diff_report_all :: "nat \<Rightarrow> string list \<Rightarrow> forest \<Rightarrow> SdbNs list \<Rightarrow> bool \<Rightarrow> diff_ctx \<Rightarrow> ns_error + forest \<times> diff_ctx" where
  "sdb_diff_report 0 path f p add c = Inl Out_Of_Fuel"
| "sdb_diff_report (Suc n) path f p add c =
     (case deref_db f p of
        None \<Rightarrow> Inl Use_After_Free
      | Some s \<Rightarrow>
          (case diff_report_all n path f (ns_list s) add c of
             Inl x \<Rightarrow> Inl x
           | Inr (f, c) \<Rightarrow>
               (case deref_db f p of
                  None \<Rightarrow> Inl Use_After_Free
                | Some s \<Rightarrow>
                    (case sdb_foreach (pure_cb (sdb_diff_report_kv_cb path add)) c (n_s s) of
                       (_, c, t) \<Rightarrow> Inr (f[p := Some (s\<lparr>n_s := t\<rparr>)], c)))))"
| "diff_report_all n path f [] add c = Inr (f, c)"
| "diff_report_all n path f (e # es) add c =
     (case sdb_diff_report n (path @ [ns_name e]) f (ns_sdb e) add (sdb_diff_report_ns path e add c) of
        Inl x \<Rightarrow> Inl x
      | Inr (f, c) \<Rightarrow> diff_report_all n path f es add c)"

text \<open>
  The callback of the comparison; \<open>other\<close> is the other database.  Where \<^verbatim>\<open>DIFF\<close> returns, the result is \<open>False\<close>.
\<close>

definition sdb_diff_kv_cb :: "string list \<Rightarrow> bool \<Rightarrow> string \<Rightarrow> string option \<Rightarrow> sdb \<times> diff_ctx \<Rightarrow> bool \<times> sdb \<times> diff_ctx" where
  "sdb_diff_kv_cb path add k v u =
     (case u of (other, c) \<Rightarrow>
        case sdb_const_get other k of
          ((w, _), other) \<Rightarrow>
            if w = None \<or> w = Some [] then
              let c = c\<lparr>dc_equal := False\<rparr> in
              if dc_cb c then (True, other, sdb_diff_report_kv path k v add c) else (False, other, c)
            else if \<not> add \<and> v \<noteq> w then
              let c = c\<lparr>dc_equal := False\<rparr> in
              if dc_cb c then (True, other, sdb_diff_report_kv path k w True (sdb_diff_report_kv path k v False c)) else (False, other, c)
            else (True, other, c))"

text \<open>One pass over the entries of \<open>p\<close> against \<open>q\<close>; when they are the same database, it is the one that is walked over.\<close>

definition self_cb :: "(string \<Rightarrow> string option \<Rightarrow> sdb \<times> 'u \<Rightarrow> bool \<times> sdb \<times> 'u) \<Rightarrow> 'u foreach_cb" where
  "self_cb cb k v st = (case cb k v (snd st, fst st) of (b, s, u) \<Rightarrow> (b, u, s))"

definition diff_entries :: "string list \<Rightarrow> forest \<Rightarrow> nat \<Rightarrow> nat \<Rightarrow> bool \<Rightarrow> diff_ctx \<Rightarrow> ns_error + bool \<times> forest \<times> diff_ctx" where
  "diff_entries path f p q add c =
     (case (deref_db f p, deref_db f q) of
        (Some s, Some t) \<Rightarrow>
          if p = q then
            (case sdb_foreach (self_cb (sdb_diff_kv_cb path add)) c (n_s s) of
               (b, c, d) \<Rightarrow> Inr (b, f[p := Some (s\<lparr>n_s := d\<rparr>)], c))
          else
            (case sdb_foreach (pure_cb (sdb_diff_kv_cb path add)) (n_s t, c) (n_s s) of
               (b, (other, c), d) \<Rightarrow> Inr (b, f[q := Some (t\<lparr>n_s := other\<rparr>), p := Some (s\<lparr>n_s := d\<rparr>)], c))
      | _ \<Rightarrow> Inl Use_After_Free)"

text \<open>A namespace that only one side has.\<close>

definition diff_only :: "nat \<Rightarrow> string list \<Rightarrow> forest \<Rightarrow> SdbNs \<Rightarrow> bool \<Rightarrow> diff_ctx \<Rightarrow> ns_error + bool \<times> forest \<times> diff_ctx" where
  "diff_only n path f e add c =
     (let c = c\<lparr>dc_equal := False\<rparr> in
      if dc_cb c then
        (case sdb_diff_report n (path @ [ns_name e]) f (ns_sdb e) add (sdb_diff_report_ns path e add c) of
           Inl x \<Rightarrow> Inl x
         | Inr (f, c) \<Rightarrow> Inr (True, f, c))
      else Inr (False, f, c))"

text \<open>The second loop; a result \<open>False\<close> is the return of \<^verbatim>\<open>sdb_diff_ctx\<close>.\<close>

fun diff_added :: "nat \<Rightarrow> string list \<Rightarrow> forest \<Rightarrow> nat \<Rightarrow> SdbNs list \<Rightarrow> diff_ctx \<Rightarrow> ns_error + bool \<times> forest \<times> diff_ctx" where
  "diff_added n path f a [] c = Inr (True, f, c)"
| "diff_added n path f a (e # es) c =
     (if fst (sdb_ns f a (ns_name e) False) = None then
        (case diff_only n path f e True c of
           Inl x \<Rightarrow> Inl x
         | Inr (False, f, c) \<Rightarrow> Inr (False, f, c)
         | Inr (True, f, c) \<Rightarrow> diff_added n path f a es c)
      else diff_added n path f a es c)"

fun sdb_diff_ctx :: "nat \<Rightarrow> string list \<Rightarrow> forest \<Rightarrow> nat \<Rightarrow> nat \<Rightarrow> diff_ctx \<Rightarrow> ns_error + forest \<times> diff_ctx"
and diff_common :: "nat \<Rightarrow> string list \<Rightarrow> forest \<Rightarrow> nat \<Rightarrow> SdbNs list \<Rightarrow> diff_ctx \<Rightarrow> ns_error + bool \<times> forest \<times> diff_ctx" where
  "sdb_diff_ctx 0 path f a b c = Inl Out_Of_Fuel"
| "sdb_diff_ctx (Suc n) path f a b c =
     (case deref_db f a of
        None \<Rightarrow> Inl Use_After_Free
      | Some s \<Rightarrow>
          (case diff_common n path f b (ns_list s) c of
             Inl x \<Rightarrow> Inl x
           | Inr (False, f, c) \<Rightarrow> Inr (f, c)
           | Inr (True, f, c) \<Rightarrow>
               (case deref_db f b of
                  None \<Rightarrow> Inl Use_After_Free
                | Some t \<Rightarrow>
                    (case diff_added n path f a (ns_list t) c of
                       Inl x \<Rightarrow> Inl x
                     | Inr (False, f, c) \<Rightarrow> Inr (f, c)
                     | Inr (True, f, c) \<Rightarrow>
                         (case diff_entries path f a b False c of
                            Inl x \<Rightarrow> Inl x
                          | Inr (False, f, c) \<Rightarrow> Inr (f, c)
                          | Inr (True, f, c) \<Rightarrow>
                              (case diff_entries path f b a True c of
                                 Inl x \<Rightarrow> Inl x
                               | Inr (_, f, c) \<Rightarrow> Inr (f, c)))))))"
| "diff_common n path f b [] c = Inr (True, f, c)"
| "diff_common n path f b (e # es) c =
     (case fst (sdb_ns f b (ns_name e) False) of
        None \<Rightarrow>
          (case diff_only n path f e False c of
             Inl x \<Rightarrow> Inl x
           | Inr (False, f, c) \<Rightarrow> Inr (False, f, c)
           | Inr (True, f, c) \<Rightarrow> diff_common n path f b es c)
      | Some b' \<Rightarrow>
          (case sdb_diff_ctx n (path @ [ns_name e]) f (ns_sdb e) b' c of
             Inl x \<Rightarrow> Inl x
           | Inr (f, c) \<Rightarrow> diff_common n path f b es c))"

definition sdb_diff :: "nat \<Rightarrow> forest \<Rightarrow> nat \<Rightarrow> nat \<Rightarrow> bool \<Rightarrow> ns_error + bool \<times> forest \<times> diff list" where
  "sdb_diff n f a b cb =
     (case sdb_diff_ctx n [] f a b \<lparr>dc_equal = True, dc_cb = cb, dc_out = []\<rparr> of
        Inl x \<Rightarrow> Inl x
      | Inr (f, c) \<Rightarrow> Inr (dc_equal c, f, dc_out c))"

section \<open>Formatting\<close>

definition diff_text :: "diff \<Rightarrow> string" where
  "diff_text d =
     [if df_add d then CHR ''+'' else CHR ''-''] @ (if df_v d \<noteq> None then ''  '' else ''NS'') @ '' ''
     @ concat (map (\<lambda>c. c @ ''/'') (df_path d)) @ df_k d @ (case df_v d of None \<Rightarrow> [] | Some v \<Rightarrow> ''='' @ v)"

text \<open>The state after the text \<open>t\<close> was appended to a block of \<open>sz\<close> bytes.\<close>

definition formatted :: "bytes \<Rightarrow> nat \<Rightarrow> string \<Rightarrow> bytes \<times> nat \<times> nat \<times> nat \<Rightarrow> bool" where
  "formatted mem sz t st \<longleftrightarrow>
     (case st of (m, off, left, r) \<Rightarrow>
        r = length t \<and> (if length t < sz then off = length t \<and> left = sz - length t else left = 0)
        \<and> m = (if sz = 0 then mem else take (sz - 1) t @ [NUL] @ drop (min (sz - 1) (length t) + 1) mem))"

lemma appendf_formatted:
  assumes "formatted mem sz t st" "sz \<le> length mem"
  shows "formatted mem sz (t @ s) (appendf s st)"
proof -
  obtain m off left r where st: "st = (m, off, left, r)" by (metis prod.collapse)
  show ?thesis
  proof (cases "length t < sz")
    case True
    have m: "m = t @ [NUL] @ drop (length t + 1) mem" "off = length t" "left = sz - length t" "r = length t"
      using assms(1) True by (auto simp: formatted_def st)
    let ?w = "take (left - 1) s @ [NUL]"
    have d: "drop (Suc (length s + length t)) mem = drop sz mem" if "length s \<le> sz - Suc (length t)" "sz - Suc 0 \<le> length s + length t"
      using that True by (intro arg_cong [of _ _ "\<lambda>n. drop n mem"]) linarith
    have "take off m @ ?w @ drop (off + length ?w) m = take (sz - 1) (t @ s) @ [NUL] @ drop (min (sz - 1) (length (t @ s)) + 1) mem"
      using True m d by (auto simp: min_def add.commute)
    then show ?thesis using True m(2-4) by (auto simp: formatted_def st appendf_def Let_def)
  next
    case False
    then show ?thesis using assms(1) by (auto simp: formatted_def st appendf_def Let_def)
  qed
qed

text \<open>
  \<^verbatim>\<open>sdb_diff_format\<close> is \<^verbatim>\<open>snprintf\<close> of the whole description: it returns its length and writes what fits, terminated, and nothing else.
\<close>

theorem sdb_diff_format_spec:
  assumes "0 < sz" "sz \<le> length mem"
  shows "sdb_diff_format mem sz d =
    (length (diff_text d), take (sz - 1) (diff_text d) @ [NUL] @ drop (min (sz - 1) (length (diff_text d)) + 1) mem)"
proof -
  let ?h = "[if df_add d then CHR ''+'' else CHR ''-''] @ (if df_v d \<noteq> None then ''  '' else ''NS'') @ '' ''"
  define st1 where "st1 = appendf ?h (mem, 0, sz, 0)"
  have 1: "formatted mem sz ?h st1"
    unfolding st1_def using assms by (auto simp: formatted_def appendf_def Let_def min_def)
  have ap: "formatted mem sz t st \<Longrightarrow> formatted mem sz (t @ concat (map (\<lambda>c. c @ ''/'') p)) (fold (\<lambda>c. appendf (c @ ''/'')) p st)" for t st p
  proof (induction p arbitrary: t st)
    case (Cons c p)
    show ?case using Cons.IH [OF appendf_formatted [OF Cons.prems assms(2), of "c @ ''/''"]] by simp
  qed simp
  define st2 where "st2 = fold (\<lambda>c. appendf (c @ ''/'')) (df_path d) st1"
  define st3 where "st3 = (case df_v d of Some v \<Rightarrow> appendf (df_k d @ ''='' @ v) st2 | None \<Rightarrow> appendf (df_k d) st2)"
  have 2: "formatted mem sz (?h @ concat (map (\<lambda>c. c @ ''/'') (df_path d))) st2" unfolding st2_def by (rule ap [OF 1])
  have 3: "formatted mem sz (diff_text d) st3"
    using appendf_formatted [OF 2 assms(2)] by (auto simp: st3_def diff_text_def split: option.splits)
  have "sdb_diff_format mem sz d = (case st3 of (m, off, left, r) \<Rightarrow> (r, m))"
    unfolding sdb_diff_format_def Let_def st1_def st2_def st3_def ..
  then show ?thesis using 3 assms(1) by (auto simp: formatted_def split: prod.splits)
qed

section \<open>The differences as a list\<close>

text \<open>Trees of databases in memory whose namespaces are nested less than \<open>n\<close> deep.\<close>

fun memtree :: "nat \<Rightarrow> forest \<Rightarrow> nat \<Rightarrow> bool" where
  "memtree 0 f p = False"
| "memtree (Suc n) f p \<longleftrightarrow>
     (\<exists>s. deref_db f p = Some s \<and> mem_inv (n_s s) \<and> ns_entries_ok (ns_list s) \<and> (\<forall>e \<in> set (ns_list s). memtree n f (ns_sdb e)))"

definition below :: "string list \<Rightarrow> diff \<Rightarrow> diff" where
  "below path d = d\<lparr>df_path := path @ df_path d\<rparr>"

abbreviation Ns_Diff :: "string \<Rightarrow> bool \<Rightarrow> diff" where
  "Ns_Diff x add \<equiv> \<lparr>df_path = [], df_k = x, df_v = None, df_add = add\<rparr>"

abbreviation Kv_Diff :: "string \<Rightarrow> string \<Rightarrow> bool \<Rightarrow> diff" where
  "Kv_Diff k v add \<equiv> \<lparr>df_path = [], df_k = k, df_v = Some v, df_add = add\<rparr>"

abbreviation db_at :: "forest \<Rightarrow> nat \<Rightarrow> sdb" where
  "db_at f p \<equiv> n_s (the (deref_db f p))"

abbreviation ns_at :: "forest \<Rightarrow> nat \<Rightarrow> SdbNs list" where
  "ns_at f p \<equiv> ns_list (the (deref_db f p))"

abbreviation ns_find :: "forest \<Rightarrow> nat \<Rightarrow> string \<Rightarrow> nat option" where
  "ns_find f p x \<equiv> fst (sdb_ns f p x False)"

text \<open>Everything in a tree, and the differences of two trees, with paths from the root, in the order in which they are reported.\<close>

fun all_of :: "nat \<Rightarrow> forest \<Rightarrow> nat \<Rightarrow> bool \<Rightarrow> diff list" where
  "all_of 0 f p add = []"
| "all_of (Suc n) f p add =
     concat (map (\<lambda>e. Ns_Diff (ns_name e) add # map (below [ns_name e]) (all_of n f (ns_sdb e) add)) (ns_at f p))
     @ map (\<lambda>(k, v). Kv_Diff k v add) (mem_entries (db_at f p))"

definition kv_diffs :: "bool \<Rightarrow> (string \<rightharpoonup> string) \<Rightarrow> (string \<times> string) list \<Rightarrow> diff list" where
  "kv_diffs add other kvs = concat (map (\<lambda>(k, v). case other k of
       None \<Rightarrow> [Kv_Diff k v add]
     | Some w \<Rightarrow> if \<not> add \<and> v \<noteq> w then [Kv_Diff k v False, Kv_Diff k w True] else []) kvs)"

fun diffs :: "nat \<Rightarrow> forest \<Rightarrow> nat \<Rightarrow> nat \<Rightarrow> diff list" where
  "diffs 0 f p q = []"
| "diffs (Suc n) f p q =
     concat (map (\<lambda>e. case ns_find f q (ns_name e) of
         None \<Rightarrow> Ns_Diff (ns_name e) False # map (below [ns_name e]) (all_of n f (ns_sdb e) False)
       | Some q' \<Rightarrow> map (below [ns_name e]) (diffs n f (ns_sdb e) q')) (ns_at f p))
     @ concat (map (\<lambda>e. if ns_find f p (ns_name e) = None
         then Ns_Diff (ns_name e) True # map (below [ns_name e]) (all_of n f (ns_sdb e) True) else []) (ns_at f q))
     @ kv_diffs False (mem_view (db_at f q)) (mem_entries (db_at f p))
     @ kv_diffs True (mem_view (db_at f p)) (mem_entries (db_at f q))"

definition record_diffs :: "diff_ctx \<Rightarrow> diff list \<Rightarrow> diff_ctx" where
  "record_diffs c ds = c\<lparr>dc_equal := dc_equal c \<and> ds = [], dc_out := dc_out c @ (if dc_cb c then ds else [])\<rparr>"

lemma record_simps [simp]:
  "record_diffs c [] = c" "dc_cb (record_diffs c ds) = dc_cb c" "record_diffs (record_diffs c ds) es = record_diffs c (ds @ es)"
  by (auto simp: record_diffs_def)

lemma record_silent: "\<not> dc_cb c \<Longrightarrow> ds \<noteq> [] \<Longrightarrow> record_diffs c (ds @ es) = record_diffs c ds"
  by (simp add: record_diffs_def)

lemma below_below [simp]: "below p (below q d) = below (p @ q) d" "below [] d = d"
  by (simp_all add: below_def)

lemma below_comp [simp]: "below p \<circ> below q = below (p @ q)"
  by auto

section \<open>Walking over the entries\<close>

lemma kv_diffs_Cons:
  "kv_diffs add other ((k, v) # kvs) = (case other k of
       None \<Rightarrow> [Kv_Diff k v add]
     | Some w \<Rightarrow> if \<not> add \<and> v \<noteq> w then [Kv_Diff k v False, Kv_Diff k w True] else []) @ kv_diffs add other kvs"
  by (simp add: kv_diffs_def)

lemma kv_cb_step:
  assumes "mem_inv t"
  shows "sdb_diff_kv_cb path add k (Some v) (t, c) =
    (let ds = map (below path) (kv_diffs add (mem_view t) [(k, v)]) in (dc_cb c \<or> ds = [], t, record_diffs c ds))"
proof -
  obtain w l where g: "sdb_const_get t k = ((w, l), t)" "w = mem_view t k"
    using const_get_mem(1,2) [OF assms, of k] by (metis prod.collapse)
  have "w \<noteq> Some []" using g(2) mem_value_len [OF assms, of k] by auto
  then show ?thesis using g
    by (cases c) (auto simp: sdb_diff_kv_cb_def kv_diffs_def record_diffs_def below_def sdb_diff_report_kv_def Let_def split: option.splits)
qed

lemma kv_cb_walk:
  assumes "mem_inv t"
  shows "walk_list (sdb_diff_kv_cb path add) kvs (t, c) =
    (let ds = map (below path) (kv_diffs add (mem_view t) kvs) in (dc_cb c \<or> ds = [], t, record_diffs c ds))"
proof (induction kvs arbitrary: c)
  case Nil
  then show ?case by (simp add: kv_diffs_def)
next
  case (Cons x kvs)
  obtain k v where x: "x = (k, v)" by fastforce
  let ?a = "map (below path) (kv_diffs add (mem_view t) [(k, v)])" and ?b = "map (below path) (kv_diffs add (mem_view t) kvs)"
  have ab: "map (below path) (kv_diffs add (mem_view t) ((k, v) # kvs)) = ?a @ ?b" by (simp add: kv_diffs_def)
  show ?case
  proof (cases "dc_cb c \<or> ?a = []")
    case True
    then show ?thesis unfolding x ab using kv_cb_step [OF assms, of path add k v c] Cons.IH by (auto simp: Let_def)
  next
    case False
    then show ?thesis unfolding x ab using kv_cb_step [OF assms, of path add k v c] record_silent [of c ?a ?b] by (simp add: Let_def)
  qed
qed

text \<open>A callback that behaves like one that does not see the database gives the same walk.\<close>

lemma bucket_walk_same:
  assumes "\<And>k v u. cb k v (u, s) = pure_cb f k v (u, s)"
  shows "bucket_walk n cb i j (u, s) = bucket_walk n (pure_cb f) i j (u, s)"
proof (induction n arbitrary: j u)
  case (Suc n)
  have "cb k v (u, s) = (fst (f k v u), snd (f k v u), s)" "pure_cb f k v (u, s) = (fst (f k v u), snd (f k v u), s)" for k v
    using assms by (simp_all add: pure_cb_def split: prod.splits)
  then show ?case using Suc.IH by (simp add: Let_def split: bool.splits)
qed simp

lemma table_walk_same:
  assumes "\<And>k v u. cb k v (u, s) = pure_cb f k v (u, s)"
  shows "table_walk n cb i (u, s) = table_walk n (pure_cb f) i (u, s)"
  by (induction n arbitrary: i u) 
     (auto simp: bucket_walk_same [OF assms] bucket_walk_pure [where j = 0, simplified] split: prod.splits bool.splits)

lemma foreach_self:
  assumes "mem_inv s" "\<And>k v u x y. cb k v (u, s\<lparr>s_depth := x, s_pos := y\<rparr>) = pure_cb f k v (u, s\<lparr>s_depth := x, s_pos := y\<rparr>)"
  shows "sdb_foreach cb u s = (case walk_list f (mem_entries s) u of (b, u) \<Rightarrow> (b, u, s\<lparr>s_pos := 0\<rparr>))"
proof -
  have "sdb_foreach cb u s = sdb_foreach (pure_cb f) u s"
    using foreach_cdb_mem [of "s\<lparr>s_depth := s_depth s + 1\<rparr>" cb None u] foreach_cdb_mem [of "s\<lparr>s_depth := s_depth s + 1\<rparr>" "pure_cb f" None u]
      assms(1) table_walk_same [OF assms(2)]
    by (simp add: sdb_foreach_def)
  then show ?thesis using foreach_mem [OF assms(1)] by simp
qed

lemma kv_cb_self:
  assumes "mem_inv s"
  shows "sdb_foreach (self_cb (sdb_diff_kv_cb path add)) c s =
    (let ds = map (below path) (kv_diffs add (mem_view s) (mem_entries s)) in (dc_cb c \<or> ds = [], record_diffs c ds, s\<lparr>s_pos := 0\<rparr>))"
proof -
  let ?f = "\<lambda>k v c. case sdb_diff_kv_cb path add k v (s, c) of (b, _, c) \<Rightarrow> (b, c)"
  have w: "walk_list ?f kvs c = (case walk_list (sdb_diff_kv_cb path add) kvs (s, c) of (b, _, c) \<Rightarrow> (b, c))" for kvs c
  proof (induction kvs arbitrary: c)
    case (Cons x kvs)
    then show ?case using kv_cb_step [OF assms, of path add "fst x" "snd x" c] by (cases x) (auto simp: Let_def split: bool.splits)
  qed simp
  define l where "l k = snd (fst (sdb_const_get s k))" for k
  have g: "sdb_const_get s k = ((mem_view s k, l k), s)" for k
    unfolding l_def using const_get_mem(1,2) [OF assms, of k] by (metis prod.collapse)
  have "sdb_const_get (s\<lparr>s_depth := x, s_pos := y\<rparr>) k = ((mem_view s k, l k), s\<lparr>s_depth := x, s_pos := y\<rparr>)" for k x y
    unfolding l_def using assms get_mem [of "s\<lparr>s_depth := x, s_pos := y\<rparr>" k] get_mem [OF assms, of k] by (auto simp: sdb_const_get_def split: option.splits)
  then have "self_cb (sdb_diff_kv_cb path add) k v (u, s\<lparr>s_depth := x, s_pos := y\<rparr>) = pure_cb ?f k v (u, s\<lparr>s_depth := x, s_pos := y\<rparr>)" for k v u x y
    using g [of k] by (auto simp: self_cb_def pure_cb_def sdb_diff_kv_cb_def Let_def)
  from foreach_self [where cb = "self_cb (sdb_diff_kv_cb path add)" and f = ?f, OF assms this]
  show ?thesis using w [of "mem_entries s" c] kv_cb_walk [OF assms, of path add "mem_entries s" c] by (simp add: Let_def)
qed

section \<open>The comparison computes the list\<close>

lemma mem_entries_pos [simp]: "mem_entries (s\<lparr>s_pos := x\<rparr>) = mem_entries s"
  by (simp add: mem_entries_def)

lemma ns_find_similar: "similar f g \<Longrightarrow> ns_find g p x = ns_find f p x"
proof (cases "deref_db f p")
  case None
  then have "deref_db g p = None" if "similar f g" using that unfolding similar_def by (metis option.map_disc_iff)
  then show "similar f g \<Longrightarrow> ns_find g p x = ns_find f p x" using None by (simp add: sdb_ns_def)
next
  case (Some s)
  then show "similar f g \<Longrightarrow> ns_find g p x = ns_find f p x" using similar_at [of f g p s] by (auto simp: sdb_ns_def ns_list_def Let_def split: option.splits)
qed

lemma diff_entries_ok:
  assumes "similar f g" "deref_db f p = Some s" "deref_db f q = Some t" "mem_inv (n_s s)" "mem_inv (n_s t)"
  shows "\<exists>g'. similar f g' \<and> diff_entries path g p q add c =
    (let ds = map (below path) (kv_diffs add (mem_view (n_s t)) (mem_entries (n_s s))) in Inr (dc_cb c \<or> ds = [], g', record_diffs c ds))"
proof -
  obtain x y where g: "deref_db g p = Some (s\<lparr>n_s := (n_s s)\<lparr>s_pos := x\<rparr>\<rparr>)" "deref_db g q = Some (t\<lparr>n_s := (n_s t)\<lparr>s_pos := y\<rparr>\<rparr>)"
    using similar_at [OF assms(1,2)] similar_at [OF assms(1,3)] by auto
  let ?s = "s\<lparr>n_s := (n_s s)\<lparr>s_pos := x\<rparr>\<rparr>" and ?t = "t\<lparr>n_s := (n_s t)\<lparr>s_pos := y\<rparr>\<rparr>"
  have u: "similar f (g[p := Some (?s\<lparr>n_s := (n_s s)\<lparr>s_pos := 0\<rparr>\<rparr>)])" by (rule similar_upd [OF assms(1,2) g(1)])
  have i: "mem_inv (n_s ?s)" "mem_inv (n_s ?t)" using assms(4,5) by simp_all
  show ?thesis
  proof (cases "p = q")
    case True
    then have "diff_entries path g p q add c = (let ds = map (below path) (kv_diffs add (mem_view (n_s t)) (mem_entries (n_s s)))
        in Inr (dc_cb c \<or> ds = [], g[p := Some (?s\<lparr>n_s := (n_s s)\<lparr>s_pos := 0\<rparr>\<rparr>)], record_diffs c ds))"
      using g kv_cb_self [OF i(1), of path add c] assms(2,3) by (simp add: diff_entries_def Let_def)
    then show ?thesis using u by blast
  next
    case False
    have "g[q := Some ?t] = g" using g(2) deref_Some [OF g(2)] by (metis list_update_id)
    then have "diff_entries path g p q add c = (let ds = map (below path) (kv_diffs add (mem_view (n_s t)) (mem_entries (n_s s)))
        in Inr (dc_cb c \<or> ds = [], g[p := Some (?s\<lparr>n_s := (n_s s)\<lparr>s_pos := 0\<rparr>\<rparr>)], record_diffs c ds))"
      using g False foreach_mem [OF i(1), of "sdb_diff_kv_cb path add" "(n_s ?t, c)"] kv_cb_walk [OF i(2), of path add "mem_entries (n_s s)" c]
      by (simp add: diff_entries_def Let_def)
    then show ?thesis using u by blast
  qed
qed

lemma memtreeD:
  assumes "memtree (Suc n) f p"
  obtains s where "deref_db f p = Some s" "mem_inv (n_s s)" "ns_entries_ok (ns_list s)" "\<And>e. e \<in> set (ns_list s) \<Longrightarrow> memtree n f (ns_sdb e)"
  using assms by auto

definition add_out :: "diff_ctx \<Rightarrow> diff list \<Rightarrow> diff_ctx" where
  "add_out c ds = c\<lparr>dc_out := dc_out c @ ds\<rparr>"

lemma add_out_simps [simp]:
  "add_out c [] = c" "add_out (add_out c ds) es = add_out c (ds @ es)" "dc_cb (add_out c ds) = dc_cb c"
  by (simp_all add: add_out_def)

lemma report_ns_out: "sdb_diff_report_ns path e add c = add_out c (map (below path) [Ns_Diff (ns_name e) add])"
  by (simp add: sdb_diff_report_ns_def add_out_def below_def)

lemma report_kv_out:
  "mem_inv s \<Longrightarrow> sdb_foreach (pure_cb (sdb_diff_report_kv_cb path add)) c s =
     (True, add_out c (map (below path) (map (\<lambda>(k, v). Kv_Diff k v add) (mem_entries s))), s\<lparr>s_pos := 0\<rparr>)"
proof -
  have "walk_list (sdb_diff_report_kv_cb path add) kvs c = (True, add_out c (map (below path) (map (\<lambda>(k, v). Kv_Diff k v add) kvs)))" for kvs c
    by (induction kvs arbitrary: c) (auto simp: sdb_diff_report_kv_cb_def sdb_diff_report_kv_def add_out_def below_def)
  then show "mem_inv s \<Longrightarrow> ?thesis" by (simp add: foreach_mem)
qed

lemma report_all_ok:
  assumes "\<And>e g path c. e \<in> set es \<Longrightarrow> similar f g \<Longrightarrow>
      \<exists>g'. similar f g' \<and> sdb_diff_report n path g (ns_sdb e) add c = Inr (g', add_out c (map (below path) (all_of n f (ns_sdb e) add)))"
    and "similar f g"
  shows "\<exists>g'. similar f g' \<and> diff_report_all n path g es add c =
     Inr (g', add_out c (map (below path) (concat (map (\<lambda>e. Ns_Diff (ns_name e) add # map (below [ns_name e]) (all_of n f (ns_sdb e) add)) es))))"
  using assms
proof (induction es arbitrary: g c)
  case (Cons e es)
  obtain g1 where g1: "similar f g1" "sdb_diff_report n (path @ [ns_name e]) g (ns_sdb e) add (sdb_diff_report_ns path e add c) =
      Inr (g1, add_out (sdb_diff_report_ns path e add c) (map (below (path @ [ns_name e])) (all_of n f (ns_sdb e) add)))"
    using Cons.prems(1) [of e g] Cons.prems(2) by auto
  from Cons.IH [OF Cons.prems(1) g1(1), of "add_out (sdb_diff_report_ns path e add c) (map (below (path @ [ns_name e])) (all_of n f (ns_sdb e) add))"]
  show ?case using g1(2) by (auto simp: report_ns_out)
qed auto

lemma sdb_diff_report_ok:
  assumes "memtree n f p" "similar f g"
  shows "\<exists>g'. similar f g' \<and> sdb_diff_report n path g p add c = Inr (g', add_out c (map (below path) (all_of n f p add)))"
  using assms
proof (induction n arbitrary: p g path c)
  case (Suc n)
  obtain s where s: "deref_db f p = Some s" "mem_inv (n_s s)" "\<And>e. e \<in> set (ns_list s) \<Longrightarrow> memtree n f (ns_sdb e)"
    using memtreeD [OF Suc.prems(1)] by blast
  obtain x where x: "deref_db g p = Some (s\<lparr>n_s := (n_s s)\<lparr>s_pos := x\<rparr>\<rparr>)" using similar_at [OF Suc.prems(2) s(1)] by blast
  obtain g1 where g1: "similar f g1" "diff_report_all n path g (ns_list s) add c =
     Inr (g1, add_out c (map (below path) (concat (map (\<lambda>e. Ns_Diff (ns_name e) add # map (below [ns_name e]) (all_of n f (ns_sdb e) add)) (ns_list s)))))"
    using report_all_ok [OF Suc.IH [OF s(3)] Suc.prems(2)] by blast
  obtain y where y: "deref_db g1 p = Some (s\<lparr>n_s := (n_s s)\<lparr>s_pos := y\<rparr>\<rparr>)" using similar_at [OF g1(1) s(1)] by blast
  have "similar f (g1[p := Some (s\<lparr>n_s := (n_s s)\<lparr>s_pos := 0\<rparr>\<rparr>)])" using similar_upd [OF g1(1) s(1) y, of 0] by simp
  then show ?case using s(1,2) x y g1(2) by (auto simp: ns_list_def report_kv_out)
qed simp

lemma diff_only_ok:
  assumes "memtree n f (ns_sdb e)" "similar f g"
  shows "\<exists>g'. similar f g' \<and> diff_only n path g e add c =
    Inr (dc_cb c, g', record_diffs c (map (below path) (Ns_Diff (ns_name e) add # map (below [ns_name e]) (all_of n f (ns_sdb e) add))))"
proof (cases "dc_cb c")
  case True
  obtain g' where "similar f g'" "sdb_diff_report n (path @ [ns_name e]) g (ns_sdb e) add (sdb_diff_report_ns path e add (c\<lparr>dc_equal := False\<rparr>)) =
     Inr (g', add_out (sdb_diff_report_ns path e add (c\<lparr>dc_equal := False\<rparr>)) (map (below (path @ [ns_name e])) (all_of n f (ns_sdb e) add)))"
    using sdb_diff_report_ok [OF assms] by blast
  then show ?thesis using True by (auto simp: diff_only_def Let_def report_ns_out add_out_def record_diffs_def)
next
  case False
  then show ?thesis using assms(2) by (auto simp: diff_only_def record_diffs_def)
qed

text \<open>
  A step of the comparison that finds \<open>ds\<close>: it records them, and may only stop, with result \<open>False\<close>, when there is no callback
  and a difference was found.
\<close>

definition finds :: "forest \<Rightarrow> (forest \<Rightarrow> diff_ctx \<Rightarrow> ns_error + bool \<times> forest \<times> diff_ctx) \<Rightarrow> diff list \<Rightarrow> bool" where
  "finds f step ds \<longleftrightarrow> (\<forall>g c. similar f g \<longrightarrow> (\<exists>g' b. similar f g' \<and> step g c = Inr (b, g', record_diffs c ds) \<and> (b \<or> \<not> dc_cb c \<and> ds \<noteq> [])))"

definition and_then :: "(forest \<Rightarrow> diff_ctx \<Rightarrow> ns_error + bool \<times> forest \<times> diff_ctx) \<Rightarrow> (forest \<Rightarrow> diff_ctx \<Rightarrow> ns_error + bool \<times> forest \<times> diff_ctx)
    \<Rightarrow> forest \<Rightarrow> diff_ctx \<Rightarrow> ns_error + bool \<times> forest \<times> diff_ctx" where
  "and_then v w g c = (case v g c of Inl x \<Rightarrow> Inl x | Inr (False, g, c) \<Rightarrow> Inr (False, g, c) | Inr (True, g, c) \<Rightarrow> w g c)"

lemma finds_seq:
  assumes "finds f v ds" "finds f w es"
  shows "finds f (and_then v w) (ds @ es)"
  unfolding finds_def
proof (intro allI impI)
  fix g c
  assume "similar f g"
  then obtain g1 b where v: "similar f g1" "v g c = Inr (b, g1, record_diffs c ds)" "b \<or> \<not> dc_cb c \<and> ds \<noteq> []"
    using assms(1) unfolding finds_def by blast
  obtain g2 b2 where w: "similar f g2" "w g1 (record_diffs c ds) = Inr (b2, g2, record_diffs c (ds @ es))" "b2 \<or> \<not> dc_cb c \<and> es \<noteq> []"
    using assms(2) v(1) unfolding finds_def by (metis record_simps(2,3))
  show "\<exists>g' b. similar f g' \<and> and_then v w g c = Inr (b, g', record_diffs c (ds @ es)) \<and> (b \<or> \<not> dc_cb c \<and> ds @ es \<noteq> [])"
    using v w record_silent [of c ds es] by (cases b) (auto simp: and_then_def)
qed

lemma finds_cong: "finds f v ds \<Longrightarrow> (\<And>g c. similar f g \<Longrightarrow> w g c = v g c) \<Longrightarrow> es = ds \<Longrightarrow> finds f w es"
  by (simp add: finds_def)

lemma findsD:
  assumes "finds f v ds" "similar f g"
  shows "\<exists>g'. similar f g' \<and> map_sum id snd (v g c) = Inr (g', record_diffs c ds)"
proof -
  obtain g' b where "similar f g'" "v g c = Inr (b, g', record_diffs c ds)" using assms unfolding finds_def by blast
  then show ?thesis by auto
qed

lemma finds_skip: "finds f (\<lambda>g c. Inr (True, g, c)) []"
  by (auto simp: finds_def)

lemma finds_only:
  "memtree n f (ns_sdb e) \<Longrightarrow>
   finds f (\<lambda>g. diff_only n path g e add) (map (below path) (Ns_Diff (ns_name e) add # map (below [ns_name e]) (all_of n f (ns_sdb e) add)))"
  unfolding finds_def using diff_only_ok by fastforce

lemma finds_added:
  assumes "\<forall>e \<in> set es. memtree n f (ns_sdb e)"
  shows "finds f (\<lambda>g. diff_added n path g p es) (map (below path) (concat (map (\<lambda>e. if ns_find f p (ns_name e) = None
         then Ns_Diff (ns_name e) True # map (below [ns_name e]) (all_of n f (ns_sdb e) True) else []) es)))"
  using assms
proof (induction es)
  case Nil
  then show ?case using finds_skip by simp
next
  case (Cons e es)
  then have IH: "finds f (\<lambda>g. diff_added n path g p es) (map (below path) (concat (map (\<lambda>e. if ns_find f p (ns_name e) = None
         then Ns_Diff (ns_name e) True # map (below [ns_name e]) (all_of n f (ns_sdb e) True) else []) es)))" by simp
  show ?case
  proof (cases "ns_find f p (ns_name e) = None")
    case True
    have "finds f (\<lambda>g. diff_only n path g e True) (map (below path) (Ns_Diff (ns_name e) True # map (below [ns_name e]) (all_of n f (ns_sdb e) True)))"
      using Cons.prems by (intro finds_only) simp
    from finds_seq [OF this IH] show ?thesis
      by (rule finds_cong) (use True in \<open>simp_all add: ns_find_similar and_then_def\<close>)
  next
    case False
    show ?thesis using IH by (rule finds_cong) (use False in \<open>auto simp: ns_find_similar\<close>)
  qed
qed

lemma finds_entries:
  assumes "deref_db f p = Some s" "deref_db f q = Some t" "mem_inv (n_s s)" "mem_inv (n_s t)"
  shows "finds f (\<lambda>g. diff_entries path g p q add) (map (below path) (kv_diffs add (mem_view (n_s t)) (mem_entries (n_s s))))"
  unfolding finds_def
proof (intro allI impI)
  fix g c
  assume "similar f g"
  from diff_entries_ok [OF this assms, of path add c] show "\<exists>g' b. similar f g' \<and> diff_entries path g p q add c =
      Inr (b, g', record_diffs c (map (below path) (kv_diffs add (mem_view (n_s t)) (mem_entries (n_s s)))))
      \<and> (b \<or> \<not> dc_cb c \<and> map (below path) (kv_diffs add (mem_view (n_s t)) (mem_entries (n_s s))) \<noteq> [])"
    by (auto simp: Let_def)
qed

text \<open>The recursive call, whose caller goes on even when it stopped early.\<close>

definition finds_all :: "nat \<Rightarrow> forest \<Rightarrow> nat \<Rightarrow> nat \<Rightarrow> bool" where
  "finds_all n f p q \<longleftrightarrow> (\<forall>g path c. similar f g \<longrightarrow>
     (\<exists>g'. similar f g' \<and> sdb_diff_ctx n path g p q c = Inr (g', record_diffs c (map (below path) (diffs n f p q)))))"

lemma finds_sub:
  assumes "finds_all n f p q"
  shows "finds f (\<lambda>g c. case sdb_diff_ctx n path g p q c of Inl x \<Rightarrow> Inl x | Inr (g, c) \<Rightarrow> Inr (True, g, c)) (map (below path) (diffs n f p q))"
  unfolding finds_def
proof (intro allI impI)
  fix g c
  assume "similar f g"
  then obtain g' where "similar f g'" "sdb_diff_ctx n path g p q c = Inr (g', record_diffs c (map (below path) (diffs n f p q)))"
    using assms unfolding finds_all_def by blast
  then show "\<exists>g' b. similar f g' \<and> (case sdb_diff_ctx n path g p q c of Inl x \<Rightarrow> Inl x | Inr (g, c) \<Rightarrow> Inr (True, g, c))
      = Inr (b, g', record_diffs c (map (below path) (diffs n f p q))) \<and> (b \<or> \<not> dc_cb c \<and> map (below path) (diffs n f p q) \<noteq> [])"
    by auto
qed

lemma finds_common:
  assumes "\<forall>e \<in> set es. memtree n f (ns_sdb e) \<and> (\<forall>q'. ns_find f q (ns_name e) = Some q' \<longrightarrow> finds_all n f (ns_sdb e) q')"
  shows "finds f (\<lambda>g. diff_common n path g q es) (map (below path) (concat (map (\<lambda>e. case ns_find f q (ns_name e) of
         None \<Rightarrow> Ns_Diff (ns_name e) False # map (below [ns_name e]) (all_of n f (ns_sdb e) False)
       | Some q' \<Rightarrow> map (below [ns_name e]) (diffs n f (ns_sdb e) q')) es)))"
  using assms
proof (induction es)
  case Nil
  then show ?case using finds_skip by simp
next
  case (Cons e es)
  note IH = Cons.IH [OF ballI, OF Cons.prems [rule_format, OF list.set_intros(2)]]
  show ?case
  proof (cases "ns_find f q (ns_name e)")
    case None
    have "finds f (\<lambda>g. diff_only n path g e False) (map (below path) (Ns_Diff (ns_name e) False # map (below [ns_name e]) (all_of n f (ns_sdb e) False)))"
      using Cons.prems by (intro finds_only) simp
    from finds_seq [OF this IH] show ?thesis
      by (rule finds_cong) (use None in \<open>simp_all add: ns_find_similar and_then_def\<close>)
  next
    case (Some q')
    then have "finds_all n f (ns_sdb e) q'" using Cons.prems by simp
    from finds_sub [OF this]
    have "finds f (\<lambda>g c. case sdb_diff_ctx n (path @ [ns_name e]) g (ns_sdb e) q' c of Inl x \<Rightarrow> Inl x | Inr (g, c) \<Rightarrow> Inr (True, g, c))
        (map (below (path @ [ns_name e])) (diffs n f (ns_sdb e) q'))" .
    from finds_seq [OF this IH] show ?thesis
      by (rule finds_cong) (use Some in \<open>auto simp: ns_find_similar and_then_def split: sum.splits\<close>)
  qed
qed

lemma ns_findD:
  assumes "deref_db f p = Some s" "ns_find f p x = Some q"
  shows "\<exists>e \<in> set (ns_list s). ns_sdb e = q \<and> ns_hash e = sdb_hash x"
  using assms by (auto simp: sdb_ns_def Let_def find_Some_iff split: if_splits option.splits)

text \<open>The body of the comparison is the sequence of its four loops.\<close>

lemma diff_ctx_seq:
  assumes "deref_db f p = Some s" "deref_db f q = Some t" "similar f g"
    "finds f (\<lambda>g. diff_common n path g q (ns_list s)) ds"
  shows "sdb_diff_ctx (Suc n) path g p q c =
    map_sum id snd (and_then (\<lambda>g. diff_common n path g q (ns_list s)) (and_then (\<lambda>g. diff_added n path g p (ns_list t))
      (and_then (\<lambda>g. diff_entries path g p q False) (\<lambda>g. diff_entries path g q p True))) g c)"
proof -
  obtain x where x: "deref_db g p = Some (s\<lparr>n_s := (n_s s)\<lparr>s_pos := x\<rparr>\<rparr>)" using similar_at [OF assms(3,1)] by blast
  obtain g1 b where g1: "similar f g1" "diff_common n path g q (ns_list s) c = Inr (b, g1, record_diffs c ds)"
    using assms(3,4) unfolding finds_def by blast
  obtain y where y: "deref_db g1 q = Some (t\<lparr>n_s := (n_s t)\<lparr>s_pos := y\<rparr>\<rparr>)" using similar_at [OF g1(1) assms(2)] by blast
  show ?thesis using x y g1(2) by (auto simp: ns_list_def and_then_def split: sum.splits prod.splits bool.splits)
qed

lemma sdb_diff_ctx_ok: "memtree n f p \<Longrightarrow> memtree n f q \<Longrightarrow> finds_all n f p q"
proof (induction n arbitrary: p q)
  case (Suc n)
  obtain s where s: "deref_db f p = Some s" "mem_inv (n_s s)" "\<And>e. e \<in> set (ns_list s) \<Longrightarrow> memtree n f (ns_sdb e)"
    using memtreeD [OF Suc.prems(1)] by blast
  obtain t where t: "deref_db f q = Some t" "mem_inv (n_s t)" "\<And>e. e \<in> set (ns_list t) \<Longrightarrow> memtree n f (ns_sdb e)"
    using memtreeD [OF Suc.prems(2)] by blast
  have sub: "\<forall>e \<in> set (ns_list s). memtree n f (ns_sdb e) \<and> (\<forall>q'. ns_find f q (ns_name e) = Some q' \<longrightarrow> finds_all n f (ns_sdb e) q')"
    using Suc.IH s(3) t(3) ns_findD [OF t(1)] by blast
  note common = finds_common [OF sub]
  show ?case unfolding finds_all_def
  proof (intro allI impI)
    fix g path c
    assume g: "similar f g"
    note seq = diff_ctx_seq [OF s(1) t(1) g common, of path c]
    have "finds f (and_then (\<lambda>g. diff_common n path g q (ns_list s)) (and_then (\<lambda>g. diff_added n path g p (ns_list t))
      (and_then (\<lambda>g. diff_entries path g p q False) (\<lambda>g. diff_entries path g q p True)))) (map (below path) (diffs (Suc n) f p q))"
      unfolding diffs.simps map_append s(1) t(1) option.sel
      by (intro finds_seq common finds_added finds_entries s t ballI)
    then show "\<exists>g'. similar f g' \<and> sdb_diff_ctx (Suc n) path g p q c = Inr (g', record_diffs c (map (below path) (diffs (Suc n) f p q)))"
      unfolding seq by (rule findsD [OF _ g])
  qed
qed simp

section \<open>What the list says\<close>

text \<open>An entry, or a namespace when there is no value, is in the tree at \<open>p\<close>.\<close>

definition in_tree :: "forest \<Rightarrow> nat \<Rightarrow> diff \<Rightarrow> bool" where
  "in_tree f p d \<longleftrightarrow>
     (case df_v d of
        None \<Rightarrow> values_at f p (df_path d @ [df_k d]) \<noteq> None
      | Some v \<Rightarrow> (case values_at f p (df_path d) of None \<Rightarrow> False | Some m \<Rightarrow> m (df_k d) = Some v))"

text \<open>It is in one tree and not in the other, on the side that \<^verbatim>\<open>add\<close> says.\<close>

definition true_diff :: "forest \<Rightarrow> nat \<Rightarrow> nat \<Rightarrow> diff \<Rightarrow> bool" where
  "true_diff f a b d \<longleftrightarrow> (if df_add d then in_tree f b d \<and> \<not> in_tree f a d else in_tree f a d \<and> \<not> in_tree f b d)"

text \<open>The same difference up to names of namespaces with the same hash.\<close>

definition same_diff :: "diff \<Rightarrow> diff \<Rightarrow> bool" where
  "same_diff d d' \<longleftrightarrow> map sdb_hash (df_path d) = map sdb_hash (df_path d') \<and> df_v d = df_v d' \<and> df_add d = df_add d'
     \<and> (if df_v d = None then sdb_hash (df_k d) = sdb_hash (df_k d') else df_k d = df_k d')"

lemma below_sel [simp]:
  "df_path (below p d) = p @ df_path d" "df_k (below p d) = df_k d" "df_v (below p d) = df_v d" "df_add (below p d) = df_add d"
  by (simp_all add: below_def)

lemma same_diff_below: "same_diff d d' \<Longrightarrow> sdb_hash x = sdb_hash y \<Longrightarrow> same_diff (below [x] d) (below [y] d')"
  by (simp add: same_diff_def)

lemma in_tree_below: "in_tree f p (below [x] d) = (case ns_find f p x of None \<Rightarrow> False | Some q \<Rightarrow> in_tree f q d)"
  by (auto simp: in_tree_def split: option.splits)

lemma true_diff_below:
  assumes "ns_find f p x = Some p'" "ns_find f q x = Some q'"
  shows "true_diff f p q (below [x] d) = true_diff f p' q' d"
  using assms by (simp add: true_diff_def in_tree_below)

lemma diff_path_cases:
  obtains "df_path d = []" | x d' where "d = below [x] d'"
proof (cases "df_path d")
  case (Cons x xs)
  then have "d = below [x] (d\<lparr>df_path := xs\<rparr>)" by (simp add: below_def)
  then show ?thesis using that by blast
qed (use that in blast)

lemma find_entry:
  assumes "deref_db f p = Some s" "ns_entries_ok (ns_list s)" "e \<in> set (ns_list s)"
  shows "ns_find f p (ns_name e) = Some (ns_sdb e)"
proof -
  have "List.find (\<lambda>y. ns_hash y = ns_hash e) (ns_list s) = Some e"
    using find_unique [of ns_hash "ns_list s" e] assms(2,3) by (simp add: ns_entries_ok_def)
  then show ?thesis using assms by (auto simp: sdb_ns_def ns_entries_ok_def Let_def)
qed

lemma find_hash:
  assumes "deref_db f p = Some s" "sdb_hash x = sdb_hash y" "x \<noteq> []" "y \<noteq> []"
  shows "ns_find f p x = ns_find f p y"
  using assms by (simp add: sdb_ns_def Let_def split: option.splits)

lemma find_Some_entry:
  assumes "deref_db f p = Some s" "ns_entries_ok (ns_list s)" "ns_find f p x = Some q"
  obtains e where "e \<in> set (ns_list s)" "ns_sdb e = q" "sdb_hash (ns_name e) = sdb_hash x" "x \<noteq> []" "ns_name e \<noteq> []"
proof -
  obtain e where "e \<in> set (ns_list s)" "ns_sdb e = q" "ns_hash e = sdb_hash x" using ns_findD [OF assms(1,3)] by blast
  moreover have "x \<noteq> []" using assms(1,3) by (auto simp: sdb_ns_def)
  ultimately show ?thesis using that assms(2) by (auto simp: ns_entries_ok_def)
qed

lemma memtree_live: "memtree n f p \<Longrightarrow> deref_db f p \<noteq> None"
  by (cases n) auto

lemma in_tree_kv: "deref_db f p = Some s \<Longrightarrow> mem_inv (n_s s) \<Longrightarrow> in_tree f p (Kv_Diff k v add) \<longleftrightarrow> mem_view (n_s s) k = Some v"
  by (simp add: in_tree_def sdb_get_mem)

lemma in_tree_ns: 
  assumes "memtree (Suc n) f p"
  shows "in_tree f p (Ns_Diff x add) \<longleftrightarrow> ns_find f p x \<noteq> None"
proof -
  obtain s where s: "deref_db f p = Some s" "\<And>e. e \<in> set (ns_list s) \<Longrightarrow> memtree n f (ns_sdb e)" using memtreeD [OF assms] by blast
  have "deref_db f q \<noteq> None" if "ns_find f p x = Some q" for q using ns_findD [OF s(1) that] s(2) memtree_live by blast
  then show ?thesis by (auto simp: in_tree_def split: option.splits)
qed

lemma all_of_sound: "memtree n f p \<Longrightarrow> d \<in> set (all_of n f p add) \<Longrightarrow> df_add d = add \<and> in_tree f p d"
proof (induction n arbitrary: p d)
  case (Suc n)
  obtain s where s: "deref_db f p = Some s" "mem_inv (n_s s)" "ns_entries_ok (ns_list s)" "\<And>e. e \<in> set (ns_list s) \<Longrightarrow> memtree n f (ns_sdb e)"
    using memtreeD [OF Suc.prems(1)] by blast
  from Suc.prems(2) s(1) consider
    (ns) e where "e \<in> set (ns_list s)" "d = Ns_Diff (ns_name e) add"
  | (sub) e d' where "e \<in> set (ns_list s)" "d' \<in> set (all_of n f (ns_sdb e) add)" "d = below [ns_name e] d'"
  | (kv) k v where "(k, v) \<in> set (mem_entries (n_s s))" "d = Kv_Diff k v add"
    by auto
  then show ?case
  proof cases
    case ns
    then show ?thesis using find_entry [OF s(1,3)] in_tree_ns [OF Suc.prems(1)] by simp
  next
    case sub
    then show ?thesis using Suc.IH [OF s(4)] find_entry [OF s(1,3)] by (simp add: in_tree_below)
  next
    case kv
    then have "mem_view (n_s s) k = Some v" using mem_entries_ok(1,2) [OF s(2)] by (metis map_of_is_SomeI)
    then show ?thesis using kv(2) in_tree_kv [OF s(1,2)] by simp
  qed
qed simp

lemma all_of_complete:
  "memtree n f p \<Longrightarrow> in_tree f p d \<Longrightarrow> df_add d = add \<Longrightarrow> \<exists>d' \<in> set (all_of n f p add). same_diff d d'"
proof (induction n arbitrary: p d)
  case (Suc n)
  obtain s where s: "deref_db f p = Some s" "mem_inv (n_s s)" "ns_entries_ok (ns_list s)" "\<And>e. e \<in> set (ns_list s) \<Longrightarrow> memtree n f (ns_sdb e)"
    using memtreeD [OF Suc.prems(1)] by blast
  show ?case
  proof (cases d rule: diff_path_cases)
    case 1
    show ?thesis
    proof (cases "df_v d")
      case None
      then have d: "d = Ns_Diff (df_k d) add" using 1 Suc.prems(3) by (cases d) simp
      then obtain q where "ns_find f p (df_k d) = Some q" using Suc.prems(2) in_tree_ns [OF Suc.prems(1), of "df_k d" add] by auto
      from find_Some_entry [OF s(1,3) this] obtain e where "e \<in> set (ns_list s)" "sdb_hash (ns_name e) = sdb_hash (df_k d)" by metis
      then show ?thesis using s(1) 1 None Suc.prems(3) by (intro bexI [of _ "Ns_Diff (ns_name e) add"]) (auto simp: same_diff_def)
    next
      case (Some v)
      then have d: "d = Kv_Diff (df_k d) v add" using 1 Suc.prems(3) by (cases d) simp
      then have "mem_view (n_s s) (df_k d) = Some v" using Suc.prems(2) in_tree_kv [OF s(1,2), of "df_k d" v add] by simp
      then have "(df_k d, v) \<in> set (mem_entries (n_s s))" using mem_entries_ok(2) [OF s(2)] by (metis map_of_SomeD)
      then show ?thesis using s(1) d by (intro bexI [of _ d]) (auto simp: same_diff_def image_iff)
    qed
  next
    case (2 x d1)
    then obtain q where q: "ns_find f p x = Some q" "in_tree f q d1" using Suc.prems(2) by (auto simp: in_tree_below split: option.splits)
    from find_Some_entry [OF s(1,3) q(1)] obtain e where e: "e \<in> set (ns_list s)" "ns_sdb e = q" "sdb_hash (ns_name e) = sdb_hash x" by metis
    obtain d' where "d' \<in> set (all_of n f q add)" "same_diff d1 d'" using Suc.IH [OF s(4) [OF e(1)]] e(2) q(2) 2 Suc.prems(3) by auto
    then show ?thesis using e s(1) 2 same_diff_below [of d1 d' x "ns_name e"]
      by (intro bexI [of _ "below [ns_name e] d'"]) (auto simp: image_iff)
  qed
qed simp

text \<open>The entries of the two databases themselves.\<close>

lemma kv_diffs_mem:
  "Kv_Diff k v add \<in> set (kv_diffs b m kvs) \<longleftrightarrow>
    (if b then add \<and> (k, v) \<in> set kvs \<and> m k = None
     else if add then m k = Some v \<and> (\<exists>u. (k, u) \<in> set kvs \<and> u \<noteq> v) else (k, v) \<in> set kvs \<and> m k \<noteq> Some v)"
proof (induction kvs)
  case (Cons x kvs)
  then show ?case by (cases x; cases "m (fst x)"; cases b; cases add) (auto simp: kv_diffs_Cons)
qed (simp add: kv_diffs_def)

lemma kv_diffs_iff:
  assumes "\<And>k v. (k, v) \<in> set xs \<longleftrightarrow> m k = Some v" "\<And>k v. (k, v) \<in> set ys \<longleftrightarrow> m' k = Some v"
  shows "Kv_Diff k v add \<in> set (kv_diffs False m' xs @ kv_diffs True m ys) \<longleftrightarrow>
    (if add then m' k = Some v \<and> m k \<noteq> Some v else m k = Some v \<and> m' k \<noteq> Some v)"
  unfolding set_append Un_iff kv_diffs_mem assms by (cases "m k"; cases add) auto

lemma kv_diffs_form: "d \<in> set (kv_diffs b m kvs) \<Longrightarrow> \<exists>k v add. d = Kv_Diff k v add"
proof (induction kvs)
  case (Cons x kvs)
  then show ?case by (cases x; cases "m (fst x)") (auto simp: kv_diffs_Cons split: if_splits)
qed (simp add: kv_diffs_def)

lemma mem_entries_iff: "mem_inv s \<Longrightarrow> (k, v) \<in> set (mem_entries s) \<longleftrightarrow> mem_view s k = Some v"
  using mem_entries_ok(1,2) [of s] by (metis map_of_SomeD map_of_is_SomeI)

lemma diffs_cases:
  assumes "d \<in> set (diffs (Suc n) f p q)" "deref_db f p = Some s" "deref_db f q = Some t"
  obtains
    (removed) e where "e \<in> set (ns_list s)" "ns_find f q (ns_name e) = None"
      "d \<in> insert (Ns_Diff (ns_name e) False) (below [ns_name e] ` set (all_of n f (ns_sdb e) False))"
  | (common) e q' d' where "e \<in> set (ns_list s)" "ns_find f q (ns_name e) = Some q'" "d' \<in> set (diffs n f (ns_sdb e) q')" "d = below [ns_name e] d'"
  | (added) e where "e \<in> set (ns_list t)" "ns_find f p (ns_name e) = None"
      "d \<in> insert (Ns_Diff (ns_name e) True) (below [ns_name e] ` set (all_of n f (ns_sdb e) True))"
  | (entries) "d \<in> set (kv_diffs False (mem_view (n_s t)) (mem_entries (n_s s)) @ kv_diffs True (mem_view (n_s s)) (mem_entries (n_s t)))"
proof -
  from assms consider
    (a) e where "e \<in> set (ns_list s)" "d \<in> set (case ns_find f q (ns_name e) of
         None \<Rightarrow> Ns_Diff (ns_name e) False # map (below [ns_name e]) (all_of n f (ns_sdb e) False)
       | Some q' \<Rightarrow> map (below [ns_name e]) (diffs n f (ns_sdb e) q'))"
  | (b) e where "e \<in> set (ns_list t)" "d \<in> set (if ns_find f p (ns_name e) = None
         then Ns_Diff (ns_name e) True # map (below [ns_name e]) (all_of n f (ns_sdb e) True) else [])"
  | (c) "d \<in> set (kv_diffs False (mem_view (n_s t)) (mem_entries (n_s s)) @ kv_diffs True (mem_view (n_s s)) (mem_entries (n_s t)))"
    unfolding diffs.simps set_append set_concat set_map option.sel by auto
  then show ?thesis
  proof cases
    case a
    then show ?thesis using that(1,2) by (cases "ns_find f q (ns_name e)") auto
  next
    case b
    then show ?thesis using that(3) by (auto split: if_splits)
  qed (use that(4) in blast)
qed

lemma diffs_sound: "memtree n f p \<Longrightarrow> memtree n f q \<Longrightarrow> d \<in> set (diffs n f p q) \<Longrightarrow> true_diff f p q d"
proof (induction n arbitrary: p q d)
  case (Suc n)
  obtain s where s: "deref_db f p = Some s" "mem_inv (n_s s)" "ns_entries_ok (ns_list s)" "\<And>e. e \<in> set (ns_list s) \<Longrightarrow> memtree n f (ns_sdb e)"
    using memtreeD [OF Suc.prems(1)] by blast
  obtain t where t: "deref_db f q = Some t" "mem_inv (n_s t)" "ns_entries_ok (ns_list t)" "\<And>e. e \<in> set (ns_list t) \<Longrightarrow> memtree n f (ns_sdb e)"
    using memtreeD [OF Suc.prems(2)] by blast
  note kv = kv_diffs_iff [of "mem_entries (n_s s)" "mem_view (n_s s)" "mem_entries (n_s t)" "mem_view (n_s t)",
    OF mem_entries_iff [OF s(2)] mem_entries_iff [OF t(2)]]
  from Suc.prems(3) s(1) t(1) show ?case
  proof (cases rule: diffs_cases)
    case removed
    then show ?thesis using all_of_sound [OF s(4)] find_entry [OF s(1,3)] in_tree_ns [OF Suc.prems(1)] in_tree_ns [OF Suc.prems(2)]
      by (auto simp: true_diff_def in_tree_below)
  next
    case (common e q' d')
    obtain e' where "e' \<in> set (ns_list t)" "ns_sdb e' = q'" using ns_findD [OF t(1) common(2)] by blast
    then show ?thesis using common Suc.IH [OF s(4)] t(4) find_entry [OF s(1,3)] true_diff_below by metis
  next
    case added
    then show ?thesis using all_of_sound [OF t(4)] find_entry [OF t(1,3)] in_tree_ns [OF Suc.prems(1)] in_tree_ns [OF Suc.prems(2)]
      by (auto simp: true_diff_def in_tree_below)
  next
    case entries
    then obtain k v add where d: "d = Kv_Diff k v add" using kv_diffs_form by fastforce
    then show ?thesis using entries [unfolded d kv] in_tree_kv [OF s(1,2)] in_tree_kv [OF t(1,2)] by (simp add: true_diff_def)
  qed
qed simp

lemma diffs_here:
  assumes "memtree (Suc n) f p" "memtree (Suc n) f q" "true_diff f p q d" "df_path d = []"
  shows "\<exists>d' \<in> set (diffs (Suc n) f p q). same_diff d d'"
proof -
  obtain s where s: "deref_db f p = Some s" "mem_inv (n_s s)" "ns_entries_ok (ns_list s)" using memtreeD [OF assms(1)] by blast
  obtain t where t: "deref_db f q = Some t" "mem_inv (n_s t)" "ns_entries_ok (ns_list t)" using memtreeD [OF assms(2)] by blast
  show ?thesis
  proof (cases "df_v d")
    case None
    then have d: "d = Ns_Diff (df_k d) (df_add d)" using assms(4) by (cases d) simp
    define x where "x = df_k d"
    have r: "if df_add d then ns_find f q x \<noteq> None \<and> ns_find f p x = None else ns_find f p x \<noteq> None \<and> ns_find f q x = None"
      using assms(3) in_tree_ns [OF assms(1)] in_tree_ns [OF assms(2)] d unfolding true_diff_def x_def by metis
    show ?thesis
    proof (cases "df_add d")
      case True
      then obtain q' where "ns_find f q x = Some q'" "ns_find f p x = None" using r by auto
      moreover from find_Some_entry [OF t(1,3) this(1)]
      obtain e where e: "e \<in> set (ns_list t)" "sdb_hash (ns_name e) = sdb_hash x" "x \<noteq> []" "ns_name e \<noteq> []" by metis
      ultimately have "Ns_Diff (ns_name e) True \<in> set (diffs (Suc n) f p q)" using find_hash [OF s(1) e(2,4,3)] t(1) by force
      then show ?thesis using e(2) True assms(4) None x_def by (intro bexI [of _ "Ns_Diff (ns_name e) True"]) (auto simp: same_diff_def)
    next
      case False
      then obtain p' where "ns_find f p x = Some p'" "ns_find f q x = None" using r by auto
      moreover from find_Some_entry [OF s(1,3) this(1)]
      obtain e where e: "e \<in> set (ns_list s)" "sdb_hash (ns_name e) = sdb_hash x" "x \<noteq> []" "ns_name e \<noteq> []" by metis
      ultimately have "Ns_Diff (ns_name e) False \<in> set (diffs (Suc n) f p q)" using find_hash [OF t(1) e(2,4,3)] s(1) by force
      then show ?thesis using e(2) False assms(4) None x_def by (intro bexI [of _ "Ns_Diff (ns_name e) False"]) (auto simp: same_diff_def)
    qed
  next
    case (Some v)
    then have d: "d = Kv_Diff (df_k d) v (df_add d)" using assms(4) by (cases d) simp
    note kv = kv_diffs_iff [of "mem_entries (n_s s)" "mem_view (n_s s)" "mem_entries (n_s t)" "mem_view (n_s t)",
      OF mem_entries_iff [OF s(2)] mem_entries_iff [OF t(2)]]
    have "d \<in> set (kv_diffs False (mem_view (n_s t)) (mem_entries (n_s s)) @ kv_diffs True (mem_view (n_s s)) (mem_entries (n_s t)))"
      using assms(3) in_tree_kv [OF s(1,2)] in_tree_kv [OF t(1,2)] d kv unfolding true_diff_def by metis
    then show ?thesis using s(1) t(1) by (intro bexI [of _ d]) (auto simp: same_diff_def)
  qed
qed

lemma diffs_complete:
  "memtree n f p \<Longrightarrow> memtree n f q \<Longrightarrow> true_diff f p q d \<Longrightarrow> \<exists>d' \<in> set (diffs n f p q). same_diff d d'"
proof (induction n arbitrary: p q d)
  case (Suc n)
  obtain s where s: "deref_db f p = Some s" "ns_entries_ok (ns_list s)" "\<And>e. e \<in> set (ns_list s) \<Longrightarrow> memtree n f (ns_sdb e)"
    using memtreeD [OF Suc.prems(1)] by blast
  obtain t where t: "deref_db f q = Some t" "ns_entries_ok (ns_list t)" "\<And>e. e \<in> set (ns_list t) \<Longrightarrow> memtree n f (ns_sdb e)"
    using memtreeD [OF Suc.prems(2)] by blast
  show ?case
  proof (cases d rule: diff_path_cases)
    case 1
    then show ?thesis using diffs_here [OF Suc.prems] by blast
  next
    case (2 x d1)
    have found: "\<exists>d' \<in> set (diffs (Suc n) f p q). same_diff d d'"
      if "d' \<in> set ds" "same_diff d1 d'" "sdb_hash (ns_name e) = sdb_hash x" "below [ns_name e] ` set ds \<subseteq> set (diffs (Suc n) f p q)" for d' ds e
      using that same_diff_below [of d1 d' x "ns_name e"] 2 by (intro bexI [of _ "below [ns_name e] d'"]) auto
    show ?thesis
    proof (cases "ns_find f p x")
      case (Some p')
      from find_Some_entry [OF s(1,2) Some] obtain e where e: "e \<in> set (ns_list s)" "ns_sdb e = p'" "sdb_hash (ns_name e) = sdb_hash x" "x \<noteq> []" "ns_name e \<noteq> []" by metis
      have qx: "ns_find f q (ns_name e) = ns_find f q x" by (rule find_hash [OF t(1) e(3,5,4)])
      show ?thesis
      proof (cases "ns_find f q x")
        case None
        then have i: "in_tree f p' d1" "\<not> df_add d1" using Suc.prems(3) 2 Some by (auto simp: true_diff_def in_tree_below split: if_splits)
        obtain d' where "d' \<in> set (all_of n f p' False)" "same_diff d1 d'" using all_of_complete [OF _ i(1)] s(3) [OF e(1)] e(2) i(2) by metis
        moreover have "below [ns_name e] ` set (all_of n f p' False) \<subseteq> set (diffs (Suc n) f p q)" using e(1,2) s(1) qx None by force
        ultimately show ?thesis using found e(3) by blast
      next
        case (Some q')
        obtain e' where e': "e' \<in> set (ns_list t)" "ns_sdb e' = q'" using ns_findD [OF t(1) Some] by blast
        have "true_diff f p' q' d1" using Suc.prems(3) 2 true_diff_below [OF \<open>ns_find f p x = Some p'\<close> Some] by simp
        then obtain d' where "d' \<in> set (diffs n f p' q')" "same_diff d1 d'" using Suc.IH s(3) [OF e(1)] e(2) t(3) [OF e'(1)] e'(2) by metis
        moreover have "below [ns_name e] ` set (diffs n f p' q') \<subseteq> set (diffs (Suc n) f p q)" using e(1,2) s(1) qx Some by force
        ultimately show ?thesis using found e(3) by blast
      qed
    next
      case None
      then obtain q' where q': "ns_find f q x = Some q'" "in_tree f q' d1" "df_add d1"
        using Suc.prems(3) 2 by (auto simp: true_diff_def in_tree_below split: if_splits option.splits)
      from find_Some_entry [OF t(1,2) q'(1)] obtain e where e: "e \<in> set (ns_list t)" "ns_sdb e = q'" "sdb_hash (ns_name e) = sdb_hash x" "x \<noteq> []" "ns_name e \<noteq> []" by metis
      have px: "ns_find f p (ns_name e) = None" using find_hash [OF s(1) e(3,5,4)] None by simp
      obtain d' where "d' \<in> set (all_of n f q' True)" "same_diff d1 d'" using all_of_complete [OF _ q'(2)] t(3) [OF e(1)] e(2) q'(3) by metis
      moreover have "below [ns_name e] ` set (all_of n f q' True) \<subseteq> set (diffs (Suc n) f p q)" using e(1,2) t(1) px by force
      ultimately show ?thesis using found e(3) by blast
    qed
  qed
qed simp

text \<open>No difference: the trees have the same values at every path.\<close>

lemma no_diff_values:
  assumes "memtree n f p" "memtree n f q"
  shows "(\<forall>path. values_at f p path = values_at f q path) \<longleftrightarrow> (\<forall>d. \<not> true_diff f p q d)"
proof
  assume "\<forall>path. values_at f p path = values_at f q path"
  then have "in_tree f p d = in_tree f q d" for d by (simp add: in_tree_def split: option.splits)
  then show "\<forall>d. \<not> true_diff f p q d" by (simp add: true_diff_def)
next
  assume no: "\<forall>d. \<not> true_diff f p q d"
  have eq: "in_tree f p \<lparr>df_path = P, df_k = k, df_v = v, df_add = False\<rparr> = in_tree f q \<lparr>df_path = P, df_k = k, df_v = v, df_add = False\<rparr>" for P k v
    using no [rule_format, of "\<lparr>df_path = P, df_k = k, df_v = v, df_add = False\<rparr>"] no [rule_format, of "\<lparr>df_path = P, df_k = k, df_v = v, df_add = True\<rparr>"]
    by (cases v; cases "values_at f p P"; cases "values_at f q P") (auto simp: true_diff_def in_tree_def)
  show "\<forall>path. values_at f p path = values_at f q path"
  proof
    fix path
    have dom: "(values_at f p path = None) = (values_at f q path = None)"
    proof (cases path rule: rev_cases)
      case Nil
      then show ?thesis using memtree_live [OF assms(1)] memtree_live [OF assms(2)] by auto
    next
      case (snoc P k)
      then show ?thesis using eq [of P k None] by (auto simp: in_tree_def)
    qed
    show "values_at f p path = values_at f q path"
    proof (cases "values_at f p path")
      case (Some m)
      then obtain m' where m': "values_at f q path = Some m'" using dom by auto
      have "m k = Some v \<longleftrightarrow> m' k = Some v" for k v using eq [of path k "Some v"] Some m' by (simp add: in_tree_def)
      then have "m k = m' k" for k by (metis not_Some_eq)
      then show ?thesis using Some m' by auto
    qed (use dom in simp)
  qed
qed

section \<open>The comparison\<close>

text \<open>
  C14.  Comparing two trees of databases in memory, whose namespaces are nested less than \<open>n\<close> deep, ends and changes nothing but the positions of
  walks in them.  The result is whether both have the same values at every path of namespaces.  With a callback, every difference reported is one, an entry or a
  namespace that is in the one tree and not in the other, and every difference is reported, under the path and name the
  namespaces have or others with the same hashes.
\<close>

theorem sdb_diff_exact:
  assumes "memtree n f a" "memtree n f b"
  shows "\<exists>equal f' out. sdb_diff n f a b cb = Inr (equal, f', out) \<and> similar f f'
    \<and> equal = (\<forall>path. values_at f a path = values_at f b path)
    \<and> (if cb then (\<forall>d \<in> set out. true_diff f a b d) \<and> (\<forall>d. true_diff f a b d \<longrightarrow> (\<exists>d' \<in> set out. same_diff d d')) else out = [])"
proof -
  let ?c = "\<lparr>dc_equal = True, dc_cb = cb, dc_out = []\<rparr>" and ?ds = "diffs n f a b"
  obtain f' where f': "similar f f'" "sdb_diff_ctx n [] f a b ?c = Inr (f', record_diffs ?c (map (below []) ?ds))"
    using sdb_diff_ctx_ok [OF assms] similar_refl unfolding finds_all_def by blast
  have r: "sdb_diff n f a b cb = Inr (?ds = [], f', if cb then ?ds else [])"
    using f'(2) by (simp add: sdb_diff_def record_diffs_def map_idI)
  have "?ds = [] \<longleftrightarrow> (\<forall>d. \<not> true_diff f a b d)"
    using diffs_sound [OF assms] diffs_complete [OF assms] by (metis empty_iff list.set(1) list.set_sel(1))
  then show ?thesis using r f'(1) diffs_sound [OF assms] diffs_complete [OF assms] no_diff_values [OF assms] by auto
qed

definition diff_example :: forest where
  "diff_example =
     [Some ((blank_node 0)\<lparr>n_s := single ''k'' ''v''\<rparr>),
      Some ((blank_node 0)\<lparr>n_s := single ''k'' ''w'', n_ns := Some [\<lparr>ns_name = ''n'', ns_hash = sdb_hash ''n'', ns_sdb = 2\<rparr>]\<rparr>),
      Some (blank_node 0)]"

lemma diff_example_ok:
  "memtree 2 diff_example 0" "memtree 2 diff_example 1" "true_diff diff_example 0 1 (Kv_Diff ''k'' ''w'' True)"
proof -
  have l: "length ''k'' < SDB_KSZ" "length ''v'' < SDB_VSZ" "length ''w'' < SDB_VSZ" by (simp_all add: SDB_KSZ_def SDB_VSZ_def)
  note v = single_ok [OF l(1,2)] and w = single_ok [OF l(1,3)]
  have d: "deref_db diff_example 0 = Some ((blank_node 0)\<lparr>n_s := single ''k'' ''v''\<rparr>)"
    "deref_db diff_example 1 = Some ((blank_node 0)\<lparr>n_s := single ''k'' ''w'', n_ns := Some [\<lparr>ns_name = ''n'', ns_hash = sdb_hash ''n'', ns_sdb = 2\<rparr>]\<rparr>)"
    "deref_db diff_example 2 = Some (blank_node 0)"
    by (simp_all add: deref_db_def diff_example_def)
  have "memtree 1 diff_example 2" using d(3) sdb_new0_ok by (simp add: ns_entries_ok_def ns_list_def blank_node_def)
  then show "memtree 2 diff_example 1" using d(2) w(3) by (simp add: numeral_2_eq_2 ns_entries_ok_def ns_list_def)
  show "memtree 2 diff_example 0" using d(1) v(3) by (simp add: numeral_2_eq_2 ns_entries_ok_def ns_list_def blank_node_def)
  show "true_diff diff_example 0 1 (Kv_Diff ''k'' ''w'' True)"
    using d(1,2) in_tree_kv [OF d(1)] in_tree_kv [OF d(2)] v(1,3) w(1,3) by (simp add: true_diff_def)
qed

theorem sdb_diff_exact_witness:
  "\<exists>f' out. sdb_diff 2 diff_example 0 1 True = Inr (False, f', out) \<and> (\<exists>d \<in> set out. df_k d = ''k'' \<and> df_v d = Some ''w'' \<and> df_add d)"
proof -
  obtain e f' out where r: "sdb_diff 2 diff_example 0 1 True = Inr (e, f', out)"
    "e = (\<forall>path. values_at diff_example 0 path = values_at diff_example 1 path)"
    "\<forall>d. true_diff diff_example 0 1 d \<longrightarrow> (\<exists>d' \<in> set out. same_diff d d')"
    using sdb_diff_exact [OF diff_example_ok(1,2), of True] by (elim exE conjE) simp
  have "\<not> e" using r(2) diff_example_ok(3) no_diff_values [OF diff_example_ok(1,2)] by blast
  moreover obtain d where "d \<in> set out" "same_diff (Kv_Diff ''k'' ''w'' True) d" using r(3) diff_example_ok(3) by blast
  ultimately show ?thesis using r(1) by (auto simp: same_diff_def)
qed

end
