(* ===== verification/Spec2Isabelle.thy ===== *)
theory Spec2Isabelle
  imports Sdb_Query Dict Disk Diff
begin

text \<open>
  A verification of sdb, the string key/value database of radare.

  \<^bold>\<open>The program.\<close>  A database (\<^verbatim>\<open>struct sdb_t\<close>) is a hash table of changes in memory in front of an optional
  constant database file.  \<^verbatim>\<open>src/sdb.c\<close> has the operations on it; the table is \<^verbatim>\<open>src/ht.c\<close> over the generic
  buckets of \<^verbatim>\<open>src/ht.inc.c\<close>; the file is written by \<^verbatim>\<open>src/cdb_make.c\<close> through the buffer of
  \<^verbatim>\<open>src/buffer.inc.c\<close> and read by \<^verbatim>\<open>src/cdb.c\<close>.  Values are strings; numbers (\<^verbatim>\<open>src/num.c\<close>), comma separated arrays
  (\<^verbatim>\<open>src/array.c\<close>), structures (\<^verbatim>\<open>src/fmt.c\<close>) and base64 data (\<^verbatim>\<open>src/base64.c\<close>) are conventions on them, with
  the helpers of \<^verbatim>\<open>src/util.c\<close>.  A journal (\<^verbatim>\<open>src/journal.c\<close>) records changes.  Besides there are the containers
  the library uses and exports: linked lists (\<^verbatim>\<open>src/ls.c\<close>), a dictionary (\<^verbatim>\<open>src/dict.c\<close>), sets (\<^verbatim>\<open>src/set.c\<close>),
  string buffers (\<^verbatim>\<open>src/strbuf.c\<close>), and pattern matching (\<^verbatim>\<open>src/match.c\<close>).  Databases have namespaces, which are
  databases (\<^verbatim>\<open>src/ns.c\<close>), and a text format (\<^verbatim>\<open>src/text.c\<close>); values can be JSON (\<^verbatim>\<open>src/json.c\<close>).  Queries (\<^verbatim>\<open>src/query.c\<close>) are texts of
  commands that reach all of these operations.

  \<^bold>\<open>The theories.\<close>  Each has the state of its component as a record and one definition per C function under the
  name of the function; local loops have names of their own.  Operations return the C result together with the new state.

  \<^item> \<open>Sdb_Prelude\<close>: machine types, C strings and the functions of the C library on them, separated strings,
    little-endian integers.
  \<^item> \<open>Map_Interface\<close>: the contracts \<open>map_impl\<close> (a finite map under insert, update and delete) and \<open>kv_store\<close> (a store of
    strings in which writing the empty string removes a key), with their consequences for sequences of operations.
    \<open>Ht\<close>, \<open>Sdb_Ht\<close>, \<open>Dict\<close> and \<open>Sdb_Core\<close> interpret them.
  \<^item> \<open>Cmp_Order\<close>: the contract \<open>cmp_order\<close> of a C comparison function and what sorting with it gives.
    \<open>Sdb_Array\<close> and \<open>Iter\<close> interpret it.
  \<^item> \<open>Sdb_Util\<close>, \<open>Base64\<close>: hashing, numbers in text, fields of arrays; the encoder and the decoder with their buffers.
    Round trips and buffer bounds.
  \<^item> \<open>Ht\<close>, \<open>Sdb_Ht\<close>: the buckets, growth included, the tables of \<^verbatim>\<open>SdbKv\<close>, the sets.  Refinement of finite maps and sets.
  \<^item> \<open>Buffer\<close>, \<open>Cdb_Make\<close>, \<open>Cdb\<close>: writing and reading the file byte by byte.  Termination and success of the writer, the
    round trip of writer and reader, the limits of the format.
  \<^item> \<open>Sdb_Core\<close>: get, set, unset, add, rename, concatenation, expiry, hooks, \<^verbatim>\<open>cas\<close> counters.  A database in memory
    refines a finite map; compare-and-swap; size limits.
  \<^item> \<open>Journal\<close>: the journal on a file system given as a map; recovery after a stop.
  \<^item> \<open>Iter\<close>: walking over a database, dumping, listing, merging, matching, renaming and unsetting by pattern.
  \<^item> \<open>Disk\<close>: opening a file, writing the new one beside it, replacing it and synchronising; whether creating, flushing, closing, renaming,
    opening, reading and \<^verbatim>\<open>fstat\<close> work is an argument.  A successful \<^verbatim>\<open>sdb_sync\<close> keeps every value, it succeeds when the system lets it, and a failed one
    leaves the files alone or has put the complete new one in place, and leaves the database as it was if its file can be opened again.
  \<^item> \<open>Ns\<close>: trees of databases (\<^verbatim>\<open>src/ns.c\<close>) on an explicit heap, with reference counts, locks, paths and \<^verbatim>\<open>sdb_free\<close>.  The states
    that the operations reach, releases included, are well-formed and no released database is accessed; a path that was made is found again,
    setting and unsetting a namespace restores the counts.
  \<^item> \<open>Text\<close>: the text format (\<^verbatim>\<open>src/text.c\<close>), saving a tree and loading it as a state machine over characters.  Their round trip.
  \<^item> \<open>Diff\<close>: the comparison of two trees of databases (\<^verbatim>\<open>src/diff.c\<close>).  It reports exactly the entries and namespaces that are in
    one tree and not in the other.
  \<^item> \<open>Js0n\<close>, \<open>Json\<close>: the tokenizer of JSON (\<^verbatim>\<open>src/json/js0n.c\<close>) in its two programs, which agree but on one byte, and what it writes for the
    text of a value; ranges, paths and lookup (\<^verbatim>\<open>src/json/\<close>), members of values in the database, formatting and indentation (\<^verbatim>\<open>src/json.c\<close>).
    A member is found at its path, what is written is read back, and the blocks are large enough, with the exceptions listed
    as lemmas at the end.
  \<^item> \<open>Sdb_Query\<close>: the parser and the commands of queries (\<^verbatim>\<open>src/query.c\<close>), each a call of the operations of the other theories.  A quoted
    value that is written at a path is read back, plain or encoded; dumps print every entry, and stay inside their array when the names fit.  The
    lemmas at the end are commands that do something else than their description says.
  \<^item> \<open>Sdb_Num\<close>, \<open>Sdb_Array\<close>, \<open>Fmt\<close>, \<open>Strbuf\<close>: numbers, arrays, structures and string buffers, against lists of fields.
  \<^item> \<open>Match\<close>: glob patterns against a recursive definition.
  \<^item> \<open>Dict\<close>: refinement of a finite map.
  \<^item> \<open>Ls\<close>: linked lists on an explicit heap of nodes.  Refinement of sequences by the contract \<open>list_impl\<close>, and both sorts.

  \<^bold>\<open>Bounds and fuel.\<close>  Loops are recursive functions with a measure, except where the data they follow can be cyclic or
  the callback is arbitrary: loops over nodes of a list have the number of nodes on the heap as fuel, which is enough for a
  well-formed list (\<open>iters_npath\<close>, \<open>merge_loop_ok\<close>, \<open>merge_sort_ok\<close>); the insertion into a table that may grow has fuel 2,
  since a table that has just grown does not grow again (\<open>insert_all_ok\<close>); the search for a free slot of the writer is bounded by the size of the
  table and shown to find one; the walk over a file is bounded by its size.  A namespace may contain itself, so the recursions of \<open>Ns\<close>, \<open>Text\<close>
  and \<open>Diff\<close> into namespaces have fuel; running out of it is an error of the model (\<open>Out_Of_Fuel\<close>), and the depth of the tree is enough.  Queries have fuel for dumps of
  namespaces and for files that run files (\<open>No_Fuel\<close>): the depth of the tree is enough for a dump (\<open>walk_namespace_ok\<close>), none is enough for a file that runs itself
  (\<open>query_file_self\<close>); the loop over the commands of a query has a measure.  Tables are considered up to
  2147483647 elements, below which no size computation wraps around, dictionaries up to \<open>2\<^sup>3\<^sup>1\<close> buckets, and string buffers, whose lengths are \<^verbatim>\<open>int\<close>,
  up to \<open>2\<^sup>3\<^sup>0 - 130\<close> bytes (\<open>sb_fits\<close>), beyond which an overflow is an error of the model.  Unsetting a namespace needs more fuel than there are databases
  (\<open>ns_reset_ok\<close>).

  \<^bold>\<open>Not modelled.\<close>  Release of memory and failing allocations; \<^verbatim>\<open>gperf\<close> tables; platform code.  Writing a
  whole tree to files (\<^verbatim>\<open>sdb_ns_sync\<close>), and the system calls of \<^verbatim>\<open>src/lock.c\<close> and \<^verbatim>\<open>src/file.c\<close> are open;
  the allocators, the command line, the generators, the memcache server, the bindings and the tables over the vendored \<^verbatim>\<open>cwisstable.h\<close> are left out.
\<close>

end
